(* ===== verification/Host_Prelude.thy ===== *)
theory Host_Prelude
  imports Main "HOL-Library.Multiset" "HOL-Library.Word" "HOL-Library.Char_ord" "HOL-Library.List_Lexorder"
begin

text \<open>
  Shared vocabulary of the development: the identifier types of the session
  wire protocol, the composite session key of \<^verbatim>\<open>internal/registry/registry.go\<close>, the
  wire error codes the Host answers with, and the generic facts on maps, lists
  and 64-bit words that the component theories use.

  A Go string is a \<^typ>\<open>string\<close> (a list of bytes, compared bytewise as Go compares
  them), a \<^verbatim>\<open>uint64\<close> is a \<^typ>\<open>64 word\<close> whose addition and subtraction wrap, an
  instant is an \<^typ>\<open>int\<close>, and an interface value whose methods the component never
  calls (a launch target, a runtime) is an opaque handle.
\<close>

section \<open>Types\<close>

type_synonym tenant_id = string
type_synonym session_id = string
type_synonym agent_id = string
type_synonym compat_id = string
type_synonym host_id = string
type_synonym u64 = "64 word"
type_synonym instant = int
type_synonym handle = nat

text \<open>The composite identity of a resident session; never a bare session id.\<close>

datatype Key = Key (TenantID: tenant_id) (SessionID: session_id)

text \<open>The order of \<^verbatim>\<open>lessKey\<close>: by tenant, then by session.\<close>

definition lessKey :: "Key \<Rightarrow> Key \<Rightarrow> bool" where
  "lessKey a b =
     (if TenantID a \<noteq> TenantID b then TenantID a < TenantID b
      else SessionID a < SessionID b)"

instantiation Key :: linorder
begin

definition less_Key :: "Key \<Rightarrow> Key \<Rightarrow> bool" where
  "less_Key a b = lessKey a b"

definition less_eq_Key :: "Key \<Rightarrow> Key \<Rightarrow> bool" where
  "less_eq_Key a b = (a = b \<or> lessKey a b)"

instance
proof
  fix x y z :: Key
  show "x < y \<longleftrightarrow> x \<le> y \<and> \<not> y \<le> x"
    by (auto simp: less_Key_def less_eq_Key_def lessKey_def split: if_splits)
  show "x \<le> x" by (simp add: less_eq_Key_def)
  show "x \<le> y \<Longrightarrow> y \<le> z \<Longrightarrow> x \<le> z"
    by (auto simp: less_eq_Key_def lessKey_def split: if_splits)
  show "x \<le> y \<Longrightarrow> y \<le> x \<Longrightarrow> x = y"
    by (auto simp: less_eq_Key_def lessKey_def split: if_splits)
  show "x \<le> y \<or> y \<le> x"
    by (cases x; cases y) (auto simp: less_eq_Key_def lessKey_def)
qed

end

text \<open>
  The wire codes of Core's HostLink error vocabulary that the Host's own code
  names.
\<close>

datatype HostLinkErrorCode =
    NotAdmitting | NoCapacity | RuntimeUnavailable | RuntimeMismatch | EpochMismatch | Releasing

section \<open>Collections of facts\<close>

named_theorems reg_defs \<open>definitions of the residency registry\<close>
named_theorems cap_defs \<open>definitions of the admission ledger\<close>
named_theorems fence_defs \<open>definitions of the epoch fence\<close>
named_theorems hb_defs \<open>definitions of the residency heartbeat\<close>
named_theorems att_defs \<open>definitions of the attach sequence\<close>
named_theorems link_defs \<open>definitions of the link multiplexer\<close>

section \<open>Maps\<close>

text \<open>Deleting a key of a Go map.\<close>

definition map_del :: "'k \<Rightarrow> ('k \<rightharpoonup> 'v) \<Rightarrow> 'k \<rightharpoonup> 'v" where
  "map_del k m = m(k := None)"

lemma map_del_same [simp]: "map_del k m k = None"
  by (simp add: map_del_def)

lemma map_del_other [simp]: "k' \<noteq> k \<Longrightarrow> map_del k m k' = m k'"
  by (simp add: map_del_def)

lemma map_del_eq_Some [simp]: "map_del k m k' = Some v \<longleftrightarrow> k' \<noteq> k \<and> m k' = Some v"
  by (simp add: map_del_def)

lemma dom_map_del [simp]: "dom (map_del k m) = dom m - {k}"
  by (simp add: map_del_def)

section \<open>Sorting\<close>

text \<open>Sorting the values of a list of keys by their key is sorting the keys.\<close>

lemma sort_key_of_keys:
  assumes "\<And>k. k \<in> set ks \<Longrightarrow> f (v k) = k"
  shows "sort_key f (map v ks) = map v (sort ks)"
proof (rule sort_key_inj_key_eq)
  show "inj_on f (set (map v ks))" using assms by (auto simp: inj_on_def)
  have "map (\<lambda>k. f (v k)) (sort ks) = sort ks" using assms by (intro map_idI) simp
  then show "sorted (map f (map v (sort ks)))" by (simp add: comp_def)
qed simp

lemma sort_distinct_set: "distinct ks \<Longrightarrow> sort ks = sorted_list_of_set (set ks)"
  by (metis sorted_list_of_set_sort_remdups distinct_remdups_id)

section \<open>64-bit words\<close>

text \<open>The facts on wrap-around that the counters need.\<close>

lemma unat_inc_no_wrap:
  fixes w :: u64
  assumes "w \<noteq> - 1"
  shows "unat (w + 1) = unat w + 1"
  using assms unatSuc [of w] by (metis Suc_eq_plus1 add.commute eq_neg_iff_add_eq_0)

lemma unat_sub_le:
  fixes a b :: u64
  assumes "b \<le> a"
  shows "unat (a - b) = unat a - unat b"
  using assms by (simp add: unat_sub)

lemma unat_add_fits:
  fixes a b c :: u64
  assumes "unat a + unat b \<le> unat c"
  shows "unat (a + b) = unat a + unat b"
proof -
  have "unat c < 2 ^ LENGTH(64)" by (rule unsigned_less)
  with assms have "unat a + unat b < 2 ^ LENGTH(64)" by (rule order_le_less_trans)
  then show ?thesis using unat_add_lem [of a b] by blast
qed

section \<open>UTF-8\<close>

text \<open>
  \<^verbatim>\<open>utf8.ValidString\<close> of the Go library, on the bytes of a string: the first byte
  fixes the length and the range of the second byte, which excludes overlong
  encodings, surrogates and code points beyond \<open>0x10FFFF\<close>.
\<close>

definition cont :: "nat \<Rightarrow> bool" where
  "cont b = (128 \<le> b \<and> b \<le> 191)"

fun utf8_valid :: "nat list \<Rightarrow> bool" where
  "utf8_valid [] = True"
| "utf8_valid (b # bs) =
    (if b < 128 then utf8_valid bs
     else if 194 \<le> b \<and> b \<le> 223 then
       (case bs of c # r \<Rightarrow> cont c \<and> utf8_valid r | _ \<Rightarrow> False)
     else if 224 \<le> b \<and> b \<le> 239 then
       (case bs of
          c # d # r \<Rightarrow>
            cont c \<and> (b = 224 \<longrightarrow> 160 \<le> c) \<and> (b = 237 \<longrightarrow> c \<le> 159) \<and> cont d \<and> utf8_valid r
        | _ \<Rightarrow> False)
     else if 240 \<le> b \<and> b \<le> 244 then
       (case bs of
          c # d # e # r \<Rightarrow>
            cont c \<and> (b = 240 \<longrightarrow> 144 \<le> c) \<and> (b = 244 \<longrightarrow> c \<le> 143) \<and> cont d \<and> cont e \<and> utf8_valid r
        | _ \<Rightarrow> False)
     else False)"

definition ValidString :: "string \<Rightarrow> bool" where
  "ValidString s = utf8_valid (map of_char s)"

end
