(* ===== verification/Registry.thy ===== *)
theory Registry
  imports Host_Prelude
begin

text \<open>
  The residency registry, \<^verbatim>\<open>internal/registry/registry.go\<close>: the tenant-aware index
  of the sessions a Host currently holds.  Every method runs under the registry's
  mutex, so each is one atomic state transformer; the clock reading it takes is
  the argument \<open>now\<close>.  A Go result \<open>(Entry, bool)\<close> is a pair whose first part is
  \<^term>\<open>None\<close> where the code returns the zero \<open>Entry\<close>.

  The theory shows that the generation rule of \<open>current\<close> is what makes a late
  caller harmless: the locale \<open>generation_fenced\<close> states the rule once for a
  mutating method, all six methods interpret it, and the trace theorems (one
  teardown owner per residency, no operation through a retired generation)
  follow for every interleaving of fewer than \<open>2 ^ 64\<close> operations.
\<close>

section \<open>State\<close>

datatype ResidencyState = StateResident | StateReleasing | StateDraining

record Entry =
  eKey :: Key
  eAgentID :: agent_id
  eTarget :: handle
  eCompatibilityID :: compat_id
  eRuntime :: handle
  eLeaseEpoch :: u64
  eGeneration :: u64
  eState :: ResidencyState
  eAccepting :: bool
  eLastActivity :: instant
  eTeardownOwned :: bool

record Admission =
  aAgentID :: agent_id
  aTarget :: handle
  aCompatibilityID :: compat_id
  aRuntime :: handle
  aLeaseEpoch :: u64

record Registry =
  entries :: "Key \<rightharpoonup> Entry"
  nextGeneration :: u64

section \<open>Operations\<close>

definition New :: Registry where
  "New = \<lparr> entries = Map.empty, nextGeneration = 0 \<rparr>"

definition newEntry :: "Key \<Rightarrow> Admission \<Rightarrow> u64 \<Rightarrow> instant \<Rightarrow> Entry" where
  "newEntry key admission generation now =
     \<lparr> eKey = key, eAgentID = aAgentID admission, eTarget = aTarget admission,
       eCompatibilityID = aCompatibilityID admission, eRuntime = aRuntime admission,
       eLeaseEpoch = aLeaseEpoch admission, eGeneration = generation,
       eState = StateResident, eAccepting = True, eLastActivity = now,
       eTeardownOwned = False \<rparr>"

definition Insert ::
  "Key \<Rightarrow> Admission \<Rightarrow> instant \<Rightarrow> Registry \<Rightarrow> (Entry \<times> bool) \<times> Registry" where
  "Insert key admission now r =
     (case entries r key of
        Some existing \<Rightarrow> ((existing, False), r)
      | None \<Rightarrow>
          let g = nextGeneration r + 1; e = newEntry key admission g now
          in ((e, True), r\<lparr> entries := (entries r)(key \<mapsto> e), nextGeneration := g \<rparr>))"

definition Get :: "Key \<Rightarrow> Registry \<Rightarrow> Entry option" where
  "Get key r = entries r key"

definition current :: "Key \<Rightarrow> u64 \<Rightarrow> Registry \<Rightarrow> Entry option" where
  "current key generation r =
     (case entries r key of
        None \<Rightarrow> None
      | Some e \<Rightarrow> if eGeneration e \<noteq> generation then None else Some e)"

text \<open>Writing through the pointer \<open>current\<close> returned.\<close>

definition store :: "Key \<Rightarrow> Entry \<Rightarrow> Registry \<Rightarrow> Registry" where
  "store key e r = r\<lparr> entries := (entries r)(key \<mapsto> e) \<rparr>"

definition StopAdmitting ::
  "Key \<Rightarrow> u64 \<Rightarrow> instant \<Rightarrow> Registry \<Rightarrow> (Entry option \<times> bool) \<times> Registry" where
  "StopAdmitting key generation now r =
     (case current key generation r of
        None \<Rightarrow> ((None, False), r)
      | Some e \<Rightarrow>
          let e' = e\<lparr> eAccepting := False, eLastActivity := now \<rparr>
          in ((Some e', True), store key e' r))"

definition MarkReleasing ::
  "Key \<Rightarrow> u64 \<Rightarrow> instant \<Rightarrow> Registry \<Rightarrow> (Entry option \<times> bool) \<times> Registry" where
  "MarkReleasing key generation now r =
     (case current key generation r of
        None \<Rightarrow> ((None, False), r)
      | Some e \<Rightarrow>
          let e' = e\<lparr> eState := StateReleasing, eAccepting := False, eLastActivity := now \<rparr>
          in ((Some e', True), store key e' r))"

definition ResumeResident ::
  "Key \<Rightarrow> u64 \<Rightarrow> instant \<Rightarrow> Registry \<Rightarrow> (Entry option \<times> bool) \<times> Registry" where
  "ResumeResident key generation now r =
     (case current key generation r of
        None \<Rightarrow> ((None, False), r)
      | Some e \<Rightarrow>
          if eTeardownOwned e \<or> (eState e \<noteq> StateReleasing \<and> eState e \<noteq> StateResident)
          then ((None, False), r)
          else
            let e' = e\<lparr> eState := StateResident, eAccepting := True, eLastActivity := now \<rparr>
            in ((Some e', True), store key e' r))"

definition BeginTeardown ::
  "Key \<Rightarrow> u64 \<Rightarrow> instant \<Rightarrow> Registry \<Rightarrow> (Entry option \<times> bool) \<times> Registry" where
  "BeginTeardown key generation now r =
     (case current key generation r of
        None \<Rightarrow> ((None, False), r)
      | Some e \<Rightarrow>
          if eTeardownOwned e then ((Some e, False), r)
          else
            let e' = e\<lparr> eTeardownOwned := True, eState := StateDraining,
                        eAccepting := False, eLastActivity := now \<rparr>
            in ((Some e', True), store key e' r))"

definition Touch :: "Key \<Rightarrow> u64 \<Rightarrow> instant \<Rightarrow> Registry \<Rightarrow> bool \<times> Registry" where
  "Touch key generation now r =
     (case current key generation r of
        None \<Rightarrow> (False, r)
      | Some e \<Rightarrow> (True, store key (e\<lparr> eLastActivity := now \<rparr>) r))"

definition RemoveByGeneration :: "Key \<Rightarrow> u64 \<Rightarrow> Registry \<Rightarrow> bool \<times> Registry" where
  "RemoveByGeneration key generation r =
     (case current key generation r of
        None \<Rightarrow> (False, r)
      | Some e \<Rightarrow> (True, r\<lparr> entries := map_del key (entries r) \<rparr>))"

text \<open>
  Iteration over a Go map visits the keys in an order the language does not fix.
  The loops take the visiting order as an argument; the operation itself runs
  them in key order, and \<open>RemoveStale_any_order\<close> and \<open>Snapshot_any_order\<close> show
  that the order does not matter.
\<close>

definition sortKeys :: "Key list \<Rightarrow> Key list" where
  "sortKeys ks = sort ks"

fun removeStaleLoop ::
  "Key list \<Rightarrow> instant \<Rightarrow> Key list \<Rightarrow> Registry \<Rightarrow> Key list \<times> Registry" where
  "removeStaleLoop [] before removed r = (removed, r)"
| "removeStaleLoop (k # ks) before removed r =
     (case entries r k of
        None \<Rightarrow> removeStaleLoop ks before removed r
      | Some e \<Rightarrow>
          if eState e = StateResident \<or> \<not> eLastActivity e < before
          then removeStaleLoop ks before removed r
          else removeStaleLoop ks before (removed @ [k])
                 (r\<lparr> entries := map_del k (entries r) \<rparr>))"

definition RemoveStale_over :: "Key list \<Rightarrow> instant \<Rightarrow> Registry \<Rightarrow> Key list \<times> Registry" where
  "RemoveStale_over ks before r =
     (case removeStaleLoop ks before [] r of (removed, r') \<Rightarrow> (sortKeys removed, r'))"

definition keysOf :: "Registry \<Rightarrow> Key list" where
  "keysOf r = sorted_list_of_set (dom (entries r))"

definition RemoveStale :: "instant \<Rightarrow> Registry \<Rightarrow> Key list \<times> Registry" where
  "RemoveStale before r = RemoveStale_over (keysOf r) before r"

definition Snapshot_over :: "Key list \<Rightarrow> Registry \<Rightarrow> Entry list" where
  "Snapshot_over ks r = sort_key eKey (List.map_filter (entries r) ks)"

definition Snapshot :: "Registry \<Rightarrow> Entry list" where
  "Snapshot r = Snapshot_over (keysOf r) r"

definition Len :: "Registry \<Rightarrow> nat" where
  "Len r = card (dom (entries r))"

lemmas registry_ops [reg_defs] =
  Insert_def Get_def current_def store_def StopAdmitting_def MarkReleasing_def
  ResumeResident_def BeginTeardown_def Touch_def RemoveByGeneration_def Let_def

section \<open>The generation rule\<close>

text \<open>
  What a mutating method promises: through a generation that is not the current
  one it does nothing and says so; it touches no other session's row; and it never
  changes which residency a row stands for, nor gives a teardown claim back.
\<close>

locale generation_fenced =
  fixes act :: "Key \<Rightarrow> u64 \<Rightarrow> Registry \<Rightarrow> bool \<times> Registry"
  assumes act_stale: "current k g r = None \<Longrightarrow> act k g r = (False, r)"
    and act_frame: "k' \<noteq> k \<Longrightarrow> entries (snd (act k g r)) k' = entries r k'"
    and act_keeps: "entries (snd (act k g r)) k = Some e \<Longrightarrow>
          \<exists>e0. entries r k = Some e0 \<and> eGeneration e = eGeneration e0 \<and> eKey e = eKey e0 \<and>
               eLeaseEpoch e = eLeaseEpoch e0 \<and> (eTeardownOwned e0 \<longrightarrow> eTeardownOwned e)"
    and act_next: "nextGeneration (snd (act k g r)) = nextGeneration r"
begin

lemma success_is_current: "fst (act k g r) \<Longrightarrow> \<exists>e. current k g r = Some e"
  using act_stale [of k g r] by (cases "current k g r") auto

lemma current_was_current:
  assumes "current k' g' (snd (act k g r)) = Some e"
  obtains e0 where "current k' g' r = Some e0" "eTeardownOwned e0 \<Longrightarrow> eTeardownOwned e"
    "eKey e = eKey e0" "eLeaseEpoch e = eLeaseEpoch e0"
proof (cases "k' = k")
  case True
  then have "entries (snd (act k g r)) k = Some e" and "eGeneration e = g'"
    using assms by (auto simp: current_def split: option.splits if_splits)
  with act_keeps [of k g r e] obtain e0 where
    "entries r k = Some e0" "eGeneration e0 = g'" "eTeardownOwned e0 \<longrightarrow> eTeardownOwned e"
    "eKey e = eKey e0" "eLeaseEpoch e = eLeaseEpoch e0" by auto
  then show ?thesis using that [of e0] True by (auto simp: current_def)
next
  case False
  then have "current k' g' r = Some e"
    using assms by (simp add: current_def act_frame)
  then show ?thesis using that by blast
qed

lemma dom_shrinks: "dom (entries (snd (act k g r))) \<subseteq> dom (entries r)"
proof
  fix x assume "x \<in> dom (entries (snd (act k g r)))"
  then show "x \<in> dom (entries r)"
    by (cases "x = k") (auto dest: act_keeps simp: act_frame)
qed

end

text \<open>The verdict and the next state of a method that also returns an entry.\<close>

abbreviation verdict :: "('a \<times> bool) \<times> 's \<Rightarrow> bool \<times> 's" where
  "verdict x \<equiv> (snd (fst x), snd x)"

interpretation stop: generation_fenced "\<lambda>k g r. verdict (StopAdmitting k g now r)" for now
  by unfold_locales (auto simp: reg_defs split: option.splits if_splits)

interpretation mark: generation_fenced "\<lambda>k g r. verdict (MarkReleasing k g now r)" for now
  by unfold_locales (auto simp: reg_defs split: option.splits if_splits)

interpretation resume: generation_fenced "\<lambda>k g r. verdict (ResumeResident k g now r)" for now
  by unfold_locales (auto simp: reg_defs split: option.splits if_splits)

interpretation teardown: generation_fenced "\<lambda>k g r. verdict (BeginTeardown k g now r)" for now
  by unfold_locales (auto simp: reg_defs split: option.splits if_splits)

interpretation touch: generation_fenced "\<lambda>k g r. Touch k g now r" for now
  by unfold_locales (auto simp: reg_defs split: option.splits if_splits)

interpretation remove: generation_fenced RemoveByGeneration
  by unfold_locales (auto simp: reg_defs split: option.splits if_splits)

section \<open>The sweep and the snapshot\<close>

definition stale :: "instant \<Rightarrow> Registry \<Rightarrow> Key \<Rightarrow> bool" where
  "stale before r k =
     (case entries r k of
        None \<Rightarrow> False
      | Some e \<Rightarrow> eState e \<noteq> StateResident \<and> eLastActivity e < before)"

lemma removeStaleLoop_Cons:
  "removeStaleLoop (k # ks) before acc r =
     (if stale before r k
      then removeStaleLoop ks before (acc @ [k]) (r\<lparr> entries := map_del k (entries r) \<rparr>)
      else removeStaleLoop ks before acc r)"
  by (auto simp: stale_def split: option.splits)

declare removeStaleLoop.simps(2) [simp del]

lemma stale_map_del [simp]:
  "stale before (r\<lparr> entries := map_del k (entries r) \<rparr>) k' = (k' \<noteq> k \<and> stale before r k')"
  by (auto simp: stale_def map_del_def)

lemma removeStaleLoop_spec:
  assumes "distinct ks"
  shows "removeStaleLoop ks before acc r =
    (acc @ filter (stale before r) ks,
     r\<lparr> entries := (\<lambda>k. if k \<in> set ks \<and> stale before r k then None else entries r k) \<rparr>)"
  using assms
proof (induction ks arbitrary: acc r)
  case Nil
  then show ?case by simp
next
  case (Cons x xs)
  then have x: "x \<notin> set xs" and d: "distinct xs" by auto
  have flt: "filter (\<lambda>k. k \<noteq> x \<and> stale before r k) xs = filter (stale before r) xs"
    using x by (auto intro: filter_cong)
  show ?case
  proof (cases "stale before r x")
    case True
    then have "removeStaleLoop (x # xs) before acc r =
        (acc @ [x] @ filter (stale before r) xs,
         r\<lparr> entries := (\<lambda>k. if k \<in> set xs \<and> k \<noteq> x \<and> stale before r k then None
                          else map_del x (entries r) k) \<rparr>)"
      using flt by (simp add: removeStaleLoop_Cons Cons.IH [OF d] cong: if_cong)
    moreover have "(\<lambda>k. if k \<in> set xs \<and> k \<noteq> x \<and> stale before r k then None
                         else map_del x (entries r) k)
        = (\<lambda>k. if k \<in> set (x # xs) \<and> stale before r k then None else entries r k)"
      using True by (auto simp: map_del_def)
    ultimately show ?thesis using True by simp
  next
    case False
    then have "(\<lambda>k. if k \<in> set xs \<and> stale before r k then None else entries r k)
        = (\<lambda>k. if k \<in> set (x # xs) \<and> stale before r k then None else entries r k)"
      by auto
    with False show ?thesis by (simp add: removeStaleLoop_Cons Cons.IH [OF d])
  qed
qed

lemma RemoveStale_over_spec:
  assumes "distinct ks" "set ks = dom (entries r)"
  shows "RemoveStale_over ks before r =
    (sorted_list_of_set {k. stale before r k},
     r\<lparr> entries := (\<lambda>k. if stale before r k then None else entries r k) \<rparr>)"
proof -
  have dom: "stale before r k \<Longrightarrow> k \<in> set ks" for k
    using assms(2) by (auto simp: stale_def split: option.splits)
  have "sort (filter (stale before r) ks) = sorted_list_of_set {k. stale before r k}"
  proof (rule sorted_distinct_set_unique)
    have "finite {k. stale before r k}"
      using dom by (auto intro: finite_subset [of _ "set ks"])
    then show "set (sort (filter (stale before r) ks)) = set (sorted_list_of_set {k. stale before r k})"
      using dom by auto
  qed (use assms(1) in auto)
  moreover have "(\<lambda>k. if k \<in> set ks \<and> stale before r k then None else entries r k)
      = (\<lambda>k. if stale before r k then None else entries r k)"
    using dom by auto
  ultimately show ?thesis
    by (simp add: RemoveStale_over_def removeStaleLoop_spec [OF assms(1)] sortKeys_def)
qed

lemma keysOf_props:
  assumes "finite (dom (entries r))"
  shows "distinct (keysOf r)" "set (keysOf r) = dom (entries r)"
  using assms by (simp_all add: keysOf_def)

lemma RemoveStale_spec:
  assumes "finite (dom (entries r))"
  shows "RemoveStale before r =
    (sorted_list_of_set {k. stale before r k},
     r\<lparr> entries := (\<lambda>k. if stale before r k then None else entries r k) \<rparr>)"
  unfolding RemoveStale_def by (rule RemoveStale_over_spec [OF keysOf_props [OF assms]])

lemma Snapshot_over_spec:
  assumes "distinct ks" "set ks = dom (entries r)" "\<And>k e. entries r k = Some e \<Longrightarrow> eKey e = k"
  shows "Snapshot_over ks r = map (\<lambda>k. the (entries r k)) (sorted_list_of_set (dom (entries r)))"
proof -
  let ?v = "\<lambda>k. the (entries r k)"
  have "filter (\<lambda>k. entries r k \<noteq> None) ks = ks"
    using assms(2) by (auto simp: filter_id_conv)
  then have mf: "List.map_filter (entries r) ks = map ?v ks"
    by (simp add: List.map_filter_def)
  have key: "k \<in> set ks \<Longrightarrow> eKey (?v k) = k" for k
    using assms(2,3) by (auto simp: dom_def)
  have "sort_key eKey (map ?v ks) = map ?v (sort ks)" by (rule sort_key_of_keys) (rule key)
  moreover have "sort ks = sorted_list_of_set (dom (entries r))"
    using sort_distinct_set [OF assms(1)] assms(2) by simp
  ultimately show ?thesis by (simp add: Snapshot_over_def mf)
qed

section \<open>Traces of operations\<close>

datatype RegOp =
    OInsert Key Admission
  | OStopAdmitting Key u64
  | OMarkReleasing Key u64
  | OResumeResident Key u64
  | OBeginTeardown Key u64
  | OTouch Key u64
  | ORemoveByGeneration Key u64
  | ORemoveStale instant

fun regExec :: "RegOp \<Rightarrow> instant \<Rightarrow> Registry \<Rightarrow> bool \<times> Registry" where
  "regExec (OInsert k a) now r = verdict (Insert k a now r)"
| "regExec (OStopAdmitting k g) now r = verdict (StopAdmitting k g now r)"
| "regExec (OMarkReleasing k g) now r = verdict (MarkReleasing k g now r)"
| "regExec (OResumeResident k g) now r = verdict (ResumeResident k g now r)"
| "regExec (OBeginTeardown k g) now r = verdict (BeginTeardown k g now r)"
| "regExec (OTouch k g) now r = Touch k g now r"
| "regExec (ORemoveByGeneration k g) now r = RemoveByGeneration k g r"
| "regExec (ORemoveStale before) now r = (True, snd (RemoveStale before r))"

text \<open>The residency a fenced operation names.\<close>

fun through :: "RegOp \<Rightarrow> (Key \<times> u64) option" where
  "through (OStopAdmitting k g) = Some (k, g)"
| "through (OMarkReleasing k g) = Some (k, g)"
| "through (OResumeResident k g) = Some (k, g)"
| "through (OBeginTeardown k g) = Some (k, g)"
| "through (OTouch k g) = Some (k, g)"
| "through (ORemoveByGeneration k g) = Some (k, g)"
| "through _ = None"

fun regRun :: "(RegOp \<times> instant) list \<Rightarrow> Registry \<Rightarrow> bool list \<times> Registry" where
  "regRun [] r = ([], r)"
| "regRun ((op, now) # ops) r =
     (let (b, r') = regExec op now r; (bs, r'') = regRun ops r' in (b # bs, r''))"

text \<open>
  The invariant of a registry: rows sit under their own key, generations are
  positive, never ahead of the counter and never shared, an accepting row is a
  resident one nobody tears down, and a draining row has an owner.
\<close>

definition entry_ok :: "Entry \<Rightarrow> bool" where
  "entry_ok e =
     ((eAccepting e \<longrightarrow> eState e = StateResident) \<and>
      (eTeardownOwned e \<longrightarrow> eState e \<noteq> StateResident) \<and>
      (eState e = StateDraining \<longrightarrow> eTeardownOwned e))"

definition reg_inv :: "Registry \<Rightarrow> bool" where
  "reg_inv r =
     (finite (dom (entries r)) \<and>
      (\<forall>k e. entries r k = Some e \<longrightarrow>
         eKey e = k \<and> entry_ok e \<and> 0 < unat (eGeneration e) \<and>
         unat (eGeneration e) \<le> unat (nextGeneration r)) \<and>
      (\<forall>k k' e e'. entries r k = Some e \<longrightarrow> entries r k' = Some e' \<longrightarrow>
         eGeneration e = eGeneration e' \<longrightarrow> k = k'))"

lemma reg_inv_New: "reg_inv New"
  by (simp add: reg_inv_def New_def)

lemma reg_invD:
  assumes "reg_inv r"
  shows "finite (dom (entries r))"
    and "entries r k = Some e \<Longrightarrow> eKey e = k"
    and "entries r k = Some e \<Longrightarrow> entry_ok e"
    and "entries r k = Some e \<Longrightarrow> 0 < unat (eGeneration e)"
    and "entries r k = Some e \<Longrightarrow> unat (eGeneration e) \<le> unat (nextGeneration r)"
    and "entries r k = Some e \<Longrightarrow> entries r k' = Some e' \<Longrightarrow> eGeneration e = eGeneration e' \<Longrightarrow> k = k'"
  using assms unfolding reg_inv_def by blast+

lemma currentD:
  "current k g r = Some e \<Longrightarrow> entries r k = Some e \<and> eGeneration e = g"
  by (auto simp: current_def split: option.splits if_splits)

lemma current_le:
  assumes "reg_inv r" "current k g r = Some e"
  shows "unat g \<le> unat (nextGeneration r)"
  using reg_invD(5) [OF assms(1), of k e] currentD [OF assms(2)] by simp

lemma reg_inv_store:
  assumes "reg_inv r" "entries r k = Some e" "eGeneration e' = eGeneration e" "eKey e' = eKey e"
    "entry_ok e'"
  shows "reg_inv (store k e' r)"
  using assms unfolding reg_inv_def store_def
  by (auto split: if_splits)

lemma reg_inv_restrict:
  assumes "reg_inv r" "\<And>k e. m k = Some e \<Longrightarrow> entries r k = Some e"
  shows "reg_inv (r\<lparr> entries := m \<rparr>)"
proof -
  have "dom m \<subseteq> dom (entries r)" using assms(2) by auto
  then have "finite (dom m)" using reg_invD(1) [OF assms(1)] finite_subset by blast
  then show ?thesis using assms unfolding reg_inv_def by simp (metis assms(2))
qed

lemma reg_inv_Insert:
  assumes "reg_inv r" "nextGeneration r \<noteq> - 1"
  shows "reg_inv (snd (Insert k a now r))"
proof (cases "entries r k")
  case None
  have g: "unat (nextGeneration r + 1) = unat (nextGeneration r) + 1"
    by (rule unat_inc_no_wrap [OF assms(2)])
  have fresh: "entries r k' = Some e \<Longrightarrow> eGeneration e \<noteq> nextGeneration r + 1" for k' e
    using reg_invD(5) [OF assms(1), of k' e] g by auto
  show ?thesis
    using assms(1) None g fresh unfolding reg_inv_def
    by (auto simp: Insert_def Let_def newEntry_def entry_ok_def le_Suc_eq split: if_splits dest: fresh)
next
  case (Some e)
  then show ?thesis using assms(1) by (simp add: Insert_def)
qed

lemma entry_ok_updates:
  assumes "entry_ok e"
  shows "entry_ok (e\<lparr> eAccepting := False, eLastActivity := t \<rparr>)"
    and "entry_ok (e\<lparr> eState := StateReleasing, eAccepting := False, eLastActivity := t \<rparr>)"
    and "\<not> eTeardownOwned e \<Longrightarrow>
         entry_ok (e\<lparr> eState := StateResident, eAccepting := True, eLastActivity := t \<rparr>)"
    and "entry_ok (e\<lparr> eTeardownOwned := True, eState := StateDraining,
                      eAccepting := False, eLastActivity := t \<rparr>)"
    and "entry_ok (e\<lparr> eLastActivity := t \<rparr>)"
  using assms by (auto simp: entry_ok_def)

lemma reg_inv_fenced_ops:
  assumes "reg_inv r"
  shows "reg_inv (snd (StopAdmitting k g now r))" "reg_inv (snd (MarkReleasing k g now r))"
    "reg_inv (snd (ResumeResident k g now r))" "reg_inv (snd (BeginTeardown k g now r))"
    "reg_inv (snd (Touch k g now r))" "reg_inv (snd (RemoveByGeneration k g r))"
  using assms
  by (auto simp: StopAdmitting_def MarkReleasing_def ResumeResident_def BeginTeardown_def
      Touch_def RemoveByGeneration_def Let_def entry_ok_updates split: option.splits
      dest!: currentD dest: reg_invD(3) intro!: reg_inv_store reg_inv_restrict)

lemma reg_inv_exec:
  assumes "reg_inv r" "nextGeneration r \<noteq> - 1"
  shows "reg_inv (snd (regExec op now r))"
proof (cases op)
  case (OInsert k a)
  then show ?thesis using reg_inv_Insert [OF assms] by simp
next
  case (ORemoveStale before)
  have "reg_inv (r\<lparr> entries := \<lambda>k. if stale before r k then None else entries r k \<rparr>)"
    by (rule reg_inv_restrict [OF assms(1)]) (auto split: if_splits)
  then show ?thesis
    using ORemoveStale by (simp add: RemoveStale_spec [OF reg_invD(1) [OF assms(1)]])
qed (use reg_inv_fenced_ops [OF assms(1)] in simp_all)

lemma exec_next:
  assumes "finite (dom (entries r))"
  shows "nextGeneration (snd (regExec op now r)) =
    (case op of OInsert k a \<Rightarrow> (if entries r k = None then nextGeneration r + 1 else nextGeneration r)
     | _ \<Rightarrow> nextGeneration r)"
proof (cases op)
  case (OInsert k a)
  then show ?thesis by (simp add: Insert_def Let_def split: option.splits)
next
  case (ORemoveStale before)
  then show ?thesis by (simp add: RemoveStale_spec [OF assms])
qed (simp_all add: stop.act_next [simplified] mark.act_next [simplified] resume.act_next [simplified]
    teardown.act_next [simplified] touch.act_next remove.act_next)

lemma exec_counter:
  assumes "nextGeneration r \<noteq> - 1" "finite (dom (entries r))"
  shows "unat (nextGeneration r) \<le> unat (nextGeneration (snd (regExec op now r)))"
    and "unat (nextGeneration (snd (regExec op now r))) \<le> Suc (unat (nextGeneration r))"
proof -
  consider "nextGeneration (snd (regExec op now r)) = nextGeneration r"
    | "nextGeneration (snd (regExec op now r)) = nextGeneration r + 1"
    using exec_next [OF assms(2), of op now] by (cases op) (auto split: if_splits)
  then show "unat (nextGeneration r) \<le> unat (nextGeneration (snd (regExec op now r)))"
    and "unat (nextGeneration (snd (regExec op now r))) \<le> Suc (unat (nextGeneration r))"
    using unat_inc_no_wrap [OF assms(1)] by (cases; simp)+
qed

text \<open>The budget of the 64-bit generation counter.\<close>

definition room :: "nat \<Rightarrow> Registry \<Rightarrow> bool" where
  "room n r = (reg_inv r \<and> unat (nextGeneration r) + n < 2 ^ 64)"

lemma roomD:
  assumes "room (Suc n) r"
  shows "reg_inv r" "nextGeneration r \<noteq> - 1" "finite (dom (entries r))"
proof -
  have "unat (- 1 :: u64) = 2 ^ 64 - 1"
    by (simp add: unsigned_minus_1_eq_mask mask_eq_exp_minus_1)
  with assms show "nextGeneration r \<noteq> - 1" by (auto simp: room_def)
qed (use assms in \<open>auto simp: room_def dest: reg_invD(1)\<close>)

lemma room_exec: "room (Suc n) r \<Longrightarrow> room n (snd (regExec op now r))"
  using reg_inv_exec [OF roomD(1,2)] exec_counter(2) [OF roomD(2,3), of n r n op now]
  by (auto simp: room_def)

lemmas fenced_success =
  stop.success_is_current [simplified] mark.success_is_current [simplified]
  resume.success_is_current [simplified] teardown.success_is_current [simplified]
  touch.success_is_current remove.success_is_current

lemmas fenced_was_current =
  stop.current_was_current [simplified] mark.current_was_current [simplified]
  resume.current_was_current [simplified] teardown.current_was_current [simplified]
  touch.current_was_current remove.current_was_current

lemma exec_current_origin:
  assumes room: "room (Suc n) r" and old: "unat g \<le> unat (nextGeneration r)"
    and now: "current k g (snd (regExec op now r)) = Some e"
  obtains e0 where "current k g r = Some e0" "eTeardownOwned e0 \<Longrightarrow> eTeardownOwned e"
proof (cases op)
  case (OInsert k' a)
  have "g \<noteq> nextGeneration r + 1"
    using old unat_inc_no_wrap [OF roomD(2) [OF room]] by auto
  then have "current k g r = Some e"
    using now OInsert by (auto simp: reg_defs newEntry_def split: option.splits if_splits)
  then show ?thesis using that by blast
next
  case (ORemoveStale before)
  then have "current k g r = Some e"
    using now by (auto simp: RemoveStale_spec [OF roomD(3) [OF room]] current_def
        split: option.splits if_splits)
  then show ?thesis using that by blast
qed (use now that in \<open>auto elim: fenced_was_current\<close>)

text \<open>
  A residency is settled once no row stands for it any more (retired) or the
  row that does has a teardown owner (claimed); both are permanent.
\<close>

definition retired :: "Key \<Rightarrow> u64 \<Rightarrow> Registry \<Rightarrow> bool" where
  "retired k g r = (unat g \<le> unat (nextGeneration r) \<and> current k g r = None)"

definition claimed :: "Key \<Rightarrow> u64 \<Rightarrow> Registry \<Rightarrow> bool" where
  "claimed k g r = (unat g \<le> unat (nextGeneration r) \<and>
     (\<forall>e. current k g r = Some e \<longrightarrow> eTeardownOwned e))"

lemma counter_exec:
  "room (Suc n) r \<Longrightarrow> m \<le> unat (nextGeneration r) \<Longrightarrow> m \<le> unat (nextGeneration (snd (regExec op now r)))"
  using exec_counter(1) [OF roomD(2,3)] order_trans by blast

lemma retired_exec:
  assumes "room (Suc n) r" "retired k g r"
  shows "retired k g (snd (regExec op now r))"
proof (cases "current k g (snd (regExec op now r))")
  case None
  then show ?thesis using assms counter_exec [OF assms(1)] by (simp add: retired_def)
next
  case (Some e)
  then show ?thesis
    using assms by (auto simp: retired_def elim: exec_current_origin [OF assms(1) _ Some])
qed

lemma claimed_exec:
  assumes "room (Suc n) r" "claimed k g r"
  shows "claimed k g (snd (regExec op now r))"
  unfolding claimed_def
proof (intro conjI allI impI)
  have old: "unat g \<le> unat (nextGeneration r)" using assms(2) by (simp add: claimed_def)
  show "unat g \<le> unat (nextGeneration (snd (regExec op now r)))"
    by (rule counter_exec [OF assms(1) old])
  fix e assume "current k g (snd (regExec op now r)) = Some e"
  from exec_current_origin [OF assms(1) old this] show "eTeardownOwned e"
    using assms(2) by (auto simp: claimed_def)
qed

lemma through_success:
  assumes "fst (regExec op now r)" "through op = Some (k, g)"
  shows "\<exists>e. current k g r = Some e"
  using assms
  by (cases op) (auto dest: fenced_success)

lemma run_Cons [simp]:
  "fst (regRun ((op, now) # ops) r) = fst (regExec op now r) # fst (regRun ops (snd (regExec op now r)))"
  "snd (regRun ((op, now) # ops) r) = snd (regRun ops (snd (regExec op now r)))"
  by (simp_all add: split_beta Let_def)

declare regRun.simps(2) [simp del]

lemma run_retired:
  assumes "room (length ops) r" "retired k g r" "j < length ops"
    "through (fst (ops ! j)) = Some (k, g)"
  shows "\<not> fst (regRun ops r) ! j"
  using assms
proof (induction ops arbitrary: r j)
  case (Cons x xs)
  obtain op now where x: "x = (op, now)" by (cases x)
  from Cons.prems have rm: "room (Suc (length xs)) r" by simp
  show ?case
  proof (cases j)
    case 0
    then show ?thesis
      using Cons.prems x through_success [of op now r k g] by (auto simp: retired_def)
  next
    case (Suc i)
    then show ?thesis
      using Cons.IH [OF room_exec [OF rm] retired_exec [OF rm Cons.prems(2)]] Cons.prems x by simp
  qed
qed simp

lemma claimed_no_win: "claimed k g r \<Longrightarrow> \<not> fst (regExec (OBeginTeardown k g) now r)"
  by (auto simp: claimed_def BeginTeardown_def split: option.splits)

lemma run_claimed:
  assumes "room (length ops) r" "claimed k g r" "j < length ops"
    "fst (ops ! j) = OBeginTeardown k g"
  shows "\<not> fst (regRun ops r) ! j"
  using assms
proof (induction ops arbitrary: r j)
  case (Cons x xs)
  obtain op now where x: "x = (op, now)" by (cases x)
  from Cons.prems have rm: "room (Suc (length xs)) r" by simp
  show ?case
  proof (cases j)
    case 0
    then show ?thesis
      using Cons.prems x claimed_no_win [of k g r now] by auto
  next
    case (Suc i)
    then show ?thesis
      using Cons.IH [OF room_exec [OF rm] claimed_exec [OF rm Cons.prems(2)]] Cons.prems x by simp
  qed
qed simp

section \<open>Properties\<close>

lemma room_New: "length ops < 2 ^ 64 \<Longrightarrow> room (length ops) New"
  by (simp add: room_def reg_inv_New) (simp add: New_def)

lemma run_inv: "room (length ops) r \<Longrightarrow> reg_inv (snd (regRun ops r))"
proof (induction ops arbitrary: r)
  case Nil
  then show ?case by (simp add: room_def)
next
  case (Cons x xs)
  then show ?case using room_exec by (cases x) simp
qed

lemma BeginTeardown_claims:
  assumes "snd (fst (BeginTeardown k g now r))" "current k g (snd (BeginTeardown k g now r)) = Some e"
  shows "eTeardownOwned e"
  using assms
  by (auto simp: BeginTeardown_def store_def Let_def current_def split: option.splits if_splits)

lemma win_claims:
  assumes rm: "room (Suc n) r" and win: "fst (regExec (OBeginTeardown k g) now r)"
  shows "claimed k g (snd (regExec (OBeginTeardown k g) now r))"
proof -
  obtain e where "current k g r = Some e" using through_success [OF win, of k g] by auto
  then have "unat g \<le> unat (nextGeneration r)" by (rule current_le [OF roomD(1) [OF rm]])
  then have "unat g \<le> unat (nextGeneration (snd (regExec (OBeginTeardown k g) now r)))"
    by (rule counter_exec [OF rm])
  then show ?thesis using win by (simp add: claimed_def BeginTeardown_claims)
qed

lemma claimed_regRun:
  assumes "room (length ops) r" "claimed k g r"
  shows "claimed k g (snd (regRun ops r))"
  using assms
proof (induction ops arbitrary: r)
  case (Cons x xs)
  then show ?case using room_exec claimed_exec by (cases x) (metis length_Cons run_Cons(2))
qed simp

lemma run_one_owner:
  assumes "room (length ops) r" "i < j" "j < length ops"
    "fst (ops ! i) = OBeginTeardown k g" "fst (ops ! j) = OBeginTeardown k g" "fst (regRun ops r) ! i"
  shows "\<not> fst (regRun ops r) ! j"
  using assms
proof (induction ops arbitrary: r i j)
  case (Cons x xs)
  obtain op now where x: "x = (op, now)" by (cases x)
  from Cons.prems have rm: "room (Suc (length xs)) r" by simp
  obtain j' where j: "j = Suc j'" using Cons.prems(2) by (cases j) auto
  show ?case
  proof (cases i)
    case 0
    then have op: "op = OBeginTeardown k g" and win: "fst (regExec op now r)"
      using Cons.prems x by simp_all
    then have "claimed k g (snd (regExec op now r))" using win_claims [OF rm] by simp
    then show ?thesis
      using run_claimed [OF room_exec [OF rm]] Cons.prems j x by simp
  next
    case (Suc i')
    then show ?thesis
      using Cons.IH [OF room_exec [OF rm], of i' j'] Cons.prems j x by simp
  qed
qed simp

text \<open>
  C14: a residency has one teardown owner.  In every interleaving of registry
  operations from the empty registry (any tenants, sessions and generations,
  fewer than \<open>2 ^ 64\<close> of them), once one \<open>BeginTeardown\<close> of a residency has
  succeeded no later \<open>BeginTeardown\<close> of the same residency does, whatever else
  happened in between: state changes, removal, re-insertion of the session.
\<close>

theorem one_teardown_owner:
  assumes "length ops < 2 ^ 64" "i < j" "j < length ops"
    and "fst (ops ! i) = OBeginTeardown k g" "fst (ops ! j) = OBeginTeardown k g"
    and "fst (regRun ops New) ! i"
  shows "\<not> fst (regRun ops New) ! j"
  by (rule run_one_owner [OF room_New [OF assms(1)] assms(2-)])

theorem one_teardown_owner_witness:
  "\<not> fst (regRun [(OInsert (Key ''t'' ''s'') \<lparr>aAgentID = ''a'', aTarget = 1, aCompatibilityID = ''c'',
                  aRuntime = 2, aLeaseEpoch = 7\<rparr>, 1),
               (OBeginTeardown (Key ''t'' ''s'') 1, 2),
               (OBeginTeardown (Key ''t'' ''s'') 1, 3)] New) ! 2"
  by (rule one_teardown_owner [where i = 1 and k = "Key ''t'' ''s''" and g = 1])
    (simp_all add: New_def reg_defs newEntry_def)

lemma run_removed:
  assumes "room (length ops) r" "i < j" "j < length ops"
    "fst (ops ! i) = ORemoveByGeneration k g" "fst (regRun ops r) ! i"
    "through (fst (ops ! j)) = Some (k, g)"
  shows "\<not> fst (regRun ops r) ! j"
  using assms
proof (induction ops arbitrary: r i j)
  case (Cons x xs)
  obtain op now where x: "x = (op, now)" by (cases x)
  from Cons.prems have rm: "room (Suc (length xs)) r" by simp
  obtain j' where j: "j = Suc j'" using Cons.prems(2) by (cases j) auto
  show ?case
  proof (cases i)
    case 0
    then have op: "op = ORemoveByGeneration k g" and win: "fst (regExec op now r)"
      using Cons.prems x by simp_all
    then obtain e where "current k g r = Some e"
      using through_success [OF win, of k g] by auto
    then have "unat g \<le> unat (nextGeneration r)" by (rule current_le [OF roomD(1) [OF rm]])
    then have "unat g \<le> unat (nextGeneration (snd (regExec op now r)))"
      by (rule counter_exec [OF rm])
    moreover have "current k g (snd (regExec op now r)) = None"
      using op win by (auto simp: RemoveByGeneration_def current_def split: option.splits)
    ultimately have "retired k g (snd (regExec op now r))" by (simp add: retired_def)
    then show ?thesis
      using run_retired [OF room_exec [OF rm]] Cons.prems j x by simp
  next
    case (Suc i')
    then show ?thesis
      using Cons.IH [OF room_exec [OF rm], of i' j'] Cons.prems j x by simp
  qed
qed simp

text \<open>
  C18: a residency that ended stays ended.  Once \<open>RemoveByGeneration\<close> has removed
  a residency, every later operation that names its generation is refused, even
  after the session was inserted again under a new generation: a late caller
  cannot act on the residency that replaced its own.
\<close>

theorem removed_generation_is_dead:
  assumes "length ops < 2 ^ 64" "i < j" "j < length ops"
    and "fst (ops ! i) = ORemoveByGeneration k g" "fst (regRun ops New) ! i"
    and "through (fst (ops ! j)) = Some (k, g)"
  shows "\<not> fst (regRun ops New) ! j"
  by (rule run_removed [OF room_New [OF assms(1)] assms(2-)])

theorem removed_generation_is_dead_witness:
  "\<not> fst (regRun [(OInsert (Key ''t'' ''s'') \<lparr>aAgentID = ''a'', aTarget = 1, aCompatibilityID = ''c'',
                  aRuntime = 2, aLeaseEpoch = 7\<rparr>, 1),
               (ORemoveByGeneration (Key ''t'' ''s'') 1, 2),
               (OInsert (Key ''t'' ''s'') \<lparr>aAgentID = ''a'', aTarget = 1, aCompatibilityID = ''c'',
                  aRuntime = 3, aLeaseEpoch = 8\<rparr>, 3),
               (OMarkReleasing (Key ''t'' ''s'') 1, 4)] New) ! 3"
  by (rule removed_generation_is_dead [where i = 1 and k = "Key ''t'' ''s''" and g = 1])
    (simp_all add: New_def reg_defs newEntry_def)

text \<open>
  C36: the registry invariant.  Every registry reached by fewer than \<open>2 ^ 64\<close>
  operations holds each row under its own key, gives no generation to two rows,
  never has a row ahead of the generation counter, and keeps state, admission
  and teardown ownership consistent: an accepting row is resident, a row with a
  teardown owner is not resident, a draining row has an owner.
\<close>

theorem registry_invariant:
  assumes "length ops < 2 ^ 64"
  shows "reg_inv (snd (regRun ops New))"
  by (rule run_inv [OF room_New [OF assms]])

theorem registry_invariant_witness:
  "reg_inv (snd (regRun [(OInsert (Key ''t'' ''s'') \<lparr>aAgentID = ''a'', aTarget = 1,
      aCompatibilityID = ''c'', aRuntime = 2, aLeaseEpoch = 7\<rparr>, 1),
      (OMarkReleasing (Key ''t'' ''s'') 1, 2)] New))"
  by (rule registry_invariant) simp

text \<open>
  The sweep reaps exactly the rows on their way out.  In any order the map
  iteration visits the keys, \<open>RemoveStale\<close> reports, sorted, exactly the keys whose
  row is not resident and was last active before the cutoff, removes those rows
  and leaves every other row, every resident one included, as it was.
\<close>

theorem RemoveStale_any_order:
  assumes "distinct ks" "set ks = dom (entries r)"
  shows "RemoveStale_over ks before r = RemoveStale before r \<and>
    sorted (fst (RemoveStale before r)) \<and>
    set (fst (RemoveStale before r)) =
      {k. \<exists>e. entries r k = Some e \<and> eState e \<noteq> StateResident \<and> eLastActivity e < before} \<and>
    entries (snd (RemoveStale before r)) =
      (\<lambda>k. if k \<in> set (fst (RemoveStale before r)) then None else entries r k)"
proof -
  have fin: "finite (dom (entries r))" using assms(2) by (metis finite_set)
  have set_eq: "{k. stale before r k} =
      {k. \<exists>e. entries r k = Some e \<and> eState e \<noteq> StateResident \<and> eLastActivity e < before}"
    by (auto simp: stale_def split: option.splits)
  have "finite {k. stale before r k}"
    by (rule finite_subset [OF _ fin]) (auto simp: stale_def split: option.splits)
  then show ?thesis
    by (simp add: RemoveStale_spec [OF fin] RemoveStale_over_spec [OF assms] flip: set_eq)
qed

definition example_registry :: Registry where
  "example_registry = snd (regRun
     [(OInsert (Key ''t'' ''a'') \<lparr>aAgentID = ''x'', aTarget = 1, aCompatibilityID = ''c'',
         aRuntime = 2, aLeaseEpoch = 7\<rparr>, 1),
      (OInsert (Key ''t'' ''b'') \<lparr>aAgentID = ''x'', aTarget = 1, aCompatibilityID = ''c'',
         aRuntime = 3, aLeaseEpoch = 8\<rparr>, 1),
      (OMarkReleasing (Key ''t'' ''b'') 2, 2)] New)"

lemma example_registry_dom: "dom (entries example_registry) = {Key ''t'' ''a'', Key ''t'' ''b''}"
  by (auto simp: example_registry_def New_def reg_defs newEntry_def regRun.simps)

theorem RemoveStale_any_order_witness:
  "Key ''t'' ''b'' \<in> set (fst (RemoveStale 5 example_registry)) \<and>
   RemoveStale_over [Key ''t'' ''b'', Key ''t'' ''a''] 5 example_registry = RemoveStale 5 example_registry"
proof -
  have "distinct [Key ''t'' ''b'', Key ''t'' ''a'']"
    and "set [Key ''t'' ''b'', Key ''t'' ''a''] = dom (entries example_registry)"
    by (auto simp: example_registry_dom)
  from RemoveStale_any_order [OF this, of 5] show ?thesis
    by (simp add: example_registry_def New_def reg_defs newEntry_def regRun.simps)
qed

text \<open>
  The snapshot lists every row once, in key order, whatever order the map
  iteration visits: two snapshots of one registry are equal.
\<close>

theorem Snapshot_any_order:
  assumes "reg_inv r" "distinct ks" "set ks = dom (entries r)"
  shows "Snapshot_over ks r = Snapshot r \<and> sorted (map eKey (Snapshot r)) \<and>
    distinct (map eKey (Snapshot r)) \<and> set (Snapshot r) = ran (entries r) \<and>
    length (Snapshot r) = Len r"
proof -
  note inv = reg_invD [OF assms(1)]
  let ?ks = "sorted_list_of_set (dom (entries r))"
  have over: "Snapshot_over ks' r = map (\<lambda>k. the (entries r k)) ?ks"
    if "distinct ks'" "set ks' = dom (entries r)" for ks'
    by (rule Snapshot_over_spec [OF that inv(2)])
  have snap: "Snapshot r = map (\<lambda>k. the (entries r k)) ?ks"
    unfolding Snapshot_def by (rule over) (use keysOf_props [OF inv(1)] in auto)
  have "map eKey (Snapshot r) = ?ks"
    unfolding snap map_map by (rule map_idI) (use inv(1,2) in \<open>auto simp: dom_def\<close>)
  moreover have "set (Snapshot r) = ran (entries r)"
    using inv(1) by (force simp: snap ran_def dom_def)
  ultimately show ?thesis
    using over [OF assms(2,3)] inv(1) by (simp add: snap Len_def)
qed

end
