(* ===== verification/Fence.thy ===== *)
theory Fence
  imports Registry
begin

text \<open>
  The epoch fence of \<^verbatim>\<open>internal/residency/heartbeat.go\<close> and its exported view, the
  \<open>Guard\<close> of \<^verbatim>\<open>internal/residency/guard.go\<close>: the one mechanism every fenced write
  of a residency goes through.  A write refuses to run when the grant is gone, and
  records the grant as gone when the store answers that a later owner committed.

  A fence carries its lease's loss channel (\<^term>\<open>None\<close> for no lease, otherwise
  whether the channel is closed) and the recorded end.  What a write does is a
  function of an arbitrary store state, so the laws hold for every writer that uses
  the fence: the heartbeat, the attach sequence and the command consumer.  The
  locale \<open>fenced_writer\<close> states them; the fence and the Guard interpret it.
\<close>

section \<open>Errors\<close>

text \<open>The sentinels of the residency package; \<open>ErrOther\<close> is any other error.\<close>

datatype Err =
    ErrEpochSuperseded | ErrFenceConflict | ErrLeaseNotHeld
  | ErrNothingToRelease | ErrTeardownOwnedElsewhere | ErrOther string

datatype LossReason = LossLeaseLost | LossEpochSuperseded | LossFenceConflict

section \<open>The fence\<close>

record epochFence =
  fLease :: "bool option"
  fEnded :: bool
  fReason :: LossReason

definition newEpochFence :: "bool option \<Rightarrow> epochFence" where
  "newEpochFence lease = \<lparr> fLease = lease, fEnded = False, fReason = LossLeaseLost \<rparr>"

text \<open>Whether a receive on the loss channel is ready; a nil channel never is.\<close>

definition lostReady :: "epochFence \<Rightarrow> bool" where
  "lostReady f = (case fLease f of None \<Rightarrow> False | Some closed \<Rightarrow> closed)"

definition held :: "epochFence \<Rightarrow> Err option" where
  "held f =
     (if fEnded f then Some ErrLeaseNotHeld
      else if lostReady f then Some ErrLeaseNotHeld
      else None)"

definition fenceEnd :: "LossReason \<Rightarrow> epochFence \<Rightarrow> epochFence" where
  "fenceEnd reason f = (if fEnded f then f else f\<lparr> fEnded := True, fReason := reason \<rparr>)"

definition endedBy :: "epochFence \<Rightarrow> LossReason option" where
  "endedBy f = (if fEnded f then Some (fReason f) else None)"

definition fenceWrite ::
  "('s \<Rightarrow> Err option \<times> 's) \<Rightarrow> epochFence \<times> 's \<Rightarrow> Err option \<times> epochFence \<times> 's" where
  "fenceWrite run fs =
     (case fs of (f, s) \<Rightarrow>
        (case held f of
           Some e \<Rightarrow> (Some e, f, s)
         | None \<Rightarrow>
             (case run s of (err, s') \<Rightarrow>
                (err,
                 (case err of
                    Some ErrEpochSuperseded \<Rightarrow> fenceEnd LossEpochSuperseded f
                  | Some ErrFenceConflict \<Rightarrow> fenceEnd LossFenceConflict f
                  | _ \<Rightarrow> f),
                 s'))))"

text \<open>The Guard: the view of a fence, which may hold none.\<close>

definition guardHeld :: "epochFence option \<Rightarrow> Err option" where
  "guardHeld g = (case g of None \<Rightarrow> Some ErrLeaseNotHeld | Some f \<Rightarrow> held f)"

definition guardLost :: "epochFence option \<Rightarrow> bool" where
  "guardLost g = (case g of None \<Rightarrow> False | Some f \<Rightarrow> lostReady f)"

definition guardWrite ::
  "('s \<Rightarrow> Err option \<times> 's) \<Rightarrow> epochFence option \<times> 's \<Rightarrow> Err option \<times> epochFence option \<times> 's" where
  "guardWrite run gs =
     (case gs of
        (None, s) \<Rightarrow> (Some ErrLeaseNotHeld, None, s)
      | (Some f, s) \<Rightarrow>
          (case fenceWrite run (f, s) of (err, f', s') \<Rightarrow> (err, Some f', s')))"

lemmas fence_ops [fence_defs] =
  held_def lostReady_def fenceEnd_def endedBy_def fenceWrite_def guardHeld_def guardWrite_def

section \<open>The contract of a fenced writer\<close>

fun fencedAll ::
  "(('s \<Rightarrow> Err option \<times> 's) \<Rightarrow> 'f \<times> 's \<Rightarrow> Err option \<times> 'f \<times> 's) \<Rightarrow>
   ('s \<Rightarrow> Err option \<times> 's) list \<Rightarrow> 'f \<times> 's \<Rightarrow> Err option list \<times> 'f \<times> 's" where
  "fencedAll w [] fs = ([], fs)"
| "fencedAll w (run # runs) fs =
     (case w run fs of (e, fs') \<Rightarrow> (case fencedAll w runs fs' of (es, fs'') \<Rightarrow> (e # es, fs'')))"

locale fenced_writer =
  fixes gone :: "'f \<Rightarrow> bool"
    and fwrite :: "('s \<Rightarrow> Err option \<times> 's) \<Rightarrow> 'f \<times> 's \<Rightarrow> Err option \<times> 'f \<times> 's"
  assumes refuses: "gone f \<Longrightarrow> fwrite run (f, s) = (Some ErrLeaseNotHeld, f, s)"
    and runs: "\<not> gone f \<Longrightarrow>
          fst (fwrite run (f, s)) = fst (run s) \<and> snd (snd (fwrite run (f, s))) = snd (run s)"
    and latches: "\<not> gone f \<Longrightarrow>
          fst (run s) = Some ErrEpochSuperseded \<or> fst (run s) = Some ErrFenceConflict \<Longrightarrow>
          gone (fst (snd (fwrite run (f, s))))"
    and keeps: "\<not> gone f \<Longrightarrow>
          \<not> (fst (run s) = Some ErrEpochSuperseded \<or> fst (run s) = Some ErrFenceConflict) \<Longrightarrow>
          fst (snd (fwrite run (f, s))) = f"
begin

lemma gone_stays: "gone f \<Longrightarrow> gone (fst (snd (fwrite run (f, s))))"
  by (simp add: refuses)

lemma all_refused:
  "gone f \<Longrightarrow> fencedAll fwrite rs (f, s) = (map (\<lambda>_. Some ErrLeaseNotHeld) rs, f, s)"
  by (induction rs) (simp_all add: refuses)

lemma after_supersession:
  assumes "\<not> gone f" "fst (run s) = Some ErrEpochSuperseded \<or> fst (run s) = Some ErrFenceConflict"
  shows "fst (fencedAll fwrite (run # rs) (f, s)) = fst (run s) # map (\<lambda>_. Some ErrLeaseNotHeld) rs"
    and "snd (snd (fencedAll fwrite (run # rs) (f, s))) = snd (run s)"
proof -
  obtain e f' s' where w: "fwrite run (f, s) = (e, f', s')" by (cases "fwrite run (f, s)") auto
  have "gone f'" using latches [OF assms(1), of run s] assms(2) w by simp
  moreover have "e = fst (run s)" "s' = snd (run s)" using runs [OF assms(1), of run s] w by simp_all
  ultimately show "fst (fencedAll fwrite (run # rs) (f, s)) = fst (run s) # map (\<lambda>_. Some ErrLeaseNotHeld) rs"
    and "snd (snd (fencedAll fwrite (run # rs) (f, s))) = snd (run s)"
    using w by (simp_all add: all_refused)
qed

end

lemma held_cases: "held f = None \<or> held f = Some ErrLeaseNotHeld"
  by (simp add: held_def)

interpretation fence: fenced_writer "\<lambda>f. held f \<noteq> None" fenceWrite
  by unfold_locales (auto simp: fence_defs split: option.splits prod.splits Err.splits if_splits)

interpretation guard: fenced_writer "\<lambda>g. guardHeld g \<noteq> None" guardWrite
  by unfold_locales
    (auto simp: fence_defs split: option.splits prod.splits Err.splits if_splits)

lemma fenceWrite_lease: "fLease (fst (snd (fenceWrite run (f, s)))) = fLease f"
  by (auto simp: fence_defs split: option.splits prod.splits Err.splits)

lemma fenceWrite_refused: "held f \<noteq> None \<Longrightarrow> fenceWrite run (f, s) = (Some ErrLeaseNotHeld, f, s)"
  by (rule fence.refuses)

lemma held_fenceEnd: "held (fenceEnd reason f) = Some ErrLeaseNotHeld"
  by (simp add: held_def fenceEnd_def)

section \<open>Properties\<close>

text \<open>
  Once a later owner is known, nothing more is written.  A write through a
  held fence that the store answers with a superseded epoch or a fence conflict is
  the last that runs: in every sequence of writes that follows, each is refused with
  \<open>ErrLeaseNotHeld\<close> and the store is left exactly as that write left it.  The same holds through the Guard, and a Guard holding no
  fence runs nothing.
\<close>

theorem fence_stops_at_supersession:
  assumes "held f = None"
    and "fst (run s) = Some ErrEpochSuperseded \<or> fst (run s) = Some ErrFenceConflict"
  shows "fst (fencedAll fenceWrite (run # rs) (f, s)) = fst (run s) # map (\<lambda>_. Some ErrLeaseNotHeld) rs \<and>
    snd (snd (fencedAll fenceWrite (run # rs) (f, s))) = snd (run s) \<and>
    fst (fencedAll guardWrite (run # rs) (Some f, s)) = fst (run s) # map (\<lambda>_. Some ErrLeaseNotHeld) rs \<and>
    snd (snd (fencedAll guardWrite (run # rs) (Some f, s))) = snd (run s) \<and>
    fencedAll guardWrite rs (None, s) = (map (\<lambda>_. Some ErrLeaseNotHeld) rs, None, s)"
proof -
  have g: "\<not> (guardHeld (Some f) \<noteq> None)" using assms(1) by (simp add: guardHeld_def)
  have f: "\<not> (held f \<noteq> None)" using assms(1) by simp
  have n: "guardHeld None \<noteq> None" by (simp add: guardHeld_def)
  show ?thesis
    using fence.after_supersession [OF f, of run s rs] guard.after_supersession [OF g, of run s rs] assms(2)
      guard.all_refused [OF n] by simp
qed

theorem fence_stops_at_supersession_witness:
  "snd (snd (fencedAll fenceWrite
      [\<lambda>n. (Some ErrEpochSuperseded, n + 1), \<lambda>n. (None, n + 10)] (newEpochFence (Some False), 0 :: nat))) = 1"
  using fence_stops_at_supersession [of "newEpochFence (Some False)"
      "\<lambda>n. (Some ErrEpochSuperseded, n + 1)" "0 :: nat" "[\<lambda>n. (None, n + 10)]"]
  by (simp add: newEpochFence_def held_def lostReady_def)

end
