(* ===== verification/Department.thy ===== *)
theory Department
  imports Host_Prelude
begin

text \<open>
  The Department, \<^verbatim>\<open>department/department.go\<close> and the capability half of
  \<^verbatim>\<open>department/definition.go\<close>: the immutable set of launch targets a Host serves.
  A launch target is an interface value; the model keeps its identity and the
  answers \<open>CompatibilityID()\<close> and \<open>Capabilities()\<close> gave when they were read.
  Core's identifier check and its length bound are the parameters \<open>idValid\<close> and
  \<open>maxID\<close>.

  The theory shows that \<open>New\<close> accepts exactly the non-empty, duplicate-free lists
  of valid registrations, and that the accepted Department resolves exactly the
  agents it lists.
\<close>

section \<open>Capabilities\<close>

datatype HostPlacement = PlacementPooled | PlacementDedicated | PlacementOther string

datatype CaptureSafety =
    CaptureSafetyUnknown | CaptureSafetyStreaming | CaptureSafetyBoundedMaterialized
  | CaptureSafetyUnboundedMaterialized | CaptureSafetyOther string

record Recovery =
  rAttemptCloser :: bool
  rPersistenceFaults :: bool

definition Complete :: "Recovery \<Rightarrow> bool" where
  "Complete r = (rAttemptCloser r \<and> rPersistenceFaults r)"

record Capabilities =
  cSupportsPooled :: bool
  cSupportsDedicated :: bool
  cRequiresWorkspace :: bool
  cRequiresCheckpoint :: bool
  cAdmissionWeight :: u64
  cCaptureSafety :: CaptureSafety
  cRecovery :: Recovery

datatype DefinitionErrorCode =
    NoRegistrations | DuplicateAgent | InvalidAgentID | NoTarget | InvalidCompatibilityID
  | ZeroAdmissionWeight | NoPlacement | PooledUnsafeCapture

definition PoolingPermitted :: "Capabilities \<Rightarrow> bool" where
  "PoolingPermitted c =
     (if \<not> cSupportsPooled c then False
      else (case cCaptureSafety c of
              CaptureSafetyStreaming \<Rightarrow> True
            | CaptureSafetyBoundedMaterialized \<Rightarrow> True
            | _ \<Rightarrow> False))"

definition Capabilities_Validate :: "Capabilities \<Rightarrow> DefinitionErrorCode option" where
  "Capabilities_Validate c =
     (if cAdmissionWeight c = 0 then Some ZeroAdmissionWeight
      else if \<not> cSupportsPooled c \<and> \<not> cSupportsDedicated c then Some NoPlacement
      else if cSupportsPooled c \<and> \<not> PoolingPermitted c then Some PooledUnsafeCapture
      else None)"

text \<open>The two placements as the strings Core declares them, which is what \<open>slices.Sort\<close> orders.\<close>

definition placementText :: "HostPlacement \<Rightarrow> string" where
  "placementText p = (case p of PlacementPooled \<Rightarrow> ''pooled'' | PlacementDedicated \<Rightarrow> ''dedicated''
     | PlacementOther s \<Rightarrow> s)"

definition PermittedPlacements :: "Capabilities \<Rightarrow> HostPlacement list" where
  "PermittedPlacements c =
     sort_key placementText
       ((if cSupportsDedicated c then [PlacementDedicated] else []) @
        (if PoolingPermitted c then [PlacementPooled] else []))"

datatype CompatibilityIDError = CompatEmpty | CompatTooLong | CompatNotUTF8

definition CompatibilityID_Validate :: "nat \<Rightarrow> compat_id \<Rightarrow> CompatibilityIDError option" where
  "CompatibilityID_Validate maxID i =
     (if length i = 0 then Some CompatEmpty
      else if length i > maxID then Some CompatTooLong
      else if \<not> ValidString i then Some CompatNotUTF8
      else None)"

section \<open>The Department\<close>

record LaunchTarget =
  ltHandle :: handle
  ltCompatibilityID :: compat_id
  ltCapabilities :: Capabilities

record Registration =
  regAgentID :: agent_id
  regTarget :: "LaunchTarget option"

record Department =
  targets :: "agent_id \<rightharpoonup> LaunchTarget"
  agents :: "agent_id list"

type_synonym department_error = "DefinitionErrorCode \<times> agent_id"

definition validateRegistration ::
  "(string \<Rightarrow> bool) \<Rightarrow> nat \<Rightarrow> Registration \<Rightarrow> department_error option" where
  "validateRegistration idValid maxID r =
     (let a = regAgentID r in
      if \<not> idValid a then Some (InvalidAgentID, a)
      else (case regTarget r of
              None \<Rightarrow> Some (NoTarget, a)
            | Some t \<Rightarrow>
                if CompatibilityID_Validate maxID (ltCompatibilityID t) \<noteq> None
                then Some (InvalidCompatibilityID, a)
                else (case Capabilities_Validate (ltCapabilities t) of
                        Some code \<Rightarrow> Some (code, a)
                      | None \<Rightarrow> None)))"

fun registerAll ::
  "(string \<Rightarrow> bool) \<Rightarrow> nat \<Rightarrow> Registration list \<Rightarrow> (agent_id \<rightharpoonup> LaunchTarget) \<Rightarrow>
   department_error + (agent_id \<rightharpoonup> LaunchTarget)" where
  "registerAll idValid maxID [] m = Inr m"
| "registerAll idValid maxID (r # rs) m =
     (case validateRegistration idValid maxID r of
        Some e \<Rightarrow> Inl e
      | None \<Rightarrow>
          if regAgentID r \<in> dom m then Inl (DuplicateAgent, regAgentID r)
          else registerAll idValid maxID rs (m(regAgentID r := regTarget r)))"

definition Department_New ::
  "(string \<Rightarrow> bool) \<Rightarrow> nat \<Rightarrow> Registration list \<Rightarrow> department_error + Department" where
  "Department_New idValid maxID rs =
     (if rs = [] then Inl (NoRegistrations, [])
      else (case registerAll idValid maxID rs Map.empty of
              Inl e \<Rightarrow> Inl e
            | Inr m \<Rightarrow> Inr \<lparr> targets = m, agents = sorted_list_of_set (dom m) \<rparr>))"

definition Target :: "agent_id \<Rightarrow> Department \<Rightarrow> LaunchTarget option" where
  "Target agent d = targets d agent"

definition AgentIDs :: "Department \<Rightarrow> agent_id list" where
  "AgentIDs d = agents d"

definition Department_Len :: "Department \<Rightarrow> nat" where
  "Department_Len d = card (dom (targets d))"

section \<open>Lemmas\<close>

lemma Capabilities_valid_iff:
  "Capabilities_Validate c = None \<longleftrightarrow>
     cAdmissionWeight c \<noteq> 0 \<and> (cSupportsPooled c \<or> cSupportsDedicated c) \<and>
     (cSupportsPooled c = PoolingPermitted c)"
  by (auto simp: Capabilities_Validate_def PoolingPermitted_def)

definition reg_valid :: "(string \<Rightarrow> bool) \<Rightarrow> nat \<Rightarrow> Registration \<Rightarrow> bool" where
  "reg_valid idValid maxID r = (validateRegistration idValid maxID r = None)"

lemma reg_valid_iff:
  "reg_valid idValid maxID r \<longleftrightarrow>
     idValid (regAgentID r) \<and>
     (\<exists>t. regTarget r = Some t \<and> CompatibilityID_Validate maxID (ltCompatibilityID t) = None \<and>
          Capabilities_Validate (ltCapabilities t) = None)"
  by (auto simp: reg_valid_def validateRegistration_def Let_def split: option.splits)

lemma registerAll_ok_iff:
  "(\<exists>m'. registerAll idValid maxID rs m = Inr m') \<longleftrightarrow>
     (\<forall>r\<in>set rs. reg_valid idValid maxID r) \<and> distinct (map regAgentID rs) \<and>
     set (map regAgentID rs) \<inter> dom m = {}"
proof (induction rs arbitrary: m)
  case (Cons r rs)
  show ?case
  proof (cases "reg_valid idValid maxID r \<and> regAgentID r \<notin> dom m")
    case True
    then obtain t where t: "regTarget r = Some t" by (auto simp: reg_valid_iff)
    have rec: "registerAll idValid maxID (r # rs) m = registerAll idValid maxID rs (m(regAgentID r \<mapsto> t))"
      using True t by (simp add: reg_valid_def domIff)
    have fresh: "set (map regAgentID rs) \<inter> dom (m(regAgentID r \<mapsto> t)) = {} \<longleftrightarrow>
        regAgentID r \<notin> set (map regAgentID rs) \<and> set (map regAgentID rs) \<inter> dom m = {}"
      by auto
    show ?thesis
      unfolding rec Cons.IH fresh using True by auto
  next
    case False
    then show ?thesis by (auto simp: reg_valid_def split: option.splits)
  qed
qed simp

lemma registerAll_result:
  assumes "registerAll idValid maxID rs m = Inr m'"
  shows "m' a = (if a \<in> set (map regAgentID rs)
                 then map_of (map (\<lambda>r. (regAgentID r, the (regTarget r))) rs) a else m a)"
  using assms
proof (induction rs arbitrary: m)
  case (Cons r rs)
  then have v: "reg_valid idValid maxID r" and n: "regAgentID r \<notin> dom m"
    and rest: "registerAll idValid maxID rs (m(regAgentID r := regTarget r)) = Inr m'"
    by (auto simp: reg_valid_def split: option.splits if_splits)
  from v obtain t where t: "regTarget r = Some t" by (auto simp: reg_valid_iff)
  have "regAgentID r \<notin> set (map regAgentID rs)"
    using registerAll_ok_iff [of idValid maxID rs "m(regAgentID r := regTarget r)"] rest t by auto
  then show ?case using Cons.IH [OF rest] t by auto
qed simp

section \<open>Properties\<close>

text \<open>
  The constructor accepts exactly the coherent definitions.  \<open>New\<close> returns a
  Department if and only if the list is not empty, every registration is valid and
  no agent is registered twice; the Department then resolves exactly the agents of
  the list, each to the target registered for it, and lists them once each in
  ascending order.
\<close>

theorem Department_New_correct:
  "((\<exists>d. Department_New idValid maxID rs = Inr d) =
     (rs \<noteq> [] \<and> (\<forall>r\<in>set rs. reg_valid idValid maxID r) \<and> distinct (map regAgentID rs))) \<and>
   (\<forall>d. Department_New idValid maxID rs = Inr d \<longrightarrow>
     set (AgentIDs d) = set (map regAgentID rs) \<and> sorted (AgentIDs d) \<and> distinct (AgentIDs d) \<and>
     length (AgentIDs d) = Department_Len d \<and>
     (\<forall>r\<in>set rs. Target (regAgentID r) d = regTarget r) \<and>
     (\<forall>a. Target a d \<noteq> None \<longrightarrow> a \<in> set (AgentIDs d)))"
proof (intro conjI allI impI)
  show "(\<exists>d. Department_New idValid maxID rs = Inr d) =
     (rs \<noteq> [] \<and> (\<forall>r\<in>set rs. reg_valid idValid maxID r) \<and> distinct (map regAgentID rs))"
    using registerAll_ok_iff [of idValid maxID rs Map.empty]
    by (auto simp: Department_New_def split: sum.splits)
next
  fix d assume "Department_New idValid maxID rs = Inr d"
  then obtain m where m: "registerAll idValid maxID rs Map.empty = Inr m"
    and d: "d = \<lparr> targets = m, agents = sorted_list_of_set (dom m) \<rparr>"
    by (auto simp: Department_New_def split: if_splits sum.splits)
  from m registerAll_ok_iff [of idValid maxID rs Map.empty]
  have v: "\<forall>r\<in>set rs. reg_valid idValid maxID r" and dst: "distinct (map regAgentID rs)" by auto
  have look: "m (regAgentID r) = regTarget r" if "r \<in> set rs" for r
  proof -
    have "map_of (map (\<lambda>r. (regAgentID r, the (regTarget r))) rs) (regAgentID r) = Some (the (regTarget r))"
      using that dst by (intro map_of_is_SomeI) (auto simp: comp_def)
    moreover from v that obtain t where "regTarget r = Some t" by (auto simp: reg_valid_iff)
    ultimately show ?thesis using registerAll_result [OF m, of "regAgentID r"] that by auto
  qed
  have dom: "dom m = set (map regAgentID rs)"
    using registerAll_result [OF m] look v
    by (force simp: dom_def reg_valid_iff split: if_splits)
  then have fin: "finite (dom m)" by simp
  show "set (AgentIDs d) = set (map regAgentID rs)" "sorted (AgentIDs d)" "distinct (AgentIDs d)"
    "length (AgentIDs d) = Department_Len d"
    using fin dom by (simp_all add: AgentIDs_def Department_Len_def d)
  show "\<forall>r\<in>set rs. Target (regAgentID r) d = regTarget r"
    using look by (simp add: Target_def d)
  show "a \<in> set (AgentIDs d)" if "Target a d \<noteq> None" for a
    using that fin by (auto simp: Target_def AgentIDs_def d)
qed

definition example_caps :: Capabilities where
  "example_caps = \<lparr> cSupportsPooled = True, cSupportsDedicated = False, cRequiresWorkspace = False,
     cRequiresCheckpoint = False, cAdmissionWeight = 2, cCaptureSafety = CaptureSafetyStreaming,
     cRecovery = \<lparr> rAttemptCloser = True, rPersistenceFaults = True \<rparr> \<rparr>"

definition example_registration :: Registration where
  "example_registration = \<lparr> regAgentID = ''a'', regTarget = Some \<lparr> ltHandle = 1,
     ltCompatibilityID = ''v1'', ltCapabilities = example_caps \<rparr> \<rparr>"

lemma example_registration_ok: "reg_valid (\<lambda>s. s \<noteq> []) 256 example_registration"
  by (simp add: reg_valid_iff example_registration_def example_caps_def Capabilities_Validate_def
      PoolingPermitted_def CompatibilityID_Validate_def ValidString_def)

theorem Department_New_correct_witness:
  "\<exists>d. Department_New (\<lambda>s. s \<noteq> []) 256 [example_registration] = Inr d \<and> set (AgentIDs d) = {''a''}"
  using Department_New_correct [of "\<lambda>s. s \<noteq> []" 256 "[example_registration]"] example_registration_ok
  by (auto simp: example_registration_def)

text \<open>
  Capability validation closes the capture-safety gap.  A capability record
  that passes \<open>Validate\<close> has positive weight, a non-empty list of permitted
  placements in ascending order, and is permitted pooled placement exactly when it
  declares pooled support, so \<open>SupportsPooled\<close> and \<open>PoolingPermitted\<close> agree for
  every registered target.
\<close>

theorem valid_capabilities_placements:
  assumes "Capabilities_Validate c = None"
  shows "0 < cAdmissionWeight c \<and> PermittedPlacements c \<noteq> [] \<and>
    sorted (map placementText (PermittedPlacements c)) \<and>
    (PlacementPooled \<in> set (PermittedPlacements c) \<longleftrightarrow> cSupportsPooled c) \<and>
    (PlacementDedicated \<in> set (PermittedPlacements c) \<longleftrightarrow> cSupportsDedicated c)"
  using assms
  by (auto simp: Capabilities_valid_iff PermittedPlacements_def placementText_def word_neq_0_conv)

end
