(* ===== verification/HostConfig.thy ===== *)
theory HostConfig
  imports Department "HOL-Library.Signed_Division"
begin

text \<open>
  The Host configuration, \<^verbatim>\<open>internal/hostconfig/options.go\<close> and \<^verbatim>\<open>host.go\<close>: the
  options of a Host, the four validation phases in their order, and the resolved
  Host they produce.  Durations and sizes are integers (Go's \<open>int64\<close> and \<open>int\<close>; the
  only arithmetic is division by a small constant, which truncates toward zero and
  cannot overflow).  Core's identifier check is the parameter \<open>idValid\<close>; the
  endpoint check, which parses a URL and asks Core to derive an address from it, is
  the parameter \<open>endpointOK\<close>.
\<close>

datatype HostIsolationClass = CrossTenantIsolated | TenantExclusive | IsolationOther string

record Options =
  oHostID :: host_id
  oInternalEndpoint :: string
  oIsolationClass :: HostIsolationClass
  oDepartment :: "Department option"
  oSessionStore :: "handle option"
  oWorkspaces :: "handle option"
  oClock :: "handle option"
  oAuth :: "handle option"
  oPlacement :: HostPlacement
  oCapacity :: u64
  oFixedSessionID :: session_id
  oWarmTTL :: int
  oRegistryHeartbeat :: int
  oRegistryExpiry :: int
  oClaimTTL :: int
  oApplyDeadline :: int
  oCommandQueueSize :: int
  oReconcileInterval :: int
  oReconcileBatch :: int

datatype OptionErrorCode =
    OptMissing | OptInvalid | OptUnknownEnum | OptNotPositive | OptAboveBound
  | OptHeartbeatMargin | OptClaimMargin | OptDedicatedFixed | OptDedicatedCap | OptPooledFixed

type_synonym option_error = "OptionErrorCode \<times> string"

record Host =
  hID :: host_id
  hInternalEndpoint :: string
  hIsolationClass :: HostIsolationClass
  hDepartment :: Department
  hPlacement :: HostPlacement
  hCapacity :: u64
  hFixedSessionID :: session_id
  hWarmTTL :: int
  hRegistryHeartbeat :: int
  hRegistryExpiry :: int
  hClaimTTL :: int
  hApplyDeadline :: int
  hCommandQueueSize :: int
  hReconcileInterval :: int
  hReconcileBatch :: int

definition MinHeartbeatsBeforeExpiry :: int where "MinHeartbeatsBeforeExpiry = 3"
definition MinClaimAttemptsBeforeDeadline :: int where "MinClaimAttemptsBeforeDeadline = 2"
definition MaxCommandQueueSize :: int where "MaxCommandQueueSize = 65536"
definition MaxReconcileBatch :: int where "MaxReconcileBatch = 4096"

text \<open>Run checks in order; the first that refuses decides.\<close>

fun firstError :: "'e option list \<Rightarrow> 'e option" where
  "firstError [] = None"
| "firstError (Some e # cs) = Some e"
| "firstError (None # cs) = firstError cs"

definition missing :: "bool \<Rightarrow> string \<Rightarrow> option_error option" where
  "missing absent field = (if absent then Some (OptMissing, field) else None)"

definition validatePresence :: "Options \<Rightarrow> option_error option" where
  "validatePresence o' = firstError
     [missing (oHostID o' = []) ''HostID'',
      missing (oInternalEndpoint o' = []) ''InternalEndpoint'',
      missing (oDepartment o' = None) ''Department'',
      missing (oSessionStore o' = None) ''SessionStore'',
      missing (oWorkspaces o' = None) ''Workspaces'',
      missing (oClock o' = None) ''Clock'',
      missing (oAuth o' = None) ''Auth'']"

definition positiveDuration :: "string \<times> int \<Rightarrow> option_error option" where
  "positiveDuration d = (if snd d \<le> 0 then Some (OptNotPositive, fst d) else None)"

definition boundedSize :: "string \<times> int \<times> int \<Rightarrow> option_error option" where
  "boundedSize s = (case s of (field, value, bound) \<Rightarrow>
     if value \<le> 0 then Some (OptNotPositive, field)
     else if value > bound then Some (OptAboveBound, field)
     else None)"

definition validateShape :: "(string \<Rightarrow> bool) \<Rightarrow> (string \<Rightarrow> bool) \<Rightarrow> Options \<Rightarrow> option_error option" where
  "validateShape idValid endpointOK o' = firstError (
     [if \<not> endpointOK (oInternalEndpoint o') then Some (OptInvalid, ''InternalEndpoint'') else None,
      if \<not> idValid (oHostID o') then Some (OptInvalid, ''HostID'') else None,
      case oIsolationClass o' of
         CrossTenantIsolated \<Rightarrow> None | TenantExclusive \<Rightarrow> None
       | IsolationOther _ \<Rightarrow> Some (OptUnknownEnum, ''IsolationClass''),
      case oPlacement o' of
         PlacementPooled \<Rightarrow> None | PlacementDedicated \<Rightarrow> None
       | PlacementOther _ \<Rightarrow> Some (OptUnknownEnum, ''Placement''),
      if oCapacity o' = 0 then Some (OptNotPositive, ''Capacity'') else None] @
     map positiveDuration
       [(''WarmTTL'', oWarmTTL o'), (''RegistryHeartbeat'', oRegistryHeartbeat o'),
        (''RegistryExpiry'', oRegistryExpiry o'), (''ClaimTTL'', oClaimTTL o'),
        (''ApplyDeadline'', oApplyDeadline o'), (''ReconcileInterval'', oReconcileInterval o')] @
     map boundedSize
       [(''CommandQueueSize'', oCommandQueueSize o', MaxCommandQueueSize),
        (''ReconcileBatch'', oReconcileBatch o', MaxReconcileBatch)])"

definition validateTiming :: "Options \<Rightarrow> option_error option" where
  "validateTiming o' =
     (if oRegistryExpiry o' sdiv MinHeartbeatsBeforeExpiry < oRegistryHeartbeat o'
      then Some (OptHeartbeatMargin, ''RegistryExpiry'')
      else if oApplyDeadline o' sdiv MinClaimAttemptsBeforeDeadline < oClaimTTL o'
      then Some (OptClaimMargin, ''ApplyDeadline'')
      else None)"

definition validatePlacement :: "(string \<Rightarrow> bool) \<Rightarrow> Options \<Rightarrow> option_error option" where
  "validatePlacement idValid o' =
     (if oPlacement o' = PlacementDedicated then
        (if oFixedSessionID o' = [] then Some (OptDedicatedFixed, ''FixedSessionID'')
         else if \<not> idValid (oFixedSessionID o') then Some (OptInvalid, ''FixedSessionID'')
         else if oCapacity o' \<noteq> 1 then Some (OptDedicatedCap, ''Capacity'')
         else None)
      else if oFixedSessionID o' \<noteq> [] then Some (OptPooledFixed, ''FixedSessionID'')
      else None)"

definition Options_validate :: "(string \<Rightarrow> bool) \<Rightarrow> (string \<Rightarrow> bool) \<Rightarrow> Options \<Rightarrow> option_error option" where
  "Options_validate idValid endpointOK o' =
     firstError [validatePresence o', validateShape idValid endpointOK o', validateTiming o',
                 validatePlacement idValid o']"

definition Host_New :: "(string \<Rightarrow> bool) \<Rightarrow> (string \<Rightarrow> bool) \<Rightarrow> Options \<Rightarrow> option_error + Host" where
  "Host_New idValid endpointOK o' =
     (case Options_validate idValid endpointOK o' of
        Some e \<Rightarrow> Inl e
      | None \<Rightarrow> Inr
          \<lparr> hID = oHostID o', hInternalEndpoint = oInternalEndpoint o',
            hIsolationClass = oIsolationClass o', hDepartment = the (oDepartment o'),
            hPlacement = oPlacement o', hCapacity = oCapacity o',
            hFixedSessionID = oFixedSessionID o', hWarmTTL = oWarmTTL o',
            hRegistryHeartbeat = oRegistryHeartbeat o', hRegistryExpiry = oRegistryExpiry o',
            hClaimTTL = oClaimTTL o', hApplyDeadline = oApplyDeadline o',
            hCommandQueueSize = oCommandQueueSize o', hReconcileInterval = oReconcileInterval o',
            hReconcileBatch = oReconcileBatch o' \<rparr>)"

section \<open>Lemmas\<close>

lemma firstError_None: "firstError cs = None \<longleftrightarrow> set cs \<subseteq> {None}"
  by (induction cs rule: firstError.induct) auto

lemma missing_None [simp]: "missing b f = None \<longleftrightarrow> \<not> b"
  by (simp add: missing_def)

lemma margin_iff:
  fixes a b n :: int
  assumes "0 < n" "0 \<le> a"
  shows "\<not> a sdiv n < b \<longleftrightarrow> n * b \<le> a"
proof -
  have "a sdiv n = a div n"
    using assms by (simp add: signed_divide_int_def sgn_if)
  moreover have "b \<le> a div n \<longleftrightarrow> n * b \<le> a"
  proof
    assume "b \<le> a div n"
    then have "n * b \<le> n * (a div n)" using assms(1) by simp
    also have "\<dots> \<le> a" using assms(1) by (simp add: minus_mod_eq_mult_div [symmetric])
    finally show "n * b \<le> a" .
  next
    assume "n * b \<le> a"
    also have "a < n * (a div n + 1)"
      using assms(1) pos_mod_bound [of n a]
      by (simp add: distrib_left minus_mod_eq_mult_div [symmetric])
    finally show "b \<le> a div n" using assms(1) by (simp add: mult_less_cancel_left_pos)
  qed
  ultimately show ?thesis by (simp add: not_less)
qed

section \<open>Properties\<close>

text \<open>
  The margins of an accepted configuration.  A Host exists only with a
  heartbeat that fits three times into its registry expiry and a claim lifetime
  that fits twice into its apply deadline, as products of unbounded integers, so
  the division the code uses does not lose the margin to rounding or overflow; its
  durations are positive, its queue and batch are within their bounds, and it is
  dedicated exactly when it names a fixed session, with capacity one.
\<close>

theorem Host_New_coherent:
  assumes "Host_New idValid endpointOK o' = Inr h"
  shows "0 < hRegistryHeartbeat h \<and> 3 * hRegistryHeartbeat h \<le> hRegistryExpiry h \<and>
    0 < hClaimTTL h \<and> 2 * hClaimTTL h \<le> hApplyDeadline h \<and>
    0 < hWarmTTL h \<and> 0 < hReconcileInterval h \<and> hCapacity h \<noteq> 0 \<and>
    0 < hCommandQueueSize h \<and> hCommandQueueSize h \<le> 65536 \<and>
    0 < hReconcileBatch h \<and> hReconcileBatch h \<le> 4096 \<and>
    (hPlacement h = PlacementDedicated \<longleftrightarrow> hFixedSessionID h \<noteq> []) \<and>
    (hPlacement h = PlacementDedicated \<longrightarrow> hCapacity h = 1) \<and>
    (hPlacement h = PlacementPooled \<or> hPlacement h = PlacementDedicated) \<and>
    Some (hDepartment h) = oDepartment o'"
proof -
  have "Options_validate idValid endpointOK o' = None"
    and h: "h = \<lparr> hID = oHostID o', hInternalEndpoint = oInternalEndpoint o',
            hIsolationClass = oIsolationClass o', hDepartment = the (oDepartment o'),
            hPlacement = oPlacement o', hCapacity = oCapacity o',
            hFixedSessionID = oFixedSessionID o', hWarmTTL = oWarmTTL o',
            hRegistryHeartbeat = oRegistryHeartbeat o', hRegistryExpiry = oRegistryExpiry o',
            hClaimTTL = oClaimTTL o', hApplyDeadline = oApplyDeadline o',
            hCommandQueueSize = oCommandQueueSize o', hReconcileInterval = oReconcileInterval o',
            hReconcileBatch = oReconcileBatch o' \<rparr>"
    using assms by (auto simp: Host_New_def split: option.splits)
  then have pre: "validatePresence o' = None" and shape: "validateShape idValid endpointOK o' = None"
    and timing: "validateTiming o' = None" and place: "validatePlacement idValid o' = None"
    by (auto simp: Options_validate_def firstError_None)
  have sh: "0 < oWarmTTL o'" "0 < oRegistryHeartbeat o'" "0 < oRegistryExpiry o'" "0 < oClaimTTL o'"
    "0 < oApplyDeadline o'" "0 < oReconcileInterval o'" "oCapacity o' \<noteq> 0"
    "0 < oCommandQueueSize o'" "oCommandQueueSize o' \<le> 65536"
    "0 < oReconcileBatch o'" "oReconcileBatch o' \<le> 4096"
    "oPlacement o' = PlacementPooled \<or> oPlacement o' = PlacementDedicated"
    using shape
    by (auto simp: validateShape_def firstError_None positiveDuration_def boundedSize_def
        MaxCommandQueueSize_def MaxReconcileBatch_def split: if_splits HostPlacement.splits)
  have "3 * oRegistryHeartbeat o' \<le> oRegistryExpiry o'" "2 * oClaimTTL o' \<le> oApplyDeadline o'"
    using timing margin_iff [of 3 "oRegistryExpiry o'" "oRegistryHeartbeat o'"]
      margin_iff [of 2 "oApplyDeadline o'" "oClaimTTL o'"] sh
    by (auto simp: validateTiming_def MinHeartbeatsBeforeExpiry_def
        MinClaimAttemptsBeforeDeadline_def split: if_splits)
  moreover have "Some (the (oDepartment o')) = oDepartment o'"
    using pre by (auto simp: validatePresence_def firstError_None)
  moreover have "oPlacement o' = PlacementDedicated \<longleftrightarrow> oFixedSessionID o' \<noteq> []"
    "oPlacement o' = PlacementDedicated \<longrightarrow> oCapacity o' = 1"
    using place by (auto simp: validatePlacement_def split: if_splits)
  ultimately show ?thesis using sh by (simp add: h)
qed

definition example_target :: LaunchTarget where
  "example_target = \<lparr> ltHandle = 1, ltCompatibilityID = ''v1'', ltCapabilities = example_caps \<rparr>"

definition example_department :: Department where
  "example_department = \<lparr> targets = [''a'' \<mapsto> example_target], agents = [''a''] \<rparr>"

definition example_options :: Options where
  "example_options = \<lparr> oHostID = ''h1'', oInternalEndpoint = ''ws://h'',
     oIsolationClass = TenantExclusive, oDepartment = Some example_department,
     oSessionStore = Some 1, oWorkspaces = Some 2, oClock = Some 3, oAuth = Some 4,
     oPlacement = PlacementPooled, oCapacity = 4, oFixedSessionID = [], oWarmTTL = 60,
     oRegistryHeartbeat = 10, oRegistryExpiry = 30, oClaimTTL = 30, oApplyDeadline = 60,
     oCommandQueueSize = 64, oReconcileInterval = 5, oReconcileBatch = 100 \<rparr>"

definition example_host :: Host where
  "example_host = \<lparr> hID = ''h1'', hInternalEndpoint = ''ws://h'', hIsolationClass = TenantExclusive,
     hDepartment = example_department, hPlacement = PlacementPooled, hCapacity = 4,
     hFixedSessionID = [], hWarmTTL = 60, hRegistryHeartbeat = 10, hRegistryExpiry = 30,
     hClaimTTL = 30, hApplyDeadline = 60, hCommandQueueSize = 64, hReconcileInterval = 5,
     hReconcileBatch = 100 \<rparr>"

lemma example_host_New: "Host_New (\<lambda>s. s \<noteq> []) (\<lambda>_. True) example_options = Inr example_host"
  by (simp add: Host_New_def Options_validate_def validatePresence_def validateShape_def
      validateTiming_def validatePlacement_def missing_def positiveDuration_def boundedSize_def
      MaxCommandQueueSize_def MaxReconcileBatch_def MinHeartbeatsBeforeExpiry_def
      MinClaimAttemptsBeforeDeadline_def signed_divide_int_def example_options_def example_host_def)

theorem Host_New_coherent_witness:
  "3 * hRegistryHeartbeat example_host \<le> hRegistryExpiry example_host \<and>
   Host_New (\<lambda>s. s \<noteq> []) (\<lambda>_. True) example_options = Inr example_host"
  using Host_New_coherent [OF example_host_New] example_host_New by simp

end
