(* ===== verification/Capacity.thy ===== *)
theory Capacity
  imports HostConfig
begin

text \<open>
  The admission ledger and target directory, \<^verbatim>\<open>internal/service/capacity.go\<close>.  The
  publisher snapshots and validates every launch target once, charges each admitted
  session's weight against the Host's capacity on 64-bit counters, and derives one
  advertisement per target from the ledger.  Every method runs under one mutex.

  Core's validation of a capacity report is the parameter \<open>reportErr\<close> (\<^term>\<open>None\<close> for a
  report Core accepts, the offending field otherwise); SHA-256 is the parameter
  \<open>sha256\<close>; the answers the launch targets give when the publisher is built are the
  parameter \<open>live\<close>.

  The locale \<open>charge_ledger\<close> is the contract the attach, warm-release and drain
  paths rely on: which residency a charge belongs to and who may credit it.
\<close>

section \<open>The stable key\<close>

definition digit :: "nat \<Rightarrow> char" where
  "digit d = char_of (48 + d)"

fun itoa :: "nat \<Rightarrow> string" where
  "itoa n = (if n < 10 then [digit n] else itoa (n div 10) @ [digit (n mod 10)])"

declare itoa.simps [simp del]

fun lengthPrefixed :: "string list \<Rightarrow> string" where
  "lengthPrefixed [] = []"
| "lengthPrefixed (p # ps) = itoa (length p) @ '':'' @ p @ lengthPrefixed ps"

definition hexDigit :: "nat \<Rightarrow> char" where
  "hexDigit n = (if n < 10 then char_of (48 + n) else char_of (87 + n))"

fun hexEncode :: "string \<Rightarrow> string" where
  "hexEncode [] = []"
| "hexEncode (c # cs) = hexDigit (of_char c div 16) # hexDigit (of_char c mod 16) # hexEncode cs"

definition digest :: "(string \<Rightarrow> string) \<Rightarrow> string list \<Rightarrow> string" where
  "digest sha256 parts = hexEncode (sha256 (lengthPrefixed parts))"

definition stableKey ::
  "(string \<Rightarrow> string) \<Rightarrow> agent_id \<Rightarrow> compat_id \<Rightarrow> HostPlacement \<Rightarrow> host_id \<Rightarrow> string" where
  "stableKey sha256 agent cid placement host =
     digest sha256 [agent, cid, placementText placement, host]"

definition rankingScope ::
  "(string \<Rightarrow> string) \<Rightarrow> agent_id \<Rightarrow> compat_id \<Rightarrow> HostPlacement \<Rightarrow> string" where
  "rankingScope sha256 agent cid placement =
     ''launchtarget/'' @ digest sha256 [agent, cid, placementText placement]"

section \<open>State\<close>

record launchable =
  lAgent :: agent_id
  lCompatibility :: compat_id
  lCapabilities :: Capabilities
  lStableKey :: string
  lRankingScope :: string

record admission =
  adAgent :: agent_id
  adWeight :: u64
  adOwner :: u64

record CapacityPublisher =
  cpHost :: Host
  cpGeneration :: u64
  cpTargets :: "launchable list"
  cpByAgent :: "agent_id \<rightharpoonup> launchable"
  admitted :: "Key \<rightharpoonup> admission"
  consumed :: u64
  draining :: bool

record HostLinkCapacityReport =
  crHostID :: host_id
  crHostGeneration :: u64
  crAgentID :: agent_id
  crCompatibilityID :: compat_id
  crPlacement :: HostPlacement
  crInternalEndpoint :: string
  crIsolationClass :: HostIsolationClass
  crAccepting :: bool
  crAvailableCapacity :: u64
  crObservedAt :: instant
  crExpiresAt :: instant

record Advertisement =
  adNamespace :: string
  adRankingScope :: string
  adStableKey :: string
  adRank :: int
  adRanked :: bool
  adDueAt :: instant
  adTombstone :: bool
  adReport :: HostLinkCapacityReport

definition Expired :: "Advertisement \<Rightarrow> instant \<Rightarrow> bool" where
  "Expired a now = (\<not> now < crExpiresAt (adReport a))"

section \<open>Publication\<close>

definition MaxInt64 :: int where "MaxInt64 = 2 ^ 63 - 1"

definition rankOf :: "u64 \<Rightarrow> int" where
  "rankOf available = (if uint available > MaxInt64 then MaxInt64 else sint available)"

definition placementSupported :: "Capabilities \<Rightarrow> HostPlacement \<Rightarrow> bool" where
  "placementSupported c p =
     (case p of
        PlacementPooled \<Rightarrow> PoolingPermitted c
      | PlacementDedicated \<Rightarrow> cSupportsDedicated c
      | PlacementOther _ \<Rightarrow> False)"

definition advertise ::
  "CapacityPublisher \<Rightarrow> instant \<Rightarrow> launchable \<Rightarrow> Advertisement" where
  "advertise p observed t =
     (let h = cpHost p; expires = observed + hRegistryExpiry h;
          accepting = (\<not> draining p \<and> placementSupported (lCapabilities t) (hPlacement h));
          available = (if accepting
                       then (hCapacity h - consumed p) div cAdmissionWeight (lCapabilities t)
                       else 0)
      in \<lparr> adNamespace = ''host/target-directory'', adRankingScope = lRankingScope t,
           adStableKey = lStableKey t, adRank = rankOf available, adRanked = accepting,
           adDueAt = expires, adTombstone = draining p,
           adReport = \<lparr> crHostID = hID h, crHostGeneration = cpGeneration p, crAgentID = lAgent t,
             crCompatibilityID = lCompatibility t, crPlacement = hPlacement h,
             crInternalEndpoint = hInternalEndpoint h, crIsolationClass = hIsolationClass h,
             crAccepting = accepting, crAvailableCapacity = available,
             crObservedAt = observed, crExpiresAt = expires \<rparr> \<rparr>)"

fun publishLoop ::
  "(HostLinkCapacityReport \<Rightarrow> string option) \<Rightarrow> CapacityPublisher \<Rightarrow> instant \<Rightarrow> launchable list \<Rightarrow>
   Advertisement list \<Rightarrow> (agent_id \<times> string) + Advertisement list" where
  "publishLoop reportErr p observed [] acc = Inr acc"
| "publishLoop reportErr p observed (t # ts) acc =
     (let a = advertise p observed t in
      case reportErr (adReport a) of
        Some field \<Rightarrow> Inl (lAgent t, field)
      | None \<Rightarrow> publishLoop reportErr p observed ts (acc @ [a]))"

definition Publish ::
  "(HostLinkCapacityReport \<Rightarrow> string option) \<Rightarrow> instant \<Rightarrow> CapacityPublisher \<Rightarrow>
   (agent_id \<times> string) + Advertisement list" where
  "Publish reportErr observed p = publishLoop reportErr p observed (cpTargets p) []"

section \<open>Construction\<close>

datatype CapacityOptionsError =
    HostMissing
  | AgentUnresolved agent_id
  | CompatibilityUnusable agent_id
  | CapabilitiesUnusable agent_id
  | Unpublishable string

definition optionFieldFor :: "string \<Rightarrow> string" where
  "optionFieldFor field = (if field = ''host_generation'' then ''HostGeneration'' else ''Host'')"

definition snapshot ::
  "(string \<Rightarrow> string) \<Rightarrow> (LaunchTarget \<Rightarrow> compat_id \<times> Capabilities) \<Rightarrow> Host \<Rightarrow> agent_id \<Rightarrow>
   LaunchTarget \<Rightarrow> launchable" where
  "snapshot sha256 live h agent target =
     (let (cid, caps) = live target in
      \<lparr> lAgent = agent, lCompatibility = cid, lCapabilities = caps,
        lStableKey = stableKey sha256 agent cid (hPlacement h) (hID h),
        lRankingScope = rankingScope sha256 agent cid (hPlacement h) \<rparr>)"

fun snapshotLoop ::
  "(string \<Rightarrow> string) \<Rightarrow> (LaunchTarget \<Rightarrow> compat_id \<times> Capabilities) \<Rightarrow> nat \<Rightarrow> Host \<Rightarrow> agent_id list \<Rightarrow>
   CapacityPublisher \<Rightarrow> CapacityOptionsError + CapacityPublisher" where
  "snapshotLoop sha256 live maxID h [] p = Inr p"
| "snapshotLoop sha256 live maxID h (agent # rest) p =
     (case Target agent (hDepartment h) of
        None \<Rightarrow> Inl (AgentUnresolved agent)
      | Some target \<Rightarrow>
          let s = snapshot sha256 live h agent target in
          if CompatibilityID_Validate maxID (lCompatibility s) \<noteq> None
          then Inl (CompatibilityUnusable agent)
          else if Capabilities_Validate (lCapabilities s) \<noteq> None
          then Inl (CapabilitiesUnusable agent)
          else snapshotLoop sha256 live maxID h rest
                 (p\<lparr> cpTargets := cpTargets p @ [s], cpByAgent := (cpByAgent p)(agent \<mapsto> s) \<rparr>))"

definition NewCapacityPublisher ::
  "(string \<Rightarrow> string) \<Rightarrow> (LaunchTarget \<Rightarrow> compat_id \<times> Capabilities) \<Rightarrow> nat \<Rightarrow>
   (HostLinkCapacityReport \<Rightarrow> string option) \<Rightarrow> Host option \<Rightarrow> u64 \<Rightarrow> instant \<Rightarrow>
   CapacityOptionsError + CapacityPublisher" where
  "NewCapacityPublisher sha256 live maxID reportErr host generation now =
     (case host of
        None \<Rightarrow> Inl HostMissing
      | Some h \<Rightarrow>
          (case snapshotLoop sha256 live maxID h (AgentIDs (hDepartment h))
                  \<lparr> cpHost = h, cpGeneration = generation, cpTargets = [], cpByAgent = Map.empty,
                    admitted = Map.empty, consumed = 0, draining = False \<rparr> of
             Inl e \<Rightarrow> Inl e
           | Inr p \<Rightarrow>
               (case Publish reportErr now p of
                  Inl (_, field) \<Rightarrow> Inl (Unpublishable (optionFieldFor field))
                | Inr _ \<Rightarrow> Inr p)))"

section \<open>The ledger\<close>

datatype AdmitError =
    AdmissionConflict agent_id
  | AdmissionRefused HostLinkErrorCode

definition Admit :: "Key \<Rightarrow> agent_id \<Rightarrow> CapacityPublisher \<Rightarrow> AdmitError option \<times> CapacityPublisher" where
  "Admit key agent p =
     (let placement = hPlacement (cpHost p); capacity = hCapacity (cpHost p);
          isolation = hIsolationClass (cpHost p) in
      case admitted p key of
        Some existing \<Rightarrow>
          if adAgent existing \<noteq> agent then (Some (AdmissionConflict (adAgent existing)), p)
          else (None, p\<lparr> admitted := (admitted p)(key \<mapsto> existing\<lparr> adOwner := 0 \<rparr>) \<rparr>)
      | None \<Rightarrow>
          if draining p then (Some (AdmissionRefused NotAdmitting), p)
          else if isolation \<noteq> CrossTenantIsolated \<and>
                  (\<exists>other\<in>dom (admitted p). TenantID other \<noteq> TenantID key)
          then (Some (AdmissionRefused NotAdmitting), p)
          else (case cpByAgent p agent of
                  None \<Rightarrow> (Some (AdmissionRefused RuntimeUnavailable), p)
                | Some target \<Rightarrow>
                    let weight = cAdmissionWeight (lCapabilities target) in
                    if \<not> placementSupported (lCapabilities target) placement
                    then (Some (AdmissionRefused RuntimeMismatch), p)
                    else if weight > capacity - consumed p
                    then (Some (AdmissionRefused NoCapacity), p)
                    else (None, p\<lparr> admitted := (admitted p)(key \<mapsto>
                                      \<lparr> adAgent = agent, adWeight = weight, adOwner = 0 \<rparr>),
                                   consumed := consumed p + weight \<rparr>)))"

text \<open>Dropping a charge and crediting its weight.\<close>

definition credit :: "Key \<Rightarrow> admission \<Rightarrow> CapacityPublisher \<Rightarrow> CapacityPublisher" where
  "credit key entry p =
     p\<lparr> admitted := map_del key (admitted p), consumed := consumed p - adWeight entry \<rparr>"

definition Release :: "Key \<Rightarrow> CapacityPublisher \<Rightarrow> bool \<times> CapacityPublisher" where
  "Release key p =
     (case admitted p key of
        None \<Rightarrow> (False, p)
      | Some entry \<Rightarrow> (True, credit key entry p))"

definition Own :: "Key \<Rightarrow> u64 \<Rightarrow> CapacityPublisher \<Rightarrow> bool \<times> CapacityPublisher" where
  "Own key generation p =
     (if generation = 0 then (False, p)
      else (case admitted p key of
              None \<Rightarrow> (False, p)
            | Some entry \<Rightarrow>
                if adOwner entry = 0
                then (True, p\<lparr> admitted := (admitted p)(key \<mapsto> entry\<lparr> adOwner := generation \<rparr>) \<rparr>)
                else (adOwner entry = generation, p)))"

definition ReleaseOwned :: "Key \<Rightarrow> u64 \<Rightarrow> CapacityPublisher \<Rightarrow> bool \<times> CapacityPublisher" where
  "ReleaseOwned key generation p =
     (case admitted p key of
        None \<Rightarrow> (False, p)
      | Some entry \<Rightarrow>
          if generation = 0 \<or> adOwner entry \<noteq> generation then (False, p)
          else (True, credit key entry p))"

definition BeginDrain :: "CapacityPublisher \<Rightarrow> CapacityPublisher" where
  "BeginDrain p = p\<lparr> draining := True \<rparr>"

definition Draining :: "CapacityPublisher \<Rightarrow> bool" where
  "Draining p = draining p"

definition ConsumedWeight :: "CapacityPublisher \<Rightarrow> u64" where
  "ConsumedWeight p = consumed p"

lemmas ledger_ops [cap_defs] =
  Admit_def credit_def Release_def Own_def ReleaseOwned_def BeginDrain_def Let_def

section \<open>Who may credit a charge\<close>

text \<open>
  The contract of the ledger towards the paths that end a residency: a charge
  belongs to no residency (owner zero) or to one generation, only that generation
  credits it, and binding takes a charge that belongs to nobody.
\<close>

locale charge_ledger =
  fixes owner :: "'s \<Rightarrow> Key \<Rightarrow> u64 option"
    and bind :: "Key \<Rightarrow> u64 \<Rightarrow> 's \<Rightarrow> bool \<times> 's"
    and credit_by :: "Key \<Rightarrow> u64 \<Rightarrow> 's \<Rightarrow> bool \<times> 's"
  assumes credit_iff: "fst (credit_by k g s) \<longleftrightarrow> g \<noteq> 0 \<and> owner s k = Some g"
    and credit_effect: "fst (credit_by k g s) \<Longrightarrow>
          owner (snd (credit_by k g s)) k' = (if k' = k then None else owner s k')"
    and credit_refused: "\<not> fst (credit_by k g s) \<Longrightarrow> snd (credit_by k g s) = s"
    and bind_iff: "fst (bind k g s) \<longleftrightarrow> g \<noteq> 0 \<and> (owner s k = Some 0 \<or> owner s k = Some g)"
    and bind_effect: "owner (snd (bind k g s)) k' =
          (if k' = k \<and> fst (bind k g s) then Some g else owner s k')"
begin

lemma bound_charge_is_credited:
  "fst (bind k g s) \<Longrightarrow> fst (credit_by k g (snd (bind k g s)))"
  by (simp add: credit_iff bind_effect) (simp add: bind_iff)

lemma foreign_credit:
  assumes "owner s k \<noteq> Some g"
  shows "credit_by k g s = (False, s)"
proof -
  have "\<not> fst (credit_by k g s)" using assms by (simp add: credit_iff)
  with credit_refused [OF this] show ?thesis by (cases "credit_by k g s") simp
qed

lemma credited_once:
  "fst (credit_by k g s) \<Longrightarrow> credit_by k g' (snd (credit_by k g s)) = (False, snd (credit_by k g s))"
  by (rule foreign_credit) (simp add: credit_effect)

end

definition ownerOf :: "CapacityPublisher \<Rightarrow> Key \<Rightarrow> u64 option" where
  "ownerOf p k = map_option adOwner (admitted p k)"

interpretation ledger: charge_ledger ownerOf Own ReleaseOwned
  by unfold_locales
    (auto simp: ownerOf_def cap_defs split: option.splits if_splits)

section \<open>The ledger invariant\<close>

definition weightOf :: "CapacityPublisher \<Rightarrow> Key \<Rightarrow> nat" where
  "weightOf p k = (case admitted p k of None \<Rightarrow> 0 | Some e \<Rightarrow> unat (adWeight e))"

definition totalWeight :: "CapacityPublisher \<Rightarrow> nat" where
  "totalWeight p = (\<Sum>k\<in>dom (admitted p). weightOf p k)"

text \<open>
  The counter is the sum of the charges, within capacity; a charge is what the
  snapshot says its agent weighs; and without cross-tenant isolation one tenant at
  most is present.
\<close>

definition chargeOK :: "CapacityPublisher \<Rightarrow> admission \<Rightarrow> bool" where
  "chargeOK p e =
     (case cpByAgent p (adAgent e) of
        None \<Rightarrow> False
      | Some t \<Rightarrow> adWeight e = cAdmissionWeight (lCapabilities t) \<and>
                  placementSupported (lCapabilities t) (hPlacement (cpHost p)))"

definition oneTenant :: "CapacityPublisher \<Rightarrow> bool" where
  "oneTenant p =
     (hIsolationClass (cpHost p) = CrossTenantIsolated \<or>
      (\<forall>k\<in>dom (admitted p). \<forall>k'\<in>dom (admitted p). TenantID k = TenantID k'))"

definition ledger_inv :: "CapacityPublisher \<Rightarrow> bool" where
  "ledger_inv p =
     (finite (dom (admitted p)) \<and> unat (consumed p) = totalWeight p \<and>
      totalWeight p \<le> unat (hCapacity (cpHost p)) \<and>
      (\<forall>k e. admitted p k = Some e \<longrightarrow> chargeOK p e) \<and> oneTenant p)"

lemma chargeOK_update [simp]:
  "chargeOK (p\<lparr> admitted := m \<rparr>) e = chargeOK p e" "chargeOK (p\<lparr> consumed := c \<rparr>) e = chargeOK p e"
  "chargeOK p (e\<lparr> adOwner := g \<rparr>) = chargeOK p e" "chargeOK (p\<lparr> draining := d \<rparr>) e = chargeOK p e"
  by (simp_all add: chargeOK_def cong: option.case_cong conj_cong)

lemma oneTenant_subset:
  assumes "oneTenant p" "dom m \<subseteq> dom (admitted p)"
  shows "oneTenant (p\<lparr> admitted := m \<rparr>)"
  using assms unfolding oneTenant_def by fastforce

lemma oneTenant_consumed [simp]: "oneTenant (p\<lparr> consumed := c \<rparr>) = oneTenant p"
  by (simp add: oneTenant_def)

lemma ledger_invD:
  assumes "ledger_inv p"
  shows "finite (dom (admitted p))" "unat (consumed p) = totalWeight p"
    "totalWeight p \<le> unat (hCapacity (cpHost p))" "consumed p \<le> hCapacity (cpHost p)"
  using assms by (simp_all add: ledger_inv_def word_le_nat_alt)

lemma totalWeight_add:
  assumes "finite (dom (admitted p))" "admitted p k = None"
  shows "totalWeight (p\<lparr> admitted := (admitted p)(k \<mapsto> e), consumed := c \<rparr>) =
    totalWeight p + unat (adWeight e)"
proof -
  have "k \<notin> dom (admitted p)" using assms(2) by auto
  moreover have "(\<Sum>x\<in>dom (admitted p). weightOf (p\<lparr> admitted := (admitted p)(k \<mapsto> e), consumed := c \<rparr>) x)
      = totalWeight p"
    unfolding totalWeight_def
    by (rule sum.cong) (use calculation in \<open>auto simp: weightOf_def split: option.splits\<close>)
  ultimately show ?thesis
    using assms(1) by (simp add: totalWeight_def [of "p\<lparr>admitted := _, consumed := _\<rparr>"] weightOf_def)
qed

lemma totalWeight_same:
  assumes "admitted p k = Some e" "adWeight e' = adWeight e"
  shows "totalWeight (p\<lparr> admitted := (admitted p)(k \<mapsto> e') \<rparr>) = totalWeight p"
proof -
  have "dom (admitted (p\<lparr> admitted := (admitted p)(k \<mapsto> e') \<rparr>)) = dom (admitted p)"
    using assms(1) by auto
  then show ?thesis unfolding totalWeight_def
    by (rule sum.cong) (use assms in \<open>auto simp: weightOf_def split: option.splits\<close>)
qed

lemma totalWeight_credit:
  assumes "finite (dom (admitted p))" "admitted p k = Some e"
  shows "totalWeight p = totalWeight (credit k e p) + unat (adWeight e)"
proof -
  have "totalWeight p = weightOf p k + (\<Sum>x\<in>dom (admitted p) - {k}. weightOf p x)"
    unfolding totalWeight_def using assms by (subst sum.remove [of _ k]) auto
  moreover have "(\<Sum>x\<in>dom (admitted p) - {k}. weightOf p x) = totalWeight (credit k e p)"
    unfolding totalWeight_def credit_def
    by (rule sum.cong) (auto simp: weightOf_def split: option.splits)
  ultimately show ?thesis using assms(2) by (simp add: weightOf_def)
qed

lemma totalWeight_consumed [simp]:
  "totalWeight (p\<lparr> consumed := c \<rparr>) = totalWeight p"
  by (simp add: totalWeight_def weightOf_def)

lemma ledger_inv_rebind:
  assumes "ledger_inv p" "admitted p k = Some e"
  shows "ledger_inv (p\<lparr> admitted := (admitted p)(k \<mapsto> e\<lparr> adOwner := g \<rparr>) \<rparr>)"
proof -
  let ?m = "(admitted p)(k \<mapsto> e\<lparr> adOwner := g \<rparr>)"
  have d: "dom ?m = dom (admitted p)" using assms(2) by auto
  have "oneTenant (p\<lparr> admitted := ?m \<rparr>)"
    using assms(1) d by (intro oneTenant_subset) (auto simp: ledger_inv_def)
  moreover have "?m k' = Some e' \<Longrightarrow> chargeOK p e'" for k' e'
    using assms by (auto simp: ledger_inv_def split: if_splits)
  ultimately show ?thesis
    using assms(1) d totalWeight_same [OF assms(2), of "e\<lparr> adOwner := g \<rparr>"]
    unfolding ledger_inv_def by (simp del: fun_upd_apply)
qed

lemma ledger_inv_credit:
  assumes "ledger_inv p" "admitted p k = Some e"
  shows "ledger_inv (credit k e p)"
proof -
  note fin = ledger_invD(1) [OF assms(1)] and tot = ledger_invD(2) [OF assms(1)]
  have w: "totalWeight p = totalWeight (credit k e p) + unat (adWeight e)"
    by (rule totalWeight_credit [OF fin assms(2)])
  then have "adWeight e \<le> consumed p" using tot by (simp add: word_le_nat_alt)
  then have "unat (consumed p - adWeight e) = totalWeight (credit k e p)"
    using w tot by (simp add: unat_sub_le)
  moreover have "totalWeight (credit k e p) \<le> unat (hCapacity (cpHost p))"
    using w ledger_invD(3) [OF assms(1)] by simp
  moreover have "oneTenant (credit k e p)"
    using assms(1) oneTenant_subset [of p "map_del k (admitted p)"]
    by (simp add: ledger_inv_def credit_def Diff_subset)
  moreover have "admitted (credit k e p) k' = Some e' \<Longrightarrow> chargeOK (credit k e p) e'" for k' e'
    using assms(1) by (auto simp: ledger_inv_def credit_def)
  ultimately show ?thesis
    using fin unfolding ledger_inv_def by (simp add: credit_def)
qed

lemma ledger_inv_charge:
  assumes inv: "ledger_inv p" and k: "admitted p k = None" and t: "cpByAgent p a = Some t"
    and room: "\<not> cAdmissionWeight (lCapabilities t) > hCapacity (cpHost p) - consumed p"
    and pl: "placementSupported (lCapabilities t) (hPlacement (cpHost p))"
    and ten: "hIsolationClass (cpHost p) = CrossTenantIsolated \<or>
              (\<forall>other\<in>dom (admitted p). TenantID other = TenantID k)"
  shows "ledger_inv (p\<lparr> admitted := (admitted p)(k \<mapsto>
      \<lparr> adAgent = a, adWeight = cAdmissionWeight (lCapabilities t), adOwner = 0 \<rparr>),
      consumed := consumed p + cAdmissionWeight (lCapabilities t) \<rparr>)"
    (is "ledger_inv ?p")
proof -
  let ?w = "cAdmissionWeight (lCapabilities t)"
  note fin = ledger_invD(1) [OF inv] and tot = ledger_invD(2) [OF inv] and le = ledger_invD(4) [OF inv]
  have fit: "unat (consumed p) + unat ?w \<le> unat (hCapacity (cpHost p))"
    using room le unat_sub_le [OF le] by (auto simp: not_less word_le_nat_alt)
  then have "unat (consumed p + ?w) = unat (consumed p) + unat ?w"
    by (rule unat_add_fits)
  moreover have "totalWeight ?p = totalWeight p + unat ?w"
    by (simp add: totalWeight_add [OF fin k] del: totalWeight_consumed)
  moreover have "oneTenant ?p" using ten by (simp add: oneTenant_def) metis
  moreover have "admitted ?p k' = Some e' \<Longrightarrow> chargeOK ?p e'" for k' e'
    using inv t pl by (cases "k' = k") (auto simp: ledger_inv_def chargeOK_def [of p])
  ultimately show ?thesis
    using fin tot fit unfolding ledger_inv_def by (simp del: totalWeight_consumed)
qed

lemma ledger_inv_Admit:
  assumes "ledger_inv p"
  shows "ledger_inv (snd (Admit k a p))"
  using assms
  by (auto simp: Admit_def Let_def split: option.splits intro!: ledger_inv_rebind
      intro: ledger_inv_charge)

lemma ledger_inv_Release: "ledger_inv p \<Longrightarrow> ledger_inv (snd (Release k p))"
  by (auto simp: Release_def ledger_inv_credit split: option.splits)

lemma ledger_inv_Own: "ledger_inv p \<Longrightarrow> ledger_inv (snd (Own k g p))"
  by (auto simp: Own_def ledger_inv_rebind split: option.splits)

lemma ledger_inv_ReleaseOwned: "ledger_inv p \<Longrightarrow> ledger_inv (snd (ReleaseOwned k g p))"
  by (auto simp: ReleaseOwned_def ledger_inv_credit split: option.splits)

lemma ledger_inv_BeginDrain: "ledger_inv p \<Longrightarrow> ledger_inv (BeginDrain p)"
  by (simp add: BeginDrain_def ledger_inv_def totalWeight_def weightOf_def oneTenant_def)

section \<open>Traces of ledger operations\<close>

datatype CapOp =
    CAdmit Key agent_id
  | CRelease Key
  | COwn Key u64
  | CReleaseOwned Key u64
  | CBeginDrain

fun capExec :: "CapOp \<Rightarrow> CapacityPublisher \<Rightarrow> bool \<times> CapacityPublisher" where
  "capExec (CAdmit k a) p = (fst (Admit k a p) = None, snd (Admit k a p))"
| "capExec (CRelease k) p = Release k p"
| "capExec (COwn k g) p = Own k g p"
| "capExec (CReleaseOwned k g) p = ReleaseOwned k g p"
| "capExec CBeginDrain p = (True, BeginDrain p)"

fun capRun :: "CapOp list \<Rightarrow> CapacityPublisher \<Rightarrow> CapacityPublisher" where
  "capRun [] p = p"
| "capRun (op # ops) p = capRun ops (snd (capExec op p))"

inductive capReach :: "CapacityPublisher \<Rightarrow> CapacityPublisher \<Rightarrow> bool" for p0 where
  init: "capReach p0 p0"
| step: "capReach p0 p \<Longrightarrow> capReach p0 (snd (capExec op p))"

lemma capExec_inv: "ledger_inv p \<Longrightarrow> ledger_inv (snd (capExec op p))"
  by (cases op) (simp_all add: ledger_inv_Admit ledger_inv_Release ledger_inv_Own
      ledger_inv_ReleaseOwned ledger_inv_BeginDrain)

lemma capReach_inv: "capReach p0 p \<Longrightarrow> ledger_inv p0 \<Longrightarrow> ledger_inv p"
  by (induction rule: capReach.induct) (simp_all add: capExec_inv)

lemma capExec_static:
  "cpHost (snd (capExec op p)) = cpHost p" "cpTargets (snd (capExec op p)) = cpTargets p"
  "cpByAgent (snd (capExec op p)) = cpByAgent p" "cpGeneration (snd (capExec op p)) = cpGeneration p"
  by (cases op; simp add: cap_defs split: option.splits)+

section \<open>What a constructed publisher holds\<close>

text \<open>
  The snapshot is sound: the publication list and the lookup agree, agents are
  listed once, and every captured capability record is a valid one, so no weight
  is zero.
\<close>

definition snap_ok :: "CapacityPublisher \<Rightarrow> bool" where
  "snap_ok p =
     (distinct (map lAgent (cpTargets p)) \<and>
      (\<forall>t\<in>set (cpTargets p). cpByAgent p (lAgent t) = Some t \<and>
         Capabilities_Validate (lCapabilities t) = None) \<and>
      dom (cpByAgent p) = lAgent ` set (cpTargets p))"

lemma snapshotLoop_ok:
  assumes "snapshotLoop sha256 live maxID h as p = Inr p'" "snap_ok p"
    "distinct (map lAgent (cpTargets p) @ as)"
  shows "snap_ok p' \<and> map lAgent (cpTargets p') = map lAgent (cpTargets p) @ as \<and>
    cpHost p' = cpHost p \<and> cpGeneration p' = cpGeneration p \<and> admitted p' = admitted p \<and>
    consumed p' = consumed p \<and> draining p' = draining p"
  using assms
proof (induction as arbitrary: p)
  case (Cons a as)
  from Cons.prems(1) obtain target where "Target a (hDepartment h) = Some target"
    by (auto split: option.splits)
  define s where "s = snapshot sha256 live h a target"
  define q where "q = p\<lparr> cpTargets := cpTargets p @ [s], cpByAgent := (cpByAgent p)(a \<mapsto> s) \<rparr>"
  have valid: "Capabilities_Validate (lCapabilities s) = None"
    and rest: "snapshotLoop sha256 live maxID h as q = Inr p'"
    using Cons.prems(1) \<open>Target a (hDepartment h) = Some target\<close>
    by (auto simp: Let_def s_def q_def split: if_splits)
  have a: "lAgent s = a" by (simp add: s_def snapshot_def split: prod.splits)
  have "snap_ok q"
    using Cons.prems(2,3) valid a unfolding snap_ok_def q_def by auto (metis imageI)
  moreover have "distinct (map lAgent (cpTargets q) @ as)"
    using Cons.prems(3) a by (simp add: q_def)
  ultimately show ?case using Cons.IH [OF rest] a by (simp add: q_def)
qed simp

lemma NewCapacityPublisher_ok:
  assumes "NewCapacityPublisher sha256 live maxID reportErr (Some h) g now = Inr p"
    "distinct (AgentIDs (hDepartment h))"
  shows "snap_ok p" "map lAgent (cpTargets p) = AgentIDs (hDepartment h)" "cpHost p = h"
    "admitted p = Map.empty" "consumed p = 0" "\<not> draining p"
    "\<exists>ads. Publish reportErr now p = Inr ads"
proof -
  let ?p0 = "\<lparr> cpHost = h, cpGeneration = g, cpTargets = [], cpByAgent = Map.empty,
       admitted = Map.empty, consumed = 0, draining = False \<rparr>"
  have run: "snapshotLoop sha256 live maxID h (AgentIDs (hDepartment h)) ?p0 = Inr p"
    and pub: "\<exists>ads. Publish reportErr now p = Inr ads"
    using assms(1) by (auto simp: NewCapacityPublisher_def split: sum.splits)
  have "snap_ok ?p0" by (simp add: snap_ok_def)
  from snapshotLoop_ok [OF run this] assms(2) pub
  show "snap_ok p" "map lAgent (cpTargets p) = AgentIDs (hDepartment h)" "cpHost p = h"
    "admitted p = Map.empty" "consumed p = 0" "\<not> draining p"
    "\<exists>ads. Publish reportErr now p = Inr ads"
    by simp_all
qed

lemma New_ledger_inv:
  "admitted p = Map.empty \<Longrightarrow> consumed p = 0 \<Longrightarrow> ledger_inv p"
  by (simp add: ledger_inv_def totalWeight_def oneTenant_def)

lemma publishLoop_ok:
  "publishLoop reportErr p t ts acc = Inr ads \<Longrightarrow>
     ads = acc @ map (advertise p t) ts \<and> (\<forall>x\<in>set ts. reportErr (adReport (advertise p t x)) = None)"
  by (induction ts arbitrary: acc) (fastforce simp: Let_def split: option.splits)+

lemma publishLoop_total:
  "\<forall>x\<in>set ts. reportErr (adReport (advertise p t x)) = None \<Longrightarrow>
     publishLoop reportErr p t ts acc = Inr (acc @ map (advertise p t) ts)"
  by (induction ts arbitrary: acc) (auto simp: Let_def split: option.splits)

lemma rankOf_sint:
  fixes a :: u64
  assumes "uint a \<le> MaxInt64"
  shows "sint a = uint a"
proof -
  have "uint a < 2 ^ 63" using assms by (simp add: MaxInt64_def)
  then have "signed_take_bit 63 (uint a) = uint a" 
    by (intro signed_take_bit_int_eq_self) (auto intro: order_trans [OF _ uint_ge_0])
  then show ?thesis by (simp add: sint_uint)
qed

lemma rankOf_min: "rankOf a = min (uint a) MaxInt64"
  using rankOf_sint [of a] by (auto simp: rankOf_def min_def)

lemma word_div_bounds:
  fixes a w :: u64
  assumes "w \<noteq> 0"
  shows "unat (a div w) * unat w \<le> unat a" "unat a < (unat (a div w) + 1) * unat w"
proof -
  have d: "unat (a div w) = unat a div unat w" by (rule unat_div)
  have w: "0 < unat w" using assms by (simp add: unat_gt_0)
  show "unat (a div w) * unat w \<le> unat a" by (simp add: d)
  show "unat a < (unat (a div w) + 1) * unat w"
    using w dividend_less_div_times [of "unat w" "unat a"] by (simp add: d)
qed

lemma capExec_keeps_charge:
  assumes "admitted p k = Some e" "adOwner e = 0 \<or> adOwner e = g"
    and "op \<noteq> CRelease k" "op \<noteq> CReleaseOwned k g" "\<And>g'. op = COwn k g' \<Longrightarrow> g' = g"
  shows "\<exists>e'. admitted (snd (capExec op p)) k = Some e' \<and> adAgent e' = adAgent e \<and>
    adWeight e' = adWeight e \<and> (adOwner e' = 0 \<or> adOwner e' = g)"
proof (cases op)
  case (CAdmit k' a)
  then show ?thesis using assms(1,2)
    by (auto simp: Admit_def Let_def split: option.splits)
next
  case (CRelease k')
  then show ?thesis using assms(1,2,3) by (auto simp: Release_def credit_def split: option.splits)
next
  case (COwn k' g')
  then show ?thesis using assms(1,2,5) by (auto simp: Own_def split: option.splits)
next
  case (CReleaseOwned k' g')
  then show ?thesis using assms(1,2,4)
    by (cases "k' = k") (auto simp: ReleaseOwned_def credit_def split: option.splits)
next
  case CBeginDrain
  then show ?thesis using assms(1,2) by (simp add: BeginDrain_def)
qed

section \<open>Properties\<close>

text \<open>
  C15: the Host never over-admits.  In every state a constructed publisher reaches
  by admissions, releases, ownership changes and drain, the 64-bit counter is the
  exact sum of the charged weights (it never wraps), that sum is within the Host's
  capacity, and a Host that is not cross-tenant isolated holds one tenant at most.
\<close>

theorem ledger_never_overadmits:
  assumes "NewCapacityPublisher sha256 live maxID reportErr (Some h) g now = Inr p0"
    and "distinct (AgentIDs (hDepartment h))" and "capReach p0 p"
  shows "unat (ConsumedWeight p) = totalWeight p \<and> totalWeight p \<le> unat (hCapacity h) \<and>
    (hIsolationClass h = CrossTenantIsolated \<or>
     (\<forall>k\<in>dom (admitted p). \<forall>k'\<in>dom (admitted p). TenantID k = TenantID k'))"
proof -
  note new = NewCapacityPublisher_ok [OF assms(1,2)]
  have inv: "ledger_inv p" by (rule capReach_inv [OF assms(3) New_ledger_inv [OF new(4,5)]])
  have "cpHost p = h"
    using assms(3) by (induction rule: capReach.induct) (simp_all add: new(3) capExec_static)
  with inv show ?thesis by (simp add: ledger_inv_def oneTenant_def ConsumedWeight_def)
qed

definition example_live :: "LaunchTarget \<Rightarrow> compat_id \<times> Capabilities" where
  "example_live t = (ltCompatibilityID t, ltCapabilities t)"

definition example_snapshot :: launchable where
  "example_snapshot = snapshot id example_live example_host ''a'' example_target"

definition example_publisher :: CapacityPublisher where
  "example_publisher = \<lparr> cpHost = example_host, cpGeneration = 1, cpTargets = [example_snapshot],
     cpByAgent = [''a'' \<mapsto> example_snapshot], admitted = Map.empty, consumed = 0, draining = False \<rparr>"

lemma example_New:
  "NewCapacityPublisher id example_live 256 (\<lambda>_. None) (Some example_host) 1 0 = Inr example_publisher"
proof -
  have t: "Target ''a'' (hDepartment example_host) = Some example_target"
    by (simp add: Target_def example_host_def example_department_def)
  have l: "lCompatibility example_snapshot = ''v1''" "lCapabilities example_snapshot = example_caps"
    by (simp_all add: example_snapshot_def snapshot_def example_live_def example_target_def)
  have v: "CompatibilityID_Validate 256 ''v1'' = None" "Capabilities_Validate example_caps = None"
    by (simp_all add: CompatibilityID_Validate_def ValidString_def Capabilities_Validate_def
        example_caps_def PoolingPermitted_def)
  have "AgentIDs (hDepartment example_host) = [''a'']"
    by (simp add: AgentIDs_def example_host_def example_department_def)
  then show ?thesis
    by (simp add: NewCapacityPublisher_def t Let_def l v Publish_def example_publisher_def
        flip: example_snapshot_def)
qed

lemma example_agents: "distinct (AgentIDs (hDepartment example_host))"
  by (simp add: AgentIDs_def example_host_def example_department_def)

theorem ledger_never_overadmits_witness:
  "unat (ConsumedWeight (snd (capExec (CAdmit (Key ''t'' ''s'') ''a'') example_publisher))) =
   totalWeight (snd (capExec (CAdmit (Key ''t'' ''s'') ''a'') example_publisher))"
  using ledger_never_overadmits [OF example_New example_agents
      capReach.step [OF capReach.init, of _ "CAdmit (Key ''t'' ''s'') ''a''"]] by simp

lemma capRun_keeps_charge:
  assumes "admitted p k = Some e" "adOwner e = 0 \<or> adOwner e = g"
    and "\<forall>op\<in>set ops. op \<noteq> CRelease k \<and> op \<noteq> CReleaseOwned k g \<and> (\<forall>g'. op = COwn k g' \<longrightarrow> g' = g)"
  shows "\<exists>e'. admitted (capRun ops p) k = Some e' \<and> adAgent e' = adAgent e \<and>
    adWeight e' = adWeight e \<and> (adOwner e' = 0 \<or> adOwner e' = g)"
  using assms
proof (induction ops arbitrary: p e)
  case (Cons op ops)
  from Cons.prems(3) have "op \<noteq> CRelease k" "op \<noteq> CReleaseOwned k g"
    "\<And>g'. op = COwn k g' \<Longrightarrow> g' = g" by auto
  from capExec_keeps_charge [OF Cons.prems(1,2) this] obtain e' where
    "admitted (snd (capExec op p)) k = Some e'" "adOwner e' = 0 \<or> adOwner e' = g"
    "adAgent e' = adAgent e" "adWeight e' = adWeight e" by blast
  with Cons.IH [OF this(1,2)] Cons.prems(3) show ?case by simp
qed auto

text \<open>An admission that is granted leaves the session charged and owned by nobody.\<close>

lemma Admit_claims:
  assumes "fst (Admit k agent p) = None"
  shows "\<exists>e. admitted (snd (Admit k agent p)) k = Some e \<and> adOwner e = 0 \<and> adAgent e = agent \<and>
    (\<forall>e0. admitted p k = Some e0 \<longrightarrow> adWeight e = adWeight e0)"
  using assms by (auto simp: Admit_def Let_def split: option.splits if_splits)



text \<open>
  C37: advertised room is room the ledger grants, and the other way round.  For a
  session that is not charged yet and a tenant the Host may take, \<open>Admit\<close> of a
  registered agent succeeds exactly when that agent's advertisement, derived from
  the same state, is accepting with at least one unit of available capacity; a
  refusal is \<open>not_admitting\<close> when draining, \<open>runtime_mismatch\<close> when the placement is
  not offered and \<open>no_capacity\<close> otherwise.
\<close>

theorem advertised_room_is_admitted:
  assumes "snap_ok p" "t \<in> set (cpTargets p)" "admitted p k = None"
    and "oneTenant (p\<lparr> admitted := (admitted p)(k \<mapsto> e) \<rparr>)"
  shows "fst (Admit k (lAgent t) p) =
    (let r = adReport (advertise p now t) in
     if crAccepting r \<and> 0 < crAvailableCapacity r then None
     else Some (AdmissionRefused
       (if draining p then NotAdmitting
        else if \<not> placementSupported (lCapabilities t) (hPlacement (cpHost p)) then RuntimeMismatch
        else NoCapacity)))"
proof -
  let ?w = "cAdmissionWeight (lCapabilities t)" and ?free = "hCapacity (cpHost p) - consumed p"
  from assms(1,2) have t: "cpByAgent p (lAgent t) = Some t"
    and w: "?w \<noteq> 0" by (auto simp: snap_ok_def Capabilities_valid_iff)
  have ten: "\<not> (hIsolationClass (cpHost p) \<noteq> CrossTenantIsolated \<and>
      (\<exists>other\<in>dom (admitted p). TenantID other \<noteq> TenantID k))"
    using assms(4) by (auto simp: oneTenant_def)
  have "0 < ?free div ?w \<longleftrightarrow> ?w \<le> ?free"
    using word_div_bounds [OF w, of ?free] w
    by (auto simp: word_less_nat_alt word_le_nat_alt unat_div div_greater_zero_iff unat_gt_0)
  then show ?thesis
    using assms(3) t ten by (auto simp: Admit_def Let_def advertise_def not_less)
qed

theorem advertised_room_is_admitted_witness:
  "fst (Admit (Key ''t'' ''s'') (lAgent example_snapshot) example_publisher) = None"
proof -
  have "snap_ok example_publisher"
    by (rule NewCapacityPublisher_ok(1) [OF example_New example_agents])
  moreover have "example_snapshot \<in> set (cpTargets example_publisher)"
    "admitted example_publisher (Key ''t'' ''s'') = None"
    by (simp_all add: example_publisher_def)
  moreover have "oneTenant (example_publisher\<lparr> admitted := (admitted example_publisher)(Key ''t'' ''s'' \<mapsto>
      \<lparr> adAgent = ''a'', adWeight = 2, adOwner = 0 \<rparr>) \<rparr>)"
    by (simp add: oneTenant_def example_publisher_def)
  ultimately show ?thesis
    by (subst advertised_room_is_admitted [where now = 0])
      (auto simp: advertise_def example_publisher_def example_snapshot_def snapshot_def Let_def
        example_live_def example_target_def example_host_def example_caps_def
        placementSupported_def PoolingPermitted_def)
qed

text \<open>
  What one publication says.  A successful \<open>Publish\<close> lists exactly the
  Department's agents, in their order; with the ledger within capacity every row's
  available capacity is the number of further sessions of that weight that fit in
  the remaining capacity (zero when it does not accept), accepting and ranked
  coincide and fail exactly under drain or an unsupported placement, tombstones mark
  drain, and the rank is the available capacity saturated at the largest 64-bit
  signed value, so it is never negative and never inverts the order.
\<close>

theorem Publish_rows:
  assumes "Publish reportErr now p = Inr ads" "snap_ok p" "ledger_inv p" "i < length ads"
  shows "length ads = length (cpTargets p) \<and>
    (let t = cpTargets p ! i; a = ads ! i; r = adReport a;
         w = unat (cAdmissionWeight (lCapabilities t));
         n = unat (crAvailableCapacity r) in
     crAgentID r = lAgent t \<and> adTombstone a = draining p \<and> adRanked a = crAccepting r \<and>
     crAccepting r = (\<not> draining p \<and> placementSupported (lCapabilities t) (hPlacement (cpHost p))) \<and>
     (if crAccepting r
      then totalWeight p + n * w \<le> unat (hCapacity (cpHost p)) \<and>
           unat (hCapacity (cpHost p)) < totalWeight p + (n + 1) * w
      else n = 0) \<and>
     adRank a = min (int n) MaxInt64 \<and> 0 \<le> adRank a \<and>
     crExpiresAt r = now + hRegistryExpiry (cpHost p) \<and> adDueAt a = crExpiresAt r)"
proof -
  have ads: "ads = map (advertise p now) (cpTargets p)"
    using publishLoop_ok assms(1) by (fastforce simp: Publish_def)
  let ?t = "cpTargets p ! i" and ?h = "cpHost p"
  let ?w = "cAdmissionWeight (lCapabilities ?t)" and ?free = "hCapacity ?h - consumed p"
  have i: "i < length (cpTargets p)" using assms(4) ads by simp
  then have "?t \<in> set (cpTargets p)" by simp
  then have w: "?w \<noteq> 0" using assms(2) by (auto simp: snap_ok_def Capabilities_valid_iff)
  note inv = ledger_invD [OF assms(3)]
  have free: "unat ?free = unat (hCapacity ?h) - totalWeight p"
    using unat_sub_le [OF inv(4)] inv(2) by simp
  have fit: "totalWeight p + unat (?free div ?w) * unat ?w \<le> unat (hCapacity ?h)"
    "unat (hCapacity ?h) < totalWeight p + (unat (?free div ?w) + 1) * unat ?w"
    using word_div_bounds [OF w, of ?free] free inv(3) by auto
  have rank: "rankOf x = min (int (unat x)) MaxInt64" "0 \<le> rankOf x" for x :: u64
    by (simp_all add: rankOf_min MaxInt64_def)
  show ?thesis
    using i fit by (simp add: ads advertise_def Let_def rank MaxInt64_def)
qed

section \<open>The length-prefixed encoding\<close>

fun decimal :: "nat \<Rightarrow> string \<Rightarrow> nat" where
  "decimal acc [] = acc"
| "decimal acc (c # cs) = decimal (acc * 10 + (of_char c - 48)) cs"

lemma decimal_append: "decimal acc (xs @ ys) = decimal (decimal acc xs) ys"
  by (induction xs arbitrary: acc) simp_all

lemma digit_val: "d < 10 \<Longrightarrow> of_char (digit d) = 48 + d"
  by (simp add: digit_def)

lemma decimal_itoa: "decimal 0 (itoa n) = n"
proof (induction n rule: itoa.induct)
  case (1 n)
  show ?case
  proof (cases "n < 10")
    case True
    then show ?thesis by (subst itoa.simps) (simp add: digit_val)
  next
    case False
    have "decimal 0 (itoa n) = n div 10 * 10 + n mod 10"
      using False "1.IH" by (subst itoa.simps) (simp add: decimal_append digit_val)
    then show ?thesis by simp
  qed
qed

lemma itoa_inj: "itoa m = itoa n \<Longrightarrow> m = n"
  by (metis decimal_itoa)

lemma digit_not_colon: "d < 10 \<Longrightarrow> digit d \<noteq> CHR '':''"
proof
  assume d: "d < 10" "digit d = CHR '':''"
  then have "48 + d = of_char (CHR '':'')" using digit_val by metis
  then show False using d(1) by simp
qed

lemma itoa_no_colon: "CHR '':'' \<notin> set (itoa n)"
proof (induction n rule: itoa.induct)
  case (1 n)
  have "digit (n mod 10) \<noteq> CHR '':''" by (rule digit_not_colon) simp
  moreover have "n < 10 \<Longrightarrow> digit n \<noteq> CHR '':''" by (rule digit_not_colon)
  ultimately show ?case using "1.IH" by (subst itoa.simps) auto
qed

lemma lengthPrefixed_inj: "lengthPrefixed xs = lengthPrefixed ys \<Longrightarrow> xs = ys"
proof (induction xs arbitrary: ys)
  case Nil
  then show ?case by (cases ys) auto
next
  case (Cons x xs)
  then obtain y ys' where ys: "ys = y # ys'" by (cases ys) auto
  have eq: "itoa (length x) @ CHR '':'' # x @ lengthPrefixed xs =
      itoa (length y) @ CHR '':'' # y @ lengthPrefixed ys'"
    using Cons.prems ys by simp
  have "takeWhile (\<lambda>c. c \<noteq> CHR '':'') (itoa n @ CHR '':'' # r) = itoa n" for n r
    using itoa_no_colon [of n] by (subst takeWhile_append2) auto
  then have "itoa (length x) = itoa (length y)" using arg_cong [OF eq, of "takeWhile (\<lambda>c. c \<noteq> CHR '':'')"]
    by simp
  then have "length x = length y" by (rule itoa_inj)
  then show ?case using eq ys Cons.IH by (auto simp: append_eq_append_conv)
qed

lemma hexDigit_inj:
  assumes "a < 16" "b < 16" "hexDigit a = hexDigit b"
  shows "a = b"
proof -
  have v: "of_char (hexDigit d) = (if d < 10 then 48 + d else 87 + d)" if "d < 16" for d :: nat
    using that by (simp add: hexDigit_def)
  have "(if a < 10 then 48 + a else 87 + a) = (if b < 10 then 48 + b else 87 + b)"
    using v [OF assms(1)] v [OF assms(2)] assms(3) by simp
  then show ?thesis by (simp split: if_splits)
qed

lemma hexEncode_inj: "hexEncode xs = hexEncode ys \<Longrightarrow> xs = ys"
proof (induction xs arbitrary: ys)
  case Nil
  then show ?case by (cases ys) auto
next
  case (Cons c cs)
  then obtain d ds where ys: "ys = d # ds" by (cases ys) auto
  have "(of_char c :: nat) < 16 * 16" "(of_char d :: nat) < 16 * 16" by simp_all
  then have q: "of_char c div (16 :: nat) < 16" "of_char d div (16 :: nat) < 16"
    by (simp_all add: less_mult_imp_div_less)
  have "of_char c div (16 :: nat) = of_char d div 16"
    using Cons.prems ys hexDigit_inj [OF q] by simp
  moreover have "of_char c mod (16 :: nat) = of_char d mod 16"
    using Cons.prems ys hexDigit_inj [of "of_char c mod 16" "of_char d mod 16"] by simp
  ultimately have "(of_char c :: nat) = of_char d" by (metis div_mult_mod_eq)
  then show ?case using Cons ys by simp
qed

lemma placementText_inj:
  assumes "placementText p = placementText q" "\<nexists>s. p = PlacementOther s" "\<nexists>s. q = PlacementOther s"
  shows "p = q"
  using assms by (cases p; cases q) (auto simp: placementText_def)

text \<open>
  The stable key identifies the advertisement.  With a collision-free hash two
  advertisements have the same stable key exactly when agent, runtime
  compatibility, placement and Host all agree, whatever bytes the identifiers
  contain; likewise for the ranking scope without the Host.
\<close>

theorem stableKey_identifies:
  assumes "inj sha256"
    and "p \<in> {PlacementPooled, PlacementDedicated}" "p' \<in> {PlacementPooled, PlacementDedicated}"
  shows "(stableKey sha256 a c p h = stableKey sha256 a' c' p' h' \<longleftrightarrow>
            a = a' \<and> c = c' \<and> p = p' \<and> h = h') \<and>
         (rankingScope sha256 a c p = rankingScope sha256 a' c' p' \<longleftrightarrow>
            a = a' \<and> c = c' \<and> p = p')"
proof -
  have "digest sha256 xs = digest sha256 ys \<longleftrightarrow> xs = ys" for xs ys
    using assms(1) by (auto simp: digest_def inj_def dest!: hexEncode_inj intro: lengthPrefixed_inj)
  moreover have "placementText p = placementText p' \<longleftrightarrow> p = p'"
    using assms(2,3) placementText_inj [of p p'] by auto
  ultimately show ?thesis by (auto simp: stableKey_def rankingScope_def)
qed

theorem stableKey_identifies_witness:
  "stableKey id ''ab'' ''c'' PlacementPooled ''h'' \<noteq> stableKey id ''a'' ''bc'' PlacementPooled ''h''"
  using stableKey_identifies [of id PlacementPooled PlacementPooled "''ab''" "''c''" "''h''" "''a''" "''bc''" "''h''"]
  by simp

end
