(* ===== verification/Heartbeat.thy ===== *)
theory Heartbeat
  imports Fence Capacity
begin

text \<open>
  The residency heartbeat, \<^verbatim>\<open>internal/residency/heartbeat.go\<close>: the one writer of a
  residency's durable location.  The world an operation acts on is the registry, the
  fence of the grant, the Host's drain flag and the log of the location writes handed
  to the store; the store's answer to a write is the parameter \<open>answer\<close>, which may
  depend on everything written before.  \<open>writeMu\<close> and \<open>releaseMu\<close> make each operation
  one step.

  The theory shows that a heartbeat writes nothing under a lost grant, that a lost
  residency is handed to one teardown owner, that between the two halves of a release
  every beat says \<open>releasing\<close>, and that \<open>FinishRelease\<close> removes exactly its own
  residency.
\<close>

section \<open>State\<close>

datatype SessionResidency = ResidencyAttaching | ResidencyResident | ResidencyReleasing

record Observation =
  obTenantID :: tenant_id
  obSessionID :: session_id
  obHostID :: host_id
  obHostGeneration :: u64
  obAgentID :: agent_id
  obCompatibilityID :: compat_id
  obPlacement :: HostPlacement
  obInternalEndpoint :: string
  obResidency :: SessionResidency
  obAccepting :: bool
  obLeaseEpoch :: u64
  obObservedAt :: instant
  obExpiresAt :: instant

datatype LocWrite =
    PublishResidency Observation
  | TombstoneResidency tenant_id session_id u64

type_synonym store_answer = "LocWrite list \<Rightarrow> LocWrite \<Rightarrow> Err option"

record World =
  wReg :: Registry
  wFence :: epochFence
  wDraining :: bool
  wLog :: "LocWrite list"

datatype ReleaseError = ReleaseError (reCause: Err) (reUnwritten: "string list")

record LostResidency =
  lrKey :: Key
  lrAgentID :: agent_id
  lrCompatibilityID :: compat_id
  lrLeaseEpoch :: u64
  lrGeneration :: u64
  lrRuntime :: handle
  lrReason :: LossReason

record Heartbeat =
  hbHost :: Host
  hbHostGeneration :: u64
  hbKey :: Key
  hbAgent :: agent_id
  hbCompat :: compat_id
  hbEpoch :: u64
  hbGeneration :: u64
  hbRuntime :: handle
  hbStopped :: bool
  hbBegun :: bool
  hbBeginErr :: "ReleaseError option"
  hbFinished :: bool
  hbFinishErr :: "ReleaseError option"
  hbBeats :: nat
  hbFailures :: nat

section \<open>Operations\<close>

text \<open>One call to the location store: it is logged and answered.\<close>

definition callStore :: "store_answer \<Rightarrow> LocWrite \<Rightarrow> LocWrite list \<Rightarrow> Err option \<times> LocWrite list" where
  "callStore answer lw log = (answer log lw, log @ [lw])"

text \<open>A location write through the world's fence.\<close>

definition fencedLoc :: "store_answer \<Rightarrow> LocWrite \<Rightarrow> World \<Rightarrow> Err option \<times> World" where
  "fencedLoc answer lw w =
     (case fenceWrite (callStore answer lw) (wFence w, wLog w) of
        (err, f, log) \<Rightarrow> (err, w\<lparr> wFence := f, wLog := log \<rparr>))"

definition residencyOf :: "ResidencyState \<Rightarrow> SessionResidency" where
  "residencyOf st = (case st of StateResident \<Rightarrow> ResidencyResident | _ \<Rightarrow> ResidencyReleasing)"

definition observation ::
  "Heartbeat \<Rightarrow> instant \<Rightarrow> Entry \<Rightarrow> SessionResidency \<Rightarrow> bool \<Rightarrow> Observation" where
  "observation h now entry residency accepting =
     \<lparr> obTenantID = TenantID (hbKey h), obSessionID = SessionID (hbKey h),
       obHostID = hID (hbHost h), obHostGeneration = hbHostGeneration h,
       obAgentID = eAgentID entry, obCompatibilityID = eCompatibilityID entry,
       obPlacement = hPlacement (hbHost h), obInternalEndpoint = hInternalEndpoint (hbHost h),
       obResidency = residency, obAccepting = accepting, obLeaseEpoch = hbEpoch h,
       obObservedAt = now, obExpiresAt = now + hRegistryExpiry (hbHost h) \<rparr>"

definition leaseHeld :: "World \<Rightarrow> Err option" where
  "leaseHeld w = held (wFence w)"

definition releasable :: "Heartbeat \<Rightarrow> World \<Rightarrow> Err option" where
  "releasable h w =
     (case Get (hbKey h) (wReg w) of
        None \<Rightarrow> Some ErrNothingToRelease
      | Some entry \<Rightarrow>
          if eGeneration entry \<noteq> hbGeneration h then Some ErrNothingToRelease
          else (case leaseHeld w of
                  Some e \<Rightarrow> Some e
                | None \<Rightarrow> if eTeardownOwned entry then Some ErrTeardownOwnedElsewhere else None))"

definition beginReleaseBody ::
  "store_answer \<Rightarrow> instant \<Rightarrow> Heartbeat \<Rightarrow> World \<Rightarrow> ReleaseError option \<times> World" where
  "beginReleaseBody answer now h w =
     (case releasable h w of
        Some e \<Rightarrow> (Some (ReleaseError e [''releasing observation'']), w)
      | None \<Rightarrow>
          (case MarkReleasing (hbKey h) (hbGeneration h) now (wReg w) of
             ((entry, ok), reg) \<Rightarrow>
               if \<not> ok
               then (Some (ReleaseError ErrNothingToRelease [''releasing observation'']), w\<lparr> wReg := reg \<rparr>)
               else (case fencedLoc answer
                            (PublishResidency (observation h now (the entry) ResidencyReleasing False))
                            (w\<lparr> wReg := reg \<rparr>) of
                       (None, w') \<Rightarrow> (None, w')
                     | (Some e, w') \<Rightarrow> (Some (ReleaseError e [''releasing observation'']), w'))))"

definition BeginRelease ::
  "store_answer \<Rightarrow> instant \<Rightarrow> Heartbeat \<times> World \<Rightarrow> ReleaseError option \<times> Heartbeat \<times> World" where
  "BeginRelease answer now hw =
     (case hw of (h, w) \<Rightarrow>
        if hbBegun h then (hbBeginErr h, h, w)
        else (case beginReleaseBody answer now h w of
                (err, w') \<Rightarrow> (err, h\<lparr> hbBegun := True, hbBeginErr := err \<rparr>, w')))"

definition AbortRelease ::
  "store_answer \<Rightarrow> instant \<Rightarrow> Heartbeat \<times> World \<Rightarrow> ReleaseError option \<times> Heartbeat \<times> World" where
  "AbortRelease answer now hw =
     (case hw of (h, w) \<Rightarrow>
        if hbFinished h then (Some (ReleaseError ErrNothingToRelease [''resident observation'']), h, w)
        else (case leaseHeld w of
                Some e \<Rightarrow> (Some (ReleaseError e [''resident observation'']), h, w)
              | None \<Rightarrow>
                  if wDraining w
                  then (Some (ReleaseError ErrNothingToRelease [''resident observation'']), h, w)
                  else (case ResumeResident (hbKey h) (hbGeneration h) now (wReg w) of
                          ((entry, ok), reg) \<Rightarrow>
                            if \<not> ok
                            then (Some (ReleaseError ErrNothingToRelease [''resident observation'']), h, w)
                            else
                              (let h' = h\<lparr> hbBegun := False, hbBeginErr := None \<rparr> in
                               case fencedLoc answer
                                      (PublishResidency (observation h now (the entry) ResidencyResident True))
                                      (w\<lparr> wReg := reg \<rparr>) of
                                 (None, w') \<Rightarrow> (None, h', w')
                               | (Some e, w') \<Rightarrow>
                                   (case endedBy (wFence w') of
                                      Some _ \<Rightarrow> (Some (ReleaseError e [''resident observation'']), h', w')
                                    | None \<Rightarrow> (None, h', w'))))))"

definition finishReleaseBody ::
  "store_answer \<Rightarrow> Heartbeat \<Rightarrow> World \<Rightarrow> ReleaseError option \<times> World" where
  "finishReleaseBody answer h w =
     (let remove = (\<lambda>v. v\<lparr> wReg := snd (RemoveByGeneration (hbKey h) (hbGeneration h) (wReg v)) \<rparr>) in
      case releasable h w of
        Some ErrNothingToRelease \<Rightarrow> (Some (ReleaseError ErrNothingToRelease [''residency tombstone'']), w)
      | Some ErrTeardownOwnedElsewhere \<Rightarrow>
          (Some (ReleaseError ErrTeardownOwnedElsewhere [''residency tombstone'']), w)
      | Some e \<Rightarrow> (Some (ReleaseError e [''residency tombstone'']), remove w)
      | None \<Rightarrow>
          (case fencedLoc answer
                  (TombstoneResidency (TenantID (hbKey h)) (SessionID (hbKey h)) (hbEpoch h)) w of
             (None, w') \<Rightarrow> (None, remove w')
           | (Some e, w') \<Rightarrow> (Some (ReleaseError e [''residency tombstone'']), remove w')))"

definition Stop :: "Heartbeat \<Rightarrow> Heartbeat" where
  "Stop h = h\<lparr> hbStopped := True \<rparr>"

definition FinishRelease ::
  "store_answer \<Rightarrow> Heartbeat \<times> World \<Rightarrow> ReleaseError option \<times> Heartbeat \<times> World" where
  "FinishRelease answer hw =
     (case hw of (h0, w) \<Rightarrow>
        let h = Stop h0 in
        if hbFinished h then (hbFinishErr h, h, w)
        else (case finishReleaseBody answer h w of
                (err, w') \<Rightarrow> (err, h\<lparr> hbFinished := True, hbFinishErr := err \<rparr>, w')))"

definition surrender ::
  "LossReason \<Rightarrow> instant \<Rightarrow> Heartbeat \<Rightarrow> World \<Rightarrow> LostResidency option \<times> World" where
  "surrender reason now h w =
     (case BeginTeardown (hbKey h) (hbGeneration h) now (wReg w) of
        ((entry, won), reg) \<Rightarrow>
          let w' = w\<lparr> wReg := reg, wFence := fenceEnd reason (wFence w) \<rparr> in
          if \<not> won then (None, w')
          else (Some \<lparr> lrKey = hbKey h, lrAgentID = hbAgent h, lrCompatibilityID = hbCompat h,
                       lrLeaseEpoch = hbEpoch h, lrGeneration = eGeneration (the entry),
                       lrRuntime = hbRuntime h, lrReason = reason \<rparr>, w'))"

text \<open>The verdict of a beat: keep beating, or leave with a residency to hand over.\<close>

definition beat ::
  "store_answer \<Rightarrow> instant \<Rightarrow> Heartbeat \<times> World \<Rightarrow>
   (bool \<times> LostResidency option) \<times> Heartbeat \<times> World" where
  "beat answer now hw =
     (case hw of (h, w) \<Rightarrow>
        (case Get (hbKey h) (wReg w) of
           None \<Rightarrow> ((False, None), h, w)
         | Some entry \<Rightarrow>
             if eGeneration entry \<noteq> hbGeneration h then ((False, None), h, w)
             else (case endedBy (wFence w) of
                     Some reason \<Rightarrow>
                       (case surrender reason now h w of (lost, w') \<Rightarrow> ((False, lost), h, w'))
                   | None \<Rightarrow>
                       if leaseHeld w \<noteq> None
                       then (case surrender LossLeaseLost now h w of (lost, w') \<Rightarrow> ((False, lost), h, w'))
                       else
                         (case fencedLoc answer
                                 (PublishResidency (observation h now entry (residencyOf (eState entry))
                                                      (eAccepting entry \<and> \<not> wDraining w))) w of
                            (None, w') \<Rightarrow> ((True, None), h\<lparr> hbBeats := hbBeats h + 1, hbFailures := 0 \<rparr>, w')
                          | (Some e, w') \<Rightarrow>
                              (case endedBy (wFence w') of
                                 Some reason \<Rightarrow>
                                   (case surrender reason now h w' of (lost, w'') \<Rightarrow> ((False, lost), h, w''))
                               | None \<Rightarrow> ((True, None), h\<lparr> hbFailures := hbFailures h + 1 \<rparr>, w'))))))"

text \<open>
  One turn of the loop.  The outer select takes any ready case; a due timer is acted
  on only when, re-checked, no reason to leave is ready, and the re-check leaves with
  the same effect as the outer case would.
\<close>

datatype LoopExit = LoopContinue | LoopLeave "LostResidency option"

inductive loopTurn ::
  "store_answer \<Rightarrow> bool \<Rightarrow> instant \<Rightarrow> Heartbeat \<times> World \<Rightarrow> LoopExit \<Rightarrow> Heartbeat \<times> World \<Rightarrow> bool"
  for answer ctxDone now where
  ctx: "ctxDone \<Longrightarrow> loopTurn answer ctxDone now hw (LoopLeave None) hw"
| stopped: "hbStopped h \<Longrightarrow> loopTurn answer ctxDone now (h, w) (LoopLeave None) (h, w)"
| lost: "lostReady (wFence w) \<Longrightarrow> surrender LossLeaseLost now h w = (lr, w') \<Longrightarrow>
     loopTurn answer ctxDone now (h, w) (LoopLeave lr) (h, w')"
| timer_keep: "\<not> ctxDone \<Longrightarrow> \<not> hbStopped h \<Longrightarrow> \<not> lostReady (wFence w) \<Longrightarrow>
     beat answer now (h, w) = ((True, lr), hw') \<Longrightarrow>
     loopTurn answer ctxDone now (h, w) LoopContinue hw'"
| timer_leave: "\<not> ctxDone \<Longrightarrow> \<not> hbStopped h \<Longrightarrow> \<not> lostReady (wFence w) \<Longrightarrow>
     beat answer now (h, w) = ((False, lr), hw') \<Longrightarrow>
     loopTurn answer ctxDone now (h, w) (LoopLeave lr) hw'"

inductive_cases loopTurnE: "loopTurn answer ctxDone now hw out hw'"

lemmas heartbeat_ops [hb_defs] =
  BeginRelease_def beginReleaseBody_def AbortRelease_def FinishRelease_def finishReleaseBody_def
  Stop_def beat_def surrender_def releasable_def leaseHeld_def Let_def

section \<open>Sequences of steps\<close>

text \<open>
  What can happen to a residency: the heartbeat's own operations, any other caller's
  registry operation, the lease being lost, and the Host starting to drain.
\<close>

datatype HbStep =
    SBegin | SAbort | SFinish | SBeat | SReg RegOp | SLeaseLost | SDrain

fun hbStep :: "store_answer \<Rightarrow> HbStep \<Rightarrow> instant \<Rightarrow> Heartbeat \<times> World \<Rightarrow> Heartbeat \<times> World" where
  "hbStep answer SBegin now hw = snd (BeginRelease answer now hw)"
| "hbStep answer SAbort now hw = snd (AbortRelease answer now hw)"
| "hbStep answer SFinish now hw = snd (FinishRelease answer hw)"
| "hbStep answer SBeat now hw = snd (beat answer now hw)"
| "hbStep answer (SReg op) now hw = (fst hw, (snd hw)\<lparr> wReg := snd (regExec op now (wReg (snd hw))) \<rparr>)"
| "hbStep answer SLeaseLost now hw =
     (fst hw, (snd hw)\<lparr> wFence := (wFence (snd hw))\<lparr> fLease := map_option (\<lambda>_. True) (fLease (wFence (snd hw))) \<rparr> \<rparr>)"
| "hbStep answer SDrain now hw = (fst hw, (snd hw)\<lparr> wDraining := True \<rparr>)"

fun hbRun :: "store_answer \<Rightarrow> (HbStep \<times> instant) list \<Rightarrow> Heartbeat \<times> World \<Rightarrow> Heartbeat \<times> World" where
  "hbRun answer [] hw = hw"
| "hbRun answer ((st, now) # sts) hw = hbRun answer sts (hbStep answer st now hw)"

section \<open>Lemmas\<close>

lemma fencedLoc_refused:
  "held (wFence w) \<noteq> None \<Longrightarrow> fencedLoc answer lw w = (Some ErrLeaseNotHeld, w)"
  by (simp add: fencedLoc_def fenceWrite_refused)

lemma fencedLoc_frame:
  "wReg (snd (fencedLoc answer lw w)) = wReg w" "wDraining (snd (fencedLoc answer lw w)) = wDraining w"
  "fLease (wFence (snd (fencedLoc answer lw w))) = fLease (wFence w)"
  using fenceWrite_lease [of "callStore answer lw" "wFence w" "wLog w"]
  by (auto simp: fencedLoc_def split: prod.splits)

lemma fencedLoc_log:
  "wLog (snd (fencedLoc answer lw w)) = (if held (wFence w) = None then wLog w @ [lw] else wLog w)"
  using fence.runs [of "wFence w" "callStore answer lw" "wLog w"]
    fenceWrite_refused [of "wFence w" "callStore answer lw" "wLog w"]
  by (auto simp: fencedLoc_def callStore_def split: prod.splits)

lemma fencedLoc_result:
  "held (wFence w) = None \<Longrightarrow> fst (fencedLoc answer lw w) = answer (wLog w) lw"
  using fence.runs [of "wFence w" "callStore answer lw" "wLog w"]
  by (auto simp: fencedLoc_def callStore_def split: prod.splits)

lemma surrender_frame:
  "wLog (snd (surrender reason now h w)) = wLog w" "wDraining (snd (surrender reason now h w)) = wDraining w"
  "held (wFence (snd (surrender reason now h w))) = Some ErrLeaseNotHeld"
  "wReg (snd (surrender reason now h w)) = snd (BeginTeardown (hbKey h) (hbGeneration h) now (wReg w))"
  by (auto simp: surrender_def Let_def held_fenceEnd split: prod.splits)

lemma held_endedBy: "endedBy f = Some r \<Longrightarrow> held f = Some ErrLeaseNotHeld"
  by (auto simp: endedBy_def held_def split: if_splits)

text \<open>The lost grant: each operation keeps the log and the loss.\<close>

definition gone :: "World \<Rightarrow> bool" where
  "gone w = (held (wFence w) \<noteq> None)"

lemma goneD: "gone w \<Longrightarrow> held (wFence w) = Some ErrLeaseNotHeld"
  using held_cases [of "wFence w"] by (auto simp: gone_def)

lemma gone_BeginRelease:
  assumes "gone w"
  shows "wLog (snd (snd (BeginRelease answer now (h, w)))) = wLog w \<and>
    gone (snd (snd (BeginRelease answer now (h, w))))"
  using assms
  by (auto simp: BeginRelease_def beginReleaseBody_def releasable_def leaseHeld_def goneD
      split: option.splits)

lemma gone_AbortRelease:
  assumes "gone w"
  shows "AbortRelease answer now (h, w) =
    (Some (ReleaseError (if hbFinished h then ErrNothingToRelease else ErrLeaseNotHeld)
        [''resident observation'']), h, w)"
  using goneD [OF assms] by (simp add: AbortRelease_def leaseHeld_def)

lemma gone_FinishRelease:
  assumes "gone w"
  shows "wLog (snd (snd (FinishRelease answer (h, w)))) = wLog w \<and>
    gone (snd (snd (FinishRelease answer (h, w))))"
  using assms goneD [OF assms]
  by (auto simp: FinishRelease_def finishReleaseBody_def releasable_def leaseHeld_def Let_def
      gone_def split: option.splits)

lemma gone_beat:
  assumes "gone w"
  shows "wLog (snd (snd (beat answer now (h, w)))) = wLog w \<and> gone (snd (snd (beat answer now (h, w))))"
proof -
  have s: "wLog (snd (surrender r now h w)) = wLog w" "gone (snd (surrender r now h w))" for r
    by (simp_all add: surrender_frame gone_def)
  then show ?thesis
    using assms goneD [OF assms]
    by (auto simp: beat_def leaseHeld_def split: option.splits prod.splits)
      (metis s snd_conv)+
qed

lemma gone_hbStep:
  assumes "gone (snd hw)"
  shows "wLog (snd (hbStep answer st now hw)) = wLog (snd hw) \<and> gone (snd (hbStep answer st now hw))"
proof -
  obtain h w where hw: "hw = (h, w)" by (cases hw)
  with assms have g: "gone w" by simp
  show ?thesis
  proof (cases st)
    case SLeaseLost
    have "gone (w\<lparr> wFence := (wFence w)\<lparr> fLease := map_option (\<lambda>_. True) (fLease (wFence w)) \<rparr> \<rparr>)"
      using g by (auto simp: gone_def held_def lostReady_def split: option.splits if_splits)
    then show ?thesis using SLeaseLost hw by simp
  qed (use g hw gone_BeginRelease [OF g] gone_AbortRelease [OF g] gone_FinishRelease [OF g]
      gone_beat [OF g] in \<open>simp_all add: gone_def\<close>)
qed

lemma gone_hbRun:
  "gone (snd hw) \<Longrightarrow> wLog (snd (hbRun answer sts hw)) = wLog (snd hw) \<and> gone (snd (hbRun answer sts hw))"
proof (induction sts arbitrary: hw)
  case (Cons x xs)
  then show ?case using gone_hbStep by (cases x) (metis hbRun.simps(2))
qed simp

text \<open>A residency that is on its way out locally: not resident, not accepting.\<close>

definition quiet :: "Key \<Rightarrow> u64 \<Rightarrow> Registry \<Rightarrow> bool" where
  "quiet k g r = (\<forall>e. current k g r = Some e \<longrightarrow> eState e \<noteq> StateResident \<and> \<not> eAccepting e)"

lemma current_upd:
  "current k g (r\<lparr> entries := (entries r)(k' \<mapsto> e) \<rparr>) =
     (if k = k' then (if eGeneration e = g then Some e else None) else current k g r)"
  "current k g (r\<lparr> entries := (entries r)(k' \<mapsto> e), nextGeneration := n \<rparr>) =
     (if k = k' then (if eGeneration e = g then Some e else None) else current k g r)"
  "current k g (r\<lparr> entries := map_del k' (entries r) \<rparr>) = (if k = k' then None else current k g r)"
  by (auto simp: current_def split: option.splits)

lemma quiet_fenced_ops:
  assumes "quiet k g r"
  shows "quiet k g (snd (StopAdmitting k' g' now r))" "quiet k g (snd (MarkReleasing k' g' now r))"
    "quiet k g (snd (BeginTeardown k' g' now r))" "quiet k g (snd (Touch k' g' now r))"
    "quiet k g (snd (RemoveByGeneration k' g' r))"
    "(k', g') \<noteq> (k, g) \<Longrightarrow> quiet k g (snd (ResumeResident k' g' now r))"
  using assms
  by (auto simp: quiet_def StopAdmitting_def MarkReleasing_def BeginTeardown_def Touch_def
      RemoveByGeneration_def ResumeResident_def Let_def store_def current_upd
      split: option.splits if_splits dest: currentD)

lemma quiet_regExec:
  assumes "room (Suc n) r" "unat g \<le> unat (nextGeneration r)" "quiet k g r" "op \<noteq> OResumeResident k g"
  shows "quiet k g (snd (regExec op now r))"
proof (cases op)
  case (OInsert k' a)
  have "g \<noteq> nextGeneration r + 1"
    using assms(2) unat_inc_no_wrap [OF roomD(2) [OF assms(1)]] by auto
  then show ?thesis
    using assms(3) OInsert
    by (auto simp: quiet_def Insert_def Let_def newEntry_def current_upd split: option.splits)
next
  case (ORemoveStale before)
  then show ?thesis
    using assms(3)
    by (auto simp: quiet_def RemoveStale_spec [OF roomD(3) [OF assms(1)]] current_def
        split: option.splits if_splits)
qed (use assms(3,4) quiet_fenced_ops [OF assms(3)] in auto)

text \<open>What a release in progress may still publish.\<close>

definition saysReleasing :: "LocWrite \<Rightarrow> bool" where
  "saysReleasing lw =
     (case lw of
        PublishResidency ob \<Rightarrow> obResidency ob = ResidencyReleasing \<and> \<not> obAccepting ob
      | TombstoneResidency t s e \<Rightarrow> True)"

text \<open>
  The state between the halves: the row is quiet, the release has begun, the log
  beyond \<open>n\<close> says releasing only, and the generation counter has room.
\<close>

definition midRelease :: "nat \<Rightarrow> nat \<Rightarrow> Key \<Rightarrow> u64 \<Rightarrow> Heartbeat \<times> World \<Rightarrow> bool" where
  "midRelease n m k g hw =
     (hbKey (fst hw) = k \<and> hbGeneration (fst hw) = g \<and> hbBegun (fst hw) \<and>
      room m (wReg (snd hw)) \<and> unat g \<le> unat (nextGeneration (wReg (snd hw))) \<and>
      quiet k g (wReg (snd hw)) \<and> n \<le> length (wLog (snd hw)) \<and>
      (\<forall>lw\<in>set (drop n (wLog (snd hw))). saysReleasing lw))"

lemma room_weaken: "room (Suc n) r \<Longrightarrow> room n r"
  by (simp add: room_def)

lemma room_fenced:
  assumes "room n r" 
  shows "room n (snd (MarkReleasing k g now r))" "room n (snd (BeginTeardown k g now r))"
    "room n (snd (RemoveByGeneration k g r))"
  using assms reg_inv_fenced_ops [of r] mark.act_next [simplified] teardown.act_next [simplified]
    remove.act_next
  by (simp_all add: room_def)

lemma fencedLoc_mid:
  assumes "midRelease n m k g (h, w)" "saysReleasing lw"
  shows "midRelease n m k g (h, snd (fencedLoc answer lw w))"
  using assms by (simp add: midRelease_def fencedLoc_frame fencedLoc_log)

lemma surrender_mid:
  assumes "midRelease n m k g (h, w)"
  shows "midRelease n m k g (h, snd (surrender reason now h w))"
  using assms
  by (simp add: midRelease_def surrender_frame room_fenced quiet_fenced_ops
      teardown.act_next [simplified])

lemma mid_weaken: "midRelease n (Suc m) k g hw \<Longrightarrow> midRelease n m k g hw"
  by (auto simp: midRelease_def room_weaken)

lemma mid_heartbeat:
  assumes "midRelease n m k g (h, w)" "hbKey h' = hbKey h" "hbGeneration h' = hbGeneration h" "hbBegun h'"
  shows "midRelease n m k g (h', w)"
  using assms by (simp add: midRelease_def)

lemma mid_remove:
  assumes "midRelease n m k g (h, w)"
  shows "midRelease n m k g (h, w\<lparr> wReg := snd (RemoveByGeneration (hbKey h) (hbGeneration h) (wReg w)) \<rparr>)"
  using assms by (simp add: midRelease_def room_fenced quiet_fenced_ops remove.act_next)

lemma mid_entry:
  assumes "midRelease n m k g (h, w)" "Get (hbKey h) (wReg w) = Some e" "eGeneration e = hbGeneration h"
  shows "saysReleasing (PublishResidency (observation h now e (residencyOf (eState e)) (eAccepting e \<and> x)))"
proof -
  have "current k g (wReg w) = Some e"
    using assms by (simp add: midRelease_def Get_def current_def)
  then show ?thesis
    using assms(1)
    by (auto simp: midRelease_def quiet_def saysReleasing_def observation_def residencyOf_def
        split: ResidencyState.splits)
qed

lemma mid_finishBody:
  assumes "midRelease n m k g (h, w)"
  shows "midRelease n m k g (h, snd (finishReleaseBody answer h w))"
proof -
  let ?lw = "TombstoneResidency (TenantID (hbKey h)) (SessionID (hbKey h)) (hbEpoch h)"
  have "midRelease n m k g (h, snd (fencedLoc answer ?lw w))"
    by (rule fencedLoc_mid [OF assms]) (simp add: saysReleasing_def)
  then show ?thesis
    using mid_remove [OF assms] mid_remove assms
    by (auto simp: finishReleaseBody_def Let_def split: option.splits Err.splits prod.splits)
qed

lemma mid_beat:
  assumes "midRelease n m k g (h, w)"
  shows "midRelease n m k g (snd (beat answer now (h, w)))"
proof (cases "Get (hbKey h) (wReg w)")
  case None
  then show ?thesis using assms by (simp add: beat_def)
next
  case (Some e)
  let ?lw = "PublishResidency (observation h now e (residencyOf (eState e)) (eAccepting e \<and> \<not> wDraining w))"
  show ?thesis
  proof (cases "eGeneration e = hbGeneration h")
    case True
    have p: "midRelease n m k g (h, snd (fencedLoc answer ?lw w))"
      by (rule fencedLoc_mid [OF assms mid_entry [OF assms Some True]])
    have s: "midRelease n m k g (h, snd (surrender r now h w))"
      "midRelease n m k g (h, snd (surrender r now h (snd (fencedLoc answer ?lw w))))" for r
      by (rule surrender_mid [OF assms], rule surrender_mid [OF p])
    have b: "hbBegun h" using assms by (simp add: midRelease_def)
    obtain err w' where lw: "fencedLoc answer ?lw w = (err, w')" by (cases "fencedLoc answer ?lw w")
    have p': "midRelease n m k g (h', w')"
      if "hbKey h' = hbKey h" "hbGeneration h' = hbGeneration h" "hbBegun h'" for h'
      by (rule mid_heartbeat [OF _ that]) (use p lw in simp)
    have s': "midRelease n m k g (h, w'')" if "surrender r now h w' = (x, w'')" for r x w''
      using s(2) [of r] that lw by simp
    have s0: "midRelease n m k g (h, w'')" if "surrender r now h w = (x, w'')" for r x w''
      using s(1) [of r] that by simp
    show ?thesis
      using Some True b lw
      by (auto simp: beat_def intro: p' s' s0 split: option.splits prod.splits)
  next
    case False
    then show ?thesis using assms Some by (simp add: beat_def)
  qed
qed

lemma mid_hbStep:
  assumes "midRelease n (Suc m) k g hw" "st \<noteq> SAbort" "st \<noteq> SReg (OResumeResident k g)"
  shows "midRelease n m k g (hbStep answer st now hw)"
proof -
  obtain h w where hw: "hw = (h, w)" by (cases hw)
  note mid = mid_weaken [OF assms(1), unfolded hw]
  show ?thesis
  proof (cases st)
    case SBegin
    then show ?thesis using mid hw by (simp add: BeginRelease_def midRelease_def)
  next
    case SFinish
    have h: "midRelease n m k g (Stop h, w)"
      by (rule mid_heartbeat [OF mid]) (use mid in \<open>simp_all add: Stop_def midRelease_def\<close>)
    obtain e w' where fb: "finishReleaseBody answer (Stop h) w = (e, w')"
      by (cases "finishReleaseBody answer (Stop h) w")
    have "midRelease n m k g (Stop h, w')" using mid_finishBody [OF h, of answer] fb by simp
    then show ?thesis
      using h hw SFinish fb
      by (auto simp: FinishRelease_def Let_def intro: mid_heartbeat)
        (simp add: midRelease_def)
  next
    case SBeat
    then show ?thesis using mid_beat [OF mid] hw by simp
  next
    case (SReg op)
    have r: "room (Suc m) (wReg w)" "unat g \<le> unat (nextGeneration (wReg w))" "quiet k g (wReg w)"
      using assms(1) hw by (simp_all add: midRelease_def)
    from SReg assms(3) have "op \<noteq> OResumeResident k g" by auto
    from quiet_regExec [OF r this] room_exec [OF r(1)] counter_exec [OF r(1,2)]
    show ?thesis using mid hw SReg by (simp add: midRelease_def)
  qed (use assms mid hw in \<open>simp_all add: midRelease_def\<close>)
qed

lemma mid_hbRun:
  assumes "midRelease n (length sts) k g hw"
    "\<forall>(st, t)\<in>set sts. st \<noteq> SAbort \<and> st \<noteq> SReg (OResumeResident k g)"
  shows "midRelease n 0 k g (hbRun answer sts hw)"
  using assms
proof (induction sts arbitrary: hw)
  case (Cons x xs)
  obtain st now where x: "x = (st, now)" by (cases x)
  have "midRelease n (length xs) k g (hbStep answer st now hw)"
    by (rule mid_hbStep) (use Cons.prems x in auto)
  then show ?case using Cons x by simp
qed simp

section \<open>Properties\<close>

text \<open>
  C25: a lost grant writes nothing.  Once the lease is lost or a fenced write was
  refused by a later owner, no sequence of heartbeat operations (beats, both halves of
  a release, aborts), interleaved with any registry operations, lease loss and drain,
  hands the store another location write, and the grant is never held again.
\<close>

theorem lost_grant_writes_nothing:
  assumes "held (wFence w) \<noteq> None"
  shows "wLog (snd (hbRun answer sts (h, w))) = wLog w \<and>
    held (wFence (snd (hbRun answer sts (h, w)))) \<noteq> None"
  using gone_hbRun [of "(h, w)" answer sts] assms by (simp add: gone_def)

definition example_heartbeat :: Heartbeat where
  "example_heartbeat = \<lparr> hbHost = example_host, hbHostGeneration = 1, hbKey = Key ''t'' ''a'',
     hbAgent = ''x'', hbCompat = ''c'', hbEpoch = 7, hbGeneration = 1, hbRuntime = 2,
     hbStopped = False, hbBegun = False, hbBeginErr = None, hbFinished = False, hbFinishErr = None,
     hbBeats = 0, hbFailures = 0 \<rparr>"

definition example_world :: World where
  "example_world = \<lparr> wReg = example_registry, wFence = newEpochFence (Some False),
     wDraining = False, wLog = [] \<rparr>"

theorem lost_grant_writes_nothing_witness:
  "wLog (snd (hbRun (\<lambda>_ _. None) [(SBeat, 1), (SBegin, 2), (SFinish, 3)]
     (example_heartbeat, example_world\<lparr> wFence := newEpochFence (Some True) \<rparr>))) = []"
  using lost_grant_writes_nothing [of "example_world\<lparr> wFence := newEpochFence (Some True) \<rparr>"]
  by (simp add: example_world_def newEpochFence_def held_def lostReady_def del: hbRun.simps)

text \<open>
  Between the halves every beat says releasing.  After \<open>BeginRelease\<close> succeeded,
  whatever follows short of an abort of this release (or another caller resuming
  exactly this residency) publishes, from the begin on, only observations that say
  \<open>releasing\<close> and not accepting, or the tombstone; the session being inserted again by
  a successor does not change that.
\<close>

theorem release_says_releasing:
  assumes "BeginRelease answer now (h, w) = (None, h1, w1)" "\<not> hbBegun h"
    and "room (length sts) (wReg w)"
    and "\<forall>(st, t)\<in>set sts. st \<noteq> SAbort \<and> st \<noteq> SReg (OResumeResident (hbKey h) (hbGeneration h))"
  shows "\<forall>lw\<in>set (drop (length (wLog w)) (wLog (snd (hbRun answer sts (h1, w1))))). saysReleasing lw"
proof -
  let ?k = "hbKey h" and ?g = "hbGeneration h"
  obtain e where e: "current ?k ?g (wReg w) = Some e"
    and w1: "w1 = snd (fencedLoc answer (PublishResidency (observation h now
        (e\<lparr> eState := StateReleasing, eAccepting := False, eLastActivity := now \<rparr>) ResidencyReleasing False))
        (w\<lparr> wReg := snd (MarkReleasing ?k ?g now (wReg w)) \<rparr>))"
    and h1: "h1 = h\<lparr> hbBegun := True, hbBeginErr := None \<rparr>"
    using assms(1,2)
    by (auto simp: BeginRelease_def beginReleaseBody_def MarkReleasing_def Let_def
        split: option.splits prod.splits if_splits)
  let ?w = "w\<lparr> wReg := snd (MarkReleasing ?k ?g now (wReg w)) \<rparr>"
  have "reg_inv (wReg w)" using assms(3) by (simp add: room_def)
  then have "unat ?g \<le> unat (nextGeneration (wReg w))" by (rule current_le [OF _ e])
  moreover have "quiet ?k ?g (wReg ?w)"
    using e by (simp add: quiet_def MarkReleasing_def Let_def store_def current_upd)
  ultimately have "midRelease (length (wLog w)) (length sts) ?k ?g (h1, ?w)"
    using assms(3) h1 by (simp add: midRelease_def room_fenced mark.act_next [simplified])
  then have "midRelease (length (wLog w)) (length sts) ?k ?g (h1, w1)"
    unfolding w1 by (rule fencedLoc_mid) (simp add: saysReleasing_def observation_def)
  from mid_hbRun [OF this assms(4)] show ?thesis by (simp add: midRelease_def)
qed

lemma example_room: "room n example_registry \<longleftrightarrow> 2 + n < 2 ^ 64"
proof -
  have "reg_inv example_registry"
    unfolding example_registry_def by (rule run_inv [OF room_New]) simp
  moreover have "nextGeneration example_registry = 2"
    by (simp add: example_registry_def New_def reg_defs newEntry_def)
  ultimately show ?thesis by (simp add: room_def)
qed

lemma example_entry:
  "entries example_registry (Key ''t'' ''a'') = Some \<lparr> eKey = Key ''t'' ''a'', eAgentID = ''x'', eTarget = 1,
     eCompatibilityID = ''c'', eRuntime = 2, eLeaseEpoch = 7, eGeneration = 1, eState = StateResident,
     eAccepting = True, eLastActivity = 1, eTeardownOwned = False \<rparr>"
  by (simp add: example_registry_def New_def reg_defs newEntry_def)

theorem release_says_releasing_witness:
  "\<exists>h1 w1. BeginRelease (\<lambda>_ _. None) 5 (example_heartbeat, example_world) = (None, h1, w1) \<and>
     (\<forall>lw\<in>set (wLog (snd (hbRun (\<lambda>_ _. None) [(SBeat, 6)] (h1, w1)))). saysReleasing lw)"
proof -
  obtain h1 w1 where b: "BeginRelease (\<lambda>_ _. None) 5 (example_heartbeat, example_world) = (None, h1, w1)"
    by (simp add: BeginRelease_def beginReleaseBody_def releasable_def leaseHeld_def Get_def
        example_heartbeat_def example_world_def newEpochFence_def held_def lostReady_def
        MarkReleasing_def current_def Let_def store_def fencedLoc_def fenceWrite_def callStore_def
        example_entry)
  have "\<not> hbBegun example_heartbeat" by (simp add: example_heartbeat_def)
  moreover have "room (length [(SBeat, 6 :: int)]) (wReg example_world)"
    by (simp add: example_world_def example_room)
  ultimately show ?thesis
    using release_says_releasing [OF b, of "[(SBeat, 6)]"] b by (simp add: example_world_def)
qed

text \<open>
  What the second half of a release does.  The first \<open>FinishRelease\<close> of a
  residency leaves everything as it was when the residency is no longer this
  heartbeat's or when, with the lease held, another caller owns its teardown; in every
  other case the row is gone afterwards and no other session's row is touched.  It
  reports success exactly when the row was its own, the lease held and unclaimed, and
  the store accepted the tombstone, which is then the one write made.  Every later
  call repeats the first verdict and changes nothing.
\<close>

theorem FinishRelease_contract:
  assumes "\<not> hbFinished h" "FinishRelease answer (h, w) = (err, h', w')"
  defines "k \<equiv> hbKey h" and "g \<equiv> hbGeneration h"
    and "tomb \<equiv> TombstoneResidency (TenantID (hbKey h)) (SessionID (hbKey h)) (hbEpoch h)"
  shows "(case current k g (wReg w) of
      None \<Rightarrow> err = Some (ReleaseError ErrNothingToRelease [''residency tombstone'']) \<and> w' = w
    | Some e \<Rightarrow>
        if held (wFence w) \<noteq> None
        then err = Some (ReleaseError ErrLeaseNotHeld [''residency tombstone'']) \<and>
             wLog w' = wLog w \<and> entries (wReg w') = map_del k (entries (wReg w))
        else if eTeardownOwned e
        then err = Some (ReleaseError ErrTeardownOwnedElsewhere [''residency tombstone'']) \<and> w' = w
        else err = map_option (\<lambda>x. ReleaseError x [''residency tombstone'']) (answer (wLog w) tomb) \<and>
             wLog w' = wLog w @ [tomb] \<and> entries (wReg w') = map_del k (entries (wReg w))) \<and>
    FinishRelease answer (h', v) = (err, h', v)"
proof -
  obtain b where fb: "finishReleaseBody answer (Stop h) w = (err, w')"
    and h': "h' = (Stop h)\<lparr> hbFinished := True, hbFinishErr := err \<rparr>"
    using assms(1,2) by (auto simp: FinishRelease_def Stop_def Let_def split: prod.splits)
  have again: "FinishRelease answer (h', v) = (err, h', v)"
    by (simp add: FinishRelease_def h' Stop_def Let_def)
  have s: "hbKey (Stop h) = k" "hbGeneration (Stop h) = g" "hbEpoch (Stop h) = hbEpoch h"
    by (simp_all add: Stop_def k_def g_def)
  have tk: "TombstoneResidency (TenantID k) (SessionID k) (hbEpoch h) = tomb"
    by (simp add: tomb_def k_def)
  have rem: "entries (snd (RemoveByGeneration k g r)) = map_del k (entries r)"
    if "current k g r = Some e" for r e
    using that by (simp add: RemoveByGeneration_def)
  show ?thesis
  proof (cases "current k g (wReg w)")
    case None
    then have "releasable (Stop h) w = Some ErrNothingToRelease"
      by (auto simp: releasable_def s Get_def current_def split: option.splits if_splits)
    then show ?thesis using fb again None by (simp add: finishReleaseBody_def Let_def)
  next
    case (Some e)
    then have row: "Get k (wReg w) = Some e" "eGeneration e = g"
      by (auto simp: Get_def dest: currentD)
    show ?thesis
    proof (cases "held (wFence w)")
      case None
      have r: "releasable (Stop h) w = (if eTeardownOwned e then Some ErrTeardownOwnedElsewhere else None)"
        by (simp add: releasable_def s row leaseHeld_def None)
      obtain x w2 where lw: "fencedLoc answer tomb w = (x, w2)" by (cases "fencedLoc answer tomb w")
      have "x = answer (wLog w) tomb" "wLog w2 = wLog w @ [tomb]" "wReg w2 = wReg w"
        using fencedLoc_result [OF None, of answer tomb] fencedLoc_log [of answer tomb w]
          fencedLoc_frame(1) [of answer tomb w] None lw by simp_all
      then show ?thesis
        using fb again Some None r rem [of "wReg w2" e] lw
        by (auto simp: finishReleaseBody_def Let_def s tk split: option.splits if_splits)
    next
      case (Some x)
      then have "releasable (Stop h) w = Some ErrLeaseNotHeld"
        using held_cases [of "wFence w"] by (simp add: releasable_def s row leaseHeld_def)
      then show ?thesis
        using fb again Some \<open>current k g (wReg w) = Some e\<close> rem [OF \<open>current k g (wReg w) = Some e\<close>]
        by (auto simp: finishReleaseBody_def Let_def s)
    qed
  qed
qed

theorem FinishRelease_contract_witness:
  "\<exists>h' w'. FinishRelease (\<lambda>_ _. None) (example_heartbeat, example_world) = (None, h', w') \<and>
     entries (wReg w') (Key ''t'' ''a'') = None"
proof -
  obtain err h' w' where f: "FinishRelease (\<lambda>_ _. None) (example_heartbeat, example_world) = (err, h', w')"
    by (cases "FinishRelease (\<lambda>_ _. None) (example_heartbeat, example_world)") auto
  have n: "\<not> hbFinished example_heartbeat" by (simp add: example_heartbeat_def)
  from FinishRelease_contract [OF n f, of example_world]
  have "err = None" "entries (wReg w') (Key ''t'' ''a'') = None"
    by (simp_all add: example_heartbeat_def example_world_def current_def example_entry
        newEpochFence_def held_def lostReady_def)
  with f show ?thesis by simp
qed

text \<open>
  A lost residency is handed over once.  When a heartbeat surrenders and is told
  to hand its residency over, admission is closed and the teardown claimed; after any
  further registry operations no surrender of the same residency, by this or any other
  handle, hands it over again.
\<close>

theorem lost_residency_handed_over_once:
  assumes "surrender r1 t1 h1 w = (Some lr, w1)" "room (Suc (length ops)) (wReg w)"
    and "wReg w2 = snd (regRun ops (wReg w1))"
    and "hbKey h2 = hbKey h1" "hbGeneration h2 = hbGeneration h1"
  shows "fst (surrender r2 t2 h2 w2) = None \<and> lrKey lr = hbKey h1 \<and> lrGeneration lr = hbGeneration h1 \<and>
    held (wFence w1) \<noteq> None \<and>
    (\<forall>e. current (hbKey h1) (hbGeneration h1) (wReg w1) = Some e \<longrightarrow>
       eTeardownOwned e \<and> eState e = StateDraining \<and> \<not> eAccepting e)"
proof -
  let ?k = "hbKey h1" and ?g = "hbGeneration h1"
  have win: "fst (regExec (OBeginTeardown ?k ?g) t1 (wReg w))"
    and w1: "wReg w1 = snd (regExec (OBeginTeardown ?k ?g) t1 (wReg w))"
    using assms(1) by (auto simp: surrender_def Let_def split: prod.splits if_splits)
  have "claimed ?k ?g (wReg w1)" unfolding w1 by (rule win_claims [OF assms(2) win])
  then have "claimed ?k ?g (wReg w2)"
    unfolding assms(3) by (rule claimed_regRun [rotated]) (simp only: w1 room_exec [OF assms(2)])
  then have "\<not> snd (fst (BeginTeardown ?k ?g t2 (wReg w2)))" using claimed_no_win by fastforce
  then have "fst (surrender r2 t2 h2 w2) = None"
    using assms(4,5) by (auto simp: surrender_def Let_def split: prod.splits)
  moreover have "held (wFence w1) \<noteq> None"
    using surrender_frame(3) [of r1 t1 h1 w] assms(1) by simp
  moreover obtain e where e: "current ?k ?g (wReg w) = Some e" "\<not> eTeardownOwned e"
    using win by (auto simp: BeginTeardown_def split: option.splits if_splits)
  ultimately show ?thesis
    using assms(1) currentD [OF e(1)]
    by (auto simp: surrender_def BeginTeardown_def e Let_def store_def current_upd split: if_splits)
qed

theorem lost_residency_handed_over_once_witness:
  "fst (surrender LossLeaseLost 9 example_heartbeat
     (snd (surrender LossEpochSuperseded 8 example_heartbeat example_world))) = None"
proof -
  obtain lr w1 where s: "surrender LossEpochSuperseded 8 example_heartbeat example_world = (Some lr, w1)"
    by (simp add: surrender_def BeginTeardown_def current_def example_heartbeat_def example_world_def
        example_entry Let_def)
  have "room (Suc (length ([] :: (RegOp \<times> instant) list))) (wReg example_world)"
    by (simp add: example_world_def example_room)
  from lost_residency_handed_over_once [OF s this, of w1 example_heartbeat LossLeaseLost 9]
  show ?thesis by (simp add: s)
qed

end
