(* ===== verification/Attach.thy ===== *)
theory Attach
  imports Heartbeat
begin

text \<open>
  The residency manager, \<^verbatim>\<open>internal/residency/manager.go\<close>: the eight-step sequence
  that makes a session resident, its compensation on failure, and the session records
  that outlive it.

  The collaborators (lease store, durable store, workspaces, launch target, ownership)
  are a record of answers, \<open>Collab\<close>; the location store is \<open>cAnswer\<close>, as in the
  heartbeat.  Other goroutines act between the steps: \<open>cEnv\<close> lists, for each point at
  which the code gives up its locks, the registry, ledger and manager operations they
  perform there.  What the attach takes from a collaborator and what it gives back is
  logged in \<open>mExt\<close>, separately from the compensations it registers, so that "a failed
  attach gives back what it took" is a statement about the log and not about the list
  of compensations.
\<close>

section \<open>Requests and results\<close>

datatype Mode = ModeCreate | ModeRestore | ModeOther string

record Principal =
  prTenantID :: tenant_id
  prActorID :: string
  prTraceID :: string

record Request =
  rqTenantID :: tenant_id
  rqSessionID :: session_id
  rqAgentID :: agent_id
  rqMode :: Mode
  rqCompatibilityID :: compat_id
  rqPrincipal :: Principal

record Residency =
  rsKey :: Key
  rsAgentID :: agent_id
  rsCompatibilityID :: compat_id
  rsGeneration :: u64
  rsRuntime :: handle
  rsLeaseEpoch :: u64
  rsJournalEpoch :: u64
  rsJournalEpochHeld :: bool
  rsAttached :: bool

datatype Step =
    StepValidate | StepLease | StepHydrate | StepCapabilities | StepInstall
  | StepPublish | StepOwnership | StepAttached

text \<open>What an attach can hold, by the name its compensation has.\<close>

datatype Res =
    RAdmission | RContext | RRefusedLease | RLease | RWorkspace | RRuntime
  | REntry | RTombstone | ROwnership

datatype Unreleased = NotReleased Res | HeldByResident Res

record AttachError =
  aeStep :: Step
  aeCode :: "HostLinkErrorCode option"
  aeBuild :: compat_id
  aeUnreleased :: "Unreleased list"

section \<open>Collaborators\<close>

datatype RuntimeJournal = JournalUnknown | JournalAbsent | JournalPresent

record SessionState =
  ssExists :: bool
  ssNamespace :: string
  ssCompatibilityID :: compat_id
  ssRigSessionID :: nat
  ssRuntimeJournal :: RuntimeJournal
  ssHasCheckpoint :: bool

datatype LeaseAnswer =
    LeaseRefused bool bool  \<comment> \<open>is \<open>ErrLeaseHeld\<close>; carries a cleanup\<close>
  | LeaseNil
  | LeaseGranted u64 bool   \<comment> \<open>epoch; already lost\<close>

datatype StateAnswer = StateInvalidIdentity | StateUnreadable | StateLoaded SessionState

datatype LaunchAnswer =
    LaunchFailed bool       \<comment> \<open>is a compatibility mismatch\<close>
  | LaunchNil
  | Launched handle session_id agent_id bool  \<comment> \<open>runtime, its identity, already done\<close>

datatype OwnershipAnswer =
    OwnershipFailed "HostLinkErrorCode option"
  | OwnershipNil
  | OwnershipBegun handle bool  \<comment> \<open>handle; it is the release authority\<close>

text \<open>What other goroutines do while the attach is between two steps.\<close>

datatype EnvOp =
    EnvReg RegOp instant
  | EnvCap CapOp
  | EnvCancelAttaches
  | EnvPrune Key u64

datatype AttachPoint = PLock | PDrain | PInstall | POwnership | PAttached

text \<open>
  What happens to the grant itself while the attach runs: the lease's loss channel closes,
  or another writer under the same fence (the heartbeat, which ownership starts before the
  second publication) is told that a later owner committed and ends the fence.  It may
  happen before each of the three uses the attach makes of its fence.
\<close>

datatype GrantOp = GrantLost | GrantEnded LossReason

datatype FencePoint = FPublish | FAttached | FRollback

record Collab =
  cAnswer :: store_answer
  cIdValid :: "string \<Rightarrow> bool"
  cMaxID :: nat
  cLive :: "LaunchTarget \<Rightarrow> compat_id \<times> Capabilities"
  cRuntimeEpoch :: "handle \<Rightarrow> u64 \<times> bool"
  cLease :: LeaseAnswer
  cDurable :: StateAnswer
  cWorkspace :: bool
  cLaunch :: "Mode \<Rightarrow> LaunchAnswer"
  cCallsCommit :: bool
  cOwnership :: "bool \<Rightarrow> OwnershipAnswer"
  cRelease :: "Res \<Rightarrow> bool"     \<comment> \<open>whether giving the resource back succeeds\<close>
  cEnv :: "AttachPoint \<Rightarrow> EnvOp list"
  cGrant :: "FencePoint \<Rightarrow> GrantOp list"
  cNow :: instant

section \<open>The manager\<close>

record sessionRecord =
  srGeneration :: u64
  srCtx :: nat
  srOwnership :: handle

datatype Ext = Took Res | Gave Res bool

record Manager =
  mHost :: Host
  mGeneration :: u64
  mReg :: Registry
  mCap :: CapacityPublisher
  mLog :: "LocWrite list"
  mSessions :: "Key \<rightharpoonup> sessionRecord"
  mOvertaken :: "(Key \<times> u64) \<rightharpoonup> sessionRecord"
  mPending :: "Key \<rightharpoonup> nat"
  mCancelled :: "nat list"
  mNextCtx :: nat
  mExt :: "Ext list"

definition CancelAttaches :: "Manager \<Rightarrow> Manager" where
  "CancelAttaches m = m\<lparr> mCancelled := mCancelled m @ sorted_list_of_set (ran (mPending m)), mPending := Map.empty \<rparr>"

text \<open>The context of the pruned record is what the caller may cancel.\<close>

definition PruneResidency :: "Key \<Rightarrow> u64 \<Rightarrow> Manager \<Rightarrow> nat option \<times> Manager" where
  "PruneResidency key generation m =
     (case mSessions m key of
        Some rec \<Rightarrow>
          if srGeneration rec = generation
          then (Some (srCtx rec), m\<lparr> mSessions := map_del key (mSessions m) \<rparr>)
          else (case mOvertaken m (key, generation) of
                  None \<Rightarrow> (None, m)
                | Some old \<Rightarrow> (Some (srCtx old), m\<lparr> mOvertaken := map_del (key, generation) (mOvertaken m) \<rparr>))
      | None \<Rightarrow>
          (case mOvertaken m (key, generation) of
             None \<Rightarrow> (None, m)
           | Some old \<Rightarrow> (Some (srCtx old), m\<lparr> mOvertaken := map_del (key, generation) (mOvertaken m) \<rparr>)))"

definition EndResidency :: "Key \<Rightarrow> u64 \<Rightarrow> bool \<Rightarrow> Manager \<Rightarrow> bool \<times> Manager" where
  "EndResidency key generation runtimeReleased m =
     (case PruneResidency key generation m of
        (None, m') \<Rightarrow> (False, m')
      | (Some ctx, m') \<Rightarrow>
          (True, if runtimeReleased then m'\<lparr> mCancelled := mCancelled m' @ [ctx] \<rparr> else m'))"

definition SessionContext :: "Key \<Rightarrow> Manager \<Rightarrow> nat option" where
  "SessionContext key m = map_option srCtx (mSessions m key)"

definition Records :: "Manager \<Rightarrow> nat" where
  "Records m = card (dom (mSessions m)) + card (dom (mOvertaken m))"

fun envStep :: "EnvOp \<Rightarrow> Manager \<Rightarrow> Manager" where
  "envStep (EnvReg op now) m = m\<lparr> mReg := snd (regExec op now (mReg m)) \<rparr>"
| "envStep (EnvCap op) m = m\<lparr> mCap := snd (capExec op (mCap m)) \<rparr>"
| "envStep EnvCancelAttaches m = CancelAttaches m"
| "envStep (EnvPrune k g) m = snd (PruneResidency k g m)"

definition env :: "Collab \<Rightarrow> AttachPoint \<Rightarrow> Manager \<Rightarrow> Manager" where
  "env c p m = fold envStep (cEnv c p) m"

fun grantStep :: "GrantOp \<Rightarrow> epochFence \<Rightarrow> epochFence" where
  "grantStep GrantLost f = f\<lparr> fLease := map_option (\<lambda>_. True) (fLease f) \<rparr>"
| "grantStep (GrantEnded reason) f = fenceEnd reason f"

definition grantAt :: "Collab \<Rightarrow> FencePoint \<Rightarrow> epochFence \<Rightarrow> epochFence" where
  "grantAt c p f = fold grantStep (cGrant c p) f"

section \<open>Compensation\<close>

record compensation =
  coShared :: bool
  coRes :: Res

record snapshotTarget =
  stTarget :: LaunchTarget
  stCompatibility :: compat_id
  stCapabilities :: Capabilities

text \<open>The local variables of \<open>attach\<close>; \<open>atActions\<close> is the unwinder.\<close>

record Attaching =
  atKey :: Key
  atRequest :: Request
  atTarget :: snapshotTarget
  atCtx :: nat
  atEpoch :: u64
  atFence :: epochFence
  atState :: SessionState
  atLaunch :: Mode
  atRuntime :: handle
  atGeneration :: u64
  atHandle :: handle
  atAuthority :: bool
  atActions :: "compensation list"

definition own :: "Res \<Rightarrow> Attaching \<Rightarrow> Attaching" where
  "own r a = a\<lparr> atActions := atActions a @ [\<lparr> coShared = False, coRes = r \<rparr>] \<rparr>"

definition shared :: "Res \<Rightarrow> Attaching \<Rightarrow> Attaching" where
  "shared r a = a\<lparr> atActions := atActions a @ [\<lparr> coShared = True, coRes = r \<rparr>] \<rparr>"

definition sharedHeld :: "Attaching \<Rightarrow> Unreleased list" where
  "sharedHeld a = map (\<lambda>x. HeldByResident (coRes x)) (filter coShared (atActions a))"

definition took :: "Res \<Rightarrow> Manager \<Rightarrow> Manager" where
  "took r m = m\<lparr> mExt := mExt m @ [Took r] \<rparr>"

text \<open>
  Running one compensation.  Until ownership hands back a release authority the
  attach releases everything itself; afterwards the authority does, and the registry
  entry is the authority's to remove.  The fence a tombstone went through is not used
  again: no writer of this attach outlives its rollback.
\<close>

definition compensate :: "Collab \<Rightarrow> Attaching \<Rightarrow> Res \<Rightarrow> Manager \<Rightarrow> bool \<times> Manager" where
  "compensate c a r m =
     (let k = atKey a in
      case r of
        RAdmission \<Rightarrow>
          if atAuthority a then (cRelease c r, m)
          else (case Release k (mCap m) of (ok, cap) \<Rightarrow> (ok, m\<lparr> mCap := cap \<rparr>))
      | RContext \<Rightarrow> (True, m\<lparr> mCancelled := mCancelled m @ [atCtx a] \<rparr>)
      | REntry \<Rightarrow>
          if atAuthority a then (True, m)
          else (case RemoveByGeneration k (atGeneration a) (mReg m) of
                  (ok, reg) \<Rightarrow> (ok, m\<lparr> mReg := reg \<rparr>))
      | RTombstone \<Rightarrow>
          if atAuthority a then (cRelease c r, m)
          else (case fenceWrite (callStore (cAnswer c)
                       (TombstoneResidency (TenantID k) (SessionID k) (atEpoch a))) (grantAt c FRollback (atFence a), mLog m) of
                  (err, f, log) \<Rightarrow> (err = None, m\<lparr> mLog := log \<rparr>))
      | _ \<Rightarrow> (cRelease c r, m))"

definition giveBack :: "Collab \<Rightarrow> Attaching \<Rightarrow> Res \<Rightarrow> Manager \<Rightarrow> bool \<times> Manager" where
  "giveBack c a r m =
     (case compensate c a r m of (ok, m') \<Rightarrow> (ok, m'\<lparr> mExt := mExt m' @ [Gave r ok] \<rparr>))"

fun unwindLoop :: "Collab \<Rightarrow> Attaching \<Rightarrow> bool \<Rightarrow> compensation list \<Rightarrow> Manager \<Rightarrow> Unreleased list \<times> Manager" where
  "unwindLoop c a includeShared [] m = ([], m)"
| "unwindLoop c a includeShared (x # xs) m =
     (if coShared x \<and> \<not> includeShared then unwindLoop c a includeShared xs m
      else (case giveBack c a (coRes x) m of
              (ok, m') \<Rightarrow>
                (case unwindLoop c a includeShared xs m' of
                   (us, m'') \<Rightarrow> (if ok then us else NotReleased (coRes x) # us, m''))))"

definition unwind :: "Collab \<Rightarrow> Attaching \<Rightarrow> bool \<Rightarrow> Manager \<Rightarrow> Unreleased list \<times> Manager" where
  "unwind c a includeShared m = unwindLoop c a includeShared (rev (atActions a)) m"

definition mismatchBuild :: "HostLinkErrorCode option \<Rightarrow> compat_id \<Rightarrow> compat_id" where
  "mismatchBuild code build = (if code \<noteq> Some RuntimeMismatch then [] else build)"

definition admissionCode :: "AdmitError \<Rightarrow> HostLinkErrorCode option" where
  "admissionCode e = (case e of AdmissionRefused code \<Rightarrow> Some code | AdmissionConflict _ \<Rightarrow> None)"

definition launchCode :: "bool \<Rightarrow> HostLinkErrorCode option" where
  "launchCode mismatch = (if mismatch then Some RuntimeMismatch else None)"

section \<open>The steps\<close>

text \<open>A step either goes on with the locals or returns from \<open>attach\<close>.\<close>

datatype StepOut = Go Attaching | Return "AttachError + Residency"

definition andThen :: "StepOut \<times> Manager \<Rightarrow> (Attaching \<Rightarrow> Manager \<Rightarrow> StepOut \<times> Manager) \<Rightarrow> StepOut \<times> Manager" where
  "andThen x f = (case x of (Go a, m) \<Rightarrow> f a m | (Return r, m) \<Rightarrow> (Return r, m))"

text \<open>The \<open>fail\<close> closure: roll everything back, shared resources included.\<close>

definition failAt ::
  "Collab \<Rightarrow> Step \<Rightarrow> HostLinkErrorCode option \<Rightarrow> Attaching \<Rightarrow> Manager \<Rightarrow> StepOut \<times> Manager" where
  "failAt c step code a m =
     (case unwind c a True m of
        (us, m') \<Rightarrow>
          (Return (Inl \<lparr> aeStep = step, aeCode = code,
             aeBuild = mismatchBuild code (stCompatibility (atTarget a)), aeUnreleased = us \<rparr>), m'))"

definition stepAdmit ::
  "Collab \<Rightarrow> Key \<Rightarrow> Request \<Rightarrow> snapshotTarget \<Rightarrow> Manager \<Rightarrow> StepOut \<times> Manager" where
  "stepAdmit c key request target m =
     (if rqCompatibilityID request \<noteq> [] \<and> rqCompatibilityID request \<noteq> stCompatibility target
      then (Return (Inl \<lparr> aeStep = StepValidate, aeCode = Some RuntimeMismatch,
                          aeBuild = stCompatibility target, aeUnreleased = [] \<rparr>), m)
      else (case Admit key (rqAgentID request) (mCap m) of
              (Some e, cap) \<Rightarrow>
                (Return (Inl \<lparr> aeStep = StepValidate, aeCode = admissionCode e,
                   aeBuild = mismatchBuild (admissionCode e) (stCompatibility target),
                   aeUnreleased = [] \<rparr>), m\<lparr> mCap := cap \<rparr>)
            | (None, cap) \<Rightarrow>
                (let ctx = mNextCtx m;
                     a = \<lparr> atKey = key, atRequest = request, atTarget = target, atCtx = ctx,
                           atEpoch = 0, atFence = newEpochFence None,
                           atState = \<lparr> ssExists = False, ssNamespace = [], ssCompatibilityID = [],
                             ssRigSessionID = 0, ssRuntimeJournal = JournalUnknown, ssHasCheckpoint = False \<rparr>,
                           atLaunch = rqMode request, atRuntime = 0, atGeneration = 0, atHandle = 0,
                           atAuthority = False, atActions = [] \<rparr>;
                     m1 = took RAdmission (m\<lparr> mCap := cap \<rparr>);
                     m2 = took RContext (m1\<lparr> mNextCtx := ctx + 1, mPending := (mPending m1)(key \<mapsto> ctx) \<rparr>)
                 in (Go (own RContext (shared RAdmission a)), m2))))"

definition stepLease :: "Collab \<Rightarrow> Attaching \<Rightarrow> Manager \<Rightarrow> StepOut \<times> Manager" where
  "stepLease c a m =
     (case cLease c of
        LeaseRefused heldElsewhere cleanup \<Rightarrow>
          (let a' = (if cleanup then own RRefusedLease a else a);
               m' = (if cleanup then took RRefusedLease m else m)
           in failAt c StepLease (if heldElsewhere then Some EpochMismatch else None) a' m')
      | LeaseNil \<Rightarrow> failAt c StepLease None a m
      | LeaseGranted epoch lost \<Rightarrow>
          (let a' = (own RLease a)\<lparr> atFence := newEpochFence (Some lost), atEpoch := epoch \<rparr>;
               m' = took RLease m
           in if epoch = 0 then failAt c StepLease None a' m' else (Go a', m')))"

definition stepHydrate :: "Collab \<Rightarrow> Attaching \<Rightarrow> Manager \<Rightarrow> StepOut \<times> Manager" where
  "stepHydrate c a m =
     (case cDurable c of
        StateInvalidIdentity \<Rightarrow> failAt c StepHydrate (Some RuntimeUnavailable) a m
      | StateUnreadable \<Rightarrow> failAt c StepHydrate None a m
      | StateLoaded st \<Rightarrow>
          (let caps = stCapabilities (atTarget a) in
           if ssNamespace st = [] then failAt c StepHydrate None a m
           else if ssExists st \<and> ssCompatibilityID st \<noteq> stCompatibility (atTarget a)
           then failAt c StepHydrate (Some RuntimeMismatch) a m
           else if rqMode (atRequest a) = ModeRestore \<and> \<not> ssExists st
           then failAt c StepHydrate (Some RuntimeUnavailable) a m
           else if rqMode (atRequest a) = ModeRestore \<and> cRequiresCheckpoint caps \<and> \<not> ssHasCheckpoint st
           then failAt c StepHydrate (Some RuntimeUnavailable) a m
           else (Go (a\<lparr> atState := st \<rparr>), m)))"

text \<open>A create that names a runtime session with a conversation is launched as a restore.\<close>

definition stepMode :: "Collab \<Rightarrow> Attaching \<Rightarrow> Manager \<Rightarrow> StepOut \<times> Manager" where
  "stepMode c a m =
     (let st = atState a; caps = stCapabilities (atTarget a) in
      if rqMode (atRequest a) = ModeCreate \<and> ssRigSessionID st \<noteq> 0
      then (case ssRuntimeJournal st of
              JournalAbsent \<Rightarrow> (Go (a\<lparr> atLaunch := rqMode (atRequest a) \<rparr>), m)
            | JournalPresent \<Rightarrow>
                if cRequiresCheckpoint caps \<and> \<not> ssHasCheckpoint st
                then failAt c StepHydrate (Some RuntimeUnavailable) a m
                else (Go (a\<lparr> atLaunch := ModeRestore \<rparr>), m)
            | JournalUnknown \<Rightarrow> failAt c StepHydrate (Some RuntimeUnavailable) a m)
      else (Go (a\<lparr> atLaunch := rqMode (atRequest a) \<rparr>), m))"

definition stepWorkspace :: "Collab \<Rightarrow> Attaching \<Rightarrow> Manager \<Rightarrow> StepOut \<times> Manager" where
  "stepWorkspace c a m =
     (if cRequiresWorkspace (stCapabilities (atTarget a))
      then (if \<not> cWorkspace c then failAt c StepHydrate None a m
            else (Go (shared RWorkspace a), took RWorkspace m))
      else (Go a, m))"

definition stepDrain :: "Collab \<Rightarrow> Attaching \<Rightarrow> Manager \<Rightarrow> StepOut \<times> Manager" where
  "stepDrain c a m0 =
     (let m = env c PDrain m0 in
      if Draining (mCap m) then failAt c StepValidate (Some NotAdmitting) a m else (Go a, m))"

definition stepLaunch :: "Collab \<Rightarrow> Attaching \<Rightarrow> Manager \<Rightarrow> StepOut \<times> Manager" where
  "stepLaunch c a m =
     (case cLaunch c (if atLaunch a = ModeCreate then ModeCreate else ModeRestore) of
        LaunchFailed mismatch \<Rightarrow> failAt c StepHydrate (launchCode mismatch) a m
      | LaunchNil \<Rightarrow> failAt c StepHydrate None a m
      | Launched rt sid aid done \<Rightarrow>
          (let a' = (own RRuntime a)\<lparr> atRuntime := rt \<rparr>; m' = took RRuntime m in
           if sid \<noteq> SessionID (atKey a) \<or> aid \<noteq> rqAgentID (atRequest a)
           then failAt c StepCapabilities (Some RuntimeMismatch) a' m'
           else if done then failAt c StepCapabilities (Some RuntimeUnavailable) a' m'
           else (Go a', m')))"

definition existingResidency :: "Collab \<Rightarrow> Entry \<Rightarrow> Key \<Rightarrow> Request \<Rightarrow> AttachError + Residency" where
  "existingResidency c entry key request =
     (if eTeardownOwned entry
      then Inl \<lparr> aeStep = StepValidate, aeCode = Some NotAdmitting, aeBuild = [], aeUnreleased = [] \<rparr>
      else if eAgentID entry \<noteq> rqAgentID request
      then Inl \<lparr> aeStep = StepValidate, aeCode = Some RuntimeMismatch,
                 aeBuild = eCompatibilityID entry, aeUnreleased = [] \<rparr>
      else if rqCompatibilityID request \<noteq> [] \<and> rqCompatibilityID request \<noteq> eCompatibilityID entry
      then Inl \<lparr> aeStep = StepValidate, aeCode = Some RuntimeMismatch,
                 aeBuild = eCompatibilityID entry, aeUnreleased = [] \<rparr>
      else Inr \<lparr> rsKey = eKey entry, rsAgentID = eAgentID entry,
                 rsCompatibilityID = eCompatibilityID entry, rsGeneration = eGeneration entry,
                 rsRuntime = eRuntime entry, rsLeaseEpoch = eLeaseEpoch entry,
                 rsJournalEpoch = fst (cRuntimeEpoch c (eRuntime entry)),
                 rsJournalEpochHeld = snd (cRuntimeEpoch c (eRuntime entry)), rsAttached = False \<rparr>)"

text \<open>Losing the install race: give back what is ours alone and answer the residency that exists.\<close>

definition stepLose :: "Collab \<Rightarrow> Entry \<Rightarrow> Attaching \<Rightarrow> Manager \<Rightarrow> StepOut \<times> Manager" where
  "stepLose c entry a m =
     (let m1 = m\<lparr> mCap := snd (Own (atKey a) (eGeneration entry) (mCap m)) \<rparr> in
      case unwind c a False m1 of
        (us, m2) \<Rightarrow>
          (case existingResidency c entry (atKey a) (atRequest a) of
             Inl mismatch \<Rightarrow>
               (Return (Inl \<lparr> aeStep = StepInstall, aeCode = aeCode mismatch, aeBuild = aeBuild mismatch,
                              aeUnreleased = us @ sharedHeld a \<rparr>), m2)
           | Inr residency \<Rightarrow>
               if us \<noteq> []
               then (Return (Inl \<lparr> aeStep = StepInstall, aeCode = None, aeBuild = [],
                                   aeUnreleased = us \<rparr>), m2)
               else (Return (Inr residency), m2)))"

definition stepInstall :: "Collab \<Rightarrow> Attaching \<Rightarrow> Manager \<Rightarrow> StepOut \<times> Manager" where
  "stepInstall c a m0 =
     (let m = env c PInstall m0 in
      case Insert (atKey a)
             \<lparr> aAgentID = rqAgentID (atRequest a), aTarget = ltHandle (stTarget (atTarget a)),
               aCompatibilityID = stCompatibility (atTarget a), aRuntime = atRuntime a,
               aLeaseEpoch = atEpoch a \<rparr> (cNow c) (mReg m) of
        ((entry, won), reg) \<Rightarrow>
          if \<not> won then stepLose c entry a m
          else
            (let a' = (own REntry a)\<lparr> atGeneration := eGeneration entry \<rparr>;
                 m1 = took REntry (m\<lparr> mReg := reg \<rparr>) in
             case Own (atKey a) (eGeneration entry) (mCap m1) of
               (owned, cap) \<Rightarrow>
                 if \<not> owned then failAt c StepInstall None a' (m1\<lparr> mCap := cap \<rparr>)
                 else (Go a', m1\<lparr> mCap := cap \<rparr>)))"

definition managerObservation ::
  "Manager \<Rightarrow> instant \<Rightarrow> Key \<Rightarrow> agent_id \<Rightarrow> compat_id \<Rightarrow> u64 \<Rightarrow> SessionResidency \<Rightarrow> bool \<Rightarrow> Observation" where
  "managerObservation m now key agent compatibility epoch residency accepting =
     \<lparr> obTenantID = TenantID key, obSessionID = SessionID key, obHostID = hID (mHost m),
       obHostGeneration = mGeneration m, obAgentID = agent, obCompatibilityID = compatibility,
       obPlacement = hPlacement (mHost m), obInternalEndpoint = hInternalEndpoint (mHost m),
       obResidency = residency, obAccepting = accepting, obLeaseEpoch = epoch,
       obObservedAt = now, obExpiresAt = now + hRegistryExpiry (mHost m) \<rparr>"

text \<open>A publication through the attach's fence, which both the log and the fence remember.\<close>

definition publishAt ::
  "Collab \<Rightarrow> SessionResidency \<Rightarrow> bool \<Rightarrow> Attaching \<Rightarrow> Manager \<Rightarrow> bool \<times> Attaching \<times> Manager" where
  "publishAt c residency accepting a m =
     (case fenceWrite (callStore (cAnswer c) (PublishResidency
              (managerObservation m (cNow c) (atKey a) (rqAgentID (atRequest a))
                 (stCompatibility (atTarget a)) (atEpoch a) residency accepting))) (atFence a, mLog m) of
        (err, f, log) \<Rightarrow> (err = None, a\<lparr> atFence := f \<rparr>, m\<lparr> mLog := log \<rparr>))"

definition stepPublish :: "Collab \<Rightarrow> Attaching \<Rightarrow> Manager \<Rightarrow> StepOut \<times> Manager" where
  "stepPublish c a m =
     (case publishAt c ResidencyAttaching False (a\<lparr> atFence := grantAt c FPublish (atFence a) \<rparr>) m of
        (ok, a', m') \<Rightarrow>
          if \<not> ok then failAt c StepPublish None a' m'
          else (Go (own RTombstone a'), took RTombstone m'))"

text \<open>The \<open>commit\<close> closure: ownership may start only while the attach is still pending.\<close>

definition commit :: "Attaching \<Rightarrow> Manager \<Rightarrow> bool \<times> Manager" where
  "commit a m =
     (if mPending m (atKey a) \<noteq> Some (atCtx a) \<or> atCtx a \<in> set (mCancelled m) then (False, m)
      else (True, m\<lparr> mPending := map_del (atKey a) (mPending m) \<rparr>))"

definition stepOwnership :: "Collab \<Rightarrow> Attaching \<Rightarrow> Manager \<Rightarrow> StepOut \<times> Manager" where
  "stepOwnership c a m0 =
     (case (if cCallsCommit c then commit a (env c POwnership m0) else (True, env c POwnership m0)) of
        (committed, m) \<Rightarrow>
          (case cOwnership c committed of
             OwnershipFailed code \<Rightarrow> failAt c StepOwnership code a m
           | OwnershipNil \<Rightarrow> failAt c StepOwnership None a m
           | OwnershipBegun handle authority \<Rightarrow>
               (Go ((own ROwnership a)\<lparr> atHandle := handle, atAuthority := authority \<rparr>),
                took ROwnership m)))"

definition stepAttached :: "Collab \<Rightarrow> Attaching \<Rightarrow> Manager \<Rightarrow> StepOut \<times> Manager" where
  "stepAttached c a0 m0 =
     (let m = env c PAttached m0; key = atKey a0;
          a = a0\<lparr> atFence := grantAt c FAttached (atFence a0) \<rparr> in
      case Get key (mReg m) of
        None \<Rightarrow> failAt c StepAttached None a m
      | Some live \<Rightarrow>
          if eGeneration live \<noteq> atGeneration a then failAt c StepAttached None a m
          else (case publishAt c (residencyOf (eState live)) (eAccepting live \<and> \<not> Draining (mCap m)) a m of
                  (ok, a', m1) \<Rightarrow>
                    if \<not> ok then failAt c StepAttached None a' m1
                    else
                      (let m2 = (case mSessions m1 key of
                                   Some older \<Rightarrow>
                                     if srGeneration older \<noteq> atGeneration a
                                     then m1\<lparr> mOvertaken := (mOvertaken m1)((key, srGeneration older) \<mapsto> older) \<rparr>
                                     else m1
                                 | None \<Rightarrow> m1);
                           rec = \<lparr> srGeneration = atGeneration a, srCtx = atCtx a, srOwnership = atHandle a \<rparr>
                       in (Return (Inr \<lparr> rsKey = key, rsAgentID = rqAgentID (atRequest a),
                             rsCompatibilityID = stCompatibility (atTarget a),
                             rsGeneration = atGeneration a, rsRuntime = atRuntime a,
                             rsLeaseEpoch = atEpoch a,
                             rsJournalEpoch = fst (cRuntimeEpoch c (atRuntime a)),
                             rsJournalEpochHeld = snd (cRuntimeEpoch c (atRuntime a)),
                             rsAttached = True \<rparr>),
                           m2\<lparr> mSessions := (mSessions m2)(key \<mapsto> rec) \<rparr>))))"

definition forgetPending :: "Key \<Rightarrow> nat \<Rightarrow> Manager \<Rightarrow> Manager" where
  "forgetPending key ctx m =
     (if mPending m key = Some ctx then m\<lparr> mPending := map_del key (mPending m) \<rparr> else m)"

definition afterAdmit :: "Collab \<Rightarrow> Attaching \<Rightarrow> Manager \<Rightarrow> StepOut \<times> Manager" where
  "afterAdmit c a m =
     foldl (\<lambda>x f. andThen x (f c)) (Go a, m)
       [stepLease, stepHydrate, stepMode, stepWorkspace, stepDrain, stepLaunch, stepInstall,
        stepPublish, stepOwnership, stepAttached]"

definition attach ::
  "Collab \<Rightarrow> Key \<Rightarrow> Request \<Rightarrow> snapshotTarget \<Rightarrow> Manager \<Rightarrow> StepOut \<times> Manager" where
  "attach c key request target m =
     (case stepAdmit c key request target m of
        (Return r, m') \<Rightarrow> (Return r, m')
      | (Go a, m') \<Rightarrow>
          (case afterAdmit c a m' of (out, m'') \<Rightarrow> (out, forgetPending key (atCtx a) m'')))"

section \<open>Validation\<close>

definition Principal_validate :: "nat \<Rightarrow> tenant_id \<Rightarrow> Principal \<Rightarrow> bool" where
  "Principal_validate maxField tenant p =
     (prTenantID p = tenant \<and> prActorID p \<noteq> [] \<and>
      length (prActorID p) \<le> maxField \<and> ValidString (prActorID p) \<and>
      length (prTraceID p) \<le> maxField \<and> ValidString (prTraceID p))"

definition refusal :: "HostLinkErrorCode option \<Rightarrow> compat_id \<Rightarrow> AttachError" where
  "refusal code build = \<lparr> aeStep = StepValidate, aeCode = code, aeBuild = build, aeUnreleased = [] \<rparr>"

definition refuseForeignSession :: "Collab \<Rightarrow> agent_id \<Rightarrow> Manager \<Rightarrow> AttachError" where
  "refuseForeignSession c agent m =
     (case Target agent (hDepartment (mHost m)) of
        None \<Rightarrow> refusal (Some RuntimeUnavailable) []
      | Some target \<Rightarrow>
          let build = fst (cLive c target) in
          if CompatibilityID_Validate (cMaxID c) build \<noteq> None then refusal (Some RuntimeUnavailable) []
          else refusal (Some RuntimeMismatch) build)"

definition validateRequest :: "Collab \<Rightarrow> Request \<Rightarrow> Manager \<Rightarrow> AttachError option" where
  "validateRequest c request m =
     (let fixed = hFixedSessionID (mHost m) in
      if \<not> cIdValid c (rqTenantID request) then Some (refusal None [])
      else if \<not> cIdValid c (rqSessionID request) then Some (refusal None [])
      else if fixed \<noteq> [] \<and> fixed \<noteq> rqSessionID request
      then Some (refuseForeignSession c (rqAgentID request) m)
      else if \<not> cIdValid c (rqAgentID request) then Some (refusal None [])
      else if rqMode request \<noteq> ModeCreate \<and> rqMode request \<noteq> ModeRestore then Some (refusal None [])
      else if \<not> Principal_validate (cMaxID c) (rqTenantID request) (rqPrincipal request)
      then Some (refusal None [])
      else if Target (rqAgentID request) (hDepartment (mHost m)) = None
      then Some (refusal (Some RuntimeUnavailable) [])
      else None)"

definition resolveTarget :: "Collab \<Rightarrow> Request \<Rightarrow> Manager \<Rightarrow> AttachError + snapshotTarget" where
  "resolveTarget c request m =
     (case Target (rqAgentID request) (hDepartment (mHost m)) of
        None \<Rightarrow> Inl (refusal (Some RuntimeUnavailable) [])
      | Some target \<Rightarrow>
          let (build, caps) = cLive c target in
          if CompatibilityID_Validate (cMaxID c) build \<noteq> None then Inl (refusal (Some RuntimeUnavailable) [])
          else if Capabilities_Validate caps \<noteq> None then Inl (refusal (Some RuntimeUnavailable) [])
          else Inr \<lparr> stTarget = target, stCompatibility = build, stCapabilities = caps \<rparr>)"

definition attachedResidency :: "Key \<Rightarrow> Manager \<Rightarrow> Entry option" where
  "attachedResidency key m =
     (case mSessions m key of
        None \<Rightarrow> None
      | Some rec \<Rightarrow>
          (case Get key (mReg m) of
             None \<Rightarrow> None
           | Some entry \<Rightarrow> if eGeneration entry \<noteq> srGeneration rec then None else Some entry))"

definition Attach :: "Collab \<Rightarrow> Request \<Rightarrow> Manager \<Rightarrow> StepOut \<times> Manager" where
  "Attach c request m =
     (let key = Key (rqTenantID request) (rqSessionID request) in
      case validateRequest c request m of
        Some e \<Rightarrow> (Return (Inl e), m)
      | None \<Rightarrow>
          (case attachedResidency key m of
             Some existing \<Rightarrow> (Return (existingResidency c existing key request), m)
           | None \<Rightarrow>
               (let m1 = env c PLock m in
                case attachedResidency key m1 of
                  Some existing \<Rightarrow> (Return (existingResidency c existing key request), m1)
                | None \<Rightarrow>
                    (case resolveTarget c request m1 of
                       Inl e \<Rightarrow> (Return (Inl e), m1)
                     | Inr target \<Rightarrow> attach c key request target m1))))"

definition Observe :: "Key \<Rightarrow> instant \<Rightarrow> Manager \<Rightarrow> Observation option" where
  "Observe key now m =
     (case Get key (mReg m) of
        None \<Rightarrow> None
      | Some entry \<Rightarrow> Some (managerObservation m now key (eAgentID entry) (eCompatibilityID entry)
                             (eLeaseEpoch entry) (residencyOf (eState entry)) (eAccepting entry)))"

section \<open>The account of what was taken\<close>

lemma envStep_ext: "mExt (envStep op m) = mExt m"
  by (cases op) (auto simp: CancelAttaches_def PruneResidency_def split: option.splits)

lemma env_ext [simp]: "mExt (env c p m) = mExt m"
proof -
  have "mExt (fold envStep ops m) = mExt m" for ops
    by (induction ops arbitrary: m) (simp_all add: envStep_ext)
  then show ?thesis by (simp add: env_def)
qed

text \<open>
  The attach's account: every resource taken since \<open>m0\<close> is registered with the
  unwinder, in order, only the admission charge and the workspace are shared, and before
  the install (\<open>pre\<close>) there is no registry entry among them.
\<close>

definition acct :: "bool \<Rightarrow> Manager \<Rightarrow> Attaching \<Rightarrow> Manager \<Rightarrow> bool" where
  "acct pre m0 a m =
     (mExt m = mExt m0 @ map (\<lambda>x. Took (coRes x)) (atActions a) \<and>
      (\<forall>x\<in>set (atActions a). coShared x \<longrightarrow> coRes x \<in> {RAdmission, RWorkspace}) \<and>
      (pre \<longrightarrow> REntry \<notin> coRes ` set (atActions a)))"

text \<open>How the account of an attach that returned is settled.\<close>

definition settled :: "Manager \<Rightarrow> Key \<Rightarrow> AttachError + Residency \<Rightarrow> Manager \<Rightarrow> bool" where
  "settled m0 key r m' =
     (\<exists>taken gave. mExt m' = mExt m0 @ map Took taken @ map (\<lambda>(x, ok). Gave x ok) gave \<and>
        (case r of
           Inl e \<Rightarrow>
             (\<forall>x\<in>set taken. x \<in> fst ` set gave \<or>
                (x \<in> {RAdmission, RWorkspace} \<and> aeStep e = StepInstall \<and> Get key (mReg m') \<noteq> None)) \<and>
             (\<forall>x. (x, False) \<in> set gave \<longrightarrow> NotReleased x \<in> set (aeUnreleased e))
         | Inr res \<Rightarrow>
             (if rsAttached res then gave = []
              else (\<forall>x\<in>set taken. (x, True) \<in> set gave \<or> x \<in> {RAdmission, RWorkspace}) \<and>
                   (\<forall>y\<in>set gave. snd y))))"

lemma compensate_ext: "mExt (snd (compensate c a r m)) = mExt m"
  by (cases r) (auto simp: compensate_def Let_def split: prod.splits)

lemma giveBack_ext:
  "mExt (snd (giveBack c a r m)) = mExt m @ [Gave r (fst (giveBack c a r m))]"
  using compensate_ext [of c a r m] by (auto simp: giveBack_def split: prod.splits)

lemma unwindLoop_account:
  assumes "unwindLoop c a incl xs m = (us, m')"
  shows "\<exists>gave. mExt m' = mExt m @ map (\<lambda>(x, ok). Gave x ok) gave \<and>
    map fst gave = map coRes (filter (\<lambda>x. coShared x \<longrightarrow> incl) xs) \<and>
    us = map (\<lambda>y. NotReleased (fst y)) (filter (\<lambda>y. \<not> snd y) gave)"
  using assms
proof (induction xs arbitrary: m us)
  case (Cons x xs)
  show ?case
  proof (cases "coShared x \<and> \<not> incl")
    case True
    then show ?thesis using Cons by auto
  next
    case False
    obtain ok m1 where g: "giveBack c a (coRes x) m = (ok, m1)" by (cases "giveBack c a (coRes x) m")
    obtain us1 where u: "unwindLoop c a incl xs m1 = (us1, m')"
      and us: "us = (if ok then us1 else NotReleased (coRes x) # us1)"
      using Cons.prems False g by (auto split: prod.splits)
    from Cons.IH [OF u] obtain gave where
      ih: "mExt m' = mExt m1 @ map (\<lambda>(x, ok). Gave x ok) gave"
        "map fst gave = map coRes (filter (\<lambda>x. coShared x \<longrightarrow> incl) xs)"
        "us1 = map (\<lambda>y. NotReleased (fst y)) (filter (\<lambda>y. \<not> snd y) gave)" by blast
    have "mExt m1 = mExt m @ [Gave (coRes x) ok]" using giveBack_ext [of c a "coRes x" m] g by simp
    with ih us False show ?thesis
      by (intro exI [of _ "(coRes x, ok) # gave"]) auto
  qed
qed simp

lemma failAt_settled:
  assumes "acct pre m0 a m"
  shows "\<exists>e m'. failAt c step code a m = (Return (Inl e), m') \<and> settled m0 key (Inl e) m'"
proof -
  obtain us m' where u: "unwind c a True m = (us, m')" by (cases "unwind c a True m")
  from unwindLoop_account [OF u [unfolded unwind_def]] obtain gave where
    g: "mExt m' = mExt m @ map (\<lambda>(x, ok). Gave x ok) gave" "map fst gave = map coRes (rev (atActions a))"
      "us = map (\<lambda>y. NotReleased (fst y)) (filter (\<lambda>y. \<not> snd y) gave)" by auto
  have "mExt m' = mExt m0 @ map Took (map coRes (atActions a)) @ map (\<lambda>(x, ok). Gave x ok) gave"
    using assms g(1) by (simp add: acct_def comp_def)
  moreover have "set (map coRes (atActions a)) = fst ` set gave"
    using arg_cong [OF g(2), of set] by simp
  moreover have "NotReleased x \<in> set us" if "(x, False) \<in> set gave" for x
    using that by (force simp: g(3))
  ultimately show ?thesis
    using u unfolding failAt_def settled_def
    by (auto intro!: exI [of _ "map coRes (atActions a)"] exI [of _ gave])
qed

text \<open>A step keeps the account open, or returns with it settled.\<close>

definition stepOK :: "bool \<Rightarrow> bool \<Rightarrow> Manager \<Rightarrow> Key \<Rightarrow> (Attaching \<Rightarrow> Manager \<Rightarrow> StepOut \<times> Manager) \<Rightarrow> bool" where
  "stepOK pre pre' m0 key f =
     (\<forall>a m. acct pre m0 a m \<longrightarrow> atKey a = key \<longrightarrow>
        (case f a m of
           (Go a', m') \<Rightarrow> acct pre' m0 a' m' \<and> atKey a' = key
         | (Return r, m') \<Rightarrow> settled m0 key r m'))"

lemma stepOK_I:
  assumes "\<And>a m. acct pre m0 a m \<Longrightarrow> atKey a = key \<Longrightarrow>
      (case f a m of (Go a', m') \<Rightarrow> acct pre' m0 a' m' \<and> atKey a' = key | (Return r, m') \<Rightarrow> settled m0 key r m')"
  shows "stepOK pre pre' m0 key f"
  using assms by (simp add: stepOK_def)

lemma failAt_case:
  assumes "acct pre m0 a m"
  shows "case failAt c step code a m of
      (Go a', m') \<Rightarrow> acct pre' m0 a' m' \<and> atKey a' = key | (Return r, m') \<Rightarrow> settled m0 key r m'"
  using failAt_settled [OF assms, of c step code key] by auto

lemma acct_own: "acct pre m0 a m \<Longrightarrow> (pre' \<Longrightarrow> pre \<and> r \<noteq> REntry) \<Longrightarrow> acct pre' m0 (own r a) (took r m)"
  by (auto simp: acct_def own_def took_def)

lemma acct_shared: "acct pre m0 a m \<Longrightarrow> r \<in> {RAdmission, RWorkspace} \<Longrightarrow> acct pre m0 (shared r a) (took r m)"
  by (auto simp: acct_def shared_def took_def)

lemma acct_cong:
  "acct pre m0 a m \<Longrightarrow> atActions a' = atActions a \<Longrightarrow> mExt m' = mExt m \<Longrightarrow> acct pre m0 a' m'"
  by (simp add: acct_def)

lemma own_key [simp]: "atKey (own r a) = atKey a" "atKey (shared r a) = atKey a"
  by (simp_all add: own_def shared_def)

lemma took_ext [simp]: "mExt (took r m) = mExt m @ [Took r]"
  by (simp add: took_def)

lemma stepLease_ok: "stepOK pre pre m0 key (stepLease c)"
proof (rule stepOK_I)
  fix a m assume a: "acct pre m0 a m" "atKey a = key"
  have r: "acct pre m0 (own RRefusedLease a) (took RRefusedLease m)" by (rule acct_own [OF a(1)]) simp
  have l: "acct pre m0 ((own RLease a)\<lparr> atFence := f, atEpoch := e \<rparr>) (took RLease m)" for f e
    by (rule acct_cong [OF acct_own [OF a(1), where pre' = pre]]) simp_all
  show "case stepLease c a m of (Go a', m') \<Rightarrow> acct pre m0 a' m' \<and> atKey a' = key
      | (Return r, m') \<Rightarrow> settled m0 key r m'"
    using a failAt_case [OF r] failAt_case [OF a(1)] failAt_case [OF l] l
    by (cases "cLease c") (simp_all add: stepLease_def Let_def)
qed

lemma stepHydrate_ok: "stepOK pre pre m0 key (stepHydrate c)"
proof (rule stepOK_I)
  fix a m assume a: "acct pre m0 a m" "atKey a = key"
  have "acct pre m0 (a\<lparr> atState := s \<rparr>) m" for s by (rule acct_cong [OF a(1)]) simp_all
  then show "case stepHydrate c a m of (Go a', m') \<Rightarrow> acct pre m0 a' m' \<and> atKey a' = key
      | (Return r, m') \<Rightarrow> settled m0 key r m'"
    using a failAt_case [OF a(1)] by (cases "cDurable c") (simp_all add: stepHydrate_def Let_def)
qed

lemma stepMode_ok: "stepOK pre pre m0 key (stepMode c)"
proof (rule stepOK_I)
  fix a m assume a: "acct pre m0 a m" "atKey a = key"
  have "acct pre m0 (a\<lparr> atLaunch := s \<rparr>) m" for s by (rule acct_cong [OF a(1)]) simp_all
  then show "case stepMode c a m of (Go a', m') \<Rightarrow> acct pre m0 a' m' \<and> atKey a' = key
      | (Return r, m') \<Rightarrow> settled m0 key r m'"
    using a failAt_case [OF a(1)]
    by (cases "ssRuntimeJournal (atState a)") (simp_all add: stepMode_def Let_def)
qed

lemma stepWorkspace_ok: "stepOK pre pre m0 key (stepWorkspace c)"
proof (rule stepOK_I)
  fix a m assume a: "acct pre m0 a m" "atKey a = key"
  show "case stepWorkspace c a m of (Go a', m') \<Rightarrow> acct pre m0 a' m' \<and> atKey a' = key
      | (Return r, m') \<Rightarrow> settled m0 key r m'"
    using a failAt_case [OF a(1)] acct_shared [OF a(1), of RWorkspace] by (simp add: stepWorkspace_def)
qed

lemma stepDrain_ok: "stepOK pre pre m0 key (stepDrain c)"
proof (rule stepOK_I)
  fix a m assume a: "acct pre m0 a m" "atKey a = key"
  have e: "acct pre m0 a (env c PDrain m)" by (rule acct_cong [OF a(1)]) simp_all
  show "case stepDrain c a m of (Go a', m') \<Rightarrow> acct pre m0 a' m' \<and> atKey a' = key
      | (Return r, m') \<Rightarrow> settled m0 key r m'"
    using a e failAt_case [OF e] by (simp add: stepDrain_def Let_def)
qed

lemma stepLaunch_ok: "stepOK pre pre m0 key (stepLaunch c)"
proof (rule stepOK_I)
  fix a m assume a: "acct pre m0 a m" "atKey a = key"
  have r: "acct pre m0 ((own RRuntime a)\<lparr> atRuntime := x \<rparr>) (took RRuntime m)" for x
    by (rule acct_cong [OF acct_own [OF a(1), where pre' = pre]]) simp_all
  show "case stepLaunch c a m of (Go a', m') \<Rightarrow> acct pre m0 a' m' \<and> atKey a' = key
      | (Return r, m') \<Rightarrow> settled m0 key r m'"
    using a r failAt_case [OF r] failAt_case [OF a(1)]
    by (cases "cLaunch c (if atLaunch a = ModeCreate then ModeCreate else ModeRestore)")
      (simp_all add: stepLaunch_def Let_def)
qed

lemma unwind_own_registry:
  assumes "unwindLoop c a incl xs m = (us, m')"
    "REntry \<notin> coRes ` set xs"
  shows "mReg m' = mReg m"
  using assms
proof (induction xs arbitrary: m us)
  case (Cons x xs)
  have "mReg (snd (giveBack c a (coRes x) m)) = mReg m"
    using Cons.prems(2)
    by (cases "coRes x") (auto simp: giveBack_def compensate_def Let_def split: prod.splits)
  then show ?case
    using Cons by (auto split: if_splits prod.splits)
qed simp

lemma stepLose_case:
  assumes a: "acct pre m0 a m" "atKey a = key" and row: "Get key (mReg m) \<noteq> None"
    and fresh: "REntry \<notin> coRes ` set (atActions a)"
  shows "case stepLose c entry a m of
      (Go a', m') \<Rightarrow> acct pre' m0 a' m' \<and> atKey a' = key | (Return r, m') \<Rightarrow> settled m0 key r m'"
proof -
  let ?m1 = "m\<lparr> mCap := snd (Own (atKey a) (eGeneration entry) (mCap m)) \<rparr>"
  obtain us m2 where u: "unwind c a False ?m1 = (us, m2)" by (cases "unwind c a False ?m1")
  from unwindLoop_account [OF u [unfolded unwind_def]] obtain gave where
    g: "mExt m2 = mExt m @ map (\<lambda>(x, ok). Gave x ok) gave"
      "map fst gave = map coRes (filter (\<lambda>x. \<not> coShared x) (rev (atActions a)))"
      "us = map (\<lambda>y. NotReleased (fst y)) (filter (\<lambda>y. \<not> snd y) gave)" by auto
  have reg: "mReg m2 = mReg m"
    using unwind_own_registry [OF u [unfolded unwind_def]] fresh by simp
  let ?taken = "map coRes (atActions a)"
  have ext: "mExt m2 = mExt m0 @ map Took ?taken @ map (\<lambda>(x, ok). Gave x ok) gave"
    using a(1) g(1) by (simp add: acct_def comp_def)
  have cover: "x \<in> fst ` set gave \<or> x \<in> {RAdmission, RWorkspace}" if x: "x \<in> set ?taken" for x
  proof -
    obtain y where y: "y \<in> set (atActions a)" "x = coRes y" using x by auto
    show ?thesis
    proof (cases "coShared y")
      case True
      then show ?thesis using y a(1) by (auto simp: acct_def)
    next
      case False
      then have "x \<in> set (map coRes (filter (\<lambda>x. \<not> coShared x) (rev (atActions a))))" using y by auto
      then show ?thesis using arg_cong [OF g(2), of set] by auto
    qed
  qed
  have unrel: "NotReleased x \<in> set us" if "(x, False) \<in> set gave" for x
    using that by (force simp: g(3))
  have allok: "us = [] \<Longrightarrow> \<forall>y\<in>set gave. snd y"
    using g(3) by (auto simp: filter_empty_conv)
  have errs: "settled m0 key (Inl \<lparr> aeStep = StepInstall, aeCode = code, aeBuild = b, aeUnreleased = us @ more \<rparr>) m2"
    for code b more
    unfolding settled_def
    by (rule exI [of _ ?taken], rule exI [of _ gave]) (use ext cover unrel row reg in auto)
  have succ: "us = [] \<Longrightarrow> \<not> rsAttached res \<Longrightarrow> settled m0 key (Inr res) m2" for res
    unfolding settled_def
    by (rule exI [of _ ?taken], rule exI [of _ gave]) (use ext cover allok in fastforce)
  show ?thesis
  proof (cases "existingResidency c entry (atKey a) (atRequest a)")
    case (Inl e)
    then show ?thesis using u errs by (simp add: stepLose_def Let_def)
  next
    case (Inr res)
    then have "\<not> rsAttached res" by (auto simp: existingResidency_def split: if_splits)
    then show ?thesis
      using u Inr succ errs [of None "[]" "[]"] by (simp add: stepLose_def Let_def)
  qed
qed

lemma stepInstall_ok: "stepOK True False m0 key (stepInstall c)"
proof (rule stepOK_I)
  fix a m assume a: "acct True m0 a m" "atKey a = key"
  let ?m = "env c PInstall m"
  let ?adm = "\<lparr> aAgentID = rqAgentID (atRequest a), aTarget = ltHandle (stTarget (atTarget a)),
               aCompatibilityID = stCompatibility (atTarget a), aRuntime = atRuntime a,
               aLeaseEpoch = atEpoch a \<rparr>"
  have e: "acct True m0 a ?m" by (rule acct_cong [OF a(1)]) simp_all
  obtain entry won reg where ins: "Insert (atKey a) ?adm (cNow c) (mReg ?m) = ((entry, won), reg)"
    by (metis prod.collapse)
  show "case stepInstall c a m of (Go a', m') \<Rightarrow> acct False m0 a' m' \<and> atKey a' = key
      | (Return r, m') \<Rightarrow> settled m0 key r m'"
  proof (cases won)
    case False
    then have "Get key (mReg ?m) \<noteq> None"
      using ins a(2) by (auto simp: Insert_def Get_def Let_def split: option.splits)
    from stepLose_case [OF e a(2) this, of False c entry] a(1) False ins show ?thesis
      by (simp add: stepInstall_def acct_def)
  next
    case True
    let ?a = "(own REntry a)\<lparr> atGeneration := eGeneration entry \<rparr>"
    have n: "acct False m0 ?a (took REntry (?m\<lparr> mReg := reg \<rparr>)\<lparr> mCap := cap \<rparr>)" for cap
      by (rule acct_cong [OF acct_own [OF e, where pre' = False, of REntry]]) simp_all
    obtain owned cap where o: "Own (atKey a) (eGeneration entry) (mCap (took REntry (?m\<lparr> mReg := reg \<rparr>))) = (owned, cap)"
      by (metis prod.collapse)
    show ?thesis
      using a True ins n [of cap] o failAt_case [OF n [of cap]]
      by (cases owned) (simp_all add: stepInstall_def Let_def)
  qed
qed

lemma publishAt_acct:
  assumes "acct pre m0 a m" "publishAt c residency accepting a m = (ok, a', m')"
  shows "acct pre m0 a' m' \<and> atKey a' = atKey a"
  using assms acct_cong [OF assms(1)] by (auto simp: publishAt_def split: prod.splits)

lemma stepPublish_ok: "stepOK False False m0 key (stepPublish c)"
proof (rule stepOK_I)
  fix a m assume a: "acct False m0 a m" "atKey a = key"
  let ?a = "a\<lparr> atFence := grantAt c FPublish (atFence a) \<rparr>"
  obtain ok a' m' where p: "publishAt c ResidencyAttaching False ?a m = (ok, a', m')"
    by (metis prod.collapse)
  have "acct False m0 ?a m" by (rule acct_cong [OF a(1)]) simp_all
  note q = publishAt_acct [OF this p]
  show "case stepPublish c a m of (Go a', m') \<Rightarrow> acct False m0 a' m' \<and> atKey a' = key
      | (Return r, m') \<Rightarrow> settled m0 key r m'"
    using a p q failAt_case [OF q [THEN conjunct1]]
      acct_own [OF q [THEN conjunct1], of False RTombstone]
    by (simp add: stepPublish_def)
qed

lemma commit_ext: "mExt (snd (commit a m)) = mExt m"
  by (simp add: commit_def)

lemma stepOwnership_ok: "stepOK False False m0 key (stepOwnership c)"
proof (rule stepOK_I)
  fix a m assume a: "acct False m0 a m" "atKey a = key"
  obtain ok m1 where p: "(if cCallsCommit c then commit a (env c POwnership m) else (True, env c POwnership m)) = (ok, m1)"
    by (metis prod.collapse)
  have e: "acct False m0 a m1"
    by (rule acct_cong [OF a(1)])
      (use p commit_ext [of a "env c POwnership m"] in \<open>auto split: if_splits\<close>)
  have o: "acct False m0 ((own ROwnership a)\<lparr> atHandle := h, atAuthority := b \<rparr>) (took ROwnership m1)" for h b
    by (rule acct_cong [OF acct_own [OF e, where pre' = False, of ROwnership]]) simp_all
  show "case stepOwnership c a m of (Go a', m') \<Rightarrow> acct False m0 a' m' \<and> atKey a' = key
      | (Return r, m') \<Rightarrow> settled m0 key r m'"
    unfolding stepOwnership_def p
    using a failAt_case [OF e] o by (cases "cOwnership c ok") simp_all
qed

lemma stepAttached_ok: "stepOK False False m0 key (stepAttached c)"
proof (rule stepOK_I)
  fix a m assume a: "acct False m0 a m" "atKey a = key"
  let ?m = "env c PAttached m" and ?a = "a\<lparr> atFence := grantAt c FAttached (atFence a) \<rparr>"
  have e: "acct False m0 ?a ?m" by (rule acct_cong [OF a(1)]) simp_all
  show "case stepAttached c a m of (Go a', m') \<Rightarrow> acct False m0 a' m' \<and> atKey a' = key
      | (Return r, m') \<Rightarrow> settled m0 key r m'"
  proof (cases "Get (atKey a) (mReg ?m)")
    case None
    then show ?thesis using failAt_case [OF e] by (simp add: stepAttached_def Let_def)
  next
    case (Some live)
    obtain ok a' m1 where p: "publishAt c (residencyOf (eState live))
        (eAccepting live \<and> \<not> Draining (mCap ?m)) ?a ?m = (ok, a', m1)" by (metis prod.collapse)
    note q = publishAt_acct [OF e p]
    have "settled m0 key (Inr res) m2" if "rsAttached res" "mExt m2 = mExt m1" for res m2
      unfolding settled_def
      by (rule exI [of _ "map coRes (atActions a')"], rule exI [of _ "[]"])
        (use q that in \<open>auto simp: acct_def comp_def\<close>)
    then show ?thesis
      using Some p q failAt_case [OF e] failAt_case [OF q [THEN conjunct1]]
      by (auto simp: stepAttached_def Let_def split: option.splits)
  qed
qed

definition resultOK :: "bool \<Rightarrow> Manager \<Rightarrow> Key \<Rightarrow> StepOut \<times> Manager \<Rightarrow> bool" where
  "resultOK pre m0 key x =
     (case x of (Go a, m) \<Rightarrow> acct pre m0 a m \<and> atKey a = key | (Return r, m) \<Rightarrow> settled m0 key r m)"

lemma andThen_ok:
  assumes "resultOK pre m0 key x" "stepOK pre pre' m0 key f"
  shows "resultOK pre' m0 key (andThen x f)"
proof -
  obtain out m where x: "x = (out, m)" by (cases x)
  show ?thesis
  proof (cases out)
    case (Go a)
    then have "acct pre m0 a m" "atKey a = key" using assms(1) x by (simp_all add: resultOK_def)
    then show ?thesis using assms(2) x Go by (simp add: stepOK_def resultOK_def andThen_def)
  next
    case (Return r)
    then show ?thesis using assms(1) x by (simp add: resultOK_def andThen_def)
  qed
qed

lemma afterAdmit_ok:
  assumes "acct True m0 a m" "atKey a = key"
  shows "resultOK False m0 key (afterAdmit c a m)"
proof -
  have "resultOK True m0 key (Go a, m)" using assms by (simp add: resultOK_def)
  note andThen_ok [OF this stepLease_ok [where c = c]]
  note andThen_ok [OF this stepHydrate_ok [where c = c]]
  note andThen_ok [OF this stepMode_ok [where c = c]]
  note andThen_ok [OF this stepWorkspace_ok [where c = c]]
  note andThen_ok [OF this stepDrain_ok [where c = c]]
  note andThen_ok [OF this stepLaunch_ok [where c = c]]
  note andThen_ok [OF this stepInstall_ok [where c = c]]
  note andThen_ok [OF this stepPublish_ok [where c = c]]
  note andThen_ok [OF this stepOwnership_ok [where c = c]]
  note andThen_ok [OF this stepAttached_ok [where c = c]]
  then show ?thesis unfolding afterAdmit_def foldl.simps .
qed

lemma stepAdmit_Go:
  assumes "stepAdmit c key request target m = (Go a, m')"
  shows "acct True m a m'" "atKey a = key" "atRequest a = request" "atTarget a = target"
    "atAuthority a = False" "fst (Admit key (rqAgentID request) (mCap m)) = None"
    "mCap m' = snd (Admit key (rqAgentID request) (mCap m))" "mReg m' = mReg m" "mLog m' = mLog m"
    "mSessions m' = mSessions m" "mOvertaken m' = mOvertaken m" "mPending m' key = Some (atCtx a)"
    "atCtx a = mNextCtx m" "mHost m' = mHost m"
  using assms
  by (auto simp: stepAdmit_def acct_def own_def shared_def took_def Let_def split: if_splits prod.splits option.splits)

lemma settled_forget: "settled m0 key r (forgetPending key ctx m) = settled m0 key r m"
  by (cases r) (simp_all add: settled_def forgetPending_def)

section \<open>What a completed attach went through\<close>

lemma failAt_not_Go [simp]: "failAt c step code a m \<noteq> (Go a', m')"
  by (simp add: failAt_def split: prod.splits)

lemma failAt_not_Inr [simp]: "failAt c step code a m \<noteq> (Return (Inr res), m')"
  by (simp add: failAt_def split: prod.splits)

lemma stepLease_Go:
  assumes "stepLease c a m = (Go a', m')"
  obtains e lost where "cLease c = LeaseGranted e lost" "e \<noteq> 0"
    "a' = (own RLease a)\<lparr> atFence := newEpochFence (Some lost), atEpoch := e \<rparr>" "m' = took RLease m"
  using assms by (auto simp: stepLease_def Let_def split: LeaseAnswer.splits if_splits)

lemma stepHydrate_Go:
  assumes "stepHydrate c a m = (Go a', m')"
  obtains st where "cDurable c = StateLoaded st" "ssNamespace st \<noteq> []"
    "ssExists st \<longrightarrow> ssCompatibilityID st = stCompatibility (atTarget a)"
    "rqMode (atRequest a) = ModeRestore \<longrightarrow> ssExists st" "a' = a\<lparr> atState := st \<rparr>" "m' = m"
  using assms by (auto simp: stepHydrate_def Let_def split: StateAnswer.splits if_splits)

lemma stepMode_Go:
  assumes "stepMode c a m = (Go a', m')"
  obtains "m' = m" "atKey a' = atKey a" "atRequest a' = atRequest a" "atTarget a' = atTarget a"
    "atEpoch a' = atEpoch a" "atFence a' = atFence a"
    "atLaunch a' = (if rqMode (atRequest a) = ModeCreate \<and> ssRigSessionID (atState a) \<noteq> 0 \<and>
        ssRuntimeJournal (atState a) = JournalPresent then ModeRestore else rqMode (atRequest a))"
    "atLaunch a' = ModeCreate \<longrightarrow> ssRigSessionID (atState a) = 0 \<or> ssRuntimeJournal (atState a) = JournalAbsent"
  using assms by (auto simp: stepMode_def Let_def split: RuntimeJournal.splits if_splits)

lemma stepWorkspace_Go:
  assumes "stepWorkspace c a m = (Go a', m')"
  obtains "a' = a" "m' = m" | "a' = shared RWorkspace a" "m' = took RWorkspace m"
  using assms by (auto simp: stepWorkspace_def split: if_splits)

lemma stepDrain_Go:
  assumes "stepDrain c a m = (Go a', m')"
  obtains "a' = a" "m' = env c PDrain m" "\<not> Draining (mCap m')"
  using assms by (auto simp: stepDrain_def Let_def split: if_splits)

lemma stepLaunch_Go:
  assumes "stepLaunch c a m = (Go a', m')"
  obtains rt where "cLaunch c (if atLaunch a = ModeCreate then ModeCreate else ModeRestore) =
      Launched rt (SessionID (atKey a)) (rqAgentID (atRequest a)) False"
    "a' = (own RRuntime a)\<lparr> atRuntime := rt \<rparr>" "m' = took RRuntime m"
  using assms by (auto simp: stepLaunch_def Let_def split: LaunchAnswer.splits if_splits)

lemma stepLose_not_attached:
  "stepLose c entry a m = (Return (Inr res), m') \<Longrightarrow> \<not> rsAttached res"
  by (auto simp: stepLose_def Let_def existingResidency_def split: prod.splits if_splits sum.splits)

lemma stepLose_not_Go [simp]: "stepLose c entry a m \<noteq> (Go a', m')"
  by (auto simp: stepLose_def Let_def split: prod.splits sum.splits)

lemma stepInstall_Go:
  assumes "stepInstall c a m = (Go a', m')"
  obtains e where "entries (mReg (env c PInstall m)) (atKey a) = None"
    "a' = (own REntry a)\<lparr> atGeneration := eGeneration e \<rparr>"
    "entries (mReg m') (atKey a) = Some e" "eAgentID e = rqAgentID (atRequest a)"
    "eCompatibilityID e = stCompatibility (atTarget a)" "eRuntime e = atRuntime a"
    "eLeaseEpoch e = atEpoch a" "eGeneration e \<noteq> 0"
    "ownerOf (mCap m') (atKey a) = Some (eGeneration e)"
    "mLog m' = mLog (env c PInstall m)" "mSessions m' = mSessions (env c PInstall m)"
    "mHost m' = mHost (env c PInstall m)" "mGeneration m' = mGeneration (env c PInstall m)"
proof -
  let ?m = "env c PInstall m"
  let ?adm = "\<lparr> aAgentID = rqAgentID (atRequest a), aTarget = ltHandle (stTarget (atTarget a)),
               aCompatibilityID = stCompatibility (atTarget a), aRuntime = atRuntime a,
               aLeaseEpoch = atEpoch a \<rparr>"
  obtain e won reg where ins: "Insert (atKey a) ?adm (cNow c) (mReg ?m) = ((e, won), reg)"
    by (metis prod.collapse)
  obtain owned cap where o: "Own (atKey a) (eGeneration e) (mCap ?m) = (owned, cap)"
    by (metis prod.collapse)
  have won: won using assms ins by (auto simp: stepInstall_def Let_def split: if_splits)
  have owned: owned and a': "a' = (own REntry a)\<lparr> atGeneration := eGeneration e \<rparr>"
    and m': "m' = (took REntry (?m\<lparr> mReg := reg \<rparr>))\<lparr> mCap := cap \<rparr>"
    using assms ins won o by (auto simp: stepInstall_def Let_def took_def split: if_splits)
  have row: "entries (mReg ?m) (atKey a) = None" "entries reg (atKey a) = Some e"
    "e = newEntry (atKey a) ?adm (nextGeneration (mReg ?m) + 1) (cNow c)"
    using ins won by (auto simp: Insert_def Let_def split: option.splits)
  have own: "fst (Own (atKey a) (eGeneration e) (mCap ?m))" using o owned by simp
  then have "eGeneration e \<noteq> 0" by (simp add: ledger.bind_iff)
  moreover have "ownerOf cap (atKey a) = Some (eGeneration e)"
    using ledger.bind_effect [of "atKey a" "eGeneration e" "mCap ?m" "atKey a"] own o by simp
  ultimately show ?thesis
    using that [of e] row a' m' by (simp add: newEntry_def took_def)
qed

lemma grantStep_lease: "fLease (grantStep g f) = None \<longleftrightarrow> fLease f = None"
  by (cases g) (simp_all add: fenceEnd_def)

lemma grantStep_gone: "held f \<noteq> None \<Longrightarrow> held (grantStep g f) \<noteq> None"
  by (cases g) (auto simp: held_def fenceEnd_def lostReady_def split: option.splits if_splits)

lemma grantStep_ends: "fLease f \<noteq> None \<Longrightarrow> held (grantStep g f) \<noteq> None"
  by (cases g) (auto simp: held_def fenceEnd_def lostReady_def)

text \<open>A fence over a lease that is still held saw nothing happen to its grant.\<close>

lemma grantAt_held:
  assumes "held (grantAt c p f) = None" "fLease f \<noteq> None"
  shows "cGrant c p = [] \<and> held f = None"
proof -
  have gone: "held (fold grantStep gs f') \<noteq> None" if "held f' \<noteq> None" for gs f'
    using that by (induction gs arbitrary: f') (simp_all add: grantStep_gone del: not_None_eq)
  show ?thesis
  proof (cases "cGrant c p")
    case Nil
    then show ?thesis using assms(1) by (simp add: grantAt_def)
  next
    case (Cons g gs)
    then show ?thesis
      using assms gone [OF grantStep_ends [OF assms(2), of g], of gs] by (simp add: grantAt_def)
  qed
qed

lemma publishAt_ok:
  assumes "publishAt c residency accepting a m = (True, a', m')"
  shows "held (atFence a) = None" "a' = a\<lparr> atFence := atFence a' \<rparr>"
    "mLog m' = mLog m @ [PublishResidency (managerObservation m (cNow c) (atKey a) (rqAgentID (atRequest a))
        (stCompatibility (atTarget a)) (atEpoch a) residency accepting)]"
    "m' = m\<lparr> mLog := mLog m' \<rparr>" "mReg m' = mReg m" "mCap m' = mCap m" "mSessions m' = mSessions m"
    "mHost m' = mHost m" "mGeneration m' = mGeneration m" "fLease (atFence a') = fLease (atFence a)"
proof -
  let ?lw = "PublishResidency (managerObservation m (cNow c) (atKey a) (rqAgentID (atRequest a))
        (stCompatibility (atTarget a)) (atEpoch a) residency accepting)"
  obtain err f log where w: "fenceWrite (callStore (cAnswer c) ?lw) (atFence a, mLog m) = (err, f, log)"
    by (metis prod.collapse)
  with assms have r: "err = None" "a' = a\<lparr> atFence := f \<rparr>" "m' = m\<lparr> mLog := log \<rparr>"
    by (auto simp: publishAt_def)
  then show h: "held (atFence a) = None"
    using w fenceWrite_refused [of "atFence a" "callStore (cAnswer c) ?lw" "mLog m"] by force
  then have "log = mLog m @ [?lw]"
    using w fence.runs [of "atFence a" "callStore (cAnswer c) ?lw" "mLog m"] by (simp add: callStore_def)
  with r show "a' = a\<lparr> atFence := atFence a' \<rparr>" "mLog m' = mLog m @ [?lw]" "m' = m\<lparr> mLog := mLog m' \<rparr>"
    "mReg m' = mReg m" "mCap m' = mCap m" "mSessions m' = mSessions m"
    "mHost m' = mHost m" "mGeneration m' = mGeneration m" "fLease (atFence a') = fLease (atFence a)"
    using fenceWrite_lease [of "callStore (cAnswer c) ?lw" "atFence a" "mLog m"] w by simp_all
qed

lemma stepPublish_Go:
  assumes "stepPublish c a m = (Go a', m')"
  obtains f where "a' = own RTombstone (a\<lparr> atFence := f \<rparr>)"
    "held (grantAt c FPublish (atFence a)) = None" "fLease f = fLease (grantAt c FPublish (atFence a))"
    "mLog m' = mLog m @ [PublishResidency (managerObservation m (cNow c) (atKey a) (rqAgentID (atRequest a))
        (stCompatibility (atTarget a)) (atEpoch a) ResidencyAttaching False)]"
    "mReg m' = mReg m" "mCap m' = mCap m" "mSessions m' = mSessions m" "mHost m' = mHost m"
    "mGeneration m' = mGeneration m"
proof -
  let ?a = "a\<lparr> atFence := grantAt c FPublish (atFence a) \<rparr>"
  obtain ok a1 m1 where p: "publishAt c ResidencyAttaching False ?a m = (ok, a1, m1)"
    by (metis prod.collapse)
  with assms have ok: ok and r: "a' = own RTombstone a1" "m' = took RTombstone m1"
    by (auto simp: stepPublish_def split: if_splits)
  note q = publishAt_ok [OF p [unfolded eqTrueI [OF ok]]]
  have "a1 = a\<lparr> atFence := atFence a1 \<rparr>" using q(2) by simp
  then show ?thesis using that [of "atFence a1"] q(1,3,5-) r by (simp add: took_def)
qed

lemma envStep_frame:
  "mLog (envStep op m) = mLog m" "mHost (envStep op m) = mHost m" "mGeneration (envStep op m) = mGeneration m"
  by (cases op; auto simp: CancelAttaches_def PruneResidency_def split: option.splits)+

lemma env_frame [simp]:
  "mLog (env c p m) = mLog m" "mHost (env c p m) = mHost m" "mGeneration (env c p m) = mGeneration m"
proof -
  have "mLog (fold envStep ops m) = mLog m \<and> mHost (fold envStep ops m) = mHost m \<and>
      mGeneration (fold envStep ops m) = mGeneration m" for ops
    by (induction ops arbitrary: m) (simp_all add: envStep_frame)
  then show "mLog (env c p m) = mLog m" "mHost (env c p m) = mHost m" "mGeneration (env c p m) = mGeneration m"
    by (simp_all add: env_def)
qed

lemma commit_frame: "mLog (snd (commit a m)) = mLog m"
  by (simp add: commit_def)

lemma stepOwnership_Go:
  assumes "stepOwnership c a m = (Go a', m')"
  obtains h b where "a' = (own ROwnership a)\<lparr> atHandle := h, atAuthority := b \<rparr>" "mLog m' = mLog m"
proof -
  obtain ok m1 where p: "(if cCallsCommit c then commit a (env c POwnership m) else (True, env c POwnership m)) = (ok, m1)"
    by (metis prod.collapse)
  have "mLog m1 = mLog m"
    using p commit_frame [of a "env c POwnership m"] by (auto split: if_splits)
  then show ?thesis
    using assms that unfolding stepOwnership_def p by (cases "cOwnership c ok") (auto simp: took_def)
qed

lemma stepAttached_result:
  assumes "stepAttached c a m = (Return (Inr res), m')"
  obtains live ob where "Get (atKey a) (mReg m') = Some live" "eGeneration live = atGeneration a"
    "held (grantAt c FAttached (atFence a)) = None" "mLog m' = mLog m @ [PublishResidency ob]"
    "obResidency ob = residencyOf (eState live)" "obLeaseEpoch ob = atEpoch a"
    "obAccepting ob \<longleftrightarrow> eAccepting live \<and> \<not> Draining (mCap m')"
    "obTenantID ob = TenantID (atKey a)" "obSessionID ob = SessionID (atKey a)"
    "mSessions m' = (mSessions (env c PAttached m))(atKey a \<mapsto>
       \<lparr> srGeneration = atGeneration a, srCtx = atCtx a, srOwnership = atHandle a \<rparr>)"
    "\<And>older. mSessions (env c PAttached m) (atKey a) = Some older \<Longrightarrow> srGeneration older \<noteq> atGeneration a \<Longrightarrow>
       mOvertaken m' (atKey a, srGeneration older) = Some older"
    "rsGeneration res = atGeneration a" "rsRuntime res = atRuntime a" "rsLeaseEpoch res = atEpoch a"
    "rsKey res = atKey a" "rsCompatibilityID res = stCompatibility (atTarget a)"
    "rsAgentID res = rqAgentID (atRequest a)"
proof -
  let ?m = "env c PAttached m" and ?a = "a\<lparr> atFence := grantAt c FAttached (atFence a) \<rparr>"
  obtain live where live: "Get (atKey a) (mReg ?m) = Some live" "eGeneration live = atGeneration a"
    using assms by (auto simp: stepAttached_def Let_def split: option.splits if_splits)
  obtain ok a1 m1 where p: "publishAt c (residencyOf (eState live)) (eAccepting live \<and> \<not> Draining (mCap ?m)) ?a ?m = (ok, a1, m1)"
    by (metis prod.collapse)
  have ok: ok using assms live p by (auto simp: stepAttached_def Let_def split: if_splits)
  note q = publishAt_ok [OF p [unfolded eqTrueI [OF ok]]]
  let ?rec = "\<lparr> srGeneration = atGeneration a, srCtx = atCtx a, srOwnership = atHandle a \<rparr>"
  have res: "rsGeneration res = atGeneration a" "rsRuntime res = atRuntime a" "rsLeaseEpoch res = atEpoch a"
    "rsKey res = atKey a" "rsCompatibilityID res = stCompatibility (atTarget a)"
    "rsAgentID res = rqAgentID (atRequest a)"
    using assms live p ok by (auto simp: stepAttached_def Let_def split: option.splits if_splits)
  have m': "mReg m' = mReg m1" "mCap m' = mCap m1" "mLog m' = mLog m1"
    "mSessions m' = (mSessions m1)(atKey a \<mapsto> ?rec)"
    "\<And>older. mSessions m1 (atKey a) = Some older \<Longrightarrow> srGeneration older \<noteq> atGeneration a \<Longrightarrow>
       mOvertaken m' (atKey a, srGeneration older) = Some older"
    using assms live p ok by (auto simp: stepAttached_def Let_def split: option.splits if_splits)
  show ?thesis
    by (rule that [OF _ live(2) _ _ _ _ _ _ _ _ _ res])
      (use live m' q in \<open>auto simp: managerObservation_def\<close>)
qed

lemma andThen_Inr:
  assumes "andThen x f = (Return (Inr res), m')"
  shows "x = (Return (Inr res), m') \<or> (\<exists>a m. x = (Go a, m) \<and> f a m = (Return (Inr res), m'))"
  using assms by (auto simp: andThen_def split: prod.splits StepOut.splits)

lemma andThen_Go:
  assumes "andThen x f = (Go a', m')"
  obtains a m where "x = (Go a, m)" "f a m = (Go a', m')"
  using assms by (auto simp: andThen_def split: prod.splits StepOut.splits)

text \<open>Only the last step reports a session attached.\<close>

definition neverAttached :: "StepOut \<times> Manager \<Rightarrow> bool" where
  "neverAttached x = (\<forall>res m'. x = (Return (Inr res), m') \<longrightarrow> \<not> rsAttached res)"

lemma neverAttached_failAt [simp]: "neverAttached (failAt c step code a m)"
  by (simp add: neverAttached_def)

lemma neverAttached_Go [simp]: "neverAttached (Go a, m)"
  by (simp add: neverAttached_def)

lemma neverAttached_andThen:
  assumes "neverAttached x" "\<And>a m. neverAttached (f a m)"
  shows "neverAttached (andThen x f)"
proof -
  obtain out m where x: "x = (out, m)" by (cases x)
  show ?thesis
    using assms x by (cases out) (simp_all add: andThen_def)
qed

lemma early_steps_neverAttached:
  "neverAttached (stepLease c a m)" "neverAttached (stepHydrate c a m)" "neverAttached (stepMode c a m)"
  "neverAttached (stepWorkspace c a m)" "neverAttached (stepDrain c a m)" "neverAttached (stepLaunch c a m)"
  "neverAttached (stepPublish c a m)" "neverAttached (stepOwnership c a m)"
  by (auto simp: stepLease_def stepHydrate_def stepMode_def stepWorkspace_def stepDrain_def stepLaunch_def
      stepPublish_def stepOwnership_def Let_def
      split: LeaseAnswer.split StateAnswer.split RuntimeJournal.split LaunchAnswer.split
        OwnershipAnswer.split prod.split)

lemma stepInstall_neverAttached: "neverAttached (stepInstall c a m)"
  by (auto simp: stepInstall_def Let_def neverAttached_def dest: stepLose_not_attached
      split: prod.splits if_splits)

lemma afterAdmit_attached:
  assumes "afterAdmit c a m = (Return (Inr res), m')" "rsAttached res"
  obtains a1 m1 a2 m2 a3 m3 a4 m4 a5 m5 a6 m6 a7 m7 a8 m8 a9 m9 where
    "stepLease c a m = (Go a1, m1)" "stepHydrate c a1 m1 = (Go a2, m2)" "stepMode c a2 m2 = (Go a3, m3)"
    "stepWorkspace c a3 m3 = (Go a4, m4)" "stepDrain c a4 m4 = (Go a5, m5)"
    "stepLaunch c a5 m5 = (Go a6, m6)" "stepInstall c a6 m6 = (Go a7, m7)"
    "stepPublish c a7 m7 = (Go a8, m8)" "stepOwnership c a8 m8 = (Go a9, m9)"
    "stepAttached c a9 m9 = (Return (Inr res), m')"
proof -
  let ?x = "foldl (\<lambda>x f. andThen x (f c)) (Go a, m)
     [stepLease, stepHydrate, stepMode, stepWorkspace, stepDrain, stepLaunch, stepInstall,
      stepPublish, stepOwnership]"
  have n: "neverAttached ?x"
    by (simp add: neverAttached_andThen early_steps_neverAttached stepInstall_neverAttached)
  have last: "andThen ?x (stepAttached c) = (Return (Inr res), m')"
    using assms(1) by (simp add: afterAdmit_def)
  then obtain a9 m9 where 9: "?x = (Go a9, m9)" "stepAttached c a9 m9 = (Return (Inr res), m')"
    using andThen_Inr [OF last] n assms(2) unfolding neverAttached_def by blast
  from 9(1) have "foldl (\<lambda>x f. andThen x (f c)) (Go a, m)
     [stepLease, stepHydrate, stepMode, stepWorkspace, stepDrain, stepLaunch, stepInstall,
      stepPublish, stepOwnership] = (Go a9, m9)" by simp
  then show ?thesis
    unfolding foldl.simps
    by (elim andThen_Go) (use that 9(2) in \<open>simp add: andThen_def\<close>)
qed

section \<open>An example attach\<close>

definition example_collab :: Collab where
  "example_collab = \<lparr> cAnswer = (\<lambda>_ _. None), cIdValid = (\<lambda>s. s \<noteq> []), cMaxID = 256,
     cLive = example_live, cRuntimeEpoch = (\<lambda>_. (3, True)), cLease = LeaseGranted 7 False,
     cDurable = StateLoaded \<lparr> ssExists = True, ssNamespace = ''n'', ssCompatibilityID = ''v1'',
       ssRigSessionID = 1, ssRuntimeJournal = JournalPresent, ssHasCheckpoint = True \<rparr>,
     cWorkspace = True, cLaunch = (\<lambda>_. Launched 5 ''s'' ''a'' False), cCallsCommit = True,
     cOwnership = (\<lambda>ok. if ok then OwnershipBegun 9 True else OwnershipFailed None),
     cRelease = (\<lambda>_. True), cEnv = (\<lambda>_. []), cGrant = (\<lambda>_. []), cNow = 0 \<rparr>"

definition example_request :: Request where
  "example_request = \<lparr> rqTenantID = ''t'', rqSessionID = ''s'', rqAgentID = ''a'', rqMode = ModeCreate,
     rqCompatibilityID = [], rqPrincipal = \<lparr> prTenantID = ''t'', prActorID = ''u'', prTraceID = [] \<rparr> \<rparr>"

definition example_snapshotTarget :: snapshotTarget where
  "example_snapshotTarget = \<lparr> stTarget = example_target, stCompatibility = ''v1'', stCapabilities = example_caps \<rparr>"

definition example_manager :: Manager where
  "example_manager = \<lparr> mHost = example_host, mGeneration = 1, mReg = New, mCap = example_publisher,
     mLog = [], mSessions = Map.empty, mOvertaken = Map.empty, mPending = Map.empty, mCancelled = [],
     mNextCtx = 0, mExt = [] \<rparr>"

definition example_charged :: CapacityPublisher where
  "example_charged = example_publisher\<lparr> admitted := [Key ''t'' ''s'' \<mapsto>
     \<lparr> adAgent = ''a'', adWeight = 2, adOwner = 0 \<rparr>], consumed := 2 \<rparr>"

lemma example_admit: "Admit (Key ''t'' ''s'') ''a'' example_publisher = (None, example_charged)"
  by (simp add: Admit_def example_publisher_def example_snapshot_def snapshot_def example_live_def
      example_host_def example_target_def example_caps_def placementSupported_def PoolingPermitted_def
      Let_def example_charged_def)

lemma example_charged [simp]:
  "draining example_charged = False"
  "admitted example_charged (Key ''t'' ''s'') = Some \<lparr> adAgent = ''a'', adWeight = 2, adOwner = 0 \<rparr>"
  by (simp_all add: example_charged_def example_publisher_def)

lemma example_attach:
  "\<exists>res m'. attach example_collab (Key ''t'' ''s'') example_request example_snapshotTarget example_manager =
     (Return (Inr res), m') \<and> rsAttached res"
  by (simp add: attach_def stepAdmit_def example_admit example_collab_def example_request_def
      example_snapshotTarget_def example_manager_def Let_def afterAdmit_def andThen_def
      stepLease_def stepHydrate_def stepMode_def stepWorkspace_def stepDrain_def stepLaunch_def
      stepInstall_def stepPublish_def stepOwnership_def stepAttached_def own_def shared_def took_def
      env_def grantAt_def Draining_def Insert_def New_def newEntry_def Own_def publishAt_def fenceWrite_def
      callStore_def held_def lostReady_def newEpochFence_def commit_def Get_def example_caps_def)

section \<open>Properties\<close>

text \<open>
  C2: a failed attach gives back what it took.  Whatever the collaborators answer and
  whatever other goroutines do between the steps, an attach that returns an error ran a
  compensation for every resource it had taken (admission charge, context, lease,
  refused lease, workspace, runtime, registry entry, published location, ownership),
  after everything it took, and names on the error each one that could not be given
  back.  The only resources it may leave are the admission charge and the workspace,
  and only when it lost the install to a residency that is in the registry.  An attach
  that succeeds keeps all it took; one that is answered an existing residency gave its
  own resources back without failure.
\<close>

theorem attach_gives_back:
  assumes "attach c key request target m = (Return r, m')"
  shows "\<exists>taken gave. mExt m' = mExt m @ map Took taken @ map (\<lambda>(x, ok). Gave x ok) gave \<and>
    (case r of
       Inl e \<Rightarrow>
         (\<forall>x\<in>set taken. x \<in> fst ` set gave \<or>
            (x \<in> {RAdmission, RWorkspace} \<and> aeStep e = StepInstall \<and> Get key (mReg m') \<noteq> None)) \<and>
         (\<forall>x. (x, False) \<in> set gave \<longrightarrow> NotReleased x \<in> set (aeUnreleased e))
     | Inr res \<Rightarrow>
         (if rsAttached res then gave = []
          else (\<forall>x\<in>set taken. (x, True) \<in> set gave \<or> x \<in> {RAdmission, RWorkspace}) \<and>
               (\<forall>y\<in>set gave. snd y)))"
proof -
  have "settled m key r m'"
  proof (cases "stepAdmit c key request target m")
    case (Pair out m1)
    show ?thesis
    proof (cases out)
      case (Go a)
      note adm = stepAdmit_Go [OF Pair [unfolded Go]]
      from afterAdmit_ok [OF adm(1,2), of c] show ?thesis
        using assms Pair Go
        by (auto simp: attach_def resultOK_def settled_forget split: prod.splits StepOut.splits)
    next
      case (Return x)
      then have "mExt m' = mExt m" "\<exists>e. r = Inl e"
        using assms Pair
        by (auto simp: attach_def stepAdmit_def Let_def split: if_splits option.splits prod.splits)
      then show ?thesis
        unfolding settled_def by (intro exI [of _ "[]"]) auto
    qed
  qed
  then show ?thesis by (simp add: settled_def)
qed

theorem attach_gives_back_witness:
  "\<exists>res m' taken. attach example_collab (Key ''t'' ''s'') example_request example_snapshotTarget example_manager =
     (Return (Inr res), m') \<and> mExt m' = map Took taken"
proof -
  obtain res m' where a: "attach example_collab (Key ''t'' ''s'') example_request example_snapshotTarget
      example_manager = (Return (Inr res), m')" "rsAttached res"
    using example_attach by blast
  from attach_gives_back [OF a(1)] a show ?thesis by (auto simp: example_manager_def)
qed

lemma stepAdmit_not_Inr: "stepAdmit c key request target m \<noteq> (Return (Inr res), m')"
  by (auto simp: stepAdmit_def Let_def split: option.splits prod.splits)

lemma attach_Inr:
  assumes "attach c key request target m = (Return (Inr res), m')"
  obtains a m0 mf where "stepAdmit c key request target m = (Go a, m0)"
    "afterAdmit c a m0 = (Return (Inr res), mf)" "m' = forgetPending key (atCtx a) mf"
proof (cases "stepAdmit c key request target m")
  case (Pair out m1)
  show ?thesis
  proof (cases out)
    case (Go a)
    obtain out2 m2 where "afterAdmit c a m1 = (out2, m2)" by (cases "afterAdmit c a m1")
    then show ?thesis using that Go Pair assms by (simp add: attach_def)
  next
    case (Return r)
    then show ?thesis
      using assms Pair stepAdmit_not_Inr [of c key request target m res m'] by (simp add: attach_def)
  qed
qed

text \<open>The locals of an attach that reached the install.\<close>

lemma launched_locals:
  assumes s: "stepLease c a m0 = (Go a1, m1)" "stepHydrate c a1 m1 = (Go a2, m2)" "stepMode c a2 m2 = (Go a3, m3)"
    "stepWorkspace c a3 m3 = (Go a4, m4)" "stepDrain c a4 m4 = (Go a5, m5)" "stepLaunch c a5 m5 = (Go a6, m6)"
  obtains e lost st mode where "cLease c = LeaseGranted e lost" "e \<noteq> 0" "atEpoch a6 = e"
    "atFence a6 = newEpochFence (Some lost)" "atKey a6 = atKey a" "atRequest a6 = atRequest a"
    "atTarget a6 = atTarget a" "mLog m6 = mLog m0"
    "cDurable c = StateLoaded st" "ssNamespace st \<noteq> []"
    "ssExists st \<longrightarrow> ssCompatibilityID st = stCompatibility (atTarget a)"
    "cLaunch c mode = Launched (atRuntime a6) (SessionID (atKey a)) (rqAgentID (atRequest a)) False"
    "mode = ModeCreate \<longrightarrow> rqMode (atRequest a) = ModeCreate \<and>
       (ssRigSessionID st = 0 \<or> ssRuntimeJournal st = JournalAbsent)"
    "rqMode (atRequest a) = ModeRestore \<longrightarrow> mode = ModeRestore \<and> ssExists st"
proof -
  from stepLease_Go [OF s(1)] obtain e lost where
    L: "cLease c = LeaseGranted e lost" "e \<noteq> 0"
      "a1 = (own RLease a)\<lparr> atFence := newEpochFence (Some lost), atEpoch := e \<rparr>" "m1 = took RLease m0" .
  from stepHydrate_Go [OF s(2)] obtain st where
    H: "cDurable c = StateLoaded st" "ssNamespace st \<noteq> []"
      "ssExists st \<longrightarrow> ssCompatibilityID st = stCompatibility (atTarget a1)"
      "rqMode (atRequest a1) = ModeRestore \<longrightarrow> ssExists st" "a2 = a1\<lparr> atState := st \<rparr>" "m2 = m1" .
  have a2: "atKey a2 = atKey a" "atRequest a2 = atRequest a" "atTarget a2 = atTarget a" "atEpoch a2 = e"
    "atFence a2 = newEpochFence (Some lost)" "atState a2 = st" "mLog m2 = mLog m0"
    using H(5,6) L(3,4) by (simp_all add: own_def took_def)
  have M: "mLog m3 = mLog m0" "atKey a3 = atKey a" "atRequest a3 = atRequest a" "atTarget a3 = atTarget a"
    "atEpoch a3 = e" "atFence a3 = newEpochFence (Some lost)"
    "atLaunch a3 = ModeCreate \<longrightarrow> rqMode (atRequest a) = ModeCreate \<and>
       (ssRigSessionID st = 0 \<or> ssRuntimeJournal st = JournalAbsent)"
    "rqMode (atRequest a) = ModeRestore \<longrightarrow> atLaunch a3 \<noteq> ModeCreate"
    using s(3) a2 by (auto elim!: stepMode_Go split: if_splits)
  have W: "atKey a4 = atKey a3" "atRequest a4 = atRequest a3" "atTarget a4 = atTarget a3"
      "atFence a4 = atFence a3" "atEpoch a4 = atEpoch a3" "atLaunch a4 = atLaunch a3" "mLog m4 = mLog m3"
    using s(4) by (auto elim!: stepWorkspace_Go simp: shared_def took_def)
  have D: "a5 = a4" "mLog m5 = mLog m4" using s(5) by (auto elim!: stepDrain_Go)
  from stepLaunch_Go [OF s(6)] obtain rt where
    R: "cLaunch c (if atLaunch a5 = ModeCreate then ModeCreate else ModeRestore) =
          Launched rt (SessionID (atKey a5)) (rqAgentID (atRequest a5)) False"
      "a6 = (own RRuntime a5)\<lparr> atRuntime := rt \<rparr>" "m6 = took RRuntime m5" .
  show ?thesis
    by (rule that [of e lost st "if atLaunch a5 = ModeCreate then ModeCreate else ModeRestore"])
      (use L(1,2,3) H(1-4) M W D R in \<open>auto simp: own_def took_def\<close>)
qed

text \<open>
  C29: what an attached session rests on.  When \<open>attach\<close> reports a session attached,
  the lease was granted with a non-zero epoch, and up to the second publication neither was
  the lease lost nor the fence ended by another writer that was told of a later owner; the
  durable state was read, has a namespace and was written by the same runtime build if
  it exists; a runtime was created only where the runtime session is new or its journal
  is known to be empty, and restored otherwise; the runtime launched is bound to this
  session and agent; exactly two locations were published, first \<open>attaching\<close> and not
  accepting, then what the registry row says, both under the lease epoch; and the
  registry row and the session record carry the residency's generation.
\<close>

theorem attach_success:
  assumes "attach c key request target m = (Return (Inr res), m')" "rsAttached res"
  shows "\<exists>st live ob1 ob2 ctx h mode.
    cLease c = LeaseGranted (rsLeaseEpoch res) False \<and> rsLeaseEpoch res \<noteq> 0 \<and>
    cGrant c FPublish = [] \<and> cGrant c FAttached = [] \<and>
    cDurable c = StateLoaded st \<and> ssNamespace st \<noteq> [] \<and>
    (ssExists st \<longrightarrow> ssCompatibilityID st = stCompatibility target) \<and>
    cLaunch c mode = Launched (rsRuntime res) (SessionID key) (rqAgentID request) False \<and>
    (mode = ModeCreate \<longrightarrow> rqMode request = ModeCreate \<and>
       (ssRigSessionID st = 0 \<or> ssRuntimeJournal st = JournalAbsent)) \<and>
    (rqMode request = ModeRestore \<longrightarrow> mode = ModeRestore \<and> ssExists st) \<and>
    mLog m' = mLog m @ [PublishResidency ob1, PublishResidency ob2] \<and>
    obResidency ob1 = ResidencyAttaching \<and> \<not> obAccepting ob1 \<and>
    obLeaseEpoch ob1 = rsLeaseEpoch res \<and> obLeaseEpoch ob2 = rsLeaseEpoch res \<and>
    Get key (mReg m') = Some live \<and> eGeneration live = rsGeneration res \<and>
    obResidency ob2 = residencyOf (eState live) \<and>
    (obAccepting ob2 \<longleftrightarrow> eAccepting live \<and> \<not> Draining (mCap m')) \<and>
    mSessions m' key = Some \<lparr> srGeneration = rsGeneration res, srCtx = ctx, srOwnership = h \<rparr>"
proof -
  from attach_Inr [OF assms(1)] obtain a m0 mf where adm: "stepAdmit c key request target m = (Go a, m0)"
    and af: "afterAdmit c a m0 = (Return (Inr res), mf)" and mf: "m' = forgetPending key (atCtx a) mf" .
  note A = stepAdmit_Go [OF adm]
  from afterAdmit_attached [OF af assms(2)] obtain a1 m1 a2 m2 a3 m3 a4 m4 a5 m5 a6 m6 a7 m7 a8 m8 a9 m9 where
    s: "stepLease c a m0 = (Go a1, m1)" "stepHydrate c a1 m1 = (Go a2, m2)" "stepMode c a2 m2 = (Go a3, m3)"
    "stepWorkspace c a3 m3 = (Go a4, m4)" "stepDrain c a4 m4 = (Go a5, m5)"
    "stepLaunch c a5 m5 = (Go a6, m6)" and t: "stepInstall c a6 m6 = (Go a7, m7)"
    "stepPublish c a7 m7 = (Go a8, m8)" "stepOwnership c a8 m8 = (Go a9, m9)"
    "stepAttached c a9 m9 = (Return (Inr res), mf)" .
  from launched_locals [OF s] obtain e lost st mode where
    L: "cLease c = LeaseGranted e lost" "e \<noteq> 0" "atEpoch a6 = e"
    "atFence a6 = newEpochFence (Some lost)" "atKey a6 = atKey a" "atRequest a6 = atRequest a"
    "atTarget a6 = atTarget a" "mLog m6 = mLog m0"
    and S: "cDurable c = StateLoaded st" "ssNamespace st \<noteq> []"
    "ssExists st \<longrightarrow> ssCompatibilityID st = stCompatibility (atTarget a)"
    "cLaunch c mode = Launched (atRuntime a6) (SessionID (atKey a)) (rqAgentID (atRequest a)) False"
    "mode = ModeCreate \<longrightarrow> rqMode (atRequest a) = ModeCreate \<and>
       (ssRigSessionID st = 0 \<or> ssRuntimeJournal st = JournalAbsent)"
    "rqMode (atRequest a) = ModeRestore \<longrightarrow> mode = ModeRestore \<and> ssExists st" .
  have I: "atFence a7 = atFence a6" "atEpoch a7 = e" "atKey a7 = key" "atRuntime a7 = atRuntime a6"
    "mLog m7 = mLog m"
    using t(1) L A(2,9) by (auto elim!: stepInstall_Go simp: own_def)
  from stepPublish_Go [OF t(2)] obtain f where
    P: "a8 = own RTombstone (a7\<lparr> atFence := f \<rparr>)" "held (grantAt c FPublish (atFence a7)) = None"
      "fLease f = fLease (grantAt c FPublish (atFence a7))"
      "mLog m8 = mLog m7 @ [PublishResidency (managerObservation m7 (cNow c) (atKey a7) (rqAgentID (atRequest a7))
        (stCompatibility (atTarget a7)) (atEpoch a7) ResidencyAttaching False)]" .
  from stepOwnership_Go [OF t(3)] obtain h b where
    O: "a9 = (own ROwnership a8)\<lparr> atHandle := h, atAuthority := b \<rparr>" "mLog m9 = mLog m8" .
  have a9: "atKey a9 = key" "atEpoch a9 = e" "atRuntime a9 = atRuntime a6"
    using I O(1) P(1) by (simp_all add: own_def)
  have l7: "fLease (atFence a7) = Some lost" using I(1) L(4) by (simp add: newEpochFence_def)
  have G: "cGrant c FPublish = []" "held (atFence a7) = None" using grantAt_held [OF P(2)] l7 by simp_all
  have lost: "\<not> lost" using G(2) I(1) L(4) by (simp add: newEpochFence_def held_def lostReady_def split: if_splits)
  from stepAttached_result [OF t(4)] obtain live ob where
    T: "Get (atKey a9) (mReg mf) = Some live" "eGeneration live = atGeneration a9"
    "held (grantAt c FAttached (atFence a9)) = None"
    "mLog mf = mLog m9 @ [PublishResidency ob]"
    "obResidency ob = residencyOf (eState live)" "obLeaseEpoch ob = atEpoch a9"
    "obAccepting ob \<longleftrightarrow> eAccepting live \<and> \<not> Draining (mCap mf)"
    "mSessions mf = (mSessions (env c PAttached m9))(atKey a9 \<mapsto>
       \<lparr> srGeneration = atGeneration a9, srCtx = atCtx a9, srOwnership = atHandle a9 \<rparr>)"
    "rsGeneration res = atGeneration a9" "rsRuntime res = atRuntime a9" "rsLeaseEpoch res = atEpoch a9" .
  have "fLease (atFence a9) \<noteq> None" using P(1,3) O(1) l7 G(1) by (simp add: own_def grantAt_def)
  then have G9: "cGrant c FAttached = []" using grantAt_held [OF T(3)] by simp
  let ?ob1 = "managerObservation m7 (cNow c) (atKey a7) (rqAgentID (atRequest a7))
        (stCompatibility (atTarget a7)) (atEpoch a7) ResidencyAttaching False"
  have fp: "mReg m' = mReg mf" "mCap m' = mCap mf" "mSessions m' = mSessions mf" "mLog m' = mLog mf"
    by (simp_all add: mf forgetPending_def)
  have log: "mLog m' = mLog m @ [PublishResidency ?ob1, PublishResidency ob]"
    using fp(4) T(4) O(2) P(4) I(5) by simp
  have ob1: "obResidency ?ob1 = ResidencyAttaching" "\<not> obAccepting ?ob1" "obLeaseEpoch ?ob1 = e"
    using I(2) by (simp_all add: managerObservation_def)
  show ?thesis
    by (rule exI [of _ st], rule exI [of _ live], rule exI [of _ ?ob1], rule exI [of _ ob],
        rule exI [of _ "atCtx a9"], rule exI [of _ "atHandle a9"], rule exI [of _ mode])
      (use S(3,5,6) T(1) in \<open>simp add: log ob1 fp L(1,2) lost G(1) G9 S(1,2,4) T(2,5-11) a9 A(2,3,4)\<close>)
qed

theorem attach_success_witness:
  "\<exists>res m'. attach example_collab (Key ''t'' ''s'') example_request example_snapshotTarget example_manager =
     (Return (Inr res), m') \<and> rsLeaseEpoch res = 7 \<and> length (mLog m') = 2"
proof -
  obtain res m' where a: "attach example_collab (Key ''t'' ''s'') example_request example_snapshotTarget
      example_manager = (Return (Inr res), m')" "rsAttached res"
    using example_attach by blast
  from attach_success [OF a] a show ?thesis
    by (auto simp: example_collab_def example_manager_def)
qed

text \<open>
  A superseded residency's record is set aside, not lost.  When an attach records
  a session whose older record belongs to another generation, the older residency can
  still be ended by its own generation, which returns the older context and leaves the
  new record in place; ending the new generation returns the new context; and a
  generation with no record ends nothing.  The context is cancelled only when the
  runtime was released.
\<close>

theorem overtaken_residency_still_ends:
  assumes "stepAttached c a m = (Return (Inr res), m')"
    and "mSessions (env c PAttached m) (atKey a) = Some older" "srGeneration older \<noteq> rsGeneration res"
  shows "fst (PruneResidency (atKey a) (srGeneration older) m') = Some (srCtx older) \<and>
    mSessions (snd (PruneResidency (atKey a) (srGeneration older) m')) = mSessions m' \<and>
    fst (PruneResidency (atKey a) (rsGeneration res) m') = Some (atCtx a) \<and>
    mSessions (snd (PruneResidency (atKey a) (rsGeneration res) m')) (atKey a) = None \<and>
    EndResidency (atKey a) (srGeneration older) False m' =
      (True, snd (PruneResidency (atKey a) (srGeneration older) m')) \<and>
    mCancelled (snd (EndResidency (atKey a) (srGeneration older) True m')) = mCancelled m' @ [srCtx older] \<and>
    (\<forall>g. g \<noteq> rsGeneration res \<longrightarrow> mOvertaken m' (atKey a, g) = None \<longrightarrow>
       EndResidency (atKey a) g released m' = (False, m'))"
proof -
  let ?rec = "\<lparr> srGeneration = atGeneration a, srCtx = atCtx a, srOwnership = atHandle a \<rparr>"
  have g: "rsGeneration res = atGeneration a" by (rule stepAttached_result [OF assms(1)])
  have new: "mSessions m' (atKey a) = Some ?rec"
    by (rule stepAttached_result [OF assms(1)]) simp
  have old: "mOvertaken m' (atKey a, srGeneration older) = Some older"
  proof (rule stepAttached_result [OF assms(1)])
    assume "\<And>older. mSessions (env c PAttached m) (atKey a) = Some older \<Longrightarrow>
      srGeneration older \<noteq> atGeneration a \<Longrightarrow> mOvertaken m' (atKey a, srGeneration older) = Some older"
    then show ?thesis using assms(2,3) g by simp
  qed
  have p_old: "PruneResidency (atKey a) (srGeneration older) m' =
      (Some (srCtx older), m'\<lparr> mOvertaken := map_del (atKey a, srGeneration older) (mOvertaken m') \<rparr>)"
    using new old assms(3) g by (auto simp: PruneResidency_def)
  have p_new: "PruneResidency (atKey a) (atGeneration a) m' =
      (Some (atCtx a), m'\<lparr> mSessions := map_del (atKey a) (mSessions m') \<rparr>)"
    using new by (simp add: PruneResidency_def)
  have none: "EndResidency (atKey a) x released m' = (False, m')"
    if "x \<noteq> atGeneration a" "mOvertaken m' (atKey a, x) = None" for x
    using that new by (auto simp: EndResidency_def PruneResidency_def)
  show ?thesis
    using p_old p_new none by (simp add: g EndResidency_def [of _ "srGeneration older"])
qed

definition example_row :: Entry where
  "example_row = newEntry (Key ''t'' ''s'') \<lparr> aAgentID = ''a'', aTarget = 1, aCompatibilityID = ''v1'',
     aRuntime = 5, aLeaseEpoch = 7 \<rparr> 2 0"

definition example_attaching :: Attaching where
  "example_attaching = \<lparr> atKey = Key ''t'' ''s'', atRequest = example_request,
     atTarget = example_snapshotTarget, atCtx = 4, atEpoch = 7, atFence = newEpochFence (Some False),
     atState = \<lparr> ssExists = True, ssNamespace = ''n'', ssCompatibilityID = ''v1'', ssRigSessionID = 1,
       ssRuntimeJournal = JournalPresent, ssHasCheckpoint = True \<rparr>,
     atLaunch = ModeRestore, atRuntime = 5, atGeneration = 2, atHandle = 9, atAuthority = True,
     atActions = [] \<rparr>"

theorem overtaken_residency_still_ends_witness:
  "\<exists>res m'. stepAttached example_collab example_attaching
     (example_manager\<lparr> mReg := \<lparr> entries = [Key ''t'' ''s'' \<mapsto> example_row], nextGeneration = 2 \<rparr>,
        mSessions := [Key ''t'' ''s'' \<mapsto> \<lparr> srGeneration = 1, srCtx = 3, srOwnership = 8 \<rparr>] \<rparr>) = (Return (Inr res), m') \<and>
     fst (PruneResidency (Key ''t'' ''s'') 1 m') = Some 3"
proof -
  let ?m = "example_manager\<lparr> mReg := \<lparr> entries = [Key ''t'' ''s'' \<mapsto> example_row], nextGeneration = 2 \<rparr>,
        mSessions := [Key ''t'' ''s'' \<mapsto> \<lparr> srGeneration = 1, srCtx = 3, srOwnership = 8 \<rparr>] \<rparr>"
  have env: "env example_collab PAttached ?m = ?m" by (simp add: env_def example_collab_def)
  obtain res m' where r: "stepAttached example_collab example_attaching ?m = (Return (Inr res), m')"
    and gen: "rsGeneration res = 2"
    unfolding stepAttached_def env
    by (simp add: Get_def example_attaching_def example_row_def newEntry_def publishAt_def fenceWrite_def
        callStore_def held_def lostReady_def newEpochFence_def grantAt_def example_collab_def Let_def)
  have k: "atKey example_attaching = Key ''t'' ''s''" by (simp add: example_attaching_def)
  have "mSessions (env example_collab PAttached ?m) (atKey example_attaching) =
      Some \<lparr> srGeneration = 1, srCtx = 3, srOwnership = 8 \<rparr>"
    by (simp add: env k)
  from overtaken_residency_still_ends [OF r this] gen r k show ?thesis by simp
qed

end
