(* ===== verification/Consumer.thy ===== *)
theory Consumer
  imports Fence HostConfig "HOL-Library.Sublist"
begin

text \<open>
  The command consumer, \<^verbatim>\<open>internal/commands/consumer.go\<close>: the per-session loop that
  reads accepted commands in acceptance order, processes them and advances the durable
  consumption cursor through the residency's fence (the Guard of theory \<open>Fence\<close>).

  The inbox, the processor, the cursor store's answers and the context are parameters:
  \<open>list\<close> answers a page, \<open>process\<close> handles one command on an arbitrary state (and may
  end the fence), \<open>ctxErr i\<close> says whether the context is done before the \<open>i\<close>-th record,
  \<open>loadErr\<close> and \<open>saveErr\<close> what the cursor store answers.  The durable cursor itself is
  part of the state.  The pass semaphore makes each pass one step.

  Core's command-identifier check is the parameter \<open>idValid\<close>.
\<close>

section \<open>Records\<close>

datatype State =
    StatePending | StateClaimed | StateApplying | StateApplied | StateRejected | StateUnknown string

definition Terminal :: "State \<Rightarrow> bool" where
  "Terminal s = (s = StateApplied \<or> s = StateRejected)"

definition known :: "State \<Rightarrow> bool" where
  "known s = (case s of StateUnknown _ \<Rightarrow> False | _ \<Rightarrow> True)"

record Command =
  cmTenantID :: tenant_id
  cmSessionID :: session_id
  cmCommandID :: string
  cmAcceptedOrder :: u64
  cmState :: State
  cmRuntimeCommandID :: nat

record Outcome =
  ouState :: State
  ouPrefixOwned :: bool

record BlockedCommand =
  bcCommandID :: string
  bcAcceptedOrder :: u64
  bcState :: State
  bcCause :: "Err option"

record PassResult =
  prCursor :: u64
  prExamined :: nat
  prConsumed :: nat
  prMore :: bool
  prBlocked :: "BlockedCommand option"

datatype PageProblem =
    OverLimit | NotAfterCursor | NotMonotonic | ForeignSession | InvalidCommandID
  | UnknownState | DuplicateCommandID

datatype PassError =
    PassErr Err
  | PageError PageProblem int string u64
  | CursorRegression u64 u64
  | ContextDone

section \<open>Page validation\<close>

fun validateRecords ::
  "(string \<Rightarrow> bool) \<Rightarrow> Key \<Rightarrow> u64 \<Rightarrow> nat \<Rightarrow> u64 \<Rightarrow> string set \<Rightarrow> Command list \<Rightarrow> PassError option" where
  "validateRecords idValid key cursor index previous seen [] = None"
| "validateRecords idValid key cursor index previous seen (r # rs) =
     (if cmTenantID r \<noteq> TenantID key \<or> cmSessionID r \<noteq> SessionID key
      then Some (PageError ForeignSession (int index) (cmCommandID r) (cmAcceptedOrder r))
      else if \<not> idValid (cmCommandID r)
      then Some (PageError InvalidCommandID (int index) (cmCommandID r) (cmAcceptedOrder r))
      else if \<not> known (cmState r)
      then Some (PageError UnknownState (int index) (cmCommandID r) (cmAcceptedOrder r))
      else if index = 0 \<and> cmAcceptedOrder r \<le> cursor
      then Some (PageError NotAfterCursor (int index) (cmCommandID r) (cmAcceptedOrder r))
      else if index \<noteq> 0 \<and> cmAcceptedOrder r \<le> previous
      then Some (PageError NotMonotonic (int index) (cmCommandID r) (cmAcceptedOrder r))
      else if cmCommandID r \<in> seen
      then Some (PageError DuplicateCommandID (int index) (cmCommandID r) (cmAcceptedOrder r))
      else validateRecords idValid key cursor (index + 1) (cmAcceptedOrder r)
             (insert (cmCommandID r) seen) rs)"

definition validatePage ::
  "(string \<Rightarrow> bool) \<Rightarrow> Key \<Rightarrow> Command list \<Rightarrow> u64 \<Rightarrow> nat \<Rightarrow> PassError option" where
  "validatePage idValid key page cursor limit =
     (if length page > limit then Some (PageError OverLimit (- 1) [] 0)
      else validateRecords idValid key cursor 0 cursor {} page)"

section \<open>The consumer\<close>

record Consumer =
  coKey :: Key
  coEpoch :: u64
  coBatch :: nat
  coCursor :: u64
  coLoaded :: bool
  coFailures :: nat
  coLast :: PassResult
  coHalted :: bool
  coHint :: bool
  coStopped :: bool

text \<open>
  What \<open>NewConsumer\<close> is given.  Every collaborator is a handle that may be absent; a Host
  that did not come from \<open>hostconfig.New\<close> may have no clock, which \<open>qClock\<close> says.
\<close>

record ConsumerOptions =
  qHost :: "Host option"
  qClock :: bool
  qKey :: Key
  qLeaseEpoch :: u64
  qInbox :: "handle option"
  qCursors :: "handle option"
  qProcessor :: "handle option"
  qFence :: "handle option"

datatype ConsumerError = InvalidConsumerOptions string | UnusableHost "string list"

definition unusable :: "Host \<Rightarrow> bool \<Rightarrow> string list" where
  "unusable h clock =
     (if \<not> clock then [''Clock''] else []) @
     (if hReconcileInterval h \<le> 0 then [''ReconcileInterval''] else []) @
     (if hReconcileBatch h \<le> 0 then [''ReconcileBatch''] else [])"

fun requirePresent :: "(string \<times> bool) list \<Rightarrow> ConsumerError option" where
  "requirePresent [] = None"
| "requirePresent ((field, present) # rest) =
     (if \<not> present then Some (InvalidConsumerOptions field) else requirePresent rest)"

definition emptyPass :: "u64 \<Rightarrow> PassResult" where
  "emptyPass cursor = \<lparr> prCursor = cursor, prExamined = 0, prConsumed = 0, prMore = False, prBlocked = None \<rparr>"

definition NewConsumer :: "ConsumerOptions \<Rightarrow> ConsumerError + Consumer" where
  "NewConsumer q =
     (case qHost q of
        None \<Rightarrow> Inl (InvalidConsumerOptions ''Host'')
      | Some h \<Rightarrow>
          if unusable h (qClock q) \<noteq> [] then Inl (UnusableHost (unusable h (qClock q)))
          else if TenantID (qKey q) = [] \<or> SessionID (qKey q) = [] then Inl (InvalidConsumerOptions ''Key'')
          else if qLeaseEpoch q = 0 then Inl (InvalidConsumerOptions ''LeaseEpoch'')
          else (case requirePresent [(''Inbox'', qInbox q \<noteq> None), (''Cursors'', qCursors q \<noteq> None),
                  (''Processor'', qProcessor q \<noteq> None), (''Fence'', qFence q \<noteq> None)] of
                  Some e \<Rightarrow> Inl e
                | None \<Rightarrow>
                    Inr \<lparr> coKey = qKey q, coEpoch = qLeaseEpoch q, coBatch = nat (hReconcileBatch h),
                      coCursor = 0, coLoaded = False, coFailures = 0, coLast = emptyPass 0,
                      coHalted = False, coHint = False, coStopped = False \<rparr>))"

text \<open>The state a pass acts on: the Guard, the durable cursor and the processor's state.\<close>

record 'p PassState =
  psGuard :: "epochFence option"
  psCursor :: u64
  psProc :: 'p

text \<open>What the collaborators of one pass answer.\<close>

record 'p Collaborators =
  pcIdValid :: "string \<Rightarrow> bool"
  pcList :: "u64 \<Rightarrow> nat \<Rightarrow> Err + Command list"
  pcProcess :: "Command \<Rightarrow> epochFence option \<times> 'p \<Rightarrow> (Err + Outcome) \<times> epochFence option \<times> 'p"
  pcCtxErr :: "nat \<Rightarrow> bool"
  pcLoadErr :: "Err option"
  pcSaveErr :: "u64 \<Rightarrow> Err option"

definition loadCursor ::
  "'p Collaborators \<Rightarrow> 'p PassState \<Rightarrow> Consumer \<Rightarrow> (PassError + u64) \<times> Consumer" where
  "loadCursor pc ps c =
     (case pcLoadErr pc of
        Some e \<Rightarrow> (Inl (PassErr e), c)
      | None \<Rightarrow>
          (let stored = psCursor ps in
           if coLoaded c \<and> stored < coCursor c then (Inl (CursorRegression stored (coCursor c)), c)
           else (Inr stored, c\<lparr> coCursor := stored, coLoaded := True \<rparr>)))"

definition setCursor :: "u64 \<Rightarrow> Consumer \<Rightarrow> Consumer" where
  "setCursor order c = c\<lparr> coCursor := order, coLoaded := True \<rparr>"

text \<open>
  The loop over a page.  It returns the last order consumed, the result so far and,
  when the context or the fence ended the pass, the error that abandons it.
\<close>

fun passLoop ::
  "'p Collaborators \<Rightarrow> nat \<Rightarrow> Command list \<Rightarrow> u64 \<Rightarrow> PassResult \<Rightarrow> 'p PassState \<Rightarrow>
   PassError option \<times> u64 \<times> PassResult \<times> 'p PassState" where
  "passLoop pc i [] consumed result ps = (None, consumed, result, ps)"
| "passLoop pc i (r # rs) consumed result ps =
     (if Terminal (cmState r)
      then passLoop pc (i + 1) rs (cmAcceptedOrder r) (result\<lparr> prConsumed := prConsumed result + 1 \<rparr>) ps
      else if pcCtxErr pc i then (Some ContextDone, consumed, result, ps)
      else (case guardHeld (psGuard ps) of
              Some e \<Rightarrow> (Some (PassErr e), consumed, result, ps)
            | None \<Rightarrow>
                (case pcProcess pc r (psGuard ps, psProc ps) of
                   (out, g, p) \<Rightarrow>
                     (let ps' = ps\<lparr> psGuard := g, psProc := p \<rparr> in
                      case out of
                        Inl e \<Rightarrow>
                          (None, consumed,
                           result\<lparr> prBlocked := Some \<lparr> bcCommandID = cmCommandID r,
                             bcAcceptedOrder = cmAcceptedOrder r, bcState = cmState r,
                             bcCause = Some e \<rparr> \<rparr>, ps')
                      | Inr outcome \<Rightarrow>
                          if \<not> Terminal (ouState outcome) \<and> \<not> ouPrefixOwned outcome
                          then (None, consumed,
                                result\<lparr> prBlocked := Some \<lparr> bcCommandID = cmCommandID r,
                                  bcAcceptedOrder = cmAcceptedOrder r, bcState = ouState outcome,
                                  bcCause = None \<rparr> \<rparr>, ps')
                          else passLoop pc (i + 1) rs (cmAcceptedOrder r)
                                 (result\<lparr> prConsumed := prConsumed result + 1 \<rparr>) ps'))))"

text \<open>Saving the cursor: a fenced write that moves the durable cursor when the store accepts it.\<close>

definition saveCursor :: "'p Collaborators \<Rightarrow> u64 \<Rightarrow> u64 \<Rightarrow> Err option \<times> u64" where
  "saveCursor pc consumed stored =
     (case pcSaveErr pc consumed of Some e \<Rightarrow> (Some e, stored) | None \<Rightarrow> (None, consumed))"

definition finishPass ::
  "'p Collaborators \<Rightarrow> Consumer \<Rightarrow> u64 \<Rightarrow> nat \<Rightarrow> u64 \<Rightarrow> PassResult \<Rightarrow> 'p PassState \<Rightarrow>
   (PassResult \<times> PassError option) \<times> Consumer \<times> 'p PassState" where
  "finishPass pc c cursor len consumed result ps =
     (let more = (\<lambda>r. r\<lparr> prMore := prBlocked r = None \<and> len = coBatch c \<rparr>) in
      if consumed > cursor
      then (case guardWrite (saveCursor pc consumed) (psGuard ps, psCursor ps) of
              (err, g, stored) \<Rightarrow>
                (let ps' = ps\<lparr> psGuard := g, psCursor := stored \<rparr> in
                 case err of
                   Some e \<Rightarrow> ((result, Some (PassErr e)), c, ps')
                 | None \<Rightarrow> ((more (result\<lparr> prCursor := consumed \<rparr>), None), setCursor consumed c, ps')))
      else ((more result, None), c, ps))"

definition Reconcile ::
  "'p Collaborators \<Rightarrow> Consumer \<Rightarrow> 'p PassState \<Rightarrow>
   (PassResult \<times> PassError option) \<times> Consumer \<times> 'p PassState" where
  "Reconcile pc c ps =
     (if coHalted c then ((emptyPass (coCursor c), None), c, ps)
      else (case guardHeld (psGuard ps) of
              Some e \<Rightarrow> ((emptyPass (coCursor c), Some (PassErr e)), c, ps)
            | None \<Rightarrow>
                (case loadCursor pc ps c of
                   (Inl e, c') \<Rightarrow> ((emptyPass (coCursor c'), Some e), c', ps)
                 | (Inr cursor, c') \<Rightarrow>
                     (case pcList pc cursor (coBatch c') of
                        Inl e \<Rightarrow> ((emptyPass cursor, Some (PassErr e)), c', ps)
                      | Inr page \<Rightarrow>
                          (case validatePage (pcIdValid pc) (coKey c') page cursor (coBatch c') of
                             Some e \<Rightarrow> ((emptyPass cursor, Some e), c', ps)
                           | None \<Rightarrow>
                               (case passLoop pc 0 page cursor
                                       ((emptyPass cursor)\<lparr> prExamined := length page \<rparr>) ps of
                                  (Some e, consumed, result, ps') \<Rightarrow> ((result, Some e), c', ps')
                                | (None, consumed, result, ps') \<Rightarrow>
                                    finishPass pc c' cursor (length page) consumed result ps'))))))"

definition recordPass :: "PassResult \<Rightarrow> PassError option \<Rightarrow> Consumer \<Rightarrow> Consumer" where
  "recordPass result err c =
     (let c' = c\<lparr> coLast := result \<rparr> in
      if err \<noteq> None then c'\<lparr> coFailures := coFailures c' + 1 \<rparr> else c')"

definition Halt :: "Consumer \<Rightarrow> Consumer" where
  "Halt c = c\<lparr> coHalted := True \<rparr>"

text \<open>The hint channel has one slot: a second hint before the first is taken is dropped.\<close>

definition Hint :: "Consumer \<Rightarrow> Consumer" where
  "Hint c = (if coHint c then c else c\<lparr> coHint := True \<rparr>)"

definition Resume :: "Consumer \<Rightarrow> Consumer" where
  "Resume c = Hint (c\<lparr> coHalted := False \<rparr>)"

definition stopConsumer :: "Consumer \<Rightarrow> Consumer" where
  "stopConsumer c = c\<lparr> coStopped := True \<rparr>"

text \<open>The answer of one turn of \<open>Run\<close>: leave, go round at once, or wait for a hint or the timer.\<close>

datatype RunTurn = RunLeave | RunAgain | RunWait

definition runTurn ::
  "'p Collaborators \<Rightarrow> bool \<Rightarrow> Consumer \<Rightarrow> 'p PassState \<Rightarrow> RunTurn \<times> Consumer \<times> 'p PassState" where
  "runTurn pc ctxDone c ps =
     (if ctxDone \<or> coStopped c \<or> guardLost (psGuard ps) then (RunLeave, c, ps)
      else if guardHeld (psGuard ps) \<noteq> None then (RunLeave, c, ps)
      else (case Reconcile pc c ps of
              ((result, err), c', ps') \<Rightarrow>
                (if err = None \<and> prMore result then RunAgain else RunWait,
                 recordPass result err c', ps')))"

text \<open>
  The wait that follows: any of the ready cases may be taken, \<open>runWait\<close> says what each
  does and \<open>wakeReady\<close> which are ready (the timer always is, in time).
\<close>

datatype Wake = WakeCtx | WakeStopped | WakeLost | WakeHint | WakeTimer

definition wakeReady :: "bool \<Rightarrow> Wake \<Rightarrow> Consumer \<Rightarrow> 'p PassState \<Rightarrow> bool" where
  "wakeReady ctxDone w c ps =
     (case w of
        WakeCtx \<Rightarrow> ctxDone
      | WakeStopped \<Rightarrow> coStopped c
      | WakeLost \<Rightarrow> guardLost (psGuard ps)
      | WakeHint \<Rightarrow> coHint c
      | WakeTimer \<Rightarrow> True)"

definition runWait :: "Wake \<Rightarrow> Consumer \<Rightarrow> RunTurn \<times> Consumer" where
  "runWait w c =
     (case w of
        WakeHint \<Rightarrow> (RunAgain, c\<lparr> coHint := False \<rparr>)
      | WakeTimer \<Rightarrow> (RunAgain, c)
      | _ \<Rightarrow> (RunLeave, c))"

section \<open>Lemmas\<close>

definition recordOK :: "(string \<Rightarrow> bool) \<Rightarrow> Key \<Rightarrow> Command \<Rightarrow> bool" where
  "recordOK idValid key r =
     (cmTenantID r = TenantID key \<and> cmSessionID r = SessionID key \<and> idValid (cmCommandID r) \<and>
      known (cmState r))"

lemma validateRecords_None:
  assumes "index = 0 \<longrightarrow> previous = cursor"
  shows "validateRecords idValid key cursor index previous seen rs = None \<longleftrightarrow>
    (\<forall>r\<in>set rs. recordOK idValid key r) \<and> sorted_wrt (<) (previous # map cmAcceptedOrder rs) \<and>
    distinct (map cmCommandID rs) \<and> set (map cmCommandID rs) \<inter> seen = {}"
  using assms
proof (induction rs arbitrary: index previous seen)
  case (Cons r rs)
  show ?case
  proof (cases "recordOK idValid key r \<and> previous < cmAcceptedOrder r \<and> cmCommandID r \<notin> seen")
    case True
    then have "validateRecords idValid key cursor index previous seen (r # rs) =
        validateRecords idValid key cursor (index + 1) (cmAcceptedOrder r) (insert (cmCommandID r) seen) rs"
      using Cons.prems by (auto simp: recordOK_def)
    also have "\<dots> = None \<longleftrightarrow> (\<forall>r\<in>set rs. recordOK idValid key r) \<and>
        sorted_wrt (<) (cmAcceptedOrder r # map cmAcceptedOrder rs) \<and> distinct (map cmCommandID rs) \<and>
        set (map cmCommandID rs) \<inter> insert (cmCommandID r) seen = {}"
      by (rule Cons.IH) simp
    finally show ?thesis using True by (auto intro: order_less_trans)
  next
    case False
    then have "validateRecords idValid key cursor index previous seen (r # rs) \<noteq> None"
      using Cons.prems by (auto simp: recordOK_def not_less)
    then show ?thesis using False by auto
  qed
qed simp

text \<open>A processor that keeps a log of what it was given and what came out.\<close>

type_synonym 'q logged = "(Command \<times> (Err + Outcome)) list \<times> 'q"

definition logging ::
  "(Command \<Rightarrow> epochFence option \<times> 'q \<Rightarrow> (Err + Outcome) \<times> epochFence option \<times> 'q) \<Rightarrow>
   Command \<Rightarrow> epochFence option \<times> 'q logged \<Rightarrow> (Err + Outcome) \<times> epochFence option \<times> 'q logged" where
  "logging f r s =
     (case s of (g, l, q) \<Rightarrow> (case f r (g, q) of (out, g', q') \<Rightarrow> (out, g', l @ [(r, out)], q')))"

definition accepted :: "Err + Outcome \<Rightarrow> bool" where
  "accepted out = (case out of Inl e \<Rightarrow> False | Inr o' \<Rightarrow> Terminal (ouState o') \<or> ouPrefixOwned o')"

text \<open>
  The commands of a page the loop went past, and the log it leaves: every non-terminal
  one was processed and accepted, in order, and at most one more was processed, the one
  that blocked.
\<close>

definition passed ::
  "Command list \<Rightarrow> u64 \<Rightarrow> PassError option \<Rightarrow> u64 \<Rightarrow> PassResult \<Rightarrow> PassResult \<Rightarrow>
   (Command \<times> (Err + Outcome)) list \<Rightarrow> Command list \<Rightarrow> Command list \<Rightarrow> bool" where
  "passed rs consumed err consumed' result result' log dn rest =
     (rs = dn @ rest \<and> consumed' = (if dn = [] then consumed else cmAcceptedOrder (last dn)) \<and>
      prConsumed result' = prConsumed result + length dn \<and> prCursor result' = prCursor result \<and>
      prMore result' = prMore result \<and>
      (err = None \<and> prBlocked result' = None \<longrightarrow> rest = []) \<and>
      (\<exists>acc tail. log = acc @ tail \<and> map fst acc = filter (\<lambda>r. \<not> Terminal (cmState r)) dn \<and>
         (\<forall>x\<in>set acc. accepted (snd x)) \<and>
         (tail = [] \<or> (\<exists>r out rest'. tail = [(r, out)] \<and> rest = r # rest' \<and> \<not> Terminal (cmState r) \<and> \<not> accepted out))))"

lemma passed_Cons:
  assumes "passed rs (cmAcceptedOrder r) err consumed' (result\<lparr> prConsumed := prConsumed result + 1 \<rparr>) result' log dn rest"
  shows "passed (r # rs) consumed err consumed' result result'
    (if Terminal (cmState r) then log else (r, out) # log) (r # dn) rest \<or> \<not> (Terminal (cmState r) \<or> accepted out)"
proof (cases "Terminal (cmState r)")
  case True
  then show ?thesis using assms by (auto simp: passed_def)
next
  case False
  obtain acc tail where l: "log = acc @ tail" "map fst acc = filter (\<lambda>r. \<not> Terminal (cmState r)) dn"
    "\<forall>x\<in>set acc. accepted (snd x)"
    "tail = [] \<or> (\<exists>r out rest'. tail = [(r, out)] \<and> rest = r # rest' \<and> \<not> Terminal (cmState r) \<and> \<not> accepted out)"
    using assms unfolding passed_def by blast
  show ?thesis
  proof (cases "accepted out")
    case True
    have "\<exists>acc' tail'. (r, out) # log = acc' @ tail' \<and>
        map fst acc' = filter (\<lambda>r. \<not> Terminal (cmState r)) (r # dn) \<and> (\<forall>x\<in>set acc'. accepted (snd x)) \<and>
        (tail' = [] \<or> (\<exists>r out rest'. tail' = [(r, out)] \<and> rest = r # rest' \<and> \<not> Terminal (cmState r) \<and> \<not> accepted out))"
      using l True False by (intro exI [of _ "(r, out) # acc"] exI [of _ tail]) auto
    then show ?thesis using assms False unfolding passed_def by simp
  qed (use False in simp)
qed

lemma passLoop_spec:
  assumes "pcProcess pc = logging f"
    and "passLoop pc i rs consumed result ps = (err, consumed', result', ps')"
    and "prBlocked result = None"
  shows "\<exists>log dn rest. passed rs consumed err consumed' result result' log dn rest \<and>
    fst (psProc ps') = fst (psProc ps) @ log \<and> psCursor ps' = psCursor ps"
  using assms(2,3)
proof (induction rs arbitrary: i consumed result ps)
  case Nil
  then show ?case by (intro exI [of _ "[]"]) (auto simp: passed_def)
next
  case (Cons r rs)
  let ?res = "result\<lparr> prConsumed := prConsumed result + 1 \<rparr>"
  have stop: "passed (r # rs) consumed e consumed result result'' [] [] (r # rs)" if "e \<noteq> None" "result'' = result"
    for e :: "PassError option" and result''
    using that by (auto simp: passed_def)
  show ?case
  proof (cases "Terminal (cmState r)")
    case True
    then have "passLoop pc (i + 1) rs (cmAcceptedOrder r) ?res ps = (err, consumed', result', ps')"
      using Cons.prems(1) by simp
    from Cons.IH [OF this] Cons.prems(2) obtain log dn rest where
      "passed rs (cmAcceptedOrder r) err consumed' ?res result' log dn rest"
      "fst (psProc ps') = fst (psProc ps) @ log" "psCursor ps' = psCursor ps" by auto
    then show ?thesis using passed_Cons True by fastforce
  next
    case False
    show ?thesis
    proof (cases "pcCtxErr pc i \<or> guardHeld (psGuard ps) \<noteq> None")
      case True
      then have "err \<noteq> None \<and> consumed' = consumed \<and> result' = result \<and> ps' = ps"
        using Cons.prems(1) False by (auto split: if_splits option.splits)
      then show ?thesis using stop [of err result']
        by (intro exI [of _ "[]"] exI [of _ "r # rs"]) simp
    next
      case ok: False
      obtain l q where pq: "psProc ps = (l, q)" by (cases "psProc ps")
      obtain out g q' where fo: "f r (psGuard ps, q) = (out, g, q')" by (metis prod.collapse)
      let ?ps = "ps\<lparr> psGuard := g, psProc := (l @ [(r, out)], q') \<rparr>"
      have run: "pcProcess pc r (psGuard ps, psProc ps) = (out, g, l @ [(r, out)], q')"
        using assms(1) fo pq by (simp add: logging_def)
      show ?thesis
      proof (cases "accepted out")
        case True
        then have "passLoop pc (i + 1) rs (cmAcceptedOrder r) ?res ?ps = (err, consumed', result', ps')"
          using Cons.prems(1) False ok run by (auto simp: accepted_def split: sum.splits if_splits)
        from Cons.IH [OF this] Cons.prems(2) obtain log dn rest where
          p: "passed rs (cmAcceptedOrder r) err consumed' ?res result' log dn rest"
          and r: "fst (psProc ps') = fst (psProc ?ps) @ log" "psCursor ps' = psCursor ?ps" by auto
        have "passed (r # rs) consumed err consumed' result result' ((r, out) # log) (r # dn) rest"
          using passed_Cons [OF p, of consumed out] False True by simp
        then show ?thesis using r pq by (intro exI [of _ "(r, out) # log"] exI [of _ "r # dn"] exI [of _ rest]) simp
      next
        case rej: False
        then have e: "err = None" "consumed' = consumed" "ps' = ?ps" "prBlocked result' \<noteq> None"
          "prConsumed result' = prConsumed result" "prCursor result' = prCursor result"
          "prMore result' = prMore result"
          using Cons.prems(1) False ok run by (auto simp: accepted_def split: sum.splits if_splits)
        have "passed (r # rs) consumed err consumed' result result' [(r, out)] [] (r # rs)"
          using e rej False unfolding passed_def by auto
        then show ?thesis using e pq
          by (intro exI [of _ "[(r, out)]"] exI [of _ "[]"] exI [of _ "r # rs"]) simp
      qed
    qed
  qed
qed

lemma guardWrite_save:
  assumes "guardWrite (saveCursor pc consumed) (g, stored) = (err, g', stored')"
  shows "stored' = stored \<and> err \<noteq> None \<or>
    stored' = consumed \<and> err = None \<and> guardHeld g = None \<and> g' = g \<and> pcSaveErr pc consumed = None"
proof (cases "guardHeld g = None")
  case True
  then have "err = fst (saveCursor pc consumed stored)" "stored' = snd (saveCursor pc consumed stored)"
    using guard.runs [of g "saveCursor pc consumed" stored] assms by simp_all
  moreover have "g' = g" if "pcSaveErr pc consumed = None"
    using guard.keeps [of g "saveCursor pc consumed" stored] True assms that by (simp add: saveCursor_def)
  ultimately show ?thesis using True by (auto simp: saveCursor_def split: option.splits)
next
  case False
  then show ?thesis using guard.refuses [of g "saveCursor pc consumed" stored] assms by simp
qed

lemma loadCursor_Inr:
  assumes "loadCursor pc ps c = (Inr cursor, c')"
  shows "cursor = psCursor ps" "coBatch c' = coBatch c" "coKey c' = coKey c" "coCursor c' = psCursor ps"
  using assms by (auto simp: loadCursor_def Let_def split: option.splits if_splits)

text \<open>A pass that is turned away changes nothing; any other ran the loop over a conforming page.\<close>

lemma Reconcile_cases:
  assumes "Reconcile pc c ps = ((res, err), c', ps')"
  obtains
    (refused) "ps' = ps" "\<not> prMore res"
  | (ran) page c1 e consumed res1 ps1 where
      "\<not> coHalted c" "guardHeld (psGuard ps) = None"
      "pcList pc (psCursor ps) (coBatch c) = Inr page"
      "validatePage (pcIdValid pc) (coKey c) page (psCursor ps) (coBatch c) = None"
      "passLoop pc 0 page (psCursor ps) ((emptyPass (psCursor ps))\<lparr> prExamined := length page \<rparr>) ps =
         (e, consumed, res1, ps1)"
      "coBatch c1 = coBatch c" "coCursor c1 = psCursor ps"
      "e \<noteq> None \<Longrightarrow> res = res1 \<and> err = e \<and> ps' = ps1 \<and> c' = c1"
      "e = None \<Longrightarrow> finishPass pc c1 (psCursor ps) (length page) consumed res1 ps1 = ((res, err), c', ps')"
proof (cases "coHalted c \<or> guardHeld (psGuard ps) \<noteq> None")
  case True
  then show thesis using assms refused by (auto simp: Reconcile_def emptyPass_def split: if_splits option.splits)
next
  case go: False
  then have ng: "\<not> coHalted c" "guardHeld (psGuard ps) = None" by auto
  obtain lc c1 where lc: "loadCursor pc ps c = (lc, c1)" by (cases "loadCursor pc ps c")
  show thesis
  proof (cases lc)
    case (Inl e)
    then show thesis using assms ng lc by (intro refused) (auto simp: Reconcile_def emptyPass_def)
  next
    case (Inr cursor)
    note lcr = loadCursor_Inr [OF lc [unfolded Inr]]
    show thesis
    proof (cases "pcList pc cursor (coBatch c)")
      case (Inl e)
      then show thesis using assms ng lc Inr lcr by (intro refused) (auto simp: Reconcile_def emptyPass_def)
    next
      case (Inr page)
      note pg = Inr
      show thesis
      proof (cases "validatePage (pcIdValid pc) (coKey c) page cursor (coBatch c)")
        case (Some e)
        then show thesis using assms ng lc \<open>lc = Inr cursor\<close> pg lcr
          by (intro refused) (auto simp: Reconcile_def emptyPass_def)
      next
        case None
        obtain e consumed res1 ps1 where l: "passLoop pc 0 page cursor
            ((emptyPass cursor)\<lparr> prExamined := length page \<rparr>) ps = (e, consumed, res1, ps1)"
          by (metis prod_cases4)
        have fin: "(case e of Some e \<Rightarrow> ((res1, Some e), c1, ps1)
            | None \<Rightarrow> finishPass pc c1 cursor (length page) consumed res1 ps1) = ((res, err), c', ps')"
          using assms ng lc \<open>lc = Inr cursor\<close> pg lcr None l by (auto simp: Reconcile_def split: option.splits)
        show thesis
          by (rule ran [of page e consumed res1 ps1 c1])
            (use ng pg None l lcr fin in \<open>auto split: option.splits\<close>)
      qed
    qed
  qed
qed

lemma finishPass_spec:
  assumes "finishPass pc c cursor len consumed res1 ps1 = ((res, err), c', ps')"
  shows "psProc ps' = psProc ps1"
    and "psCursor ps' = psCursor ps1 \<or> psCursor ps' = consumed \<and> cursor < consumed \<and> err = None"
    and "err = None \<Longrightarrow> prMore res = (prBlocked res1 = None \<and> len = coBatch c) \<and>
      prConsumed res = prConsumed res1 \<and> prBlocked res = prBlocked res1 \<and>
      prCursor res = (if cursor < consumed then consumed else prCursor res1)"
    and "err = None \<Longrightarrow> cursor < consumed \<Longrightarrow> psCursor ps' = consumed \<and> psGuard ps' = psGuard ps1"
    and "err \<noteq> None \<Longrightarrow> prMore res = prMore res1"
    and "coBatch c' = coBatch c \<and> coHalted c' = coHalted c"
    and "\<not> cursor < consumed \<Longrightarrow> psGuard ps' = psGuard ps1 \<and> c' = c"
proof -
  obtain e g stored where w: "guardWrite (saveCursor pc consumed) (psGuard ps1, psCursor ps1) = (e, g, stored)"
    by (cases "guardWrite (saveCursor pc consumed) (psGuard ps1, psCursor ps1)") auto
  note gw = guardWrite_save [OF w]
  have "psProc ps' = psProc ps1 \<and>
    (psCursor ps' = psCursor ps1 \<or> psCursor ps' = consumed \<and> cursor < consumed \<and> err = None) \<and>
    (err = None \<longrightarrow> prMore res = (prBlocked res1 = None \<and> len = coBatch c) \<and>
      prConsumed res = prConsumed res1 \<and> prBlocked res = prBlocked res1 \<and>
      prCursor res = (if cursor < consumed then consumed else prCursor res1)) \<and>
    (err = None \<longrightarrow> cursor < consumed \<longrightarrow> psCursor ps' = consumed \<and> psGuard ps' = psGuard ps1) \<and>
    (err \<noteq> None \<longrightarrow> prMore res = prMore res1) \<and>
    (coBatch c' = coBatch c \<and> coHalted c' = coHalted c) \<and>
    (\<not> cursor < consumed \<longrightarrow> psGuard ps' = psGuard ps1 \<and> c' = c)"
  proof (cases "cursor < consumed")
    case True
    show ?thesis
    proof (cases e)
      case None
      then show ?thesis using assms True w gw by (auto simp: finishPass_def setCursor_def)
    next
      case (Some x)
      then show ?thesis using assms True w gw by (auto simp: finishPass_def)
    qed
  next
    case False
    then show ?thesis using assms by (auto simp: finishPass_def)
  qed
  then show "psProc ps' = psProc ps1"
    and "psCursor ps' = psCursor ps1 \<or> psCursor ps' = consumed \<and> cursor < consumed \<and> err = None"
    and "err = None \<Longrightarrow> prMore res = (prBlocked res1 = None \<and> len = coBatch c) \<and>
      prConsumed res = prConsumed res1 \<and> prBlocked res = prBlocked res1 \<and>
      prCursor res = (if cursor < consumed then consumed else prCursor res1)"
    and "err = None \<Longrightarrow> cursor < consumed \<Longrightarrow> psCursor ps' = consumed \<and> psGuard ps' = psGuard ps1"
    and "err \<noteq> None \<Longrightarrow> prMore res = prMore res1"
    and "coBatch c' = coBatch c \<and> coHalted c' = coHalted c"
    and "\<not> cursor < consumed \<Longrightarrow> psGuard ps' = psGuard ps1 \<and> c' = c" by blast+
qed

text \<open>The documented inbox: at most \<open>limit\<close> records strictly after the cursor, in acceptance order.\<close>

definition inboxOf :: "Command list \<Rightarrow> u64 \<Rightarrow> nat \<Rightarrow> Command list" where
  "inboxOf records cursor limit = take limit (filter (\<lambda>r. cursor < cmAcceptedOrder r) records)"

definition ordered :: "Command list \<Rightarrow> bool" where
  "ordered records = sorted_wrt (<) (map cmAcceptedOrder records)"

lemma inboxOf_prefix:
  assumes "ordered records" "inboxOf records cursor limit = dn @ rest" "dn \<noteq> []"
    and "r \<in> set records" "cursor < cmAcceptedOrder r" "cmAcceptedOrder r \<le> cmAcceptedOrder (last dn)"
  shows "r \<in> set dn"
proof -
  let ?f = "filter (\<lambda>r. cursor < cmAcceptedOrder r) records"
  have f: "?f = dn @ rest @ drop limit ?f"
    using assms(2) unfolding inboxOf_def by (metis append.assoc append_take_drop_id)
  have "sorted_wrt (\<lambda>a b. cmAcceptedOrder a < cmAcceptedOrder b) ?f"
    using assms(1) by (simp add: ordered_def sorted_wrt_map sorted_wrt_filter)
  then have s: "sorted_wrt (\<lambda>a b. cmAcceptedOrder a < cmAcceptedOrder b) (dn @ rest @ drop limit ?f)"
    using f by simp
  have "r \<in> set ?f" using assms(4,5) by simp
  then have "r \<in> set dn \<or> r \<in> set (rest @ drop limit ?f)" using f by (metis Un_iff set_append)
  then show ?thesis
  proof
    assume "r \<in> set (rest @ drop limit ?f)"
    then have "cmAcceptedOrder (last dn) < cmAcceptedOrder r"
      using s assms(3) by (auto simp: sorted_wrt_append)
    then show ?thesis using assms(6) by simp
  qed
qed

lemma validatePage_None:
  "validatePage idValid key page cursor limit = None \<longleftrightarrow>
     length page \<le> limit \<and> (\<forall>r\<in>set page. recordOK idValid key r) \<and>
     sorted_wrt (<) (cursor # map cmAcceptedOrder page) \<and> distinct (map cmCommandID page)"
  using validateRecords_None [of 0 cursor cursor idValid key "{}" page] by (auto simp: validatePage_def)

lemma validateRecords_Some:
  assumes "validateRecords idValid key cursor index previous seen rs = Some e"
    and "index = 0 \<longrightarrow> previous = cursor"
  shows "\<exists>p i. i < length rs \<and>
    e = PageError p (int (index + i)) (cmCommandID (rs ! i)) (cmAcceptedOrder (rs ! i)) \<and>
    validateRecords idValid key cursor index previous seen (take i rs) = None"
  using assms
proof (induction rs arbitrary: index previous seen)
  case (Cons r rs)
  show ?case
  proof (cases "recordOK idValid key r \<and> previous < cmAcceptedOrder r \<and> cmCommandID r \<notin> seen")
    case True
    have step: "validateRecords idValid key cursor index previous seen (r # xs) =
        validateRecords idValid key cursor (index + 1) (cmAcceptedOrder r) (insert (cmCommandID r) seen) xs" for xs
      using Cons.prems(2) True by (auto simp: recordOK_def)
    then obtain p i where "i < length rs"
      "e = PageError p (int (index + 1 + i)) (cmCommandID (rs ! i)) (cmAcceptedOrder (rs ! i))"
      "validateRecords idValid key cursor (index + 1) (cmAcceptedOrder r) (insert (cmCommandID r) seen) (take i rs) = None"
      using Cons.IH [of "index + 1" "cmAcceptedOrder r" "insert (cmCommandID r) seen"] Cons.prems(1) by auto
    then show ?thesis using step [of "take i rs"] by (intro exI [of _ p] exI [of _ "Suc i"]) simp
  next
    case False
    then have "\<exists>p. e = PageError p (int index) (cmCommandID r) (cmAcceptedOrder r)"
      using Cons.prems by (auto simp: recordOK_def not_less split: if_splits)
    then show ?thesis by (auto intro!: exI [of _ 0])
  qed
qed simp

text \<open>What one pass did, over the page it read.\<close>

lemma Reconcile_ran:
  assumes "pcProcess pc = logging f" "Reconcile pc c ps = ((res, err), c', ps')"
  obtains
    (refused) "ps' = ps" "\<not> prMore res"
  | (ran) page log dn rest acc tail where
      "pcList pc (psCursor ps) (coBatch c) = Inr page" "page = dn @ rest"
      "sorted_wrt (<) (psCursor ps # map cmAcceptedOrder page)"
      "fst (psProc ps') = fst (psProc ps) @ log"
      "log = acc @ tail" "map fst acc = filter (\<lambda>r. \<not> Terminal (cmState r)) dn"
      "\<forall>x\<in>set acc. accepted (snd x)"
      "tail = [] \<or> (\<exists>r out rest'. tail = [(r, out)] \<and> rest = r # rest' \<and> \<not> Terminal (cmState r) \<and> \<not> accepted out)"
      "psCursor ps' = psCursor ps \<or> dn \<noteq> [] \<and> psCursor ps' = cmAcceptedOrder (last dn)"
      "prMore res \<Longrightarrow> err = None \<and> rest = [] \<and> length page = coBatch c"
      "prMore res \<Longrightarrow> dn \<noteq> [] \<Longrightarrow> psCursor ps' = cmAcceptedOrder (last dn) \<and>
         prCursor res = psCursor ps' \<and> prConsumed res = length dn"
  using assms(2)
proof (cases rule: Reconcile_cases)
  case refused
  then show thesis by (rule that(1))
next
  case (ran page c1 e consumed res1 ps1)
  let ?res0 = "(emptyPass (psCursor ps))\<lparr> prExamined := length page \<rparr>"
  have b0: "prBlocked ?res0 = None" by (simp add: emptyPass_def)
  obtain log dn rest where p: "passed page (psCursor ps) e consumed ?res0 res1 log dn rest"
    and lg: "fst (psProc ps1) = fst (psProc ps) @ log" and cu: "psCursor ps1 = psCursor ps"
    using passLoop_spec [OF assms(1) ran(5) b0] by blast
  have d: "page = dn @ rest" "consumed = (if dn = [] then psCursor ps else cmAcceptedOrder (last dn))"
    "prConsumed res1 = length dn" "\<not> prMore res1" "e = None \<and> prBlocked res1 = None \<longrightarrow> rest = []"
    using p by (auto simp: passed_def emptyPass_def)
  obtain acc tail where a: "log = acc @ tail" "map fst acc = filter (\<lambda>r. \<not> Terminal (cmState r)) dn"
    "\<forall>x\<in>set acc. accepted (snd x)"
    "tail = [] \<or> (\<exists>r out rest'. tail = [(r, out)] \<and> rest = r # rest' \<and> \<not> Terminal (cmState r) \<and> \<not> accepted out)"
    using p unfolding passed_def by blast
  have srt: "sorted_wrt (<) (psCursor ps # map cmAcceptedOrder page)"
    using ran(4) validatePage_None by blast
  have last: "psCursor ps < cmAcceptedOrder (last dn)" if "dn \<noteq> []"
    using srt d(1) that by auto
  show thesis
  proof (cases e)
    case (Some x)
    then have "res = res1" "ps' = ps1" using ran(8) by auto
    then show thesis using that(2) [OF ran(3) d(1) srt _ a] lg cu d(4) by simp
  next
    case None
    note fp = finishPass_spec [OF ran(9) [OF None]]
    have cursor: "psCursor ps' = psCursor ps \<or> dn \<noteq> [] \<and> psCursor ps' = cmAcceptedOrder (last dn)"
      using fp(2) cu d(2) by auto
    have more: "err = None \<and> rest = [] \<and> length page = coBatch c" if "prMore res"
      using fp(3,5) that d(4,5) None ran(6) by (cases err) auto
    have adv: "psCursor ps' = cmAcceptedOrder (last dn) \<and> prCursor res = psCursor ps' \<and> prConsumed res = length dn"
      if "prMore res" "dn \<noteq> []"
      using fp(3,4) more [OF that(1)] last [OF that(2)] d(2,3) that(2) by auto
    show thesis using that(2) [OF ran(3) d(1) srt _ a cursor more adv] lg fp(1) by simp
  qed
qed

lemma last_of_sorted:
  "sorted_wrt (<) (c # map cmAcceptedOrder (xs @ ys)) \<Longrightarrow> xs \<noteq> [] \<Longrightarrow> c < cmAcceptedOrder (last xs)"
  by auto

lemma sorted_prefix_filter:
  assumes "sorted_wrt (<) (c # map cmAcceptedOrder xs)" "prefix ys xs"
  shows "sorted_wrt (<) (c # map cmAcceptedOrder (filter P ys))"
proof -
  obtain zs where "xs = ys @ zs" using assms(2) by (auto simp: prefix_def)
  then have "\<forall>y\<in>set ys. c < cmAcceptedOrder y" "sorted_wrt (\<lambda>a b. cmAcceptedOrder a < cmAcceptedOrder b) ys"
    using assms(1) by (auto simp: sorted_wrt_append sorted_wrt_map)
  then show ?thesis by (simp add: sorted_wrt_map sorted_wrt_filter)
qed

section \<open>Properties\<close>

text \<open>
  The page validator accepts exactly the conforming pages: at most \<open>limit\<close>
  records, every one of this session with a valid identifier and a known state, orders
  strictly increasing from above the cursor, no command twice.  A refusal of a record
  names its index, identifier and order, and the records before it conform.
\<close>

theorem validatePage_conforming:
  "(validatePage idValid key page cursor limit = None \<longleftrightarrow>
      length page \<le> limit \<and>
      (\<forall>r\<in>set page. cmTenantID r = TenantID key \<and> cmSessionID r = SessionID key \<and>
         idValid (cmCommandID r) \<and> known (cmState r)) \<and>
      sorted_wrt (<) (cursor # map cmAcceptedOrder page) \<and> distinct (map cmCommandID page)) \<and>
   (\<forall>e. length page \<le> limit \<longrightarrow> validatePage idValid key page cursor limit = Some e \<longrightarrow>
      (\<exists>p i. i < length page \<and>
         e = PageError p (int i) (cmCommandID (page ! i)) (cmAcceptedOrder (page ! i)) \<and>
         validatePage idValid key (take i page) cursor limit = None))"
proof -
  have "\<exists>p i. i < length page \<and>
      e = PageError p (int i) (cmCommandID (page ! i)) (cmAcceptedOrder (page ! i)) \<and>
      validatePage idValid key (take i page) cursor limit = None"
    if "length page \<le> limit" "validatePage idValid key page cursor limit = Some e" for e
  proof -
    from that have "validateRecords idValid key cursor 0 cursor {} page = Some e"
      by (simp add: validatePage_def)
    from validateRecords_Some [OF this] show ?thesis using that(1) by (auto simp: validatePage_def)
  qed
  then show ?thesis unfolding validatePage_None recordOK_def by blast
qed

definition example_key :: Key where
  "example_key = Key ''t'' ''s''"

definition example_command :: "string \<Rightarrow> u64 \<Rightarrow> State \<Rightarrow> Command" where
  "example_command i n st = \<lparr> cmTenantID = ''t'', cmSessionID = ''s'', cmCommandID = i,
     cmAcceptedOrder = n, cmState = st, cmRuntimeCommandID = 0 \<rparr>"

definition example_inbox :: "Command list" where
  "example_inbox = [example_command ''a'' 3 StatePending, example_command ''b'' 5 StateApplied,
     example_command ''c'' 8 StatePending]"

lemmas example_records = example_inbox_def example_command_def example_key_def

text \<open>
  C5: a pass skips nothing.  Over an inbox that lists its records in acceptance order
  (its documented behaviour), whatever the processor, context, fence and cursor store
  do, a pass never moves the durable cursor back, and every command it moves past was
  terminal already or was processed in this pass and either ended terminal or left its
  prefix owned.  The commands processed are non-terminal records of the inbox beyond
  the cursor, in acceptance order; the first that is not accepted is the last processed
  and stays beyond the cursor.
\<close>

theorem Reconcile_skips_nothing:
  assumes "pcProcess pc = logging f"
    and "\<And>cursor limit. pcList pc cursor limit = Inr (inboxOf records cursor limit)"
    and "ordered records"
    and "Reconcile pc c ps = ((res, err), c', ps')"
  shows "\<exists>log. fst (psProc ps') = fst (psProc ps) @ log \<and>
    psCursor ps \<le> psCursor ps' \<and>
    (\<forall>r\<in>set records. psCursor ps < cmAcceptedOrder r \<and> cmAcceptedOrder r \<le> psCursor ps' \<longrightarrow>
       Terminal (cmState r) \<or> (\<exists>out. (r, out) \<in> set log \<and> accepted out)) \<and>
    (\<forall>x\<in>set log. fst x \<in> set records \<and> \<not> Terminal (cmState (fst x))) \<and>
    sorted_wrt (<) (psCursor ps # map (\<lambda>x. cmAcceptedOrder (fst x)) log) \<and>
    (\<forall>x\<in>set (butlast log). accepted (snd x)) \<and>
    (log \<noteq> [] \<and> \<not> accepted (snd (last log)) \<longrightarrow> psCursor ps' < cmAcceptedOrder (fst (last log)))"
  using assms(1,4)
proof (cases rule: Reconcile_ran)
  case refused
  then show ?thesis by (intro exI [of _ "[]"]) auto
next
  case (ran page log dn rest acc tail)
  have page: "inboxOf records (psCursor ps) (coBatch c) = dn @ rest" using ran(1,2) assms(2) by simp
  have srt: "sorted_wrt (<) (psCursor ps # map cmAcceptedOrder (dn @ rest))" using ran(2,3) by simp
  have mono: "psCursor ps \<le> psCursor ps'" using ran(9) last_of_sorted [OF srt] by auto
  have past: "Terminal (cmState r) \<or> (\<exists>out. (r, out) \<in> set log \<and> accepted out)"
    if "r \<in> set records" "psCursor ps < cmAcceptedOrder r" "cmAcceptedOrder r \<le> psCursor ps'" for r
  proof -
    have "dn \<noteq> []" "psCursor ps' = cmAcceptedOrder (last dn)" using ran(9) that by auto
    then have "r \<in> set dn" using inboxOf_prefix [OF assms(3) page _ that(1,2)] that(3) by simp
    then have "Terminal (cmState r) \<or> r \<in> set (map fst acc)" unfolding ran(6) by simp
    then show ?thesis
    proof
      assume "r \<in> set (map fst acc)"
      then obtain out where "(r, out) \<in> set acc" by auto
      then show ?thesis using ran(5,7) by (intro disjI2 exI [of _ out]) auto
    qed simp
  qed
  have logs: "\<exists>dn'. map fst log = filter (\<lambda>r. \<not> Terminal (cmState r)) dn' \<and> prefix dn' (dn @ rest)"
  proof (cases "tail = []")
    case True
    then show ?thesis using ran(5,6) by (intro exI [of _ dn]) simp
  next
    case False
    then obtain r out rest' where "tail = [(r, out)]" "rest = r # rest'" "\<not> Terminal (cmState r)"
      using ran(8) by blast
    then show ?thesis using ran(5,6) by (intro exI [of _ "dn @ [r]"]) simp
  qed
  then obtain dn' where dn': "map fst log = filter (\<lambda>r. \<not> Terminal (cmState r)) dn'" "prefix dn' (dn @ rest)"
    by blast
  have inbox: "set (dn @ rest) \<subseteq> set records"
    using set_take_subset page unfolding inboxOf_def by (metis filter_is_subset order_trans)
  have sub: "\<forall>x\<in>set log. fst x \<in> set records \<and> \<not> Terminal (cmState (fst x))"
  proof
    fix x assume "x \<in> set log"
    then have "fst x \<in> set (filter (\<lambda>r. \<not> Terminal (cmState r)) dn')" by (simp flip: dn'(1))
    then show "fst x \<in> set records \<and> \<not> Terminal (cmState (fst x))"
      using inbox set_mono_prefix [OF dn'(2)] by auto
  qed
  have ord: "sorted_wrt (<) (psCursor ps # map (\<lambda>x. cmAcceptedOrder (fst x)) log)"
  proof -
    have "map (\<lambda>x. cmAcceptedOrder (fst x)) log = map cmAcceptedOrder (map fst log)" by simp
    then show ?thesis using sorted_prefix_filter [OF srt dn'(2)] unfolding dn'(1) by metis
  qed
  have but: "\<forall>x\<in>set (butlast log). accepted (snd x)"
  proof -
    have "butlast tail = []" using ran(8) by auto
    then have "set (butlast log) \<subseteq> set acc"
      unfolding ran(5) by (auto simp: butlast_append dest: in_set_butlastD)
    then show ?thesis using ran(7) by blast
  qed
  have stay: "psCursor ps' < cmAcceptedOrder (fst (last log))" if "log \<noteq> []" "\<not> accepted (snd (last log))"
  proof -
    have "tail \<noteq> []" using that ran(5,7) by auto
    then obtain r out rest' where t: "tail = [(r, out)]" "rest = r # rest'" using ran(8) by blast
    then have "psCursor ps < cmAcceptedOrder r" "dn \<noteq> [] \<Longrightarrow> cmAcceptedOrder (last dn) < cmAcceptedOrder r"
      using srt by (auto simp: sorted_wrt_append)
    then show ?thesis using ran(5,9) t by auto
  qed
  show ?thesis
    by (intro exI [of _ log] conjI ballI impI) (use ran(4) mono past sub ord but stay in simp_all)
qed

text \<open>A processor that accepts everything but one command, which it cannot handle yet.\<close>

definition example_process ::
  "string \<Rightarrow> Command \<Rightarrow> epochFence option \<times> unit \<Rightarrow> (Err + Outcome) \<times> epochFence option \<times> unit" where
  "example_process stuck r s =
     (case s of (g, u) \<Rightarrow>
        (Inr \<lparr> ouState = if cmCommandID r = stuck then StateClaimed else StateApplied, ouPrefixOwned = False \<rparr>,
         g, u))"

definition example_collaborators :: "string \<Rightarrow> unit logged Collaborators" where
  "example_collaborators stuck =
     \<lparr> pcIdValid = \<lambda>i. i \<noteq> [], pcList = \<lambda>cursor limit. Inr (inboxOf example_inbox cursor limit),
       pcProcess = logging (example_process stuck), pcCtxErr = \<lambda>_. False, pcLoadErr = None,
       pcSaveErr = \<lambda>_. None \<rparr>"

definition example_consumer :: Consumer where
  "example_consumer = \<lparr> coKey = example_key, coEpoch = 4, coBatch = 2, coCursor = 0, coLoaded = False,
     coFailures = 0, coLast = emptyPass 0, coHalted = False, coHint = False, coStopped = False \<rparr>"

definition example_pass :: "unit logged PassState" where
  "example_pass = \<lparr> psGuard = Some (newEpochFence (Some False)), psCursor = 2, psProc = ([], ()) \<rparr>"

lemmas example_defs = example_records example_process_def example_collaborators_def example_consumer_def
  example_pass_def

lemma example_ordered: "ordered example_inbox"
  by (simp add: ordered_def example_records)

lemma example_held: "guardHeld (Some (newEpochFence (Some False))) = None"
  by (simp add: guardHeld_def held_def newEpochFence_def lostReady_def)

lemma example_save:
  "pcSaveErr pc n = None \<Longrightarrow>
   guardWrite (saveCursor pc n) (Some (newEpochFence (Some False)), m) = (None, Some (newEpochFence (Some False)), n)"
  using guard.runs [of "Some (newEpochFence (Some False))" "saveCursor pc n" m]
    guard.keeps [of "Some (newEpochFence (Some False))" "saveCursor pc n" m] example_held
  by (cases "guardWrite (saveCursor pc n) (Some (newEpochFence (Some False)), m)") (simp add: saveCursor_def)

lemma example_blocked:
  "snd (snd (Reconcile (example_collaborators ''c'') (example_consumer\<lparr> coBatch := 3 \<rparr>) example_pass)) =
     example_pass\<lparr> psCursor := 5,
       psProc := ([(example_command ''a'' 3 StatePending, Inr \<lparr> ouState = StateApplied, ouPrefixOwned = False \<rparr>),
         (example_command ''c'' 8 StatePending, Inr \<lparr> ouState = StateClaimed, ouPrefixOwned = False \<rparr>)], ()) \<rparr>"
  by (simp add: Reconcile_def example_held example_save loadCursor_def validatePage_def example_defs inboxOf_def
      logging_def known_def Terminal_def finishPass_def emptyPass_def)

theorem Reconcile_skips_nothing_witness:
  "let ps' = snd (snd (Reconcile (example_collaborators ''c'') (example_consumer\<lparr> coBatch := 3 \<rparr>) example_pass)) in
   psCursor ps' = 5 \<and>
   (\<exists>log. fst (psProc ps') = log \<and>
     (\<forall>r\<in>set example_inbox. 2 < cmAcceptedOrder r \<and> cmAcceptedOrder r \<le> 5 \<longrightarrow>
        Terminal (cmState r) \<or> (\<exists>out. (r, out) \<in> set log \<and> accepted out)))"
proof -
  let ?pc = "example_collaborators ''c''" and ?c = "example_consumer\<lparr> coBatch := 3 \<rparr>"
  obtain res err c' ps' where r: "Reconcile ?pc ?c example_pass = ((res, err), c', ps')"
    by (metis prod.collapse)
  then have "psCursor ps' = 5" using example_blocked by simp
  then show ?thesis
    using Reconcile_skips_nothing [of ?pc "example_process ''c''" example_inbox, OF _ _ example_ordered r] r
    by (simp add: example_collaborators_def example_pass_def)
qed

lemma NewConsumer_fields:
  assumes "NewConsumer q = Inr c"
  shows "0 < coBatch c \<and> coEpoch c \<noteq> 0 \<and> TenantID (coKey c) \<noteq> [] \<and> SessionID (coKey c) \<noteq> [] \<and>
    \<not> coHalted c \<and> \<not> coStopped c \<and> coEpoch c = qLeaseEpoch q \<and> coKey c = qKey q"
  using assms
  by (auto simp: NewConsumer_def unusable_def split: option.splits if_splits)

text \<open>
  A pass never asks for another without having moved.  A consumer that
  \<open>NewConsumer\<close> built has a positive batch, and a pass of it that reports more to read
  went past its whole page: it ended without an error, consumed exactly one batch,
  moved the durable cursor strictly forward and reports the cursor it saved.  So the
  loop of \<open>Run\<close> that goes round without waiting never spins on an empty inbox.
\<close>

theorem more_means_progress:
  assumes "NewConsumer q = Inr c0" "coBatch c = coBatch c0"
    and "pcProcess pc = logging f"
    and "Reconcile pc c ps = ((res, err), c', ps')" "prMore res"
  shows "err = None \<and> psCursor ps < psCursor ps' \<and> prCursor res = psCursor ps' \<and>
    prConsumed res = coBatch c \<and> 0 < coBatch c"
  using assms(3,4)
proof (cases rule: Reconcile_ran)
  case refused
  then show ?thesis using assms(5) by simp
next
  case (ran page log dn rest acc tail)
  have b: "0 < coBatch c" using NewConsumer_fields [OF assms(1)] assms(2) by simp
  have m: "err = None" "page = dn" "length page = coBatch c" using ran(10) [OF assms(5)] ran(2) by auto
  then have "dn \<noteq> []" using b by auto
  then show ?thesis using ran(11) [OF assms(5)] last_of_sorted [of "psCursor ps" dn rest] ran(2,3) m b by simp
qed

definition example_consumer_options :: ConsumerOptions where
  "example_consumer_options =
     \<lparr> qHost = Some (example_host\<lparr> hReconcileBatch := 2 \<rparr>), qClock = True, qKey = example_key,
       qLeaseEpoch = 4, qInbox = Some 1, qCursors = Some 1, qProcessor = Some 1, qFence = Some 1 \<rparr>"

lemma example_NewConsumer: "NewConsumer example_consumer_options = Inr example_consumer"
  by (simp add: NewConsumer_def example_consumer_options_def unusable_def example_consumer_def example_key_def
      example_host_def)

lemma example_more:
  "prMore (fst (fst (Reconcile (example_collaborators []) example_consumer example_pass)))"
  by (simp add: Reconcile_def example_held example_save loadCursor_def validatePage_def example_defs inboxOf_def
      logging_def known_def Terminal_def finishPass_def emptyPass_def)

theorem more_means_progress_witness:
  "2 < psCursor (snd (snd (Reconcile (example_collaborators []) example_consumer example_pass)))"
proof -
  obtain res err c' ps' where r: "Reconcile (example_collaborators []) example_consumer example_pass = ((res, err), c', ps')"
    by (metis prod.collapse)
  then have "prMore res" using example_more by simp
  then show ?thesis
    using more_means_progress [OF example_NewConsumer refl _ r] r
    by (simp add: example_collaborators_def example_pass_def)
qed

text \<open>The rounds \<open>Run\<close> makes without waiting, at most \<open>n\<close> of them.\<close>

fun runPasses ::
  "'p Collaborators \<Rightarrow> nat \<Rightarrow> Consumer \<Rightarrow> 'p PassState \<Rightarrow> RunTurn \<times> Consumer \<times> 'p PassState" where
  "runPasses pc 0 c ps = (RunAgain, c, ps)"
| "runPasses pc (Suc n) c ps =
     (case runTurn pc False c ps of
        (RunAgain, c', ps') \<Rightarrow> runPasses pc n c' ps'
      | (t, c', ps') \<Rightarrow> (t, c', ps'))"

text \<open>Collaborators that answer, and a consumer that may go on.\<close>

definition answering :: "'p Collaborators \<Rightarrow> Command list \<Rightarrow> Key \<Rightarrow> bool" where
  "answering pc records key \<longleftrightarrow>
     (\<forall>cursor limit. pcList pc cursor limit = Inr (inboxOf records cursor limit)) \<and>
     ordered records \<and> (\<forall>r\<in>set records. recordOK (pcIdValid pc) key r) \<and> distinct (map cmCommandID records) \<and>
     (\<forall>r\<in>set records. \<forall>g p. accepted (fst (pcProcess pc r (g, p))) \<and> fst (snd (pcProcess pc r (g, p))) = g) \<and>
     (\<forall>i. \<not> pcCtxErr pc i) \<and> pcLoadErr pc = None \<and> (\<forall>n. pcSaveErr pc n = None)"

definition running :: "Consumer \<Rightarrow> 'p PassState \<Rightarrow> bool" where
  "running c ps \<longleftrightarrow> \<not> coHalted c \<and> \<not> coStopped c \<and> 0 < coBatch c \<and> guardHeld (psGuard ps) = None \<and>
     (coLoaded c \<longrightarrow> coCursor c \<le> psCursor ps)"

lemma passLoop_accepting:
  assumes "\<forall>r\<in>set rs. \<forall>g p. accepted (fst (pcProcess pc r (g, p))) \<and> fst (snd (pcProcess pc r (g, p))) = g"
    and "\<And>i. \<not> pcCtxErr pc i" "guardHeld (psGuard ps) = None" "prBlocked res = None"
  shows "\<exists>p. passLoop pc i rs consumed res ps =
    (None, if rs = [] then consumed else cmAcceptedOrder (last rs),
     res\<lparr> prConsumed := prConsumed res + length rs \<rparr>, ps\<lparr> psProc := p \<rparr>)"
  using assms(1,3,4)
proof (induction rs arbitrary: i consumed res ps)
  case Nil
  then show ?case by (intro exI [of _ "psProc ps"]) simp
next
  case (Cons r rs)
  let ?res = "res\<lparr> prConsumed := prConsumed res + 1 \<rparr>"
  show ?case
  proof (cases "Terminal (cmState r)")
    case True
    then show ?thesis using Cons.IH [of ps ?res "i + 1" "cmAcceptedOrder r"] Cons.prems by (auto simp: add.assoc)
  next
    case False
    obtain out g p where o: "pcProcess pc r (psGuard ps, psProc ps) = (out, g, p)" by (metis prod.collapse)
    then have a: "accepted out" "g = psGuard ps" using Cons.prems(1) by (metis fst_conv snd_conv list.set_intros(1))+
    let ?ps = "ps\<lparr> psGuard := g, psProc := p \<rparr>"
    have go: "passLoop pc i (r # rs) consumed res ps = passLoop pc (i + 1) rs (cmAcceptedOrder r) ?res ?ps"
      using False assms(2) Cons.prems(2) o a(1) by (auto simp: accepted_def split: sum.splits)
    obtain p' where "passLoop pc (i + 1) rs (cmAcceptedOrder r) ?res ?ps =
        (None, if rs = [] then cmAcceptedOrder r else cmAcceptedOrder (last rs),
         ?res\<lparr> prConsumed := prConsumed ?res + length rs \<rparr>, ?ps\<lparr> psProc := p' \<rparr>)"
      using Cons.IH [of ?ps ?res "i + 1" "cmAcceptedOrder r"] Cons.prems a(2) by auto
    then show ?thesis using go a(2) by (intro exI [of _ p']) simp
  qed
qed

lemma inboxOf_conforms:
  assumes "ordered records" "\<forall>r\<in>set records. recordOK idValid key r" "distinct (map cmCommandID records)"
  shows "validatePage idValid key (inboxOf records cursor limit) cursor limit = None"
proof -
  let ?f = "filter (\<lambda>r. cursor < cmAcceptedOrder r) records"
  have "set (take limit ?f) \<subseteq> set ?f" by (rule set_take_subset)
  then have sub: "set (take limit ?f) \<subseteq> {r \<in> set records. cursor < cmAcceptedOrder r}" by simp
  have "sorted_wrt (\<lambda>a b. cmAcceptedOrder a < cmAcceptedOrder b) (take limit ?f)"
    using assms(1) by (simp add: ordered_def sorted_wrt_map sorted_wrt_filter sorted_wrt_take)
  moreover have "distinct (map cmCommandID (take limit ?f))"
    using assms(3) by (simp add: distinct_map_filter flip: take_map)
  ultimately show ?thesis using sub assms(2)
    unfolding validatePage_None inboxOf_def by (auto simp: sorted_wrt_map)
qed

lemma Reconcile_answering:
  assumes "answering pc records (coKey c)" "running c ps"
    and "page = inboxOf records (psCursor ps) (coBatch c)"
    and "cur = (if page = [] then psCursor ps else cmAcceptedOrder (last page))"
  shows "\<exists>res c' p. Reconcile pc c ps = ((res, None), c', ps\<lparr> psProc := p, psCursor := cur \<rparr>) \<and>
    prMore res = (length page = coBatch c) \<and> coKey c' = coKey c \<and> coBatch c' = coBatch c \<and>
    running c' (ps\<lparr> psProc := p, psCursor := cur \<rparr>)"
proof -
  note a = assms(1) [unfolded answering_def]
  have v: "validatePage (pcIdValid pc) (coKey c) page (psCursor ps) (coBatch c) = None"
    unfolding assms(3) using a by (intro inboxOf_conforms) auto
  have gt: "psCursor ps < cur" if "page \<noteq> []"
    using v that assms(4) unfolding validatePage_None by auto
  have sub: "set page \<subseteq> set records"
    unfolding assms(3) inboxOf_def using set_take_subset by (metis filter_is_subset order_trans)
  have acc: "\<forall>r\<in>set page. \<forall>g p. accepted (fst (pcProcess pc r (g, p))) \<and> fst (snd (pcProcess pc r (g, p))) = g"
    using a sub by blast
  let ?c = "c\<lparr> coCursor := psCursor ps, coLoaded := True \<rparr>"
  let ?res = "(emptyPass (psCursor ps))\<lparr> prExamined := length page \<rparr>"
  have lc: "loadCursor pc ps c = (Inr (psCursor ps), ?c)"
    using a assms(2) by (auto simp: loadCursor_def running_def Let_def)
  obtain p where l: "passLoop pc 0 page (psCursor ps) ?res ps =
      (None, cur, ?res\<lparr> prConsumed := prConsumed ?res + length page \<rparr>, ps\<lparr> psProc := p \<rparr>)"
    using passLoop_accepting [OF acc, of ps ?res 0 "psCursor ps"] a assms(2,4)
    by (auto simp: running_def emptyPass_def)
  have rec: "Reconcile pc c ps = finishPass pc ?c (psCursor ps) (length page) cur
      (?res\<lparr> prConsumed := prConsumed ?res + length page \<rparr>) (ps\<lparr> psProc := p \<rparr>)"
    using a assms(2,3) lc l v by (simp add: Reconcile_def running_def)
  show ?thesis
  proof (cases "page = []")
    case True
    then show ?thesis using rec assms(2,4) by (auto simp: finishPass_def emptyPass_def running_def)
  next
    case False
    obtain e g st where w: "guardWrite (saveCursor pc cur) (psGuard ps, psCursor ps) = (e, g, st)"
      by (metis prod.collapse)
    have "e = None \<and> st = cur \<and> g = psGuard ps"
      using guard.runs [of "psGuard ps" "saveCursor pc cur" "psCursor ps"]
        guard.keeps [of "psGuard ps" "saveCursor pc cur" "psCursor ps"] a assms(2) w
      by (simp add: saveCursor_def running_def)
    then show ?thesis using rec w gt [OF False] assms(2)
      by (auto simp: finishPass_def emptyPass_def running_def setCursor_def)
  qed
qed

text \<open>A full page leaves strictly fewer records beyond the cursor.\<close>

lemma pending_shrinks:
  assumes "page = inboxOf records cursor limit" "page \<noteq> []" "\<forall>r\<in>set page. cursor < cmAcceptedOrder r"
  shows "length (filter (\<lambda>r. cmAcceptedOrder (last page) < cmAcceptedOrder r) records) <
    length (filter (\<lambda>r. cursor < cmAcceptedOrder r) records)"
proof -
  let ?Q = "\<lambda>r. cmAcceptedOrder (last page) < cmAcceptedOrder r" and ?P = "\<lambda>r. cursor < cmAcceptedOrder r"
  have l: "last page \<in> set page" using assms(2) by simp
  then have lp: "last page \<in> set (filter ?P records)"
    using assms(1) set_take_subset unfolding inboxOf_def by fastforce
  have "cursor < cmAcceptedOrder (last page)" using assms(3) l by blast
  then have "filter ?Q records = filter ?Q (filter ?P records)"
    by (auto intro: filter_cong order_less_trans)
  also have "length \<dots> < length (filter ?P records)"
    using lp by (intro length_filter_less [of "last page"]) auto
  finally show ?thesis .
qed

lemma runPasses_catch_up:
  assumes "answering pc records (coKey c)" "running c ps"
    and "length (filter (\<lambda>r. psCursor ps < cmAcceptedOrder r) records) < n"
  shows "\<exists>c' ps'. runPasses pc n c ps = (RunWait, c', ps') \<and> running c' ps' \<and>
    (\<forall>r\<in>set records. cmAcceptedOrder r \<le> psCursor ps')"
  using assms
proof (induction n arbitrary: c ps)
  case (Suc n)
  define page where "page = inboxOf records (psCursor ps) (coBatch c)"
  define cur where "cur = (if page = [] then psCursor ps else cmAcceptedOrder (last page))"
  obtain res c1 p where r: "Reconcile pc c ps = ((res, None), c1, ps\<lparr> psProc := p, psCursor := cur \<rparr>)"
    and m: "prMore res = (length page = coBatch c)" and k: "coKey c1 = coKey c"
    and ru: "running c1 (ps\<lparr> psProc := p, psCursor := cur \<rparr>)"
    using Reconcile_answering [OF Suc.prems(1,2) page_def cur_def] by auto
  let ?ps = "ps\<lparr> psProc := p, psCursor := cur \<rparr>" and ?c = "recordPass res None c1"
  have g: "guardHeld (psGuard ps) = None" "\<not> coStopped c" using Suc.prems(2) by (auto simp: running_def)
  then have nl: "\<not> guardLost (psGuard ps)"
    by (auto simp: guardHeld_def guardLost_def held_def split: option.splits if_splits)
  have turn: "runTurn pc False c ps = (if prMore res then RunAgain else RunWait, ?c, ?ps)"
    using r g nl by (simp add: runTurn_def)
  have ru': "running ?c ?ps" "coKey ?c = coKey c" using ru k by (auto simp: running_def recordPass_def)
  have above: "\<forall>r\<in>set page. psCursor ps < cmAcceptedOrder r"
    unfolding page_def inboxOf_def using set_take_subset by fastforce
  show ?case
  proof (cases "prMore res")
    case True
    then have ne: "page \<noteq> []" using m Suc.prems(2) by (auto simp: running_def)
    have "length (filter (\<lambda>r. psCursor ?ps < cmAcceptedOrder r) records) < n"
      using pending_shrinks [OF page_def ne above] Suc.prems(3) ne by (simp add: cur_def)
    then show ?thesis using Suc.IH [of ?c ?ps] Suc.prems(1) ru' turn True by simp
  next
    case False
    then have "length page \<noteq> coBatch c" using m by simp
    then have all: "page = filter (\<lambda>r. psCursor ps < cmAcceptedOrder r) records"
      unfolding page_def inboxOf_def by (simp add: min_def split: if_splits)
    have "cmAcceptedOrder x \<le> cur" if "x \<in> set records" for x
    proof (cases "x \<in> set page")
      case True
      have "sorted_wrt (<) (map cmAcceptedOrder page)"
        using Suc.prems(1) unfolding all answering_def ordered_def by (simp add: sorted_wrt_map sorted_wrt_filter)
      then have "cmAcceptedOrder x \<le> cmAcceptedOrder (last page)"
        using True by (cases page rule: rev_cases) (auto simp: sorted_wrt_append sorted_wrt_map order_less_imp_le)
      then show ?thesis using True by (auto simp: cur_def)
    next
      case False
      then have "cmAcceptedOrder x \<le> psCursor ps" using that unfolding all by (simp add: not_less)
      also have "\<dots> \<le> cur" using above by (auto simp: cur_def order_less_imp_le)
      finally show ?thesis .
    qed
    then show ?thesis using turn False ru' by simp
  qed
qed simp

text \<open>
  C33: the inbox is drained.  Over an inbox of conforming records in acceptance order,
  with a processor that accepts every command, a cursor store that answers and a held
  fence, the rounds \<open>Run\<close> makes without waiting are finitely many, at most one more than
  there are records beyond the cursor, and when it waits the durable cursor has passed
  every record.
\<close>

theorem consumer_catches_up:
  assumes "NewConsumer q = Inr c0" "c = c0\<lparr> coCursor := k, coLoaded := b \<rparr>" "b \<longrightarrow> k \<le> psCursor ps"
    and "answering pc records (qKey q)" "guardHeld (psGuard ps) = None"
  shows "\<exists>c' ps'. runPasses pc (length (filter (\<lambda>r. psCursor ps < cmAcceptedOrder r) records) + 1) c ps =
      (RunWait, c', ps') \<and> (\<forall>r\<in>set records. cmAcceptedOrder r \<le> psCursor ps')"
proof -
  have "running c ps" "coKey c = qKey q"
    using NewConsumer_fields [OF assms(1)] assms(2,3,5) by (auto simp: running_def)
  then show ?thesis using runPasses_catch_up [of pc records c ps] assms(4) by fastforce
qed

theorem consumer_catches_up_witness:
  "\<exists>c' ps'. runPasses (example_collaborators []) 4 example_consumer example_pass = (RunWait, c', ps') \<and>
     8 \<le> psCursor ps'"
proof -
  have e: "example_consumer = example_consumer\<lparr> coCursor := 0, coLoaded := False \<rparr>"
    by (simp add: example_consumer_def)
  have a: "answering (example_collaborators []) example_inbox (qKey example_consumer_options)"
    unfolding answering_def using example_ordered
    by (auto simp: example_collaborators_def logging_def example_process_def accepted_def Terminal_def
        example_inbox_def example_command_def recordOK_def known_def example_consumer_options_def example_key_def)
  have n: "length (filter (\<lambda>r. psCursor example_pass < cmAcceptedOrder r) example_inbox) + 1 = 4"
    by (simp add: example_records example_pass_def)
  have g: "guardHeld (psGuard example_pass) = None" using example_held by (simp add: example_pass_def)
  have m: "example_command ''c'' 8 StatePending \<in> set example_inbox" by (simp add: example_inbox_def)
  show ?thesis
    using consumer_catches_up [OF example_NewConsumer e _ a g] m unfolding n
    by (fastforce simp: example_command_def)
qed

text \<open>
  A consumer that is halted or whose epoch is gone does nothing.  Halted, or over
  a fence that is not held, a pass leaves the fence, the durable cursor and the
  processor as they are and never reports more to read; a round of \<open>Run\<close> over a fence
  that is not held, or after \<open>Stop\<close>, leaves without a pass.  When a later owner is
  discovered by the cursor save itself, the cursor stays and every later pass over that
  fence does nothing.  \<open>Resume\<close> undoes \<open>Halt\<close> and leaves a hint for the loop.
\<close>

theorem nothing_after_loss:
  "((coHalted c \<or> guardHeld (psGuard ps) \<noteq> None) \<longrightarrow>
      snd (snd (Reconcile pc c ps)) = ps \<and> \<not> prMore (fst (fst (Reconcile pc c ps))) \<and>
      (coStopped c \<or> guardHeld (psGuard ps) \<noteq> None \<longrightarrow> runTurn pc d c ps = (RunLeave, c, ps))) \<and>
   (psCursor ps < n \<and> guardHeld (psGuard ps) = None \<and> pcSaveErr pc n = Some ErrEpochSuperseded \<longrightarrow>
      (\<exists>ps'. finishPass pc c (psCursor ps) len n res ps = ((res, Some (PassErr ErrEpochSuperseded)), c, ps') \<and>
         psCursor ps' = psCursor ps \<and> psProc ps' = psProc ps \<and>
         (\<forall>pc' c'. snd (snd (Reconcile pc' c' ps')) = ps'))) \<and>
   snd (snd (Reconcile pc (Halt c) ps)) = ps \<and> \<not> coHalted (Resume (Halt c)) \<and> coHint (Resume (Halt c)) \<and>
   runTurn pc d (stopConsumer c) ps = (RunLeave, stopConsumer c, ps)"
proof -
  have idle: "snd (snd (Reconcile pc' c' ps')) = ps' \<and> \<not> prMore (fst (fst (Reconcile pc' c' ps')))"
    if "coHalted c' \<or> guardHeld (psGuard ps') \<noteq> None" for pc' :: "'a Collaborators" and c' ps'
    using that by (auto simp: Reconcile_def emptyPass_def)
  have leave: "runTurn pc d c ps = (RunLeave, c, ps)" if "coStopped c \<or> guardHeld (psGuard ps) \<noteq> None"
    using that by (auto simp: runTurn_def)
  have late: "\<exists>ps'. finishPass pc c (psCursor ps) len n res ps = ((res, Some (PassErr ErrEpochSuperseded)), c, ps') \<and>
      psCursor ps' = psCursor ps \<and> psProc ps' = psProc ps \<and>
      (\<forall>pc' c'. snd (snd (Reconcile (pc' :: 'a Collaborators) c' ps')) = ps')"
    if p: "psCursor ps < n" "guardHeld (psGuard ps) = None" "pcSaveErr pc n = Some ErrEpochSuperseded"
  proof -
    obtain e g st where w: "guardWrite (saveCursor pc n) (psGuard ps, psCursor ps) = (e, g, st)"
      by (metis prod.collapse)
    have e: "e = Some ErrEpochSuperseded" "st = psCursor ps" "guardHeld g \<noteq> None"
      using guard.runs [of "psGuard ps" "saveCursor pc n" "psCursor ps"]
        guard.latches [of "psGuard ps" "saveCursor pc n" "psCursor ps"] p(2,3) w
      by (auto simp: saveCursor_def)
    then show ?thesis using p(1) w idle [of _ "ps\<lparr> psGuard := g, psCursor := st \<rparr>"]
      by (intro exI [of _ "ps\<lparr> psGuard := g, psCursor := st \<rparr>"]) (simp add: finishPass_def)
  qed
  show ?thesis using idle leave late idle [of "Halt c" ps pc]
    by (auto simp: Halt_def Resume_def Hint_def stopConsumer_def runTurn_def)
qed

theorem nothing_after_loss_witness:
  "guardHeld (psGuard (example_pass\<lparr> psGuard := None \<rparr>)) \<noteq> None \<and>
   snd (snd (Reconcile (example_collaborators []) example_consumer (example_pass\<lparr> psGuard := None \<rparr>))) =
     example_pass\<lparr> psGuard := None \<rparr>"
  using nothing_after_loss [of example_consumer "example_pass\<lparr> psGuard := None \<rparr>" "example_collaborators []"]
  by (simp add: guardHeld_def)

section \<open>Processors that settle\<close>

lemma finishPass_moves:
  assumes "finishPass pc c cursor len consumed res1 ps1 = ((res, err), c', ps')" "psCursor ps' \<noteq> psCursor ps1"
  shows "guardHeld (psGuard ps1) = None \<and> psCursor ps' = consumed"
proof -
  obtain e g stored where w: "guardWrite (saveCursor pc consumed) (psGuard ps1, psCursor ps1) = (e, g, stored)"
    by (cases "guardWrite (saveCursor pc consumed) (psGuard ps1, psCursor ps1)") auto
  show ?thesis using guardWrite_save [OF w] assms w
    by (cases e; cases "cursor < consumed") (auto simp: finishPass_def)
qed

text \<open>
  What the cursor rule asks of a processor: when it lets a command pass, the command is
  settled durably, or the fence is lost; a lost fence stays lost; nothing is unsettled.
\<close>

locale settling_processor =
  fixes process :: "Command \<Rightarrow> epochFence option \<times> 'p \<Rightarrow> (Err + Outcome) \<times> epochFence option \<times> 'p"
    and settled :: "Command \<Rightarrow> 'p \<Rightarrow> bool"
  assumes sticky: "process r (g, p) = (out, g', p') \<Longrightarrow> guardHeld g \<noteq> None \<Longrightarrow> guardHeld g' \<noteq> None"
    and settles: "process r (g, p) = (out, g', p') \<Longrightarrow> accepted out \<Longrightarrow> settled r p' \<or> guardHeld g' \<noteq> None"
    and stays: "process r' (g, p) = (out, g', p') \<Longrightarrow> settled r p \<Longrightarrow> settled r p'"
begin

lemma passLoop_settles:
  assumes "pcProcess pc = process"
    and "passLoop pc i rs consumed res ps = (e, consumed', res', ps')"
  shows "\<exists>dn rest. rs = dn @ rest \<and> consumed' = (if dn = [] then consumed else cmAcceptedOrder (last dn)) \<and>
    (guardHeld (psGuard ps') \<noteq> None \<or> (\<forall>r\<in>set dn. Terminal (cmState r) \<or> settled r (psProc ps'))) \<and>
    psCursor ps' = psCursor ps \<and> (guardHeld (psGuard ps) \<noteq> None \<longrightarrow> guardHeld (psGuard ps') \<noteq> None) \<and>
    (\<forall>r. settled r (psProc ps) \<longrightarrow> settled r (psProc ps'))"
  using assms(2)
proof (induction rs arbitrary: i consumed res ps)
  case Nil
  then show ?case by auto
next
  case (Cons r rs)
  let ?res = "res\<lparr> prConsumed := prConsumed res + 1 \<rparr>"
  show ?case
  proof (cases "Terminal (cmState r)")
    case True
    then have "passLoop pc (i + 1) rs (cmAcceptedOrder r) ?res ps = (e, consumed', res', ps')" using Cons.prems by simp
    from Cons.IH [OF this] obtain dn rest where d: "rs = dn @ rest"
      "consumed' = (if dn = [] then cmAcceptedOrder r else cmAcceptedOrder (last dn))"
      "guardHeld (psGuard ps') \<noteq> None \<or> (\<forall>r\<in>set dn. Terminal (cmState r) \<or> settled r (psProc ps'))"
      "psCursor ps' = psCursor ps" "guardHeld (psGuard ps) \<noteq> None \<longrightarrow> guardHeld (psGuard ps') \<noteq> None"
      "\<forall>r. settled r (psProc ps) \<longrightarrow> settled r (psProc ps')" by blast
    then show ?thesis using True by (intro exI [of _ "r # dn"] exI [of _ rest]) simp
  next
    case nt: False
    show ?thesis
    proof (cases "pcCtxErr pc i \<or> guardHeld (psGuard ps) \<noteq> None")
      case True
      then have "consumed' = consumed \<and> ps' = ps" using Cons.prems nt by (auto split: if_splits option.splits)
      then show ?thesis by (intro exI [of _ "[]"] exI [of _ "r # rs"]) simp
    next
      case go: False
      obtain out g p where o: "process r (psGuard ps, psProc ps) = (out, g, p)" by (metis prod.collapse)
      let ?ps = "ps\<lparr> psGuard := g, psProc := p \<rparr>"
      show ?thesis
      proof (cases "accepted out")
        case True
        then have "passLoop pc (i + 1) rs (cmAcceptedOrder r) ?res ?ps = (e, consumed', res', ps')"
          using Cons.prems nt go o assms(1) by (auto simp: accepted_def split: sum.splits if_splits)
        from Cons.IH [OF this] obtain dn rest where d: "rs = dn @ rest"
          "consumed' = (if dn = [] then cmAcceptedOrder r else cmAcceptedOrder (last dn))"
          "guardHeld (psGuard ps') \<noteq> None \<or> (\<forall>r\<in>set dn. Terminal (cmState r) \<or> settled r (psProc ps'))"
          "psCursor ps' = psCursor ps" "guardHeld g \<noteq> None \<longrightarrow> guardHeld (psGuard ps') \<noteq> None"
          "\<forall>r. settled r p \<longrightarrow> settled r (psProc ps')" by auto
        moreover have "guardHeld (psGuard ps') \<noteq> None \<or> settled r (psProc ps')"
          using settles [OF o True] d(5,6) by blast
        moreover have "\<forall>r. settled r (psProc ps) \<longrightarrow> settled r (psProc ps')" using stays [OF o] d(6) by blast
        ultimately show ?thesis using go by (intro exI [of _ "r # dn"] exI [of _ rest]) auto
      next
        case False
        then have "consumed' = consumed \<and> ps' = ?ps"
          using Cons.prems nt go o assms(1) by (auto simp: accepted_def split: sum.splits if_splits)
        then show ?thesis using go stays [OF o] by (intro exI [of _ "[]"] exI [of _ "r # rs"]) auto
      qed
    qed
  qed
qed

lemma cursor_passes_settled:
  assumes "pcProcess pc = process"
    and "\<And>cursor limit. pcList pc cursor limit = Inr (inboxOf records cursor limit)" "ordered records"
    and "Reconcile pc c ps = ((res, err), c', ps')"
    and "r \<in> set records" "psCursor ps < cmAcceptedOrder r" "cmAcceptedOrder r \<le> psCursor ps'"
  shows "Terminal (cmState r) \<or> settled r (psProc ps')"
  using assms(4)
proof (cases rule: Reconcile_cases)
  case refused
  then show ?thesis using assms(6,7) by auto
next
  case (ran page c1 e consumed res1 ps1)
  obtain dn rest where d: "page = dn @ rest" "consumed = (if dn = [] then psCursor ps else cmAcceptedOrder (last dn))"
    "guardHeld (psGuard ps1) \<noteq> None \<or> (\<forall>r\<in>set dn. Terminal (cmState r) \<or> settled r (psProc ps1))"
    "psCursor ps1 = psCursor ps"
    using passLoop_settles [OF assms(1) ran(5)] by blast
  have moved: "psCursor ps' \<noteq> psCursor ps" using assms(6,7) by auto
  then have e: "e = None" using ran(8) d(4) by (cases e) auto
  note fin = finishPass_moves [OF ran(9) [OF e]]
  have m: "guardHeld (psGuard ps1) = None" "psCursor ps' = consumed" using fin moved d(4) by auto
  then have "dn \<noteq> []" "psCursor ps' = cmAcceptedOrder (last dn)" using moved d(2) by auto
  then have "r \<in> set dn"
    using inboxOf_prefix [OF assms(3), of "psCursor ps" "coBatch c" dn rest] ran(3) assms(2,5-7) d(1) by simp
  then show ?thesis using d(3) m(1) finishPass_spec(1) [OF ran(9) [OF e]] by auto
qed

end

end
