(* ===== verification/Applier.thy ===== *)
theory Applier
  imports Consumer
begin

text \<open>
  The command applier, \<^verbatim>\<open>internal/commands/apply.go\<close>, and its recovery planner,
  \<^verbatim>\<open>internal/commands/recovery.go\<close>: one command is read, planned, claimed, moved into
  applying, given a journal prefix, driven through the runtime and settled, every
  durable write through the Guard.

  The stores, the journal, the runtime, the clock and Core's validators are a record of
  answers, \<open>Answers\<close>; the lease may be lost at every point the code can notice it
  (\<open>anLost\<close>).  The state is the Guard and the trace of what was read and attempted,
  each write with whether the store accepted it.  Error texts are left out.
\<close>

section \<open>Records\<close>

datatype Kind = KindCreate | KindRestore | KindInput | KindInterrupt | KindGateResponse | KindOther string

definition kindKnown :: "Kind \<Rightarrow> bool" where
  "kindKnown k = (case k of KindOther _ \<Rightarrow> False | _ \<Rightarrow> True)"

record Record =
  rcTenantID :: tenant_id
  rcSessionID :: session_id
  rcCommandID :: string
  rcRuntimeCommandID :: nat
  rcKind :: Kind
  rcState :: State
  rcAcceptedOrder :: u64
  rcRevision :: u64
  rcApplyDeadline :: instant
  rcClaimEpoch :: u64
  rcClaimExpiresAt :: instant

text \<open>An object reference is Core's; the empty one is Go's zero value.\<close>

type_synonym object_reference = string

record Payload =
  plBody :: string
  plRef :: object_reference

definition present :: "Payload \<Rightarrow> bool" where
  "present p = (length (plBody p) > 0 \<or> plRef p \<noteq> [])"

definition wellFormed :: "Payload \<Rightarrow> bool" where
  "wellFormed p = (length (plBody p) = 0 \<or> plRef p = [])"

record Prefix =
  pxCommandID :: string
  pxRuntimeCommandID :: nat
  pxKind :: Kind

record Effect =
  efCompletedAt :: instant
  efEventID :: string
  efJournalSeq :: u64

record Gate =
  gtGateID :: string
  gtOpen :: bool
  gtOwnerHostID :: host_id
  gtOwnerEpoch :: u64
  gtOpenedEventID :: string
  gtOpenedJournalSeq :: u64

datatype ApplicationOutcome =
    ApplicationAbsent | ApplicationCommitted | ApplicationAbandoned | ApplicationUnresolved
  | ApplicationConflicted | ApplicationOther string

definition outcomeKnown :: "ApplicationOutcome \<Rightarrow> bool" where
  "outcomeKnown o' = (case o' of ApplicationOther _ \<Rightarrow> False | _ \<Rightarrow> True)"

record Application =
  apCommandID :: string
  apRuntimeCommandID :: nat
  apOutcome :: ApplicationOutcome
  apPrefixEpoch :: u64
  apEffectEventID :: string
  apEffectSeq :: u64
  apSupersedingEpoch :: u64

definition hasPrefix :: "Application \<Rightarrow> bool" where
  "hasPrefix a = (apOutcome a \<noteq> ApplicationAbsent)"

definition provesNoEffect :: "Application \<Rightarrow> bool" where
  "provesNoEffect a = (apOutcome a = ApplicationAbsent \<or> apOutcome a = ApplicationAbandoned)"

definition fences :: "Application \<Rightarrow> u64 \<Rightarrow> bool" where
  "fences a epoch = (apSupersedingEpoch a > epoch)"

definition effect :: "Application \<Rightarrow> instant \<Rightarrow> Effect" where
  "effect a at = \<lparr> efCompletedAt = at, efEventID = apEffectEventID a, efJournalSeq = apEffectSeq a \<rparr>"

record Claim =
  clExpectedRevision :: u64
  clEpoch :: u64
  clExpiresAt :: instant

record Applying =
  alExpectedRevision :: u64
  alEpoch :: u64
  alExpiresAt :: instant

record Completion =
  cpExpectedRevision :: u64
  cpEpoch :: u64
  cpEffect :: Effect

text \<open>Core's error detail: a code, a message and whether a retry may help.\<close>

datatype ErrorCode = CommandRejected | GateNotResumable

record ErrorDetail =
  edCode :: ErrorCode
  edMessage :: string
  edRetryable :: bool

record Rejection =
  rjExpectedRevision :: u64
  rjEpoch :: u64
  rjDetail :: ErrorDetail

datatype ApplyRefusal =
    RefusalStaleEpoch | RefusalClaimHeld | RefusalDeadlinePassed | RefusalUnsupportedKind
  | RefusalUnknownState | RefusalUnrevisionedRecord | RefusalForeignRecord | RefusalCorrelation
  | RefusalUnresolvedApplication | RefusalUnfencedApplier | RefusalMissingPayload
  | RefusalUnreadableCreate | RefusalUnreadableCommand | RefusalUnreadableGateResponse
  | RefusalReferencedGateResponse | RefusalGateNotOwned | RefusalNoGateReader | RefusalInvalidEffect
  | RefusalNoCommittedEffect | RefusalStore | RefusalRuntime | RefusalInvalidAttempt
  | RefusalNoJournalGrant | RefusalDispositionUnsupported | RefusalEvidenceUnavailable
  | RefusalEvidenceUnroutable | RefusalEnduringEffect | RefusalNoAttemptCloser

record ApplyError =
  aerRefusal :: ApplyRefusal
  aerCommandID :: string
  aerCause :: "Err option"

definition applyError :: "ApplyRefusal \<Rightarrow> string \<Rightarrow> ApplyError" where
  "applyError refusal command = \<lparr> aerRefusal = refusal, aerCommandID = command, aerCause = None \<rparr>"

definition causedBy :: "ApplyRefusal \<Rightarrow> string \<Rightarrow> Err \<Rightarrow> ApplyError" where
  "causedBy refusal command e = \<lparr> aerRefusal = refusal, aerCommandID = command, aerCause = Some e \<rparr>"

section \<open>The applier and what it acts on\<close>

record Applier =
  aplHostID :: host_id
  aplClaimTTL :: int
  aplKey :: Key
  aplEpoch :: u64

text \<open>What \<open>NewApplier\<close> is given; \<open>vClock\<close> says whether the Host has a clock.\<close>

record ApplierOptions =
  vHost :: "Host option"
  vClock :: bool
  vKey :: Key
  vLeaseEpoch :: u64
  vRecords :: "handle option"
  vApplications :: "handle option"
  vGates :: "handle option"
  vWrites :: "handle option"
  vJournal :: "handle option"
  vRuntime :: "handle option"
  vFence :: "handle option"

definition unusableClaimer :: "Host \<Rightarrow> bool \<Rightarrow> string list" where
  "unusableClaimer h clock =
     (if \<not> clock then [''Clock''] else []) @
     (if hClaimTTL h \<le> 0 then [''ClaimTTL''] else []) @
     (if hID h = [] then [''ID''] else [])"

definition NewApplier :: "ApplierOptions \<Rightarrow> ConsumerError + Applier" where
  "NewApplier v =
     (case vHost v of
        None \<Rightarrow> Inl (InvalidConsumerOptions ''Host'')
      | Some h \<Rightarrow>
          if unusableClaimer h (vClock v) \<noteq> [] then Inl (UnusableHost (unusableClaimer h (vClock v)))
          else if TenantID (vKey v) = [] \<or> SessionID (vKey v) = [] then Inl (InvalidConsumerOptions ''Key'')
          else if vLeaseEpoch v = 0 then Inl (InvalidConsumerOptions ''LeaseEpoch'')
          else (case requirePresent [(''Records'', vRecords v \<noteq> None), (''Applications'', vApplications v \<noteq> None),
                  (''Gates'', vGates v \<noteq> None), (''Writes'', vWrites v \<noteq> None), (''Journal'', vJournal v \<noteq> None),
                  (''Runtime'', vRuntime v \<noteq> None), (''Fence'', vFence v \<noteq> None)] of
                  Some e \<Rightarrow> Inl e
                | None \<Rightarrow>
                    Inr \<lparr> aplHostID = hID h, aplClaimTTL = hClaimTTL h, aplKey = vKey v,
                      aplEpoch = vLeaseEpoch v \<rparr>))"

record GateResponseRequest =
  grCommandID :: string
  grSessionID :: session_id
  grGateID :: string

text \<open>The points at which the clock is read or the lease may be lost.\<close>

datatype Point = AtPlan | AtClaim | AtApplying | AtPrefix | AtDrive | AtSettle | AtHeld

record Answers =
  anLoad :: "Err + Record"
  anApplication :: "Err + Application"
  anSettled :: "Err + Application"
  anPayload :: "Err + Payload"
  anDecode :: "string \<Rightarrow> GateResponseRequest option"
  anGate :: "string \<Rightarrow> Err + Gate option"
  anClaim :: "Claim \<Rightarrow> Err + u64"
  anBegin :: "Applying \<Rightarrow> Err + u64"
  anPrefix :: "Prefix \<Rightarrow> Err option"
  anRuntime :: "Err option"
  anComplete :: "Completion \<Rightarrow> Err option"
  anReject :: "Rejection \<Rightarrow> Err option"
  anEventValid :: "string \<Rightarrow> bool"
  anDetailValid :: "ErrorDetail \<Rightarrow> bool"
  anNow :: "Point \<Rightarrow> instant"
  anLost :: "Point \<Rightarrow> bool"

text \<open>What an applier read and did, each write with whether the store accepted it.\<close>

datatype Act =
    ARead Record
  | AClaim string Claim
  | ABegin string Applying
  | APrefix Prefix
  | ADrive string nat Payload
  | AComplete string Completion
  | AReject string Rejection

type_synonym trace = "(Act \<times> bool) list"
type_synonym apply_state = "epochFence option \<times> trace"

text \<open>The lease's loss channel closes; an absent channel never does.\<close>

definition loseLease :: "bool \<Rightarrow> epochFence option \<Rightarrow> epochFence option" where
  "loseLease lost g =
     (case g of
        None \<Rightarrow> None
      | Some f \<Rightarrow> if lost \<and> fLease f \<noteq> None then Some (f\<lparr> fLease := Some True \<rparr>) else g)"

text \<open>One durable write through the Guard, attempted after the lease may have been lost.\<close>

definition fencedAct ::
  "bool \<Rightarrow> 'act \<Rightarrow> Err option \<Rightarrow> epochFence option \<times> ('act \<times> bool) list \<Rightarrow>
   Err option \<times> epochFence option \<times> ('act \<times> bool) list" where
  "fencedAct lost act answer st =
     guardWrite (\<lambda>tr. (answer, tr @ [(act, answer = None)])) (loseLease lost (fst st), snd st)"

definition fenced :: "Answers \<Rightarrow> Point \<Rightarrow> Act \<Rightarrow> Err option \<Rightarrow> apply_state \<Rightarrow> Err option \<times> apply_state" where
  "fenced an pt act answer st = fencedAct (anLost an pt) act answer st"

definition errOf :: "Err + 'a \<Rightarrow> Err option" where
  "errOf x = (case x of Inl e \<Rightarrow> Some e | Inr _ \<Rightarrow> None)"

definition revisionOf :: "Err + u64 \<Rightarrow> u64" where
  "revisionOf x = (case x of Inl e \<Rightarrow> 0 | Inr n \<Rightarrow> n)"

type_synonym apply_result = "Outcome \<times> ApplyError option"

definition outcome :: "State \<Rightarrow> bool \<Rightarrow> Outcome" where
  "outcome s owned = \<lparr> ouState = s, ouPrefixOwned = owned \<rparr>"

section \<open>Planning\<close>

datatype step = stepClaim | stepApplyUnderHeldClaim | stepDriveApplyingRecord | stepComplete | stepReject

definition checkApplication :: "Applier \<Rightarrow> Record \<Rightarrow> Application \<Rightarrow> ApplyRefusal option" where
  "checkApplication a record application =
     (if \<not> outcomeKnown (apOutcome application) then Some RefusalUnresolvedApplication
      else if apOutcome application = ApplicationConflicted then Some RefusalCorrelation
      else if \<not> hasPrefix application then None
      else if apCommandID application \<noteq> rcCommandID record then Some RefusalCorrelation
      else if apRuntimeCommandID application \<noteq> rcRuntimeCommandID record then Some RefusalCorrelation
      else if apPrefixEpoch application > aplEpoch a then Some RefusalStaleEpoch
      else None)"

definition planApplying :: "Applier \<Rightarrow> Record \<Rightarrow> Application \<Rightarrow> ApplyRefusal + step" where
  "planApplying a record application =
     (if apOutcome application = ApplicationUnresolved then Inl RefusalUnresolvedApplication
      else if rcClaimEpoch record = aplEpoch a then Inr stepDriveApplyingRecord
      else if \<not> fences application (rcClaimEpoch record) then Inl RefusalUnfencedApplier
      else Inr stepReject)"

definition plan :: "Applier \<Rightarrow> Record \<Rightarrow> Application \<Rightarrow> instant \<Rightarrow> ApplyRefusal + step" where
  "plan a record application now =
     (if rcClaimEpoch record > aplEpoch a then Inl RefusalStaleEpoch
      else if fences application (aplEpoch a) then Inl RefusalStaleEpoch
      else (case checkApplication a record application of
              Some refusal \<Rightarrow> Inl refusal
            | None \<Rightarrow>
                if apOutcome application = ApplicationCommitted
                then (if rcState record \<noteq> StateApplying then Inl RefusalCorrelation else Inr stepComplete)
                else
                  (let claimLive = now < rcClaimExpiresAt record in
                   if claimLive \<and> rcClaimEpoch record \<noteq> aplEpoch a then Inl RefusalClaimHeld
                   else if rcState record = StateApplying then planApplying a record application
                   else if claimLive then Inr stepApplyUnderHeldClaim
                   else if \<not> kindKnown (rcKind record) then Inl RefusalUnsupportedKind
                   else if \<not> now < rcApplyDeadline record then Inl RefusalDeadlinePassed
                   else Inr stepClaim)))"
section \<open>Applying\<close>

definition Effect_Validate :: "Answers \<Rightarrow> Effect \<Rightarrow> ApplyRefusal option" where
  "Effect_Validate an e =
     (if efCompletedAt e = 0 then Some RefusalInvalidEffect
      else if \<not> anEventValid an (efEventID e) then Some RefusalInvalidEffect
      else if efJournalSeq e = 0 then Some RefusalInvalidEffect
      else None)"

definition complete ::
  "Answers \<Rightarrow> Applier \<Rightarrow> Record \<Rightarrow> u64 \<Rightarrow> Application \<Rightarrow> apply_state \<Rightarrow> apply_result \<times> apply_state" where
  "complete an a record revision application st =
     (let eff = effect application (anNow an AtSettle);
          completion = \<lparr> cpExpectedRevision = revision, cpEpoch = aplEpoch a, cpEffect = eff \<rparr> in
      case Effect_Validate an eff of
        Some refusal \<Rightarrow> ((outcome StateApplying True, Some (applyError refusal [])), st)
      | None \<Rightarrow>
          (case fenced an AtSettle (AComplete (rcCommandID record) completion) (anComplete an completion) st of
             (None, st') \<Rightarrow> ((outcome StateApplied False, None), st')
           | (Some e, g, tr) \<Rightarrow>
               (let g' = loseLease (anLost an AtHeld) g in
                if guardHeld g' \<noteq> None then ((outcome StateApplying True, None), g', tr)
                else ((outcome StateApplying True, Some (causedBy RefusalStore (rcCommandID record) e)), g', tr))))"

definition reject ::
  "Answers \<Rightarrow> Applier \<Rightarrow> Record \<Rightarrow> u64 \<Rightarrow> ErrorDetail \<Rightarrow> apply_state \<Rightarrow> apply_result \<times> apply_state" where
  "reject an a record revision detail st =
     (let rejection = \<lparr> rjExpectedRevision = revision, rjEpoch = aplEpoch a, rjDetail = detail \<rparr> in
      if \<not> anDetailValid an detail
      then ((outcome (rcState record) False, Some (applyError RefusalStore (rcCommandID record))), st)
      else (case fenced an AtSettle (AReject (rcCommandID record) rejection) (anReject an rejection) st of
              (None, st') \<Rightarrow> ((outcome StateRejected False, None), st')
            | (Some e, st') \<Rightarrow>
                ((outcome (rcState record) False, Some (causedBy RefusalStore (rcCommandID record) e)), st')))"

definition checkPayload :: "Record \<Rightarrow> Payload \<Rightarrow> ApplyRefusal option" where
  "checkPayload record payload =
     (if \<not> wellFormed payload then Some RefusalMissingPayload
      else if (rcKind record = KindInput \<or> rcKind record = KindGateResponse) \<and> \<not> present payload
      then Some RefusalMissingPayload
      else None)"

definition gateResponseTarget :: "Answers \<Rightarrow> Record \<Rightarrow> Payload \<Rightarrow> ApplyRefusal + string" where
  "gateResponseTarget an record payload =
     (if length (plBody payload) = 0 then Inl RefusalReferencedGateResponse
      else (case anDecode an (plBody payload) of
              None \<Rightarrow> Inl RefusalUnreadableGateResponse
            | Some request \<Rightarrow>
                if grCommandID request \<noteq> rcCommandID record \<or> grSessionID request \<noteq> rcSessionID record
                then Inl RefusalCorrelation
                else Inr (grGateID request)))"

definition gateResumable :: "Applier \<Rightarrow> Gate option \<Rightarrow> bool" where
  "gateResumable a gate =
     (case gate of
        None \<Rightarrow> False
      | Some g \<Rightarrow>
          if \<not> gtOpen g then False
          else if gtOwnerHostID g \<noteq> aplHostID a then False
          else if gtOwnerEpoch g \<noteq> aplEpoch a then False
          else True)"

text \<open>\<open>Inr None\<close> lets the response through, \<open>Inr (Some d)\<close> rejects it with \<open>d\<close>.\<close>

definition gateRejection ::
  "Answers \<Rightarrow> Applier \<Rightarrow> Record \<Rightarrow> Payload \<Rightarrow> ApplyError + ErrorDetail option" where
  "gateRejection an a record payload =
     (case gateResponseTarget an record payload of
        Inl refusal \<Rightarrow> Inl (applyError refusal (rcCommandID record))
      | Inr gate \<Rightarrow>
          (case anGate an gate of
             Inl e \<Rightarrow> Inl (causedBy RefusalStore (rcCommandID record) e)
           | Inr durable \<Rightarrow>
               if gateResumable a durable then Inr None
               else Inr (Some \<lparr> edCode = GateNotResumable, edMessage = [], edRetryable = False \<rparr>)))"

definition driveWithPayload ::
  "Answers \<Rightarrow> Applier \<Rightarrow> Record \<Rightarrow> u64 \<Rightarrow> Payload \<Rightarrow> apply_state \<Rightarrow> apply_result \<times> apply_state" where
  "driveWithPayload an a record revision payload st =
     (let prefix = \<lparr> pxCommandID = rcCommandID record, pxRuntimeCommandID = rcRuntimeCommandID record,
                     pxKind = rcKind record \<rparr> in
      case fenced an AtPrefix (APrefix prefix) (anPrefix an prefix) st of
        (Some e, st') \<Rightarrow> ((outcome StateApplying False, Some (causedBy RefusalStore (rcCommandID record) e)), st')
      | (None, g, tr) \<Rightarrow>
          (let g' = loseLease (anLost an AtDrive) g in
           case guardHeld g' of
             Some e \<Rightarrow>
               ((outcome StateApplying True, Some (causedBy RefusalStaleEpoch (rcCommandID record) e)), g', tr)
           | None \<Rightarrow>
               (let tr' = tr @ [(ADrive (rcCommandID record) (rcRuntimeCommandID record) payload, anRuntime an = None)] in
                case anRuntime an of
                  Some e \<Rightarrow>
                    ((outcome StateApplying True, Some (causedBy RefusalRuntime (rcCommandID record) e)), g', tr')
                | None \<Rightarrow>
                    (case anSettled an of
                       Inl e \<Rightarrow>
                         ((outcome StateApplying True, Some (causedBy RefusalStore (rcCommandID record) e)), g', tr')
                     | Inr settled \<Rightarrow>
                         if apOutcome settled \<noteq> ApplicationCommitted
                         then ((outcome StateApplying (hasPrefix settled),
                                Some (applyError RefusalNoCommittedEffect (rcCommandID record))), g', tr')
                         else complete an a record revision settled (g', tr')))))"

definition drive ::
  "Answers \<Rightarrow> Applier \<Rightarrow> Record \<Rightarrow> u64 \<Rightarrow> apply_state \<Rightarrow> apply_result \<times> apply_state" where
  "drive an a record revision st =
     (case anPayload an of
        Inl e \<Rightarrow> ((outcome StateApplying False, Some (causedBy RefusalStore (rcCommandID record) e)), st)
      | Inr payload \<Rightarrow>
          (case checkPayload record payload of
             Some refusal \<Rightarrow> ((outcome StateApplying False, Some (applyError refusal (rcCommandID record))), st)
           | None \<Rightarrow> driveWithPayload an a record revision payload st))"

definition beginApplying ::
  "Answers \<Rightarrow> Applier \<Rightarrow> Record \<Rightarrow> u64 \<Rightarrow> Payload \<Rightarrow> apply_state \<Rightarrow> apply_result \<times> apply_state" where
  "beginApplying an a record revision payload st =
     (let applying = \<lparr> alExpectedRevision = revision, alEpoch = aplEpoch a,
                       alExpiresAt = anNow an AtApplying + aplClaimTTL a \<rparr> in
      case fenced an AtApplying (ABegin (rcCommandID record) applying) (errOf (anBegin an applying)) st of
        (Some e, st') \<Rightarrow> ((outcome StateClaimed False, Some (causedBy RefusalStore (rcCommandID record) e)), st')
      | (None, st') \<Rightarrow> driveWithPayload an a record (revisionOf (anBegin an applying)) payload st')"

definition applyClaimed ::
  "Answers \<Rightarrow> Applier \<Rightarrow> Record \<Rightarrow> u64 \<Rightarrow> apply_state \<Rightarrow> apply_result \<times> apply_state" where
  "applyClaimed an a record revision st =
     (case anPayload an of
        Inl e \<Rightarrow> ((outcome StateClaimed False, Some (causedBy RefusalStore (rcCommandID record) e)), st)
      | Inr payload \<Rightarrow>
          (case checkPayload record payload of
             Some refusal \<Rightarrow> ((outcome StateClaimed False, Some (applyError refusal (rcCommandID record))), st)
           | None \<Rightarrow>
               if rcKind record = KindGateResponse
               then (case gateRejection an a record payload of
                       Inl e \<Rightarrow> ((outcome StateClaimed False, Some e), st)
                     | Inr (Some detail) \<Rightarrow> reject an a record revision detail st
                     | Inr None \<Rightarrow> beginApplying an a record revision payload st)
               else beginApplying an a record revision payload st))"

definition claimThenApply :: "Answers \<Rightarrow> Applier \<Rightarrow> Record \<Rightarrow> apply_state \<Rightarrow> apply_result \<times> apply_state" where
  "claimThenApply an a record st =
     (let claim = \<lparr> clExpectedRevision = rcRevision record, clEpoch = aplEpoch a,
                    clExpiresAt = anNow an AtClaim + aplClaimTTL a \<rparr> in
      case fenced an AtClaim (AClaim (rcCommandID record) claim) (errOf (anClaim an claim)) st of
        (Some e, st') \<Rightarrow>
          ((outcome (rcState record) False, Some (causedBy RefusalStore (rcCommandID record) e)), st')
      | (None, st') \<Rightarrow> applyClaimed an a record (revisionOf (anClaim an claim)) st')"

definition checkRecord :: "Applier \<Rightarrow> Record \<Rightarrow> Command \<Rightarrow> ApplyRefusal option" where
  "checkRecord a record command =
     (if rcTenantID record \<noteq> TenantID (aplKey a) \<or> rcSessionID record \<noteq> SessionID (aplKey a)
      then Some RefusalForeignRecord
      else if rcCommandID record \<noteq> cmCommandID command then Some RefusalForeignRecord
      else if rcAcceptedOrder record \<noteq> cmAcceptedOrder command then Some RefusalForeignRecord
      else if \<not> known (rcState record) then Some RefusalUnknownState
      else if rcRevision record = 0 then Some RefusalUnrevisionedRecord
      else if rcRuntimeCommandID record = 0 then Some RefusalCorrelation
      else None)"

definition runStep ::
  "Answers \<Rightarrow> Applier \<Rightarrow> Record \<Rightarrow> Application \<Rightarrow> step \<Rightarrow> apply_state \<Rightarrow> apply_result \<times> apply_state" where
  "runStep an a record application s st =
     (case s of
        stepComplete \<Rightarrow> complete an a record (rcRevision record) application st
      | stepReject \<Rightarrow>
          reject an a record (rcRevision record)
            \<lparr> edCode = CommandRejected, edMessage = [], edRetryable = True \<rparr> st
      | stepApplyUnderHeldClaim \<Rightarrow> applyClaimed an a record (rcRevision record) st
      | stepDriveApplyingRecord \<Rightarrow> drive an a record (rcRevision record) st
      | stepClaim \<Rightarrow> claimThenApply an a record st)"

definition Process :: "Answers \<Rightarrow> Applier \<Rightarrow> Command \<Rightarrow> apply_state \<Rightarrow> apply_result \<times> apply_state" where
  "Process an a command st =
     (case anLoad an of
        Inl e \<Rightarrow> ((outcome (cmState command) False, Some (causedBy RefusalStore (cmCommandID command) e)), st)
      | Inr record \<Rightarrow>
          (let st' = (fst st, snd st @ [(ARead record, True)]) in
           case checkRecord a record command of
             Some refusal \<Rightarrow>
               ((outcome (cmState command) False, Some (applyError refusal (cmCommandID command))), st')
           | None \<Rightarrow>
               if Terminal (rcState record) then ((outcome (rcState record) False, None), st')
               else (case anApplication an of
                       Inl e \<Rightarrow>
                         ((outcome (rcState record) False, Some (causedBy RefusalStore (rcCommandID record) e)), st')
                     | Inr application \<Rightarrow>
                         (case plan a record application (anNow an AtPlan) of
                            Inl refusal \<Rightarrow>
                              ((outcome (rcState record) (hasPrefix application),
                                Some (applyError refusal (rcCommandID record))), st')
                          | Inr s \<Rightarrow> runStep an a record application s st'))))"

section \<open>Lemmas\<close>

definition rank :: "Act \<Rightarrow> nat" where
  "rank act =
     (case act of ARead _ \<Rightarrow> 0 | AClaim _ _ \<Rightarrow> 1 | ABegin _ _ \<Rightarrow> 2 | APrefix _ \<Rightarrow> 3 | ADrive _ _ _ \<Rightarrow> 4
      | AComplete _ _ \<Rightarrow> 5 | AReject _ _ \<Rightarrow> 5)"

text \<open>The protocol in order, each step only after the one before it succeeded.\<close>

definition orderly :: "trace \<Rightarrow> bool" where
  "orderly log = (sorted_wrt (\<lambda>x y. rank (fst x) < rank (fst y)) log \<and> (\<forall>x\<in>set (butlast log). snd x))"

definition prefixOf :: "Record \<Rightarrow> Prefix" where
  "prefixOf r = \<lparr> pxCommandID = rcCommandID r, pxRuntimeCommandID = rcRuntimeCommandID r, pxKind = rcKind r \<rparr>"

definition drivesOK :: "Record \<Rightarrow> trace \<Rightarrow> bool" where
  "drivesOK r log = (\<forall>i rt p b. (ADrive i rt p, b) \<in> set log \<longrightarrow>
     i = rcCommandID r \<and> rt = rcRuntimeCommandID r \<and> checkPayload r p = None \<and> (APrefix (prefixOf r), True) \<in> set log)"

definition completesOK :: "Answers \<Rightarrow> Applier \<Rightarrow> Record \<Rightarrow> trace \<Rightarrow> bool" where
  "completesOK an a r log = (\<forall>i c b. (AComplete i c, b) \<in> set log \<longrightarrow>
     i = rcCommandID r \<and> cpEpoch c = aplEpoch a \<and>
     (\<exists>app. apOutcome app = ApplicationCommitted \<and> cpEffect c = effect app (anNow an AtSettle) \<and>
        (anApplication an = Inr app \<and> rcState r = StateApplying \<or>
         anSettled an = Inr app \<and> (\<exists>p. (ADrive (rcCommandID r) (rcRuntimeCommandID r) p, True) \<in> set log))))"

definition rejectsOK :: "Record \<Rightarrow> trace \<Rightarrow> bool" where
  "rejectsOK r log = (\<forall>i j b. (AReject i j, b) \<in> set log \<longrightarrow>
     i = rcCommandID r \<and> (\<forall>x\<in>set log. rank (fst x) \<le> 1 \<or> x = (AReject i j, b)))"

definition lawful :: "Answers \<Rightarrow> Applier \<Rightarrow> Record \<Rightarrow> nat \<Rightarrow> trace \<Rightarrow> bool" where
  "lawful an a r n log =
     (orderly log \<and> (\<forall>x\<in>set log. n \<le> rank (fst x)) \<and> drivesOK r log \<and> completesOK an a r log \<and> rejectsOK r log)"

definition settledIn :: "string \<Rightarrow> trace \<Rightarrow> bool" where
  "settledIn i log =
     ((\<exists>c. (AComplete i c, True) \<in> set log) \<or> (\<exists>j. (AReject i j, True) \<in> set log))"

lemma orderly_Nil [simp]: "orderly []" and orderly_single [simp]: "orderly [x]"
  by (simp_all add: orderly_def)

lemma orderly_Cons:
  assumes "snd x" "\<forall>y\<in>set log. rank (fst x) < rank (fst y)" "orderly log"
  shows "orderly (x # log)"
  using assms by (cases log) (auto simp: orderly_def)

lemma lawful_Nil [simp]: "lawful an a r n []"
  by (simp add: lawful_def drivesOK_def completesOK_def rejectsOK_def)

text \<open>A read, a claim or the move into applying goes before a lawful rest.\<close>

lemma lawful_Cons:
  assumes "lawful an a r (Suc n) log" "rank (fst x) = n" "snd x" "n \<le> 2"
    and "n = 2 \<Longrightarrow> \<forall>i j b. (AReject i j, b) \<notin> set log"
  shows "lawful an a r n (x # log)"
proof -
  have o: "orderly (x # log)" using assms(1-3) by (intro orderly_Cons) (auto simp: lawful_def Suc_le_eq)
  have nd: "x \<noteq> (ADrive i rt p, b)" "x \<noteq> (AComplete i c, b)" "x \<noteq> (AReject i j, b)" for i rt p b c j
    using assms(2,4) by (auto simp: rank_def)
  have "drivesOK r log" "completesOK an a r log" using assms(1) by (auto simp: lawful_def)
  then have "drivesOK r (x # log)" "completesOK an a r (x # log)"
    using nd unfolding drivesOK_def completesOK_def by (metis list.set_intros(2) set_ConsD)+
  moreover have "rejectsOK r (x # log)"
    unfolding rejectsOK_def
  proof (intro allI impI)
    fix i j b assume "(AReject i j, b) \<in> set (x # log)"
    then have m: "(AReject i j, b) \<in> set log" using nd(3) by (metis set_ConsD)
    then have "n \<le> 1" using assms(4,5) by force
    then show "i = rcCommandID r \<and> (\<forall>y\<in>set (x # log). rank (fst y) \<le> 1 \<or> y = (AReject i j, b))"
      using m assms(1,2) by (auto simp: lawful_def rejectsOK_def)
  qed
  ultimately show ?thesis using o assms(1,2) by (auto simp: lawful_def)
qed

lemma lawful_failed:
  assumes "rank act = n" "n \<le> 3"
  shows "lawful an a r n [(act, b)]"
  using assms by (auto simp: lawful_def drivesOK_def completesOK_def rejectsOK_def rank_def)

lemma lawful_mono: "lawful an a r n log \<Longrightarrow> m \<le> n \<Longrightarrow> lawful an a r m log"
  by (auto simp: lawful_def)

lemma loseLease_lost: "guardHeld g \<noteq> None \<Longrightarrow> guardHeld (loseLease b g) \<noteq> None"
  by (auto simp: loseLease_def guardHeld_def held_def lostReady_def split: option.splits)

lemma fencedAct_cases:
  assumes "fencedAct lost act answer (g, tr) = (err, g', tr')"
  shows "err \<noteq> None \<and> tr' = tr \<and> guardHeld g' \<noteq> None \<or>
      err = answer \<and> tr' = tr @ [(act, answer = None)] \<and> guardHeld g = None \<and> (answer = None \<longrightarrow> guardHeld g' = None)"
    and "guardHeld g \<noteq> None \<Longrightarrow> guardHeld g' \<noteq> None"
proof -
  let ?g = "loseLease lost g" and ?run = "\<lambda>tr. (answer, tr @ [(act, answer = None)])"
  have w: "guardWrite ?run (?g, tr) = (err, g', tr')" using assms by (simp add: fencedAct_def)
  have main: "(err \<noteq> None \<and> tr' = tr \<and> guardHeld g' \<noteq> None) \<and> g' = ?g \<or>
      err = answer \<and> tr' = tr @ [(act, answer = None)] \<and> guardHeld ?g = None \<and> (answer = None \<longrightarrow> guardHeld g' = None)"
  proof (cases "guardHeld ?g = None")
    case True
    then show ?thesis using guard.runs [of ?g ?run tr] guard.keeps [of ?g ?run tr] w by auto
  next
    case False
    then show ?thesis using guard.refuses [of ?g ?run tr] w by simp
  qed
  then show "err \<noteq> None \<and> tr' = tr \<and> guardHeld g' \<noteq> None \<or>
      err = answer \<and> tr' = tr @ [(act, answer = None)] \<and> guardHeld g = None \<and> (answer = None \<longrightarrow> guardHeld g' = None)"
    using loseLease_lost by blast
  show "guardHeld g' \<noteq> None" if "guardHeld g \<noteq> None"
    using main loseLease_lost [OF that] by auto
qed

lemma fenced_cases:
  assumes "fenced an pt act answer (g, tr) = (err, g', tr')"
  shows "err \<noteq> None \<and> tr' = tr \<and> guardHeld g' \<noteq> None \<or>
      err = answer \<and> tr' = tr @ [(act, answer = None)] \<and> guardHeld g = None \<and> (answer = None \<longrightarrow> guardHeld g' = None)"
    and "guardHeld g \<noteq> None \<Longrightarrow> guardHeld g' \<noteq> None"
  using fencedAct_cases [OF assms [unfolded fenced_def]] by blast+

text \<open>
  What every operation reports: the trace only grows, by a lawful log; without an error
  the command is settled in that log or the fence is lost; a lost fence stays lost.
\<close>

definition reports ::
  "Answers \<Rightarrow> Applier \<Rightarrow> Record \<Rightarrow> nat \<Rightarrow> apply_state \<Rightarrow> apply_result \<times> apply_state \<Rightarrow> trace \<Rightarrow> bool" where
  "reports an a r n st res log =
     (snd (snd res) = snd st @ log \<and> lawful an a r n log \<and>
      (snd (fst res) = None \<longrightarrow> settledIn (rcCommandID r) log \<or> guardHeld (fst (snd res)) \<noteq> None) \<and>
      (guardHeld (fst st) \<noteq> None \<longrightarrow> guardHeld (fst (snd res)) \<noteq> None))"

lemma reports_refused:
  "e \<noteq> None \<Longrightarrow> (guardHeld (fst st) \<noteq> None \<Longrightarrow> guardHeld g \<noteq> None) \<Longrightarrow> reports an a r n st ((o', e), g, snd st) []"
  by (auto simp: reports_def)

text \<open>One fenced write and what follows it.\<close>

lemma reports_step:
  assumes "fenced an pt act answer st = (err, st')" "rank act = n" "n \<le> 2"
    and "err \<noteq> None \<Longrightarrow> res = ((o', e), st') \<and> e \<noteq> None"
    and "err = None \<Longrightarrow> reports an a r (Suc n) st' res log"
    and "n = 2 \<Longrightarrow> err = None \<Longrightarrow> \<forall>i j b. (AReject i j, b) \<notin> set log"
  shows "\<exists>log'. reports an a r n st res log'"
proof -
  obtain g tr where st: "st = (g, tr)" by (cases st)
  obtain g' tr' where st': "st' = (g', tr')" by (cases st')
  note fc = fenced_cases [OF assms(1) [unfolded st st']]
  show ?thesis
  proof (cases err)
    case None
    then have t: "tr' = tr @ [(act, True)]" using fc(1) by auto
    have rp: "reports an a r (Suc n) st' res log" using assms(5) None by simp
    then have "lawful an a r n ((act, True) # log)"
      using assms(2,3,6) None by (intro lawful_Cons) (auto simp: reports_def)
    moreover have "settledIn (rcCommandID r) log \<Longrightarrow> settledIn (rcCommandID r) ((act, True) # log)"
      by (auto simp: settledIn_def)
    ultimately have "reports an a r n st res ((act, True) # log)"
      using rp t st st' fc(2) by (auto simp: reports_def)
    then show ?thesis by blast
  next
    case (Some x)
    then have res: "res = ((o', e), g', tr')" "e \<noteq> None" using assms(4) st' by auto
    have "tr' = tr \<or> tr' = tr @ [(act, answer = None)]" using fc(1) by blast
    then show ?thesis
    proof
      assume "tr' = tr"
      then show ?thesis using res st fc(2) by (intro exI [of _ "[]"]) (auto simp: reports_def)
    next
      assume "tr' = tr @ [(act, answer = None)]"
      then show ?thesis using res st fc(2) lawful_failed [of act n] assms(2,3)
        by (intro exI [of _ "[(act, answer = None)]"]) (auto simp: reports_def)
    qed
  qed
qed

lemma complete_log:
  assumes "complete an a r vn app (g, tr) = ((o', e), g', tr')"
  shows "\<exists>log. tr' = tr @ log \<and> (log = [] \<or> (\<exists>c b. log = [(AComplete (rcCommandID r) c, b)] \<and>
      cpEpoch c = aplEpoch a \<and> cpEffect c = effect app (anNow an AtSettle))) \<and>
    (e = None \<longrightarrow> settledIn (rcCommandID r) log \<or> guardHeld g' \<noteq> None)"
    and "guardHeld g \<noteq> None \<Longrightarrow> guardHeld g' \<noteq> None"
proof -
  let ?eff = "effect app (anNow an AtSettle)"
  let ?c = "\<lparr> cpExpectedRevision = vn, cpEpoch = aplEpoch a, cpEffect = ?eff \<rparr>"
  obtain err g1 tr1 where f: "fenced an AtSettle (AComplete (rcCommandID r) ?c) (anComplete an ?c) (g, tr) = (err, g1, tr1)"
    by (metis prod.collapse)
  note fc = fenced_cases [OF f]
  have "(\<exists>log. tr' = tr @ log \<and> (log = [] \<or> (\<exists>c b. log = [(AComplete (rcCommandID r) c, b)] \<and>
      cpEpoch c = aplEpoch a \<and> cpEffect c = ?eff)) \<and>
    (e = None \<longrightarrow> settledIn (rcCommandID r) log \<or> guardHeld g' \<noteq> None)) \<and>
    (guardHeld g \<noteq> None \<longrightarrow> guardHeld g' \<noteq> None)"
  proof (cases "Effect_Validate an ?eff")
    case (Some x)
    then show ?thesis using assms by (auto simp: complete_def)
  next
    case None
    show ?thesis
    proof (cases err)
      case None
      then have r: "g' = g1" "tr' = tr1" "tr1 = tr @ [(AComplete (rcCommandID r) ?c, True)]"
        using assms \<open>Effect_Validate an ?eff = None\<close> f fc(1) by (auto simp: complete_def)
      then show ?thesis using fc(2)
        by (intro conjI impI exI [of _ "[(AComplete (rcCommandID r) ?c, True)]"]) (auto simp: settledIn_def)
    next
      case (Some x)
      then have r: "g' = loseLease (anLost an AtHeld) g1" "tr' = tr1" "e = None \<Longrightarrow> guardHeld g' \<noteq> None"
        using assms None f by (auto simp: complete_def Let_def split: if_splits)
      have "guardHeld g \<noteq> None \<longrightarrow> guardHeld g' \<noteq> None" using fc(2) loseLease_lost r(1) by auto
      moreover have "tr1 = tr \<or> tr1 = tr @ [(AComplete (rcCommandID r) ?c, anComplete an ?c = None)]"
        using fc(1) by blast
      ultimately show ?thesis using r(2,3) by fastforce
    qed
  qed
  then show "\<exists>log. tr' = tr @ log \<and> (log = [] \<or> (\<exists>c b. log = [(AComplete (rcCommandID r) c, b)] \<and>
      cpEpoch c = aplEpoch a \<and> cpEffect c = effect app (anNow an AtSettle))) \<and>
    (e = None \<longrightarrow> settledIn (rcCommandID r) log \<or> guardHeld g' \<noteq> None)"
    and "guardHeld g \<noteq> None \<Longrightarrow> guardHeld g' \<noteq> None" by blast+
qed

lemma reject_reports: "\<exists>log. reports an a r 2 st (reject an a r vn detail st) log"
proof -
  obtain g tr where st: "st = (g, tr)" by (cases st)
  let ?j = "\<lparr> rjExpectedRevision = vn, rjEpoch = aplEpoch a, rjDetail = detail \<rparr>"
  obtain err g1 tr1 where f: "fenced an AtSettle (AReject (rcCommandID r) ?j) (anReject an ?j) (g, tr) = (err, g1, tr1)"
    by (metis prod.collapse)
  note fc = fenced_cases [OF f]
  have l: "lawful an a r 2 [(AReject (rcCommandID r) ?j, b)]" for b
    by (auto simp: lawful_def drivesOK_def completesOK_def rejectsOK_def rank_def)
  show ?thesis
  proof (cases "anDetailValid an detail")
    case False
    then show ?thesis using st by (intro exI [of _ "[]"]) (simp add: reject_def reports_def)
  next
    case True
    show ?thesis
    proof (cases err)
      case None
      then have "reports an a r 2 st (reject an a r vn detail st) [(AReject (rcCommandID r) ?j, True)]"
        using True st f fc l by (auto simp: reject_def reports_def settledIn_def)
      then show ?thesis by blast
    next
      case (Some x)
      then have res: "reject an a r vn detail st =
          ((outcome (rcState r) False, Some (causedBy RefusalStore (rcCommandID r) x)), g1, tr1)"
        using True st f by (simp add: reject_def)
      have "tr1 = tr \<or> tr1 = tr @ [(AReject (rcCommandID r) ?j, anReject an ?j = None)]" using fc(1) by blast
      then show ?thesis
      proof
        assume "tr1 = tr"
        then show ?thesis using res st fc(2) by (intro exI [of _ "[]"]) (auto simp: reports_def)
      next
        assume "tr1 = tr @ [(AReject (rcCommandID r) ?j, anReject an ?j = None)]"
        then show ?thesis using res st fc(2) l
          by (intro exI [of _ "[(AReject (rcCommandID r) ?j, anReject an ?j = None)]"]) (auto simp: reports_def)
      qed
    qed
  qed
qed

lemma lawful_drive:
  assumes "checkPayload r p = None" and "d = (ADrive (rcCommandID r) (rcRuntimeCommandID r) p, b)"
    and "log = [(APrefix (prefixOf r), True), d] @ done"
    and "done = [] \<or> b \<and> (\<exists>c b'. done = [(AComplete (rcCommandID r) c, b')] \<and> cpEpoch c = aplEpoch a \<and>
      (\<exists>app. anSettled an = Inr app \<and> apOutcome app = ApplicationCommitted \<and>
         cpEffect c = effect app (anNow an AtSettle)))"
  shows "lawful an a r 3 log"
proof -
  have "orderly log" "\<forall>x\<in>set log. 3 \<le> rank (fst x)" "drivesOK r log" "rejectsOK r log"
    using assms by (auto simp: orderly_def rank_def drivesOK_def rejectsOK_def)
  moreover have "completesOK an a r log"
    using assms unfolding completesOK_def by auto
  ultimately show ?thesis by (simp add: lawful_def)
qed

definition noReject :: "trace \<Rightarrow> bool" where
  "noReject log = (\<forall>i j b. (AReject i j, b) \<notin> set log)"

lemma driveWithPayload_reports:
  assumes "checkPayload r p = None"
  shows "\<exists>log. reports an a r 3 st (driveWithPayload an a r vn p st) log \<and> noReject log"
proof -
  obtain g tr where st: "st = (g, tr)" by (cases st)
  obtain err g1 tr1 where f: "fenced an AtPrefix (APrefix (prefixOf r)) (anPrefix an (prefixOf r)) (g, tr) = (err, g1, tr1)"
    by (metis prod.collapse)
  note fc = fenced_cases [OF f]
  note D = driveWithPayload_def [of an a r vn p st, folded prefixOf_def, unfolded st f Let_def]
  have lp: "lawful an a r 3 [(APrefix (prefixOf r), b)]" for b by (rule lawful_failed) (simp_all add: rank_def)
  show ?thesis
  proof (cases err)
    case (Some x)
    then have res: "driveWithPayload an a r vn p st =
        ((outcome StateApplying False, Some (causedBy RefusalStore (rcCommandID r) x)), g1, tr1)"
      using D st by simp
    have "tr1 = tr \<or> tr1 = tr @ [(APrefix (prefixOf r), anPrefix an (prefixOf r) = None)]" using fc(1) by blast
    then show ?thesis
    proof
      assume "tr1 = tr"
      then show ?thesis using res st fc(2) by (intro exI [of _ "[]"]) (auto simp: reports_def noReject_def)
    next
      assume "tr1 = tr @ [(APrefix (prefixOf r), anPrefix an (prefixOf r) = None)]"
      then show ?thesis using res st fc(2) lp
        by (intro exI [of _ "[(APrefix (prefixOf r), anPrefix an (prefixOf r) = None)]"])
          (auto simp: reports_def noReject_def)
    qed
  next
    case None
    then have t: "tr1 = tr @ [(APrefix (prefixOf r), True)]" using fc(1) by auto
    define g2 where "g2 = loseLease (anLost an AtDrive) g1"
    define d where "d = (ADrive (rcCommandID r) (rcRuntimeCommandID r) p, anRuntime an = None)"
    have sticky: "guardHeld g \<noteq> None \<longrightarrow> guardHeld g2 \<noteq> None" using fc(2) loseLease_lost g2_def by blast
    have ld: "lawful an a r 3 [(APrefix (prefixOf r), True), d]" by (rule lawful_drive [OF assms d_def, of _ "[]"]) simp_all
    have bad: "reports an a r 3 st ((o', Some e'), g2, tr1 @ [d]) [(APrefix (prefixOf r), True), d]" for o' e'
      using t st ld sticky by (simp add: reports_def)
    have nr: "noReject [(APrefix (prefixOf r), True), d]" by (simp add: noReject_def d_def)
    note D' = D [unfolded None, simplified, folded g2_def d_def]
    show ?thesis
    proof (cases "guardHeld g2")
      case (Some x)
      then have "reports an a r 3 st (driveWithPayload an a r vn p st) [(APrefix (prefixOf r), True)]"
        using D' t st lp by (simp add: reports_def)
      then show ?thesis by (intro exI conjI) (auto simp: noReject_def)
    next
      case held: None
      show ?thesis
      proof (cases "anRuntime an")
        case (Some x)
        then show ?thesis using D' held st bad nr by (intro exI conjI) auto
      next
        case rt: None
        show ?thesis
        proof (cases "anSettled an")
          case (Inl x)
          then show ?thesis using D' held rt st bad nr by (intro exI conjI) auto
        next
          case (Inr app)
          show ?thesis
          proof (cases "apOutcome app = ApplicationCommitted")
            case False
            then show ?thesis using D' held rt Inr st bad nr by (intro exI conjI) auto
          next
            case True
            obtain o' e' g3 tr3 where c: "complete an a r vn app (g2, tr1 @ [d]) = ((o', e'), g3, tr3)"
              by (metis prod.collapse)
            obtain cl where cl: "tr3 = (tr1 @ [d]) @ cl" "cl = [] \<or> (\<exists>c b. cl = [(AComplete (rcCommandID r) c, b)] \<and>
                cpEpoch c = aplEpoch a \<and> cpEffect c = effect app (anNow an AtSettle))"
              "e' = None \<longrightarrow> settledIn (rcCommandID r) cl \<or> guardHeld g3 \<noteq> None"
              using complete_log(1) [OF c] by blast
            have res: "driveWithPayload an a r vn p st = ((o', e'), g3, tr3)"
              using D' held rt Inr True st c by simp
            have "lawful an a r 3 ([(APrefix (prefixOf r), True), d] @ cl)"
              by (rule lawful_drive [OF assms d_def refl]) (use cl(2) rt True Inr in auto)
            moreover have "settledIn (rcCommandID r) cl \<Longrightarrow> settledIn (rcCommandID r) ([(APrefix (prefixOf r), True), d] @ cl)"
              by (auto simp: settledIn_def)
            ultimately have "reports an a r 3 st (driveWithPayload an a r vn p st) ([(APrefix (prefixOf r), True), d] @ cl)"
              unfolding res using t st cl(1,3) sticky complete_log(2) [OF c] by (simp add: reports_def) blast
            moreover have "noReject ([(APrefix (prefixOf r), True), d] @ cl)"
              using cl(2) by (auto simp: noReject_def d_def)
            ultimately show ?thesis by blast
          qed
        qed
      qed
    qed
  qed
qed

lemma reports_mono: "reports an a r n st res log \<Longrightarrow> m \<le> n \<Longrightarrow> reports an a r m st res log"
  using lawful_mono by (auto simp: reports_def)

lemma drive_reports: "\<exists>log. reports an a r 3 st (drive an a r vn st) log"
proof (cases "anPayload an")
  case (Inl x)
  then show ?thesis by (intro exI [of _ "[]"]) (simp add: drive_def reports_def)
next
  case (Inr p)
  show ?thesis
  proof (cases "checkPayload r p")
    case None
    then show ?thesis using driveWithPayload_reports [OF None, of an a st vn] Inr by (auto simp: drive_def)
  next
    case (Some x)
    then show ?thesis using Inr by (intro exI [of _ "[]"]) (simp add: drive_def reports_def)
  qed
qed

lemma beginApplying_reports:
  assumes "checkPayload r p = None"
  shows "\<exists>log. reports an a r 2 st (beginApplying an a r vn p st) log"
proof -
  define al where "al = \<lparr> alExpectedRevision = vn, alEpoch = aplEpoch a,
    alExpiresAt = anNow an AtApplying + aplClaimTTL a \<rparr>"
  obtain err st' where f: "fenced an AtApplying (ABegin (rcCommandID r) al) (errOf (anBegin an al)) st = (err, st')"
    by (metis prod.collapse)
  note D = beginApplying_def [of an a r vn p st, folded al_def, unfolded Let_def f]
  obtain log where l: "reports an a r 3 st' (driveWithPayload an a r (revisionOf (anBegin an al)) p st') log" "noReject log"
    using driveWithPayload_reports [OF assms, of an a st' "revisionOf (anBegin an al)"] by blast
  show ?thesis
  proof (rule reports_step [OF f])
    show "rank (ABegin (rcCommandID r) al) = 2" by (simp add: rank_def)
    show "beginApplying an a r vn p st = ((outcome StateClaimed False,
        Some (causedBy RefusalStore (rcCommandID r) (the err))), st') \<and>
        Some (causedBy RefusalStore (rcCommandID r) (the err)) \<noteq> None" if "err \<noteq> None"
      using that by (auto simp: D)
    show "reports an a r (Suc 2) st' (beginApplying an a r vn p st) log" if "err = None"
      using that l(1) by (simp add: D)
  qed (use l(2) in \<open>auto simp: noReject_def\<close>)
qed

lemma applyClaimed_reports: "\<exists>log. reports an a r 2 st (applyClaimed an a r vn st) log"
proof (cases "anPayload an")
  case (Inl x)
  then show ?thesis by (intro exI [of _ "[]"]) (simp add: applyClaimed_def reports_def)
next
  case (Inr p)
  show ?thesis
  proof (cases "checkPayload r p")
    case None
    note b = beginApplying_reports [OF None, of an a st vn]
    show ?thesis
    proof (cases "rcKind r = KindGateResponse")
      case False
      then show ?thesis using b Inr None by (simp add: applyClaimed_def)
    next
      case True
      show ?thesis
      proof (cases "gateRejection an a r p")
        case (Inl x)
        then show ?thesis using True Inr None by (intro exI [of _ "[]"]) (simp add: applyClaimed_def reports_def)
      next
        case g: (Inr d)
        then show ?thesis using True Inr None b reject_reports [of an a r st vn]
          by (cases d) (auto simp: applyClaimed_def)
      qed
    qed
  next
    case (Some x)
    then show ?thesis using Inr by (intro exI [of _ "[]"]) (simp add: applyClaimed_def reports_def)
  qed
qed

lemma claimThenApply_reports: "\<exists>log. reports an a r 1 st (claimThenApply an a r st) log"
proof -
  define cl where "cl = \<lparr> clExpectedRevision = rcRevision r, clEpoch = aplEpoch a,
    clExpiresAt = anNow an AtClaim + aplClaimTTL a \<rparr>"
  obtain err st' where f: "fenced an AtClaim (AClaim (rcCommandID r) cl) (errOf (anClaim an cl)) st = (err, st')"
    by (metis prod.collapse)
  note D = claimThenApply_def [of an a r st, folded cl_def, unfolded Let_def f]
  obtain log where l: "reports an a r 2 st' (applyClaimed an a r (revisionOf (anClaim an cl)) st') log"
    using applyClaimed_reports by blast
  show ?thesis
  proof (rule reports_step [OF f])
    show "rank (AClaim (rcCommandID r) cl) = 1" by (simp add: rank_def)
    show "claimThenApply an a r st = ((outcome (rcState r) False,
        Some (causedBy RefusalStore (rcCommandID r) (the err))), st') \<and>
        Some (causedBy RefusalStore (rcCommandID r) (the err)) \<noteq> None" if "err \<noteq> None"
      using that by (auto simp: D)
    show "reports an a r (Suc 1) st' (claimThenApply an a r st) log" if "err = None"
      using that l by (simp add: D numeral_2_eq_2)
  qed auto
qed

lemma plan_complete: "plan a r app now = Inr stepComplete \<Longrightarrow> apOutcome app = ApplicationCommitted \<and> rcState r = StateApplying"
  by (auto simp: plan_def planApplying_def Let_def split: if_splits option.splits)

lemma runStep_reports:
  assumes "anApplication an = Inr app" "plan a r app now = Inr s"
  shows "\<exists>log. reports an a r 1 st (runStep an a r app s st) log"
proof (cases s)
  case stepComplete
  obtain g tr where st: "st = (g, tr)" by (cases st)
  obtain o' e' g' tr' where c: "complete an a r (rcRevision r) app (g, tr) = ((o', e'), g', tr')" by (metis prod.collapse)
  obtain cl where cl: "tr' = tr @ cl" "cl = [] \<or> (\<exists>c b. cl = [(AComplete (rcCommandID r) c, b)] \<and>
      cpEpoch c = aplEpoch a \<and> cpEffect c = effect app (anNow an AtSettle))"
    "e' = None \<longrightarrow> settledIn (rcCommandID r) cl \<or> guardHeld g' \<noteq> None"
    using complete_log(1) [OF c] by blast
  have p: "apOutcome app = ApplicationCommitted \<and> rcState r = StateApplying"
    using plan_complete assms(2) stepComplete by blast
  have "lawful an a r 1 cl"
    using cl(2) p assms(1) by (auto simp: lawful_def drivesOK_def completesOK_def rejectsOK_def rank_def)
  then show ?thesis using stepComplete st c cl complete_log(2) [OF c]
    by (intro exI [of _ cl]) (simp add: runStep_def reports_def)
next
  case stepReject
  then show ?thesis using reject_reports reports_mono [of an a r 2 _ _ _ 1] by (simp add: runStep_def) blast
next
  case stepApplyUnderHeldClaim
  then show ?thesis using applyClaimed_reports reports_mono [of an a r 2 _ _ _ 1] by (simp add: runStep_def) blast
next
  case stepDriveApplyingRecord
  then show ?thesis using drive_reports reports_mono [of an a r 3 _ _ _ 1] by (simp add: runStep_def) blast
next
  case stepClaim
  then show ?thesis using claimThenApply_reports by (simp add: runStep_def)
qed

lemma Process_reports:
  assumes "Process an a command (g, tr) = ((o', e), g', tr')"
  shows "\<exists>log. tr' = tr @ log \<and> (guardHeld g \<noteq> None \<longrightarrow> guardHeld g' \<noteq> None) \<and>
    (log = [] \<and> e \<noteq> None \<or>
     (\<exists>r rest. anLoad an = Inr r \<and> log = (ARead r, True) # rest \<and> lawful an a r 0 log \<and>
        (rest \<noteq> [] \<longrightarrow> checkRecord a r command = None \<and> \<not> Terminal (rcState r) \<and>
           (\<exists>app s. anApplication an = Inr app \<and> plan a r app (anNow an AtPlan) = Inr s)) \<and>
        (e = None \<longrightarrow> rcCommandID r = cmCommandID command \<and>
           (Terminal (rcState r) \<or> settledIn (cmCommandID command) log \<or> guardHeld g' \<noteq> None))))"
proof (cases "anLoad an")
  case (Inl x)
  then show ?thesis using assms by (auto simp: Process_def)
next
  case (Inr r)
  note load = Inr
  have l0: "lawful an a r 0 [(ARead r, True)]" by (rule lawful_failed) (simp_all add: rank_def)
  show ?thesis
  proof (cases "\<exists>app s. checkRecord a r command = None \<and> \<not> Terminal (rcState r) \<and> anApplication an = Inr app \<and>
      plan a r app (anNow an AtPlan) = Inr s")
    case False
    then have "tr' = tr @ [(ARead r, True)]" "g' = g"
      "e = None \<Longrightarrow> checkRecord a r command = None \<and> Terminal (rcState r)"
      using assms load by (auto simp: Process_def Let_def split: option.splits if_splits sum.splits)
    then show ?thesis using load l0
      by (intro exI [of _ "[(ARead r, True)]"]) (auto simp: checkRecord_def split: if_splits)
  next
    case True
    then obtain app s where s: "checkRecord a r command = None" "\<not> Terminal (rcState r)" "anApplication an = Inr app"
      "plan a r app (anNow an AtPlan) = Inr s" by blast
    let ?st = "(g, tr @ [(ARead r, True)])"
    have run: "runStep an a r app s ?st = ((o', e), g', tr')"
      using assms load s by (simp add: Process_def)
    obtain log where l: "reports an a r 1 ?st (runStep an a r app s ?st) log"
      using runStep_reports [OF s(3,4)] by blast
    have "lawful an a r 0 ((ARead r, True) # log)"
      using l by (intro lawful_Cons) (auto simp: reports_def rank_def)
    moreover have "rcCommandID r = cmCommandID command" using s(1) by (auto simp: checkRecord_def split: if_splits)
    moreover have "settledIn i log \<Longrightarrow> settledIn i ((ARead r, True) # log)" for i by (auto simp: settledIn_def)
    ultimately show ?thesis using l [unfolded run] load s
      by (intro exI [of _ "(ARead r, True) # log"]) (auto simp: reports_def)
  qed
qed

section \<open>The applier as the consumer's processor\<close>

text \<open>The collaborators may answer differently for every command and after every write.\<close>

definition processWith ::
  "(Command \<Rightarrow> trace \<Rightarrow> Answers) \<Rightarrow> Applier \<Rightarrow> Command \<Rightarrow> epochFence option \<times> trace \<Rightarrow>
   (Err + Outcome) \<times> epochFence option \<times> trace" where
  "processWith env a command st =
     (case Process (env command (snd st)) a command st of
        ((o', e), st') \<Rightarrow> ((case e of None \<Rightarrow> Inr o' | Some x \<Rightarrow> Inl (ErrOther (aerCommandID x))), st'))"

text \<open>A command is settled when a terminal record was read or a terminal write was accepted.\<close>

definition settledTrace :: "Command \<Rightarrow> trace \<Rightarrow> bool" where
  "settledTrace command tr =
     (settledIn (cmCommandID command) tr \<or>
      (\<exists>r. (ARead r, True) \<in> set tr \<and> rcCommandID r = cmCommandID command \<and> Terminal (rcState r)))"

lemma settledTrace_append: "settledTrace r tr \<Longrightarrow> settledTrace r (tr @ log)"
  by (auto simp: settledTrace_def settledIn_def)

lemma processWith_cases:
  assumes "processWith env a r (g, p) = (out, g', p')"
  shows "guardHeld g \<noteq> None \<Longrightarrow> guardHeld g' \<noteq> None"
    and "accepted out \<Longrightarrow> settledTrace r p' \<or> guardHeld g' \<noteq> None"
    and "settledTrace x p \<Longrightarrow> settledTrace x p'"
proof -
  obtain o' e st' where p: "Process (env r p) a r (g, p) = ((o', e), st')" by (metis prod.collapse)
  then have st: "st' = (g', p')" and out: "accepted out \<Longrightarrow> e = None"
    using assms by (auto simp: processWith_def accepted_def split: option.splits)
  note reports = Process_reports [OF p [unfolded st]]
  from reports show "guardHeld g \<noteq> None \<Longrightarrow> guardHeld g' \<noteq> None" by (elim exE conjE) simp
  from reports show "settledTrace x p \<Longrightarrow> settledTrace x p'"
    by (elim exE conjE) (simp add: settledTrace_append)
  show "settledTrace r p' \<or> guardHeld g' \<noteq> None" if "accepted out"
  proof -
    have e: "e = None" using out that by blast
    from reports show ?thesis
    proof (elim exE conjE disjE)
      fix log rc rest
      assume l: "p' = p @ log" "log = (ARead rc, True) # rest"
        and n: "e = None \<longrightarrow> rcCommandID rc = cmCommandID r \<and>
          (Terminal (rcState rc) \<or> settledIn (cmCommandID r) log \<or> guardHeld g' \<noteq> None)"
      have "settledIn (cmCommandID r) log \<Longrightarrow> settledTrace r p'" using l(1) by (auto simp: settledTrace_def settledIn_def)
      moreover have "Terminal (rcState rc) \<and> rcCommandID rc = cmCommandID r \<Longrightarrow> settledTrace r p'"
        using l by (auto simp: settledTrace_def)
      ultimately show ?thesis using n e by blast
    qed (use e in simp)
  qed
qed

interpretation applier: settling_processor "processWith env a" settledTrace for env a
proof (unfold_locales, goal_cases)
  case (1 r g p out g' p')
  then show ?case by (rule processWith_cases(1))
next
  case (2 r g p out g' p')
  then show ?case by (rule processWith_cases(2))
next
  case (3 r' g p out g' p' r)
  then show ?case by (rule processWith_cases(3))
qed

lemma Process_committed:
  assumes "Process an a command (g, tr) = ((o', e), g', tr @ log)"
    and "anApplication an = Inr app" "apOutcome app = ApplicationCommitted" "x \<in> set log"
  shows "rank (fst x) = 0 \<or> (\<exists>i c. fst x = AComplete i c)"
proof (cases "\<exists>r s. anLoad an = Inr r \<and> checkRecord a r command = None \<and> \<not> Terminal (rcState r) \<and>
    plan a r app (anNow an AtPlan) = Inr s")
  case False
  then have "log = [] \<or> (\<exists>r. log = [(ARead r, True)])"
    using assms(1,2) by (auto simp: Process_def Let_def split: sum.splits option.splits if_splits)
  then show ?thesis using assms(4) by (auto simp: rank_def)
next
  case True
  then obtain r s where s: "anLoad an = Inr r" "checkRecord a r command = None" "\<not> Terminal (rcState r)"
    "plan a r app (anNow an AtPlan) = Inr s" by blast
  have "s = stepComplete"
    using s(4) assms(3) by (auto simp: plan_def Let_def split: if_splits option.splits)
  then have "complete an a r (rcRevision r) app (g, tr @ [(ARead r, True)]) = ((o', e), g', tr @ log)"
    using assms(1,2) s by (simp add: Process_def runStep_def)
  from complete_log(1) [OF this] obtain cl where "log = (ARead r, True) # cl"
    "cl = [] \<or> (\<exists>c b. cl = [(AComplete (rcCommandID r) c, b)])" by auto
  then show ?thesis using assms(4) by (auto simp: rank_def)
qed

section \<open>Properties\<close>

text \<open>A record this epoch may act on.\<close>

definition owns :: "Applier \<Rightarrow> Record \<Rightarrow> Application \<Rightarrow> bool" where
  "owns a r app \<longleftrightarrow> \<not> rcClaimEpoch r > aplEpoch a \<and> \<not> apSupersedingEpoch app > aplEpoch a \<and>
     outcomeKnown (apOutcome app) \<and> apOutcome app \<noteq> ApplicationConflicted \<and>
     (apOutcome app \<noteq> ApplicationAbsent \<longrightarrow> apCommandID app = rcCommandID r \<and>
        apRuntimeCommandID app = rcRuntimeCommandID r \<and> \<not> apPrefixEpoch app > aplEpoch a)"

text \<open>
  The recovery planner decides exactly as follows, for a record this epoch may
  act on: no claim and no journal fence above it, a journal outcome that is known and
  not conflicted, and a journal prefix, if there is one, of this command and runtime
  command and of no later epoch.  It completes exactly an applying record whose effect
  is committed.  It rejects exactly an applying record of an earlier epoch whose claim
  has lapsed, when the journal proves there is no effect and has fenced that epoch out.
  It drives again only its own epoch's applying record, with no effect in the journal.
  It applies under a live claim only when the claim is its own, and takes a new claim
  only with no live claim, on a kind it knows and before the deadline.  Any other
  record is refused.
\<close>

theorem plan_decides:
  "(plan a r app now = Inr stepComplete \<longleftrightarrow>
      owns a r app \<and> apOutcome app = ApplicationCommitted \<and> rcState r = StateApplying) \<and>
    (plan a r app now = Inr stepReject \<longleftrightarrow>
      owns a r app \<and> provesNoEffect app \<and> rcState r = StateApplying \<and> \<not> now < rcClaimExpiresAt r \<and>
      rcClaimEpoch r < aplEpoch a \<and> rcClaimEpoch r < apSupersedingEpoch app) \<and>
    (plan a r app now = Inr stepDriveApplyingRecord \<longleftrightarrow>
      owns a r app \<and> provesNoEffect app \<and> rcState r = StateApplying \<and> rcClaimEpoch r = aplEpoch a) \<and>
    (plan a r app now = Inr stepApplyUnderHeldClaim \<longleftrightarrow>
      owns a r app \<and> apOutcome app \<noteq> ApplicationCommitted \<and> rcState r \<noteq> StateApplying \<and>
      now < rcClaimExpiresAt r \<and> rcClaimEpoch r = aplEpoch a) \<and>
    (plan a r app now = Inr stepClaim \<longleftrightarrow>
      owns a r app \<and> apOutcome app \<noteq> ApplicationCommitted \<and> rcState r \<noteq> StateApplying \<and>
      \<not> now < rcClaimExpiresAt r \<and> kindKnown (rcKind r) \<and> now < rcApplyDeadline r)"
proof -
  have none: "checkApplication a r app = None \<and> \<not> rcClaimEpoch r > aplEpoch a \<and> \<not> fences app (aplEpoch a) \<longleftrightarrow> owns a r app"
    by (auto simp: checkApplication_def owns_def hasPrefix_def fences_def)
  show ?thesis
  proof (cases "owns a r app")
    case False
    then have "\<exists>x. plan a r app now = Inl x" using none by (auto simp: plan_def split: option.splits)
    then show ?thesis using False by auto
  next
    case True
    then have p: "plan a r app now =
        (if apOutcome app = ApplicationCommitted
         then (if rcState r \<noteq> StateApplying then Inl RefusalCorrelation else Inr stepComplete)
         else if now < rcClaimExpiresAt r \<and> rcClaimEpoch r \<noteq> aplEpoch a then Inl RefusalClaimHeld
         else if rcState r = StateApplying then planApplying a r app
         else if now < rcClaimExpiresAt r then Inr stepApplyUnderHeldClaim
         else if \<not> kindKnown (rcKind r) then Inl RefusalUnsupportedKind
         else if \<not> now < rcApplyDeadline r then Inl RefusalDeadlinePassed
         else Inr stepClaim)"
      using none by (simp add: plan_def Let_def)
    have le: "rcClaimEpoch r \<noteq> aplEpoch a \<longleftrightarrow> rcClaimEpoch r < aplEpoch a"
      using True by (auto simp: owns_def)
    have no: "provesNoEffect app \<longleftrightarrow> apOutcome app \<noteq> ApplicationCommitted \<and> apOutcome app \<noteq> ApplicationUnresolved"
      using True by (cases "apOutcome app") (auto simp: owns_def provesNoEffect_def outcomeKnown_def)
    show ?thesis unfolding p using True le no
      by (simp add: planApplying_def fences_def)
  qed
qed

definition example_record :: Record where
  "example_record = \<lparr> rcTenantID = ''t'', rcSessionID = ''s'', rcCommandID = ''a'', rcRuntimeCommandID = 9,
     rcKind = KindInput, rcState = StatePending, rcAcceptedOrder = 3, rcRevision = 1, rcApplyDeadline = 100,
     rcClaimEpoch = 0, rcClaimExpiresAt = 0 \<rparr>"

definition example_application :: Application where
  "example_application = \<lparr> apCommandID = ''a'', apRuntimeCommandID = 9, apOutcome = ApplicationAbandoned,
     apPrefixEpoch = 4, apEffectEventID = ''e'', apEffectSeq = 12, apSupersedingEpoch = 4 \<rparr>"

definition example_applier :: Applier where
  "example_applier = \<lparr> aplHostID = ''h'', aplClaimTTL = 30, aplKey = example_key, aplEpoch = 4 \<rparr>"

theorem plan_decides_witness:
  "plan example_applier (example_record\<lparr> rcState := StateApplying, rcClaimEpoch := 3 \<rparr>) example_application 50 =
     Inr stepReject"
  by (simp add: plan_decides [THEN conjunct2, THEN conjunct1] example_applier_def example_record_def
      example_application_def outcomeKnown_def provesNoEffect_def owns_def)

text \<open>
  One command is applied in protocol order and at most once per pass, whatever
  the stores, the journal, the runtime and the lease do.  The trace grows by a log that
  starts with the durable record and goes through claim, applying, prefix, drive and
  settlement in this order, each at most once and only after the one before succeeded.
  The runtime is driven only with the record's own identifiers, a checked payload and
  its prefix accepted in the same log, and never when the journal already holds the
  effect.  A completion names an effect the journal reported as committed, from an
  applying record or after a successful drive.  A rejection is never written after the
  command was moved into applying in that pass.  Without an error the record was
  terminal already, was settled by this pass, or the grant is gone.
\<close>

theorem Process_in_order:
  assumes "Process an a command (g, tr) = ((o', e), g', tr')"
  shows "\<exists>log. tr' = tr @ log \<and> orderly log \<and>
    (\<forall>i rt p b. (ADrive i rt p, b) \<in> set log \<longrightarrow>
       (\<exists>r app. anLoad an = Inr r \<and> i = cmCommandID command \<and> rt = rcRuntimeCommandID r \<and>
          checkPayload r p = None \<and> (APrefix (prefixOf r), True) \<in> set log \<and>
          anApplication an = Inr app \<and> apOutcome app \<noteq> ApplicationCommitted)) \<and>
    (\<forall>i c b. (AComplete i c, b) \<in> set log \<longrightarrow>
       (\<exists>r app. anLoad an = Inr r \<and> i = cmCommandID command \<and> apOutcome app = ApplicationCommitted \<and>
          cpEffect c = effect app (anNow an AtSettle) \<and>
          (anApplication an = Inr app \<and> rcState r = StateApplying \<or>
           anSettled an = Inr app \<and> (\<exists>p. (ADrive i (rcRuntimeCommandID r) p, True) \<in> set log)))) \<and>
    (\<forall>i j b. (AReject i j, b) \<in> set log \<longrightarrow>
       i = cmCommandID command \<and> (\<forall>x\<in>set log. rank (fst x) \<le> 1 \<or> x = (AReject i j, b))) \<and>
    (e = None \<longrightarrow> settledTrace command log \<or> guardHeld g' \<noteq> None)"
  using Process_reports [OF assms]
proof (elim exE conjE disjE)
  fix log assume "tr' = tr @ log" "log = []" "e \<noteq> None"
  then show ?thesis by (intro exI [of _ "[]"]) auto
next
  fix log r rest
  assume t: "tr' = tr @ log" and load: "anLoad an = Inr r" and l: "log = (ARead r, True) # rest"
    and law: "lawful an a r 0 log"
    and run: "rest \<noteq> [] \<longrightarrow> checkRecord a r command = None \<and> \<not> Terminal (rcState r) \<and>
       (\<exists>app s. anApplication an = Inr app \<and> plan a r app (anNow an AtPlan) = Inr s)"
    and fin: "e = None \<longrightarrow> rcCommandID r = cmCommandID command \<and>
       (Terminal (rcState r) \<or> settledIn (cmCommandID command) log \<or> guardHeld g' \<noteq> None)"
  have rest: "rest \<noteq> []" if "(act, b) \<in> set log" "rank act \<noteq> 0" for act b
    using that l by (auto simp: rank_def)
  have id: "rcCommandID r = cmCommandID command" if "rest \<noteq> []"
    using run that by (auto simp: checkRecord_def split: if_splits)
  have dr: "\<exists>r app. anLoad an = Inr r \<and> i = cmCommandID command \<and> rt = rcRuntimeCommandID r \<and>
      checkPayload r p = None \<and> (APrefix (prefixOf r), True) \<in> set log \<and>
      anApplication an = Inr app \<and> apOutcome app \<noteq> ApplicationCommitted"
    if d: "(ADrive i rt p, b) \<in> set log" for i rt p b
  proof -
    have n: "rest \<noteq> []" using rest [OF d] by (simp add: rank_def)
    then obtain app where app: "anApplication an = Inr app" using run by blast
    have "apOutcome app \<noteq> ApplicationCommitted"
      using Process_committed [OF assms [unfolded t] app _ d] by (auto simp: rank_def)
    then show ?thesis using law d app id [OF n] load unfolding lawful_def drivesOK_def by blast
  qed
  have co: "\<exists>r app. anLoad an = Inr r \<and> i = cmCommandID command \<and> apOutcome app = ApplicationCommitted \<and>
      cpEffect c = effect app (anNow an AtSettle) \<and>
      (anApplication an = Inr app \<and> rcState r = StateApplying \<or>
       anSettled an = Inr app \<and> (\<exists>p. (ADrive i (rcRuntimeCommandID r) p, True) \<in> set log))"
    if d: "(AComplete i c, b) \<in> set log" for i c b
  proof -
    have "rest \<noteq> []" using rest [OF d] by (simp add: rank_def)
    then show ?thesis using law d id load unfolding lawful_def completesOK_def by metis
  qed
  have re: "i = cmCommandID command \<and> (\<forall>x\<in>set log. rank (fst x) \<le> 1 \<or> x = (AReject i j, b))"
    if d: "(AReject i j, b) \<in> set log" for i j b
  proof -
    have "rest \<noteq> []" using rest [OF d] by (simp add: rank_def)
    then show ?thesis using law d id unfolding lawful_def rejectsOK_def by metis
  qed
  have se: "settledTrace command log \<or> guardHeld g' \<noteq> None" if "e = None"
    using fin that l by (auto simp: settledTrace_def)
  show ?thesis
  proof (intro exI [of _ log] conjI)
    show "tr' = tr @ log" by (rule t)
    show "orderly log" using law by (simp add: lawful_def)
  qed (intro allI impI, (erule dr | erule co | erule re | erule se))+
qed

definition example_answers :: Answers where
  "example_answers =
     \<lparr> anLoad = Inr example_record,
       anApplication = Inr (example_application\<lparr> apOutcome := ApplicationAbsent, apSupersedingEpoch := 0 \<rparr>),
       anSettled = Inr (example_application\<lparr> apOutcome := ApplicationCommitted \<rparr>),
       anPayload = Inr \<lparr> plBody = ''x'', plRef = [] \<rparr>, anDecode = \<lambda>_. None, anGate = \<lambda>_. Inr None,
       anClaim = \<lambda>_. Inr 2, anBegin = \<lambda>_. Inr 3, anPrefix = \<lambda>_. None, anRuntime = None,
       anComplete = \<lambda>_. None, anReject = \<lambda>_. None, anEventValid = \<lambda>i. i \<noteq> [], anDetailValid = \<lambda>_. True,
       anNow = \<lambda>_. 50, anLost = \<lambda>_. False \<rparr>"

lemma example_fenced:
  assumes "\<not> anLost an pt"
  shows "fenced an pt act None (Some (newEpochFence (Some False)), tr) =
    (None, Some (newEpochFence (Some False)), tr @ [(act, True)])"
proof -
  let ?g = "Some (newEpochFence (Some False))" and ?run = "\<lambda>tr. (None, tr @ [(act, True)])"
  have "guardWrite ?run (?g, tr) = (None, ?g, tr @ [(act, True)])"
    using guard.runs [of ?g ?run tr] guard.keeps [of ?g ?run tr] example_held
    by (cases "guardWrite ?run (?g, tr)") simp
  then show ?thesis using assms by (simp add: fenced_def fencedAct_def loseLease_def)
qed

lemma example_Process:
  "\<exists>o' tr'. Process example_answers example_applier (example_command ''a'' 3 StatePending)
     (Some (newEpochFence (Some False)), []) = ((o', None), Some (newEpochFence (Some False)), tr') \<and> length tr' = 6"
  by (simp add: Process_def example_fenced example_held example_answers_def example_record_def example_applier_def
      example_application_def checkRecord_def known_def Terminal_def plan_def checkApplication_def outcomeKnown_def
      hasPrefix_def fences_def kindKnown_def runStep_def claimThenApply_def applyClaimed_def checkPayload_def
      wellFormed_def present_def beginApplying_def driveWithPayload_def complete_def Effect_Validate_def effect_def
      errOf_def revisionOf_def example_command_def example_key_def loseLease_def Let_def newEpochFence_def [symmetric])

theorem Process_in_order_witness:
  "\<exists>tr'. settledTrace (example_command ''a'' 3 StatePending) tr' \<and> orderly tr' \<and> length tr' = 6"
proof -
  obtain o' tr' where p: "Process example_answers example_applier (example_command ''a'' 3 StatePending)
      (Some (newEpochFence (Some False)), []) = ((o', None), Some (newEpochFence (Some False)), tr')" "length tr' = 6"
    using example_Process by blast
  from Process_in_order [OF p(1)] show ?thesis using p(2) example_held by auto
qed

text \<open>
  The cursor passes only settled commands.  With the applier as the consumer's
  processor, over an inbox in acceptance order, a pass moves the durable cursor past a
  command only when the command is terminal: already in the listing, in the record the
  applier read, or by a completion or rejection the store accepted.  An outcome the
  applier reports because the grant was lost never moves it, since the cursor save goes
  through the same fence.
\<close>

theorem cursor_passes_only_settled:
  assumes "pcProcess pc = processWith env a"
    and "\<And>cursor limit. pcList pc cursor limit = Inr (inboxOf records cursor limit)" "ordered records"
    and "Reconcile pc c ps = ((res, err), c', ps')"
    and "r \<in> set records" "psCursor ps < cmAcceptedOrder r" "cmAcceptedOrder r \<le> psCursor ps'"
  shows "Terminal (cmState r) \<or> settledTrace r (psProc ps')"
  by (rule applier.cursor_passes_settled [OF assms])

definition example_applying :: "trace Collaborators" where
  "example_applying =
     \<lparr> pcIdValid = \<lambda>i. i \<noteq> [],
       pcList = \<lambda>cursor limit. Inr (inboxOf [example_command ''a'' 3 StatePending] cursor limit),
       pcProcess = processWith (\<lambda>_ _. example_answers) example_applier, pcCtxErr = \<lambda>_. False,
       pcLoadErr = None, pcSaveErr = \<lambda>_. None \<rparr>"

definition example_applying_pass :: "trace PassState" where
  "example_applying_pass = \<lparr> psGuard = Some (newEpochFence (Some False)), psCursor = 2, psProc = [] \<rparr>"

lemma example_applies:
  "psCursor (snd (snd (Reconcile example_applying example_consumer example_applying_pass))) = 3"
proof -
  obtain o' tr' where p: "Process example_answers example_applier (example_command ''a'' 3 StatePending)
      (Some (newEpochFence (Some False)), []) = ((o', None), Some (newEpochFence (Some False)), tr')"
    using example_Process by blast
  have o': "Terminal (ouState o')"
    using p by (simp add: Process_def example_fenced example_held example_answers_def example_record_def
      example_applier_def example_application_def checkRecord_def known_def Terminal_def plan_def checkApplication_def
      outcomeKnown_def hasPrefix_def fences_def kindKnown_def runStep_def claimThenApply_def applyClaimed_def
      checkPayload_def wellFormed_def present_def beginApplying_def driveWithPayload_def complete_def
      Effect_Validate_def effect_def errOf_def revisionOf_def example_command_def example_key_def loseLease_def Let_def
      newEpochFence_def [symmetric] outcome_def) auto
  show ?thesis
    using p o' by (simp add: Reconcile_def example_held example_save loadCursor_def validatePage_def
      example_applying_def example_applying_pass_def example_consumer_def example_command_def example_key_def
      inboxOf_def processWith_def known_def Terminal_def finishPass_def emptyPass_def)
qed

end
