(* ===== verification/Bodies.thy ===== *)
theory Bodies
  imports Host_Prelude
begin

text \<open>
  The private bodies of commands: \<^verbatim>\<open>internal/bodyclass\<close>, \<^verbatim>\<open>createbody\<close>, \<^verbatim>\<open>inputbody\<close>,
  \<^verbatim>\<open>controlbody\<close> and \<^verbatim>\<open>gateresponse\<close>.  Each package decodes a body with Core's JSON codec and
  decides whether it names the command it is stored under; a body that cannot be decoded
  is malformed when no Host could ever read it, and unsupported when a newer Host might.

  The codec is Core's and is a parameter: a record of decoders and the one encoder the
  create body uses.  A decode failure is what \<open>errors.As\<close> finds in it.  Principals,
  metadata and content blocks are opaque.
\<close>

section \<open>Decoding\<close>

datatype ValidationCode =
    InvalidJSON | DuplicateField | MissingField | InvalidField | ValidationOther string

record DecodeFailure =
  dfValidation :: "ValidationCode option"
  dfSyntax :: bool
  dfTypeError :: bool

definition Permanent :: "DecodeFailure \<Rightarrow> bool" where
  "Permanent e =
     (case dfValidation e of
        Some code \<Rightarrow>
          (case code of
             InvalidJSON \<Rightarrow> True | DuplicateField \<Rightarrow> True | MissingField \<Rightarrow> True | InvalidField \<Rightarrow> True
           | ValidationOther _ \<Rightarrow> False)
      | None \<Rightarrow> dfSyntax e \<or> dfTypeError e)"

record Members =
  mbPrincipal :: "handle option"
  mbMetadata :: handle

definition noMembers :: Members where
  "noMembers = \<lparr> mbPrincipal = None, mbMetadata = 0 \<rparr>"

text \<open>The requests of Core, reduced to what these packages read; the envelope carries the command.\<close>

record Envelope =
  evCommandID :: string
  evRest :: handle

record CreateRequest =
  crEnvelope :: Envelope
  crSessionID :: session_id
  crBlocks :: "handle list"
  crMetadata :: handle
  crPrincipal :: "handle option"

record InputRequest =
  irEnvelope :: Envelope
  irSessionID :: session_id
  irBlocks :: "handle list"
  irMetadata :: handle
  irPrincipal :: "handle option"

record ControlRequest =
  ctCommandID :: string
  ctSessionID :: session_id
  ctPrincipal :: "handle option"

record GateRequest =
  gqCommandID :: string
  gqSessionID :: session_id
  gqGateID :: string
  gqPrincipal :: "handle option"
  gqExpectedOpenEventID :: string
  gqExpectedOpenJournalSeq :: u64

record Codec =
  cdCreate :: "string \<Rightarrow> DecodeFailure + CreateRequest"
  cdInput :: "string \<Rightarrow> DecodeFailure + InputRequest"
  cdInterrupt :: "string \<Rightarrow> DecodeFailure + ControlRequest"
  cdRestore :: "string \<Rightarrow> DecodeFailure + ControlRequest"
  cdGate :: "string \<Rightarrow> DecodeFailure + GateRequest"
  cdGateValid :: "GateRequest \<Rightarrow> bool"
  cdGateUUID :: "string \<Rightarrow> nat option"
  cdMarshalInput :: "InputRequest \<Rightarrow> string option"

datatype BodyError = Malformed | Unsupported

section \<open>Bodies\<close>

definition classify :: "DecodeFailure \<Rightarrow> BodyError" where
  "classify e = (if Permanent e then Malformed else Unsupported)"

definition decodeCreate :: "Codec \<Rightarrow> string \<Rightarrow> BodyError + CreateRequest" where
  "decodeCreate cd body =
     (if length body = 0 then Inl Malformed
      else (case cdCreate cd body of Inl e \<Rightarrow> Inl (classify e) | Inr request \<Rightarrow> Inr request))"

text \<open>The create body's blocks as an input body, or nothing when it has none.\<close>

definition FirstMessage :: "Codec \<Rightarrow> string \<Rightarrow> BodyError + string option" where
  "FirstMessage cd body =
     (case decodeCreate cd body of
        Inl e \<Rightarrow> Inl e
      | Inr request \<Rightarrow>
          if length (crBlocks request) = 0 then Inr None
          else (case cdMarshalInput cd
                      \<lparr> irEnvelope = crEnvelope request, irSessionID = crSessionID request,
                        irBlocks = crBlocks request, irMetadata = crMetadata request,
                        irPrincipal = crPrincipal request \<rparr> of
                  None \<Rightarrow> Inl Malformed
                | Some presented \<Rightarrow> Inr (Some presented)))"

definition checkCreate :: "Codec \<Rightarrow> string \<Rightarrow> session_id \<Rightarrow> string \<Rightarrow> BodyError + Members" where
  "checkCreate cd body session command =
     (case decodeCreate cd body of
        Inl e \<Rightarrow> Inl e
      | Inr request \<Rightarrow>
          if crSessionID request \<noteq> session \<or> evCommandID (crEnvelope request) \<noteq> command then Inl Malformed
          else Inr \<lparr> mbPrincipal = crPrincipal request, mbMetadata = crMetadata request \<rparr>)"

definition checkInput :: "Codec \<Rightarrow> string \<Rightarrow> session_id \<Rightarrow> string \<Rightarrow> BodyError + Members" where
  "checkInput cd body session command =
     (if length body = 0 then Inl Malformed
      else (case cdInput cd body of
              Inl e \<Rightarrow> if Permanent e then Inl Malformed else Inl Unsupported
            | Inr request \<Rightarrow>
                if irSessionID request \<noteq> session \<or> evCommandID (irEnvelope request) \<noteq> command
                then Inl Malformed
                else Inr \<lparr> mbPrincipal = irPrincipal request, mbMetadata = irMetadata request \<rparr>))"

definition checkControlBody ::
  "string \<Rightarrow> (string \<Rightarrow> DecodeFailure + ControlRequest) \<Rightarrow> session_id \<Rightarrow> string \<Rightarrow> BodyError + Members" where
  "checkControlBody body decode session command =
     (if length body = 0 then Inr noMembers
      else (case decode body of
              Inl e \<Rightarrow> if Permanent e then Inl Malformed else Inl Unsupported
            | Inr request \<Rightarrow>
                if ctSessionID request \<noteq> session \<or> ctCommandID request \<noteq> command then Inl Malformed
                else Inr (noMembers\<lparr> mbPrincipal := ctPrincipal request \<rparr>)))"

definition CheckInterrupt :: "Codec \<Rightarrow> string \<Rightarrow> session_id \<Rightarrow> string \<Rightarrow> BodyError + Members" where
  "CheckInterrupt cd body session command = checkControlBody body (cdInterrupt cd) session command"

definition CheckRestore :: "Codec \<Rightarrow> string \<Rightarrow> session_id \<Rightarrow> string \<Rightarrow> BodyError + Members" where
  "CheckRestore cd body session command = checkControlBody body (cdRestore cd) session command"

record Response =
  reRequest :: GateRequest
  reGateID :: nat

definition Decode :: "Codec \<Rightarrow> string \<Rightarrow> session_id \<Rightarrow> string \<Rightarrow> BodyError + Response" where
  "Decode cd body session command =
     (if length body = 0 then Inl Malformed
      else (case cdGate cd body of
              Inl e \<Rightarrow> if \<not> Permanent e then Inl Unsupported else Inl Malformed
            | Inr request \<Rightarrow>
                if \<not> cdGateValid cd request then Inl Malformed
                else if gqSessionID request \<noteq> session \<or> gqCommandID request \<noteq> command then Inl Malformed
                else (case cdGateUUID cd (gqGateID request) of
                        None \<Rightarrow> Inl Malformed
                      | Some gate \<Rightarrow>
                          if gate = 0 then Inl Malformed
                          else Inr \<lparr> reRequest = request, reGateID = gate \<rparr>)))"
section \<open>Properties\<close>

text \<open>What the code relies on in Core's codec: an encoded input request decodes to itself.\<close>

definition codecOK :: "Codec \<Rightarrow> bool" where
  "codecOK cd \<longleftrightarrow> (\<forall>request s. cdMarshalInput cd request = Some s \<longrightarrow> s \<noteq> [] \<and> cdInput cd s = Inr request)"

text \<open>
  C38: the first message of a create is the input it stands for.  When the codec decodes
  what it encodes, the body \<open>FirstMessage\<close> presents decodes as an input request with the
  create's own envelope, session, blocks, metadata and principal, and the input check
  answers on it exactly what the create check answers on the create body, for every
  session and command: accepted with the same members, or refused the same way.  A
  create without blocks presents nothing.
\<close>

theorem FirstMessage_roundtrip:
  assumes "codecOK cd" and "cdCreate cd body = Inr create" "body \<noteq> []"
    and "FirstMessage cd body = Inr presented"
  shows "(presented = None \<longleftrightarrow> crBlocks create = []) \<and>
    (\<forall>p. presented = Some p \<longrightarrow>
       (\<exists>input. cdInput cd p = Inr input \<and> irEnvelope input = crEnvelope create \<and>
          irSessionID input = crSessionID create \<and> irBlocks input = crBlocks create \<and>
          irMetadata input = crMetadata create \<and> irPrincipal input = crPrincipal create) \<and>
       (\<forall>session command. checkInput cd p session command = checkCreate cd body session command))"
proof -
  let ?i = "\<lparr> irEnvelope = crEnvelope create, irSessionID = crSessionID create, irBlocks = crBlocks create,
    irMetadata = crMetadata create, irPrincipal = crPrincipal create \<rparr>"
  have d: "decodeCreate cd body = Inr create" using assms(2,3) by (simp add: decodeCreate_def)
  have f: "presented = (if crBlocks create = [] then None else cdMarshalInput cd ?i)" "crBlocks create \<noteq> [] \<Longrightarrow> presented \<noteq> None"
    using assms(4) d by (cases "cdMarshalInput cd ?i"; auto simp: FirstMessage_def split: if_splits)+
  have i: "p \<noteq> [] \<and> cdInput cd p = Inr ?i" if "presented = Some p" for p
    using that f(1) assms(1) by (auto simp: codecOK_def split: if_splits)
  have c: "checkInput cd p session command = checkCreate cd body session command" if "presented = Some p" for p session command
    using i [OF that] d by (simp add: checkInput_def checkCreate_def)
  show ?thesis using f i c by auto
qed

definition example_create :: CreateRequest where
  "example_create = \<lparr> crEnvelope = \<lparr> evCommandID = ''a'', evRest = 1 \<rparr>, crSessionID = ''s'', crBlocks = [7],
     crMetadata = 3, crPrincipal = Some 5 \<rparr>"

definition example_input :: InputRequest where
  "example_input = \<lparr> irEnvelope = \<lparr> evCommandID = ''a'', evRest = 1 \<rparr>, irSessionID = ''s'', irBlocks = [7],
     irMetadata = 3, irPrincipal = Some 5 \<rparr>"

definition example_failure :: DecodeFailure where
  "example_failure = \<lparr> dfValidation = Some InvalidJSON, dfSyntax = False, dfTypeError = False \<rparr>"

definition example_codec :: Codec where
  "example_codec = \<lparr> cdCreate = \<lambda>s. if s = ''c'' then Inr example_create else Inl example_failure,
     cdInput = \<lambda>s. if s = ''i'' then Inr example_input else Inl example_failure,
     cdInterrupt = \<lambda>_. Inl example_failure, cdRestore = \<lambda>_. Inl example_failure, cdGate = \<lambda>_. Inl example_failure,
     cdGateValid = \<lambda>_. True, cdGateUUID = \<lambda>_. Some 1,
     cdMarshalInput = \<lambda>r. if r = example_input then Some ''i'' else None \<rparr>"

theorem FirstMessage_roundtrip_witness:
  "checkInput example_codec ''i'' ''s'' ''a'' = checkCreate example_codec ''c'' ''s'' ''a''"
proof -
  have "codecOK example_codec" by (simp add: codecOK_def example_codec_def)
  moreover have "FirstMessage example_codec ''c'' = Inr (Some ''i'')"
    by (simp add: FirstMessage_def decodeCreate_def example_codec_def example_create_def example_input_def)
  ultimately show ?thesis
    using FirstMessage_roundtrip [of example_codec "''c''" example_create "Some ''i''"]
    by (simp add: example_codec_def)
qed

end
