(* ===== verification/Disposition.thy ===== *)
theory Disposition
  imports Applier Bodies
begin

text \<open>
  The disposition applier, \<^verbatim>\<open>internal/commands/disposition.go\<close> and
  \<^verbatim>\<open>disposition_applier.go\<close>: the processor the Host composes for the command consumer.  A
  command is claimed, its private body fetched and checked, an attempt durably authorised
  and dispatched to the runtime once, and the store settles it from the runtime's own
  durable disposition; an applying record is never dispatched again, it is settled, or
  its stranded attempt is closed first when a later journal grant is held.

  As in theory \<open>Applier\<close> the collaborators are a record of answers, the lease may be lost
  before every durable write, and the state is the Guard and the trace of what was read
  and attempted.  The store's payload bound, SHA-256 and Core's codec are parameters.
\<close>

section \<open>Records\<close>

definition MaxAttemptIDBytes :: nat where "MaxAttemptIDBytes = 256"

definition AttemptID_Validate :: "string \<Rightarrow> ApplyRefusal option" where
  "AttemptID_Validate i =
     (if i = [] then Some RefusalInvalidAttempt
      else if length i > MaxAttemptIDBytes then Some RefusalInvalidAttempt
      else if \<not> ValidString i then Some RefusalInvalidAttempt
      else None)"

record DispositionRecord =
  drTenantID :: tenant_id
  drSessionID :: session_id
  drCommandID :: string
  drRuntimeCommandID :: nat
  drKind :: Kind
  drState :: State
  drAcceptedOrder :: u64
  drRevision :: u64
  drApplyDeadline :: instant
  drClaimResidencyEpoch :: u64
  drClaimExpiresAt :: instant
  drAttemptID :: string
  drAttemptJournalEpoch :: u64
  drAttemptResidencyEpoch :: u64

definition hasAttempt :: "DispositionRecord \<Rightarrow> bool" where
  "hasAttempt r = (drAttemptID r \<noteq> [])"

record DispositionClaim =
  dcExpectedRevision :: u64
  dcExpiresAt :: instant

record DispositionAttempt =
  dtExpectedRevision :: u64
  dtAttemptID :: string
  dtJournalEpoch :: u64
  dtResidencyEpoch :: u64
  dtStartedAt :: instant

record DispositionSettlement =
  dsExpectedRevision :: u64
  dsResidencyEpoch :: u64

record DispositionRejection =
  dnExpectedRevision :: u64
  dnResidencyEpoch :: u64

section \<open>Referenced bodies\<close>

datatype KeyspaceCode =
    KeyspaceBindingNotFound | KeyspaceScopeInvalid | KeyspaceHashCollision | KeyspaceLegacyTenant
  | KeyspaceLegacySession | KeyspaceOther string

datatype ObjectErrorCode =
    ObjectErrorInvalid | ObjectErrorSize | ObjectErrorDigest | ObjectErrorIntegrity
  | ObjectErrorMetadataUnavailable | ObjectErrorOther string

text \<open>What \<open>errors.As\<close> finds in a failure of the object store.\<close>

record ObjectFailure =
  ofKeyspace :: "KeyspaceCode option"
  ofIdentity :: bool
  ofObject :: "ObjectErrorCode option"
  ofMissing :: bool

definition permanentKeyspace :: "KeyspaceCode \<Rightarrow> bool" where
  "permanentKeyspace c = (case c of KeyspaceOther _ \<Rightarrow> False | _ \<Rightarrow> True)"

definition permanentObject :: "ObjectErrorCode \<Rightarrow> bool" where
  "permanentObject c = (case c of ObjectErrorOther _ \<Rightarrow> False | _ \<Rightarrow> True)"

definition permanentObjectFailure :: "ObjectFailure \<Rightarrow> bool" where
  "permanentObjectFailure e =
     (if (case ofKeyspace e of Some c \<Rightarrow> permanentKeyspace c | None \<Rightarrow> False) then True
      else if ofIdentity e then True
      else if (case ofObject e of Some c \<Rightarrow> permanentObject c | None \<Rightarrow> False) then True
      else ofMissing e)"

record ObjectMetadata =
  omReference :: object_reference
  omSizeBytes :: u64
  omDigest :: string

text \<open>
  What the object store answers: the metadata, the reader's content, its read and close
  errors; \<open>oaCtx n\<close> says whether the context is done at its \<open>n\<close>-th check.
\<close>

record ObjectAnswers =
  oaMetadata :: "ObjectFailure + ObjectMetadata"
  oaContent :: "ObjectFailure + string"
  oaReadErr :: "ObjectFailure option"
  oaCloseErr :: "ObjectFailure option"
  oaCtx :: "nat \<Rightarrow> bool"
  oaSHA256 :: "string \<Rightarrow> string"

definition TrimPrefix :: "string \<Rightarrow> string \<Rightarrow> string" where
  "TrimPrefix s p = (if prefix p s then drop (length p) s else s)"

datatype Fetch = FetchBad | FetchFault | FetchBody string

definition failed :: "bool \<Rightarrow> ObjectFailure \<Rightarrow> Fetch" where
  "failed ctxDone e = (if ctxDone then FetchFault else if permanentObjectFailure e then FetchBad else FetchFault)"

definition fetchObject :: "ObjectAnswers \<Rightarrow> nat \<Rightarrow> object_reference \<Rightarrow> Fetch" where
  "fetchObject oa maxBody ref =
     (if oaCtx oa 0 then FetchFault
      else (case oaMetadata oa of
              Inl e \<Rightarrow> failed (oaCtx oa 1) e
            | Inr metadata \<Rightarrow>
                if omReference metadata \<noteq> ref \<or> omSizeBytes metadata > of_nat maxBody \<or> omDigest metadata = [] \<or>
                   \<not> prefix ''v1:command-payload:'' ref \<or>
                   \<not> suffix ('':'' @ TrimPrefix (omDigest metadata) ''sha256:'') ref
                then FetchBad
                else (case oaContent oa of
                        Inl e \<Rightarrow> failed (oaCtx oa 2) e
                      | Inr content \<Rightarrow>
                          (let body = take (maxBody + 1) content; n = length body in
                           case oaReadErr oa of
                             Some e \<Rightarrow> failed (oaCtx oa 3) e
                           | None \<Rightarrow>
                               (case oaCloseErr oa of
                                  Some e \<Rightarrow> failed (oaCtx oa 4) e
                                | None \<Rightarrow>
                                    if oaCtx oa 5 then FetchFault
                                    else if n > maxBody \<or> of_nat n \<noteq> omSizeBytes metadata then FetchBad
                                    else if omDigest metadata \<noteq> ''sha256:'' @ oaSHA256 oa body then FetchBad
                                    else FetchBody body)))))"

section \<open>The applier and what it acts on\<close>

record DispositionApplier =
  dpHostID :: host_id
  dpClaimTTL :: int
  dpKey :: Key
  dpResidency :: u64
  dpMaxBody :: nat

definition DefaultMaxCommandBodyBytes :: int where "DefaultMaxCommandBodyBytes = 8 * 2 ^ 20"
definition MaxCommandBodyBytesLimit :: int where "MaxCommandBodyBytesLimit = 16 * 2 ^ 20"

record DispositionApplierOptions =
  wHost :: "Host option"
  wClock :: bool
  wKey :: Key
  wResidencyEpoch :: u64
  wMaxCommandBodyBytes :: int
  wRecords :: "handle option"
  wWrites :: "handle option"
  wRuntime :: "handle option"
  wJournalEpochs :: "handle option"
  wAttempts :: "handle option"
  wFence :: "handle option"

definition NewDispositionApplier :: "int \<Rightarrow> DispositionApplierOptions \<Rightarrow> ConsumerError + DispositionApplier" where
  "NewDispositionApplier maxInboxPayload w =
     (let maxBody = (if wMaxCommandBodyBytes w = 0 then DefaultMaxCommandBodyBytes else wMaxCommandBodyBytes w) in
      if maxBody \<le> maxInboxPayload \<or> maxBody > MaxCommandBodyBytesLimit
      then Inl (InvalidConsumerOptions ''MaxCommandBodyBytes'')
      else (case wHost w of
              None \<Rightarrow> Inl (InvalidConsumerOptions ''Host'')
            | Some h \<Rightarrow>
                if unusableClaimer h (wClock w) \<noteq> [] then Inl (UnusableHost (unusableClaimer h (wClock w)))
                else if TenantID (wKey w) = [] \<or> SessionID (wKey w) = [] then Inl (InvalidConsumerOptions ''Key'')
                else if wResidencyEpoch w = 0 then Inl (InvalidConsumerOptions ''ResidencyEpoch'')
                else (case requirePresent [(''Records'', wRecords w \<noteq> None), (''Writes'', wWrites w \<noteq> None),
                        (''Runtime'', wRuntime w \<noteq> None), (''JournalEpochs'', wJournalEpochs w \<noteq> None),
                        (''Attempts'', wAttempts w \<noteq> None), (''Fence'', wFence w \<noteq> None)] of
                        Some e \<Rightarrow> Inl e
                      | None \<Rightarrow>
                          Inr \<lparr> dpHostID = hID h, dpClaimTTL = hClaimTTL h, dpKey = wKey w,
                            dpResidency = wResidencyEpoch w, dpMaxBody = nat maxBody \<rparr>)))"

text \<open>What a failed dispatch and a failed closure carry.\<close>

record RuntimeFailure =
  rfUnsupported :: bool
  rfPrefixCommitted :: bool
  rfErr :: Err

datatype CloseFailure = CloseNoCloser Err | CloseEnduring Err | CloseOther Err

datatype DPoint = DAtPlan | DAtClaim | DAtReject | DAtBegin | DAtSettle | DAtResettle

record DAnswers =
  daLoad :: "Err + DispositionRecord"
  daPayload :: "Err + Payload"
  daObjects :: "ObjectAnswers option"
  daCodec :: Codec
  daGates :: "(string \<Rightarrow> Err + (Gate \<times> bool)) option"
  daJournal :: "u64 \<times> bool"
  daAttempt :: "Err + string"
  daClaim :: "DispositionClaim \<Rightarrow> Err + u64"
  daReject :: "DispositionRejection \<Rightarrow> Err option"
  daBegin :: "DispositionAttempt \<Rightarrow> Err + u64"
  daRuntime :: "RuntimeFailure option"
  daSettle :: "DPoint \<Rightarrow> DispositionSettlement \<Rightarrow> Err + State"
  daCloser :: "CloseFailure option option"
  daCtxDone :: bool
  daStranded :: bool
  daAsApplyError :: "Err \<Rightarrow> ApplyError option"
  daUnroutable :: "Err \<Rightarrow> bool"
  daNow :: "DPoint \<Rightarrow> instant"
  daLost :: "DPoint \<Rightarrow> bool"

datatype DAct =
    DRead DispositionRecord
  | DClaim string DispositionClaim
  | DReject string DispositionRejection
  | DBegin string DispositionAttempt
  | DDispatch string nat Kind Payload string Members
  | DSettle string DispositionSettlement
  | DClose string nat Kind string u64
  | DStranded string

type_synonym dtrace = "(DAct \<times> bool) list"
type_synonym disp_state = "epochFence option \<times> dtrace"
section \<open>Operations\<close>

definition storeRefusal :: "DAnswers \<Rightarrow> DispositionRecord \<Rightarrow> Err \<Rightarrow> ApplyError" where
  "storeRefusal da r e =
     (case daAsApplyError da e of Some ae \<Rightarrow> ae | None \<Rightarrow> causedBy RefusalStore (drCommandID r) e)"

text \<open>Rejecting a command no Host could apply: the error, or that it is rejected.\<close>

definition rejectDisposition ::
  "DAnswers \<Rightarrow> DispositionApplier \<Rightarrow> DispositionRecord \<Rightarrow> u64 \<Rightarrow> disp_state \<Rightarrow> ApplyError option \<times> disp_state" where
  "rejectDisposition da a r vn st =
     (let rejection = \<lparr> dnExpectedRevision = vn, dnResidencyEpoch = dpResidency a \<rparr> in
      case fencedAct (daLost da DAtReject) (DReject (drCommandID r) rejection) (daReject da rejection) st of
        (Some e, st') \<Rightarrow> (Some (storeRefusal da r e), st')
      | (None, st') \<Rightarrow> (None, st'))"

text \<open>
  The checks before an attempt answer an error, that the command was rejected
  (\<open>Inr None\<close>), or what they let through.
\<close>

definition rejectedBody ::
  "DAnswers \<Rightarrow> DispositionApplier \<Rightarrow> DispositionRecord \<Rightarrow> u64 \<Rightarrow> disp_state \<Rightarrow>
   (ApplyError + 'a option) \<times> disp_state" where
  "rejectedBody da a r vn st =
     (case rejectDisposition da a r vn st of
        (Some e, st') \<Rightarrow> (Inl e, st')
      | (None, st') \<Rightarrow> (Inr None, st'))"

definition dereference ::
  "DAnswers \<Rightarrow> DispositionApplier \<Rightarrow> DispositionRecord \<Rightarrow> u64 \<Rightarrow> Payload \<Rightarrow> disp_state \<Rightarrow>
   (ApplyError + Payload option) \<times> disp_state" where
  "dereference da a r vn payload st =
     (case daObjects da of
        None \<Rightarrow> (Inr (Some payload), st)
      | Some oa \<Rightarrow>
          (case fetchObject oa (dpMaxBody a) (plRef payload) of
             FetchBad \<Rightarrow> rejectedBody da a r vn st
           | FetchFault \<Rightarrow> (Inl (applyError RefusalStore (drCommandID r)), st)
           | FetchBody body \<Rightarrow> (Inr (Some \<lparr> plBody = body, plRef = [] \<rparr>), st)))"

definition classifyBody ::
  "DAnswers \<Rightarrow> DispositionApplier \<Rightarrow> DispositionRecord \<Rightarrow> u64 \<Rightarrow> BodyError + Members \<Rightarrow> ApplyRefusal \<Rightarrow>
   disp_state \<Rightarrow> (ApplyError + Members option) \<times> disp_state" where
  "classifyBody da a r vn checked blocked st =
     (case checked of
        Inr members \<Rightarrow> (Inr (Some members), st)
      | Inl Malformed \<Rightarrow> rejectedBody da a r vn st
      | Inl Unsupported \<Rightarrow> (Inl (applyError blocked (drCommandID r)), st))"

definition checkGateResponse ::
  "DAnswers \<Rightarrow> DispositionApplier \<Rightarrow> DispositionRecord \<Rightarrow> u64 \<Rightarrow> Payload \<Rightarrow> disp_state \<Rightarrow>
   (ApplyError + Members option) \<times> disp_state" where
  "checkGateResponse da a r vn payload st =
     (if length (plBody payload) = 0 \<and> plRef payload \<noteq> [] then rejectedBody da a r vn st
      else (case Decode (daCodec da) (plBody payload) (SessionID (dpKey a)) (drCommandID r) of
              Inl Unsupported \<Rightarrow> (Inl (applyError RefusalUnreadableGateResponse (drCommandID r)), st)
            | Inl Malformed \<Rightarrow> rejectedBody da a r vn st
            | Inr response \<Rightarrow>
                (case daGates da of
                   None \<Rightarrow> (Inl (applyError RefusalNoGateReader (drCommandID r)), st)
                 | Some gates \<Rightarrow>
                     (let request = reRequest response; members = noMembers\<lparr> mbPrincipal := gqPrincipal request \<rparr> in
                      case gates (gqGateID request) of
                        Inl e \<Rightarrow> (Inl (causedBy RefusalStore (drCommandID r) e), st)
                      | Inr (gate, found) \<Rightarrow>
                          if gtOwnerEpoch gate \<noteq> dpResidency a
                          then (Inl (applyError RefusalGateNotOwned (drCommandID r)), st)
                          else if \<not> found \<or> \<not> gtOpen gate then (Inr (Some members), st)
                          else if (gqExpectedOpenEventID request \<noteq> [] \<and>
                                   gqExpectedOpenEventID request \<noteq> gtOpenedEventID gate) \<or>
                                  (gqExpectedOpenJournalSeq request \<noteq> 0 \<and>
                                   gqExpectedOpenJournalSeq request \<noteq> gtOpenedJournalSeq gate)
                          then rejectedBody da a r vn st
                          else (Inr (Some members), st)))))"

definition checkBody ::
  "DAnswers \<Rightarrow> DispositionApplier \<Rightarrow> DispositionRecord \<Rightarrow> u64 \<Rightarrow> Payload \<Rightarrow> disp_state \<Rightarrow>
   (ApplyError + Members option) \<times> disp_state" where
  "checkBody da a r vn payload st =
     (let cd = daCodec da; session = SessionID (dpKey a); command = drCommandID r; body = plBody payload in
      case drKind r of
        KindGateResponse \<Rightarrow> checkGateResponse da a r vn payload st
      | KindCreate \<Rightarrow>
          if plRef payload \<noteq> [] then (Inl (applyError RefusalUnreadableCreate command), st)
          else classifyBody da a r vn (checkCreate cd body session command) RefusalUnreadableCreate st
      | kind \<Rightarrow>
          if plRef payload \<noteq> [] then (Inl (applyError RefusalUnreadableCommand command), st)
          else (case kind of
                  KindInput \<Rightarrow>
                    classifyBody da a r vn (checkInput cd body session command) RefusalUnreadableCommand st
                | KindInterrupt \<Rightarrow>
                    classifyBody da a r vn (CheckInterrupt cd body session command) RefusalUnreadableCommand st
                | KindRestore \<Rightarrow>
                    classifyBody da a r vn (CheckRestore cd body session command) RefusalUnreadableCommand st
                | _ \<Rightarrow> (Inl (applyError RefusalUnreadableCommand command), st)))"

definition settle ::
  "DAnswers \<Rightarrow> DispositionApplier \<Rightarrow> DispositionRecord \<Rightarrow> u64 \<Rightarrow> DPoint \<Rightarrow> disp_state \<Rightarrow> apply_result \<times> disp_state" where
  "settle da a r vn pt st =
     (let settlement = \<lparr> dsExpectedRevision = vn, dsResidencyEpoch = dpResidency a \<rparr>;
          answer = daSettle da pt settlement in
      case fencedAct (daLost da pt) (DSettle (drCommandID r) settlement) (errOf answer) st of
        (Some e, st') \<Rightarrow>
          ((outcome StateApplying True,
            Some (causedBy (if daUnroutable da e then RefusalEvidenceUnroutable else RefusalEvidenceUnavailable)
                   (drCommandID r) e)), st')
      | (None, st') \<Rightarrow>
          ((outcome (case answer of Inr s \<Rightarrow> s | Inl e \<Rightarrow> StateUnknown []) True, None), st'))"

definition dispatchRefusal :: "DispositionRecord \<Rightarrow> RuntimeFailure \<Rightarrow> ApplyError" where
  "dispatchRefusal r f =
     causedBy (if rfUnsupported f then RefusalDispositionUnsupported else RefusalRuntime) (drCommandID r) (rfErr f)"

text \<open>The runtime is asked once; its failure, if any, goes to \<open>afterFailedDispatch\<close>.\<close>

definition dispatch ::
  "DAnswers \<Rightarrow> DispositionRecord \<Rightarrow> Payload \<Rightarrow> string \<Rightarrow> Members \<Rightarrow> disp_state \<Rightarrow> ApplyError option \<times> disp_state" where
  "dispatch da r payload attempt members st =
     (map_option (dispatchRefusal r) (daRuntime da),
      fst st, snd st @ [(DDispatch (drCommandID r) (drRuntimeCommandID r) (drKind r) payload attempt members,
                         daRuntime da = None)])"

definition afterFailedDispatch ::
  "DAnswers \<Rightarrow> DispositionApplier \<Rightarrow> DispositionRecord \<Rightarrow> u64 \<Rightarrow> ApplyError \<Rightarrow> disp_state \<Rightarrow>
   apply_result \<times> disp_state" where
  "afterFailedDispatch da a r applying problem st =
     (if aerRefusal problem \<noteq> RefusalRuntime \<or> daCtxDone da then ((outcome StateApplying True, Some problem), st)
      else (case settle da a r applying DAtSettle st of
              ((out, None), st') \<Rightarrow> ((out, None), st')
            | ((out, Some _), g, tr) \<Rightarrow>
                if drKind r = KindGateResponse \<and> (case daRuntime da of Some f \<Rightarrow> rfPrefixCommitted f | None \<Rightarrow> False)
                then ((outcome StateApplying True, Some problem), g, tr)
                else ((outcome StateApplying True, Some problem), g,
                      if daStranded da then tr @ [(DStranded (drCommandID r), True)] else tr)))"

definition beginAndDispatch ::
  "DAnswers \<Rightarrow> DispositionApplier \<Rightarrow> DispositionRecord \<Rightarrow> u64 \<Rightarrow> Payload \<Rightarrow> Members \<Rightarrow> u64 \<Rightarrow> string \<Rightarrow> disp_state \<Rightarrow>
   apply_result \<times> disp_state" where
  "beginAndDispatch da a r vn payload members journalEpoch attempt st =
     (let da' = \<lparr> dtExpectedRevision = vn, dtAttemptID = attempt, dtJournalEpoch = journalEpoch,
                  dtResidencyEpoch = dpResidency a, dtStartedAt = daNow da DAtBegin \<rparr>;
          answer = daBegin da da' in
      case fencedAct (daLost da DAtBegin) (DBegin (drCommandID r) da') (errOf answer) st of
        (Some e, st') \<Rightarrow> ((outcome StateClaimed False, Some (storeRefusal da r e)), st')
      | (None, st') \<Rightarrow>
          (case dispatch da r payload attempt members st' of
             (Some problem, st'') \<Rightarrow> afterFailedDispatch da a r (revisionOf answer) problem st''
           | (None, st'') \<Rightarrow> settle da a r (revisionOf answer) DAtSettle st''))"

definition authorize ::
  "DAnswers \<Rightarrow> DispositionApplier \<Rightarrow> DispositionRecord \<Rightarrow> u64 \<Rightarrow> Payload \<Rightarrow> Members \<Rightarrow> disp_state \<Rightarrow>
   apply_result \<times> disp_state" where
  "authorize da a r vn payload members st =
     (case daJournal da of
        (journalEpoch, granted) \<Rightarrow>
          if \<not> granted
          then ((outcome StateClaimed False, Some (applyError RefusalNoJournalGrant (drCommandID r))), st)
          else (case daAttempt da of
                  Inl e \<Rightarrow>
                    ((outcome StateClaimed False, Some (causedBy RefusalInvalidAttempt (drCommandID r) e)), st)
                | Inr attempt \<Rightarrow>
                    (case AttemptID_Validate attempt of
                       Some refusal \<Rightarrow> ((outcome StateClaimed False, Some (applyError refusal [])), st)
                     | None \<Rightarrow> beginAndDispatch da a r vn payload members journalEpoch attempt st)))"

definition checkedPayload ::
  "DAnswers \<Rightarrow> DispositionApplier \<Rightarrow> DispositionRecord \<Rightarrow> u64 \<Rightarrow> Payload \<Rightarrow> disp_state \<Rightarrow>
   (ApplyError + Payload option) \<times> disp_state" where
  "checkedPayload da a r vn payload st =
     (if \<not> wellFormed payload then rejectedBody da a r vn st
      else if plRef payload \<noteq> [] then dereference da a r vn payload st
      else (Inr (Some payload), st))"

definition authorizeAndDispatch ::
  "DAnswers \<Rightarrow> DispositionApplier \<Rightarrow> DispositionRecord \<Rightarrow> u64 \<Rightarrow> disp_state \<Rightarrow> apply_result \<times> disp_state" where
  "authorizeAndDispatch da a r vn st =
     (case daPayload da of
        Inl e \<Rightarrow> ((outcome StateClaimed False, Some (causedBy RefusalStore (drCommandID r) e)), st)
      | Inr payload0 \<Rightarrow>
          (case checkedPayload da a r vn payload0 st of
             (Inl e, st1) \<Rightarrow> ((outcome StateClaimed False, Some e), st1)
           | (Inr None, st1) \<Rightarrow> ((outcome StateRejected False, None), st1)
           | (Inr (Some payload), st1) \<Rightarrow>
               (case checkBody da a r vn payload st1 of
                  (Inl e, st2) \<Rightarrow> ((outcome StateClaimed False, Some e), st2)
                | (Inr None, st2) \<Rightarrow> ((outcome StateRejected False, None), st2)
                | (Inr (Some members), st2) \<Rightarrow> authorize da a r vn payload members st2)))"

definition claimThenDispatch ::
  "DAnswers \<Rightarrow> DispositionApplier \<Rightarrow> DispositionRecord \<Rightarrow> disp_state \<Rightarrow> apply_result \<times> disp_state" where
  "claimThenDispatch da a r st =
     (let claim = \<lparr> dcExpectedRevision = drRevision r, dcExpiresAt = daNow da DAtClaim + dpClaimTTL a \<rparr>;
          answer = daClaim da claim in
      case fencedAct (daLost da DAtClaim) (DClaim (drCommandID r) claim) (errOf answer) st of
        (Some e, st') \<Rightarrow> ((outcome (drState r) False, Some (storeRefusal da r e)), st')
      | (None, st') \<Rightarrow> authorizeAndDispatch da a r (revisionOf answer) st')"

definition closeAttempt ::
  "DAnswers \<Rightarrow> DispositionRecord \<Rightarrow> disp_state \<Rightarrow> ApplyError option \<times> disp_state" where
  "closeAttempt da r st =
     (case daCloser da of
        None \<Rightarrow> (Some (applyError RefusalNoAttemptCloser (drCommandID r)), st)
      | Some answer \<Rightarrow>
          (let act = DClose (drCommandID r) (drRuntimeCommandID r) (drKind r) (drAttemptID r) (drAttemptJournalEpoch r);
               st' = (fst st, snd st @ [(act, answer = None)]) in
           case answer of
             None \<Rightarrow> (None, st')
           | Some (CloseNoCloser e) \<Rightarrow> (Some (causedBy RefusalNoAttemptCloser (drCommandID r) e), st')
           | Some (CloseEnduring e) \<Rightarrow> (Some (causedBy RefusalEnduringEffect (drCommandID r) e), st')
           | Some (CloseOther e) \<Rightarrow> (Some (causedBy RefusalStore (drCommandID r) e), st')))"

definition settleOrRecover ::
  "DAnswers \<Rightarrow> DispositionApplier \<Rightarrow> DispositionRecord \<Rightarrow> disp_state \<Rightarrow> apply_result \<times> disp_state" where
  "settleOrRecover da a r st =
     (if \<not> hasAttempt r
      then ((outcome StateApplying False, Some (applyError RefusalUnknownState (drCommandID r))), st)
      else (case daJournal da of
              (journalEpoch, granted) \<Rightarrow>
                if \<not> granted
                then ((outcome StateApplying True, Some (applyError RefusalNoJournalGrant (drCommandID r))), st)
                else (case settle da a r (drRevision r) DAtSettle st of
                        ((out, None), st1) \<Rightarrow> ((out, None), st1)
                      | ((out, Some e), st1) \<Rightarrow>
                          if drAttemptJournalEpoch r \<ge> journalEpoch then ((out, Some e), st1)
                          else (case closeAttempt da r st1 of
                                  (Some problem, st2) \<Rightarrow> ((outcome StateApplying True, Some problem), st2)
                                | (None, st2) \<Rightarrow> settle da a r (drRevision r) DAtResettle st2))))"

definition checkDispositionRecord :: "DispositionApplier \<Rightarrow> DispositionRecord \<Rightarrow> Command \<Rightarrow> ApplyRefusal option" where
  "checkDispositionRecord a r command =
     (if drTenantID r \<noteq> TenantID (dpKey a) \<or> drSessionID r \<noteq> SessionID (dpKey a) then Some RefusalForeignRecord
      else if drCommandID r \<noteq> cmCommandID command then Some RefusalForeignRecord
      else if drAcceptedOrder r \<noteq> cmAcceptedOrder command then Some RefusalForeignRecord
      else if drRevision r = 0 then Some RefusalUnrevisionedRecord
      else if \<not> known (drState r) then Some RefusalUnknownState
      else if \<not> kindKnown (drKind r) then Some RefusalUnsupportedKind
      else None)"

definition runDisposition ::
  "DAnswers \<Rightarrow> DispositionApplier \<Rightarrow> DispositionRecord \<Rightarrow> disp_state \<Rightarrow> apply_result \<times> disp_state" where
  "runDisposition da a r st =
     (case drState r of
        StateApplying \<Rightarrow> settleOrRecover da a r st
      | StateClaimed \<Rightarrow>
          if drClaimResidencyEpoch r \<noteq> dpResidency a \<or> \<not> drClaimExpiresAt r > daNow da DAtPlan
          then claimThenDispatch da a r st
          else authorizeAndDispatch da a r (drRevision r) st
      | _ \<Rightarrow> claimThenDispatch da a r st)"

definition DispositionProcess ::
  "DAnswers \<Rightarrow> DispositionApplier \<Rightarrow> Command \<Rightarrow> disp_state \<Rightarrow> apply_result \<times> disp_state" where
  "DispositionProcess da a command st =
     (case daLoad da of
        Inl e \<Rightarrow> ((outcome (cmState command) False, Some (causedBy RefusalStore (cmCommandID command) e)), st)
      | Inr r \<Rightarrow>
          (let st' = (fst st, snd st @ [(DRead r, True)]) in
           case checkDispositionRecord a r command of
             Some refusal \<Rightarrow>
               ((outcome (cmState command) False, Some (applyError refusal (cmCommandID command))), st')
           | None \<Rightarrow>
               if Terminal (drState r) then ((outcome (drState r) (hasAttempt r), None), st')
               else runDisposition da a r st'))"

section \<open>What a pass may do\<close>

text \<open>An attempt is authorised, dispatched once under the same identity, then settled or reported stranded.\<close>

definition dispatched :: "DAnswers \<Rightarrow> DispositionApplier \<Rightarrow> DispositionRecord \<Rightarrow> dtrace \<Rightarrow> bool" where
  "dispatched da a r log \<longleftrightarrow>
     log = [] \<or> (\<exists>t b. log = [(DBegin (drCommandID r) t, b)]) \<or>
     (\<exists>t p m b tail.
        log = (DBegin (drCommandID r) t, True) #
              (DDispatch (drCommandID r) (drRuntimeCommandID r) (drKind r) p (dtAttemptID t) m, b) # tail \<and>
        daJournal da = (dtJournalEpoch t, True) \<and> dtResidencyEpoch t = dpResidency a \<and>
        AttemptID_Validate (dtAttemptID t) = None \<and>
        (tail = [] \<or> tail = [(DStranded (drCommandID r), True)] \<or>
         (\<exists>s b'. tail = [(DSettle (drCommandID r) s, b')]) \<or>
         (\<exists>s. tail = [(DSettle (drCommandID r) s, False), (DStranded (drCommandID r), True)])))"

text \<open>An applying record: a settlement, and a closure between two of them under a later journal grant only.\<close>

definition recovered :: "DAnswers \<Rightarrow> DispositionRecord \<Rightarrow> dtrace \<Rightarrow> bool" where
  "recovered da r log \<longleftrightarrow>
     log = [] \<or> (\<exists>s b. log = [(DSettle (drCommandID r) s, b)]) \<or>
     (\<exists>s1 b s2. log = s1 @ (DClose (drCommandID r) (drRuntimeCommandID r) (drKind r) (drAttemptID r)
                              (drAttemptJournalEpoch r), b) # s2 \<and>
        (s1 = [] \<or> (\<exists>s. s1 = [(DSettle (drCommandID r) s, False)])) \<and>
        (s2 = [] \<or> b \<and> (\<exists>s b'. s2 = [(DSettle (drCommandID r) s, b')])) \<and>
        snd (daJournal da) \<and> drAttemptJournalEpoch r < fst (daJournal da) \<and> hasAttempt r)"

definition settledNow :: "string \<Rightarrow> dtrace \<Rightarrow> bool" where
  "settledNow i log \<longleftrightarrow> (\<exists>s. (DSettle i s, True) \<in> set log) \<or> (\<exists>j. (DReject i j, True) \<in> set log)"

text \<open>A body no Host could ever apply.\<close>

definition bodyBad :: "DAnswers \<Rightarrow> DispositionApplier \<Rightarrow> DispositionRecord \<Rightarrow> Payload \<Rightarrow> bool" where
  "bodyBad da a r p \<longleftrightarrow>
     (let cd = daCodec da; session = SessionID (dpKey a); command = drCommandID r in
      case drKind r of
        KindGateResponse \<Rightarrow>
          plBody p = [] \<and> plRef p \<noteq> [] \<or> Decode cd (plBody p) session command = Inl Malformed \<or>
          (\<exists>response gates gate. Decode cd (plBody p) session command = Inr response \<and> daGates da = Some gates \<and>
             gates (gqGateID (reRequest response)) = Inr (gate, True) \<and> gtOpen gate \<and>
             gtOwnerEpoch gate = dpResidency a \<and>
             (gqExpectedOpenEventID (reRequest response) \<notin> {[], gtOpenedEventID gate} \<or>
              gqExpectedOpenJournalSeq (reRequest response) \<notin> {0, gtOpenedJournalSeq gate}))
      | KindCreate \<Rightarrow> plRef p = [] \<and> checkCreate cd (plBody p) session command = Inl Malformed
      | KindInput \<Rightarrow> plRef p = [] \<and> checkInput cd (plBody p) session command = Inl Malformed
      | KindInterrupt \<Rightarrow> plRef p = [] \<and> CheckInterrupt cd (plBody p) session command = Inl Malformed
      | KindRestore \<Rightarrow> plRef p = [] \<and> CheckRestore cd (plBody p) session command = Inl Malformed
      | KindOther _ \<Rightarrow> False)"

text \<open>The payload the body check sees: the stored one, or the object it refers to.\<close>

definition resolved :: "DAnswers \<Rightarrow> DispositionApplier \<Rightarrow> Payload \<Rightarrow> Payload \<Rightarrow> bool" where
  "resolved da a p0 p \<longleftrightarrow>
     wellFormed p0 \<and>
     (p = p0 \<and> (plRef p0 = [] \<or> daObjects da = None) \<or>
      (\<exists>oa body. daObjects da = Some oa \<and> plRef p0 \<noteq> [] \<and>
         fetchObject oa (dpMaxBody a) (plRef p0) = FetchBody body \<and> p = \<lparr> plBody = body, plRef = [] \<rparr>))"

definition hopeless :: "DAnswers \<Rightarrow> DispositionApplier \<Rightarrow> DispositionRecord \<Rightarrow> bool" where
  "hopeless da a r \<longleftrightarrow>
     (\<exists>p0. daPayload da = Inr p0 \<and>
        (\<not> wellFormed p0 \<or>
         (\<exists>oa. daObjects da = Some oa \<and> plRef p0 \<noteq> [] \<and> fetchObject oa (dpMaxBody a) (plRef p0) = FetchBad) \<or>
         (\<exists>p. resolved da a p0 p \<and> bodyBad da a r p)))"

text \<open>A rejection of a command no Host could apply, or an attempt.\<close>

definition rejectedOr :: "DAnswers \<Rightarrow> DispositionApplier \<Rightarrow> DispositionRecord \<Rightarrow> dtrace \<Rightarrow> bool" where
  "rejectedOr da a r post \<longleftrightarrow>
     (\<exists>j b. post = [(DReject (drCommandID r) j, b)]) \<and> hopeless da a r \<or> dispatched da a r post"

text \<open>A pending or claimed record: perhaps a claim, then a rejection or an attempt.\<close>

definition attempted :: "DAnswers \<Rightarrow> DispositionApplier \<Rightarrow> DispositionRecord \<Rightarrow> dtrace \<Rightarrow> bool" where
  "attempted da a r log \<longleftrightarrow>
     (\<exists>pre post. log = pre @ post \<and>
        (pre = [] \<or> (\<exists>c b. pre = [(DClaim (drCommandID r) c, b)] \<and> (b \<or> post = []))) \<and> rejectedOr da a r post)"

section \<open>Lemmas\<close>

text \<open>A check of the body leaves the trace, or rejects.\<close>

definition checks :: "bool \<Rightarrow> string \<Rightarrow> disp_state \<Rightarrow> (ApplyError + 'a option) \<times> disp_state \<Rightarrow> bool" where
  "checks bad i st res \<longleftrightarrow>
     (guardHeld (fst st) \<noteq> None \<longrightarrow> guardHeld (fst (snd res)) \<noteq> None) \<and>
     (snd res = st \<and> fst res \<noteq> Inr None \<or>
      bad \<and> (\<exists>log. snd (snd res) = snd st @ log \<and> (\<forall>v. fst res \<noteq> Inr (Some v)) \<and>
        (log = [] \<or> (\<exists>j b. log = [(DReject i j, b)])) \<and> (fst res = Inr None \<longrightarrow> (\<exists>j. log = [(DReject i j, True)]))))"

lemma checks_pass: "fst res \<noteq> Inr None \<Longrightarrow> snd res = st \<Longrightarrow> checks bad i st res"
  by (simp add: checks_def)

lemma checks_pass' [simp]: "checks bad i st (Inl e, st)" "checks bad i st (Inr (Some v), st)"
  by (simp_all add: checks_def)

lemma rejectedBody_checks: "checks True (drCommandID r) st (rejectedBody da a r vn st)"
proof -
  obtain g tr where st: "st = (g, tr)" by (cases st)
  let ?j = "\<lparr> dnExpectedRevision = vn, dnResidencyEpoch = dpResidency a \<rparr>"
  obtain err g' tr' where f: "fencedAct (daLost da DAtReject) (DReject (drCommandID r) ?j) (daReject da ?j) (g, tr) = (err, g', tr')"
    by (metis prod.collapse)
  note fc = fencedAct_cases [OF f]
  show ?thesis
  proof (cases err)
    case None
    then have "tr' = tr @ [(DReject (drCommandID r) ?j, True)]" using fc(1) by auto
    then show ?thesis using None f fc(2) st by (auto simp: checks_def rejectedBody_def rejectDisposition_def)
  next
    case (Some e)
    have "tr' = tr \<or> tr' = tr @ [(DReject (drCommandID r) ?j, daReject da ?j = None)]" using fc(1) by blast
    then show ?thesis using Some f fc(2) st by (auto simp: checks_def rejectedBody_def rejectDisposition_def)
  qed
qed

lemma checks_bad: "checks bad i st res \<Longrightarrow> (bad \<Longrightarrow> bad') \<Longrightarrow> checks bad' i st res"
  by (auto simp: checks_def)

lemma rejectedBody_bad: "bad \<Longrightarrow> checks bad (drCommandID r) st (rejectedBody da a r vn st)"
  using checks_bad [OF rejectedBody_checks] by blast

lemma classifyBody_checks:
  "(checked = Inl Malformed \<Longrightarrow> bad) \<Longrightarrow> checks bad (drCommandID r) st (classifyBody da a r vn checked blocked st)"
  by (auto simp: classifyBody_def rejectedBody_bad split: sum.splits BodyError.splits)

lemma checkGateResponse_checks:
  assumes "drKind r = KindGateResponse"
  shows "checks (bodyBad da a r p) (drCommandID r) st (checkGateResponse da a r vn p st)"
proof (cases "plBody p = [] \<and> plRef p \<noteq> []")
  case True
  then show ?thesis using assms by (auto simp: checkGateResponse_def bodyBad_def Let_def intro!: rejectedBody_bad)
next
  case np: False
  let ?D = "Decode (daCodec da) (plBody p) (SessionID (dpKey a)) (drCommandID r)"
  show ?thesis
  proof (cases ?D)
    case (Inl e)
    then show ?thesis using assms np
      by (cases e) (auto simp: checkGateResponse_def bodyBad_def Let_def intro!: rejectedBody_bad)
  next
    case (Inr response)
    let ?q = "reRequest response"
    show ?thesis
    proof (cases "daGates da")
      case None
      then show ?thesis using Inr np by (auto simp: checkGateResponse_def)
    next
      case (Some gates)
      show ?thesis
      proof (cases "gates (gqGateID ?q)")
        case (Inl e)
        then show ?thesis using Inr np Some by (auto simp: checkGateResponse_def Let_def)
      next
        case g: (Inr gf)
        obtain gate found where gf: "gf = (gate, found)" by (cases gf)
        show ?thesis
        proof (cases "gtOwnerEpoch gate = dpResidency a \<and> found \<and> gtOpen gate \<and>
            (gqExpectedOpenEventID ?q \<notin> {[], gtOpenedEventID gate} \<or>
             gqExpectedOpenJournalSeq ?q \<notin> {0, gtOpenedJournalSeq gate})")
          case True
          then have "bodyBad da a r p" using assms Inr Some g gf by (auto simp: bodyBad_def Let_def)
          then show ?thesis using True Inr np Some g gf by (auto simp: checkGateResponse_def Let_def intro!: rejectedBody_bad)
        next
          case False
          then show ?thesis using Inr np Some g gf by (auto simp: checkGateResponse_def Let_def)
        qed
      qed
    qed
  qed
qed

lemma checkBody_checks: "checks (bodyBad da a r p) (drCommandID r) st (checkBody da a r vn p st)"
proof (cases "drKind r = KindGateResponse")
  case True
  then show ?thesis using checkGateResponse_checks [OF True] by (simp add: checkBody_def Let_def)
next
  case False
  then show ?thesis
    by (cases "drKind r"; cases "plRef p = []")
      (simp_all add: checkBody_def Let_def classifyBody_checks bodyBad_def)
qed

lemma checkedPayload_checks:
  assumes "daPayload da = Inr p0"
  shows "checks (hopeless da a r) (drCommandID r) st (checkedPayload da a r vn p0 st)"
    and "fst (checkedPayload da a r vn p0 st) = Inr (Some p) \<Longrightarrow> resolved da a p0 p"
proof -
  have "checks (hopeless da a r) (drCommandID r) st (checkedPayload da a r vn p0 st) \<and>
    (fst (checkedPayload da a r vn p0 st) = Inr (Some p) \<longrightarrow> resolved da a p0 p)"
  proof (cases "wellFormed p0")
    case False
    then have "hopeless da a r" using assms by (auto simp: hopeless_def)
    then show ?thesis using False rejectedBody_bad [of "hopeless da a r" r st da a vn] rejectedBody_checks [of r st da a vn]
      by (auto simp: checkedPayload_def checks_def rejectedBody_def split: prod.splits option.splits)
  next
    case wf: True
    show ?thesis
    proof (cases "plRef p0 = [] \<or> daObjects da = None")
      case True
      then show ?thesis using wf by (auto simp: checkedPayload_def dereference_def resolved_def)
    next
      case False
      then obtain oa where oa: "daObjects da = Some oa" "plRef p0 \<noteq> []" by auto
      show ?thesis
      proof (cases "fetchObject oa (dpMaxBody a) (plRef p0)")
        case FetchBad
        then have "hopeless da a r" using assms oa by (auto simp: hopeless_def)
        then show ?thesis using FetchBad wf oa rejectedBody_bad [of "hopeless da a r" r st da a vn]
          by (auto simp: checkedPayload_def dereference_def rejectedBody_def split: prod.splits option.splits)
      qed (use wf oa in \<open>auto simp: checkedPayload_def dereference_def resolved_def\<close>)
    qed
  qed
  then show "checks (hopeless da a r) (drCommandID r) st (checkedPayload da a r vn p0 st)"
    and "fst (checkedPayload da a r vn p0 st) = Inr (Some p) \<Longrightarrow> resolved da a p0 p" by blast+
qed

lemma settle_log:
  assumes "settle da a r vn pt (g, tr) = ((o', e), g', tr')"
  shows "\<exists>log. tr' = tr @ log \<and> (log = [] \<and> e \<noteq> None \<or> (\<exists>s. log = [(DSettle (drCommandID r) s, e = None)]))"
    and "guardHeld g \<noteq> None \<Longrightarrow> guardHeld g' \<noteq> None"
proof -
  let ?s = "\<lparr> dsExpectedRevision = vn, dsResidencyEpoch = dpResidency a \<rparr>"
  obtain err g1 tr1 where f: "fencedAct (daLost da pt) (DSettle (drCommandID r) ?s) (errOf (daSettle da pt ?s)) (g, tr) = (err, g1, tr1)"
    by (metis prod.collapse)
  note fc = fencedAct_cases [OF f]
  have r: "g' = g1 \<and> tr' = tr1 \<and> (e = None \<longleftrightarrow> err = None)"
  proof (cases err)
    case None
    show ?thesis using assms unfolding settle_def Let_def f None by simp
  next
    case (Some x)
    show ?thesis using assms unfolding settle_def Let_def f Some by auto
  qed
  have "tr1 = tr \<and> err \<noteq> None \<or> tr1 = tr @ [(DSettle (drCommandID r) ?s, err = None)]" using fc(1) by blast
  then show "\<exists>log. tr' = tr @ log \<and> (log = [] \<and> e \<noteq> None \<or> (\<exists>s. log = [(DSettle (drCommandID r) s, e = None)]))"
    using r by auto
  show "guardHeld g' \<noteq> None" if "guardHeld g \<noteq> None" using fc(2) that r by simp
qed

lemma dispatchedI:
  assumes "log = (DBegin (drCommandID r) t, True) #
      (DDispatch (drCommandID r) (drRuntimeCommandID r) (drKind r) p (dtAttemptID t) m, b) # tail"
    and "daJournal da = (dtJournalEpoch t, True)" "dtResidencyEpoch t = dpResidency a" "AttemptID_Validate (dtAttemptID t) = None"
    and "tail = [] \<or> tail = [(DStranded (drCommandID r), True)] \<or>
         (\<exists>s b'. tail = [(DSettle (drCommandID r) s, b')]) \<or>
         (\<exists>s. tail = [(DSettle (drCommandID r) s, False), (DStranded (drCommandID r), True)])"
  shows "dispatched da a r log"
  unfolding dispatched_def
  by (rule disjI2, rule disjI2, rule exI [of _ t], rule exI [of _ p], rule exI [of _ m], rule exI [of _ b],
      rule exI [of _ tail], intro conjI) (rule assms)+

text \<open>What one stage reports, as in theory \<open>Applier\<close>.\<close>

definition leaves :: "(dtrace \<Rightarrow> bool) \<Rightarrow> string \<Rightarrow> disp_state \<Rightarrow> apply_result \<times> disp_state \<Rightarrow> bool" where
  "leaves P i st res \<longleftrightarrow>
     (\<exists>log. snd (snd res) = snd st @ log \<and> P log \<and> (snd (fst res) = None \<longrightarrow> settledNow i log)) \<and>
     (guardHeld (fst st) \<noteq> None \<longrightarrow> guardHeld (fst (snd res)) \<noteq> None)"

lemma leavesI:
  assumes "snd (snd res) = snd st @ log" "P log" "snd (fst res) = None \<Longrightarrow> settledNow i log"
    and "guardHeld (fst st) \<noteq> None \<Longrightarrow> guardHeld (fst (snd res)) \<noteq> None"
  shows "leaves P i st res"
  using assms by (auto simp: leaves_def)

lemma leaves_mono: "leaves P i st res \<Longrightarrow> (\<And>log. P log \<Longrightarrow> Q log) \<Longrightarrow> leaves Q i st res"
  by (auto simp: leaves_def)

lemma leaves_same: "P [] \<Longrightarrow> e \<noteq> None \<Longrightarrow> leaves P i st ((o', e), st)"
  by (rule leavesI [of _ _ "[]"]) simp_all

text \<open>What may follow a dispatch.\<close>

definition afterDispatch :: "string \<Rightarrow> dtrace \<Rightarrow> bool" where
  "afterDispatch i tail \<longleftrightarrow>
     tail = [] \<or> tail = [(DStranded i, True)] \<or> (\<exists>s b'. tail = [(DSettle i s, b')]) \<or>
     (\<exists>s. tail = [(DSettle i s, False), (DStranded i, True)])"

lemma settle_leaves: "leaves (afterDispatch (drCommandID r)) (drCommandID r) st (settle da a r vn pt st)"
proof -
  obtain g tr where st: "st = (g, tr)" by (cases st)
  obtain o' e g' tr' where s: "settle da a r vn pt (g, tr) = ((o', e), g', tr')" by (metis prod.collapse)
  obtain log where l: "tr' = tr @ log" "log = [] \<and> e \<noteq> None \<or> (\<exists>s. log = [(DSettle (drCommandID r) s, e = None)])"
    using settle_log(1) [OF s] by blast
  show ?thesis unfolding st s
    by (rule leavesI [of _ _ log])
      (use l settle_log(2) [OF s] in \<open>auto simp: afterDispatch_def settledNow_def\<close>)
qed

lemma afterFailedDispatch_leaves:
  "leaves (afterDispatch (drCommandID r)) (drCommandID r) st (afterFailedDispatch da a r vn problem st)"
proof (cases "aerRefusal problem \<noteq> RefusalRuntime \<or> daCtxDone da")
  case True
  then show ?thesis by (simp add: afterFailedDispatch_def leaves_same afterDispatch_def)
next
  case False
  obtain g tr where st: "st = (g, tr)" by (cases st)
  obtain o' e g' tr' where s: "settle da a r vn DAtSettle (g, tr) = ((o', e), g', tr')" by (metis prod.collapse)
  show ?thesis
  proof (cases e)
    case None
    then have "afterFailedDispatch da a r vn problem st = settle da a r vn DAtSettle st"
      using False s st by (simp add: afterFailedDispatch_def)
    then show ?thesis using settle_leaves by metis
  next
    case (Some x)
    obtain log where l: "tr' = tr @ log" "log = [] \<or> (\<exists>s. log = [(DSettle (drCommandID r) s, False)])"
      using settle_log(1) [OF s] Some by auto
    define log' where "log' = snd (snd (afterFailedDispatch da a r vn problem st))"
    have res: "\<exists>tl. (tl = [] \<or> tl = [(DStranded (drCommandID r), True)]) \<and>
        afterFailedDispatch da a r vn problem st = ((outcome StateApplying True, Some problem), g', tr' @ tl)"
      using False s st Some by (auto simp: afterFailedDispatch_def)
    then obtain tl where tl: "tl = [] \<or> tl = [(DStranded (drCommandID r), True)]"
      "afterFailedDispatch da a r vn problem st = ((outcome StateApplying True, Some problem), g', tr' @ tl)" by blast
    show ?thesis unfolding tl(2)
      by (rule leavesI [of _ _ "log @ tl"]) (use l tl(1) st settle_log(2) [OF s] in \<open>auto simp: afterDispatch_def\<close>)
  qed
qed

lemma leaves_prefix:
  assumes "leaves P i st' res" "snd st' = snd st @ pre" "guardHeld (fst st) \<noteq> None \<Longrightarrow> guardHeld (fst st') \<noteq> None"
    and "\<And>log. P log \<Longrightarrow> Q (pre @ log)"
  shows "leaves Q i st res"
proof -
  obtain log where l: "snd (snd res) = snd st' @ log" "P log" "snd (fst res) = None \<longrightarrow> settledNow i log"
    using assms(1) by (auto simp: leaves_def)
  show ?thesis
    by (rule leavesI [of _ _ "pre @ log"])
      (use l assms in \<open>auto simp: leaves_def settledNow_def\<close>)
qed

lemma beginAndDispatch_leaves:
  assumes "daJournal da = (je, True)" "AttemptID_Validate att = None"
  shows "leaves (dispatched da a r) (drCommandID r) st (beginAndDispatch da a r vn p m je att st)"
proof -
  obtain g tr where st: "st = (g, tr)" by (cases st)
  define t where "t = \<lparr> dtExpectedRevision = vn, dtAttemptID = att, dtJournalEpoch = je,
    dtResidencyEpoch = dpResidency a, dtStartedAt = daNow da DAtBegin \<rparr>"
  obtain err g' tr' where f: "fencedAct (daLost da DAtBegin) (DBegin (drCommandID r) t) (errOf (daBegin da t)) (g, tr) = (err, g', tr')"
    by (metis prod.collapse)
  note fc = fencedAct_cases [OF f]
  note D = beginAndDispatch_def [of da a r vn p m je att st, folded t_def, unfolded Let_def st f]
  show ?thesis
  proof (cases err)
    case (Some x)
    have "tr' = tr \<or> tr' = tr @ [(DBegin (drCommandID r) t, errOf (daBegin da t) = None)]" using fc(1) by blast
    then obtain log where l: "tr' = tr @ log" "log = [] \<or> (\<exists>b. log = [(DBegin (drCommandID r) t, b)])" by auto
    show ?thesis unfolding st D Some
      by (rule leavesI [of _ _ log]) (use l fc(2) in \<open>auto simp: dispatched_def\<close>)
  next
    case None
    then have t': "tr' = tr @ [(DBegin (drCommandID r) t, True)]" using fc(1) by auto
    define d where "d = (DDispatch (drCommandID r) (drRuntimeCommandID r) (drKind r) p att m, daRuntime da = None)"
    have di: "dispatch da r p att m (g', tr') = (map_option (dispatchRefusal r) (daRuntime da), g', tr' @ [d])"
      by (simp add: dispatch_def d_def)
    have "leaves (afterDispatch (drCommandID r)) (drCommandID r) (g', tr' @ [d]) (beginAndDispatch da a r vn p m je att st)"
      unfolding st D None using settle_leaves afterFailedDispatch_leaves by (cases "daRuntime da") (simp_all add: di)
    then show ?thesis
    proof (rule leaves_prefix [where pre = "[(DBegin (drCommandID r) t, True), d]"])
      show "dispatched da a r ([(DBegin (drCommandID r) t, True), d] @ log)" if "afterDispatch (drCommandID r) log" for log
        using that assms
        by (intro dispatchedI [of _ r t p m "daRuntime da = None" log]) (auto simp: d_def t_def afterDispatch_def)
    qed (use t' st fc(2) in auto)
  qed
qed

lemma authorize_leaves: "leaves (dispatched da a r) (drCommandID r) st (authorize da a r vn p m st)"
proof -
  obtain je gr where j: "daJournal da = (je, gr)" by (cases "daJournal da")
  have nil: "dispatched da a r []" by (simp add: dispatched_def)
  show ?thesis
  proof (cases gr)
    case False
    then show ?thesis using j nil by (simp add: authorize_def leaves_same)
  next
    case True
    show ?thesis
    proof (cases "daAttempt da")
      case (Inl x)
      then show ?thesis using j True nil by (simp add: authorize_def leaves_same)
    next
      case (Inr att)
      then show ?thesis using j True nil beginAndDispatch_leaves [of da je att a r st vn p m]
        by (cases "AttemptID_Validate att") (simp_all add: authorize_def leaves_same)
    qed
  qed
qed

lemma checks_leaves:
  assumes "checks bad (drCommandID r) st res" "bad \<Longrightarrow> hopeless da a r"
    and "\<And>e st'. res = (Inl e, st') \<Longrightarrow> final = ((o1, Some e), st')"
    and "\<And>st'. res = (Inr None, st') \<Longrightarrow> final = ((o2, None), st')"
    and "\<And>v. res = (Inr (Some v), st) \<Longrightarrow> leaves (rejectedOr da a r) (drCommandID r) st final"
  shows "leaves (rejectedOr da a r) (drCommandID r) st final"
proof -
  obtain x g' tr' where res: "res = (x, g', tr')" by (cases res) auto
  have nil: "rejectedOr da a r []" by (simp add: rejectedOr_def dispatched_def)
  have "(g', tr') = st \<and> x \<noteq> Inr None \<or>
    bad \<and> (\<exists>log. tr' = snd st @ log \<and> (\<forall>v. x \<noteq> Inr (Some v)) \<and>
      (log = [] \<or> (\<exists>j b. log = [(DReject (drCommandID r) j, b)])) \<and>
      (x = Inr None \<longrightarrow> (\<exists>j. log = [(DReject (drCommandID r) j, True)])))"
    using assms(1) unfolding checks_def res by simp
  then show ?thesis
  proof
    assume same: "(g', tr') = st \<and> x \<noteq> Inr None"
    show ?thesis
    proof (cases x)
      case (Inl e)
      then show ?thesis using assms(3) [of e st] res same nil by (simp add: leaves_same)
    next
      case (Inr v)
      then show ?thesis using assms(5) res same by (cases v) auto
    qed
  next
    assume "bad \<and> (\<exists>log. tr' = snd st @ log \<and> (\<forall>v. x \<noteq> Inr (Some v)) \<and>
      (log = [] \<or> (\<exists>j b. log = [(DReject (drCommandID r) j, b)])) \<and>
      (x = Inr None \<longrightarrow> (\<exists>j. log = [(DReject (drCommandID r) j, True)])))"
    then obtain log where rej: "bad" "tr' = snd st @ log" "\<forall>v. x \<noteq> Inr (Some v)"
      "x = Inr None \<longrightarrow> (\<exists>j. log = [(DReject (drCommandID r) j, True)])"
      and lg: "log = [] \<or> (\<exists>j b. log = [(DReject (drCommandID r) j, b)])" by blast
    have stk: "guardHeld (fst st) \<noteq> None \<Longrightarrow> guardHeld g' \<noteq> None" using assms(1) res by (auto simp: checks_def)
    have ok: "rejectedOr da a r log" using rej(1) lg assms(2) nil by (auto simp: rejectedOr_def)
    show ?thesis
    proof (cases x)
      case (Inl e)
      then have f: "final = ((o1, Some e), g', tr')" using assms(3) res by simp
      show ?thesis unfolding f by (rule leavesI [of _ _ log]) (use rej(2) ok stk in auto)
    next
      case (Inr v)
      then have "v = None" using rej(3) by (cases v) auto
      then have f: "final = ((o2, None), g', tr')" using assms(4) res Inr by simp
      show ?thesis unfolding f
        by (rule leavesI [of _ _ log]) (use rej(2,4) ok stk Inr \<open>v = None\<close> in \<open>auto simp: settledNow_def\<close>)
    qed
  qed
qed

lemma authorizeAndDispatch_leaves:
  "leaves (rejectedOr da a r) (drCommandID r) st (authorizeAndDispatch da a r vn st)"
proof (cases "daPayload da")
  case (Inl e)
  then show ?thesis
    by (simp add: authorizeAndDispatch_def leaves_same rejectedOr_def dispatched_def)
next
  case (Inr p0)
  note D = authorizeAndDispatch_def [of da a r vn st, unfolded Inr, simplified]
  show ?thesis
  proof (rule checks_leaves [OF checkedPayload_checks(1) [OF Inr, of a r st vn]])
    fix p assume c: "checkedPayload da a r vn p0 st = (Inr (Some p), st)"
    have rs: "resolved da a p0 p" using checkedPayload_checks(2) [OF Inr, of a r vn st p] c by simp
    note D' = D [unfolded c, simplified]
    show "leaves (rejectedOr da a r) (drCommandID r) st (authorizeAndDispatch da a r vn st)"
    proof (rule checks_leaves [OF checkBody_checks [of da a r p st vn]])
      show "hopeless da a r" if "bodyBad da a r p" using that rs Inr by (auto simp: hopeless_def)
      fix m assume b: "checkBody da a r vn p st = (Inr (Some m), st)"
      have "authorizeAndDispatch da a r vn st = authorize da a r vn p m st" using D' b by simp
      then show "leaves (rejectedOr da a r) (drCommandID r) st (authorizeAndDispatch da a r vn st)"
        using leaves_mono [OF authorize_leaves [of da a r st vn p m]] by (auto simp: rejectedOr_def)
    qed (use D' in simp_all)
  qed (use D in simp_all)
qed

lemma claimThenDispatch_leaves:
  "leaves (attempted da a r) (drCommandID r) st (claimThenDispatch da a r st)"
proof -
  obtain g tr where st: "st = (g, tr)" by (cases st)
  define c where "c = \<lparr> dcExpectedRevision = drRevision r, dcExpiresAt = daNow da DAtClaim + dpClaimTTL a \<rparr>"
  obtain err g' tr' where f: "fencedAct (daLost da DAtClaim) (DClaim (drCommandID r) c) (errOf (daClaim da c)) (g, tr) = (err, g', tr')"
    by (metis prod.collapse)
  note fc = fencedAct_cases [OF f]
  note D = claimThenDispatch_def [of da a r st, folded c_def, unfolded Let_def st f]
  have nil: "rejectedOr da a r []" by (simp add: rejectedOr_def dispatched_def)
  have ok: "attempted da a r []" "attempted da a r [(DClaim (drCommandID r) c, b)]" for b
    using nil unfolding attempted_def by force+
  show ?thesis
  proof (cases err)
    case (Some x)
    have "tr' = tr \<or> tr' = tr @ [(DClaim (drCommandID r) c, errOf (daClaim da c) = None)]" using fc(1) by blast
    then obtain log where l: "tr' = tr @ log" "log = [] \<or> (\<exists>b. log = [(DClaim (drCommandID r) c, b)])" by auto
    show ?thesis unfolding st D Some
      by (rule leavesI [of _ _ log]) (use l fc(2) ok in auto)
  next
    case None
    then have t: "tr' = tr @ [(DClaim (drCommandID r) c, True)]" using fc(1) by auto
    have "leaves (rejectedOr da a r) (drCommandID r) (g', tr') (claimThenDispatch da a r st)"
      unfolding st D None using authorizeAndDispatch_leaves by simp
    then show ?thesis
    proof (rule leaves_prefix [where pre = "[(DClaim (drCommandID r) c, True)]"])
      show "attempted da a r ([(DClaim (drCommandID r) c, True)] @ log)" if "rejectedOr da a r log" for log
        using that unfolding attempted_def by blast
    qed (use t st fc(2) in auto)
  qed
qed

lemma settleOrRecover_leaves: "leaves (recovered da r) (drCommandID r) st (settleOrRecover da a r st)"
proof -
  obtain g tr where st: "st = (g, tr)" by (cases st)
  obtain je gr where j: "daJournal da = (je, gr)" by (cases "daJournal da")
  have nil: "recovered da r []" by (simp add: recovered_def)
  show ?thesis
  proof (cases "hasAttempt r \<and> gr")
    case False
    then show ?thesis using j nil by (auto simp: settleOrRecover_def leaves_same)
  next
    case True
    obtain o1 e1 g1 tr1 where s1: "settle da a r (drRevision r) DAtSettle (g, tr) = ((o1, e1), g1, tr1)"
      by (metis prod.collapse)
    obtain l1 where l1: "tr1 = tr @ l1" "l1 = [] \<and> e1 \<noteq> None \<or> (\<exists>s. l1 = [(DSettle (drCommandID r) s, e1 = None)])"
      using settle_log(1) [OF s1] by blast
    note stk1 = settle_log(2) [OF s1]
    note D = settleOrRecover_def [of da a r st, unfolded st j s1, simplified]
    have first: "leaves (recovered da r) (drCommandID r) (g, tr) ((o1, e1), g1, tr1)"
      by (rule leavesI [of _ _ l1]) (use l1 stk1 in \<open>auto simp: recovered_def settledNow_def\<close>)
    show ?thesis
    proof (cases "e1 = None \<or> drAttemptJournalEpoch r \<ge> je")
      case fin: True
      have "settleOrRecover da a r st = ((o1, e1), g1, tr1)"
        unfolding st D using True fin by (auto split: option.splits)
      then show ?thesis using first st by simp
    next
      case go: False
      then have l1': "l1 = [] \<or> (\<exists>s. l1 = [(DSettle (drCommandID r) s, False)])" using l1(2) by auto
      have jl: "drAttemptJournalEpoch r < fst (daJournal da)" "snd (daJournal da)" using go j True by auto
      obtain x where e1: "e1 = Some x" using go by auto
      have R: "settleOrRecover da a r st = (case closeAttempt da r (g1, tr1) of
          (Some problem, st2) \<Rightarrow> ((outcome StateApplying True, Some problem), st2)
        | (None, st2) \<Rightarrow> settle da a r (drRevision r) DAtResettle st2)"
        unfolding st D using True go e1 by auto
      define cl where "cl = DClose (drCommandID r) (drRuntimeCommandID r) (drKind r) (drAttemptID r) (drAttemptJournalEpoch r)"
      have rec: "recovered da r (l1 @ (cl, b) # s2)"
        if "s2 = [] \<or> b \<and> (\<exists>s b'. s2 = [(DSettle (drCommandID r) s, b')])" for b s2
        unfolding recovered_def cl_def using that l1' jl True by blast
      have rec1: "recovered da r l1" using l1' by (auto simp: recovered_def)
      show ?thesis
      proof (cases "daCloser da")
        case None
        then have res: "settleOrRecover da a r st = ((outcome StateApplying True,
            Some (applyError RefusalNoAttemptCloser (drCommandID r))), g1, tr1)"
          unfolding R by (simp add: closeAttempt_def)
        show ?thesis unfolding res unfolding st by (rule leavesI [of _ _ l1]) (use l1(1) rec1 stk1 in auto)
      next
        case (Some answer)
        show ?thesis
        proof (cases answer)
          case None
          then have res: "settleOrRecover da a r st = settle da a r (drRevision r) DAtResettle (g1, tr1 @ [(cl, True)])"
            unfolding R using Some by (simp add: closeAttempt_def cl_def)
          obtain o2 e2 g2 tr2 where s2: "settle da a r (drRevision r) DAtResettle (g1, tr1 @ [(cl, True)]) = ((o2, e2), g2, tr2)"
            by (metis prod.collapse)
          obtain l2 where l2: "tr2 = (tr1 @ [(cl, True)]) @ l2"
            "l2 = [] \<and> e2 \<noteq> None \<or> (\<exists>s. l2 = [(DSettle (drCommandID r) s, e2 = None)])"
            using settle_log(1) [OF s2] by blast
          have "recovered da r (l1 @ (cl, True) # l2)" using l2(2) by (intro rec) auto
          then show ?thesis unfolding res s2 unfolding st
            by (intro leavesI [of _ _ "l1 @ (cl, True) # l2"])
              (use l1(1) l2 stk1 settle_log(2) [OF s2] in \<open>auto simp: settledNow_def\<close>)
        next
          case fail: (Some f)
          then have "\<exists>problem. settleOrRecover da a r st = ((outcome StateApplying True, Some problem), g1, tr1 @ [(cl, False)])"
            unfolding R using Some by (cases f) (auto simp: closeAttempt_def cl_def)
          then obtain problem where res: "settleOrRecover da a r st = ((outcome StateApplying True, Some problem), g1, tr1 @ [(cl, False)])"
            by blast
          show ?thesis unfolding res unfolding st
            by (rule leavesI [of _ _ "l1 @ [(cl, False)]"]) (use l1(1) stk1 rec [of "[]" False] in auto)
        qed
      qed
    qed
  qed
qed

definition ranAs :: "DAnswers \<Rightarrow> DispositionApplier \<Rightarrow> DispositionRecord \<Rightarrow> dtrace \<Rightarrow> bool" where
  "ranAs da a r log \<longleftrightarrow> (if drState r = StateApplying then recovered da r log else attempted da a r log)"

lemma runDisposition_leaves: "leaves (ranAs da a r) (drCommandID r) st (runDisposition da a r st)"
proof (cases "drState r = StateApplying")
  case True
  then show ?thesis using leaves_mono [OF settleOrRecover_leaves [of da r st a]]
    by (simp add: runDisposition_def ranAs_def)
next
  case False
  have c: "leaves (ranAs da a r) (drCommandID r) st (claimThenDispatch da a r st)"
    by (rule leaves_mono [OF claimThenDispatch_leaves]) (use False in \<open>simp add: ranAs_def\<close>)
  have "attempted da a r log" if "rejectedOr da a r log" for log using that unfolding attempted_def by force
  then have "leaves (ranAs da a r) (drCommandID r) st (authorizeAndDispatch da a r vn st)" for vn
    by (intro leaves_mono [OF authorizeAndDispatch_leaves]) (use False in \<open>simp add: ranAs_def\<close>)
  then show ?thesis using c False by (cases "drState r") (simp_all add: runDisposition_def)
qed

lemma DispositionProcess_shape:
  assumes "DispositionProcess da a command (g, tr) = ((o', e), g', tr')"
  shows "(guardHeld g \<noteq> None \<longrightarrow> guardHeld g' \<noteq> None) \<and>
    (tr' = tr \<and> e \<noteq> None \<or>
     (\<exists>r rest. daLoad da = Inr r \<and> tr' = tr @ (DRead r, True) # rest \<and>
        (rest = [] \<or> checkDispositionRecord a r command = None \<and> \<not> Terminal (drState r) \<and> ranAs da a r rest) \<and>
        (e = None \<longrightarrow> drCommandID r = cmCommandID command \<and>
           (Terminal (drState r) \<or> settledNow (cmCommandID command) rest))))"
proof (cases "daLoad da")
  case (Inl x)
  then show ?thesis using assms by (auto simp: DispositionProcess_def)
next
  case (Inr r)
  have id: "drCommandID r = cmCommandID command" if "checkDispositionRecord a r command = None"
    using that by (auto simp: checkDispositionRecord_def split: if_splits)
  show ?thesis
  proof (cases "checkDispositionRecord a r command = None \<and> \<not> Terminal (drState r)")
    case False
    then have "tr' = tr @ [(DRead r, True)]" "g' = g" "e = None \<Longrightarrow> checkDispositionRecord a r command = None \<and> Terminal (drState r)"
      using assms Inr by (auto simp: DispositionProcess_def Let_def split: option.splits if_splits)
    then show ?thesis using Inr id by auto
  next
    case True
    let ?st = "(g, tr @ [(DRead r, True)])"
    have run: "runDisposition da a r ?st = ((o', e), g', tr')"
      using assms Inr True by (simp add: DispositionProcess_def)
    obtain log where l: "tr' = (tr @ [(DRead r, True)]) @ log" "ranAs da a r log" "e = None \<longrightarrow> settledNow (drCommandID r) log"
      "guardHeld g \<noteq> None \<longrightarrow> guardHeld g' \<noteq> None"
      using runDisposition_leaves [of da a r ?st] unfolding run leaves_def by auto
    show ?thesis using l Inr True id by auto
  qed
qed

definition isDispatch :: "DAct \<times> bool \<Rightarrow> bool" where
  "isDispatch x = (case fst x of DDispatch _ _ _ _ _ _ \<Rightarrow> True | _ \<Rightarrow> False)"

lemma recovered_no_dispatch: "recovered da r log \<Longrightarrow> filter isDispatch log = []"
  unfolding recovered_def by (auto simp: isDispatch_def)

lemma recovered_no_reject: "recovered da r log \<Longrightarrow> (DReject i j, b) \<notin> set log"
  unfolding recovered_def by auto

lemma recovered_close:
  "recovered da r log \<Longrightarrow> (DClose i rt k att ep, b) \<in> set log \<Longrightarrow>
     i = drCommandID r \<and> att = drAttemptID r \<and> ep = drAttemptJournalEpoch r \<and>
     snd (daJournal da) \<and> ep < fst (daJournal da)"
  unfolding recovered_def by auto

lemma dispatched_facts:
  assumes "dispatched da a r log"
  shows "length (filter isDispatch log) \<le> 1" "(DReject i j, b) \<notin> set log" "(DClose i rt k att ep, b) \<notin> set log"
    and "(DDispatch i rt k p att m, b) \<in> set log \<Longrightarrow>
      i = drCommandID r \<and> rt = drRuntimeCommandID r \<and> k = drKind r \<and>
      (\<exists>t. (DBegin i t, True) \<in> set log \<and> dtAttemptID t = att \<and> dtResidencyEpoch t = dpResidency a \<and>
         daJournal da = (dtJournalEpoch t, True))"
  using assms unfolding dispatched_def by (auto simp: isDispatch_def)

lemma attempted_facts:
  assumes "attempted da a r log"
  shows "length (filter isDispatch log) \<le> 1" "(DClose i rt k att ep, b) \<notin> set log"
    and "(DReject i j, b) \<in> set log \<Longrightarrow> i = drCommandID r \<and> hopeless da a r \<and> filter isDispatch log = []"
    and "(DDispatch i rt k p att m, b) \<in> set log \<Longrightarrow>
      i = drCommandID r \<and> rt = drRuntimeCommandID r \<and> k = drKind r \<and>
      (\<exists>t. (DBegin i t, True) \<in> set log \<and> dtAttemptID t = att \<and> dtResidencyEpoch t = dpResidency a \<and>
         daJournal da = (dtJournalEpoch t, True))"
proof -
  obtain pre post where pp: "log = pre @ post" "pre = [] \<or> (\<exists>c b. pre = [(DClaim (drCommandID r) c, b)])"
    "rejectedOr da a r post" using assms unfolding attempted_def by blast
  have pre: "filter isDispatch pre = []" "(DClose i rt k att ep, b) \<notin> set pre" "(DReject i j, b) \<notin> set pre"
    "(DDispatch i rt k p att m, b) \<notin> set pre"
    using pp(2) by (auto simp: isDispatch_def)
  from pp(3) consider (rej) j' b' where "post = [(DReject (drCommandID r) j', b')]" "hopeless da a r" | (dis) "dispatched da a r post"
    unfolding rejectedOr_def by blast
  then have "length (filter isDispatch log) \<le> 1 \<and> (DClose i rt k att ep, b) \<notin> set log \<and>
    ((DReject i j, b) \<in> set log \<longrightarrow> i = drCommandID r \<and> hopeless da a r \<and> filter isDispatch log = []) \<and>
    ((DDispatch i rt k p att m, b) \<in> set log \<longrightarrow>
      i = drCommandID r \<and> rt = drRuntimeCommandID r \<and> k = drKind r \<and>
      (\<exists>t. (DBegin i t, True) \<in> set log \<and> dtAttemptID t = att \<and> dtResidencyEpoch t = dpResidency a \<and>
         daJournal da = (dtJournalEpoch t, True)))"
  proof cases
    case rej
    then show ?thesis using pp(1) pre by (simp add: isDispatch_def)
  next
    case dis
    have "i = drCommandID r \<and> rt = drRuntimeCommandID r \<and> k = drKind r \<and>
        (\<exists>t. (DBegin i t, True) \<in> set log \<and> dtAttemptID t = att \<and> dtResidencyEpoch t = dpResidency a \<and>
           daJournal da = (dtJournalEpoch t, True))" if "(DDispatch i rt k p att m, b) \<in> set log"
      using dispatched_facts(4) [OF dis, of i rt k p att m b] that pp(1) pre(4) by fastforce
    then show ?thesis using pp(1) pre dispatched_facts(1-3) [OF dis] by simp
  qed
  then show "length (filter isDispatch log) \<le> 1" "(DClose i rt k att ep, b) \<notin> set log"
    and "(DReject i j, b) \<in> set log \<Longrightarrow> i = drCommandID r \<and> hopeless da a r \<and> filter isDispatch log = []"
    and "(DDispatch i rt k p att m, b) \<in> set log \<Longrightarrow>
      i = drCommandID r \<and> rt = drRuntimeCommandID r \<and> k = drKind r \<and>
      (\<exists>t. (DBegin i t, True) \<in> set log \<and> dtAttemptID t = att \<and> dtResidencyEpoch t = dpResidency a \<and>
         daJournal da = (dtJournalEpoch t, True))" by blast+
qed

section \<open>The disposition applier as the consumer's processor\<close>

definition dispositionWith ::
  "(Command \<Rightarrow> dtrace \<Rightarrow> DAnswers) \<Rightarrow> DispositionApplier \<Rightarrow> Command \<Rightarrow> epochFence option \<times> dtrace \<Rightarrow>
   (Err + Outcome) \<times> epochFence option \<times> dtrace" where
  "dispositionWith env a command st =
     (case DispositionProcess (env command (snd st)) a command st of
        ((o', e), st') \<Rightarrow> ((case e of None \<Rightarrow> Inr o' | Some x \<Rightarrow> Inl (ErrOther (aerCommandID x))), st'))"

definition dispositionSettled :: "Command \<Rightarrow> dtrace \<Rightarrow> bool" where
  "dispositionSettled command tr \<longleftrightarrow>
     settledNow (cmCommandID command) tr \<or>
     (\<exists>r. (DRead r, True) \<in> set tr \<and> drCommandID r = cmCommandID command \<and> Terminal (drState r))"

lemma dispositionSettled_append: "dispositionSettled r tr \<Longrightarrow> dispositionSettled r (tr @ log)"
  by (auto simp: dispositionSettled_def settledNow_def)

lemma dispositionWith_cases:
  assumes "dispositionWith env a r (g, p) = (out, g', p')"
  shows "guardHeld g \<noteq> None \<Longrightarrow> guardHeld g' \<noteq> None"
    and "accepted out \<Longrightarrow> dispositionSettled r p'"
    and "dispositionSettled x p \<Longrightarrow> dispositionSettled x p'"
proof -
  obtain o' e st' where p: "DispositionProcess (env r p) a r (g, p) = ((o', e), st')" by (metis prod.collapse)
  then have st: "st' = (g', p')" and out: "accepted out \<Longrightarrow> e = None"
    using assms by (auto simp: dispositionWith_def accepted_def split: option.splits)
  note sh = DispositionProcess_shape [OF p [unfolded st]]
  show "guardHeld g \<noteq> None \<Longrightarrow> guardHeld g' \<noteq> None" using sh by simp
  from sh show "dispositionSettled x p \<Longrightarrow> dispositionSettled x p'"
    by (elim conjE disjE exE) (simp_all add: dispositionSettled_append)
  show "dispositionSettled r p'" if "accepted out"
  proof -
    have "\<exists>rc rest. p' = p @ (DRead rc, True) # rest \<and> drCommandID rc = cmCommandID r \<and>
        (Terminal (drState rc) \<or> settledNow (cmCommandID r) rest)"
      using sh out [OF that] by blast
    then show ?thesis by (auto simp: dispositionSettled_def settledNow_def)
  qed
qed

interpretation disposition: settling_processor "dispositionWith env a" dispositionSettled for env a
proof (unfold_locales, goal_cases)
  case (1 r g p out g' p')
  then show ?case by (rule dispositionWith_cases(1))
next
  case (2 r g p out g' p')
  then show ?case by (intro disjI1) (rule dispositionWith_cases(2))
next
  case (3 r' g p out g' p' r)
  then show ?case by (rule dispositionWith_cases(3))
qed

section \<open>Properties\<close>

text \<open>
  C1: a command is dispatched at most once per pass and never from an applying record,
  whatever the store, the objects, the runtime and the lease answer.  A dispatch carries
  the record's own identifiers and an attempt that was durably authorised in the same
  pass, under this residency and under a journal grant that was held.  A stranded attempt
  is closed only from an applying record, under a held journal grant strictly later than
  the attempt's.  Without an error the record was terminal already or the store accepted
  its settlement or rejection in this pass.
\<close>

theorem dispatched_at_most_once:
  assumes "DispositionProcess da a command (g, tr) = ((o', e), g', tr')"
  shows "\<exists>log. tr' = tr @ log \<and> length (filter isDispatch log) \<le> 1 \<and>
    (\<forall>r. (DRead r, True) \<in> set log \<and> drState r = StateApplying \<longrightarrow> filter isDispatch log = []) \<and>
    (\<forall>i rt k p att m b. (DDispatch i rt k p att m, b) \<in> set log \<longrightarrow>
       (\<exists>r t. daLoad da = Inr r \<and> i = cmCommandID command \<and> rt = drRuntimeCommandID r \<and> k = drKind r \<and>
          (DBegin i t, True) \<in> set log \<and> dtAttemptID t = att \<and> dtResidencyEpoch t = dpResidency a \<and>
          daJournal da = (dtJournalEpoch t, True))) \<and>
    (\<forall>i rt k att ep b. (DClose i rt k att ep, b) \<in> set log \<longrightarrow>
       (\<exists>r. daLoad da = Inr r \<and> drState r = StateApplying \<and> att = drAttemptID r \<and> ep = drAttemptJournalEpoch r \<and>
          snd (daJournal da) \<and> ep < fst (daJournal da))) \<and>
    (e = None \<longrightarrow> dispositionSettled command log)"
  using conjunct2 [OF DispositionProcess_shape [OF assms]]
proof
  assume "tr' = tr \<and> e \<noteq> None"
  then show ?thesis by (intro exI [of _ "[]"]) auto
next
  assume "\<exists>r rest. daLoad da = Inr r \<and> tr' = tr @ (DRead r, True) # rest \<and>
    (rest = [] \<or> checkDispositionRecord a r command = None \<and> \<not> Terminal (drState r) \<and> ranAs da a r rest) \<and>
    (e = None \<longrightarrow> drCommandID r = cmCommandID command \<and> (Terminal (drState r) \<or> settledNow (cmCommandID command) rest))"
  then obtain r rest where load: "daLoad da = Inr r" and t: "tr' = tr @ (DRead r, True) # rest"
    and run: "rest = [] \<or> checkDispositionRecord a r command = None \<and> ranAs da a r rest"
    and fin: "e = None \<longrightarrow> drCommandID r = cmCommandID command \<and> (Terminal (drState r) \<or> settledNow (cmCommandID command) rest)"
    by blast
  let ?log = "(DRead r, True) # rest"
  have id: "drCommandID r = cmCommandID command" if "rest \<noteq> []"
    using run that by (auto simp: checkDispositionRecord_def split: if_splits)
  have shape: "rest = [] \<or> drState r = StateApplying \<and> recovered da r rest \<or> drState r \<noteq> StateApplying \<and> attempted da a r rest"
    using run by (auto simp: ranAs_def split: if_splits)
  have noread: "(DRead r', b) \<notin> set rest" for r' b
    using shape unfolding recovered_def attempted_def rejectedOr_def dispatched_def by auto
  have one: "length (filter isDispatch rest) \<le> 1" "drState r = StateApplying \<Longrightarrow> filter isDispatch rest = []"
    using shape recovered_no_dispatch attempted_facts(1) by fastforce+
  have di: "\<exists>r t. daLoad da = Inr r \<and> i = cmCommandID command \<and> rt = drRuntimeCommandID r \<and> k = drKind r \<and>
      (DBegin i t, True) \<in> set ?log \<and> dtAttemptID t = att \<and> dtResidencyEpoch t = dpResidency a \<and>
      daJournal da = (dtJournalEpoch t, True)" if d: "(DDispatch i rt k p att m, b) \<in> set ?log" for i rt k p att m b
  proof -
    have d': "(DDispatch i rt k p att m, b) \<in> set rest" using d by simp
    then have "attempted da a r rest" using shape recovered_no_dispatch
      by (fastforce simp: isDispatch_def filter_empty_conv)
    from attempted_facts(4) [OF this d'] obtain t where
      "i = drCommandID r" "rt = drRuntimeCommandID r" "k = drKind r" "(DBegin i t, True) \<in> set rest" "dtAttemptID t = att"
      "dtResidencyEpoch t = dpResidency a" "daJournal da = (dtJournalEpoch t, True)" by blast
    moreover have "drCommandID r = cmCommandID command" using id d' by (metis empty_iff empty_set)
    ultimately show ?thesis using load by (intro exI [of _ r] exI [of _ t]) auto
  qed
  have cl: "\<exists>r. daLoad da = Inr r \<and> drState r = StateApplying \<and> att = drAttemptID r \<and> ep = drAttemptJournalEpoch r \<and>
      snd (daJournal da) \<and> ep < fst (daJournal da)" if d: "(DClose i rt k att ep, b) \<in> set ?log" for i rt k att ep b
  proof -
    have d': "(DClose i rt k att ep, b) \<in> set rest" using d by simp
    then have "drState r = StateApplying \<and> recovered da r rest" using shape attempted_facts(2) by fastforce
    then show ?thesis using recovered_close [OF _ d'] load by blast
  qed
  have se: "dispositionSettled command ?log" if "e = None"
    using fin that by (auto simp: dispositionSettled_def settledNow_def)
  show ?thesis
  proof (intro exI [of _ ?log] conjI)
    show "tr' = tr @ ?log" by (rule t)
    show "length (filter isDispatch ?log) \<le> 1" using one(1) by (simp add: isDispatch_def)
    show "\<forall>r. (DRead r, True) \<in> set ?log \<and> drState r = StateApplying \<longrightarrow> filter isDispatch ?log = []"
      using one(2) noread by (auto simp: isDispatch_def)
  qed (intro allI impI, (erule di | erule cl | erule se))+
qed

definition example_disposition_record :: DispositionRecord where
  "example_disposition_record = \<lparr> drTenantID = ''t'', drSessionID = ''s'', drCommandID = ''a'', drRuntimeCommandID = 9,
     drKind = KindInterrupt, drState = StatePending, drAcceptedOrder = 3, drRevision = 1, drApplyDeadline = 100,
     drClaimResidencyEpoch = 0, drClaimExpiresAt = 0, drAttemptID = [], drAttemptJournalEpoch = 0,
     drAttemptResidencyEpoch = 0 \<rparr>"

definition example_disposition_answers :: DAnswers where
  "example_disposition_answers =
     \<lparr> daLoad = Inr example_disposition_record, daPayload = Inr \<lparr> plBody = [], plRef = [] \<rparr>, daObjects = None,
       daCodec = example_codec, daGates = None, daJournal = (6, True), daAttempt = Inr ''n'',
       daClaim = \<lambda>_. Inr 2, daReject = \<lambda>_. None, daBegin = \<lambda>_. Inr 3, daRuntime = None,
       daSettle = \<lambda>_ _. Inr StateApplied, daCloser = None, daCtxDone = False, daStranded = True,
       daAsApplyError = \<lambda>_. None, daUnroutable = \<lambda>_. False, daNow = \<lambda>_. 50, daLost = \<lambda>_. False \<rparr>"

definition example_disposition_applier :: DispositionApplier where
  "example_disposition_applier = \<lparr> dpHostID = ''h'', dpClaimTTL = 30, dpKey = example_key, dpResidency = 4,
     dpMaxBody = 8 * 2 ^ 20 \<rparr>"

lemma example_fencedAct:
  "fencedAct False act None (Some (newEpochFence (Some False)), tr) =
    (None, Some (newEpochFence (Some False)), tr @ [(act, True)])"
proof -
  let ?g = "Some (newEpochFence (Some False))" and ?run = "\<lambda>tr. (None, tr @ [(act, True)])"
  have "guardWrite ?run (?g, tr) = (None, ?g, tr @ [(act, True)])"
    using guard.runs [of ?g ?run tr] guard.keeps [of ?g ?run tr] example_held
    by (cases "guardWrite ?run (?g, tr)") simp
  then show ?thesis by (simp add: fencedAct_def loseLease_def)
qed

lemmas example_disposition = example_disposition_record_def example_disposition_answers_def
  example_disposition_applier_def

lemma example_attempt_ok: "AttemptID_Validate ''n'' = None"
  by (simp add: AttemptID_Validate_def MaxAttemptIDBytes_def ValidString_def)

lemma example_DispositionProcess:
  "\<exists>o' tr'. DispositionProcess example_disposition_answers example_disposition_applier (example_command ''a'' 3 StatePending)
     (Some (newEpochFence (Some False)), []) = ((o', None), Some (newEpochFence (Some False)), tr') \<and> length tr' = 5 \<and>
     Terminal (ouState o')"
  by (simp add: DispositionProcess_def example_fencedAct example_disposition checkDispositionRecord_def known_def
      Terminal_def kindKnown_def runDisposition_def claimThenDispatch_def authorizeAndDispatch_def checkedPayload_def
      wellFormed_def checkBody_def CheckInterrupt_def checkControlBody_def classifyBody_def authorize_def
      example_attempt_ok beginAndDispatch_def dispatch_def settle_def errOf_def revisionOf_def outcome_def
      example_command_def example_key_def Let_def)

theorem dispatched_at_most_once_witness:
  "\<exists>tr'. dispositionSettled (example_command ''a'' 3 StatePending) tr' \<and> length (filter isDispatch tr') \<le> 1 \<and>
     length tr' = 5"
proof -
  obtain o' tr' where p: "DispositionProcess example_disposition_answers example_disposition_applier
      (example_command ''a'' 3 StatePending) (Some (newEpochFence (Some False)), []) =
      ((o', None), Some (newEpochFence (Some False)), tr')" "length tr' = 5"
    using example_DispositionProcess by blast
  from dispatched_at_most_once [OF p(1)] show ?thesis using p(2) by auto
qed

section \<open>What no Host could apply\<close>

text \<open>
  What makes a command hopeless, told from the answers of the store, the codec and the gates alone.
  A body is malformed under every wire version when Core's validation says so by one of four codes,
  or when it is no JSON or of the wrong type without a word of the validation; unknown fields and
  versions are for a newer Host.
\<close>

definition neverReadable :: "DecodeFailure \<Rightarrow> bool" where
  "neverReadable f \<longleftrightarrow>
     dfValidation f \<in> {Some InvalidJSON, Some DuplicateField, Some MissingField, Some InvalidField} \<or>
     dfValidation f = None \<and> (dfSyntax f \<or> dfTypeError f)"

text \<open>An object is gone for good: its keyspace, its identity or the object itself is refused, or the blob is missing.\<close>

definition goneForGood :: "ObjectFailure \<Rightarrow> bool" where
  "goneForGood f \<longleftrightarrow>
     (\<exists>c. ofKeyspace f = Some c \<and> c \<in> {KeyspaceBindingNotFound, KeyspaceScopeInvalid, KeyspaceHashCollision,
        KeyspaceLegacyTenant, KeyspaceLegacySession}) \<or>
     ofIdentity f \<or>
     (\<exists>c. ofObject f = Some c \<and> c \<in> {ObjectErrorInvalid, ObjectErrorSize, ObjectErrorDigest, ObjectErrorIntegrity,
        ObjectErrorMetadataUnavailable}) \<or>
     ofMissing f"

text \<open>
  An object that is not the payload its reference promises: it is gone for good, with the context
  still live, or its metadata or its content do not match the reference.
\<close>

definition corruptObject :: "ObjectAnswers \<Rightarrow> nat \<Rightarrow> object_reference \<Rightarrow> bool" where
  "corruptObject oa maxBody ref \<longleftrightarrow>
     (\<exists>f. oaMetadata oa = Inl f \<and> goneForGood f \<and> \<not> oaCtx oa 1) \<or>
     (\<exists>md. oaMetadata oa = Inr md \<and>
        (omReference md \<noteq> ref \<or> omSizeBytes md > of_nat maxBody \<or> omDigest md = [] \<or> \<not> prefix ''v1:command-payload:'' ref \<or>
         \<not> suffix ('':'' @ TrimPrefix (omDigest md) ''sha256:'') ref \<or>
         (\<exists>f. oaContent oa = Inl f \<and> goneForGood f \<and> \<not> oaCtx oa 2) \<or>
         (\<exists>f. oaReadErr oa = Some f \<and> goneForGood f \<and> \<not> oaCtx oa 3) \<or>
         (\<exists>f. oaCloseErr oa = Some f \<and> goneForGood f \<and> \<not> oaCtx oa 4) \<or>
         (\<exists>content. oaContent oa = Inr content \<and> oaReadErr oa = None \<and> oaCloseErr oa = None \<and> \<not> oaCtx oa 5 \<and>
            (length content > maxBody \<or> of_nat (length content) \<noteq> omSizeBytes md \<or>
             omDigest md \<noteq> ''sha256:'' @ oaSHA256 oa content))))"

text \<open>A request decoded from the body, or the failure to; \<open>wrong\<close> are the requests that are not this command's.\<close>

definition badRequest :: "DecodeFailure + 'q \<Rightarrow> ('q \<Rightarrow> bool) \<Rightarrow> bool" where
  "badRequest decoded wrong = (case decoded of Inl f \<Rightarrow> neverReadable f | Inr q \<Rightarrow> wrong q)"

definition hopelessBody :: "DAnswers \<Rightarrow> DispositionApplier \<Rightarrow> DispositionRecord \<Rightarrow> string \<Rightarrow> bool" where
  "hopelessBody da a r body \<longleftrightarrow>
     (let cd = daCodec da; session = SessionID (dpKey a); command = drCommandID r in
      case drKind r of
        KindGateResponse \<Rightarrow> body = [] \<or> badRequest (cdGate cd body)
          (\<lambda>q. \<not> cdGateValid cd q \<or> gqSessionID q \<noteq> session \<or> gqCommandID q \<noteq> command \<or>
             cdGateUUID cd (gqGateID q) \<in> {None, Some 0} \<or>
             (\<exists>gates gate. daGates da = Some gates \<and> gates (gqGateID q) = Inr (gate, True) \<and> gtOpen gate \<and>
                gtOwnerEpoch gate = dpResidency a \<and>
                (gqExpectedOpenEventID q \<notin> {[], gtOpenedEventID gate} \<or>
                 gqExpectedOpenJournalSeq q \<notin> {0, gtOpenedJournalSeq gate})))
      | KindCreate \<Rightarrow> body = [] \<or>
          badRequest (cdCreate cd body) (\<lambda>q. crSessionID q \<noteq> session \<or> evCommandID (crEnvelope q) \<noteq> command)
      | KindInput \<Rightarrow> body = [] \<or>
          badRequest (cdInput cd body) (\<lambda>q. irSessionID q \<noteq> session \<or> evCommandID (irEnvelope q) \<noteq> command)
      | KindInterrupt \<Rightarrow> body \<noteq> [] \<and>
          badRequest (cdInterrupt cd body) (\<lambda>q. ctSessionID q \<noteq> session \<or> ctCommandID q \<noteq> command)
      | KindRestore \<Rightarrow> body \<noteq> [] \<and>
          badRequest (cdRestore cd body) (\<lambda>q. ctSessionID q \<noteq> session \<or> ctCommandID q \<noteq> command)
      | KindOther _ \<Rightarrow> False)"

text \<open>
  The body of a command: the stored one, or the content of the object it refers to.  A gate response
  whose reference nobody can follow counts as one without a body.
\<close>

definition bodyOf :: "DAnswers \<Rightarrow> DispositionRecord \<Rightarrow> Payload \<Rightarrow> string \<Rightarrow> bool" where
  "bodyOf da r p body \<longleftrightarrow>
     (if plRef p = [] then body = plBody p
      else (case daObjects da of
              Some oa \<Rightarrow> oaContent oa = Inr body
            | None \<Rightarrow> drKind r = KindGateResponse \<and> body = []))"

definition hopelessCommand :: "DAnswers \<Rightarrow> DispositionApplier \<Rightarrow> DispositionRecord \<Rightarrow> bool" where
  "hopelessCommand da a r \<longleftrightarrow>
     (\<exists>p. daPayload da = Inr p \<and>
        (plBody p \<noteq> [] \<and> plRef p \<noteq> [] \<or>
         (\<exists>oa. daObjects da = Some oa \<and> plRef p \<noteq> [] \<and> corruptObject oa (dpMaxBody a) (plRef p)) \<or>
         (\<exists>body. bodyOf da r p body \<and> hopelessBody da a r body)))"

lemma Permanent_neverReadable: "Permanent f \<longleftrightarrow> neverReadable f"
  by (auto simp: Permanent_def neverReadable_def split: option.split ValidationCode.split)

lemma permanentObjectFailure_gone: "permanentObjectFailure f \<longleftrightarrow> goneForGood f"
  by (auto simp: permanentObjectFailure_def goneForGood_def permanentKeyspace_def permanentObject_def
      split: option.split KeyspaceCode.split ObjectErrorCode.split)

lemma failed_gone: "failed c f = FetchBad \<longleftrightarrow> \<not> c \<and> goneForGood f" "failed c f \<noteq> FetchBody body"
  by (auto simp: failed_def permanentObjectFailure_gone)

lemma fetchObject_bad: "fetchObject oa maxBody ref = FetchBad \<Longrightarrow> corruptObject oa maxBody ref"
proof -
  assume bad: "fetchObject oa maxBody ref = FetchBad"
  show ?thesis
  proof (cases "oaMetadata oa")
    case (Inl f)
    then show ?thesis using bad by (auto simp: fetchObject_def corruptObject_def failed_gone split: if_splits)
  next
    case md: (Inr md)
    show ?thesis
    proof (cases "oaContent oa")
      case (Inl f)
      then show ?thesis using bad md by (auto simp: fetchObject_def corruptObject_def failed_gone split: if_splits)
    next
      case (Inr content)
      then show ?thesis
        using bad md
        by (cases "length content > maxBody")
          (auto simp: fetchObject_def corruptObject_def failed_gone Let_def split: if_splits option.splits)
    qed
  qed
qed

lemma fetchObject_content: "fetchObject oa maxBody ref = FetchBody body \<Longrightarrow> oaContent oa = Inr body"
  by (auto simp: fetchObject_def failed_gone Let_def split: if_splits option.splits sum.splits)

lemma bodyBad_hopeless:
  assumes "bodyBad da a r p"
  shows "hopelessBody da a r (plBody p)" "plRef p = [] \<or> drKind r = KindGateResponse"
proof -
  show "plRef p = [] \<or> drKind r = KindGateResponse" using assms by (auto simp: bodyBad_def Let_def split: Kind.splits)
  show "hopelessBody da a r (plBody p)"
  proof (cases "drKind r")
    case KindGateResponse
    then show ?thesis using assms
      by (cases "cdGate (daCodec da) (plBody p)")
        (auto simp: bodyBad_def hopelessBody_def badRequest_def Let_def Decode_def Permanent_neverReadable
          split: if_splits option.splits)
  next
    case KindCreate
    then show ?thesis using assms
      by (cases "cdCreate (daCodec da) (plBody p)")
        (auto simp: bodyBad_def hopelessBody_def badRequest_def Let_def checkCreate_def decodeCreate_def classify_def
          Permanent_neverReadable split: if_splits)
  next
    case KindInput
    then show ?thesis using assms
      by (cases "cdInput (daCodec da) (plBody p)")
        (auto simp: bodyBad_def hopelessBody_def badRequest_def Let_def checkInput_def Permanent_neverReadable split: if_splits)
  next
    case KindInterrupt
    then show ?thesis using assms
      by (cases "cdInterrupt (daCodec da) (plBody p)")
        (auto simp: bodyBad_def hopelessBody_def badRequest_def Let_def CheckInterrupt_def checkControlBody_def
          Permanent_neverReadable split: if_splits)
  next
    case KindRestore
    then show ?thesis using assms
      by (cases "cdRestore (daCodec da) (plBody p)")
        (auto simp: bodyBad_def hopelessBody_def badRequest_def Let_def CheckRestore_def checkControlBody_def
          Permanent_neverReadable split: if_splits)
  qed (use assms in \<open>simp add: bodyBad_def\<close>)
qed

lemma hopeless_told: "hopeless da a r \<Longrightarrow> hopelessCommand da a r"
proof -
  assume "hopeless da a r"
  then obtain p0 where p0: "daPayload da = Inr p0" and "\<not> wellFormed p0 \<or>
      (\<exists>oa. daObjects da = Some oa \<and> plRef p0 \<noteq> [] \<and> fetchObject oa (dpMaxBody a) (plRef p0) = FetchBad) \<or>
      (\<exists>p. resolved da a p0 p \<and> bodyBad da a r p)" by (auto simp: hopeless_def)
  then consider "plBody p0 \<noteq> []" "plRef p0 \<noteq> []"
    | oa where "daObjects da = Some oa" "plRef p0 \<noteq> []" "corruptObject oa (dpMaxBody a) (plRef p0)"
    | p where "resolved da a p0 p" "bodyBad da a r p"
    by (auto simp: wellFormed_def dest: fetchObject_bad)
  then show ?thesis
  proof cases
    case (3 p)
    from bodyBad_hopeless [OF 3(2)] have h: "hopelessBody da a r (plBody p)" "plRef p = [] \<or> drKind r = KindGateResponse" .
    have "bodyOf da r p0 (plBody p)"
      using 3(1) h(2) unfolding resolved_def bodyOf_def
      by (auto simp: wellFormed_def dest: fetchObject_content)
    with h p0 show ?thesis unfolding hopelessCommand_def by blast
  qed (use p0 in \<open>auto simp: hopelessCommand_def\<close>)
qed


lemma example_rejects:
  "\<exists>o' log. DispositionProcess (example_disposition_answers\<lparr> daPayload := Inr \<lparr> plBody = ''x'', plRef = [] \<rparr> \<rparr>)
       example_disposition_applier (example_command ''a'' 3 StatePending) (Some (newEpochFence (Some False)), []) =
     ((o', None), Some (newEpochFence (Some False)), [] @ log) \<and>
     (DReject ''a'' \<lparr> dnExpectedRevision = 2, dnResidencyEpoch = 4 \<rparr>, True) \<in> set log"
  by (simp add: DispositionProcess_def example_fencedAct example_disposition checkDispositionRecord_def known_def
      Terminal_def kindKnown_def runDisposition_def claimThenDispatch_def authorizeAndDispatch_def checkedPayload_def
      wellFormed_def checkBody_def CheckInterrupt_def checkControlBody_def classifyBody_def rejectedBody_def
      rejectDisposition_def errOf_def revisionOf_def example_codec_def example_failure_def Permanent_def
      example_command_def example_key_def Let_def)


text \<open>
  C26: the Host's own composition settles before it moves on.  With the disposition
  applier as the consumer's processor, over an inbox in acceptance order, a pass moves
  the durable cursor past a command only when the command is terminal in the listing or
  in the record read, or the store accepted its settlement or rejection.
\<close>

theorem disposition_cursor_settled:
  assumes "pcProcess pc = dispositionWith env a"
    and "\<And>cursor limit. pcList pc cursor limit = Inr (inboxOf records cursor limit)" "ordered records"
    and "Reconcile pc c ps = ((res, err), c', ps')"
    and "r \<in> set records" "psCursor ps < cmAcceptedOrder r" "cmAcceptedOrder r \<le> psCursor ps'"
  shows "Terminal (cmState r) \<or> dispositionSettled r (psProc ps')"
  by (rule disposition.cursor_passes_settled [OF assms])

definition example_disposing :: "dtrace Collaborators" where
  "example_disposing =
     \<lparr> pcIdValid = \<lambda>i. i \<noteq> [],
       pcList = \<lambda>cursor limit. Inr (inboxOf [example_command ''a'' 3 StatePending] cursor limit),
       pcProcess = dispositionWith (\<lambda>_ _. example_disposition_answers) example_disposition_applier,
       pcCtxErr = \<lambda>_. False, pcLoadErr = None, pcSaveErr = \<lambda>_. None \<rparr>"

definition example_disposing_pass :: "dtrace PassState" where
  "example_disposing_pass = \<lparr> psGuard = Some (newEpochFence (Some False)), psCursor = 2, psProc = [] \<rparr>"

lemma example_disposes:
  "psCursor (snd (snd (Reconcile example_disposing example_consumer example_disposing_pass))) = 3"
proof -
  obtain o' tr' where p: "DispositionProcess example_disposition_answers example_disposition_applier
      (example_command ''a'' 3 StatePending) (Some (newEpochFence (Some False)), []) =
      ((o', None), Some (newEpochFence (Some False)), tr')" and o': "Terminal (ouState o')"
    using example_DispositionProcess by blast
  show ?thesis
    using p o' by (simp add: Reconcile_def example_held example_save loadCursor_def validatePage_def
      example_disposing_def example_disposing_pass_def example_consumer_def example_command_def example_key_def
      inboxOf_def dispositionWith_def known_def Terminal_def finishPass_def emptyPass_def)
qed

theorem disposition_cursor_settled_witness:
  "\<exists>tr. dispositionSettled (example_command ''a'' 3 StatePending) tr"
proof -
  let ?r = "example_command ''a'' 3 StatePending"
  obtain res err c' ps' where r: "Reconcile example_disposing example_consumer example_disposing_pass = ((res, err), c', ps')"
    by (metis prod.collapse)
  have "psCursor ps' = 3" using example_disposes r by simp
  then have "Terminal (cmState ?r) \<or> dispositionSettled ?r (psProc ps')"
    by (intro disposition_cursor_settled [of example_disposing _ _ "[?r]", OF _ _ _ r])
      (simp_all add: example_disposing_def example_disposing_pass_def ordered_def example_command_def)
  then show ?thesis by (auto simp: Terminal_def example_command_def)
qed

text \<open>
  A referenced body is what its reference promises.  For an applier that
  \<open>NewDispositionApplier\<close> built, a body fetched through a reference is the object's whole
  content, at most the configured bound and so at most 16 MiB, as long as its metadata
  says with no wrap-around of the size, and its digest is the one its metadata and its
  reference name.
\<close>

theorem fetched_body_is_whole:
  assumes "NewDispositionApplier maxInbox w = Inr a" "0 \<le> maxInbox"
    and "fetchObject oa (dpMaxBody a) ref = FetchBody body"
  shows "oaContent oa = Inr body \<and> length body \<le> dpMaxBody a \<and> dpMaxBody a \<le> 16 * 2 ^ 20 \<and>
    (\<exists>m. oaMetadata oa = Inr m \<and> omReference m = ref \<and> unat (omSizeBytes m) = length body \<and>
       omDigest m = ''sha256:'' @ oaSHA256 oa body) \<and>
    prefix ''v1:command-payload:'' ref \<and> suffix ('':'' @ oaSHA256 oa body) ref"
proof -
  have mx: "dpMaxBody a \<le> 16 * 2 ^ 20"
    using assms(1)
    by (auto simp: NewDispositionApplier_def Let_def MaxCommandBodyBytesLimit_def DefaultMaxCommandBodyBytes_def
        split: option.splits if_splits)
  obtain m where m: "oaMetadata oa = Inr m"
    using assms(3) by (auto simp: fetchObject_def failed_def split: if_splits sum.splits)
  obtain content where c: "oaContent oa = Inr content"
    using assms(3) m by (auto simp: fetchObject_def failed_def split: if_splits sum.splits)
  note F = assms(3) [unfolded fetchObject_def, simplified m c Let_def sum.case]
  have e: "oaReadErr oa = None" "oaCloseErr oa = None"
    using F by (auto simp: failed_def split: if_splits option.splits)
  have f: "omReference m = ref" "prefix ''v1:command-payload:'' ref"
    "suffix ('':'' @ TrimPrefix (omDigest m) ''sha256:'') ref"
    "body = take (dpMaxBody a + 1) content" "length body \<le> dpMaxBody a" "of_nat (length body) = omSizeBytes m"
    "omDigest m = ''sha256:'' @ oaSHA256 oa body"
    using F by (simp_all add: e split: if_splits)
  have "content = body" using f(4,5) by (cases "length content \<le> dpMaxBody a") auto
  moreover have "unat (omSizeBytes m) = length body"
    using f(5) mx by (simp flip: f(6) add: unat_of_nat)
  moreover have "TrimPrefix (omDigest m) ''sha256:'' = oaSHA256 oa body" by (simp add: f(7) TrimPrefix_def)
  ultimately show ?thesis using f mx m c by simp
qed

definition example_objects :: ObjectAnswers where
  "example_objects = \<lparr> oaMetadata = Inr \<lparr> omReference = ''v1:command-payload:d'', omSizeBytes = 2, omDigest = ''sha256:d'' \<rparr>,
     oaContent = Inr ''xy'', oaReadErr = None, oaCloseErr = None, oaCtx = \<lambda>_. False, oaSHA256 = \<lambda>_. ''d'' \<rparr>"

definition example_disposition_options :: DispositionApplierOptions where
  "example_disposition_options = \<lparr> wHost = Some example_host, wClock = True, wKey = example_key, wResidencyEpoch = 4,
     wMaxCommandBodyBytes = 0, wRecords = Some 1, wWrites = Some 1, wRuntime = Some 1, wJournalEpochs = Some 1,
     wAttempts = Some 1, wFence = Some 1 \<rparr>"

theorem fetched_body_is_whole_witness:
  "unat (2 :: u64) = length ''xy'' \<and> suffix '':d'' ''v1:command-payload:d''"
proof -
  have n: "\<exists>a. NewDispositionApplier 65536 example_disposition_options = Inr a \<and> dpMaxBody a = 8 * 2 ^ 20"
    by (simp add: NewDispositionApplier_def example_disposition_options_def DefaultMaxCommandBodyBytes_def
        MaxCommandBodyBytesLimit_def unusableClaimer_def example_host_def example_key_def)
  then obtain a where a: "NewDispositionApplier 65536 example_disposition_options = Inr a" "dpMaxBody a = 8 * 2 ^ 20"
    by blast
  have "fetchObject example_objects (dpMaxBody a) ''v1:command-payload:d'' = FetchBody ''xy''"
    by (simp add: fetchObject_def example_objects_def a(2) TrimPrefix_def suffix_def)
  from fetched_body_is_whole [OF a(1) _ this] show ?thesis by (simp add: example_objects_def)
qed

end
