(* ===== verification/HostLink.thy ===== *)
theory HostLink
  imports Registry
begin

text \<open>
  The HostLink multiplexer, \<^verbatim>\<open>internal/realtime/hostlink/bindings.go\<close>, \<^verbatim>\<open>drain.go\<close> and
  \<^verbatim>\<open>attach.go\<close>: the links of one authenticated tenant, the sessions each is bound to, and
  what a link may ask of the Host over its RPC channel.

  The multiplexer keeps a table of tables, link to channel to binding, and a count.  The
  residencies are the registry of theory \<open>Registry\<close>; whether the Host is draining, which
  consumers run, the drain state machine and the attacher are part of the environment.
  Core's records, their validation and their encoding are parameters (\<open>LinkCore\<close>), and so is
  the channel name of a session.  Each operation is one critical section of the mutex.
\<close>

section \<open>Requests and refusals\<close>

type_synonym link_id = string

datatype Refusal =
    RefusalForeignTenant | RefusalUnknownSession | RefusalForeignHost | RefusalStaleHostGeneration
  | RefusalEpochMismatch | RefusalRuntimeMismatch | RefusalReleasing | RefusalHostNotAdmitting
  | RefusalSessionNotAdmitting | RefusalResidencyReleased | RefusalNoLinkCapacity | RefusalNoHostCapacity
  | RefusalNotBound | RefusalMalformedRequest | RefusalWrongDrainScope | RefusalDrainUnsupported
  | RefusalDrainUnavailable | RefusalNoDrainInProgress | RefusalAttachUnsupported | RefusalAttachRefused
  | RefusalAttachFailed | RefusalHolderEpochUnknown | RefusalMismatchBuildUnknown | RefusalUnpublishableAttach

text \<open>A refusal carries the wire class it may be published as, with the two facts a class can need.\<close>

record BindError =
  beRefusal :: Refusal
  beKey :: Key
  beWire :: "HostLinkErrorCode option"
  beCurrentLeaseEpoch :: u64
  beRuntimeCompatibilityID :: compat_id

definition noKey :: Key where "noKey = Key [] []"

definition refuse :: "Refusal \<Rightarrow> Key \<Rightarrow> HostLinkErrorCode option \<Rightarrow> BindError" where
  "refuse r key wire = \<lparr> beRefusal = r, beKey = key, beWire = wire, beCurrentLeaseEpoch = 0,
     beRuntimeCompatibilityID = [] \<rparr>"

record HostLinkError =
  heCode :: HostLinkErrorCode
  heCurrentLeaseEpoch :: u64
  heRuntimeCompatibilityID :: compat_id

record Binding =
  bdLink :: link_id
  bdKey :: Key
  bdChannel :: string
  bdLeaseEpoch :: u64
  bdIdempotencyKey :: string

record BindRequest =
  brTenantID :: tenant_id
  brSessionID :: session_id
  brHostID :: host_id
  brHostGeneration :: u64
  brLeaseEpoch :: u64
  brRuntimeCompatibilityID :: compat_id
  brIdempotencyKey :: string

record UnbindRequest =
  urTenantID :: tenant_id
  urSessionID :: session_id
  urHostID :: host_id

record DrainRequest =
  dqTenantID :: tenant_id
  dqSessionID :: session_id
  dqHostID :: host_id
  dqHostGeneration :: u64

record LinkAttachRequest =
  lqTenantID :: tenant_id
  lqSessionID :: session_id
  lqHostID :: host_id
  lqHostGeneration :: u64
  lqAgentID :: agent_id
  lqRuntimeCompatibilityID :: compat_id
  lqRest :: handle

record AttachRequest =
  atqKey :: Key
  atqAgentID :: agent_id
  atqRuntimeCompatibilityID :: compat_id
  atqRest :: handle

datatype DrainState = DrainDraining | DrainDrained

record DrainStatus =
  dsGeneration :: u64
  dsState :: DrainState

record DrainObservation =
  doHostID :: host_id
  doHostGeneration :: u64
  doDrainGeneration :: u64
  doState :: DrainState
  doTenantID :: tenant_id
  doSessionID :: session_id

record AttachRefusal =
  arCode :: "HostLinkErrorCode option"
  arCurrentLeaseEpoch :: u64
  arRuntimeCompatibilityID :: compat_id

text \<open>Core's part: validation of each record, the channel of a session, decoding and encoding.\<close>

record LinkCore =
  lcBindValid :: "BindRequest \<Rightarrow> bool"
  lcUnbindValid :: "UnbindRequest \<Rightarrow> bool"
  lcDeliveryValid :: "string \<Rightarrow> bool"
  lcDrainValid :: "DrainRequest \<Rightarrow> bool"
  lcAttachValid :: "LinkAttachRequest \<Rightarrow> bool"
  lcDrainObservationValid :: "DrainObservation \<Rightarrow> bool"
  lcAttachObservationValid :: "handle \<Rightarrow> bool"
  lcWireValid :: "HostLinkError \<Rightarrow> bool"
  lcChannel :: "Key \<Rightarrow> string"
  lcDecodeBind :: "string \<Rightarrow> BindRequest option"
  lcDecodeUnbind :: "string \<Rightarrow> UnbindRequest option"
  lcDecodeDelivery :: "string \<Rightarrow> string option"
  lcDecodeDrain :: "string \<Rightarrow> DrainRequest option"
  lcDecodeAttach :: "string \<Rightarrow> LinkAttachRequest option"

text \<open>What the multiplexer asks of the rest of the Host.\<close>

record LinkEnv =
  leRegistry :: Registry
  leDraining :: bool
  leConsumer :: "Key \<Rightarrow> bool"
  leDrainStarter :: "(Key \<Rightarrow> DrainStatus option) option"
  leDrainObserver :: "(Key \<Rightarrow> DrainStatus option) option"
  leBegunScope :: "Key option"
  leAttacher :: "(AttachRequest \<Rightarrow> AttachRefusal option + handle) option"

section \<open>The multiplexer\<close>

record MultiplexerOptions =
  moTenantID :: tenant_id
  moHostID :: host_id
  moHostGeneration :: u64
  moResidencies :: bool
  moAdmission :: bool
  moConsumers :: bool
  moDrainStarter :: bool
  moDrainObserver :: bool
  moFixedSessionID :: session_id
  moMaxBindingsPerLink :: int
  moMaxBindings :: int

record Multiplexer =
  mxTenant :: tenant_id
  mxHostID :: host_id
  mxGeneration :: u64
  mxFixedSession :: session_id
  mxPerLink :: int
  mxTotal :: int
  mxLinks :: "link_id \<rightharpoonup> (string \<rightharpoonup> Binding)"
  mxCount :: int

definition NewMultiplexer ::
  "(string \<Rightarrow> bool) \<Rightarrow> (string \<Rightarrow> bool) \<Rightarrow> (string \<Rightarrow> bool) \<Rightarrow> MultiplexerOptions \<Rightarrow> string + Multiplexer" where
  "NewMultiplexer tenantValid hostValid sessionValid o' =
     (if \<not> tenantValid (moTenantID o') then Inl ''TenantID''
      else if \<not> hostValid (moHostID o') then Inl ''HostID''
      else if moHostGeneration o' = 0 then Inl ''HostGeneration''
      else if \<not> moResidencies o' then Inl ''Residencies''
      else if \<not> moAdmission o' then Inl ''Admission''
      else if \<not> moConsumers o' then Inl ''Consumers''
      else if moMaxBindingsPerLink o' \<le> 0 then Inl ''MaxBindingsPerLink''
      else if moMaxBindings o' \<le> 0 then Inl ''MaxBindings''
      else if moDrainStarter o' \<and> \<not> moDrainObserver o' then Inl ''DrainObserver''
      else if moDrainObserver o' \<and> \<not> moDrainStarter o' then Inl ''DrainStarter''
      else if moFixedSessionID o' \<noteq> [] \<and> \<not> sessionValid (moFixedSessionID o') then Inl ''FixedSessionID''
      else Inr \<lparr> mxTenant = moTenantID o', mxHostID = moHostID o', mxGeneration = moHostGeneration o',
             mxFixedSession = moFixedSessionID o', mxPerLink = moMaxBindingsPerLink o', mxTotal = moMaxBindings o',
             mxLinks = Map.empty, mxCount = 0 \<rparr>)"

definition bindingsOf :: "link_id \<Rightarrow> Multiplexer \<Rightarrow> string \<rightharpoonup> Binding" where
  "bindingsOf link m = (case mxLinks m link of None \<Rightarrow> Map.empty | Some b \<Rightarrow> b)"

definition recordBinding ::
  "LinkCore \<Rightarrow> link_id \<Rightarrow> Key \<Rightarrow> u64 \<Rightarrow> string \<Rightarrow> Multiplexer \<Rightarrow> (BindError + Binding) \<times> Multiplexer" where
  "recordBinding lc link key epoch idem m =
     (let channel = lcChannel lc key; bindings = bindingsOf link m; bound = (bindings channel \<noteq> None);
          binding = \<lparr> bdLink = link, bdKey = key, bdChannel = channel, bdLeaseEpoch = epoch, bdIdempotencyKey = idem \<rparr> in
      if \<not> bound \<and> int (card (dom bindings)) \<ge> mxPerLink m
      then (Inl (refuse RefusalNoLinkCapacity key (Some NoCapacity)), m)
      else if \<not> bound \<and> mxCount m \<ge> mxTotal m
      then (Inl (refuse RefusalNoHostCapacity key (Some NoCapacity)), m)
      else (Inr binding,
            m\<lparr> mxCount := (if bound then mxCount m else mxCount m + 1),
               mxLinks := (mxLinks m)(link \<mapsto> bindings(channel \<mapsto> binding)) \<rparr>))"

definition Bind ::
  "LinkCore \<Rightarrow> LinkEnv \<Rightarrow> link_id \<Rightarrow> BindRequest \<Rightarrow> Multiplexer \<Rightarrow> (BindError + Binding) \<times> Multiplexer" where
  "Bind lc env link request m =
     (let key = Key (brTenantID request) (brSessionID request) in
      if \<not> lcBindValid lc request then (Inl (refuse RefusalMalformedRequest key None), m)
      else if brTenantID request \<noteq> mxTenant m
      then (Inl (refuse RefusalForeignTenant key (Some RuntimeUnavailable)), m)
      else if leDraining env then (Inl (refuse RefusalHostNotAdmitting key (Some NotAdmitting)), m)
      else (case Get key (leRegistry env) of
              None \<Rightarrow> (Inl (refuse RefusalUnknownSession key (Some RuntimeUnavailable)), m)
            | Some entry \<Rightarrow>
                if brHostID request \<noteq> mxHostID m
                then (Inl (refuse RefusalForeignHost key (Some RuntimeUnavailable)), m)
                else if brHostGeneration request \<noteq> mxGeneration m
                then (Inl (refuse RefusalStaleHostGeneration key (Some RuntimeUnavailable)), m)
                else if brLeaseEpoch request \<noteq> eLeaseEpoch entry
                then (Inl ((refuse RefusalEpochMismatch key (Some EpochMismatch))\<lparr> beCurrentLeaseEpoch := eLeaseEpoch entry \<rparr>), m)
                else if brRuntimeCompatibilityID request \<noteq> eCompatibilityID entry
                then (Inl ((refuse RefusalRuntimeMismatch key (Some RuntimeMismatch))
                             \<lparr> beRuntimeCompatibilityID := eCompatibilityID entry \<rparr>), m)
                else if eState entry \<noteq> StateResident
                then (Inl (refuse RefusalReleasing key (Some Releasing)), m)
                else if \<not> eAccepting entry
                then (Inl (refuse RefusalSessionNotAdmitting key (Some NotAdmitting)), m)
                else recordBinding lc link key (brLeaseEpoch request) (brIdempotencyKey request) m))"

definition removeBinding :: "link_id \<Rightarrow> string \<Rightarrow> Multiplexer \<Rightarrow> Multiplexer" where
  "removeBinding link channel m =
     (case mxLinks m link of
        None \<Rightarrow> m
      | Some bindings \<Rightarrow>
          if bindings channel = None then m
          else
            (let bindings' = map_del channel bindings in
             m\<lparr> mxCount := mxCount m - 1,
                mxLinks := (if dom bindings' = {} then map_del link (mxLinks m)
                            else (mxLinks m)(link \<mapsto> bindings')) \<rparr>))"

definition Unbind ::
  "LinkCore \<Rightarrow> link_id \<Rightarrow> UnbindRequest \<Rightarrow> Multiplexer \<Rightarrow> BindError option \<times> Multiplexer" where
  "Unbind lc link request m =
     (let key = Key (urTenantID request) (urSessionID request) in
      if \<not> lcUnbindValid lc request then (Some (refuse RefusalMalformedRequest key None), m)
      else if urTenantID request \<noteq> mxTenant m
      then (Some (refuse RefusalForeignTenant key (Some RuntimeUnavailable)), m)
      else if urHostID request \<noteq> mxHostID m
      then (Some (refuse RefusalForeignHost key (Some RuntimeUnavailable)), m)
      else (None, removeBinding link (lcChannel lc key) m))"

definition bindingAt :: "link_id \<Rightarrow> string \<Rightarrow> Multiplexer \<Rightarrow> Binding option" where
  "bindingAt link channel m = bindingsOf link m channel"

definition MaySubscribe :: "link_id \<Rightarrow> string \<Rightarrow> Multiplexer \<Rightarrow> bool" where
  "MaySubscribe link channel m = (bindingAt link channel m \<noteq> None)"

text \<open>A delivery that is not refused hints the consumer of the session the binding names.\<close>

definition Deliver ::
  "LinkCore \<Rightarrow> LinkEnv \<Rightarrow> link_id \<Rightarrow> string \<Rightarrow> string \<Rightarrow> Multiplexer \<Rightarrow> BindError + Key \<times> string" where
  "Deliver lc env link channel command m =
     (case bindingAt link channel m of
        None \<Rightarrow> Inl (refuse RefusalNotBound noKey (Some RuntimeUnavailable))
      | Some binding \<Rightarrow>
          if \<not> lcDeliveryValid lc command then Inl (refuse RefusalMalformedRequest (bdKey binding) None)
          else (case Get (bdKey binding) (leRegistry env) of
                  None \<Rightarrow> Inl (refuse RefusalResidencyReleased (bdKey binding) (Some NotAdmitting))
                | Some entry \<Rightarrow>
                    if eState entry \<noteq> StateResident
                    then Inl (refuse RefusalReleasing (bdKey binding) (Some Releasing))
                    else if \<not> eAccepting entry
                    then Inl (refuse RefusalSessionNotAdmitting (bdKey binding) (Some NotAdmitting))
                    else if \<not> leConsumer env (bdKey binding)
                    then Inl (refuse RefusalUnknownSession (bdKey binding) (Some RuntimeUnavailable))
                    else Inr (bdKey binding, command)))"

definition sortedBindings :: "(string \<rightharpoonup> Binding) \<Rightarrow> Binding list" where
  "sortedBindings bindings = map (\<lambda>c. the (bindings c)) (sorted_list_of_set (dom bindings))"

definition CloseLink :: "link_id \<Rightarrow> Multiplexer \<Rightarrow> Binding list \<times> Multiplexer" where
  "CloseLink link m =
     (case mxLinks m link of
        None \<Rightarrow> ([], m)
      | Some bindings \<Rightarrow>
          (sortedBindings bindings,
           m\<lparr> mxLinks := map_del link (mxLinks m), mxCount := mxCount m - int (card (dom bindings)) \<rparr>))"

text \<open>The loop over the links visits them in any order; the result is sorted by link.\<close>

fun invalidateLoop ::
  "link_id list \<Rightarrow> string \<Rightarrow> Binding list \<Rightarrow> Multiplexer \<Rightarrow> Binding list \<times> Multiplexer" where
  "invalidateLoop [] channel dropped m = (dropped, m)"
| "invalidateLoop (link # links) channel dropped m =
     (case mxLinks m link of
        None \<Rightarrow> invalidateLoop links channel dropped m
      | Some bindings \<Rightarrow>
          (case bindings channel of
             None \<Rightarrow> invalidateLoop links channel dropped m
           | Some binding \<Rightarrow>
               invalidateLoop links channel (dropped @ [binding])
                 (let bindings' = map_del channel bindings in
                  m\<lparr> mxCount := mxCount m - 1,
                     mxLinks := (if dom bindings' = {} then map_del link (mxLinks m)
                                 else (mxLinks m)(link \<mapsto> bindings')) \<rparr>)))"

definition InvalidateSession_over ::
  "link_id list \<Rightarrow> LinkCore \<Rightarrow> Key \<Rightarrow> Multiplexer \<Rightarrow> Binding list \<times> Multiplexer" where
  "InvalidateSession_over links lc key m =
     (case invalidateLoop links (lcChannel lc key) [] m of
        (dropped, m') \<Rightarrow> (sort_key bdLink dropped, m'))"

definition linksOf :: "Multiplexer \<Rightarrow> link_id list" where
  "linksOf m = sorted_list_of_set (dom (mxLinks m))"

definition InvalidateSession :: "LinkCore \<Rightarrow> Key \<Rightarrow> Multiplexer \<Rightarrow> Binding list \<times> Multiplexer" where
  "InvalidateSession lc key m = InvalidateSession_over (linksOf m) lc key m"

definition LinkBindings :: "link_id \<Rightarrow> Multiplexer \<Rightarrow> Binding list" where
  "LinkBindings link m = sortedBindings (bindingsOf link m)"

definition Replicas :: "LinkCore \<Rightarrow> Key \<Rightarrow> Multiplexer \<Rightarrow> link_id list" where
  "Replicas lc key m = sort (filter (\<lambda>link. bindingsOf link m (lcChannel lc key) \<noteq> None) (linksOf m))"

definition linkLen :: "Multiplexer \<Rightarrow> int" where
  "linkLen m = mxCount m"
section \<open>Drain and attach over a link\<close>

definition beganDrainFor :: "LinkEnv \<Rightarrow> Key \<Rightarrow> bool" where
  "beganDrainFor env key = (leDrainObserver env \<noteq> None \<and> leBegunScope env = Some key)"

definition drainScope :: "LinkCore \<Rightarrow> LinkEnv \<Rightarrow> Multiplexer \<Rightarrow> DrainRequest \<Rightarrow> bool \<Rightarrow> BindError + Key" where
  "drainScope lc env m request observing =
     (if \<not> lcDrainValid lc request then Inl (refuse RefusalMalformedRequest noKey None)
      else if dqHostID request \<noteq> mxHostID m then Inl (refuse RefusalForeignHost noKey (Some RuntimeUnavailable))
      else if dqHostGeneration request \<noteq> mxGeneration m
      then Inl (refuse RefusalStaleHostGeneration noKey (Some RuntimeUnavailable))
      else if dqTenantID request = [] then Inl (refuse RefusalWrongDrainScope noKey (Some RuntimeUnavailable))
      else if dqTenantID request \<noteq> mxTenant m then Inl (refuse RefusalForeignTenant noKey (Some RuntimeUnavailable))
      else
        (let key = Key (dqTenantID request) (dqSessionID request) in
         if mxFixedSession m = [] then Inl (refuse RefusalWrongDrainScope key (Some RuntimeUnavailable))
         else if dqSessionID request \<noteq> mxFixedSession m
         then Inl (refuse RefusalWrongDrainScope key (Some RuntimeUnavailable))
         else if Get key (leRegistry env) = None \<and> \<not> (observing \<and> beganDrainFor env key)
         then Inl (refuse RefusalWrongDrainScope key (Some RuntimeUnavailable))
         else Inr key))"

definition drainObservation ::
  "LinkCore \<Rightarrow> Multiplexer \<Rightarrow> Key \<Rightarrow> DrainStatus \<Rightarrow> BindError + DrainObservation" where
  "drainObservation lc m key status =
     (let observation = \<lparr> doHostID = mxHostID m, doHostGeneration = mxGeneration m,
            doDrainGeneration = dsGeneration status, doState = dsState status, doTenantID = TenantID key,
            doSessionID = SessionID key \<rparr> in
      if \<not> lcDrainObservationValid lc observation
      then Inl (refuse RefusalDrainUnavailable key (Some RuntimeUnavailable))
      else Inr observation)"

text \<open>The scope the state machine is asked to drain, if it is asked, and the answer.\<close>

definition linkStartDrain ::
  "LinkCore \<Rightarrow> LinkEnv \<Rightarrow> Multiplexer \<Rightarrow> DrainRequest \<Rightarrow> Key option \<times> (BindError + DrainObservation)" where
  "linkStartDrain lc env m request =
     (case drainScope lc env m request False of
        Inl e \<Rightarrow> (None, Inl e)
      | Inr key \<Rightarrow>
          (case leDrainStarter env of
             None \<Rightarrow> (None, Inl (refuse RefusalDrainUnsupported key (Some RuntimeUnavailable)))
           | Some start \<Rightarrow>
               (Some key,
                case start key of
                  None \<Rightarrow> Inl (refuse RefusalDrainUnavailable key (Some RuntimeUnavailable))
                | Some status \<Rightarrow> drainObservation lc m key status)))"

definition linkObserveDrain ::
  "LinkCore \<Rightarrow> LinkEnv \<Rightarrow> Multiplexer \<Rightarrow> DrainRequest \<Rightarrow> BindError + DrainObservation" where
  "linkObserveDrain lc env m request =
     (case drainScope lc env m request True of
        Inl e \<Rightarrow> Inl e
      | Inr key \<Rightarrow>
          (case leDrainObserver env of
             None \<Rightarrow> Inl (refuse RefusalDrainUnsupported key (Some RuntimeUnavailable))
           | Some observe \<Rightarrow>
               (case observe key of
                  None \<Rightarrow> Inl (refuse RefusalNoDrainInProgress key (Some RuntimeUnavailable))
                | Some status \<Rightarrow> drainObservation lc m key status)))"

definition attachScope :: "LinkCore \<Rightarrow> Multiplexer \<Rightarrow> LinkAttachRequest \<Rightarrow> BindError + AttachRequest" where
  "attachScope lc m request =
     (let key = Key (lqTenantID request) (lqSessionID request) in
      if \<not> lcAttachValid lc request then Inl (refuse RefusalMalformedRequest key None)
      else if lqTenantID request \<noteq> mxTenant m then Inl (refuse RefusalForeignTenant key (Some RuntimeUnavailable))
      else if lqHostID request \<noteq> mxHostID m then Inl (refuse RefusalForeignHost key (Some RuntimeUnavailable))
      else if lqHostGeneration request \<noteq> mxGeneration m
      then Inl (refuse RefusalStaleHostGeneration key (Some RuntimeUnavailable))
      else Inr \<lparr> atqKey = key, atqAgentID = lqAgentID request,
             atqRuntimeCompatibilityID = lqRuntimeCompatibilityID request, atqRest = lqRest request \<rparr>)"

definition attachRefusal :: "LinkCore \<Rightarrow> Key \<Rightarrow> AttachRefusal option \<Rightarrow> BindError" where
  "attachRefusal lc key err =
     (case err of
        None \<Rightarrow> refuse RefusalAttachFailed key None
      | Some refused \<Rightarrow>
          (case arCode refused of
             None \<Rightarrow> refuse RefusalAttachFailed key None
           | Some code \<Rightarrow>
               if code = EpochMismatch \<and> arCurrentLeaseEpoch refused = 0
               then refuse RefusalHolderEpochUnknown key (Some RuntimeUnavailable)
               else if code = RuntimeMismatch \<and>
                  \<not> lcWireValid lc \<lparr> heCode = code, heCurrentLeaseEpoch = 0,
                      heRuntimeCompatibilityID = arRuntimeCompatibilityID refused \<rparr>
               then refuse RefusalMismatchBuildUnknown key (Some RuntimeUnavailable)
               else
                 (let refusal = refuse RefusalAttachRefused key (Some code) in
                  if code = EpochMismatch then refusal\<lparr> beCurrentLeaseEpoch := arCurrentLeaseEpoch refused \<rparr>
                  else if code = RuntimeMismatch
                  then refusal\<lparr> beRuntimeCompatibilityID := arRuntimeCompatibilityID refused \<rparr>
                  else refusal)))"

definition linkAttach ::
  "LinkCore \<Rightarrow> LinkEnv \<Rightarrow> Multiplexer \<Rightarrow> LinkAttachRequest \<Rightarrow> AttachRequest option \<times> (BindError + handle)" where
  "linkAttach lc env m request =
     (case attachScope lc m request of
        Inl e \<Rightarrow> (None, Inl e)
      | Inr resolved \<Rightarrow>
          (case leAttacher env of
             None \<Rightarrow> (None, Inl (refuse RefusalAttachUnsupported (atqKey resolved) (Some RuntimeUnavailable)))
           | Some attacher \<Rightarrow>
               (Some resolved,
                case attacher resolved of
                  Inl err \<Rightarrow> Inl (attachRefusal lc (atqKey resolved) err)
                | Inr observation \<Rightarrow>
                    if \<not> lcAttachObservationValid lc observation
                    then Inl (refuse RefusalUnpublishableAttach (atqKey resolved) None)
                    else Inr observation)))"

section \<open>The RPC dispatcher\<close>

definition HostLinkErrorOf :: "LinkCore \<Rightarrow> BindError \<Rightarrow> HostLinkError option" where
  "HostLinkErrorOf lc e =
     (case beWire e of
        None \<Rightarrow> None
      | Some code \<Rightarrow>
          (let wire = \<lparr> heCode = code, heCurrentLeaseEpoch = beCurrentLeaseEpoch e,
                 heRuntimeCompatibilityID = beRuntimeCompatibilityID e \<rparr> in
           if lcWireValid lc wire then Some wire else None))"

text \<open>What a call answers: nothing, a record, a published refusal, or a protocol error.\<close>

datatype Reply =
    ReplyEmpty
  | ReplyDrain DrainObservation
  | ReplyAttach handle
  | ReplyRefused HostLinkError
  | ReplyUnroutable
  | ReplyUnpublishable
  | ReplyAttachFailed

definition unpublished :: "BindError \<Rightarrow> Reply" where
  "unpublished e = (if beWire e \<noteq> None then ReplyUnpublishable else ReplyUnroutable)"

definition refusalReply :: "LinkCore \<Rightarrow> BindError \<Rightarrow> Reply" where
  "refusalReply lc e =
     (case HostLinkErrorOf lc e of Some wire \<Rightarrow> ReplyRefused wire | None \<Rightarrow> unpublished e)"

definition drainReply :: "LinkCore \<Rightarrow> BindError + DrainObservation \<Rightarrow> Reply" where
  "drainReply lc res = (case res of Inr observation \<Rightarrow> ReplyDrain observation | Inl e \<Rightarrow> refusalReply lc e)"

definition attachReply :: "LinkCore \<Rightarrow> BindError + handle \<Rightarrow> Reply" where
  "attachReply lc res =
     (case res of
        Inr observation \<Rightarrow> ReplyAttach observation
      | Inl e \<Rightarrow>
          (case HostLinkErrorOf lc e of
             Some wire \<Rightarrow> ReplyRefused wire
           | None \<Rightarrow> if beRefusal e = RefusalMalformedRequest then ReplyUnroutable else ReplyAttachFailed))"

datatype LinkMethod = MethodBind | MethodUnbind | MethodAttach | MethodDrain | MethodDrainStatus | MethodChannel string

text \<open>What a call asked of the rest of the Host.\<close>

datatype LinkEffect = EffectHint Key string | EffectDrain Key | EffectAttach AttachRequest

definition dispatchRPC ::
  "LinkCore \<Rightarrow> LinkEnv \<Rightarrow> link_id \<Rightarrow> LinkMethod \<Rightarrow> string \<Rightarrow> Multiplexer \<Rightarrow> Reply \<times> LinkEffect list \<times> Multiplexer" where
  "dispatchRPC lc env link rpc data m =
     (case rpc of
        MethodDrain \<Rightarrow>
          (case lcDecodeDrain lc data of
             None \<Rightarrow> (drainReply lc (Inl (refuse RefusalMalformedRequest noKey None)), [], m)
           | Some request \<Rightarrow>
               (case linkStartDrain lc env m request of
                  (asked, res) \<Rightarrow>
                    (drainReply lc res, (case asked of None \<Rightarrow> [] | Some key \<Rightarrow> [EffectDrain key]), m)))
      | MethodDrainStatus \<Rightarrow>
          (case lcDecodeDrain lc data of
             None \<Rightarrow> (drainReply lc (Inl (refuse RefusalMalformedRequest noKey None)), [], m)
           | Some request \<Rightarrow> (drainReply lc (linkObserveDrain lc env m request), [], m))
      | MethodAttach \<Rightarrow>
          (case lcDecodeAttach lc data of
             None \<Rightarrow> (attachReply lc (Inl (refuse RefusalMalformedRequest noKey None)), [], m)
           | Some request \<Rightarrow>
               (case linkAttach lc env m request of
                  (asked, res) \<Rightarrow>
                    (attachReply lc res, (case asked of None \<Rightarrow> [] | Some q \<Rightarrow> [EffectAttach q]), m)))
      | MethodBind \<Rightarrow>
          (case lcDecodeBind lc data of
             None \<Rightarrow> (refusalReply lc (refuse RefusalMalformedRequest noKey None), [], m)
           | Some request \<Rightarrow>
               (case Bind lc env link request m of
                  (Inl e, m') \<Rightarrow> (refusalReply lc e, [], m')
                | (Inr _, m') \<Rightarrow> (ReplyEmpty, [], m')))
      | MethodUnbind \<Rightarrow>
          (case lcDecodeUnbind lc data of
             None \<Rightarrow> (refusalReply lc (refuse RefusalMalformedRequest noKey None), [], m)
           | Some request \<Rightarrow>
               (case Unbind lc link request m of
                  (Some e, m') \<Rightarrow> (refusalReply lc e, [], m')
                | (None, m') \<Rightarrow> (ReplyEmpty, [], m')))
      | MethodChannel channel \<Rightarrow>
          (case lcDecodeDelivery lc data of
             None \<Rightarrow>
               (refusalReply lc
                  (if bindingAt link channel m = None
                   then refuse RefusalNotBound noKey (Some RuntimeUnavailable)
                   else refuse RefusalMalformedRequest noKey None), [], m)
           | Some command \<Rightarrow>
               (case Deliver lc env link channel command m of
                  Inl e \<Rightarrow> (refusalReply lc e, [], m)
                | Inr (key, c) \<Rightarrow> (ReplyEmpty, [EffectHint key c], m))))"

lemmas link_ops [link_defs] =
  recordBinding_def Bind_def removeBinding_def Unbind_def CloseLink_def bindingsOf_def bindingAt_def

section \<open>The flat table\<close>

text \<open>
  The specification of the bindings: one table from link and channel to binding, with a
  bound on its size and on the bindings of a link.
\<close>

type_synonym table = "link_id \<times> string \<rightharpoonup> Binding"

definition ofLink :: "link_id \<Rightarrow> table \<Rightarrow> string set" where
  "ofLink link t = {c. (link, c) \<in> dom t}"

definition absTable :: "Multiplexer \<Rightarrow> table" where
  "absTable m = (\<lambda>(link, channel). bindingsOf link m channel)"

definition tableRecord ::
  "LinkCore \<Rightarrow> int \<Rightarrow> int \<Rightarrow> link_id \<Rightarrow> Key \<Rightarrow> u64 \<Rightarrow> string \<Rightarrow> table \<Rightarrow> (BindError + Binding) \<times> table" where
  "tableRecord lc perLink maxAll link key epoch idem t =
     (let channel = lcChannel lc key;
          binding = \<lparr> bdLink = link, bdKey = key, bdChannel = channel, bdLeaseEpoch = epoch, bdIdempotencyKey = idem \<rparr> in
      if (link, channel) \<in> dom t then (Inr binding, t((link, channel) \<mapsto> binding))
      else if int (card (ofLink link t)) \<ge> perLink then (Inl (refuse RefusalNoLinkCapacity key (Some NoCapacity)), t)
      else if int (card (dom t)) \<ge> maxAll then (Inl (refuse RefusalNoHostCapacity key (Some NoCapacity)), t)
      else (Inr binding, t((link, channel) \<mapsto> binding)))"

definition tableRemove :: "link_id \<Rightarrow> string \<Rightarrow> table \<Rightarrow> table" where
  "tableRemove link channel t = t((link, channel) := None)"

definition tableClose :: "link_id \<Rightarrow> table \<Rightarrow> Binding list \<times> table" where
  "tableClose link t =
     (map (\<lambda>c. the (t (link, c))) (sorted_list_of_set (ofLink link t)), (\<lambda>p. if fst p = link then None else t p))"

definition tableInvalidate :: "string \<Rightarrow> table \<Rightarrow> Binding list \<times> table" where
  "tableInvalidate channel t =
     (map (\<lambda>l. the (t (l, channel))) (sorted_list_of_set {l. (l, channel) \<in> dom t}),
      (\<lambda>p. if snd p = channel then None else t p))"

text \<open>What ties the multiplexer to its table.\<close>

definition bindingFits :: "LinkCore \<Rightarrow> tenant_id \<Rightarrow> link_id \<times> string \<Rightarrow> Binding \<Rightarrow> bool" where
  "bindingFits lc tenant p b \<longleftrightarrow>
     bdLink b = fst p \<and> bdChannel b = snd p \<and> snd p = lcChannel lc (bdKey b) \<and> TenantID (bdKey b) = tenant"

definition mx_inv :: "LinkCore \<Rightarrow> Multiplexer \<Rightarrow> bool" where
  "mx_inv lc m \<longleftrightarrow>
     finite (dom (absTable m)) \<and> (\<forall>link b. mxLinks m link = Some b \<longrightarrow> b \<noteq> Map.empty) \<and>
     mxCount m = int (card (dom (absTable m))) \<and> mxCount m \<le> mxTotal m \<and>
     (\<forall>link. int (card (ofLink link (absTable m))) \<le> mxPerLink m) \<and>
     (\<forall>p b. absTable m p = Some b \<longrightarrow> bindingFits lc (mxTenant m) p b)"

lemma mx_inv_fits: "mx_inv lc m \<Longrightarrow> absTable m p = Some b \<Longrightarrow> bindingFits lc (mxTenant m) p b"
  unfolding mx_inv_def by blast

lemma ofLink_abs: "ofLink link (absTable m) = dom (bindingsOf link m)"
  by (auto simp: ofLink_def absTable_def)

lemma finite_ofLink: "finite (dom t) \<Longrightarrow> finite (ofLink link t)"
proof -
  assume "finite (dom t)"
  moreover have "ofLink link t \<subseteq> snd ` dom t" by (force simp: ofLink_def)
  ultimately show ?thesis by (meson finite_imageI finite_subset)
qed

lemma ofLink_upd: "ofLink link (t((l, c) \<mapsto> b)) = (if l = link then insert c (ofLink link t) else ofLink link t)"
  by (auto simp: ofLink_def)

lemma ofLink_sub: "dom t' \<subseteq> dom t \<Longrightarrow> ofLink link t' \<subseteq> ofLink link t"
  by (auto simp: ofLink_def)

text \<open>Shrinking the table keeps the invariant when the count follows it.\<close>

lemma mx_inv_shrink:
  assumes "mx_inv lc m" "\<And>p. absTable m' p \<in> {None, absTable m p}"
    and "\<forall>link b. mxLinks m' link = Some b \<longrightarrow> b \<noteq> Map.empty" "mxCount m' = int (card (dom (absTable m')))"
    and "mxTotal m' = mxTotal m" "mxPerLink m' = mxPerLink m" "mxTenant m' = mxTenant m"
  shows "mx_inv lc m'"
proof -
  have sub: "dom (absTable m') \<subseteq> dom (absTable m)"
  proof
    fix p assume "p \<in> dom (absTable m')"
    then show "p \<in> dom (absTable m)" using assms(2) [of p] by (auto simp: dom_def)
  qed
  have fin: "finite (dom (absTable m))" using assms(1) by (simp add: mx_inv_def)
  have "int (card (ofLink link (absTable m'))) \<le> mxPerLink m" for link
  proof -
    have "card (ofLink link (absTable m')) \<le> card (ofLink link (absTable m))"
      by (rule card_mono [OF finite_ofLink [OF fin] ofLink_sub [OF sub]])
    then show ?thesis using assms(1) unfolding mx_inv_def by (meson of_nat_mono order_trans)
  qed
  moreover have "card (dom (absTable m')) \<le> card (dom (absTable m))" by (rule card_mono [OF fin sub])
  moreover have "absTable m p = Some b" if "absTable m' p = Some b" for p b using assms(2) [of p] that by auto
  ultimately show ?thesis using assms(1,3-7) finite_subset [OF sub fin] unfolding mx_inv_def by auto
qed


section \<open>Data refinement\<close>

text \<open>
  Running a list of operations, and the interface between an implementation and its
  specification: step for step they give the same answer and the abstraction commutes.
\<close>

fun runOps :: "('o \<Rightarrow> 's \<Rightarrow> 'a \<times> 's) \<Rightarrow> 'o list \<Rightarrow> 's \<Rightarrow> 'a list \<times> 's" where
  "runOps step [] s = ([], s)"
| "runOps step (x # xs) s =
     (case step x s of (a, s') \<Rightarrow> (case runOps step xs s' of (as, s'') \<Rightarrow> (a # as, s'')))"

locale data_refinement =
  fixes cstep :: "'o \<Rightarrow> 'c \<Rightarrow> 'a \<times> 'c"
    and astep :: "'o \<Rightarrow> 't \<Rightarrow> 'a \<times> 't"
    and abs' :: "'c \<Rightarrow> 't"
    and cinv :: "'c \<Rightarrow> bool"
  assumes step_inv: "cinv c \<Longrightarrow> cinv (snd (cstep x c))"
    and step_refines: "cinv c \<Longrightarrow> astep x (abs' c) = (fst (cstep x c), abs' (snd (cstep x c)))"
begin

lemma run_refines:
  "cinv c \<Longrightarrow> cinv (snd (runOps cstep xs c)) \<and>
     runOps astep xs (abs' c) = (fst (runOps cstep xs c), abs' (snd (runOps cstep xs c)))"
proof (induction xs arbitrary: c)
  case Nil
  then show ?case by simp
next
  case (Cons x xs)
  obtain a c' where c': "cstep x c = (a, c')" by fastforce
  have "cinv c'" "astep x (abs' c) = (a, abs' c')"
    using step_inv [OF Cons.prems, of x] step_refines [OF Cons.prems, of x] c' by simp_all
  with Cons.IH [of c'] c' show ?case by (simp add: split_beta)
qed

end

section \<open>The multiplexer refines the flat table\<close>

lemma absTable_at [simp]: "absTable m (link, channel) = bindingsOf link m channel"
  by (simp add: absTable_def)

lemma bindingsOf_upd:
  "bindingsOf l (m\<lparr> mxCount := n, mxLinks := (mxLinks m)(link \<mapsto> b) \<rparr>) = (if l = link then b else bindingsOf l m)"
  by (simp add: bindingsOf_def)

lemma bindingsOf_del:
  "bindingsOf l (m\<lparr> mxCount := n, mxLinks := map_del link (mxLinks m) \<rparr>) = (if l = link then Map.empty else bindingsOf l m)"
  by (simp add: bindingsOf_def)

lemma removeBinding_bindings:
  "bindingsOf l (removeBinding link channel m) =
     (if l = link then map_del channel (bindingsOf l m) else bindingsOf l m)"
proof (cases "mxLinks m link")
  case None
  then show ?thesis by (auto simp: removeBinding_def bindingsOf_def map_del_def)
next
  case (Some b)
  show ?thesis
  proof (cases "b channel")
    case None
    then have "map_del channel b = b" by (auto simp: map_del_def)
    with None Some show ?thesis by (simp add: removeBinding_def bindingsOf_def)
  next
    case (Some c)
    have "map_del channel b = Map.empty" if "dom b - {channel} = {}"
    proof
      fix x show "map_del channel b x = Map.empty x" using that by (cases "x = channel") (auto simp: map_del_def)
    qed
    with Some \<open>mxLinks m link = Some b\<close> show ?thesis
      by (auto simp: removeBinding_def Let_def bindingsOf_upd bindingsOf_del) (auto simp: bindingsOf_def)
  qed
qed

lemma absTable_remove: "absTable (removeBinding link channel m) = tableRemove link channel (absTable m)"
  by (rule ext) (auto simp: absTable_def removeBinding_bindings tableRemove_def map_del_def split: prod.splits)

lemma removeBinding_frame [simp]:
  "mxTotal (removeBinding link channel m) = mxTotal m" "mxPerLink (removeBinding link channel m) = mxPerLink m"
  "mxTenant (removeBinding link channel m) = mxTenant m" "mxHostID (removeBinding link channel m) = mxHostID m"
  "mxGeneration (removeBinding link channel m) = mxGeneration m"
  by (simp_all add: removeBinding_def Let_def split: option.splits)

lemma removeBinding_count:
  "mxCount (removeBinding link channel m) = (if bindingsOf link m channel = None then mxCount m else mxCount m - 1)"
  by (simp add: removeBinding_def bindingsOf_def Let_def split: option.splits)

lemma removeBinding_nonempty:
  assumes "\<forall>l b. mxLinks m l = Some b \<longrightarrow> b \<noteq> Map.empty" "mxLinks (removeBinding link channel m) l = Some b"
  shows "b \<noteq> Map.empty"
  using assms
  by (auto simp: removeBinding_def Let_def split: option.splits if_splits)

lemma mx_inv_remove:
  assumes "mx_inv lc m"
  shows "mx_inv lc (removeBinding link channel m)"
proof (rule mx_inv_shrink [OF assms])
  show "absTable (removeBinding link channel m) p \<in> {None, absTable m p}" for p
    by (simp add: absTable_remove tableRemove_def)
  show "\<forall>l b. mxLinks (removeBinding link channel m) l = Some b \<longrightarrow> b \<noteq> Map.empty"
    using assms removeBinding_nonempty unfolding mx_inv_def by blast
  have fin: "finite (dom (absTable m))" and n: "mxCount m = int (card (dom (absTable m)))"
    using assms by (simp_all add: mx_inv_def)
  show "mxCount (removeBinding link channel m) = int (card (dom (absTable (removeBinding link channel m))))"
  proof (cases "bindingsOf link m channel")
    case None
    then have "tableRemove link channel (absTable m) = absTable m" by (auto simp: tableRemove_def)
    with None n show ?thesis by (simp add: removeBinding_count absTable_remove)
  next
    case (Some b)
    then have "(link, channel) \<in> dom (absTable m)" by (simp add: dom_def)
    then have "card (dom (absTable m)) = Suc (card (dom (absTable m) - {(link, channel)}))"
      by (rule card.remove [OF fin])
    with Some n show ?thesis by (simp add: removeBinding_count absTable_remove tableRemove_def)
  qed
qed simp_all


lemma absTable_record:
  "recordBinding lc link key epoch idem m = (res, m') \<Longrightarrow> finite (dom (absTable m)) \<Longrightarrow>
   mxCount m = int (card (dom (absTable m))) \<Longrightarrow>
   tableRecord lc (mxPerLink m) (mxTotal m) link key epoch idem (absTable m) = (res, absTable m')"
proof -
  assume r: "recordBinding lc link key epoch idem m = (res, m')" and "finite (dom (absTable m))"
    and n: "mxCount m = int (card (dom (absTable m)))"
  let ?c = "lcChannel lc key"
  let ?b = "\<lparr> bdLink = link, bdKey = key, bdChannel = ?c, bdLeaseEpoch = epoch, bdIdempotencyKey = idem \<rparr>"
  have at: "((link, ?c) \<in> dom (absTable m)) = (bindingsOf link m ?c \<noteq> None)" by (simp add: dom_def)
  have up: "absTable (m\<lparr> mxCount := n, mxLinks := (mxLinks m)(link \<mapsto> (bindingsOf link m)(?c \<mapsto> ?b)) \<rparr>)
      = (absTable m)((link, ?c) \<mapsto> ?b)" for n
    by (rule ext) (auto simp: absTable_def bindingsOf_upd split: prod.splits)
  show ?thesis
    using r unfolding recordBinding_def tableRecord_def Let_def at n ofLink_abs
    by (auto simp only: up split: if_splits)
qed

lemma recordBinding_frame:
  "mxTotal (snd (recordBinding lc link key epoch idem m)) = mxTotal m"
  "mxPerLink (snd (recordBinding lc link key epoch idem m)) = mxPerLink m"
  "mxTenant (snd (recordBinding lc link key epoch idem m)) = mxTenant m"
  "mxHostID (snd (recordBinding lc link key epoch idem m)) = mxHostID m"
  "mxGeneration (snd (recordBinding lc link key epoch idem m)) = mxGeneration m"
  by (simp_all add: recordBinding_def Let_def)

lemma mx_inv_record:
  assumes "mx_inv lc m" "TenantID key = mxTenant m"
  shows "mx_inv lc (snd (recordBinding lc link key epoch idem m))"
proof (cases "fst (recordBinding lc link key epoch idem m)")
  case (Inl e)
  then have "snd (recordBinding lc link key epoch idem m) = m" by (auto simp: recordBinding_def Let_def split: if_splits)
  with assms(1) show ?thesis by simp
next
  case (Inr b)
  let ?c = "lcChannel lc key"
  obtain m' where m': "recordBinding lc link key epoch idem m = (Inr b, m')" using Inr by (metis prod.collapse)
  have inv: "finite (dom (absTable m))" "mxCount m = int (card (dom (absTable m)))" "mxCount m \<le> mxTotal m"
    "\<And>l. int (card (ofLink l (absTable m))) \<le> mxPerLink m"
    using assms(1) by (simp_all add: mx_inv_def)
  have t: "absTable m' = (absTable m)((link, ?c) \<mapsto> b)" and b: "bindingFits lc (mxTenant m) (link, ?c) b"
    and room: "(link, ?c) \<in> dom (absTable m) \<or>
      (int (card (ofLink link (absTable m))) < mxPerLink m \<and> int (card (dom (absTable m))) < mxTotal m)"
    using absTable_record [OF m' inv(1,2)] assms(2)
    by (auto simp: tableRecord_def Let_def bindingFits_def split: if_splits)
  have cnt: "mxCount m' = (if (link, ?c) \<in> dom (absTable m) then mxCount m else mxCount m + 1)"
    using m' by (auto simp: recordBinding_def Let_def split: if_splits)
  have ne: "c \<noteq> Map.empty" if "mxLinks m' l = Some c" for l c
  proof (cases "l = link")
    case True
    then show ?thesis using m' that by (auto simp: recordBinding_def Let_def split: if_splits)
  next
    case False
    then have "mxLinks m l = Some c" using m' that by (auto simp: recordBinding_def Let_def split: if_splits)
    then show ?thesis using assms(1) unfolding mx_inv_def by blast
  qed
  have per: "int (card (ofLink l (absTable m'))) \<le> mxPerLink m" for l
    using room inv(4) [of l] finite_ofLink [OF inv(1), of l]
    by (auto simp: t ofLink_upd card_insert_if) (auto simp: ofLink_def)
  have "mxTotal m' = mxTotal m" "mxPerLink m' = mxPerLink m" "mxTenant m' = mxTenant m"
    using recordBinding_frame [of lc link key epoch idem m] m' by simp_all
  moreover have "bindingFits lc (mxTenant m) p c" if "absTable m' p = Some c" for p c
    using that mx_inv_fits [OF assms(1), of p c] b unfolding t by (auto simp del: split_paired_All split: if_splits)
  ultimately have "mx_inv lc m'"
    using inv room cnt ne per unfolding mx_inv_def by (auto simp: t card_insert_if)
  with m' show ?thesis by simp
qed

text \<open>Closing a link and invalidating a session.\<close>

lemma CloseLink_bindings:
  "bindingsOf l (snd (CloseLink link m)) = (if l = link then Map.empty else bindingsOf l m)"
  by (auto simp: CloseLink_def bindingsOf_def split: option.splits)

lemma CloseLink_refines: "tableClose link (absTable m) = (fst (CloseLink link m), absTable (snd (CloseLink link m)))"
proof -
  have "(\<lambda>p. if fst p = link then None else absTable m p) = absTable (snd (CloseLink link m))"
    by (rule ext) (auto simp: absTable_def CloseLink_bindings split: prod.splits)
  moreover have "map (\<lambda>c. the (absTable m (link, c))) (sorted_list_of_set (ofLink link (absTable m)))
      = fst (CloseLink link m)"
    unfolding ofLink_abs by (auto simp: CloseLink_def sortedBindings_def bindingsOf_def split: option.splits)
  ultimately show ?thesis by (simp add: tableClose_def)
qed

lemma CloseLink_frame [simp]:
  "mxTotal (snd (CloseLink link m)) = mxTotal m" "mxPerLink (snd (CloseLink link m)) = mxPerLink m"
  "mxTenant (snd (CloseLink link m)) = mxTenant m" "mxHostID (snd (CloseLink link m)) = mxHostID m"
  "mxGeneration (snd (CloseLink link m)) = mxGeneration m"
  by (simp_all add: CloseLink_def split: option.splits)

lemma mx_inv_close:
  assumes "mx_inv lc m"
  shows "mx_inv lc (snd (CloseLink link m))"
proof (rule mx_inv_shrink [OF assms])
  let ?t = "absTable m"
  have t: "absTable (snd (CloseLink link m)) = (\<lambda>p. if fst p = link then None else ?t p)"
    using CloseLink_refines [of link m] by (simp add: tableClose_def)
  show "absTable (snd (CloseLink link m)) p \<in> {None, ?t p}" for p by (simp add: t)
  show "\<forall>l b. mxLinks (snd (CloseLink link m)) l = Some b \<longrightarrow> b \<noteq> Map.empty"
    using assms by (auto simp: CloseLink_def mx_inv_def split: option.splits)
  have fin: "finite (dom ?t)" and n: "mxCount m = int (card (dom ?t))" using assms by (simp_all add: mx_inv_def)
  have dom: "dom ?t = dom (absTable (snd (CloseLink link m))) \<union> Pair link ` ofLink link ?t"
    by (auto simp: t ofLink_def image_iff split: if_splits)
  have "finite (dom (absTable (snd (CloseLink link m))))" using fin dom by (metis finite_Un)
  then have "card (dom ?t) = card (dom (absTable (snd (CloseLink link m)))) + card (ofLink link ?t)"
    by (subst dom, subst card_Un_disjoint) (auto simp: finite_ofLink [OF fin] card_image inj_on_def t split: if_splits)
  moreover have "mxCount (snd (CloseLink link m)) = mxCount m - int (card (ofLink link ?t))"
    unfolding ofLink_abs by (simp add: CloseLink_def bindingsOf_def split: option.splits)
  ultimately show "mxCount (snd (CloseLink link m)) = int (card (dom (absTable (snd (CloseLink link m)))))"
    using n by simp
qed simp_all

lemma invalidateLoop_is_removal:
  "invalidateLoop (link # links) channel dropped m =
     invalidateLoop links channel (dropped @ (case bindingsOf link m channel of None \<Rightarrow> [] | Some b \<Rightarrow> [b]))
       (removeBinding link channel m)"
  by (simp add: bindingsOf_def removeBinding_def Let_def split: option.splits)

declare invalidateLoop.simps(2) [simp del]

lemma invalidateLoop_spec:
  "invalidateLoop links channel dropped m = (dropped', m') \<Longrightarrow> mx_inv lc m \<Longrightarrow> distinct links \<Longrightarrow>
     mx_inv lc m' \<and> dropped' = dropped @ map (\<lambda>l. the (absTable m (l, channel)))
        (filter (\<lambda>l. (l, channel) \<in> dom (absTable m)) links) \<and>
     absTable m' = (\<lambda>p. if snd p = channel \<and> fst p \<in> set links then None else absTable m p) \<and>
     mxTotal m' = mxTotal m \<and> mxPerLink m' = mxPerLink m \<and> mxTenant m' = mxTenant m \<and>
     mxHostID m' = mxHostID m \<and> mxGeneration m' = mxGeneration m"
proof (induction links arbitrary: dropped m)
  case Nil
  then show ?case by simp
next
  case (Cons link links)
  let ?m = "removeBinding link channel m"
  have keep: "absTable ?m (l, channel) = absTable m (l, channel)" if "l \<in> set links" for l
    using that Cons.prems(3) by (auto simp: absTable_remove tableRemove_def)
  let ?sel = "\<lambda>m ls. map (\<lambda>l. the (absTable m (l, channel))) (filter (\<lambda>l. (l, channel) \<in> dom (absTable m)) ls)"
  let ?d = "dropped @ (case bindingsOf link m channel of None \<Rightarrow> [] | Some b \<Rightarrow> [b])"
  have "filter (\<lambda>l. (l, channel) \<in> dom (absTable ?m)) links = filter (\<lambda>l. (l, channel) \<in> dom (absTable m)) links"
    using keep by (intro filter_cong) (simp_all add: dom_def)
  then have sel: "?sel ?m links = ?sel m links" using keep by (intro map_cong) simp_all
  have run: "invalidateLoop links channel ?d ?m = (dropped', m')" and dist: "distinct links"
    using Cons.prems(1,3) unfolding invalidateLoop_is_removal by simp_all
  note ih = Cons.IH [OF run mx_inv_remove [OF Cons.prems(2)] dist]
  have "dropped' = dropped @ ?sel m (link # links)"
    using ih sel by (auto simp: dom_def split: option.splits)
  moreover have "absTable m' = (\<lambda>p. if snd p = channel \<and> fst p \<in> set (link # links) then None else absTable m p)"
    using ih by (auto simp: absTable_remove tableRemove_def)
  ultimately show ?case using ih by simp
qed


text \<open>The links that hold the session are among the keys of the table, whatever the order of the visit.\<close>

lemma invalidate_refines:
  assumes "mx_inv lc m" "distinct links" "set links = dom (mxLinks m)"
  shows "tableInvalidate (lcChannel lc key) (absTable m) =
      (fst (InvalidateSession_over links lc key m), absTable (snd (InvalidateSession_over links lc key m)))"
    and "mx_inv lc (snd (InvalidateSession_over links lc key m))"
proof -
  let ?c = "lcChannel lc key" and ?t = "absTable m"
  obtain dropped m' where run: "invalidateLoop links ?c [] m = (dropped, m')" by fastforce
  note spec = invalidateLoop_spec [OF run assms(1,2)]
  have mem: "l \<in> set links" if "(l, ?c) \<in> dom ?t" for l
    using that assms(3) by (auto simp: bindingsOf_def split: option.splits)
  let ?ls = "filter (\<lambda>l. (l, ?c) \<in> dom ?t) links" and ?f = "\<lambda>l. the (?t (l, ?c))"
  have set: "set ?ls = {l. (l, ?c) \<in> dom ?t}" using mem by auto
  have link: "bdLink (?f l) = l" if "l \<in> set ?ls" for l
    using that assms(1) by (auto simp: mx_inv_def bindingFits_def)
  have "sort_key bdLink (map ?f ?ls) = map ?f (sort ?ls)" by (rule sort_key_of_keys) (rule link)
  moreover have "sort ?ls = sorted_list_of_set {l. (l, ?c) \<in> dom ?t}"
    using sort_distinct_set [of ?ls] assms(2) set by simp
  moreover have "(\<lambda>p. if snd p = ?c \<and> fst p \<in> set links then None else ?t p)
      = (\<lambda>p. if snd p = ?c then None else ?t p)"
  proof
    fix p show "(if snd p = ?c \<and> fst p \<in> set links then None else ?t p) = (if snd p = ?c then None else ?t p)"
      using mem [of "fst p"] by (cases p; cases "?t (fst p, ?c)") (auto simp: dom_def)
  qed
  ultimately show "tableInvalidate ?c ?t =
      (fst (InvalidateSession_over links lc key m), absTable (snd (InvalidateSession_over links lc key m)))"
    using spec by (simp add: tableInvalidate_def InvalidateSession_over_def run)
  show "mx_inv lc (snd (InvalidateSession_over links lc key m))"
    using spec by (simp add: InvalidateSession_over_def run)
qed

lemma linksOf_props:
  assumes "mx_inv lc m"
  shows "distinct (linksOf m)" "set (linksOf m) = dom (mxLinks m)"
proof -
  have "dom (mxLinks m) \<subseteq> fst ` dom (absTable m)"
  proof
    fix l assume "l \<in> dom (mxLinks m)"
    then obtain b where b: "mxLinks m l = Some b" by auto
    with assms have "b \<noteq> Map.empty" unfolding mx_inv_def by blast
    then obtain c where "b c \<noteq> None" by fastforce
    with b have "(l, c) \<in> dom (absTable m)" by (simp add: dom_def bindingsOf_def)
    then show "l \<in> fst ` dom (absTable m)" by (metis fst_conv image_eqI)
  qed
  moreover have "finite (dom (absTable m))" using assms by (simp add: mx_inv_def)
  ultimately have "finite (dom (mxLinks m))" by (meson finite_imageI finite_subset)
  then show "distinct (linksOf m)" "set (linksOf m) = dom (mxLinks m)" by (simp_all add: linksOf_def)
qed

lemma invalidate_frame:
  assumes "mx_inv lc m"
  shows "mxTotal (snd (InvalidateSession lc key m)) = mxTotal m"
    "mxPerLink (snd (InvalidateSession lc key m)) = mxPerLink m"
    "mxTenant (snd (InvalidateSession lc key m)) = mxTenant m"
    "mxHostID (snd (InvalidateSession lc key m)) = mxHostID m"
    "mxGeneration (snd (InvalidateSession lc key m)) = mxGeneration m"
proof -
  obtain dropped m' where run: "invalidateLoop (linksOf m) (lcChannel lc key) [] m = (dropped, m')" by fastforce
  note spec = invalidateLoop_spec [OF run assms linksOf_props(1) [OF assms]]
  then show "mxTotal (snd (InvalidateSession lc key m)) = mxTotal m"
    "mxPerLink (snd (InvalidateSession lc key m)) = mxPerLink m"
    "mxTenant (snd (InvalidateSession lc key m)) = mxTenant m"
    "mxHostID (snd (InvalidateSession lc key m)) = mxHostID m"
    "mxGeneration (snd (InvalidateSession lc key m)) = mxGeneration m"
    by (simp_all add: InvalidateSession_def InvalidateSession_over_def run)
qed


text \<open>
  The checks of a bind before the table is looked at, and the operations as one step
  function over the multiplexer and one over the table.
\<close>

definition bindRefusal :: "LinkCore \<Rightarrow> LinkEnv \<Rightarrow> tenant_id \<Rightarrow> host_id \<Rightarrow> u64 \<Rightarrow> BindRequest \<Rightarrow> BindError option" where
  "bindRefusal lc env tenant host gen request =
     (case fst (Bind lc env [] request
        \<lparr> mxTenant = tenant, mxHostID = host, mxGeneration = gen, mxFixedSession = [], mxPerLink = 1, mxTotal = 1,
          mxLinks = Map.empty, mxCount = 0 \<rparr>) of
        Inl e \<Rightarrow> Some e
      | Inr _ \<Rightarrow> None)"

lemma Bind_splits:
  "Bind lc env link request m =
     (case bindRefusal lc env (mxTenant m) (mxHostID m) (mxGeneration m) request of
        Some e \<Rightarrow> (Inl e, m)
      | None \<Rightarrow> recordBinding lc link (Key (brTenantID request) (brSessionID request)) (brLeaseEpoch request)
                  (brIdempotencyKey request) m)"
  by (simp add: bindRefusal_def Bind_def Let_def recordBinding_def bindingsOf_def split: option.split)

lemma bindRefusal_tenant: "bindRefusal lc env tenant host gen request = None \<Longrightarrow> brTenantID request = tenant"
  by (auto simp: bindRefusal_def Bind_def Let_def split: if_splits)

datatype LinkOp =
    OBind LinkEnv link_id BindRequest
  | OUnbind link_id UnbindRequest
  | OClose link_id
  | OInvalidate Key
  | OMaySubscribe link_id string
  | ODeliver LinkEnv link_id string string
  | OLen

datatype LinkAnswer =
    ABound "BindError + Binding"
  | AUnbound "BindError option"
  | ADropped "Binding list"
  | AMay bool
  | ADelivered "BindError + Key \<times> string"
  | ALen int

fun mxStep :: "LinkCore \<Rightarrow> LinkOp \<Rightarrow> Multiplexer \<Rightarrow> LinkAnswer \<times> Multiplexer" where
  "mxStep lc (OBind env link request) m = map_prod ABound id (Bind lc env link request m)"
| "mxStep lc (OUnbind link request) m = map_prod AUnbound id (Unbind lc link request m)"
| "mxStep lc (OClose link) m = map_prod ADropped id (CloseLink link m)"
| "mxStep lc (OInvalidate key) m = map_prod ADropped id (InvalidateSession lc key m)"
| "mxStep lc (OMaySubscribe link channel) m = (AMay (MaySubscribe link channel m), m)"
| "mxStep lc (ODeliver env link channel command) m = (ADelivered (Deliver lc env link channel command m), m)"
| "mxStep lc OLen m = (ALen (linkLen m), m)"

text \<open>What delivering over a binding answers, wherever the binding was found.\<close>

definition deliverTo :: "LinkCore \<Rightarrow> LinkEnv \<Rightarrow> string \<Rightarrow> Binding option \<Rightarrow> BindError + Key \<times> string" where
  "deliverTo lc env command b =
     Deliver lc env [] []  command \<lparr> mxTenant = [], mxHostID = [], mxGeneration = 0, mxFixedSession = [], mxPerLink = 1,
       mxTotal = 1, mxLinks = [[] \<mapsto> (\<lambda>_. b)], mxCount = 0 \<rparr>"

lemma Deliver_over: "Deliver lc env link channel command m = deliverTo lc env command (absTable m (link, channel))"
  by (simp add: Deliver_def deliverTo_def bindingAt_def bindingsOf_def split: option.split)

fun tableStep ::
  "LinkCore \<Rightarrow> tenant_id \<Rightarrow> host_id \<Rightarrow> u64 \<Rightarrow> int \<Rightarrow> int \<Rightarrow> LinkOp \<Rightarrow> table \<Rightarrow> LinkAnswer \<times> table" where
  "tableStep lc tn h g pl mx (OBind env link request) t =
     (case bindRefusal lc env tn h g request of
        Some e \<Rightarrow> (ABound (Inl e), t)
      | None \<Rightarrow> map_prod ABound id (tableRecord lc pl mx link (Key (brTenantID request) (brSessionID request))
                  (brLeaseEpoch request) (brIdempotencyKey request) t))"
| "tableStep lc tn h g pl mx (OUnbind link request) t =
     (let key = Key (urTenantID request) (urSessionID request) in
      if \<not> lcUnbindValid lc request then (AUnbound (Some (refuse RefusalMalformedRequest key None)), t)
      else if urTenantID request \<noteq> tn
      then (AUnbound (Some (refuse RefusalForeignTenant key (Some RuntimeUnavailable))), t)
      else if urHostID request \<noteq> h
      then (AUnbound (Some (refuse RefusalForeignHost key (Some RuntimeUnavailable))), t)
      else (AUnbound None, tableRemove link (lcChannel lc key) t))"
| "tableStep lc tn h g pl mx (OClose link) t = map_prod ADropped id (tableClose link t)"
| "tableStep lc tn h g pl mx (OInvalidate key) t = map_prod ADropped id (tableInvalidate (lcChannel lc key) t)"
| "tableStep lc tn h g pl mx (OMaySubscribe link channel) t = (AMay ((link, channel) \<in> dom t), t)"
| "tableStep lc tn h g pl mx (ODeliver env link channel command) t =
     (ADelivered (deliverTo lc env command (t (link, channel))), t)"
| "tableStep lc tn h g pl mx OLen t = (ALen (int (card (dom t))), t)"

definition mxConfigured ::
  "LinkCore \<Rightarrow> tenant_id \<Rightarrow> host_id \<Rightarrow> u64 \<Rightarrow> int \<Rightarrow> int \<Rightarrow> Multiplexer \<Rightarrow> bool" where
  "mxConfigured lc tn h g pl mx m \<longleftrightarrow> mx_inv lc m \<and> mxTenant m = tn \<and> mxHostID m = h \<and> mxGeneration m = g \<and>
     mxPerLink m = pl \<and> mxTotal m = mx"

lemma mxStep_inv:
  assumes "mxConfigured lc tn h g pl mx m"
  shows "mxConfigured lc tn h g pl mx (snd (mxStep lc x m))"
proof (cases x)
  case (OBind env link request)
  with assms bindRefusal_tenant [of lc env tn h g request] show ?thesis
    by (auto simp: mxConfigured_def Bind_splits recordBinding_frame mx_inv_record split: option.splits)
next
  case (OUnbind link request)
  with assms show ?thesis by (auto simp: mxConfigured_def Unbind_def Let_def mx_inv_remove)
next
  case (OInvalidate key)
  have inv: "mx_inv lc m" using assms by (simp add: mxConfigured_def)
  with OInvalidate assms show ?thesis
    using invalidate_refines(2) [OF inv linksOf_props [OF inv], of key]
    by (simp add: mxConfigured_def invalidate_frame InvalidateSession_def [symmetric])
qed (use assms in \<open>auto simp: mxConfigured_def mx_inv_close\<close>)

lemma mxStep_refines:
  assumes "mxConfigured lc tn h g pl mx m"
  shows "tableStep lc tn h g pl mx x (absTable m) = (fst (mxStep lc x m), absTable (snd (mxStep lc x m)))"
proof -
  have inv: "mx_inv lc m" and cfg: "tn = mxTenant m" "h = mxHostID m" "g = mxGeneration m" "pl = mxPerLink m" "mx = mxTotal m"
    using assms by (simp_all add: mxConfigured_def)
  then have fin: "finite (dom (absTable m))" and cnt: "mxCount m = int (card (dom (absTable m)))"
    by (simp_all add: mx_inv_def)
  show ?thesis
  proof (cases x)
    case (OBind env link request)
    let ?key = "Key (brTenantID request) (brSessionID request)"
    obtain res m' where r: "recordBinding lc link ?key (brLeaseEpoch request) (brIdempotencyKey request) m = (res, m')"
      by fastforce
    from absTable_record [OF r fin cnt] r show ?thesis
      by (simp add: OBind cfg Bind_splits split: option.split)
  next
    case (OUnbind link request)
    then show ?thesis by (simp add: cfg Unbind_def Let_def absTable_remove)
  next
    case (OClose link)
    then show ?thesis by (simp add: CloseLink_refines)
  next
    case (OInvalidate key)
    then show ?thesis
      using invalidate_refines(1) [OF inv linksOf_props [OF inv], of key] by (simp add: InvalidateSession_def)
  next
    case (OMaySubscribe link channel)
    then show ?thesis by (simp add: MaySubscribe_def bindingAt_def dom_def)
  qed (simp_all add: Deliver_over linkLen_def cnt)
qed

interpretation mx_table: data_refinement "mxStep lc" "tableStep lc tn h g pl mx" absTable "mxConfigured lc tn h g pl mx"
  for lc tn h g pl mx
proof
  fix x m assume c: "mxConfigured lc tn h g pl mx m"
  show "mxConfigured lc tn h g pl mx (snd (mxStep lc x m))" by (rule mxStep_inv [OF c])
  show "tableStep lc tn h g pl mx x (absTable m) = (fst (mxStep lc x m), absTable (snd (mxStep lc x m)))"
    by (rule mxStep_refines [OF c])
qed

lemma NewMultiplexer_configured:
  assumes "NewMultiplexer tv hv sv opts = Inr m"
  shows "mxConfigured lc (moTenantID opts) (moHostID opts) (moHostGeneration opts) (moMaxBindingsPerLink opts)
      (moMaxBindings opts) m"
    and "absTable m = Map.empty"
proof -
  have m: "m = \<lparr> mxTenant = moTenantID opts, mxHostID = moHostID opts, mxGeneration = moHostGeneration opts,
      mxFixedSession = moFixedSessionID opts, mxPerLink = moMaxBindingsPerLink opts, mxTotal = moMaxBindings opts,
      mxLinks = Map.empty, mxCount = 0 \<rparr>" and pos: "0 < moMaxBindingsPerLink opts" "0 < moMaxBindings opts"
    using assms by (simp_all add: NewMultiplexer_def split: if_splits)
  show t: "absTable m = Map.empty" by (auto simp: m absTable_def bindingsOf_def)
  have "ofLink link Map.empty = {}" for link by (simp add: ofLink_def)
  with t pos show "mxConfigured lc (moTenantID opts) (moHostID opts) (moHostGeneration opts)
      (moMaxBindingsPerLink opts) (moMaxBindings opts) m"
    by (simp add: mxConfigured_def mx_inv_def m [symmetric] t) (simp add: m)
qed


section \<open>Where a binding comes from\<close>

lemma bindRefusal_None:
  "bindRefusal lc env tn h g request = None \<longleftrightarrow>
     lcBindValid lc request \<and> brTenantID request = tn \<and> \<not> leDraining env \<and> brHostID request = h \<and>
     brHostGeneration request = g \<and>
     (\<exists>entry. Get (Key tn (brSessionID request)) (leRegistry env) = Some entry \<and> eLeaseEpoch entry = brLeaseEpoch request \<and>
        eCompatibilityID entry = brRuntimeCompatibilityID request \<and> eState entry = StateResident \<and> eAccepting entry)"
  by (auto simp: bindRefusal_def Bind_def Let_def recordBinding_def bindingsOf_def split: option.splits)

text \<open>A binding was granted when the link sent a bind that passed every check, and names what it asked for.\<close>

definition grantedBy :: "LinkCore \<Rightarrow> tenant_id \<Rightarrow> host_id \<Rightarrow> u64 \<Rightarrow> LinkOp list \<Rightarrow> link_id \<times> string \<Rightarrow> Binding \<Rightarrow> bool" where
  "grantedBy lc tn h g ops p b \<longleftrightarrow>
     (\<exists>env request. OBind env (fst p) request \<in> set ops \<and> bindRefusal lc env tn h g request = None \<and>
        b = \<lparr> bdLink = fst p, bdKey = Key tn (brSessionID request), bdChannel = snd p,
              bdLeaseEpoch = brLeaseEpoch request, bdIdempotencyKey = brIdempotencyKey request \<rparr> \<and>
        snd p = lcChannel lc (Key tn (brSessionID request)))"

lemma tableStep_grants:
  assumes "snd (tableStep lc tn h g pl mx x t) p = Some b"
  shows "t p = Some b \<or> grantedBy lc tn h g [x] p b"
proof (cases x)
  case (OBind env link request)
  show ?thesis
  proof (cases "bindRefusal lc env tn h g request")
    case None
    with assms OBind bindRefusal_tenant [OF None] show ?thesis
      by (cases p) (auto simp: tableRecord_def grantedBy_def Let_def split: if_splits)
  qed (use assms OBind in simp)
next
  case (OUnbind link request)
  with assms show ?thesis by (auto simp: Let_def tableRemove_def split: if_splits)
qed (use assms in \<open>auto simp: tableClose_def tableInvalidate_def split: if_splits\<close>)

lemma table_run_grants:
  "snd (runOps (tableStep lc tn h g pl mx) ops t) p = Some b \<Longrightarrow> t p = Some b \<or> grantedBy lc tn h g ops p b"
proof (induction ops arbitrary: t)
  case Nil
  then show ?case by simp
next
  case (Cons x xs)
  let ?t = "snd (tableStep lc tn h g pl mx x t)"
  have "snd (runOps (tableStep lc tn h g pl mx) xs ?t) p = Some b" using Cons.prems by (simp add: split_beta)
  then consider "?t p = Some b" | "grantedBy lc tn h g xs p b" using Cons.IH by blast
  then show ?case
  proof cases
    case 1
    from tableStep_grants [OF this] show ?thesis by (auto simp: grantedBy_def)
  qed (auto simp: grantedBy_def)
qed

lemma mx_run_grants:
  assumes "NewMultiplexer tv hv sv opts = Inr m0" "absTable (snd (runOps (mxStep lc) ops m0)) p = Some b"
  shows "grantedBy lc (moTenantID opts) (moHostID opts) (moHostGeneration opts) ops p b"
proof -
  note new = NewMultiplexer_configured [OF assms(1)]
  from mx_table.run_refines [OF new(1)] assms(2) show ?thesis
    using table_run_grants [of lc "moTenantID opts" "moHostID opts" "moHostGeneration opts" "moMaxBindingsPerLink opts"
        "moMaxBindings opts" ops Map.empty p b] new(2)
    by (metis option.distinct(1) snd_conv)
qed

lemma recordBinding_other_link:
  "l \<noteq> link \<Longrightarrow> bindingsOf l (snd (recordBinding lc link key epoch idem m)) = bindingsOf l m"
  by (simp add: recordBinding_def Let_def bindingsOf_def)

lemma Deliver_Inr:
  "Deliver lc env link channel command m = Inr r \<longleftrightarrow>
     (\<exists>b entry. absTable m (link, channel) = Some b \<and> r = (bdKey b, command) \<and> lcDeliveryValid lc command \<and>
        Get (bdKey b) (leRegistry env) = Some entry \<and> eState entry = StateResident \<and> eAccepting entry \<and>
        leConsumer env (bdKey b))"
  by (auto simp: Deliver_def bindingAt_def split: option.splits)

section \<open>Properties\<close>

definition example_core :: LinkCore where
  "example_core = \<lparr> lcBindValid = (\<lambda>r. brIdempotencyKey r \<noteq> []), lcUnbindValid = (\<lambda>_. True), lcDeliveryValid = (\<lambda>c. c \<noteq> []),
     lcDrainValid = (\<lambda>_. True), lcAttachValid = (\<lambda>_. True), lcDrainObservationValid = (\<lambda>_. True),
     lcAttachObservationValid = (\<lambda>_. True), lcWireValid = (\<lambda>_. True),
     lcChannel = (\<lambda>k. TenantID k @ ''/'' @ SessionID k),
     lcDecodeBind = (\<lambda>d. Some \<lparr> brTenantID = d, brSessionID = ''a'', brHostID = ''h'', brHostGeneration = 3, brLeaseEpoch = 7,
        brRuntimeCompatibilityID = ''c'', brIdempotencyKey = ''i'' \<rparr>),
     lcDecodeUnbind = (\<lambda>_. None), lcDecodeDelivery = (\<lambda>c. Some c),
     lcDecodeDrain = (\<lambda>d. Some \<lparr> dqTenantID = ''t'', dqSessionID = d, dqHostID = ''h'', dqHostGeneration = 3 \<rparr>),
     lcDecodeAttach = (\<lambda>_. None) \<rparr>"

definition example_env :: LinkEnv where
  "example_env = \<lparr> leRegistry = example_registry, leDraining = False, leConsumer = (\<lambda>_. True),
     leDrainStarter = Some (\<lambda>_. Some \<lparr> dsGeneration = 1, dsState = DrainDraining \<rparr>),
     leDrainObserver = Some (\<lambda>_. None), leBegunScope = None, leAttacher = None \<rparr>"

definition example_mx_options :: MultiplexerOptions where
  "example_mx_options = \<lparr> moTenantID = ''t'', moHostID = ''h'', moHostGeneration = 3, moResidencies = True, moAdmission = True,
     moConsumers = True, moDrainStarter = True, moDrainObserver = True, moFixedSessionID = ''a'', moMaxBindingsPerLink = 1,
     moMaxBindings = 2 \<rparr>"

definition example_bind :: "session_id \<Rightarrow> u64 \<Rightarrow> BindRequest" where
  "example_bind s e = \<lparr> brTenantID = ''t'', brSessionID = s, brHostID = ''h'', brHostGeneration = 3, brLeaseEpoch = e,
     brRuntimeCompatibilityID = ''c'', brIdempotencyKey = ''i'' \<rparr>"

definition example_mx :: Multiplexer where
  "example_mx = \<lparr> mxTenant = ''t'', mxHostID = ''h'', mxGeneration = 3, mxFixedSession = ''a'', mxPerLink = 1, mxTotal = 2,
     mxLinks = Map.empty, mxCount = 0 \<rparr>"

lemma example_mx_new: "NewMultiplexer (\<lambda>_. True) (\<lambda>_. True) (\<lambda>_. True) example_mx_options = Inr example_mx"
  by (simp add: NewMultiplexer_def example_mx_options_def example_mx_def)

lemma example_resident:
  "Get (Key ''t'' ''a'') example_registry = Some \<lparr> eKey = Key ''t'' ''a'', eAgentID = ''x'', eTarget = 1,
     eCompatibilityID = ''c'', eRuntime = 2, eLeaseEpoch = 7, eGeneration = 1, eState = StateResident, eAccepting = True,
     eLastActivity = 1, eTeardownOwned = False \<rparr>"
  by (simp add: example_registry_def New_def reg_defs newEntry_def regRun.simps)

lemma example_bound:
  "mxStep example_core (OBind example_env ''l'' (example_bind ''a'' 7)) example_mx =
     (ABound (Inr \<lparr> bdLink = ''l'', bdKey = Key ''t'' ''a'', bdChannel = ''t/a'', bdLeaseEpoch = 7, bdIdempotencyKey = ''i'' \<rparr>),
      example_mx\<lparr> mxCount := 1, mxLinks := [''l'' \<mapsto> [''t/a'' \<mapsto>
        \<lparr> bdLink = ''l'', bdKey = Key ''t'' ''a'', bdChannel = ''t/a'', bdLeaseEpoch = 7, bdIdempotencyKey = ''i'' \<rparr>]] \<rparr>)"
  by (simp add: Bind_def example_core_def example_env_def example_bind_def example_mx_def example_resident recordBinding_def
      bindingsOf_def Let_def)

text \<open>
  C10: the link multiplexer refines a flat table.  Over any sequence of binds, unbinds, closed
  links, invalidated sessions, deliveries, subscriptions and length queries, its table of
  tables with its running count answers what one table from link and channel to binding
  answers, keeps the bindings of that table, and counts exactly its entries; invalidating a
  session drops the same bindings in the same order whatever order the map is visited in.
\<close>

theorem multiplexer_refines_table:
  fixes lc :: LinkCore and ops :: "LinkOp list"
  assumes "NewMultiplexer tv hv sv opts = Inr m0"
  defines "m \<equiv> snd (runOps (mxStep lc) ops m0)"
  shows "runOps (tableStep lc (moTenantID opts) (moHostID opts) (moHostGeneration opts) (moMaxBindingsPerLink opts)
           (moMaxBindings opts)) ops Map.empty = (fst (runOps (mxStep lc) ops m0), absTable m) \<and>
    mxCount m = int (card (dom (absTable m))) \<and> int (card (dom (absTable m))) \<le> moMaxBindings opts \<and>
    (\<forall>link. int (card (dom (bindingsOf link m))) \<le> moMaxBindingsPerLink opts) \<and>
    (\<forall>links key. distinct links \<and> set links = dom (mxLinks m) \<longrightarrow>
       fst (InvalidateSession_over links lc key m) = fst (InvalidateSession lc key m) \<and>
       absTable (snd (InvalidateSession_over links lc key m)) = absTable (snd (InvalidateSession lc key m)))"
proof -
  note new = NewMultiplexer_configured [OF assms(1)]
  note run = mx_table.run_refines [OF new(1) [of lc], of ops]
  then have inv: "mx_inv lc m" and cfg: "mxTotal m = moMaxBindings opts" "mxPerLink m = moMaxBindingsPerLink opts"
    by (simp_all add: m_def mxConfigured_def)
  have bounds: "mxCount m = int (card (dom (absTable m)))" "int (card (dom (absTable m))) \<le> moMaxBindings opts"
    "\<And>link. int (card (dom (bindingsOf link m))) \<le> moMaxBindingsPerLink opts"
    using inv cfg by (simp_all add: mx_inv_def ofLink_abs)
  have "fst (InvalidateSession_over links lc key m) = fst (InvalidateSession lc key m) \<and>
      absTable (snd (InvalidateSession_over links lc key m)) = absTable (snd (InvalidateSession lc key m))"
    if "distinct links" "set links = dom (mxLinks m)" for links key
    using invalidate_refines(1) [OF inv that, of key] invalidate_refines(1) [OF inv linksOf_props [OF inv], of key]
    by (simp add: InvalidateSession_def)
  with bounds run new(2) show ?thesis by (auto simp: m_def)
qed

theorem multiplexer_refines_table_witness:
  "\<exists>b. fst (runOps (mxStep example_core) [OBind example_env ''l'' (example_bind ''a'' 7), OLen, OInvalidate (Key ''t'' ''a''), OLen] example_mx)
      = [ABound (Inr b), ALen 1, ADropped [b], ALen 0] \<and>
    fst (runOps (tableStep example_core ''t'' ''h'' 3 1 2)
      [OBind example_env ''l'' (example_bind ''a'' 7), OLen, OInvalidate (Key ''t'' ''a''), OLen] Map.empty)
      = [ABound (Inr b), ALen 1, ADropped [b], ALen 0]"
proof -
  let ?ops = "[OBind example_env ''l'' (example_bind ''a'' 7), OLen, OInvalidate (Key ''t'' ''a''), OLen]"
  have run: "\<exists>b. fst (runOps (mxStep example_core) ?ops example_mx) = [ABound (Inr b), ALen 1, ADropped [b], ALen 0]"
    by (simp add: example_bound del: mxStep.simps(1))
       (simp add: linkLen_def InvalidateSession_def InvalidateSession_over_def linksOf_def example_core_def example_mx_def
         invalidateLoop_is_removal bindingsOf_def removeBinding_def Let_def)
  from multiplexer_refines_table [OF example_mx_new, of example_core ?ops] run show ?thesis
    by (simp only: example_mx_options_def MultiplexerOptions.simps) (metis fst_conv)
qed

text \<open>
  C34: a delivery wakes only what its link was granted.  After any history of the multiplexer, a
  delivery that is accepted hints the session of a bind that this very link sent and that
  passed every check (the tenant of the link, this Host and its generation, the lease epoch and
  the build of a resident, accepting session, the Host not draining), and the session is
  resident, accepting and consumed at the moment of the delivery; every other delivery is refused.
\<close>

theorem delivery_reaches_granted_session:
  assumes "NewMultiplexer tv hv sv opts = Inr m0"
    and "Deliver lc env link channel command (snd (runOps (mxStep lc) ops m0)) = Inr (key, hint)"
  shows "hint = command \<and> lcDeliveryValid lc command \<and> channel = lcChannel lc key \<and> TenantID key = moTenantID opts \<and>
    (\<exists>entry. Get key (leRegistry env) = Some entry \<and> eState entry = StateResident \<and> eAccepting entry) \<and> leConsumer env key \<and>
    (\<exists>env' request entry. OBind env' link request \<in> set ops \<and> key = Key (brTenantID request) (brSessionID request) \<and>
       lcBindValid lc request \<and> \<not> leDraining env' \<and> brHostID request = moHostID opts \<and>
       brHostGeneration request = moHostGeneration opts \<and> Get key (leRegistry env') = Some entry \<and>
       eLeaseEpoch entry = brLeaseEpoch request \<and> eCompatibilityID entry = brRuntimeCompatibilityID request \<and>
       eState entry = StateResident \<and> eAccepting entry)"
proof -
  obtain b entry where b: "absTable (snd (runOps (mxStep lc) ops m0)) (link, channel) = Some b"
    and d: "key = bdKey b" "hint = command" "lcDeliveryValid lc command" "Get key (leRegistry env) = Some entry"
      "eState entry = StateResident" "eAccepting entry" "leConsumer env key"
    using assms(2) unfolding Deliver_Inr by (auto simp del: absTable_at)
  from mx_run_grants [OF assms(1) b] obtain env' request where g: "OBind env' link request \<in> set ops"
    "bindRefusal lc env' (moTenantID opts) (moHostID opts) (moHostGeneration opts) request = None"
    "bdKey b = Key (moTenantID opts) (brSessionID request)" "channel = lcChannel lc (bdKey b)"
    unfolding grantedBy_def by auto
  from g(2) obtain entry' where "lcBindValid lc request" "brTenantID request = moTenantID opts" "\<not> leDraining env'"
    "brHostID request = moHostID opts" "brHostGeneration request = moHostGeneration opts"
    "Get (bdKey b) (leRegistry env') = Some entry'" "eLeaseEpoch entry' = brLeaseEpoch request"
    "eCompatibilityID entry' = brRuntimeCompatibilityID request" "eState entry' = StateResident" "eAccepting entry'"
    unfolding bindRefusal_None g(3) by auto
  with g d show ?thesis by (intro conjI exI [of _ env'] exI [of _ request] exI [of _ entry'] exI [of _ entry]) simp_all
qed

theorem delivery_reaches_granted_session_witness:
  "''t/a'' = lcChannel example_core (Key ''t'' ''a'') \<and> leConsumer example_env (Key ''t'' ''a'')"
proof -
  have "Deliver example_core example_env ''l'' ''t/a'' ''cmd''
      (snd (runOps (mxStep example_core) [OBind example_env ''l'' (example_bind ''a'' 7)] example_mx)) = Inr (Key ''t'' ''a'', ''cmd'')"
    by (simp add: example_bound del: mxStep.simps(1))
       (simp add: Deliver_def bindingAt_def bindingsOf_def example_resident example_core_def example_env_def)
  from delivery_reaches_granted_session [OF example_mx_new this] show ?thesis by blast
qed

text \<open>
  What a call over a link can reach.  One call has at most one effect on the rest of the
  Host.  It starts a drain only of the link's own fixed session, resident here, named with this
  Host and generation: never of the whole Host and never of another tenant; it attaches only a
  session of its own tenant on this Host and generation; it hints only a session it is bound
  to; and only a bind or an unbind changes the bindings, of its own link alone.
\<close>

theorem link_call_reach:
  assumes "dispatchRPC lc env link rpc data m = (reply, effects, m')"
  shows "length effects \<le> 1 \<and>
    (\<forall>key. EffectDrain key \<in> set effects \<longrightarrow> rpc = MethodDrain \<and> key = Key (mxTenant m) (mxFixedSession m) \<and>
       mxFixedSession m \<noteq> [] \<and> Get key (leRegistry env) \<noteq> None \<and>
       (\<exists>request. lcDecodeDrain lc data = Some request \<and> dqHostID request = mxHostID m \<and>
          dqHostGeneration request = mxGeneration m \<and> dqTenantID request \<noteq> [])) \<and>
    (\<forall>q. EffectAttach q \<in> set effects \<longrightarrow> rpc = MethodAttach \<and> TenantID (atqKey q) = mxTenant m \<and>
       (\<exists>request. lcDecodeAttach lc data = Some request \<and> lcAttachValid lc request \<and> lqHostID request = mxHostID m \<and>
          lqHostGeneration request = mxGeneration m)) \<and>
    (\<forall>key c. EffectHint key c \<in> set effects \<longrightarrow>
       (\<exists>channel b. rpc = MethodChannel channel \<and> absTable m (link, channel) = Some b \<and> key = bdKey b)) \<and>
    (\<forall>l. l \<noteq> link \<or> rpc \<notin> {MethodBind, MethodUnbind} \<longrightarrow> bindingsOf l m' = bindingsOf l m)"
proof (cases rpc)
  case MethodBind
  with assms show ?thesis
    using recordBinding_other_link
    by (auto simp: dispatchRPC_def Bind_splits split: option.splits sum.splits prod.splits) (metis snd_conv)+
next
  case MethodUnbind
  with assms show ?thesis
    by (auto simp: dispatchRPC_def Unbind_def Let_def removeBinding_bindings split: option.splits prod.splits if_splits)
next
  case MethodAttach
  with assms show ?thesis
    by (auto simp: dispatchRPC_def linkAttach_def attachScope_def Let_def split: option.splits sum.splits if_splits)
next
  case MethodDrain
  with assms show ?thesis
    by (auto simp: dispatchRPC_def linkStartDrain_def drainScope_def Let_def split: option.splits sum.splits if_splits)
next
  case MethodDrainStatus
  with assms show ?thesis by (auto simp: dispatchRPC_def split: option.splits)
next
  case (MethodChannel channel)
  with assms show ?thesis
    by (auto simp: dispatchRPC_def Deliver_Inr split: option.splits sum.splits prod.splits)
qed

theorem link_call_reach_witness:
  "\<exists>reply. dispatchRPC example_core example_env ''l'' MethodDrain ''a'' example_mx = (reply, [EffectDrain (Key ''t'' ''a'')], example_mx) \<and>
    Get (Key ''t'' ''a'') (leRegistry example_env) \<noteq> None"
proof -
  have "\<exists>reply. dispatchRPC example_core example_env ''l'' MethodDrain ''a'' example_mx = (reply, [EffectDrain (Key ''t'' ''a'')], example_mx)"
    by (simp add: dispatchRPC_def linkStartDrain_def drainScope_def example_core_def example_env_def example_mx_def
        example_resident Let_def)
  then obtain reply where r: "dispatchRPC example_core example_env ''l'' MethodDrain ''a'' example_mx
      = (reply, [EffectDrain (Key ''t'' ''a'')], example_mx)" by blast
  have "Get (Key ''t'' ''a'') (leRegistry example_env) \<noteq> None" using link_call_reach [OF r] by (metis list.set_intros(1))
  with r show ?thesis by blast
qed

text \<open>
  A link learns nothing of other tenants' sessions.  A bind of another tenant's session is
  answered the same whatever is resident, bound or draining on the Host, and with the very
  answer a session that is not resident gets: the class \<open>runtime_unavailable\<close> with no epoch
  and no build.
\<close>

theorem foreign_sessions_invisible:
  assumes "lcDecodeBind lc data = Some request" "lcBindValid lc request" "brTenantID request \<noteq> mxTenant m"
    and "lcDecodeBind lc data' = Some request'" "lcBindValid lc request'" "brTenantID request' = mxTenant m" "\<not> leDraining env'"
      "Get (Key (brTenantID request') (brSessionID request')) (leRegistry env') = None"
  defines "silent \<equiv> \<lparr> heCode = RuntimeUnavailable, heCurrentLeaseEpoch = 0, heRuntimeCompatibilityID = [] \<rparr>"
  shows "dispatchRPC lc env link MethodBind data m =
      (if lcWireValid lc silent then ReplyRefused silent else ReplyUnpublishable, [], m) \<and>
    dispatchRPC lc env' link MethodBind data' m =
      (if lcWireValid lc silent then ReplyRefused silent else ReplyUnpublishable, [], m)"
  using assms
  by (simp add: dispatchRPC_def Bind_def Let_def refusalReply_def HostLinkErrorOf_def unpublished_def refuse_def)

theorem foreign_sessions_invisible_witness:
  "dispatchRPC example_core example_env ''l'' MethodBind ''u'' example_mx =
     dispatchRPC example_core (example_env\<lparr> leRegistry := New \<rparr>) ''l'' MethodBind ''t'' example_mx"
proof -
  have "Get k (leRegistry (example_env\<lparr> leRegistry := New \<rparr>)) = None" for k
    by (simp add: New_def Get_def)
  with foreign_sessions_invisible [of example_core "''u''" _ example_mx "''t''" _ "example_env\<lparr> leRegistry := New \<rparr>" example_env "''l''"]
  show ?thesis by (simp add: example_core_def example_mx_def example_env_def)
qed

end
