(* ===== verification/Teardown.thy ===== *)
theory Teardown
  imports Host_Prelude "HOL-Library.Multiset"
begin

text \<open>
  The teardown of one runtime, \<^verbatim>\<open>internal/compose/teardown.go\<close>: the state machine that
  elects the one call which ends a runtime, gracefully or by abandoning it, and what the
  callers that asked meanwhile are told.

  A flight is one call on the runtime.  Every flight ever elected stays in a list, so that a
  caller can wait on the flight it was given; the critical sections of the mutex are functions,
  and the interleaving of callers, completions, expiring contexts and callbacks is the step
  relation \<open>tdStep\<close>.  What the runtime answers, and whether it reports itself done, is arbitrary.
\<close>

section \<open>Flights and callers\<close>

datatype teardownPhase = phaseResident | phaseReleasing | phaseAbandoning | phaseReleased | phaseFailed

datatype teardownKind = kindGraceful | kindAbandon

record teardownFlight =
  flKind :: teardownKind
  flDone :: bool
  flCancelled :: bool
  flErr :: "string option"
  flHandedTo :: "nat option"

record teardown =
  tdPhase :: teardownPhase
  tdFlights :: "teardownFlight list"
  tdFlight :: "nat option"
  tdOnReleased :: "nat list"
  tdPendingAbandon :: bool
  tdDue :: "nat list"

definition newTeardown :: teardown where
  "newTeardown = \<lparr> tdPhase = phaseResident, tdFlights = [], tdFlight = None, tdOnReleased = [],
     tdPendingAbandon = False, tdDue = [] \<rparr>"

text \<open>What a caller is told, or the flight it waits on and what it does when that flight is done.\<close>

datatype tdResult = RetNil | RetErr string | RetInFlight teardownKind

datatype Caller = Returned tdResult | AwaitRelease nat | AwaitErr nat | AwaitRetry nat

definition errResult :: "string option \<Rightarrow> tdResult" where
  "errResult err = (case err of None \<Rightarrow> RetNil | Some e \<Rightarrow> RetErr e)"

section \<open>The critical sections\<close>

definition released :: "teardown \<Rightarrow> bool" where
  "released t = (tdPhase t = phaseReleased)"

text \<open>A callback that is due is one the code has taken under the lock and runs after it.\<close>

definition whenReleased :: "nat \<Rightarrow> teardown \<Rightarrow> teardown" where
  "whenReleased callback t =
     (if tdPhase t \<noteq> phaseReleased then t\<lparr> tdOnReleased := tdOnReleased t @ [callback] \<rparr>
      else t\<lparr> tdDue := tdDue t @ [callback] \<rparr>)"

definition electLocked :: "teardownKind \<Rightarrow> teardown \<Rightarrow> nat \<times> teardown" where
  "electLocked kind t =
     (let flight = \<lparr> flKind = kind, flDone = False, flCancelled = False, flErr = None, flHandedTo = None \<rparr>;
          i = length (tdFlights t) in
      (i, t\<lparr> tdFlights := tdFlights t @ [flight], tdFlight := Some i,
             tdPhase := (if kind = kindGraceful then phaseReleasing else phaseAbandoning) \<rparr>))"

definition cancelFlight :: "nat \<Rightarrow> teardown \<Rightarrow> teardown" where
  "cancelFlight i t = t\<lparr> tdFlights := (tdFlights t)[i := (tdFlights t ! i)\<lparr> flCancelled := True \<rparr>] \<rparr>"

definition release :: "teardown \<Rightarrow> Caller \<times> teardown" where
  "release t =
     (case tdPhase t of
        phaseReleased \<Rightarrow> (Returned RetNil, t)
      | phaseAbandoning \<Rightarrow> (AwaitErr (the (tdFlight t)), t)
      | phaseFailed \<Rightarrow> (AwaitErr (the (tdFlight t)), t)
      | phaseReleasing \<Rightarrow> (AwaitRelease (the (tdFlight t)), t)
      | phaseResident \<Rightarrow> (case electLocked kindGraceful t of (i, t') \<Rightarrow> (AwaitRelease i, t')))"

definition abandon :: "teardown \<Rightarrow> Caller \<times> teardown" where
  "abandon t =
     (case tdPhase t of
        phaseReleased \<Rightarrow> (Returned RetNil, t)
      | phaseAbandoning \<Rightarrow> (AwaitErr (the (tdFlight t)), t)
      | phaseFailed \<Rightarrow> (AwaitErr (the (tdFlight t)), t)
      | phaseReleasing \<Rightarrow>
          (AwaitRetry (the (tdFlight t)), cancelFlight (the (tdFlight t)) (t\<lparr> tdPendingAbandon := True \<rparr>))
      | phaseResident \<Rightarrow> (case electLocked kindAbandon t of (i, t') \<Rightarrow> (AwaitErr i, t')))"

text \<open>
  The end of a flight: the runtime answered \<open>err\<close>, and \<open>closed\<close> says whether it reports itself
  done.  A failed release hands over to the abandon that was asked for meanwhile.
\<close>

definition runEnds :: "nat \<Rightarrow> string option \<Rightarrow> bool \<Rightarrow> teardown \<Rightarrow> teardown" where
  "runEnds i err closed t =
     (let flight = (tdFlights t ! i)\<lparr> flErr := err, flCancelled := True \<rparr>; pending = tdPendingAbandon t;
          t1 = t\<lparr> tdPendingAbandon := False \<rparr>;
          close = (\<lambda>f s. s\<lparr> tdFlights := (tdFlights s)[i := f\<lparr> flDone := True \<rparr>] \<rparr>) in
      if err = None
      then close flight (t1\<lparr> tdPhase := phaseReleased, tdDue := tdDue t @ tdOnReleased t, tdOnReleased := [] \<rparr>)
      else if flKind flight = kindGraceful \<and> \<not> closed
      then (if pending
            then (case electLocked kindAbandon t1 of (j, t2) \<Rightarrow> close (flight\<lparr> flHandedTo := Some j \<rparr>) t2)
            else close flight (t1\<lparr> tdPhase := phaseResident \<rparr>))
      else close flight (t1\<lparr> tdPhase := phaseFailed \<rparr>))"

text \<open>What a waiting caller does once its flight is done.\<close>

definition afterWait :: "Caller \<Rightarrow> teardown \<Rightarrow> Caller \<times> teardown" where
  "afterWait c t =
     (case c of
        Returned r \<Rightarrow> (c, t)
      | AwaitRelease i \<Rightarrow>
          (let f = tdFlights t ! i in
           case flHandedTo f of
             Some j \<Rightarrow> (if flErr f \<noteq> None then AwaitErr j else Returned (errResult (flErr f)), t)
           | None \<Rightarrow> (Returned (errResult (flErr f)), t))
      | AwaitErr i \<Rightarrow> (Returned (errResult (flErr (tdFlights t ! i))), t)
      | AwaitRetry i \<Rightarrow> abandon t)"

fun waitsOn :: "Caller \<Rightarrow> nat option" where
  "waitsOn (Returned r) = None"
| "waitsOn (AwaitRelease i) = Some i"
| "waitsOn (AwaitErr i) = Some i"
| "waitsOn (AwaitRetry i) = Some i"

section \<open>The interleaving\<close>

text \<open>The callers that ever arrived, the callbacks ever registered and the ones that ran.\<close>

record Sys =
  syT :: teardown
  syCallers :: "Caller list"
  syRegistered :: nat
  syRan :: "nat list"

definition newSys :: Sys where
  "newSys = \<lparr> syT = newTeardown, syCallers = [], syRegistered = 0, syRan = [] \<rparr>"

definition live :: "teardown \<Rightarrow> nat \<Rightarrow> bool" where
  "live t i \<longleftrightarrow> i < length (tdFlights t) \<and> \<not> flDone (tdFlights t ! i)"

inductive tdStep :: "Sys \<Rightarrow> Sys \<Rightarrow> bool" where
  callRelease: "release (syT s) = (c, t) \<Longrightarrow> tdStep s (s\<lparr> syT := t, syCallers := syCallers s @ [c] \<rparr>)"
| callAbandon: "abandon (syT s) = (c, t) \<Longrightarrow> tdStep s (s\<lparr> syT := t, syCallers := syCallers s @ [c] \<rparr>)"
| register: "tdStep s (s\<lparr> syT := whenReleased (syRegistered s) (syT s), syRegistered := Suc (syRegistered s) \<rparr>)"
| finish: "live (syT s) i \<Longrightarrow> tdStep s (s\<lparr> syT := runEnds i err closed (syT s) \<rparr>)"
| expire: "live (syT s) i \<Longrightarrow> tdStep s (s\<lparr> syT := cancelFlight i (syT s) \<rparr>)"
| wake: "n < length (syCallers s) \<Longrightarrow> waitsOn (syCallers s ! n) = Some i \<Longrightarrow> \<not> live (syT s) i \<Longrightarrow>
    afterWait (syCallers s ! n) (syT s) = (c, t) \<Longrightarrow>
    tdStep s (s\<lparr> syT := t, syCallers := (syCallers s)[n := c] \<rparr>)"
| giveUp: "n < length (syCallers s) \<Longrightarrow> waitsOn (syCallers s ! n) = Some i \<Longrightarrow>
    tdStep s (s\<lparr> syCallers := (syCallers s)[n := Returned (RetInFlight (flKind (tdFlights (syT s) ! i)))] \<rparr>)"
| callback: "tdDue (syT s) = b # bs \<Longrightarrow>
    tdStep s (s\<lparr> syT := (syT s)\<lparr> tdDue := bs \<rparr>, syRan := syRan s @ [b] \<rparr>)"

inductive_cases tdStepE: "tdStep s s'"

section \<open>The invariant\<close>

text \<open>Every flight but the last is a graceful one that failed; the phase says what the last one is.\<close>

definition spent :: "teardownFlight \<Rightarrow> bool" where
  "spent f \<longleftrightarrow> flDone f \<and> flErr f \<noteq> None \<and> flKind f = kindGraceful"

fun lastFits :: "teardownPhase \<Rightarrow> teardownFlight \<Rightarrow> bool" where
  "lastFits phaseResident f = spent f"
| "lastFits phaseReleasing f = (\<not> flDone f \<and> flErr f = None \<and> flKind f = kindGraceful)"
| "lastFits phaseAbandoning f = (\<not> flDone f \<and> flErr f = None \<and> flKind f = kindAbandon)"
| "lastFits phaseReleased f = (flDone f \<and> flErr f = None)"
| "lastFits phaseFailed f = (flDone f \<and> flErr f \<noteq> None)"

fun callerFits :: "teardown \<Rightarrow> Caller \<Rightarrow> bool" where
  "callerFits t (Returned r) = (r = RetNil \<longrightarrow> tdPhase t = phaseReleased)"
| "callerFits t (AwaitRelease i) = (i < length (tdFlights t))"
| "callerFits t (AwaitErr i) = (i < length (tdFlights t))"
| "callerFits t (AwaitRetry i) = (i < length (tdFlights t) \<and> (live t i \<longrightarrow> tdPendingAbandon t))"

definition flightsFit :: "teardown \<Rightarrow> bool" where
  "flightsFit t \<longleftrightarrow>
     (\<forall>f\<in>set (butlast (tdFlights t)). spent f) \<and>
     (if tdFlights t = [] then tdPhase t = phaseResident \<and> tdFlight t = None
      else lastFits (tdPhase t) (last (tdFlights t)) \<and> tdFlight t = Some (length (tdFlights t) - 1)) \<and>
     (tdPendingAbandon t \<longrightarrow> tdPhase t = phaseReleasing) \<and>
     (\<forall>f\<in>set (tdFlights t). \<forall>j. flHandedTo f = Some j \<longrightarrow> j < length (tdFlights t))"

definition td_inv :: "Sys \<Rightarrow> bool" where
  "td_inv s \<longleftrightarrow>
     flightsFit (syT s) \<and> (\<forall>c\<in>set (syCallers s). callerFits (syT s) c) \<and>
     (tdPhase (syT s) = phaseReleased \<longrightarrow> tdOnReleased (syT s) = []) \<and>
     (tdPhase (syT s) \<noteq> phaseReleased \<longrightarrow> tdDue (syT s) = [] \<and> syRan s = []) \<and>
     mset (tdOnReleased (syT s) @ tdDue (syT s) @ syRan s) = mset [0..<syRegistered s]"


text \<open>What every section keeps for the callers that are already waiting.\<close>

definition grows :: "teardown \<Rightarrow> teardown \<Rightarrow> bool" where
  "grows t t' \<longleftrightarrow> length (tdFlights t) \<le> length (tdFlights t') \<and>
     (tdPhase t = phaseReleased \<longrightarrow> tdPhase t' = phaseReleased) \<and>
     (\<forall>i<length (tdFlights t). live t' i \<longrightarrow> live t i \<and> (tdPendingAbandon t \<longrightarrow> tdPendingAbandon t'))"

lemma callerFits_grows: "grows t t' \<Longrightarrow> callerFits t c \<Longrightarrow> callerFits t' c"
  by (cases c) (auto simp: grows_def)

lemma grows_refl [simp]: "grows t t"
  by (simp add: grows_def)

lemma live_is_last:
  assumes "flightsFit t" "live t i"
  obtains xs f where "tdFlights t = xs @ [f]" "i = length xs" "\<not> flDone f" "flErr f = None" "tdPhase t \<in> {phaseReleasing, phaseAbandoning}"
    "tdPhase t = phaseReleasing \<longleftrightarrow> flKind f = kindGraceful" "\<forall>g\<in>set xs. spent g"
proof -
  obtain xs f where fs: "tdFlights t = xs @ [f]"
    using assms(2) by (cases "tdFlights t" rule: rev_cases) (auto simp: live_def)
  have xs: "\<forall>g\<in>set xs. spent g" and fit: "lastFits (tdPhase t) f"
    using assms(1) by (simp_all add: flightsFit_def fs)
  have "i = length xs"
  proof (rule ccontr)
    assume "i \<noteq> length xs"
    with assms(2) fs have "i < length xs" "\<not> flDone (xs ! i)" by (auto simp: live_def nth_append split: if_splits)
    with xs show False by (auto simp: spent_def)
  qed
  with assms(2) fs fit have "\<not> flDone f" "tdPhase t \<in> {phaseReleasing, phaseAbandoning}" "flErr f = None"
    "tdPhase t = phaseReleasing \<longleftrightarrow> flKind f = kindGraceful"
    by (auto simp: live_def spent_def elim: lastFits.elims)
  with that fs xs \<open>i = length xs\<close> show ?thesis by blast
qed

lemma fit_elect:
  assumes "flightsFit t" "tdPhase t = phaseResident" "electLocked k t = (i, t')"
  shows "flightsFit t'" "grows t t'" "i < length (tdFlights t')" "tdPhase t' \<noteq> phaseReleased"
    "tdOnReleased t' = tdOnReleased t" "tdDue t' = tdDue t"
proof -
  let ?f = "\<lparr> flKind = k, flDone = False, flCancelled = False, flErr = None, flHandedTo = None \<rparr>"
  have t': "t' = t\<lparr> tdFlights := tdFlights t @ [?f], tdFlight := Some (length (tdFlights t)),
      tdPhase := (if k = kindGraceful then phaseReleasing else phaseAbandoning) \<rparr>" and i: "i = length (tdFlights t)"
    using assms(3) by (auto simp: electLocked_def Let_def simp del: if_split)
  have all: "\<forall>f\<in>set (tdFlights t). spent f"
    using assms(1,2) by (cases "tdFlights t" rule: rev_cases) (auto simp: flightsFit_def)
  have "\<not> tdPendingAbandon t" using assms(1,2) by (auto simp: flightsFit_def)
  moreover have "\<forall>f\<in>set (tdFlights t). \<forall>j. flHandedTo f = Some j \<longrightarrow> j < Suc (length (tdFlights t))"
    using assms(1) by (auto simp: flightsFit_def)
  ultimately show "flightsFit t'"
    using all by (cases k) (auto simp: t' flightsFit_def)
  show "grows t t'" using all assms(2) by (auto simp: t' grows_def live_def nth_append spent_def)
  show "i < length (tdFlights t')" "tdPhase t' \<noteq> phaseReleased" "tdOnReleased t' = tdOnReleased t" "tdDue t' = tdDue t"
    by (simp_all add: t' i)
qed

lemma fit_cancel:
  assumes "flightsFit t" "live t i"
  shows "flightsFit (cancelFlight i t)" "grows t (cancelFlight i t)"
proof -
  from live_is_last [OF assms] obtain xs f where f: "tdFlights t = xs @ [f]" "i = length xs"
    and "\<not> flDone f" "flErr f = None" "tdPhase t \<in> {phaseReleasing, phaseAbandoning}" by metis
  have "lastFits (tdPhase t) (f\<lparr> flCancelled := True \<rparr>) = lastFits (tdPhase t) f"
    by (cases "tdPhase t") (simp_all add: spent_def)
  with assms(1) f show "flightsFit (cancelFlight i t)" by (auto simp: flightsFit_def cancelFlight_def)
  show "grows t (cancelFlight i t)"
    using f by (auto simp: grows_def cancelFlight_def live_def nth_append split: if_splits)
qed

lemma fit_pending:
  assumes "flightsFit t" "tdPhase t = phaseReleasing"
  shows "flightsFit (t\<lparr> tdPendingAbandon := True \<rparr>)" "grows t (t\<lparr> tdPendingAbandon := True \<rparr>)"
  using assms by (auto simp: flightsFit_def grows_def live_def)

lemma grows_trans: "grows t u \<Longrightarrow> grows u v \<Longrightarrow> grows t v"
  unfolding grows_def by (meson order_less_le_trans order_trans)

text \<open>The end of a flight, branch by branch.\<close>

lemma fit_runEnds:
  assumes "flightsFit t" "live t i"
  shows "flightsFit (runEnds i err closed t)" "grows t (runEnds i err closed t)"
    "tdPhase (runEnds i err closed t) = phaseReleased \<longleftrightarrow> err = None"
    "tdPendingAbandon t \<Longrightarrow> tdPhase (runEnds i err closed t) \<noteq> phaseResident"
proof -
  from live_is_last [OF assms] obtain xs f where f: "tdFlights t = xs @ [f]" "i = length xs" "\<not> flDone f" "flErr f = None"
    "tdPhase t \<in> {phaseReleasing, phaseAbandoning}" "tdPhase t = phaseReleasing \<longleftrightarrow> flKind f = kindGraceful" "\<forall>g\<in>set xs. spent g"
    by metis
  note defs = runEnds_def electLocked_def Let_def f(1,2) nth_append
  have handed: "\<forall>g\<in>set xs. \<forall>j. flHandedTo g = Some j \<longrightarrow> j \<le> length xs" "\<forall>j. flHandedTo f = Some j \<longrightarrow> j \<le> length xs"
    and fl: "tdFlight t = Some (length xs)"
    using assms(1) by (auto simp: flightsFit_def f(1))
  consider (ok) "err = None" | (hand) "err \<noteq> None" "flKind f = kindGraceful" "\<not> closed" "tdPendingAbandon t"
    | (again) "err \<noteq> None" "flKind f = kindGraceful" "\<not> closed" "\<not> tdPendingAbandon t"
    | (fail) "err \<noteq> None" "flKind f \<noteq> kindGraceful \<or> closed" by blast
  note cases = this
  show "flightsFit (runEnds i err closed t)"
    using cases
  proof cases
    case hand
    then show ?thesis using f(7) handed by (auto simp: defs flightsFit_def spent_def list_update_append butlast_append less_Suc_eq_le le_SucI)
  qed (use f handed fl in \<open>auto simp: defs flightsFit_def spent_def less_Suc_eq_le\<close>)
  show "grows t (runEnds i err closed t)"
    using cases
    by cases (use f in \<open>auto simp: defs grows_def live_def spent_def list_update_append nth_list_update less_Suc_eq split: if_splits\<close>)
  show "tdPhase (runEnds i err closed t) = phaseReleased \<longleftrightarrow> err = None"
    using cases by cases (auto simp: defs)
  show "tdPhase (runEnds i err closed t) \<noteq> phaseResident" if "tdPendingAbandon t"
    using cases that by cases (auto simp: defs)
qed


lemma current_flight_live:
  assumes "flightsFit t" "tdPhase t \<in> {phaseReleasing, phaseAbandoning}"
  shows "live t (the (tdFlight t))"
  using assms by (cases "tdFlights t" rule: rev_cases) (auto simp: flightsFit_def live_def)

lemma current_flight_bound:
  assumes "flightsFit t" "tdPhase t \<noteq> phaseResident"
  shows "the (tdFlight t) < length (tdFlights t)"
  using assms by (cases "tdFlights t" rule: rev_cases) (auto simp: flightsFit_def)

text \<open>A section a caller runs keeps the flights in order, and the caller is told nothing untrue.\<close>

definition sectionOK :: "teardown \<Rightarrow> Caller \<times> teardown \<Rightarrow> bool" where
  "sectionOK t r \<longleftrightarrow> flightsFit (snd r) \<and> grows t (snd r) \<and> callerFits (snd r) (fst r) \<and>
     (tdPhase (snd r) = phaseReleased \<longleftrightarrow> tdPhase t = phaseReleased) \<and>
     tdOnReleased (snd r) = tdOnReleased t \<and> tdDue (snd r) = tdDue t"

lemma sectionOK_release:
  assumes "flightsFit t"
  shows "sectionOK t (release t)"
proof (cases "tdPhase t")
  case phaseResident
  obtain i t' where e: "electLocked kindGraceful t = (i, t')" by fastforce
  from fit_elect [OF assms phaseResident e] phaseResident e show ?thesis
    by (simp add: release_def sectionOK_def)
qed (use assms current_flight_bound [OF assms] in \<open>simp_all add: release_def sectionOK_def\<close>)

lemma sectionOK_abandon:
  assumes "flightsFit t"
  shows "sectionOK t (abandon t)"
proof (cases "tdPhase t")
  case phaseResident
  obtain i t' where e: "electLocked kindAbandon t = (i, t')" by fastforce
  from fit_elect [OF assms phaseResident e] phaseResident e show ?thesis
    by (simp add: abandon_def sectionOK_def)
next
  case phaseReleasing
  let ?u = "t\<lparr> tdPendingAbandon := True \<rparr>" and ?i = "the (tdFlight t)"
  have l: "live ?u ?i" using current_flight_live [OF assms] phaseReleasing by (simp add: live_def)
  note p = fit_pending [OF assms phaseReleasing]
  from fit_cancel [OF p(1) l] grows_trans [OF p(2)] l phaseReleasing show ?thesis
    by (simp add: abandon_def sectionOK_def) (simp add: cancelFlight_def live_def)
qed (use assms current_flight_bound [OF assms] in \<open>simp_all add: abandon_def sectionOK_def\<close>)

lemma done_nil_released:
  assumes "flightsFit t" "i < length (tdFlights t)" "\<not> live t i" "flErr (tdFlights t ! i) = None"
  shows "tdPhase t = phaseReleased"
proof -
  obtain xs f where f: "tdFlights t = xs @ [f]" using assms(2) by (cases "tdFlights t" rule: rev_cases) auto
  have "i = length xs"
  proof (rule ccontr)
    assume "i \<noteq> length xs"
    then have "i < length xs" using assms(2) f by simp
    then have "xs ! i \<in> set xs" "flErr (xs ! i) = None" using assms(4) f by (simp_all add: nth_append)
    then show False using assms(1) f by (auto simp: flightsFit_def spent_def)
  qed
  with assms f have "flDone f" "flErr f = None" "lastFits (tdPhase t) f"
    by (auto simp: live_def flightsFit_def)
  then show ?thesis by (cases "tdPhase t") (auto simp: spent_def)
qed

lemma sectionOK_afterWait:
  assumes "flightsFit t" "waitsOn c = Some i" "\<not> live t i" "callerFits t c"
  shows "sectionOK t (afterWait c t)"
proof (cases c)
  case (AwaitRelease j)
  then have j: "i = j" "j < length (tdFlights t)" "tdFlights t ! j \<in> set (tdFlights t)" using assms(2,4) by auto
  have hand: "flHandedTo (tdFlights t ! j) = Some k \<Longrightarrow> k < length (tdFlights t)" for k
    using assms(1) j(3) by (auto simp: flightsFit_def)
  from AwaitRelease j assms(1) hand done_nil_released [OF assms(1) j(2)] assms(3) show ?thesis
    by (auto simp: afterWait_def sectionOK_def Let_def errResult_def split: option.splits)
next
  case (AwaitErr j)
  then have j: "i = j" "j < length (tdFlights t)" using assms(2,4) by auto
  from AwaitErr j assms(1) done_nil_released [OF assms(1) j(2)] assms(3) show ?thesis
    by (auto simp: afterWait_def sectionOK_def errResult_def split: option.splits)
next
  case (AwaitRetry j)
  then show ?thesis using sectionOK_abandon [OF assms(1)] by (simp add: afterWait_def)
qed (use assms in simp)

lemma td_inv_section:
  assumes "td_inv s" "sectionOK (syT s) (c, t)" "set cs \<subseteq> insert c (set (syCallers s))"
  shows "td_inv (s\<lparr> syT := t, syCallers := cs \<rparr>)"
proof -
  have "callerFits t d" if "d \<in> set cs" for d
    using that assms callerFits_grows [of "syT s" t d] by (auto simp: td_inv_def sectionOK_def)
  then show ?thesis using assms(1,2) by (auto simp: td_inv_def sectionOK_def)
qed

lemma td_inv_step: "tdStep s s' \<Longrightarrow> td_inv s \<Longrightarrow> td_inv s'"
proof (induction rule: tdStep.induct)
  case (callRelease s c t)
  then show ?case using sectionOK_release [of "syT s"] by (intro td_inv_section) (auto simp: td_inv_def)
next
  case (callAbandon s c t)
  then show ?case using sectionOK_abandon [of "syT s"] by (intro td_inv_section) (auto simp: td_inv_def)
next
  case (register s)
  have f: "flightsFit (whenReleased n (syT s)) = flightsFit (syT s)" "grows (syT s) (whenReleased n (syT s))" for n
    by (simp_all add: whenReleased_def flightsFit_def grows_def live_def)
  have "\<forall>c\<in>set (syCallers s). callerFits (whenReleased (syRegistered s) (syT s)) c"
    using register callerFits_grows [OF f(2)] by (auto simp: td_inv_def)
  with register f(1) show ?case by (auto simp: td_inv_def) (auto simp: whenReleased_def split: if_splits)
next
  case (finish s i err closed)
  then have fit: "flightsFit (syT s)" by (simp add: td_inv_def)
  note r = fit_runEnds [OF fit finish.hyps, of err closed]
  have "\<forall>c\<in>set (syCallers s). callerFits (runEnds i err closed (syT s)) c"
    using finish.prems callerFits_grows [OF r(2)] by (auto simp: td_inv_def)
  moreover have "tdPhase (syT s) \<noteq> phaseReleased"
    by (rule live_is_last [OF fit finish.hyps]) auto
  ultimately show ?case using finish.prems r(1,3)
    by (auto simp: td_inv_def) (auto simp: runEnds_def electLocked_def Let_def split: if_splits)
next
  case (expire s i)
  then have fit: "flightsFit (syT s)" by (simp add: td_inv_def)
  note r = fit_cancel [OF fit expire.hyps]
  have "\<forall>c\<in>set (syCallers s). callerFits (cancelFlight i (syT s)) c"
    using expire.prems callerFits_grows [OF r(2)] by (auto simp: td_inv_def)
  with expire.prems r(1) show ?case by (auto simp: td_inv_def) (auto simp: cancelFlight_def)
next
  case (wake n s i c t)
  then have "sectionOK (syT s) (c, t)"
    using sectionOK_afterWait [of "syT s" "syCallers s ! n" i] by (simp add: td_inv_def)
  then show ?case using wake.prems set_update_subset_insert [of "syCallers s" n c] by (intro td_inv_section)
next
  case (giveUp n s i)
  then show ?case using set_update_subset_insert [of "syCallers s" n] by (fastforce simp: td_inv_def)
next
  case (callback s b bs)
  then have "tdPhase (syT s) = phaseReleased" by (auto simp: td_inv_def)
  moreover have "flightsFit ((syT s)\<lparr> tdDue := bs \<rparr>) = flightsFit (syT s)" "grows (syT s) ((syT s)\<lparr> tdDue := bs \<rparr>)"
    by (simp_all add: flightsFit_def grows_def live_def)
  moreover have "\<forall>c\<in>set (syCallers s). callerFits ((syT s)\<lparr> tdDue := bs \<rparr>) c"
    using callback.prems callerFits_grows [OF calculation(3)] by (auto simp: td_inv_def)
  ultimately show ?case using callback by (auto simp: td_inv_def)
qed

lemma td_inv_new: "td_inv newSys"
  by (simp add: td_inv_def newSys_def newTeardown_def flightsFit_def)

lemma td_inv_reachable: "tdStep\<^sup>*\<^sup>* newSys s \<Longrightarrow> td_inv s"
  by (induction rule: rtranclp_induct) (auto intro: td_inv_new td_inv_step)


section \<open>Once it is over\<close>

lemma terminal_not_live: "flightsFit t \<Longrightarrow> tdPhase t \<in> {phaseReleased, phaseFailed} \<Longrightarrow> \<not> live t i"
  using live_is_last [of t i] by fastforce

lemma terminal_section:
  assumes "tdPhase t \<in> {phaseReleased, phaseFailed}"
  shows "snd (release t) = t" "snd (abandon t) = t" "snd (afterWait c t) = t"
proof -
  show a: "snd (release t) = t" "snd (abandon t) = t" using assms by (auto simp: release_def abandon_def)
  show "snd (afterWait c t) = t" using a(2) by (cases c) (simp_all add: afterWait_def Let_def split: option.split)
qed

lemma terminal_step:
  assumes "tdStep s s'" "td_inv s" "tdPhase (syT s) \<in> {phaseReleased, phaseFailed}"
  shows "tdPhase (syT s') = tdPhase (syT s) \<and> tdFlights (syT s') = tdFlights (syT s)"
proof -
  have fit: "flightsFit (syT s)" using assms(2) by (simp add: td_inv_def)
  note keeps = terminal_section [OF assms(3)]
  from assms(1) show ?thesis
  proof cases
    case (callRelease c t)
    then show ?thesis using keeps(1) by simp
  next
    case (callAbandon c t)
    then show ?thesis using keeps(2) by simp
  next
    case (wake n i c t)
    then show ?thesis using keeps(3) [of "syCallers s ! n"] by simp
  qed (use terminal_not_live [OF fit assms(3)] in \<open>auto simp: whenReleased_def\<close>)
qed

lemma terminal_run:
  "tdStep\<^sup>*\<^sup>* s s' \<Longrightarrow> td_inv s \<Longrightarrow> tdPhase (syT s) \<in> {phaseReleased, phaseFailed} \<Longrightarrow>
     td_inv s' \<and> tdPhase (syT s') = tdPhase (syT s) \<and> tdFlights (syT s') = tdFlights (syT s)"
proof (induction rule: rtranclp_induct)
  case (step u v)
  then have "td_inv u" "tdPhase (syT u) \<in> {phaseReleased, phaseFailed}" by auto
  with step terminal_step [OF step.hyps(2)] td_inv_step [OF step.hyps(2)] show ?case by simp
qed simp

section \<open>Properties\<close>

text \<open>
  C13: the one call that ends a runtime.  Whatever the interleaving of releases, abandons,
  completions, expiring contexts and callbacks: at most one call is in flight on the runtime,
  and at most one abandon is ever made; the runtime counts as released exactly when a call
  answered without an error, and only then is a caller told so; once it is released or failed no
  further call is made; an abandon asked for during a release is never lost, since a release that
  fails under it does not go back to resident; and each callback runs at most once, only after the
  release, and all of them have run when none is due.
\<close>

theorem one_teardown_call:
  assumes "tdStep\<^sup>*\<^sup>* newSys s"
  defines "t \<equiv> syT s"
  shows "(\<forall>i j. live t i \<and> live t j \<longrightarrow> i = j) \<and>
    length (filter (\<lambda>f. flKind f = kindAbandon) (tdFlights t)) \<le> 1 \<and>
    (released t \<longleftrightarrow> (\<exists>f\<in>set (tdFlights t). flDone f \<and> flErr f = None)) \<and>
    (Returned RetNil \<in> set (syCallers s) \<longrightarrow> released t) \<and>
    (released t \<or> tdPhase t = phaseFailed \<longrightarrow>
       (\<forall>s'. tdStep\<^sup>*\<^sup>* s s' \<longrightarrow> tdPhase (syT s') = tdPhase t \<and> tdFlights (syT s') = tdFlights t \<and> (\<forall>i. \<not> live (syT s') i))) \<and>
    (\<forall>i err closed. AwaitRetry i \<in> set (syCallers s) \<and> live t i \<longrightarrow> tdPhase (runEnds i err closed t) \<noteq> phaseResident) \<and>
    distinct (syRan s) \<and> (syRan s \<noteq> [] \<longrightarrow> released t) \<and>
    (released t \<and> tdDue t = [] \<longrightarrow> set (syRan s) = {0..<syRegistered s})"
proof (intro conjI allI impI)
  have inv: "td_inv s" by (rule td_inv_reachable [OF assms(1)])
  then have fit: "flightsFit t" by (simp add: td_inv_def t_def)
  show "i = j" if "live t i \<and> live t j" for i j
    using that live_is_last [OF fit, of i] live_is_last [OF fit, of j] by (metis append1_eq_conv)
  have spent: "filter (\<lambda>f. flKind f = kindAbandon) (butlast (tdFlights t)) = []"
    using fit by (auto simp: filter_empty_conv flightsFit_def spent_def)
  then show "length (filter (\<lambda>f. flKind f = kindAbandon) (tdFlights t)) \<le> 1"
    by (cases "tdFlights t" rule: rev_cases) simp_all
  show "released t \<longleftrightarrow> (\<exists>f\<in>set (tdFlights t). flDone f \<and> flErr f = None)"
  proof
    assume "released t"
    then show "\<exists>f\<in>set (tdFlights t). flDone f \<and> flErr f = None"
      using fit by (cases "tdFlights t" rule: rev_cases) (auto simp: flightsFit_def released_def)
  next
    assume "\<exists>f\<in>set (tdFlights t). flDone f \<and> flErr f = None"
    then obtain i where "i < length (tdFlights t)" "flDone (tdFlights t ! i)" "flErr (tdFlights t ! i) = None"
      by (auto simp: in_set_conv_nth)
    then show "released t" using done_nil_released [OF fit, of i] by (simp add: live_def released_def)
  qed
  show "released t" if "Returned RetNil \<in> set (syCallers s)"
    using inv that by (force simp: td_inv_def released_def t_def)
  show "tdPhase (syT s') = tdPhase t" "tdFlights (syT s') = tdFlights t" "\<not> live (syT s') i"
    if "released t \<or> tdPhase t = phaseFailed" "tdStep\<^sup>*\<^sup>* s s'" for s' i
    using terminal_run [OF that(2) inv] that(1) terminal_not_live [of "syT s'" i]
    by (auto simp: released_def t_def td_inv_def)
  show "tdPhase (runEnds i err closed t) \<noteq> phaseResident"
    if "AwaitRetry i \<in> set (syCallers s) \<and> live t i" for i err closed
    using inv that fit_runEnds(4) [OF fit, of i err closed] by (force simp: td_inv_def t_def)
  have ms: "mset (tdOnReleased t @ tdDue t @ syRan s) = mset [0..<syRegistered s]"
    using inv by (simp add: td_inv_def t_def)
  then have "distinct (tdOnReleased t @ tdDue t @ syRan s)" by (metis distinct_upt mset_eq_imp_distinct_iff)
  then show "distinct (syRan s)" by simp
  show "released t" if "syRan s \<noteq> []" using inv that by (auto simp: td_inv_def released_def t_def)
  show "set (syRan s) = {0..<syRegistered s}" if "released t \<and> tdDue t = []"
  proof -
    have "tdOnReleased t = []" using inv that by (simp add: td_inv_def released_def t_def)
    with ms that have "mset (syRan s) = mset [0..<syRegistered s]" by simp
    then have "set (syRan s) = set [0..<syRegistered s]" by (rule mset_eq_setD)
    then show ?thesis by simp
  qed
qed

text \<open>A release is in flight when an abandon is asked for; it fails, the abandon follows and succeeds.\<close>

definition example_sys :: Sys where
  "example_sys = newSys\<lparr> syT := runEnds 1 None False (runEnds 0 (Some ''late'') False
     (snd (abandon (snd (release newTeardown))))), syCallers := [AwaitRelease 0, AwaitRetry 0] \<rparr>"

lemma example_sys_reachable: "tdStep\<^sup>*\<^sup>* newSys example_sys"
proof -
  let ?s1 = "newSys\<lparr> syT := snd (release newTeardown), syCallers := [AwaitRelease 0] \<rparr>"
  let ?s2 = "?s1\<lparr> syT := snd (abandon (snd (release newTeardown))), syCallers := [AwaitRelease 0] @ [AwaitRetry 0] \<rparr>"
  let ?s3 = "?s2\<lparr> syT := runEnds 0 (Some ''late'') False (syT ?s2) \<rparr>"
  have 1: "tdStep newSys ?s1"
    using tdStep.callRelease [of newSys "AwaitRelease 0" "snd (release newTeardown)"]
    by (simp add: newSys_def newTeardown_def release_def electLocked_def Let_def)
  have 2: "tdStep ?s1 ?s2"
    using tdStep.callAbandon [of ?s1 "AwaitRetry 0" "snd (abandon (snd (release newTeardown)))"]
    by (simp add: newSys_def newTeardown_def release_def abandon_def electLocked_def Let_def)
  have 3: "tdStep ?s2 ?s3"
    by (rule tdStep.finish) (simp add: live_def newTeardown_def release_def abandon_def electLocked_def cancelFlight_def Let_def)
  have 4: "tdStep ?s3 example_sys"
  proof -
    have "example_sys = ?s3\<lparr> syT := runEnds 1 None False (syT ?s3) \<rparr>" by (simp add: example_sys_def newSys_def)
    moreover have "tdStep ?s3 (?s3\<lparr> syT := runEnds 1 None False (syT ?s3) \<rparr>)"
      by (rule tdStep.finish) (simp add: live_def newTeardown_def release_def abandon_def electLocked_def cancelFlight_def
          runEnds_def Let_def)
    ultimately show ?thesis by simp
  qed
  have "tdStep\<^sup>*\<^sup>* newSys ?s2" by (rule rtranclp.rtrancl_into_rtrancl [where b = ?s1]) (use 1 2 in simp_all)
  then have "tdStep\<^sup>*\<^sup>* newSys ?s3" using 3 by (rule rtranclp.rtrancl_into_rtrancl)
  then show ?thesis using 4 by (rule rtranclp.rtrancl_into_rtrancl)
qed

theorem one_teardown_call_witness:
  "released (syT example_sys) \<and> length (filter (\<lambda>f. flKind f = kindAbandon) (tdFlights (syT example_sys))) \<le> 1 \<and>
   length (tdFlights (syT example_sys)) = 2"
proof -
  have "released (syT example_sys)" "length (tdFlights (syT example_sys)) = 2"
    by (simp_all add: example_sys_def released_def newTeardown_def release_def abandon_def electLocked_def cancelFlight_def
        runEnds_def Let_def)
  with one_teardown_call [OF example_sys_reachable] show ?thesis by blast
qed

end
