(* ===== verification/Resident.thy ===== *)
theory Resident
  imports Heartbeat Capacity
begin

text \<open>
  One resident session and the ways it is given back, \<^verbatim>\<open>internal/compose/session.go\<close> with the
  paths of \<^verbatim>\<open>internal/compose/adapters.go\<close> and \<^verbatim>\<open>internal/compose/faults.go\<close> that end it: the
  latches of the resident, the release halves of its heartbeat, the drain's and the warm
  release's view of one session, the session whose grant was lost and the session whose runtime is
  unusable.

  The warm countdown, a drain, a lost grant and a fault may each be ending the same resident at
  the same moment.  Every latch holds its own lock while its action runs, so an interleaving of
  those paths is a sequence of latched operations (\<open>relStep\<close>); each path is a composition of them.
  The location store, the fence and the registry are the world of theory \<open>Heartbeat\<close>, the
  ledger that of theory \<open>Capacity\<close>; what the runtime, the checkpointer, the lease and the
  workspaces answer is arbitrary.
\<close>

section \<open>Errors\<close>

datatype GoErr =
    GoRelease ReleaseError
  | GoStillHeld
  | GoPlain string
  | GoJoin "GoErr list"

text \<open>\<^verbatim>\<open>errors.Join\<close> of the errors that are not nil.\<close>

definition joinErr :: "GoErr list \<Rightarrow> GoErr option" where
  "joinErr errs = (if errs = [] then None else Some (GoJoin errs))"

fun flatten :: "GoErr \<Rightarrow> GoErr list" where
  "flatten (GoJoin parts) = concat (map flatten parts)"
| "flatten e = [e]"

fun lostGrant :: "GoErr \<Rightarrow> bool" where
  "lostGrant (GoRelease (ReleaseError cause unwritten)) = (cause = ErrLeaseNotHeld)"
| "lostGrant _ = False"

definition withoutLostGrant :: "GoErr option \<Rightarrow> GoErr option" where
  "withoutLostGrant err =
     (case err of None \<Rightarrow> None | Some e \<Rightarrow> joinErr (filter (\<lambda>part. \<not> lostGrant part) (flatten e)))"

section \<open>The resident\<close>

record resident =
  rKey :: Key
  rGeneration :: u64
  rHeart :: Heartbeat
  rWorkDone :: bool
  rBeginOnce :: bool
  rCheckpointOnce :: bool
  rFinishOnce :: bool
  rOwnershipStop :: "GoErr option option"
  rLeaseRelease :: "GoErr option option"
  rStateDrop :: "GoErr option option"
  rAdmissionCredit :: "GoErr option option"
  rGiveUpOnce :: bool
  rRuntimeReleased :: bool
  rRolledBack :: bool

text \<open>What was really done, in order.  A resident is identified by its key and generation.\<close>

datatype RelEffect =
    DidStopWork
  | DidCheckpoint "GoErr option"
  | DidRuntime "GoErr option"
  | DidStopOwnership
  | DidLease "GoErr option"
  | DidWorkspace "GoErr option"
  | DidCredit bool

text \<open>
  The resident with what the composition keeps of it: whether it is the session its key names
  and is watched for warm release, whether the manager still has its record, whether the record's
  context was cancelled or waits for the runtime's release, and what was recorded as unreleased.
\<close>

record RelState =
  rsRes :: resident
  rsWorld :: World
  rsLedger :: CapacityPublisher
  rsTracked :: bool
  rsWatched :: bool
  rsRecord :: bool
  rsCancelOnRelease :: bool
  rsCancelled :: bool
  rsUnreleased :: "GoErr list"
  rsLog :: "RelEffect list"

text \<open>The answers a call may get.\<close>

record RelAnswers =
  anStore :: store_answer
  anNow :: instant
  anCheckpoint :: "GoErr option"
  anWaitIdle :: "GoErr option"
  anRuntime :: "GoErr option"
  anLease :: "GoErr option"
  anWorkspace :: "GoErr option"
  anHalt :: "GoErr option"
  anAbandonable :: bool

definition did :: "RelEffect \<Rightarrow> RelState \<Rightarrow> RelState" where
  "did e s = s\<lparr> rsLog := rsLog s @ [e] \<rparr>"

text \<open>\<^verbatim>\<open>onceOnSuccess.run\<close> and \<^verbatim>\<open>sharedOnce.run\<close>: the latch, the action, the new latch.\<close>

definition onceOnSuccess :: "bool \<Rightarrow> ('s \<Rightarrow> 'e option \<times> 's) \<Rightarrow> 's \<Rightarrow> 'e option \<times> bool \<times> 's" where
  "onceOnSuccess isDone action s =
     (if isDone then (None, True, s)
      else (case action s of (None, s') \<Rightarrow> (None, True, s') | (Some e, s') \<Rightarrow> (Some e, False, s')))"

definition sharedOnce :: "'e option option \<Rightarrow> ('s \<Rightarrow> 'e option \<times> 's) \<Rightarrow> 's \<Rightarrow> 'e option \<times> 'e option option \<times> 's" where
  "sharedOnce slot action s =
     (case slot of Some err \<Rightarrow> (err, slot, s) | None \<Rightarrow> (case action s of (err, s') \<Rightarrow> (err, Some err, s')))"

section \<open>The latched operations\<close>

text \<open>A release half of the heartbeat, on the world the resident shares.\<close>

definition halves ::
  "(Heartbeat \<times> World \<Rightarrow> ReleaseError option \<times> Heartbeat \<times> World) \<Rightarrow> RelState \<Rightarrow> GoErr option \<times> RelState" where
  "halves f s =
     (case f (rHeart (rsRes s), rsWorld s) of
        (err, h, w) \<Rightarrow> (map_option GoRelease err, s\<lparr> rsRes := (rsRes s)\<lparr> rHeart := h \<rparr>, rsWorld := w \<rparr>))"

definition residentBeginRelease :: "RelAnswers \<Rightarrow> RelState \<Rightarrow> GoErr option \<times> RelState" where
  "residentBeginRelease an s =
     (case onceOnSuccess (rBeginOnce (rsRes s)) (halves (BeginRelease (anStore an) (anNow an))) s of
        (err, latch, s') \<Rightarrow> (err, s'\<lparr> rsRes := (rsRes s')\<lparr> rBeginOnce := latch \<rparr> \<rparr>))"

definition residentCheckpoint :: "RelAnswers \<Rightarrow> RelState \<Rightarrow> GoErr option \<times> RelState" where
  "residentCheckpoint an s =
     (case onceOnSuccess (rCheckpointOnce (rsRes s)) (\<lambda>v. (anCheckpoint an, did (DidCheckpoint (anCheckpoint an)) v)) s of
        (err, latch, s') \<Rightarrow> (err, s'\<lparr> rsRes := (rsRes s')\<lparr> rCheckpointOnce := latch \<rparr> \<rparr>))"

definition stopWork :: "RelState \<Rightarrow> RelState" where
  "stopWork s =
     (if rWorkDone (rsRes s) then s
      else did DidStopWork (s\<lparr> rsRes := (rsRes s)\<lparr> rWorkDone := True \<rparr> \<rparr>))"

text \<open>The runtime's teardown, theory \<open>Teardown\<close>, answers nil only when the runtime is released.\<close>

definition teardownRuntime :: "RelAnswers \<Rightarrow> RelState \<Rightarrow> GoErr option \<times> RelState" where
  "teardownRuntime an s =
     (if rRuntimeReleased (rsRes s) then (None, s)
      else (anRuntime an,
            did (DidRuntime (anRuntime an))
              (s\<lparr> rsRes := (rsRes s)\<lparr> rRuntimeReleased := (anRuntime an = None) \<rparr>,
                 rsCancelled := (rsCancelled s \<or> (anRuntime an = None \<and> rsCancelOnRelease s)) \<rparr>)))"

definition residentReleaseResidency :: "RelAnswers \<Rightarrow> RelState \<Rightarrow> GoErr option \<times> RelState" where
  "residentReleaseResidency an s = teardownRuntime an (stopWork s)"

definition residentFinishRelease :: "RelAnswers \<Rightarrow> RelState \<Rightarrow> GoErr option \<times> RelState" where
  "residentFinishRelease an s =
     (case onceOnSuccess (rFinishOnce (rsRes s)) (halves (FinishRelease (anStore an))) s of
        (err, latch, s') \<Rightarrow> (err, s'\<lparr> rsRes := (rsRes s')\<lparr> rFinishOnce := latch \<rparr> \<rparr>))"

definition stopOwnership :: "RelState \<Rightarrow> GoErr option \<times> RelState" where
  "stopOwnership s =
     (case sharedOnce (rOwnershipStop (rsRes s))
             (\<lambda>v. (None, did DidStopOwnership (v\<lparr> rsRes := (rsRes v)\<lparr> rHeart := Stop (rHeart (rsRes v)) \<rparr> \<rparr>))) s of
        (err, slot, s') \<Rightarrow> (err, s'\<lparr> rsRes := (rsRes s')\<lparr> rOwnershipStop := slot \<rparr> \<rparr>))"

definition releaseLease :: "RelAnswers \<Rightarrow> RelState \<Rightarrow> GoErr option \<times> RelState" where
  "releaseLease an s =
     (case sharedOnce (rLeaseRelease (rsRes s)) (\<lambda>v. (anLease an, did (DidLease (anLease an)) v)) s of
        (err, slot, s') \<Rightarrow> (err, s'\<lparr> rsRes := (rsRes s')\<lparr> rLeaseRelease := slot \<rparr> \<rparr>))"

definition dropState :: "RelAnswers \<Rightarrow> RelState \<Rightarrow> GoErr option \<times> RelState" where
  "dropState an s =
     (case sharedOnce (rStateDrop (rsRes s)) (\<lambda>v. (anWorkspace an, did (DidWorkspace (anWorkspace an)) v)) s of
        (err, slot, s') \<Rightarrow> (err, s'\<lparr> rsRes := (rsRes s')\<lparr> rStateDrop := slot \<rparr> \<rparr>))"

definition creditLedger :: "RelState \<Rightarrow> bool \<times> RelState" where
  "creditLedger s =
     (case ReleaseOwned (rKey (rsRes s)) (rGeneration (rsRes s)) (rsLedger s) of
        (ok, p) \<Rightarrow> (ok, did (DidCredit ok) (s\<lparr> rsLedger := p \<rparr>)))"

definition creditAdmission :: "RelState \<Rightarrow> GoErr option \<times> RelState" where
  "creditAdmission s =
     (case sharedOnce (rAdmissionCredit (rsRes s))
             (\<lambda>v. case creditLedger v of (ok, v') \<Rightarrow> (if ok then None else Some (GoPlain ''no charge''), v')) s of
        (err, slot, s') \<Rightarrow> (err, s'\<lparr> rsRes := (rsRes s')\<lparr> rAdmissionCredit := slot \<rparr> \<rparr>))"

definition forgetReleaseProgress :: "RelState \<Rightarrow> RelState" where
  "forgetReleaseProgress s = s\<lparr> rsRes := (rsRes s)\<lparr> rBeginOnce := False, rCheckpointOnce := False \<rparr> \<rparr>"

section \<open>The two views of one session\<close>

text \<open>The warm release's view.\<close>

definition warmReleaseResidency :: "RelAnswers \<Rightarrow> RelState \<Rightarrow> GoErr option \<times> RelState" where
  "warmReleaseResidency an s =
     (case anWaitIdle an of Some e \<Rightarrow> (Some e, s) | None \<Rightarrow> residentReleaseResidency an s)"

definition warmAbortRelease :: "RelAnswers \<Rightarrow> RelState \<Rightarrow> GoErr option \<times> RelState" where
  "warmAbortRelease an s =
     (if rWorkDone (rsRes s) then (Some (GoPlain ''work already stopped''), s)
      else (case halves (AbortRelease (anStore an) (anNow an)) s of
              (Some e, s') \<Rightarrow> (Some e, s')
            | (None, s') \<Rightarrow> (None, forgetReleaseProgress s')))"

definition warmFinishRelease :: "RelAnswers \<Rightarrow> RelState \<Rightarrow> GoErr option \<times> RelState" where
  "warmFinishRelease an s =
     (case residentFinishRelease an s of
        (Some e, s') \<Rightarrow> (Some e, s')
      | (None, s') \<Rightarrow> stopOwnership s')"

text \<open>The drain's view: the fold of the last four steps, with every failure reported but a lost grant.\<close>

definition opt_list :: "'a option \<Rightarrow> 'a list" where
  "opt_list x = (case x of None \<Rightarrow> [] | Some a \<Rightarrow> [a])"

definition drainFinishRelease :: "RelAnswers \<Rightarrow> RelState \<Rightarrow> GoErr option \<times> RelState" where
  "drainFinishRelease an s =
     (case residentFinishRelease an s of (e1, s1) \<Rightarrow>
      case stopOwnership s1 of (e2, s2) \<Rightarrow>
      case releaseLease an s2 of (e3, s3) \<Rightarrow>
      case dropState an s3 of (e4, s4) \<Rightarrow>
        let failures = concat (map opt_list [e1, e2, e3, e4]) in
        (if failures = [] then None
         else joinErr (opt_list (withoutLostGrant (joinErr failures))), s4))"

section \<open>The end of a residency\<close>

definition endResidency :: "RelState \<Rightarrow> RelState" where
  "endResidency s =
     (if \<not> rsRecord s then s
      else if rRuntimeReleased (rsRes s) then s\<lparr> rsRecord := False, rsCancelled := True \<rparr>
      else s\<lparr> rsRecord := False, rsCancelOnRelease := True \<rparr>)"

definition forgetResident :: "RelState \<Rightarrow> RelState" where
  "forgetResident s = endResidency (s\<lparr> rsTracked := False \<rparr>)"

text \<open>Forgetting by generation, with what the caller says of the runtime when the session is not this one.\<close>

definition forgetGeneration :: "bool \<Rightarrow> RelState \<Rightarrow> RelState" where
  "forgetGeneration runtimeReleased s =
     (if rsTracked s then endResidency (s\<lparr> rsTracked := False \<rparr>)
      else if \<not> rsRecord s then s
      else s\<lparr> rsRecord := False, rsCancelled := (rsCancelled s \<or> runtimeReleased) \<rparr>)"

definition recordUnreleased :: "GoErr option \<Rightarrow> RelState \<Rightarrow> RelState" where
  "recordUnreleased err s = s\<lparr> rsUnreleased := rsUnreleased s @ opt_list err \<rparr>"

definition stillHeld :: "GoErr list \<Rightarrow> bool" where
  "stillHeld errs = (\<exists>e\<in>set errs. GoStillHeld \<in> set (flatten e))"

text \<open>
  The tail the lost and the unusable session share: the finish, the credit of the resident that is
  still the tracked one, and the end of the residency.
\<close>

definition giveUpTail :: "RelAnswers \<Rightarrow> RelState \<Rightarrow> GoErr option \<times> RelState" where
  "giveUpTail an s =
     (case drainFinishRelease an s of
        (err, s1) \<Rightarrow>
          (err,
           let s2 = recordUnreleased err s1;
               s3 = (if rsTracked s2 then (snd (creditAdmission s2))\<lparr> rsWatched := False \<rparr> else s2) in
           forgetResident s3))"

definition haltTracked :: "RelAnswers \<Rightarrow> RelState \<Rightarrow> GoErr list" where
  "haltTracked an s = (if rsTracked s then opt_list (anHalt an) else [])"

definition releaseLost :: "RelAnswers \<Rightarrow> RelState \<Rightarrow> GoErr list \<times> RelState" where
  "releaseLost an s =
     (let f1 = haltTracked an s; s1 = stopWork s in
      case (if anAbandonable an then teardownRuntime an s1 else residentReleaseResidency an s1) of
        (e2, s2) \<Rightarrow>
          let failures = f1 @ opt_list e2;
              s3 = (if stillHeld failures then recordUnreleased (joinErr failures) s2 else s2) in
          case giveUpTail an s3 of (e3, s4) \<Rightarrow> (failures @ opt_list e3, s4))"

definition releaseUnusable :: "RelAnswers \<Rightarrow> RelState \<Rightarrow> GoErr list \<times> RelState" where
  "releaseUnusable an s =
     (case residentBeginRelease an s of
        (e1, s1) \<Rightarrow>
          let f1 = opt_list e1 @ haltTracked an s1 in
          case teardownRuntime an (stopWork s1) of
            (e2, s2) \<Rightarrow>
              let s3 = (if stillHeld (opt_list e2) then recordUnreleased e2 s2 else s2) in
              case giveUpTail an s3 of (e3, s4) \<Rightarrow> (f1 @ opt_list e2 @ opt_list e3, s4))"

definition giveUpOnce :: "(RelState \<Rightarrow> GoErr list \<times> RelState) \<Rightarrow> RelState \<Rightarrow> RelState" where
  "giveUpOnce action s =
     (if rGiveUpOnce (rsRes s) then s
      else snd (action (s\<lparr> rsRes := (rsRes s)\<lparr> rGiveUpOnce := True \<rparr> \<rparr>)))"

definition ResidencyLost :: "RelAnswers \<Rightarrow> RelState \<Rightarrow> RelState" where
  "ResidencyLost an s =
     (if \<not> rsTracked s then forgetGeneration False (s\<lparr> rsWatched := False \<rparr>)
      else giveUpOnce (releaseLost an) s)"

definition giveUp :: "RelAnswers \<Rightarrow> RelState \<Rightarrow> RelState" where
  "giveUp an s = (if \<not> anAbandonable an then s else giveUpOnce (releaseUnusable an) s)"

text \<open>The attach that committed the residency and then failed rolls it back through these.\<close>

definition ownershipRollback :: "RelState \<Rightarrow> GoErr option \<times> RelState" where
  "ownershipRollback s =
     stopOwnership (forgetResident ((stopWork (s\<lparr> rsRes := (rsRes s)\<lparr> rRolledBack := True \<rparr> \<rparr>))\<lparr> rsWatched := False \<rparr>))"

definition Ended :: "RelState \<Rightarrow> bool" where
  "Ended s = rRolledBack (rsRes s)"

definition drainEnd :: "RelAnswers \<Rightarrow> RelState \<Rightarrow> GoErr option \<times> RelState" where
  "drainEnd an s = (case drainFinishRelease an s of (err, s') \<Rightarrow> (err, endResidency s'))"


section \<open>Interleavings\<close>

text \<open>
  The latched operations, and whatever else acts on the shared world and ledger meanwhile: the
  heartbeat, the registry's and the ledger's other users, the loss of the lease.
\<close>

datatype RelOp =
    OBegin | OCheckpoint | OStopWork | ORuntime | OFinish | OStopOwnership | OLease | ODrop | OCredit
  | OForgetProgress | OAbort | OEnd | OUntrack | OUnwatch | OGiveUp | OUnreleased "GoErr option" | ORolledBack
  | OForgetLost | OForgetReleased | ODirectCredit | OWorld HbStep | OCharge CapOp

fun relStep :: "RelOp \<Rightarrow> RelAnswers \<Rightarrow> RelState \<Rightarrow> RelState" where
  "relStep OBegin an s = snd (residentBeginRelease an s)"
| "relStep OCheckpoint an s = snd (residentCheckpoint an s)"
| "relStep OStopWork an s = stopWork s"
| "relStep ORuntime an s = snd (teardownRuntime an s)"
| "relStep OFinish an s = snd (residentFinishRelease an s)"
| "relStep OStopOwnership an s = snd (stopOwnership s)"
| "relStep OLease an s = snd (releaseLease an s)"
| "relStep ODrop an s = snd (dropState an s)"
| "relStep OCredit an s = snd (creditAdmission s)"
| "relStep OForgetProgress an s = forgetReleaseProgress s"
| "relStep OAbort an s = snd (halves (AbortRelease (anStore an) (anNow an)) s)"
| "relStep OEnd an s = endResidency s"
| "relStep OUntrack an s = s\<lparr> rsTracked := False \<rparr>"
| "relStep OUnwatch an s = s\<lparr> rsWatched := False \<rparr>"
| "relStep OGiveUp an s = s\<lparr> rsRes := (rsRes s)\<lparr> rGiveUpOnce := True \<rparr> \<rparr>"
| "relStep (OUnreleased err) an s = recordUnreleased err s"
| "relStep ORolledBack an s = s\<lparr> rsRes := (rsRes s)\<lparr> rRolledBack := True \<rparr> \<rparr>"
| "relStep OForgetLost an s = forgetGeneration False s"
| "relStep OForgetReleased an s = (if rRuntimeReleased (rsRes s) then forgetGeneration True s else s)"
| "relStep ODirectCredit an s = snd (creditLedger s)"
| "relStep (OWorld st) an s =
     (case hbStep (anStore an) st (anNow an) (rHeart (rsRes s), rsWorld s) of
        (h, w) \<Rightarrow> s\<lparr> rsRes := (rsRes s)\<lparr> rHeart := h \<rparr>, rsWorld := w \<rparr>)"
| "relStep (OCharge c) an s = s\<lparr> rsLedger := snd (capExec c (rsLedger s)) \<rparr>"

fun relRun :: "(RelOp \<times> RelAnswers) list \<Rightarrow> RelState \<Rightarrow> RelState" where
  "relRun [] s = s"
| "relRun ((x, an) # xs) s = relRun xs (relStep x an s)"

lemma relRun_append: "relRun (xs @ ys) s = relRun ys (relRun xs s)"
  by (induction xs s rule: relRun.induct) simp_all

section \<open>Every destructive step runs once\<close>

fun leaseOf :: "RelEffect \<Rightarrow> GoErr option option" where
  "leaseOf (DidLease e) = Some e"
| "leaseOf _ = None"

fun workspaceOf :: "RelEffect \<Rightarrow> GoErr option option" where
  "workspaceOf (DidWorkspace e) = Some e"
| "workspaceOf _ = None"

text \<open>The latch says what the log says: nothing, or the one outcome.\<close>

definition logFits :: "(RelEffect \<Rightarrow> 'a option) \<Rightarrow> 'a option \<Rightarrow> RelEffect list \<Rightarrow> bool" where
  "logFits f slot log \<longleftrightarrow> List.map_filter f log = opt_list slot"

definition rel_inv :: "RelState \<Rightarrow> bool" where
  "rel_inv s \<longleftrightarrow>
     logFits leaseOf (rLeaseRelease (rsRes s)) (rsLog s) \<and>
     logFits workspaceOf (rStateDrop (rsRes s)) (rsLog s) \<and>
     count_list (rsLog s) DidStopOwnership = (if rOwnershipStop (rsRes s) = None then 0 else 1) \<and>
     count_list (rsLog s) DidStopWork = (if rWorkDone (rsRes s) then 1 else 0) \<and>
     count_list (rsLog s) (DidRuntime None) = (if rRuntimeReleased (rsRes s) then 1 else 0) \<and>
     (rsCancelled s \<longrightarrow> rRuntimeReleased (rsRes s))"

lemma map_filter_snoc: "List.map_filter f (xs @ [x]) = List.map_filter f xs @ opt_list (f x)"
  by (simp add: opt_list_def map_filter_def split: option.split)

lemma logFits_skip: "f e = None \<Longrightarrow> logFits f slot (log @ [e]) \<longleftrightarrow> logFits f slot log"
  by (simp add: logFits_def map_filter_snoc opt_list_def)

lemma logFits_first: "logFits f None log \<Longrightarrow> f e = Some x \<Longrightarrow> logFits f (Some x) (log @ [e])"
  by (simp add: logFits_def map_filter_snoc opt_list_def)

lemma logFits_mem: "logFits f slot log \<Longrightarrow> e \<in> set log \<Longrightarrow> f e = Some x \<Longrightarrow> slot = Some x"
proof -
  assume a: "logFits f slot log" "e \<in> set log" "f e = Some x"
  then have "x \<in> set (List.map_filter f log)" by (force simp: map_filter_def)
  then show ?thesis using a(1) by (simp add: logFits_def opt_list_def split: option.splits)
qed

lemmas rel_ops =
  residentBeginRelease_def residentCheckpoint_def stopWork_def teardownRuntime_def residentFinishRelease_def
  stopOwnership_def releaseLease_def dropState_def creditLedger_def creditAdmission_def forgetReleaseProgress_def
  endResidency_def forgetGeneration_def recordUnreleased_def onceOnSuccess_def sharedOnce_def did_def

lemma halves_inv: "rel_inv (snd (halves f s)) = rel_inv s"
  by (simp add: halves_def rel_inv_def split_beta)

lemma rel_inv_halves_latched:
  assumes "rel_inv s"
  shows "rel_inv (snd (residentBeginRelease an s))" "rel_inv (snd (residentFinishRelease an s))"
proof -
  have latch: "rel_inv (v\<lparr> rsRes := (rsRes v)\<lparr> rBeginOnce := b \<rparr> \<rparr>) = rel_inv v"
    "rel_inv (v\<lparr> rsRes := (rsRes v)\<lparr> rFinishOnce := b \<rparr> \<rparr>) = rel_inv v" for v b
    by (simp_all add: rel_inv_def)
  have h: "rel_inv v" if "halves f s = (e, v)" for f e v
    using assms halves_inv [of f s] that by simp
  show "rel_inv (snd (residentBeginRelease an s))"
    by (auto simp: residentBeginRelease_def onceOnSuccess_def latch assms dest: h split: prod.split option.split)
  show "rel_inv (snd (residentFinishRelease an s))"
    by (auto simp: residentFinishRelease_def onceOnSuccess_def latch assms dest: h split: prod.split option.split)
qed

lemma rel_inv_step:
  assumes "rel_inv s"
  shows "rel_inv (relStep x an s)"
proof (cases x)
  case OBegin
  then show ?thesis using rel_inv_halves_latched(1) [OF assms] by simp
next
  case OFinish
  then show ?thesis using rel_inv_halves_latched(2) [OF assms] by simp
next
  case OAbort
  then show ?thesis using halves_inv assms by simp
next
  case OLease
  with assms show ?thesis
    by (auto simp: rel_inv_def releaseLease_def sharedOnce_def did_def logFits_skip logFits_first split: option.split)
next
  case ODrop
  with assms show ?thesis
    by (auto simp: rel_inv_def dropState_def sharedOnce_def did_def logFits_skip logFits_first split: option.split)
next
  case OCheckpoint
  with assms show ?thesis
    by (auto simp: rel_inv_def residentCheckpoint_def onceOnSuccess_def did_def logFits_skip split: option.splits)
next
  case OCredit
  with assms show ?thesis
    by (auto simp: rel_inv_def creditAdmission_def creditLedger_def sharedOnce_def did_def logFits_skip split: option.splits prod.splits)
qed (use assms in \<open>auto simp: rel_inv_def rel_ops logFits_skip split: option.splits prod.splits\<close>)

lemma rel_inv_run: "rel_inv s \<Longrightarrow> rel_inv (relRun xs s)"
  by (induction xs s rule: relRun.induct) (simp_all add: rel_inv_step)


section \<open>The paths are made of latched operations\<close>

definition reach :: "RelState \<Rightarrow> RelState \<Rightarrow> bool" where
  "reach s t \<longleftrightarrow> (\<exists>xs. t = relRun xs s)"

lemma reach_refl [simp]: "reach s s"
  unfolding reach_def by (metis relRun.simps(1))

lemma reach_trans: "reach s t \<Longrightarrow> reach t u \<Longrightarrow> reach s u"
  unfolding reach_def by (metis relRun_append)

lemma reach_op: "reach s t \<Longrightarrow> reach s (relStep x an t)"
  by (rule reach_trans, assumption) (simp only: reach_def, metis relRun.simps)

lemma drainFinish_ops:
  "snd (drainFinishRelease an s) = relStep ODrop an (relStep OLease an (relStep OStopOwnership an (relStep OFinish an s)))"
  by (simp add: drainFinishRelease_def Let_def split_beta)

lemma reach_drainFinish: "reach s t \<Longrightarrow> reach s (snd (drainFinishRelease an t))"
  unfolding drainFinish_ops by (intro reach_op)

lemma forgetResident_ops: "forgetResident s = relStep OEnd an (relStep OUntrack an s)"
  by (simp add: forgetResident_def)

lemma giveUpTail_ops:
  "snd (giveUpTail an s) =
     (let s2 = relStep (OUnreleased (fst (drainFinishRelease an s))) an (snd (drainFinishRelease an s)) in
      relStep OEnd an (relStep OUntrack an (if rsTracked s2 then relStep OUnwatch an (relStep OCredit an s2) else s2)))"
  by (simp add: giveUpTail_def Let_def split_beta forgetResident_def)

lemma reach_giveUpTail: "reach s t \<Longrightarrow> reach s (snd (giveUpTail an t))"
  unfolding giveUpTail_ops Let_def by (intro reach_op) (simp only: split: if_split, blast intro: reach_op reach_drainFinish)

lemma reach_unreleased:
  assumes "reach s t"
  shows "reach s (if b then recordUnreleased e t else t)"
  using reach_op [OF assms, of "OUnreleased e" an] assms by simp

lemma releaseLost_tail:
  "\<exists>t. snd (releaseLost an s) = snd (giveUpTail an t) \<and> reach s t"
proof -
  let ?r = "if anAbandonable an then teardownRuntime an (stopWork s) else residentReleaseResidency an (stopWork s)"
  let ?f = "haltTracked an s @ opt_list (fst ?r)"
  let ?t = "if stillHeld ?f then recordUnreleased (joinErr ?f) (snd ?r) else snd ?r"
  have "snd ?r = (if anAbandonable an then relStep ORuntime an (relStep OStopWork an s)
      else relStep ORuntime an (relStep OStopWork an (relStep OStopWork an s)))"
    by (simp add: residentReleaseResidency_def)
  then have "reach s (snd ?r)" by (simp only: split: if_split) (blast intro: reach_op reach_refl)
  then have "reach s ?t" by (rule reach_unreleased)
  moreover have "snd (releaseLost an s) = snd (giveUpTail an ?t)" by (simp add: releaseLost_def Let_def split_beta)
  ultimately show ?thesis by blast
qed

lemma releaseUnusable_tail:
  "\<exists>t. snd (releaseUnusable an s) = snd (giveUpTail an t) \<and> reach s t"
proof -
  let ?r = "teardownRuntime an (stopWork (snd (residentBeginRelease an s)))"
  let ?t = "if stillHeld (opt_list (fst ?r)) then recordUnreleased (fst ?r) (snd ?r) else snd ?r"
  have "snd ?r = relStep ORuntime an (relStep OStopWork an (relStep OBegin an s))" by simp
  then have "reach s (snd ?r)" by (simp only:) (intro reach_op reach_refl)
  then have "reach s ?t" by (rule reach_unreleased)
  moreover have "snd (releaseUnusable an s) = snd (giveUpTail an ?t)" by (simp add: releaseUnusable_def Let_def split_beta)
  ultimately show ?thesis by blast
qed

lemma reach_giveUpOnce:
  assumes "\<And>t. reach t (snd (action t))"
  shows "reach s (giveUpOnce action s)"
proof -
  have "giveUpOnce action s = (if rGiveUpOnce (rsRes s) then s else snd (action (relStep OGiveUp an s)))" for an
    by (simp add: giveUpOnce_def)
  then show ?thesis using reach_trans [OF reach_op [OF reach_refl] assms] by (metis reach_refl)
qed

lemma reach_ResidencyLost: "reach s (ResidencyLost an s)"
proof (cases "rsTracked s")
  case False
  then have "ResidencyLost an s = relStep OForgetLost an (relStep OUnwatch an s)" by (simp add: ResidencyLost_def)
  then show ?thesis by (metis reach_op reach_refl)
next
  case True
  have "reach t (snd (releaseLost an t))" for t using releaseLost_tail reach_giveUpTail by metis
  with True reach_giveUpOnce show ?thesis by (simp add: ResidencyLost_def)
qed

lemma reach_giveUp: "reach s (giveUp an s)"
proof -
  have "reach t (snd (releaseUnusable an t))" for t using releaseUnusable_tail reach_giveUpTail by metis
  with reach_giveUpOnce show ?thesis by (simp add: giveUp_def)
qed

lemma reach_drainEnd: "reach s (snd (drainEnd an s))"
proof -
  have "snd (drainEnd an s) = relStep OEnd an (snd (drainFinishRelease an s))" by (simp add: drainEnd_def split_beta)
  then show ?thesis by (metis reach_op reach_drainFinish reach_refl)
qed

lemma reach_rollback: "reach s (snd (ownershipRollback s))"
proof -
  have "snd (ownershipRollback s) = relStep OStopOwnership an (relStep OEnd an (relStep OUntrack an
      (relStep OUnwatch an (relStep OStopWork an (relStep ORolledBack an s)))))" for an
    by (simp add: ownershipRollback_def forgetResident_def)
  then show ?thesis by (metis reach_op reach_refl)
qed


section \<open>What a finish reports\<close>

lemma withoutLostGrant_None:
  "withoutLostGrant err = None \<longleftrightarrow> (\<forall>e. err = Some e \<longrightarrow> (\<forall>part\<in>set (flatten e). lostGrant part))"
  by (auto simp: withoutLostGrant_def joinErr_def filter_empty_conv split: option.split)

text \<open>The drain is told nil only when every step but an already lost grant answered nil.\<close>

lemma drainFinish_nil:
  assumes "drainFinishRelease an s = (None, t)"
  shows "\<forall>err \<in> {fst (residentFinishRelease an s), the (rLeaseRelease (rsRes t)), the (rStateDrop (rsRes t))}.
      \<forall>e. err = Some e \<longrightarrow> (\<forall>part\<in>set (flatten e). lostGrant part)"
    and "rLeaseRelease (rsRes t) \<noteq> None" "rStateDrop (rsRes t) \<noteq> None" "rOwnershipStop (rsRes t) \<noteq> None"
proof -
  obtain e1 s1 where 1: "residentFinishRelease an s = (e1, s1)" by fastforce
  obtain e2 s2 where 2: "stopOwnership s1 = (e2, s2)" by fastforce
  obtain e3 s3 where 3: "releaseLease an s2 = (e3, s3)" by fastforce
  have 4: "dropState an s3 = (fst (dropState an s3), t)"
    using assms 1 2 3 by (auto simp: drainFinishRelease_def Let_def split_beta prod_eq_iff split: if_splits)
  have slots: "rLeaseRelease (rsRes s3) = Some e3" "rStateDrop (rsRes t) = Some (fst (dropState an s3))"
    "rLeaseRelease (rsRes t) = rLeaseRelease (rsRes s3)" "rOwnershipStop (rsRes t) = rOwnershipStop (rsRes s2)"
    "rOwnershipStop (rsRes s2) \<noteq> None"
    using 2 3 4 by (auto simp: releaseLease_def dropState_def stopOwnership_def sharedOnce_def did_def split: option.splits prod.splits)
  let ?fs = "concat (map opt_list [e1, e2, e3, fst (dropState an s3)])"
  have "?fs = [] \<or> withoutLostGrant (Some (GoJoin ?fs)) = None"
    using assms 1 2 3 by (auto simp: drainFinishRelease_def Let_def split_beta joinErr_def opt_list_def split: if_splits option.splits)
  then have "\<forall>e\<in>set ?fs. \<forall>part\<in>set (flatten e). lostGrant part"
    unfolding withoutLostGrant_None by auto
  then show "\<forall>err \<in> {fst (residentFinishRelease an s), the (rLeaseRelease (rsRes t)), the (rStateDrop (rsRes t))}.
      \<forall>e. err = Some e \<longrightarrow> (\<forall>part\<in>set (flatten e). lostGrant part)"
    using 1 slots by (auto simp: opt_list_def)
  show "rLeaseRelease (rsRes t) \<noteq> None" "rStateDrop (rsRes t) \<noteq> None" "rOwnershipStop (rsRes t) \<noteq> None"
    using slots by auto
qed

section \<open>Properties\<close>

text \<open>
  C8: what ends a resident runs once, whoever runs it.  Under any interleaving of the warm
  release, the drain, the lost grant, the unusable runtime and the rolled back attach, with
  anything else acting on the registry, the fence and the ledger meanwhile: the session's work is
  stopped, its heartbeat stopped, its runtime released, its lease released and its workspace
  dropped at most once each; whoever comes later is told the outcome of that one run and changes
  nothing; and the context the runtime runs on is cancelled only once the runtime has been
  released.
\<close>

theorem given_back_once:
  fixes ops :: "(RelOp \<times> RelAnswers) list"
  assumes "rsLog s = []" "rLeaseRelease (rsRes s) = None" "rStateDrop (rsRes s) = None" "rOwnershipStop (rsRes s) = None"
    and "\<not> rWorkDone (rsRes s)" "\<not> rRuntimeReleased (rsRes s)" "\<not> rsCancelled s"
  defines "t \<equiv> relRun ops s"
  shows "count_list (rsLog t) DidStopWork \<le> 1 \<and> count_list (rsLog t) DidStopOwnership \<le> 1 \<and>
    count_list (rsLog t) (DidRuntime None) \<le> 1 \<and>
    length (List.map_filter leaseOf (rsLog t)) \<le> 1 \<and> length (List.map_filter workspaceOf (rsLog t)) \<le> 1 \<and>
    (\<forall>e an. DidLease e \<in> set (rsLog t) \<longrightarrow> releaseLease an t = (e, t)) \<and>
    (\<forall>e an. DidWorkspace e \<in> set (rsLog t) \<longrightarrow> dropState an t = (e, t)) \<and>
    (\<forall>an. DidRuntime None \<in> set (rsLog t) \<longrightarrow> teardownRuntime an t = (None, t)) \<and>
    (rsCancelled t \<longrightarrow> DidRuntime None \<in> set (rsLog t)) \<and>
    (\<forall>an. \<forall>u\<in>{ResidencyLost an t, giveUp an t, snd (drainEnd an t), snd (ownershipRollback t)}. \<exists>ops'. u = relRun ops' t)"
proof -
  have "rel_inv s" using assms(1-7) by (simp add: rel_inv_def logFits_def opt_list_def map_filter_simps)
  then have inv: "rel_inv t" unfolding t_def by (rule rel_inv_run)
  then have lease: "logFits leaseOf (rLeaseRelease (rsRes t)) (rsLog t)"
    and work: "logFits workspaceOf (rStateDrop (rsRes t)) (rsLog t)"
    and counts: "count_list (rsLog t) DidStopWork \<le> 1" "count_list (rsLog t) DidStopOwnership \<le> 1"
      "count_list (rsLog t) (DidRuntime None) = (if rRuntimeReleased (rsRes t) then 1 else 0)"
    and cancelled: "rsCancelled t \<Longrightarrow> rRuntimeReleased (rsRes t)"
    by (simp_all add: rel_inv_def)
  have rel: "rRuntimeReleased (rsRes t) = (DidRuntime None \<in> set (rsLog t))"
    using counts(3) count_list_0_iff [of "rsLog t" "DidRuntime None"] by (auto split: if_splits)
  show ?thesis
  proof (intro conjI allI impI ballI)
    show "releaseLease an t = (e, t)" if "DidLease e \<in> set (rsLog t)" for e an
      using logFits_mem [OF lease that] by (simp add: releaseLease_def sharedOnce_def)
    show "dropState an t = (e, t)" if "DidWorkspace e \<in> set (rsLog t)" for e an
      using logFits_mem [OF work that] by (simp add: dropState_def sharedOnce_def)
    show "teardownRuntime an t = (None, t)" if "DidRuntime None \<in> set (rsLog t)" for an
      using that rel by (simp add: teardownRuntime_def)
    show "length (List.map_filter leaseOf (rsLog t)) \<le> 1" "length (List.map_filter workspaceOf (rsLog t)) \<le> 1"
      using lease work by (simp_all add: logFits_def opt_list_def split: option.split)
    show "DidRuntime None \<in> set (rsLog t)" if "rsCancelled t" using cancelled [OF that] rel by simp
    show "\<exists>ops'. u = relRun ops' t"
      if "u \<in> {ResidencyLost an t, giveUp an t, snd (drainEnd an t), snd (ownershipRollback t)}" for u an
      using that reach_ResidencyLost reach_giveUp reach_drainEnd reach_rollback unfolding reach_def by blast
  qed (use counts in simp_all)
qed

definition example_resident_state :: RelState where
  "example_resident_state = \<lparr> rsRes = \<lparr> rKey = Key ''t'' ''a'', rGeneration = 1, rHeart = example_heartbeat, rWorkDone = False,
       rBeginOnce = False, rCheckpointOnce = False, rFinishOnce = False, rOwnershipStop = None, rLeaseRelease = None,
       rStateDrop = None, rAdmissionCredit = None, rGiveUpOnce = False, rRuntimeReleased = False, rRolledBack = False \<rparr>,
     rsWorld = example_world, rsLedger = example_publisher, rsTracked = True, rsWatched = True, rsRecord = True, rsCancelOnRelease = False,
     rsCancelled = False, rsUnreleased = [], rsLog = [] \<rparr>"

definition example_answers :: RelAnswers where
  "example_answers = \<lparr> anStore = (\<lambda>_ _. None), anNow = 5, anCheckpoint = None, anWaitIdle = None, anRuntime = None,
     anLease = Some (GoPlain ''down''), anWorkspace = None, anHalt = None, anAbandonable = True \<rparr>"

theorem given_back_once_witness:
  "releaseLease (example_answers\<lparr> anLease := None \<rparr>)
      (relRun [(OLease, example_answers), (OLease, example_answers\<lparr> anLease := None \<rparr>)] example_resident_state) =
    (Some (GoPlain ''down''),
     relRun [(OLease, example_answers), (OLease, example_answers\<lparr> anLease := None \<rparr>)] example_resident_state)"
proof -
  let ?t = "relRun [(OLease, example_answers), (OLease, example_answers\<lparr> anLease := None \<rparr>)] example_resident_state"
  have "DidLease (Some (GoPlain ''down'')) \<in> set (rsLog ?t)"
    by (simp add: example_resident_state_def example_answers_def releaseLease_def sharedOnce_def did_def)
  then show ?thesis
    using given_back_once [of example_resident_state
        "[(OLease, example_answers), (OLease, example_answers\<lparr> anLease := None \<rparr>)]"]
    by (simp only: example_resident_state_def RelState.simps resident.simps) blast
qed

end
