(* ===== verification/Warm.thy ===== *)
theory Warm
  imports Resident
begin

text \<open>
  Warm release, \<^verbatim>\<open>internal/residency/warm.go\<close>: the countdown that gives back a session which
  stayed idle, as the composition runs it on a resident (theory \<open>Resident\<close>).

  The release is a function of the resident's state.  Before every step anything else may have
  acted on that state (\<open>wcEnv\<close>), and every call gets arbitrary answers, so the halves of a race
  are all covered; the trace of what was called is part of the result.  The watches, their timers
  and the goroutine of each are a state machine whose operations are the critical sections.
\<close>

section \<open>Outcomes\<close>

datatype WorkState = WorkStateWorking | WorkStateGateWaiting | WorkStateIdle

datatype WarmStep =
    WarmStepHaltConsumption | WarmStepInbox | WarmStepStopAdmitting | WarmStepBeginRelease | WarmStepCheckpoint
  | WarmStepReleaseResidency | WarmStepFinishRelease | WarmStepReleaseLease | WarmStepDropState | WarmStepAbortRelease

datatype WarmOutcomeKind =
    WarmOutcomeReleased | WarmOutcomeAborted | WarmOutcomeResumed | WarmOutcomeHeld | WarmOutcomeAbandoned

type_synonym WarmFailure = "WarmStep \<times> GoErr"

record WarmOutcome =
  woKey :: Key
  woGeneration :: u64
  woKind :: WarmOutcomeKind
  woFailures :: "WarmFailure list"

text \<open>The durable re-read: the cursor, then one record behind it.\<close>

definition AcceptedWork :: "GoErr + u64 \<Rightarrow> (u64 \<Rightarrow> GoErr + 'r list) \<Rightarrow> GoErr + bool" where
  "AcceptedWork cursor listed =
     (case cursor of
        Inl e \<Rightarrow> Inl e
      | Inr c \<Rightarrow> (case listed c of Inl e \<Rightarrow> Inl e | Inr records \<Rightarrow> Inr (records \<noteq> [])))"

text \<open>
  What one release meets: whether consumption can be halted and what the halt answers, the
  confirmation if one is configured, the inbox, and per step the environment and the answers.
\<close>

record WarmCalls =
  wcHalter :: bool
  wcHalt :: "GoErr option"
  wcConfirm :: "bool option"
  wcInbox :: "GoErr + bool"
  wcEnv :: "WarmStep \<Rightarrow> RelState \<Rightarrow> RelState"
  wcAnswers :: "WarmStep \<Rightarrow> RelAnswers"

datatype WarmEvent =
    EvHalt "GoErr option"
  | EvResume
  | EvConfirm bool
  | EvInbox "GoErr + bool"
  | EvWake
  | EvStopAdmitting bool
  | EvStep WarmStep "GoErr option"
  | EvCredit bool

section \<open>The release\<close>

definition failure :: "WarmStep \<Rightarrow> GoErr option \<Rightarrow> WarmFailure list" where
  "failure step err = map (Pair step) (opt_list err)"

definition warmOutcome :: "RelState \<Rightarrow> WarmOutcomeKind \<Rightarrow> WarmFailure list \<Rightarrow> WarmOutcome" where
  "warmOutcome s kind failures =
     \<lparr> woKey = rKey (rsRes s), woGeneration = rGeneration (rsRes s), woKind = kind, woFailures = failures \<rparr>"

definition resumeEv :: "WarmCalls \<Rightarrow> WarmEvent list" where
  "resumeEv wc = (if wcHalter wc then [EvResume] else [])"

text \<open>One step of the session, after whatever the environment did.\<close>

definition warmCall ::
  "WarmCalls \<Rightarrow> WarmStep \<Rightarrow> (RelAnswers \<Rightarrow> RelState \<Rightarrow> GoErr option \<times> RelState) \<Rightarrow> RelState \<Rightarrow> GoErr option \<times> RelState" where
  "warmCall wc step action s = action (wcAnswers wc step) (wcEnv wc step s)"

text \<open>Steps 5 to 8: the runtime is released, so everything else is given back.\<close>

definition warmGiveBack ::
  "WarmCalls \<Rightarrow> WarmFailure list \<Rightarrow> WarmEvent list \<Rightarrow> RelState \<Rightarrow> WarmOutcome \<times> WarmEvent list \<times> RelState" where
  "warmGiveBack wc failures evs s =
     (case warmCall wc WarmStepFinishRelease warmFinishRelease s of (e5, s5) \<Rightarrow>
      case warmCall wc WarmStepReleaseLease releaseLease s5 of (e6, s6) \<Rightarrow>
      case creditLedger s6 of (ok, s7) \<Rightarrow>
      case warmCall wc WarmStepDropState dropState s7 of (e8, s8) \<Rightarrow>
        (warmOutcome s WarmOutcomeReleased
           (failures @ failure WarmStepFinishRelease e5 @ failure WarmStepReleaseLease e6 @ failure WarmStepDropState e8),
         evs @ [EvStep WarmStepFinishRelease e5, EvStep WarmStepReleaseLease e6, EvCredit ok, EvStep WarmStepDropState e8],
         s8))"

text \<open>Steps 3 and 4, once admission is stopped, and the way back when the runtime does not release.\<close>

definition warmSteps ::
  "WarmCalls \<Rightarrow> WarmEvent list \<Rightarrow> RelState \<Rightarrow> WarmOutcome \<times> WarmEvent list \<times> RelState" where
  "warmSteps wc evs s =
     (case warmCall wc WarmStepBeginRelease residentBeginRelease s of (e1, s1) \<Rightarrow>
      case warmCall wc WarmStepCheckpoint residentCheckpoint s1 of (e2, s2) \<Rightarrow>
      case warmCall wc WarmStepReleaseResidency warmReleaseResidency s2 of (e3, s3) \<Rightarrow>
        let failures = failure WarmStepBeginRelease e1 @ failure WarmStepCheckpoint e2 @ failure WarmStepReleaseResidency e3;
            evs' = evs @ [EvStep WarmStepBeginRelease e1, EvStep WarmStepCheckpoint e2, EvStep WarmStepReleaseResidency e3] in
        if e3 = None then warmGiveBack wc failures evs' s3
        else
          (case warmCall wc WarmStepAbortRelease warmAbortRelease s3 of
             (None, s4) \<Rightarrow>
               (warmOutcome s WarmOutcomeResumed failures, evs' @ [EvStep WarmStepAbortRelease None] @ resumeEv wc, s4)
           | (Some e, s4) \<Rightarrow>
               (warmOutcome s WarmOutcomeHeld (failures @ [(WarmStepAbortRelease, e)]),
                evs' @ [EvStep WarmStepAbortRelease (Some e)] @ resumeEv wc, s4)))"

definition stopAdmittingStep :: "WarmCalls \<Rightarrow> RelState \<Rightarrow> bool \<times> RelState" where
  "stopAdmittingStep wc s =
     (let v = wcEnv wc WarmStepStopAdmitting s in
      case StopAdmitting (rKey (rsRes v)) (rGeneration (rsRes v)) (anNow (wcAnswers wc WarmStepStopAdmitting)) (wReg (rsWorld v)) of
        ((entry, ok), reg) \<Rightarrow> (ok, v\<lparr> rsWorld := (rsWorld v)\<lparr> wReg := reg \<rparr> \<rparr>))"

definition warmRelease :: "WarmCalls \<Rightarrow> RelState \<Rightarrow> WarmOutcome \<times> WarmEvent list \<times> RelState" where
  "warmRelease wc s0 =
     (let s = wcEnv wc WarmStepHaltConsumption s0;
          halted = (if wcHalter wc then [EvHalt (wcHalt wc)] else []) in
      if wcHalter wc \<and> wcHalt wc \<noteq> None
      then (warmOutcome s WarmOutcomeAborted (failure WarmStepHaltConsumption (wcHalt wc)), halted @ resumeEv wc, s)
      else
        (let evs = halted @ map EvConfirm (opt_list (wcConfirm wc)) in
         if wcConfirm wc = Some False
         then (warmOutcome s WarmOutcomeAborted [], evs @ resumeEv wc, s)
         else
           (let v = wcEnv wc WarmStepInbox s; evs' = evs @ [EvInbox (wcInbox wc)] in
            case wcInbox wc of
              Inl e \<Rightarrow> (warmOutcome v WarmOutcomeAborted [(WarmStepInbox, e)], evs' @ resumeEv wc @ [EvWake], v)
            | Inr accepted \<Rightarrow>
                if accepted then (warmOutcome v WarmOutcomeAborted [], evs' @ resumeEv wc @ [EvWake], v)
                else
                  (case stopAdmittingStep wc v of
                     (False, u) \<Rightarrow> (warmOutcome u WarmOutcomeAbandoned [], evs' @ [EvStopAdmitting False] @ resumeEv wc, u)
                   | (True, u) \<Rightarrow> warmSteps wc (evs' @ [EvStopAdmitting True]) u))))"


section \<open>The watches\<close>

text \<open>
  One watch per session, with its timer armed or not and its goroutine waiting, releasing or gone.
  A watch is known by its index; the table names the watch of a key.
\<close>

record warmWatch =
  wwKey :: Key
  wwGeneration :: u64
  wwArmed :: bool
  wwReleasing :: bool
  wwDone :: bool
  wwExited :: bool

record WarmReleaser =
  wrStopped :: bool
  wrWatches :: "Key \<rightharpoonup> nat"
  wrAll :: "warmWatch list"
  wrReported :: "(nat \<times> WarmOutcomeKind) list"

record WarmOptions =
  wpClock :: bool
  wpTTL :: int
  wpRegistry :: bool
  wpInbox :: bool
  wpConsumption :: bool
  wpAdmissions :: bool

definition NewWarmReleaser :: "WarmOptions \<Rightarrow> string + WarmReleaser" where
  "NewWarmReleaser p =
     (if \<not> wpClock p then Inl ''Clock''
      else if \<not> wpRegistry p then Inl ''Registry''
      else if \<not> wpInbox p then Inl ''Inbox''
      else if \<not> wpConsumption p then Inl ''Consumption''
      else if \<not> wpAdmissions p then Inl ''Admissions''
      else if wpTTL p \<le> 0 then Inl ''TTL''
      else Inr \<lparr> wrStopped = False, wrWatches = Map.empty, wrAll = [], wrReported = [] \<rparr>)"

datatype WatchError = ErrWarmSessionWatched | ErrWarmReleaserStopped

definition updWatch :: "nat \<Rightarrow> (warmWatch \<Rightarrow> warmWatch) \<Rightarrow> WarmReleaser \<Rightarrow> WarmReleaser" where
  "updWatch i f w = w\<lparr> wrAll := (wrAll w)[i := f (wrAll w ! i)] \<rparr>"

definition WatchSession :: "Key \<Rightarrow> u64 \<Rightarrow> WarmReleaser \<Rightarrow> WatchError option \<times> WarmReleaser" where
  "WatchSession key generation w =
     (if wrWatches w key \<noteq> None then (Some ErrWarmSessionWatched, w)
      else if wrStopped w then (Some ErrWarmReleaserStopped, w)
      else (None, w\<lparr> wrWatches := (wrWatches w)(key \<mapsto> length (wrAll w)),
              wrAll := wrAll w @ [\<lparr> wwKey = key, wwGeneration = generation, wwArmed = False, wwReleasing = False,
                 wwDone = False, wwExited = False \<rparr>] \<rparr>))"

definition Watching :: "Key \<Rightarrow> WarmReleaser \<Rightarrow> bool" where
  "Watching key w = (wrWatches w key \<noteq> None)"

definition watchStop :: "warmWatch \<Rightarrow> warmWatch" where
  "watchStop watch = watch\<lparr> wwArmed := False, wwDone := True \<rparr>"

definition ForgetWatch :: "Key \<Rightarrow> WarmReleaser \<Rightarrow> WarmReleaser" where
  "ForgetWatch key w =
     (case wrWatches w key of
        None \<Rightarrow> w
      | Some i \<Rightarrow> updWatch i watchStop (w\<lparr> wrWatches := map_del key (wrWatches w) \<rparr>))"

text \<open>
  The lookup of the watch and the change of the watch are two critical sections of the code and one step
  here.  Only a \<open>Forget\<close> or a \<open>Stop\<close> of the same session can fall between them; it ends the goroutine of
  the watch, so the countdown the late observation would arm is one nobody waits for any more.
\<close>

definition ObserveWork :: "Key \<Rightarrow> WorkState \<Rightarrow> WarmReleaser \<Rightarrow> WarmReleaser" where
  "ObserveWork key state w =
     (case wrWatches w key of
        None \<Rightarrow> w
      | Some i \<Rightarrow>
          if wwReleasing (wrAll w ! i) then w
          else if state = WorkStateIdle
          then (if wwArmed (wrAll w ! i) then w else updWatch i (\<lambda>watch. watch\<lparr> wwArmed := True \<rparr>) w)
          else updWatch i (\<lambda>watch. watch\<lparr> wwArmed := False \<rparr>) w)"

definition StopReleaser :: "WarmReleaser \<Rightarrow> WarmReleaser" where
  "StopReleaser w =
     w\<lparr> wrStopped := True, wrWatches := Map.empty,
        wrAll := map (\<lambda>i. if i \<in> ran (wrWatches w) then watchStop (wrAll w ! i) else wrAll w ! i) [0..<length (wrAll w)] \<rparr>"

text \<open>The goroutine of a watch: a tick starts a release only if the watch is still armed.\<close>

definition runTick :: "nat \<Rightarrow> WarmReleaser \<Rightarrow> bool \<times> WarmReleaser" where
  "runTick i w =
     (if wwArmed (wrAll w ! i)
      then (True, updWatch i (\<lambda>watch. watch\<lparr> wwArmed := False, wwReleasing := True \<rparr>) w)
      else (False, w))"

definition finishWatch :: "nat \<Rightarrow> WarmOutcomeKind \<Rightarrow> WarmReleaser \<Rightarrow> WarmReleaser" where
  "finishWatch i kind w =
     (let key = wwKey (wrAll w ! i);
          w' = (if wrWatches w key = Some i then w\<lparr> wrWatches := map_del key (wrWatches w) \<rparr> else w) in
      updWatch i (\<lambda>watch. watch\<lparr> wwDone := True, wwExited := True \<rparr>) (w'\<lparr> wrReported := wrReported w' @ [(i, kind)] \<rparr>))"

definition releaseEnds :: "nat \<Rightarrow> WarmOutcomeKind \<Rightarrow> WarmReleaser \<Rightarrow> WarmReleaser" where
  "releaseEnds i kind w =
     (if kind = WarmOutcomeAborted \<or> kind = WarmOutcomeResumed
      then updWatch i (\<lambda>watch. watch\<lparr> wwReleasing := False \<rparr>) (w\<lparr> wrReported := wrReported w @ [(i, kind)] \<rparr>)
      else finishWatch i kind w)"

datatype WarmOp =
    WWatch Key u64 | WForget Key | WObserve Key WorkState | WStop | WTick nat | WEnds nat WarmOutcomeKind | WLost nat | WLeave nat

text \<open>The goroutine takes a case of its select only while it waits; a release ends only while one runs.\<close>

definition waiting :: "nat \<Rightarrow> WarmReleaser \<Rightarrow> bool" where
  "waiting i w \<longleftrightarrow> i < length (wrAll w) \<and> \<not> wwExited (wrAll w ! i) \<and> \<not> wwReleasing (wrAll w ! i)"

fun warmExec :: "WarmOp \<Rightarrow> WarmReleaser \<Rightarrow> WarmReleaser" where
  "warmExec (WWatch k g) w = snd (WatchSession k g w)"
| "warmExec (WForget k) w = ForgetWatch k w"
| "warmExec (WObserve k st) w = ObserveWork k st w"
| "warmExec WStop w = StopReleaser w"
| "warmExec (WTick i) w = (if waiting i w then snd (runTick i w) else w)"
| "warmExec (WEnds i kind) w =
     (if i < length (wrAll w) \<and> \<not> wwExited (wrAll w ! i) \<and> wwReleasing (wrAll w ! i) then releaseEnds i kind w else w)"
| "warmExec (WLost i) w = (if waiting i w then finishWatch i WarmOutcomeAbandoned w else w)"
| "warmExec (WLeave i) w =
     (if waiting i w \<and> (wrStopped w \<or> wwDone (wrAll w ! i)) then updWatch i (\<lambda>watch. watch\<lparr> wwExited := True \<rparr>) w else w)"

fun warmRun :: "WarmOp list \<Rightarrow> WarmReleaser \<Rightarrow> WarmReleaser" where
  "warmRun [] w = w"
| "warmRun (x # xs) w = warmRun xs (warmExec x w)"

lemma warmRun_append: "warmRun (xs @ ys) w = warmRun ys (warmRun xs w)"
  by (induction xs w rule: warmRun.induct) simp_all

text \<open>The table names live watches of their own key, and an armed watch that waits is in the table.\<close>

definition warm_inv :: "WarmReleaser \<Rightarrow> bool" where
  "warm_inv w \<longleftrightarrow>
     (\<forall>k i. wrWatches w k = Some i \<longrightarrow> i < length (wrAll w) \<and> wwKey (wrAll w ! i) = k \<and> \<not> wwDone (wrAll w ! i)) \<and>
     (\<forall>i<length (wrAll w). wwArmed (wrAll w ! i) \<and> \<not> wwExited (wrAll w ! i) \<longrightarrow>
        wrWatches w (wwKey (wrAll w ! i)) = Some i \<and> \<not> wwReleasing (wrAll w ! i))"

lemma warm_inv_table:
  "warm_inv w \<Longrightarrow> wrWatches w k = Some i \<Longrightarrow> i < length (wrAll w) \<and> wwKey (wrAll w ! i) = k \<and> \<not> wwDone (wrAll w ! i)"
  unfolding warm_inv_def by blast

lemma warm_inv_armed:
  "warm_inv w \<Longrightarrow> i < length (wrAll w) \<Longrightarrow> wwArmed (wrAll w ! i) \<Longrightarrow> \<not> wwExited (wrAll w ! i) \<Longrightarrow>
     wrWatches w (wwKey (wrAll w ! i)) = Some i \<and> \<not> wwReleasing (wrAll w ! i)"
  unfolding warm_inv_def by blast

text \<open>Changing one watch, and dropping at most that watch from the table.\<close>

lemma warm_inv_upd:
  assumes "warm_inv w" "i < length (wrAll w)" "wrAll w' = (wrAll w)[i := b]" "wwKey b = wwKey (wrAll w ! i)"
    and table: "\<And>k j. wrWatches w' k = Some j \<longleftrightarrow> wrWatches w k = Some j \<and> (j = i \<longrightarrow> keep)"
    and kept: "keep \<Longrightarrow> wwDone b = wwDone (wrAll w ! i)"
    and armed: "wwArmed b \<Longrightarrow> \<not> wwExited b \<Longrightarrow> keep \<and> \<not> wwReleasing b \<and> wrWatches w (wwKey b) = Some i"
  shows "warm_inv w'"
  unfolding warm_inv_def
proof (intro conjI allI impI)
  fix k j assume t: "wrWatches w' k = Some j"
  then have "wrWatches w k = Some j" "j = i \<longrightarrow> keep" using table by blast+
  then show "j < length (wrAll w')" "wwKey (wrAll w' ! j) = k" "\<not> wwDone (wrAll w' ! j)"
    using warm_inv_table [OF assms(1), of k j] assms(2-4) kept by (auto simp: nth_list_update)
next
  fix j assume j: "j < length (wrAll w')" "wwArmed (wrAll w' ! j) \<and> \<not> wwExited (wrAll w' ! j)"
  show "wrWatches w' (wwKey (wrAll w' ! j)) = Some j" "\<not> wwReleasing (wrAll w' ! j)"
    using j warm_inv_armed [OF assms(1), of j] assms(2-4) armed table by (auto simp: nth_list_update split: if_splits)
qed

lemma warm_inv_finish:
  assumes "warm_inv w" "i < length (wrAll w)"
  shows "warm_inv (finishWatch i kind w)"
proof (rule warm_inv_upd [OF assms, where keep = False])
  show "wrAll (finishWatch i kind w) = (wrAll w)[i := (wrAll w ! i)\<lparr> wwDone := True, wwExited := True \<rparr>]"
    by (simp add: finishWatch_def Let_def updWatch_def)
  show "wrWatches (finishWatch i kind w) k = Some j \<longleftrightarrow> wrWatches w k = Some j \<and> (j = i \<longrightarrow> False)" for k j
    using warm_inv_table [OF assms(1), of k j] by (auto simp: finishWatch_def Let_def updWatch_def map_del_def)
qed simp_all

lemma warm_inv_same_table:
  assumes "warm_inv w" "i < length (wrAll w)" "wrAll w' = (wrAll w)[i := b]" "wrWatches w' = wrWatches w"
    and "wwKey b = wwKey (wrAll w ! i)" "wwDone b = wwDone (wrAll w ! i)"
    and "wwArmed b \<Longrightarrow> \<not> wwExited b \<Longrightarrow> \<not> wwReleasing b \<and> wrWatches w (wwKey b) = Some i"
  shows "warm_inv w'"
  by (rule warm_inv_upd [OF assms(1-3,5), where keep = True]) (use assms(4,6,7) in auto)

lemma warm_inv_step:
  assumes "warm_inv w"
  shows "warm_inv (warmExec x w)"
proof (cases x)
  case (WWatch k g)
  have "wwExited (wrAll w ! i)"
    if "wrWatches w (wwKey (wrAll w ! i)) = None" "i < length (wrAll w)" "wwArmed (wrAll w ! i)" for i
    using warm_inv_armed [OF assms] that by fastforce
  moreover have "wrWatches w k = None \<Longrightarrow> wrWatches w k' = Some i \<Longrightarrow> k' \<noteq> k" for k' i by auto
  ultimately show ?thesis
    using assms WWatch by (auto simp: warm_inv_def WatchSession_def nth_append less_Suc_eq split: if_splits)
next
  case (WForget k)
  show ?thesis
  proof (cases "wrWatches w k")
    case None
    with WForget assms show ?thesis by (simp add: ForgetWatch_def)
  next
    case (Some i)
    have i: "i < length (wrAll w)" using warm_inv_table [OF assms Some] by simp
    have t: "wrWatches (ForgetWatch k w) k' = Some j \<longleftrightarrow> wrWatches w k' = Some j \<and> (j = i \<longrightarrow> False)" for k' j
      using Some warm_inv_table [OF assms Some] warm_inv_table [OF assms, of k' j]
      by (auto simp: ForgetWatch_def updWatch_def map_del_def)
    have "warm_inv (ForgetWatch k w)"
      by (rule warm_inv_upd [OF assms i, where keep = False and b = "watchStop (wrAll w ! i)"])
         (use Some t in \<open>simp_all add: ForgetWatch_def updWatch_def watchStop_def\<close>)
    with WForget show ?thesis by simp
  qed
next
  case (WObserve k st)
  show ?thesis
  proof (cases "wrWatches w k")
    case None
    with WObserve assms show ?thesis by (simp add: ObserveWork_def)
  next
    case (Some i)
    note t = warm_inv_table [OF assms Some]
    have "warm_inv (updWatch i (\<lambda>watch. watch\<lparr> wwArmed := b \<rparr>) w)" if "\<not> wwReleasing (wrAll w ! i)" for b
      by (rule warm_inv_same_table [OF assms, where i = i and b = "(wrAll w ! i)\<lparr> wwArmed := b \<rparr>"])
         (use t Some that in \<open>simp_all add: updWatch_def\<close>)
    with WObserve Some assms show ?thesis by (simp add: ObserveWork_def)
  qed
next
  case WStop
  have "wwExited (wrAll w ! i)" if "i \<notin> ran (wrWatches w)" "i < length (wrAll w)" "wwArmed (wrAll w ! i)" for i
    using warm_inv_armed [OF assms] that by (metis ranI)
  with WStop show ?thesis by (auto simp: warm_inv_def StopReleaser_def watchStop_def split: if_splits)
next
  case (WTick i)
  have "warm_inv (updWatch i (\<lambda>watch. watch\<lparr> wwArmed := False, wwReleasing := True \<rparr>) w)" if "i < length (wrAll w)"
    by (rule warm_inv_same_table [OF assms that, where b = "(wrAll w ! i)\<lparr> wwArmed := False, wwReleasing := True \<rparr>"])
       (simp_all add: updWatch_def)
  with WTick assms show ?thesis by (simp add: runTick_def waiting_def)
next
  case (WEnds i kind)
  have "warm_inv (updWatch i (\<lambda>watch. watch\<lparr> wwReleasing := False \<rparr>) (w\<lparr> wrReported := r \<rparr>))" if "i < length (wrAll w)" for r
    by (rule warm_inv_same_table [OF assms that, where b = "(wrAll w ! i)\<lparr> wwReleasing := False \<rparr>"])
       (use warm_inv_armed [OF assms that] in \<open>simp_all add: updWatch_def\<close>)
  with WEnds assms warm_inv_finish [OF assms] show ?thesis by (simp add: releaseEnds_def)
next
  case (WLost i)
  with assms warm_inv_finish [OF assms] show ?thesis by (simp add: waiting_def)
next
  case (WLeave i)
  have "warm_inv (updWatch i (\<lambda>watch. watch\<lparr> wwExited := True \<rparr>) w)" if "i < length (wrAll w)"
    by (rule warm_inv_same_table [OF assms that, where b = "(wrAll w ! i)\<lparr> wwExited := True \<rparr>"])
       (simp_all add: updWatch_def)
  with WLeave assms show ?thesis by (simp add: waiting_def)
qed

lemma warm_inv_run: "warm_inv w \<Longrightarrow> warm_inv (warmRun xs w)"
  by (induction xs w rule: warmRun.induct) (simp_all add: warm_inv_step)

lemma warm_inv_new: "NewWarmReleaser p = Inr w \<Longrightarrow> warm_inv w"
  by (auto simp: NewWarmReleaser_def warm_inv_def split: if_splits)

text \<open>What disarms a watch of a key: another observation, a forgotten key, the end, a tick.\<close>

fun disarms :: "Key \<Rightarrow> nat \<Rightarrow> WarmOp \<Rightarrow> bool" where
  "disarms k i (WObserve k' st) = (k' = k \<and> st \<noteq> WorkStateIdle)"
| "disarms k i (WForget k') = (k' = k)"
| "disarms k i WStop = True"
| "disarms k i (WTick j) = (j = i)"
| "disarms k i _ = False"

definition keyOf :: "nat \<Rightarrow> WarmReleaser \<Rightarrow> Key" where
  "keyOf i w = wwKey (wrAll w ! i)"

definition armedWaiting :: "nat \<Rightarrow> WarmReleaser \<Rightarrow> bool" where
  "armedWaiting i w \<longleftrightarrow> waiting i w \<and> wwArmed (wrAll w ! i)"

text \<open>A watch that is armed after an operation was armed by it, or before it and not disarmed by it.\<close>

lemma armed_step:
  assumes "warm_inv w" "armedWaiting i (warmExec x w)"
  shows "x = WObserve (keyOf i (warmExec x w)) WorkStateIdle \<or>
    (armedWaiting i w \<and> keyOf i (warmExec x w) = keyOf i w \<and> \<not> disarms (keyOf i w) i x)"
proof -
  have arm: "wrWatches w (wwKey (wrAll w ! i)) = Some i"
    if "i < length (wrAll w)" "wwArmed (wrAll w ! i)" "\<not> wwExited (wrAll w ! i)"
    using assms(1) that by (auto simp: warm_inv_def)
  have tab: "wwKey (wrAll w ! i) = k" if "wrWatches w k = Some i" for k
    using assms(1) that by (auto simp: warm_inv_def)
  note defs = armedWaiting_def waiting_def keyOf_def updWatch_def nth_list_update
  show ?thesis
  proof (cases x)
    case (WWatch k g)
    with assms(2) show ?thesis by (auto simp: defs WatchSession_def nth_append less_Suc_eq split: if_splits)
  next
    case (WForget k)
    show ?thesis
    proof (cases "wrWatches w k")
      case None
      with WForget assms(2) arm show ?thesis by (auto simp: armedWaiting_def waiting_def keyOf_def ForgetWatch_def)
    next
      case (Some j)
      with WForget assms(2) arm show ?thesis
        by (cases "j = i") (auto simp: defs ForgetWatch_def watchStop_def split: if_splits)
    qed
  next
    case (WObserve k st)
    show ?thesis
    proof (cases "wrWatches w k")
      case None
      with WObserve assms(2) arm show ?thesis by (auto simp: armedWaiting_def waiting_def keyOf_def ObserveWork_def)
    next
      case (Some j)
      show ?thesis
      proof (cases "j = i")
        case True
        with Some tab have "wwKey (wrAll w ! i) = k" by simp
        with True Some WObserve assms(2) show ?thesis
          by (auto simp: defs ObserveWork_def split: if_splits)
      next
        case False
        with Some WObserve assms(2) arm show ?thesis
          by (auto simp: defs ObserveWork_def split: if_splits)
      qed
    qed
  next
    case WStop
    have r: "i \<in> ran (wrWatches w)" if "i < length (wrAll w)" "wwArmed (wrAll w ! i)" "\<not> wwExited (wrAll w ! i)"
      using arm [OF that] by (auto simp: ran_def)
    from WStop assms(2) r show ?thesis by (auto simp: defs StopReleaser_def watchStop_def split: if_splits)
  next
    case (WTick j)
    with assms(2) show ?thesis by (auto simp: defs runTick_def split: if_splits)
  next
    case (WEnds j kind)
    have "\<not> wwReleasing (wrAll w ! i)" if "i < length (wrAll w)" "wwArmed (wrAll w ! i)" "\<not> wwExited (wrAll w ! i)"
      using assms(1) that by (auto simp: warm_inv_def)
    with assms(2) WEnds show ?thesis
      by (auto simp: defs releaseEnds_def finishWatch_def Let_def split: if_splits)
  next
    case (WLost j)
    with assms(2) show ?thesis by (auto simp: defs finishWatch_def Let_def split: if_splits)
  next
    case (WLeave j)
    with assms(2) show ?thesis by (auto simp: defs split: if_splits)
  qed
qed

lemma armed_run:
  assumes "warm_inv w0" "wrAll w0 = []"
  shows "armedWaiting i (warmRun xs w0) \<Longrightarrow>
    \<exists>pre post. xs = pre @ WObserve (keyOf i (warmRun xs w0)) WorkStateIdle # post \<and>
      (\<forall>x\<in>set post. \<not> disarms (keyOf i (warmRun xs w0)) i x)"
proof (induction xs rule: rev_induct)
  case Nil
  then show ?case using assms(2) by (simp add: armedWaiting_def waiting_def)
next
  case (snoc x xs)
  let ?w = "warmRun xs w0"
  have run: "warmRun (xs @ [x]) w0 = warmExec x ?w" by (simp add: warmRun_append)
  from armed_step [OF warm_inv_run [OF assms(1)] snoc.prems [unfolded run]]
  show ?case
  proof
    assume "x = WObserve (keyOf i (warmExec x ?w)) WorkStateIdle"
    then show ?thesis unfolding run by (intro exI [of _ xs] exI [of _ "[]"]) simp
  next
    assume a: "armedWaiting i ?w \<and> keyOf i (warmExec x ?w) = keyOf i ?w \<and> \<not> disarms (keyOf i ?w) i x"
    then obtain pre post where "xs = pre @ WObserve (keyOf i ?w) WorkStateIdle # post"
      "\<forall>y\<in>set post. \<not> disarms (keyOf i ?w) i y" using snoc.IH by blast
    with a show ?thesis unfolding run by (intro exI [of _ pre] exI [of _ "post @ [x]"]) auto
  qed
qed

text \<open>
  A late loss of an earlier residency of the key, as the composition handles it: the watch goes
  by key alone.
\<close>

definition lateLoss :: "Key \<Rightarrow> u64 \<Rightarrow> WarmReleaser \<Rightarrow> WarmReleaser" where
  "lateLoss key generation w = ForgetWatch key w"


section \<open>What a release may have done\<close>

text \<open>The failure an event reports.\<close>

fun evFailure :: "WarmEvent \<Rightarrow> WarmFailure list" where
  "evFailure (EvStep st (Some e)) = [(st, e)]"
| "evFailure (EvHalt (Some e)) = [(WarmStepHaltConsumption, e)]"
| "evFailure (EvInbox (Inl e)) = [(WarmStepInbox, e)]"
| "evFailure _ = []"

definition evFailures :: "WarmEvent list \<Rightarrow> WarmFailure list" where
  "evFailures evs = concat (map evFailure evs)"

lemma evFailures_append [simp]: "evFailures (xs @ ys) = evFailures xs @ evFailures ys"
  by (simp add: evFailures_def)

lemma evFailures_simps [simp]:
  "evFailures [] = []" "evFailures (x # xs) = evFailure x @ evFailures xs"
  "evFailures (resumeEv wc) = []" "evFailures (map EvConfirm bs) = []"
  by (simp_all add: evFailures_def resumeEv_def comp_def)

lemma evFailure_step [simp]: "evFailure (EvStep st e) = failure st e"
  by (cases e) (simp_all add: failure_def opt_list_def)

lemma warmSteps_cases:
  assumes "warmSteps wc evs s = (out, evs', t)"
  obtains (released) e1 e2 e5 e6 ok e8 where "woKind out = WarmOutcomeReleased"
      "evs' = evs @ [EvStep WarmStepBeginRelease e1, EvStep WarmStepCheckpoint e2, EvStep WarmStepReleaseResidency None,
         EvStep WarmStepFinishRelease e5, EvStep WarmStepReleaseLease e6, EvCredit ok, EvStep WarmStepDropState e8]"
      "evFailures evs' = evFailures evs @ woFailures out"
  | (resumed) e1 e2 e3 an u where "woKind out = WarmOutcomeResumed" "warmAbortRelease an u = (None, t)"
      "evs' = evs @ [EvStep WarmStepBeginRelease e1, EvStep WarmStepCheckpoint e2, EvStep WarmStepReleaseResidency (Some e3),
         EvStep WarmStepAbortRelease None] @ resumeEv wc"
      "evFailures evs' = evFailures evs @ woFailures out"
  | (held) e1 e2 e3 e4 where "woKind out = WarmOutcomeHeld"
      "evs' = evs @ [EvStep WarmStepBeginRelease e1, EvStep WarmStepCheckpoint e2, EvStep WarmStepReleaseResidency (Some e3),
         EvStep WarmStepAbortRelease (Some e4)] @ resumeEv wc"
      "evFailures evs' = evFailures evs @ woFailures out"
proof -
  obtain e1 s1 where 1: "warmCall wc WarmStepBeginRelease residentBeginRelease s = (e1, s1)" by fastforce
  obtain e2 s2 where 2: "warmCall wc WarmStepCheckpoint residentCheckpoint s1 = (e2, s2)" by fastforce
  obtain e3 s3 where 3: "warmCall wc WarmStepReleaseResidency warmReleaseResidency s2 = (e3, s3)" by fastforce
  obtain e4 s4 where 4: "warmCall wc WarmStepAbortRelease warmAbortRelease s3 = (e4, s4)" by fastforce
  obtain e5 s5 where 5: "warmCall wc WarmStepFinishRelease warmFinishRelease s3 = (e5, s5)" by fastforce
  obtain e6 s6 where 6: "warmCall wc WarmStepReleaseLease releaseLease s5 = (e6, s6)" by fastforce
  obtain ok s7 where 7: "creditLedger s6 = (ok, s7)" by fastforce
  obtain e8 s8 where 8: "warmCall wc WarmStepDropState dropState s7 = (e8, s8)" by fastforce
  note calls = 1 2 3 4 5 6 7 8
  have none: "failure st None = []" for st by (simp add: failure_def opt_list_def)
  show ?thesis
  proof (cases e3)
    case None
    with assms calls show ?thesis
      by (intro released [of e1 e2 e5 e6 ok e8]) (auto simp: warmSteps_def warmGiveBack_def Let_def warmOutcome_def none)
  next
    case (Some x)
    note Some3 = Some
    show ?thesis
    proof (cases e4)
      case None
      with 4 have ab: "warmAbortRelease (wcAnswers wc WarmStepAbortRelease) (wcEnv wc WarmStepAbortRelease s3) = (None, s4)"
        by (simp add: warmCall_def)
      have "t = s4" using assms calls None Some3 by (auto simp: warmSteps_def Let_def)
      with ab assms calls None Some3 show ?thesis
        by (intro resumed [of "wcAnswers wc WarmStepAbortRelease" "wcEnv wc WarmStepAbortRelease s3" e1 e2 x])
           (auto simp: warmSteps_def Let_def warmOutcome_def none)
    next
      case (Some y)
      with assms calls Some3 show ?thesis
        by (intro held [of e1 e2 x y]) (auto simp: warmSteps_def Let_def warmOutcome_def none failure_def opt_list_def)
    qed
  qed
qed

text \<open>Taking a release back leaves the session resident and admitting.\<close>

lemma ResumeResident_ok:
  assumes "ResumeResident k g now r = ((e, True), r')"
  shows "\<exists>entry. Get k r' = Some entry \<and> eGeneration entry = g \<and> eState entry = StateResident \<and> eAccepting entry"
  using assms by (auto simp: reg_defs Get_def split: option.splits if_splits)

lemma fencedLoc_reg: "wReg (snd (fencedLoc answer lw w)) = wReg w"
  by (simp add: fencedLoc_def split_beta)

lemma AbortRelease_ok:
  assumes "AbortRelease answer now (h, w) = (None, h', w')"
  shows "\<exists>entry. Get (hbKey h') (wReg w') = Some entry \<and> eGeneration entry = hbGeneration h' \<and>
    eState entry = StateResident \<and> eAccepting entry"
proof -
  obtain e ok r where r: "ResumeResident (hbKey h) (hbGeneration h) now (wReg w) = ((e, ok), r)" by (metis prod.exhaust)
  have ok: "ok" and h: "hbKey h' = hbKey h" "hbGeneration h' = hbGeneration h" and w: "wReg w' = r"
    using assms r fencedLoc_reg [of answer "PublishResidency (observation h now (the e) ResidencyResident True)" "w\<lparr> wReg := r \<rparr>"]
    by (auto simp: AbortRelease_def Let_def split: if_splits option.splits prod.splits)
  from ResumeResident_ok [of "hbKey h" "hbGeneration h" now "wReg w" e r] r ok h w show ?thesis by simp
qed

lemma warmAbort_ok:
  assumes "warmAbortRelease an u = (None, t)"
  shows "\<not> rWorkDone (rsRes t) \<and> \<not> rBeginOnce (rsRes t) \<and> \<not> rCheckpointOnce (rsRes t) \<and>
    (\<exists>entry. Get (hbKey (rHeart (rsRes t))) (wReg (rsWorld t)) = Some entry \<and>
       eGeneration entry = hbGeneration (rHeart (rsRes t)) \<and> eState entry = StateResident \<and> eAccepting entry)"
proof -
  obtain err h w where a: "AbortRelease (anStore an) (anNow an) (rHeart (rsRes u), rsWorld u) = (err, h, w)"
    by (metis prod.exhaust)
  have "err = None" "\<not> rWorkDone (rsRes u)"
    and t: "t = forgetReleaseProgress (u\<lparr> rsRes := (rsRes u)\<lparr> rHeart := h \<rparr>, rsWorld := w \<rparr>)"
    using assms a by (auto simp: warmAbortRelease_def halves_def split: if_splits option.splits)
  with AbortRelease_ok [of "anStore an" "anNow an" "rHeart (rsRes u)" "rsWorld u" h w] a show ?thesis
    by (simp add: forgetReleaseProgress_def)
qed


definition haltEvs :: "WarmCalls \<Rightarrow> WarmEvent list" where
  "haltEvs wc = (if wcHalter wc then [EvHalt (wcHalt wc)] else [])"

definition beforeInbox :: "WarmCalls \<Rightarrow> WarmEvent list" where
  "beforeInbox wc = haltEvs wc @ map EvConfirm (opt_list (wcConfirm wc))"

lemma warmRelease_cases:
  assumes "warmRelease wc s = (out, evs, t)"
  obtains (halt) "woKind out = WarmOutcomeAborted" "wcHalter wc" "wcHalt wc \<noteq> None" "evs = haltEvs wc @ resumeEv wc"
      "woFailures out = evFailures evs" "t = wcEnv wc WarmStepHaltConsumption s"
  | (busy) "woKind out = WarmOutcomeAborted" "\<not> (wcHalter wc \<and> wcHalt wc \<noteq> None)" "evs = beforeInbox wc @ resumeEv wc"
      "woFailures out = evFailures evs" "t = wcEnv wc WarmStepHaltConsumption s"
  | (inbox) "woKind out = WarmOutcomeAborted" "\<not> (wcHalter wc \<and> wcHalt wc \<noteq> None)" "wcInbox wc \<noteq> Inr False"
      "evs = beforeInbox wc @ [EvInbox (wcInbox wc)] @ resumeEv wc @ [EvWake]"
      "woFailures out = evFailures evs" "t = wcEnv wc WarmStepInbox (wcEnv wc WarmStepHaltConsumption s)"
  | (gone) "woKind out = WarmOutcomeAbandoned" "\<not> (wcHalter wc \<and> wcHalt wc \<noteq> None)" "wcInbox wc = Inr False"
      "evs = beforeInbox wc @ [EvInbox (Inr False), EvStopAdmitting False] @ resumeEv wc" "woFailures out = evFailures evs"
  | (steps) u where "\<not> (wcHalter wc \<and> wcHalt wc \<noteq> None)" "wcConfirm wc \<noteq> Some False" "wcInbox wc = Inr False"
      "warmSteps wc (beforeInbox wc @ [EvInbox (Inr False), EvStopAdmitting True]) u = (out, evs, t)"
proof -
  let ?s = "wcEnv wc WarmStepHaltConsumption s"
  let ?v = "wcEnv wc WarmStepInbox ?s"
  note defs = warmRelease_def Let_def warmOutcome_def haltEvs_def beforeInbox_def failure_def opt_list_def
  show ?thesis
  proof (cases "wcHalter wc \<and> wcHalt wc \<noteq> None")
    case True
    with assms show ?thesis by (intro halt) (auto simp: defs)
  next
    case False
    note noHalt = False
    have h: "evFailures (haltEvs wc) = []" using False by (auto simp: haltEvs_def)
    show ?thesis
    proof (cases "wcConfirm wc = Some False")
      case True
      with assms False show ?thesis by (intro busy) (auto simp: defs)
    next
      case False
      note noConfirm = False
      show ?thesis
      proof (cases "wcInbox wc = Inr False")
        case True
        obtain ok u where u: "stopAdmittingStep wc ?v = (ok, u)" by fastforce
        show ?thesis
        proof (cases ok)
          case True
          with assms noHalt noConfirm u \<open>wcInbox wc = Inr False\<close> show ?thesis
            by (intro steps [of u]) (auto simp: warmRelease_def Let_def beforeInbox_def haltEvs_def)
        next
          case False
          with assms noHalt noConfirm u \<open>wcInbox wc = Inr False\<close> h show ?thesis
            by (intro gone) (auto simp: warmRelease_def Let_def warmOutcome_def beforeInbox_def haltEvs_def)
        qed
      next
        case False
        with assms noHalt noConfirm h show ?thesis
          by (intro inbox)
             (auto simp: warmRelease_def Let_def warmOutcome_def beforeInbox_def haltEvs_def split: sum.splits if_splits)
      qed
    qed
  qed
qed

lemma before_events: "EvStep st e \<notin> set (beforeInbox wc)" "EvStopAdmitting b \<notin> set (beforeInbox wc)"
    "EvCredit b \<notin> set (beforeInbox wc)" "EvInbox r \<notin> set (beforeInbox wc)"
    "EvStep st e \<notin> set (haltEvs wc)" "EvStopAdmitting b \<notin> set (haltEvs wc)" "EvCredit b \<notin> set (haltEvs wc)" "EvInbox r \<notin> set (haltEvs wc)"
    "EvStep st e \<notin> set (resumeEv wc)" "EvStopAdmitting b \<notin> set (resumeEv wc)" "EvCredit b \<notin> set (resumeEv wc)" "EvInbox r \<notin> set (resumeEv wc)"
    "wcHalter wc \<Longrightarrow> EvResume \<in> set (resumeEv wc)"
  by (auto simp: beforeInbox_def haltEvs_def resumeEv_def)

section \<open>Properties\<close>

text \<open>
  C16: a warm release gives back only what is safe to give back.  Whatever races it: the route, the
  lease, the charge and the workspace go only when the consumer was halted, the session confirmed
  idle, the durable inbox then read empty, admission stopped on the current residency and the
  runtime released, in that order; every other outcome touches none of them and resumes the
  consumption it halted; an aborted one stopped no admission and ran no step, wakes the consumer
  when the inbox was the reason, and alone leaves the state as it was; a release that was taken
  back leaves the session resident and admitting with its release latches open; and the outcome
  reports exactly the steps that failed.
\<close>

theorem warm_release_contract:
  assumes "warmRelease wc s = (out, evs, t)"
  shows "(woKind out = WarmOutcomeReleased \<longrightarrow> (wcHalter wc \<longrightarrow> wcHalt wc = None) \<and> wcConfirm wc \<noteq> Some False \<and>
       (\<exists>e1 e2 e5 e6 ok e8. evs = beforeInbox wc @ [EvInbox (Inr False), EvStopAdmitting True, EvStep WarmStepBeginRelease e1,
          EvStep WarmStepCheckpoint e2, EvStep WarmStepReleaseResidency None, EvStep WarmStepFinishRelease e5,
          EvStep WarmStepReleaseLease e6, EvCredit ok, EvStep WarmStepDropState e8])) \<and>
    (woKind out \<noteq> WarmOutcomeReleased \<longrightarrow> (wcHalter wc \<longrightarrow> EvResume \<in> set evs) \<and> (\<forall>ok. EvCredit ok \<notin> set evs) \<and>
       (\<forall>st e. EvStep st e \<in> set evs \<longrightarrow>
          st \<in> {WarmStepBeginRelease, WarmStepCheckpoint, WarmStepReleaseResidency, WarmStepAbortRelease})) \<and>
    (woKind out = WarmOutcomeAborted \<longrightarrow> (\<forall>b. EvStopAdmitting b \<notin> set evs) \<and> (\<forall>st e. EvStep st e \<notin> set evs) \<and>
       (\<forall>r. EvInbox r \<in> set evs \<longrightarrow> r \<noteq> Inr False \<and> EvWake \<in> set evs) \<and> ((\<forall>st u. wcEnv wc st u = u) \<longrightarrow> t = s)) \<and>
    (woKind out = WarmOutcomeResumed \<longrightarrow> \<not> rWorkDone (rsRes t) \<and> \<not> rBeginOnce (rsRes t) \<and> \<not> rCheckpointOnce (rsRes t) \<and>
       (\<exists>entry. Get (hbKey (rHeart (rsRes t))) (wReg (rsWorld t)) = Some entry \<and>
          eGeneration entry = hbGeneration (rHeart (rsRes t)) \<and> eState entry = StateResident \<and> eAccepting entry)) \<and>
    woFailures out = evFailures evs"
  using assms
proof (cases rule: warmRelease_cases)
  case (steps u)
  have nf: "evFailures (beforeInbox wc @ [EvInbox (Inr False), EvStopAdmitting True]) = []"
    using steps(1) by (auto simp: beforeInbox_def haltEvs_def)
  from steps(4) show ?thesis
  proof (cases rule: warmSteps_cases)
    case (released e1 e2 e5 e6 ok e8)
    then show ?thesis using steps(1,2) nf by (intro conjI impI) auto
  next
    case (resumed e1 e2 e3 an v)
    then show ?thesis using warmAbort_ok [OF resumed(2)] nf before_events by (intro conjI impI) auto
  next
    case (held e1 e2 e3 e4)
    then show ?thesis using nf before_events by (intro conjI impI) auto
  qed
qed (use before_events in auto)


definition example_calls :: WarmCalls where
  "example_calls = \<lparr> wcHalter = True, wcHalt = None, wcConfirm = Some True, wcInbox = AcceptedWork (Inr 4) (\<lambda>_. Inr ([] :: nat list)),
     wcEnv = (\<lambda>_ s. s), wcAnswers = (\<lambda>_. example_answers) \<rparr>"

lemma example_stop_admitting: "fst (stopAdmittingStep example_calls example_resident_state)"
  by (simp add: stopAdmittingStep_def example_calls_def example_resident_state_def example_world_def example_registry_def
      New_def reg_defs newEntry_def regRun.simps Let_def)

theorem warm_release_contract_witness:
  "\<exists>out evs t. warmRelease example_calls example_resident_state = (out, evs, t) \<and> woKind out = WarmOutcomeReleased \<and>
     EvStep WarmStepReleaseResidency None \<in> set evs \<and> woFailures out = evFailures evs"
proof -
  obtain u where u: "stopAdmittingStep example_calls example_resident_state = (True, u)"
    using example_stop_admitting by (metis prod.collapse)
  have rel: "fst (warmReleaseResidency example_answers v) = None" for v
    by (simp add: warmReleaseResidency_def residentReleaseResidency_def teardownRuntime_def example_answers_def)
  obtain out evs t where r: "warmRelease example_calls example_resident_state = (out, evs, t)" by (metis prod.exhaust)
  have "warmSteps example_calls (beforeInbox example_calls @ [EvInbox (Inr False), EvStopAdmitting True]) u = (out, evs, t)"
    using r u by (simp add: warmRelease_def Let_def example_calls_def AcceptedWork_def beforeInbox_def haltEvs_def)
  then have "woKind out = WarmOutcomeReleased"
    using rel by (auto simp: warmSteps_def warmGiveBack_def warmCall_def example_calls_def warmOutcome_def Let_def split_beta)
  with warm_release_contract [OF r] r show ?thesis by auto
qed

text \<open>
  Only a session that stayed idle is released.  Over any interleaving of watches, observations,
  ticks, losses and ends, a tick starts a release only if the session of its watch was last
  observed idle and since that observation was neither observed working or waiting at a gate,
  nor forgotten, nor stopped, nor released already; and a key has one watch that is its own.
\<close>

theorem release_only_when_idle:
  assumes "NewWarmReleaser p = Inr w0" "w = warmRun ops w0" "waiting i w" "fst (runTick i w)"
  shows "(\<exists>pre post. ops = pre @ WObserve (keyOf i w) WorkStateIdle # post \<and>
       (\<forall>x\<in>set post. x \<notin> {WForget (keyOf i w), WStop, WTick i} \<and>
          (\<forall>st. x = WObserve (keyOf i w) st \<longrightarrow> st = WorkStateIdle))) \<and>
    wrWatches w (keyOf i w) = Some i"
proof -
  have inv: "warm_inv w0" and empty: "wrAll w0 = []"
    using warm_inv_new [OF assms(1)] assms(1) by (auto simp: NewWarmReleaser_def split: if_splits)
  have armed: "armedWaiting i w" using assms(3,4) by (simp add: armedWaiting_def runTick_def split: if_splits)
  then obtain pre post where ops: "ops = pre @ WObserve (keyOf i w) WorkStateIdle # post"
    and post: "\<forall>x\<in>set post. \<not> disarms (keyOf i w) i x"
    using armed_run [OF inv empty, of i ops] assms(2) by blast
  have "x \<notin> {WForget (keyOf i w), WStop, WTick i} \<and> (\<forall>st. x = WObserve (keyOf i w) st \<longrightarrow> st = WorkStateIdle)"
    if "x \<in> set post" for x
    using post that by (cases x) force+
  moreover have "wrWatches w (keyOf i w) = Some i"
    using warm_inv_armed [OF warm_inv_run [OF inv, of ops], of i] armed assms(2)
    by (simp add: armedWaiting_def waiting_def keyOf_def)
  ultimately show ?thesis using ops by blast
qed

definition example_warm :: WarmReleaser where
  "example_warm = \<lparr> wrStopped = False, wrWatches = Map.empty, wrAll = [], wrReported = [] \<rparr>"

theorem release_only_when_idle_witness:
  "wrWatches (warmRun [WWatch (Key ''t'' ''a'') 1, WObserve (Key ''t'' ''a'') WorkStateIdle] example_warm) (Key ''t'' ''a'') = Some 0"
proof -
  let ?ops = "[WWatch (Key ''t'' ''a'') 1, WObserve (Key ''t'' ''a'') WorkStateIdle]"
  have new: "NewWarmReleaser \<lparr> wpClock = True, wpTTL = 1, wpRegistry = True, wpInbox = True, wpConsumption = True, wpAdmissions = True \<rparr>
      = Inr example_warm"
    by (simp add: NewWarmReleaser_def example_warm_def)
  have w: "waiting 0 (warmRun ?ops example_warm)" "fst (runTick 0 (warmRun ?ops example_warm))"
    "keyOf 0 (warmRun ?ops example_warm) = Key ''t'' ''a''"
    by (simp_all add: example_warm_def WatchSession_def ObserveWork_def updWatch_def waiting_def runTick_def keyOf_def)
  from release_only_when_idle [OF new refl w(1,2)] w(3) show ?thesis by simp
qed

section \<open>A late loss\<close>

text \<open>
  A loss of an earlier residency that arrives once its successor is watched drops the successor's
  watch: no observation arms it again and no tick ever releases it.
\<close>

lemma unwatched_stays:
  assumes "wrWatches w k = None" "\<forall>x\<in>set ops. \<forall>g. x \<noteq> WWatch k g"
  shows "wrWatches (warmRun ops w) k = None"
  using assms
proof (induction ops w rule: warmRun.induct)
  case (2 x xs w)
  have "wrWatches (warmExec x w) k = None"
    using "2.prems" by (cases x) (auto simp: WatchSession_def ForgetWatch_def ObserveWork_def StopReleaser_def runTick_def
        finishWatch_def releaseEnds_def updWatch_def map_del_def Let_def split: option.splits)
  with 2 show ?case by simp
qed simp

theorem late_loss_unwatches_successor:
  assumes "warm_inv w" "wrWatches w k = Some i" "wwGeneration (wrAll w ! i) \<noteq> lost"
    and "\<forall>x\<in>set ops. \<forall>g. x \<noteq> WWatch k g" "waiting i (warmRun ops (lateLoss k lost w))" "keyOf i (warmRun ops (lateLoss k lost w)) = k"
  shows "\<not> fst (runTick i (warmRun ops (lateLoss k lost w)))"
proof
  let ?w = "warmRun ops (lateLoss k lost w)"
  assume tick: "fst (runTick i ?w)"
  have "lateLoss k lost w = warmExec (WForget k) w" by (simp add: lateLoss_def)
  then have inv: "warm_inv ?w" using warm_inv_run warm_inv_step [OF assms(1), of "WForget k"] by simp
  have "wrWatches (lateLoss k lost w) k = None" using assms(2) by (simp add: lateLoss_def ForgetWatch_def updWatch_def)
  then have "wrWatches ?w k = None" by (rule unwatched_stays) (rule assms(4))
  then show False
    using warm_inv_armed [OF inv, of i] assms(5,6) tick by (auto simp: waiting_def keyOf_def runTick_def split: if_splits)
qed

end
