(* ===== verification/Drain.thy ===== *)
theory Drain
  imports Resident HostLink
begin

text \<open>
  The drain, \<^verbatim>\<open>internal/lifecycle/drain.go\<close>, with the calls of \<^verbatim>\<open>internal/compose/compose.go\<close> that begin
  and settle it: how a drain is begun once and announced before it is acknowledged, how each
  resident session is given back on the composition's own resident (theory \<open>Resident\<close>), and
  when the Host may say \<open>drained\<close>.

  Every bound of the drain is a timer in a race: a bounded call is answered in time, after its
  bound, or not at all, and which of the three happens is arbitrary.  The sessions are released
  concurrently; each on its own state, before every step of which anything else may act.
\<close>

section \<open>Failures and bounds\<close>

datatype DrainStep =
    StepHaltConsumption | StepBeginRelease | StepWaitIdle | StepCheckpoint | StepReleaseResidency | StepFinishRelease
  | StepAbandonResidency | StepSettleAttaches | StepUnreleased | StepCloseLink

record Failure =
  flKey :: Key
  flStep :: DrainStep
  flError :: GoErr
  flEpoch :: u64

definition ErrIdleBoundary :: GoErr where "ErrIdleBoundary = GoPlain ''idle boundary''"

definition ErrWaitAbandoned :: GoErr where "ErrWaitAbandoned = GoPlain ''wait abandoned''"

definition ErrPublishBound :: GoErr where "ErrPublishBound = GoPlain ''publish bound''"

definition ErrNotAbandonable :: GoErr where "ErrNotAbandonable = GoPlain ''not abandonable''"

definition DeadlineExceeded :: GoErr where "DeadlineExceeded = GoPlain ''deadline exceeded''"

definition Canceled :: GoErr where "Canceled = GoPlain ''canceled''"

text \<open>\<^verbatim>\<open>errors.Is\<close> against one of these values.\<close>

definition isErr :: "GoErr \<Rightarrow> GoErr \<Rightarrow> bool" where
  "isErr err target = (target \<in> set (flatten err))"

text \<open>How the race between a call and its bound went.\<close>

datatype Race = InTime | AfterBound | NoAnswer

definition bounded :: "Race \<Rightarrow> GoErr option \<Rightarrow> GoErr option" where
  "bounded race err =
     (case race of
        InTime \<Rightarrow> err
      | AfterBound \<Rightarrow> Some (GoJoin [ErrIdleBoundary, case err of None \<Rightarrow> DeadlineExceeded | Some e \<Rightarrow> e])
      | NoAnswer \<Rightarrow> Some (GoJoin [ErrIdleBoundary, ErrWaitAbandoned]))"

definition abandonAnswer :: "Race \<Rightarrow> GoErr option \<Rightarrow> GoErr option" where
  "abandonAnswer race err =
     (case race of
        InTime \<Rightarrow> err
      | AfterBound \<Rightarrow> Some (GoJoin [ErrIdleBoundary, case err of None \<Rightarrow> Canceled | Some e \<Rightarrow> e])
      | NoAnswer \<Rightarrow> Some (GoJoin [ErrIdleBoundary, ErrWaitAbandoned]))"

section \<open>Options\<close>

record DrainOptions =
  dnGeneration :: u64
  dnClock :: bool
  dnAdmissions :: bool
  dnAdvertiser :: bool
  dnResidents :: bool
  dnGrace :: int
  dnIdleBoundary :: int
  dnPublishBound :: int

record Drainer =
  drOptions :: DrainOptions
  drBegun :: bool
  drState :: DrainState
  drFailures :: "Failure list"
  drAbandoned :: "Key list"
  drParked :: "Key list"
  drBegunScope :: Key
  drLedgerStopped :: bool
  drStarting :: bool
  drStartErr :: "GoErr option"

definition NewDrainer :: "DrainOptions \<Rightarrow> string + Drainer" where
  "NewDrainer p =
     (if dnGeneration p = 0 then Inl ''Generation''
      else if \<not> dnClock p then Inl ''Clock''
      else if \<not> dnAdmissions p then Inl ''Admissions''
      else if \<not> dnAdvertiser p then Inl ''Advertiser''
      else if \<not> dnResidents p then Inl ''Residents''
      else if dnGrace p \<le> 0 then Inl ''Grace''
      else if dnIdleBoundary p \<le> 0 then Inl ''IdleBoundary''
      else if dnIdleBoundary p > dnGrace p then Inl ''IdleBoundary''
      else if dnPublishBound p \<le> 0 then Inl ''PublishBound''
      else if dnPublishBound p > dnGrace p then Inl ''PublishBound''
      else Inr \<lparr> drOptions = p, drBegun = False, drState = DrainDraining, drFailures = [], drAbandoned = [], drParked = [],
             drBegunScope = noKey, drLedgerStopped = False, drStarting = False, drStartErr = None \<rparr>)"

text \<open>When the settling of attaches stops being patient.\<close>

definition cancelAt :: "DrainOptions \<Rightarrow> int" where
  "cancelAt p =
     (let c = dnGrace p - dnIdleBoundary p; lowest = dnGrace p div 2 in if c < lowest then lowest else c)"

section \<open>One session\<close>

text \<open>
  What the release of one session meets: the attaches of the session, the bounded calls, and per
  step the environment and the answers.  A session that was rolled back has ended.
\<close>

record DrainCalls =
  dcAttaches :: bool
  dcSettle :: "GoErr option"
  dcHaltRace :: Race
  dcIdleRace :: Race
  dcAbandonRace :: Race
  dcEpoch :: u64
  dcEnv :: "DrainStep \<Rightarrow> RelState \<Rightarrow> RelState"
  dcAnswers :: "DrainStep \<Rightarrow> RelAnswers"

record SessionDrain =
  sdFailures :: "Failure list"
  sdAbandoned :: "Key list"
  sdParked :: "Key list"
  sdFinished :: bool
  sdState :: RelState

definition drainFailed :: "Key \<Rightarrow> u64 \<Rightarrow> DrainStep \<Rightarrow> GoErr option \<Rightarrow> Failure list" where
  "drainFailed key epoch step err =
     map (\<lambda>e. \<lparr> flKey = key, flStep = step, flError = e, flEpoch = epoch \<rparr>) (opt_list err)"

definition drainCall ::
  "DrainCalls \<Rightarrow> DrainStep \<Rightarrow> (RelAnswers \<Rightarrow> RelState \<Rightarrow> GoErr option \<times> RelState) \<Rightarrow> RelState \<Rightarrow> GoErr option \<times> RelState" where
  "drainCall dc step action s = action (dcAnswers dc step) (dcEnv dc step s)"

text \<open>The crash-equivalent release after a refused one: what it books, what it records.\<close>

definition AbandonResidency :: "RelAnswers \<Rightarrow> RelState \<Rightarrow> GoErr option \<times> RelState" where
  "AbandonResidency an s = (if \<not> anAbandonable an then (Some ErrNotAbandonable, s) else teardownRuntime an s)"

definition drainAbandon ::
  "DrainCalls \<Rightarrow> Key \<Rightarrow> RelState \<Rightarrow> Failure list \<times> Key list \<times> Key list \<times> RelState" where
  "drainAbandon dc key s =
     (let v = dcEnv dc StepAbandonResidency s in
      case AbandonResidency (dcAnswers dc StepAbandonResidency) v of
        (called, w) \<Rightarrow>
          (let s' = (if dcAbandonRace dc = NoAnswer then v else w) in
           case abandonAnswer (dcAbandonRace dc) called of
             None \<Rightarrow> ([], [key], [], s')
           | Some e \<Rightarrow>
               if isErr e ErrNotAbandonable then ([], [], [key], s')
               else (drainFailed key (dcEpoch dc) StepAbandonResidency (Some e), [], [key], s')))"

text \<open>Drain the runtime of the session, and if it refuses, park or abandon it.\<close>

definition drainRuntime ::
  "DrainCalls \<Rightarrow> Key \<Rightarrow> RelState \<Rightarrow> Failure list \<times> Key list \<times> Key list \<times> RelState" where
  "drainRuntime dc key s =
     (case drainCall dc StepReleaseResidency residentReleaseResidency s of
        (None, s') \<Rightarrow> ([], [], [], s')
      | (Some e, s') \<Rightarrow>
          (let failed = drainFailed key (dcEpoch dc) StepReleaseResidency (Some e) in
           if isErr e GoStillHeld then (failed, [], [key], s')
           else (case drainAbandon dc key s' of (fs, ab, pk, s'') \<Rightarrow> (failed @ fs, ab, pk, s''))))"

definition drainSession :: "DrainCalls \<Rightarrow> RelState \<Rightarrow> SessionDrain" where
  "drainSession dc s =
     (let key = rKey (rsRes s); failed = drainFailed key (dcEpoch dc); v = dcEnv dc StepSettleAttaches s in
      if dcAttaches dc \<and> dcSettle dc \<noteq> None
      then \<lparr> sdFailures = failed StepSettleAttaches (Some (GoJoin (ErrWaitAbandoned # opt_list (dcSettle dc)))),
             sdAbandoned = [], sdParked = [], sdFinished = False, sdState = v \<rparr>
      else if Ended v
      then \<lparr> sdFailures = [], sdAbandoned = [], sdParked = [], sdFinished = False, sdState = v \<rparr>
      else
        (let s1 = dcEnv dc StepHaltConsumption v;
             e1 = bounded (dcHaltRace dc) (anHalt (dcAnswers dc StepHaltConsumption)) in
         case drainCall dc StepBeginRelease residentBeginRelease s1 of (e2, s2) \<Rightarrow>
         let s3 = dcEnv dc StepWaitIdle s2;
             e3 = bounded (dcIdleRace dc) (anWaitIdle (dcAnswers dc StepWaitIdle)) in
         case drainCall dc StepCheckpoint residentCheckpoint s3 of (e4, s4) \<Rightarrow>
         case drainRuntime dc key s4 of (fs5, ab, pk, s5) \<Rightarrow>
         case drainCall dc StepFinishRelease drainEnd s5 of (e6, s6) \<Rightarrow>
           \<lparr> sdFailures = failed StepHaltConsumption e1 @ failed StepBeginRelease e2 @ failed StepWaitIdle e3 @
               failed StepCheckpoint e4 @ fs5 @ failed StepFinishRelease e6,
             sdAbandoned = ab, sdParked = pk, sdFinished = True, sdState = s6 \<rparr>))"

section \<open>The whole drain\<close>

text \<open>The two waits of the settling of attaches, the patient one and the one of the grace.\<close>

definition settleAttaches :: "GoErr option \<Rightarrow> GoErr option \<Rightarrow> bool \<times> Failure list" where
  "settleAttaches patient graceful =
     (if patient = None then (False, [])
      else (True, drainFailed noKey 0 StepSettleAttaches
              (case graceful of None \<Rightarrow> None | Some e \<Rightarrow> Some (GoJoin [ErrWaitAbandoned, e]))))"

definition settledState :: "Failure list \<Rightarrow> DrainState" where
  "settledState failures =
     (if \<exists>f\<in>set failures. flStep f \<in> {StepFinishRelease, StepSettleAttaches, StepUnreleased} \<or> isErr (flError f) GoStillHeld
      then DrainDraining else DrainDrained)"

text \<open>
  The run over the sessions that were resident when the drain began.  The goroutines append their
  failures in any order: \<open>order\<close> is that interleaving.
\<close>

definition drainRun ::
  "(Failure list \<Rightarrow> Failure list) \<Rightarrow> bool \<Rightarrow> GoErr option \<Rightarrow> GoErr option \<Rightarrow> (DrainCalls \<times> RelState) list \<Rightarrow>
   GoErr list \<Rightarrow> Drainer \<Rightarrow> Drainer" where
  "drainRun order attaches patient graceful sessions unreleased d =
     (let results = map (\<lambda>(dc, s). drainSession dc s) sessions;
          settling = (if attaches then snd (settleAttaches patient graceful) else []);
          failures = order (settling @ concat (map sdFailures results)) @
             drainFailed noKey 0 StepUnreleased (joinErr unreleased) in
      d\<lparr> drFailures := drFailures d @ failures, drAbandoned := drAbandoned d @ concat (map sdAbandoned results),
         drParked := drParked d @ concat (map sdParked results), drState := settledState (drFailures d @ failures) \<rparr>)"


section \<open>Beginning a drain\<close>

definition drainStatus :: "Drainer \<Rightarrow> DrainStatus" where
  "drainStatus d = \<lparr> dsGeneration = dnGeneration (drOptions d), dsState = drState d \<rparr>"

definition ObserveDrain :: "Drainer \<Rightarrow> DrainStatus option" where
  "ObserveDrain d = (if \<not> drBegun d then None else Some (drainStatus d))"

definition BegunScope :: "Drainer \<Rightarrow> Key option" where
  "BegunScope d = (if \<not> drBegun d \<or> drBegunScope d = noKey then None else Some (drBegunScope d))"

text \<open>What a caller of \<^verbatim>\<open>StartDrain\<close> is told; \<open>ToldNothing\<close> is a nil error without a status.\<close>

datatype StartResult = Told DrainStatus | StartFailed GoErr | ToldNothing

text \<open>The first critical section: an answer, a wait for the start in flight, or the start itself.\<close>

datatype StartEntry = EnterTold StartResult | EnterWait | EnterStart

definition startEnter :: "Drainer \<times> CapacityPublisher \<Rightarrow> StartEntry \<times> Drainer \<times> CapacityPublisher" where
  "startEnter dp =
     (case dp of (d, p) \<Rightarrow>
        if drBegun d then (EnterTold (Told (drainStatus d)), d, p)
        else if drStarting d then (EnterWait, d, p)
        else (EnterStart, d\<lparr> drLedgerStopped := True, drStarting := True \<rparr>,
              if drLedgerStopped d then p else BeginDrain p))"

text \<open>The publication against its bound, and the second critical section with its answer.\<close>

definition publishDrain :: "Race \<Rightarrow> GoErr option \<Rightarrow> GoErr option" where
  "publishDrain race err = (if race = InTime then err else Some ErrPublishBound)"

definition startPublished :: "GoErr option \<Rightarrow> Key \<Rightarrow> Drainer \<Rightarrow> StartResult \<times> Drainer" where
  "startPublished err scope d =
     (let d1 = d\<lparr> drStarting := False, drStartErr := err \<rparr> in
      case err of
        Some e \<Rightarrow> (StartFailed e, d1)
      | None \<Rightarrow> (let d2 = d1\<lparr> drBegun := True, drBegunScope := scope \<rparr> in (Told (drainStatus d2), d2)))"

definition waiterReads :: "Drainer \<Rightarrow> StartResult" where
  "waiterReads d =
     (if drBegun d then Told (drainStatus d)
      else (case drStartErr d of Some e \<Rightarrow> StartFailed e | None \<Rightarrow> ToldNothing))"

text \<open>The composition's guard before the drainer: a service that is disposed, starting or not started.\<close>

record ServiceFlags =
  sfDisposed :: bool
  sfStarting :: bool
  sfStarted :: bool
  sfDraining :: bool

datatype ServiceRefusal = ErrServiceDisposed | ErrServiceActive | ErrServiceNotStarted

definition serviceStartDrain :: "ServiceFlags \<Rightarrow> ServiceRefusal option \<times> ServiceFlags" where
  "serviceStartDrain f =
     (if sfDisposed f then (Some ErrServiceDisposed, f)
      else if sfStarting f then (Some ErrServiceActive, f)
      else if \<not> sfStarted f then (Some ErrServiceNotStarted, f)
      else (None, f\<lparr> sfDraining := True \<rparr>))"

section \<open>The interleaving of callers\<close>

text \<open>
  The start in flight, numbered, and the callers waiting for one; what was told; and how often the
  ledger was flipped, a publication succeeded and the run was started.
\<close>

record DrainSys =
  syDrainer :: Drainer
  syLedger :: CapacityPublisher
  syAttempts :: nat
  syPublishing :: "Key option"
  syWaiting :: "nat list"
  syTold :: "StartResult list"
  syFlips :: nat
  syPublished :: nat
  syRuns :: nat
  syRunning :: bool

definition newDrainSys :: "Drainer \<Rightarrow> CapacityPublisher \<Rightarrow> DrainSys" where
  "newDrainSys d p = \<lparr> syDrainer = d, syLedger = p, syAttempts = 0, syPublishing = None, syWaiting = [], syTold = [], syFlips = 0,
     syPublished = 0, syRuns = 0, syRunning = False \<rparr>"

text \<open>An attempt is over once it is not the one in flight.\<close>

definition attemptOver :: "DrainSys \<Rightarrow> nat \<Rightarrow> bool" where
  "attemptOver y k \<longleftrightarrow> k < syAttempts y \<or> (k = syAttempts y \<and> syPublishing y = None)"

inductive drainStep :: "DrainSys \<Rightarrow> DrainSys \<Rightarrow> bool" where
  callTold: "startEnter (syDrainer y, syLedger y) = (EnterTold r, d, p) \<Longrightarrow>
    drainStep y (y\<lparr> syTold := syTold y @ [r] \<rparr>)"
| callWait: "startEnter (syDrainer y, syLedger y) = (EnterWait, d, p) \<Longrightarrow>
    drainStep y (y\<lparr> syWaiting := syWaiting y @ [syAttempts y] \<rparr>)"
| callStart: "startEnter (syDrainer y, syLedger y) = (EnterStart, d, p) \<Longrightarrow>
    drainStep y (y\<lparr> syDrainer := d, syLedger := p, syAttempts := Suc (syAttempts y), syPublishing := Some scope,
      syFlips := syFlips y + (if drLedgerStopped (syDrainer y) then 0 else 1) \<rparr>)"
| publish: "syPublishing y = Some scope \<Longrightarrow> startPublished (publishDrain race err) scope (syDrainer y) = (r, d) \<Longrightarrow>
    drainStep y (y\<lparr> syDrainer := d, syPublishing := None, syTold := syTold y @ [r],
      syPublished := syPublished y + (if publishDrain race err = None then 1 else 0),
      syRuns := syRuns y + (if publishDrain race err = None then 1 else 0),
      syRunning := (syRunning y \<or> publishDrain race err = None) \<rparr>)"
| wakeWaiter: "k \<in> set (syWaiting y) \<Longrightarrow> attemptOver y k \<Longrightarrow>
    drainStep y (y\<lparr> syWaiting := remove1 k (syWaiting y), syTold := syTold y @ [waiterReads (syDrainer y)] \<rparr>)"
| runEnds: "syRunning y \<Longrightarrow>
    drainStep y (y\<lparr> syRunning := False,
      syDrainer := drainRun order attaches patient graceful sessions unreleased (syDrainer y) \<rparr>)"

inductive_cases drainStepE: "drainStep y y'"

fun toldTruth :: "Drainer \<Rightarrow> StartResult \<Rightarrow> bool" where
  "toldTruth d (Told st) = (drBegun d \<and> dsGeneration st = dnGeneration (drOptions d))"
| "toldTruth d (StartFailed e) = True"
| "toldTruth d ToldNothing = False"

definition drain_inv :: "u64 \<Rightarrow> DrainSys \<Rightarrow> bool" where
  "drain_inv gen y \<longleftrightarrow>
     dnGeneration (drOptions (syDrainer y)) = gen \<and>
     (drStarting (syDrainer y) \<longleftrightarrow> syPublishing y \<noteq> None) \<and> (drStarting (syDrainer y) \<longrightarrow> \<not> drBegun (syDrainer y)) \<and>
     syFlips y = (if drLedgerStopped (syDrainer y) then 1 else 0) \<and>
     (drLedgerStopped (syDrainer y) \<longrightarrow> Draining (syLedger y)) \<and>
     (syAttempts y > 0 \<longrightarrow> drLedgerStopped (syDrainer y)) \<and>
     (drBegun (syDrainer y) \<longrightarrow> syAttempts y > 0) \<and> (syPublishing y \<noteq> None \<longrightarrow> syAttempts y > 0) \<and>
     (\<forall>k. 0 < k \<and> attemptOver y k \<longrightarrow> drBegun (syDrainer y) \<or> drStartErr (syDrainer y) \<noteq> None) \<and>
     (\<forall>k\<in>set (syWaiting y). 0 < k) \<and>
     syPublished y = (if drBegun (syDrainer y) then 1 else 0) \<and> syRuns y = syPublished y \<and>
     (syRunning y \<longrightarrow> drBegun (syDrainer y)) \<and> (drState (syDrainer y) = DrainDrained \<longrightarrow> drBegun (syDrainer y)) \<and>
     (syRunning y \<longrightarrow> drState (syDrainer y) = DrainDraining) \<and>
     (\<forall>r\<in>set (syTold y). toldTruth (syDrainer y) r)"

lemma drainRun_frame [simp]:
  "drOptions (drainRun o' a pt gr ss un d) = drOptions d" "drBegun (drainRun o' a pt gr ss un d) = drBegun d"
  "drStarting (drainRun o' a pt gr ss un d) = drStarting d" "drLedgerStopped (drainRun o' a pt gr ss un d) = drLedgerStopped d"
  "drStartErr (drainRun o' a pt gr ss un d) = drStartErr d" "drBegunScope (drainRun o' a pt gr ss un d) = drBegunScope d"
  by (simp_all add: drainRun_def Let_def)

lemma drain_inv_step:
  assumes "drainStep y y'" "drain_inv gen y"
  shows "drain_inv gen y'"
  using assms(1)
proof cases
  case (callTold r d p)
  then have "toldTruth (syDrainer y) r" by (auto simp: startEnter_def drainStatus_def split: if_splits)
  with callTold(1) assms(2) show ?thesis by (simp add: drain_inv_def attemptOver_def)
next
  case (callWait d p)
  then have "0 < syAttempts y" using assms(2) by (auto simp: startEnter_def drain_inv_def split: if_splits)
  with callWait(1) assms(2) show ?thesis by (simp add: drain_inv_def attemptOver_def)
next
  case (callStart d p scope)
  then have d: "d = (syDrainer y)\<lparr> drLedgerStopped := True, drStarting := True \<rparr>" "\<not> drBegun (syDrainer y)"
    "\<not> drStarting (syDrainer y)" and p: "Draining p"
    using assms(2) by (auto simp: startEnter_def drain_inv_def BeginDrain_def Draining_def split: if_splits)
  have told: "toldTruth d r = toldTruth (syDrainer y) r" for r by (cases r) (simp_all add: d)
  have "k < Suc (syAttempts y) \<Longrightarrow> 0 < k \<Longrightarrow> attemptOver y k" for k
    using assms(2) d(3) by (auto simp: attemptOver_def drain_inv_def less_Suc_eq)
  with callStart(1) d p told assms(2) show ?thesis by (auto simp: drain_inv_def attemptOver_def)
next
  case (publish scope race err r d)
  let ?e = "publishDrain race err"
  have nb: "\<not> drBegun (syDrainer y)" using publish assms(2) by (auto simp: drain_inv_def)
  have d: "d = (if ?e = None then (syDrainer y)\<lparr> drStarting := False, drStartErr := ?e, drBegun := True, drBegunScope := scope \<rparr>
      else (syDrainer y)\<lparr> drStarting := False, drStartErr := ?e \<rparr>)" and r: "toldTruth d r"
    using publish(3) by (auto simp: startPublished_def Let_def drainStatus_def split: option.splits)
  have told: "toldTruth (syDrainer y) r' \<Longrightarrow> toldTruth d r'" for r' by (cases r') (simp_all add: d nb)
  have "drState (syDrainer y) = DrainDraining"
    using nb assms(2) by (cases "drState (syDrainer y)") (auto simp: drain_inv_def)
  then show ?thesis
    using publish(1,2) nb told r assms(2) by (cases "?e = None") (auto simp: drain_inv_def attemptOver_def d)
next
  case (wakeWaiter k)
  then have "0 < k" using assms(2) by (auto simp: drain_inv_def)
  then have "toldTruth (syDrainer y) (waiterReads (syDrainer y))"
    using wakeWaiter assms(2) by (auto simp: drain_inv_def waiterReads_def drainStatus_def split: option.split)
  with wakeWaiter(1) assms(2) set_remove1_subset [of k "syWaiting y"] show ?thesis
    by (auto simp: drain_inv_def attemptOver_def)
next
  case (runEnds order attaches patient graceful sessions unreleased)
  have told: "toldTruth (drainRun order attaches patient graceful sessions unreleased (syDrainer y)) r = toldTruth (syDrainer y) r" for r
    by (cases r) simp_all
  have "syPublishing y = None" using runEnds(2) assms(2) by (auto simp: drain_inv_def)
  with runEnds assms(2) told show ?thesis by (simp add: drain_inv_def attemptOver_def)
qed


lemma drain_inv_new: "NewDrainer opts = Inr d \<Longrightarrow> drain_inv (dnGeneration opts) (newDrainSys d p)"
  by (auto simp: NewDrainer_def newDrainSys_def drain_inv_def attemptOver_def split: if_splits)

lemma drain_inv_reachable:
  "drainStep\<^sup>*\<^sup>* y y' \<Longrightarrow> drain_inv gen y \<Longrightarrow> drain_inv gen y'"
  by (induction rule: rtranclp_induct) (auto intro: drain_inv_step)

section \<open>What drained means\<close>

lemma settledState_drained:
  "settledState fs = DrainDrained \<longleftrightarrow>
     (\<forall>f\<in>set fs. flStep f \<notin> {StepFinishRelease, StepSettleAttaches, StepUnreleased} \<and> \<not> isErr (flError f) GoStillHeld)"
  by (auto simp: settledState_def)

lemma drainFailed_set:
  "f \<in> set (drainFailed key epoch step err) \<longleftrightarrow> (\<exists>e. err = Some e \<and> f = \<lparr> flKey = key, flStep = step, flError = e, flEpoch = epoch \<rparr>)"
  by (auto simp: drainFailed_def opt_list_def split: option.splits)

lemma drainFailed_Nil: "drainFailed key epoch step err = [] \<longleftrightarrow> err = None"
  by (simp add: drainFailed_def opt_list_def split: option.split)

lemma endResidency_latches [simp]:
  "rLeaseRelease (rsRes (endResidency s)) = rLeaseRelease (rsRes s)" "rStateDrop (rsRes (endResidency s)) = rStateDrop (rsRes s)"
  "rOwnershipStop (rsRes (endResidency s)) = rOwnershipStop (rsRes s)"
  by (simp_all add: endResidency_def)

text \<open>The outcome of a step that is nil, or nothing but a grant this Host had already lost.\<close>

definition clean :: "GoErr option \<Rightarrow> bool" where
  "clean err \<longleftrightarrow> (\<forall>e. err = Some e \<longrightarrow> (\<forall>part\<in>set (flatten e). lostGrant part))"

definition givenBack :: "RelState \<Rightarrow> bool" where
  "givenBack s \<longleftrightarrow> (\<exists>e. rLeaseRelease (rsRes s) = Some e \<and> clean e) \<and> (\<exists>e. rStateDrop (rsRes s) = Some e \<and> clean e) \<and>
     rOwnershipStop (rsRes s) \<noteq> None"

text \<open>A session whose drain reported nothing that withholds \<open>drained\<close>.\<close>

lemma drainSession_clean:
  assumes "settledState (sdFailures (drainSession dc s)) = DrainDrained"
  shows "(dcAttaches dc \<longrightarrow> dcSettle dc = None) \<and>
    (if Ended (dcEnv dc StepSettleAttaches s) then \<not> sdFinished (drainSession dc s) \<and> sdFailures (drainSession dc s) = []
     else sdFinished (drainSession dc s) \<and> givenBack (sdState (drainSession dc s)) \<and>
       (\<forall>f\<in>set (sdFailures (drainSession dc s)). \<not> isErr (flError f) GoStillHeld))"
proof -
  let ?key = "rKey (rsRes s)" and ?v = "dcEnv dc StepSettleAttaches s"
  have settled: "dcAttaches dc \<longrightarrow> dcSettle dc = None"
    using assms by (auto simp: drainSession_def Let_def settledState_drained drainFailed_set split: if_splits)
  show ?thesis
  proof (cases "Ended ?v")
    case True
    with settled show ?thesis by (auto simp: drainSession_def Let_def)
  next
    case False
    let ?s1 = "dcEnv dc StepHaltConsumption ?v"
    obtain e2 s2 where 2: "drainCall dc StepBeginRelease residentBeginRelease ?s1 = (e2, s2)" by fastforce
    obtain e4 s4 where 4: "drainCall dc StepCheckpoint residentCheckpoint (dcEnv dc StepWaitIdle s2) = (e4, s4)" by fastforce
    obtain fs ab pk s5 where 5: "drainRuntime dc ?key s4 = (fs, ab, pk, s5)" by (metis prod.exhaust)
    obtain e6 s6 where 6: "drainCall dc StepFinishRelease drainEnd s5 = (e6, s6)" by fastforce
    have r: "sdFinished (drainSession dc s)" "sdState (drainSession dc s) = s6"
      "set (drainFailed ?key (dcEpoch dc) StepFinishRelease e6) \<subseteq> set (sdFailures (drainSession dc s))"
      using settled False 2 4 5 6 by (auto simp: drainSession_def Let_def)
    have all: "\<forall>f\<in>set (sdFailures (drainSession dc s)). flStep f \<noteq> StepFinishRelease \<and> \<not> isErr (flError f) GoStillHeld"
      using assms unfolding settledState_drained by blast
    have "e6 = None"
    proof (rule ccontr)
      assume "e6 \<noteq> None"
      then obtain e where "\<lparr> flKey = ?key, flStep = StepFinishRelease, flError = e, flEpoch = dcEpoch dc \<rparr>
          \<in> set (drainFailed ?key (dcEpoch dc) StepFinishRelease e6)"
        by (auto simp: drainFailed_set)
      with r(3) all show False by force
    qed
    then obtain u where u: "drainFinishRelease (dcAnswers dc StepFinishRelease) (dcEnv dc StepFinishRelease s5) = (None, u)"
      "s6 = endResidency u"
      using 6 by (auto simp: drainCall_def drainEnd_def split: prod.splits)
    note nil = drainFinish_nil [OF u(1)]
    have "givenBack s6"
      using nil(1) nil(2-4) unfolding u(2) givenBack_def clean_def by auto
    with settled False r all show ?thesis by simp
  qed
qed

lemma settledState_subset:
  "set fs \<subseteq> set gs \<Longrightarrow> settledState gs = DrainDrained \<Longrightarrow> settledState fs = DrainDrained"
  unfolding settledState_drained by blast


section \<open>Properties\<close>

text \<open>
  C7: \<open>drained\<close> is only said when everything was given back.  Whatever the races, the answers, the
  order of the failures and whatever else acts meanwhile: if the drain settles as drained, no
  release by another path left anything held, every attach admitted before the drain was settled,
  and every session that was resident when the drain began either had already been rolled back or
  was finished with its heartbeat stopped and its lease and workspace given back, each without an
  error but for a grant that was already lost, and no runtime reported that it kept its lease.
\<close>

theorem drained_means_given_back:
  assumes "drState (drainRun order attaches patient graceful sessions unreleased d) = DrainDrained"
    and "\<And>xs. mset (order xs) = mset xs"
  shows "unreleased = [] \<and> (attaches \<longrightarrow> patient = None \<or> graceful = None) \<and>
    (\<forall>(dc, s)\<in>set sessions. (dcAttaches dc \<longrightarrow> dcSettle dc = None) \<and>
       (Ended (dcEnv dc StepSettleAttaches s) \<or>
        (givenBack (sdState (drainSession dc s)) \<and>
         (\<forall>f\<in>set (sdFailures (drainSession dc s)). \<not> isErr (flError f) GoStillHeld))))"
proof -
  let ?settling = "if attaches then snd (settleAttaches patient graceful) else []"
  let ?fs = "?settling @ concat (map sdFailures (map (\<lambda>(dc, s). drainSession dc s) sessions))"
  let ?un = "drainFailed noKey 0 StepUnreleased (joinErr unreleased)"
  have "set (order ?fs) = set ?fs" using mset_eq_setD [OF assms(2)] .
  moreover have ok: "settledState (drFailures d @ order ?fs @ ?un) = DrainDrained"
    using assms(1) by (simp add: drainRun_def Let_def)
  ultimately have ok: "settledState gs = DrainDrained" if "set gs \<subseteq> set ?fs \<union> set ?un" for gs
    using that by (intro settledState_subset [OF _ ok]) auto
  have "settledState ?un = DrainDrained" by (rule ok) simp
  then have "unreleased = []"
    by (auto simp: settledState_drained drainFailed_set joinErr_def split: if_splits)
  moreover have "settledState ?settling = DrainDrained" by (rule ok) auto
  then have "attaches \<longrightarrow> patient = None \<or> graceful = None"
    by (auto simp: settleAttaches_def settledState_drained drainFailed_set split: if_splits option.splits)
  moreover have "(dcAttaches dc \<longrightarrow> dcSettle dc = None) \<and> (Ended (dcEnv dc StepSettleAttaches s) \<or>
        (givenBack (sdState (drainSession dc s)) \<and>
         (\<forall>f\<in>set (sdFailures (drainSession dc s)). \<not> isErr (flError f) GoStillHeld)))"
    if "(dc, s) \<in> set sessions" for dc s
  proof -
    have "settledState (sdFailures (drainSession dc s)) = DrainDrained" by (rule ok) (use that in auto)
    from drainSession_clean [OF this] show ?thesis by (auto split: if_splits)
  qed
  ultimately show ?thesis by auto
qed

definition example_drain_calls :: DrainCalls where
  "example_drain_calls = \<lparr> dcAttaches = True, dcSettle = None, dcHaltRace = InTime, dcIdleRace = AfterBound, dcAbandonRace = InTime,
     dcEpoch = 7, dcEnv = (\<lambda>_ s. s), dcAnswers = (\<lambda>_. example_answers\<lparr> anLease := None \<rparr>) \<rparr>"

definition example_drain_options :: DrainOptions where
  "example_drain_options = \<lparr> dnGeneration = 3, dnClock = True, dnAdmissions = True, dnAdvertiser = True, dnResidents = True,
     dnGrace = 30, dnIdleBoundary = 10, dnPublishBound = 5 \<rparr>"

definition example_drainer :: Drainer where
  "example_drainer = \<lparr> drOptions = example_drain_options, drBegun = False, drState = DrainDraining, drFailures = [], drAbandoned = [],
     drParked = [], drBegunScope = noKey, drLedgerStopped = False, drStarting = False, drStartErr = None \<rparr>"

lemma example_NewDrainer: "NewDrainer example_drain_options = Inr example_drainer"
  by (simp add: NewDrainer_def example_drain_options_def example_drainer_def)

text \<open>A session whose route another path has already closed; its idle wait runs into its bound.\<close>

definition example_draining_state :: RelState where
  "example_draining_state =
     example_resident_state\<lparr> rsRes := (rsRes example_resident_state)\<lparr> rBeginOnce := True, rFinishOnce := True \<rparr> \<rparr>"

lemma example_drain_failures:
  "sdFailures (drainSession example_drain_calls example_draining_state) =
     [\<lparr> flKey = Key ''t'' ''a'', flStep = StepWaitIdle, flError = GoJoin [ErrIdleBoundary, DeadlineExceeded], flEpoch = 7 \<rparr>]"
  by (simp add: drainSession_def Let_def example_drain_calls_def example_draining_state_def example_resident_state_def Ended_def
      bounded_def drainFailed_def opt_list_def drainCall_def residentBeginRelease_def residentCheckpoint_def onceOnSuccess_def
      example_answers_def drainRuntime_def residentReleaseResidency_def stopWork_def teardownRuntime_def drainEnd_def
      drainFinishRelease_def residentFinishRelease_def stopOwnership_def releaseLease_def dropState_def sharedOnce_def did_def)

theorem drained_means_given_back_witness:
  "givenBack (sdState (drainSession example_drain_calls example_draining_state)) \<and>
   drState (drainRun rev True (Some (GoPlain ''slow'')) None [(example_drain_calls, example_draining_state)] [] example_drainer)
     = DrainDrained"
proof -
  have d: "drState (drainRun rev True (Some (GoPlain ''slow'')) None [(example_drain_calls, example_draining_state)] [] example_drainer)
      = DrainDrained"
    by (simp add: drainRun_def Let_def settleAttaches_def example_drain_failures settledState_def isErr_def
        ErrIdleBoundary_def DeadlineExceeded_def example_drainer_def)
       (simp add: drainFailed_def joinErr_def opt_list_def)
  have "\<not> Ended (dcEnv example_drain_calls StepSettleAttaches example_draining_state)"
    by (simp add: example_drain_calls_def example_draining_state_def example_resident_state_def Ended_def)
  with drained_means_given_back [OF d] d show ?thesis by auto
qed

text \<open>
  C31: a drain begins once, and is announced before it is acknowledged.  Under any interleaving of
  callers, publications in and out of their bound, waiting callers and the run: the ledger stops
  admitting at most once and stays stopped, before the first publication; the drain has begun
  exactly when one publication succeeded, and its run is started exactly then and never again; a
  caller is told a status only of a drain that has begun, with this Host's generation, and is
  never told nothing; a failed start leaves the drain not begun, for a later caller to start; and
  only a drain that has begun can be drained.
\<close>

theorem drain_begins_once:
  assumes "NewDrainer opts = Inr d0" "drainStep\<^sup>*\<^sup>* (newDrainSys d0 p) y"
  shows "syFlips y \<le> 1 \<and> (syAttempts y > 0 \<longrightarrow> Draining (syLedger y) \<and> syFlips y = 1) \<and>
    (drBegun (syDrainer y) \<longleftrightarrow> syPublished y = 1) \<and> syPublished y \<le> 1 \<and> syRuns y = syPublished y \<and>
    ToldNothing \<notin> set (syTold y) \<and>
    (\<forall>st. Told st \<in> set (syTold y) \<longrightarrow> drBegun (syDrainer y) \<and> dsGeneration st = dnGeneration opts) \<and>
    (ObserveDrain (syDrainer y) \<noteq> None \<longleftrightarrow> syPublished y = 1) \<and>
    (drState (syDrainer y) = DrainDrained \<longrightarrow> syPublished y = 1) \<and>
    (\<not> drBegun (syDrainer y) \<and> syPublishing y = None \<longrightarrow> fst (startEnter (syDrainer y, syLedger y)) = EnterStart)"
proof -
  have inv: "drain_inv (dnGeneration opts) y"
    by (rule drain_inv_reachable [OF assms(2) drain_inv_new [OF assms(1)]])
  have "toldTruth (syDrainer y) r" if "r \<in> set (syTold y)" for r
    using inv that by (simp add: drain_inv_def)
  then have "ToldNothing \<notin> set (syTold y)"
    "\<forall>st. Told st \<in> set (syTold y) \<longrightarrow> drBegun (syDrainer y) \<and> dsGeneration st = dnGeneration (drOptions (syDrainer y))"
    by fastforce+
  with inv show ?thesis
    by (auto simp: drain_inv_def ObserveDrain_def startEnter_def split: if_splits)
qed

theorem drain_begins_once_witness:
  "\<exists>y. drainStep\<^sup>*\<^sup>* (newDrainSys example_drainer example_publisher) y \<and> syAttempts y > 0 \<and> Draining (syLedger y)"
proof -
  let ?y = "newDrainSys example_drainer example_publisher"
  obtain d p where e: "startEnter (syDrainer ?y, syLedger ?y) = (EnterStart, d, p)"
    by (simp add: startEnter_def newDrainSys_def example_drainer_def)
  let ?z = "?y\<lparr> syDrainer := d, syLedger := p, syAttempts := Suc (syAttempts ?y), syPublishing := Some noKey,
      syFlips := syFlips ?y + (if drLedgerStopped (syDrainer ?y) then 0 else 1) \<rparr>"
  have "drainStep ?y ?z" by (rule drainStep.callStart [OF e])
  then have r: "drainStep\<^sup>*\<^sup>* ?y ?z" by simp
  from drain_begins_once [OF example_NewDrainer r] r show ?thesis by (intro exI [of _ ?z]) simp
qed

section \<open>Parked runtimes\<close>

text \<open>
  A runtime that refuses its release, without the error that says it kept its lease, and offers no
  crash-equivalent release is parked and left running; the drain settles as drained all the same.
\<close>

theorem drained_may_park:
  "\<exists>dc s. drState (drainRun id True None None [(dc, s)] [] example_drainer) = DrainDrained \<and>
     drParked (drainRun id True None None [(dc, s)] [] example_drainer) = [Key ''t'' ''a''] \<and>
     \<not> rRuntimeReleased (rsRes (sdState (drainSession dc s)))"
proof -
  let ?dc = "example_drain_calls\<lparr> dcIdleRace := InTime,
      dcAnswers := (\<lambda>_. example_answers\<lparr> anLease := None, anRuntime := Some (GoPlain ''refused''), anAbandonable := False \<rparr>) \<rparr>"
  have r: "sdFailures (drainSession ?dc example_draining_state) =
      [\<lparr> flKey = Key ''t'' ''a'', flStep = StepReleaseResidency, flError = GoPlain ''refused'', flEpoch = 7 \<rparr>]"
    "sdParked (drainSession ?dc example_draining_state) = [Key ''t'' ''a'']"
    "\<not> rRuntimeReleased (rsRes (sdState (drainSession ?dc example_draining_state)))"
    by (simp_all add: drainSession_def Let_def example_drain_calls_def example_draining_state_def example_resident_state_def Ended_def
        bounded_def drainFailed_def opt_list_def drainCall_def residentBeginRelease_def residentCheckpoint_def onceOnSuccess_def
        example_answers_def drainRuntime_def residentReleaseResidency_def stopWork_def teardownRuntime_def drainEnd_def isErr_def
        drainAbandon_def AbandonResidency_def abandonAnswer_def ErrNotAbandonable_def endResidency_def
        drainFinishRelease_def residentFinishRelease_def stopOwnership_def releaseLease_def dropState_def sharedOnce_def did_def)
  then have "drState (drainRun id True None None [(?dc, example_draining_state)] [] example_drainer) = DrainDrained \<and>
     drParked (drainRun id True None None [(?dc, example_draining_state)] [] example_drainer) = [Key ''t'' ''a'']"
    by (simp add: drainRun_def Let_def settleAttaches_def settledState_def isErr_def example_drainer_def)
       (simp add: drainFailed_def joinErr_def opt_list_def)
  with r(3) show ?thesis by blast
qed

end
