(* ===== verification/Gates.thy ===== *)
theory Gates
  imports Host_Prelude "HOL-Library.Sublist"
begin

text \<open>
  The gate publisher, \<^verbatim>\<open>internal/gates/gates.go\<close>: it folds a session's journal into the set of open
  gates and converges the session's public projection of gates to that set.

  The journal is a list of events with their sequence numbers; a replay may stop anywhere with an
  error.  The session's store (its projection, opening and resolving a gate), the projection of one
  gate and the canonical name of a gate identity are parameters (\<open>GateSession\<close>).  A map is visited
  in any order (\<open>ks\<close>).  One pass is a function of the publisher and the store.
\<close>

section \<open>Gates and the session\<close>

type_synonym gate_id = nat
type_synonym GateID = string

datatype GateKind = KindPermission | KindOpenURL | KindOther

record Gate =
  gtKind :: GateKind
  gtTimeout :: int
  gtCreatedAt :: int
  gtRest :: nat

datatype GateEvent = GateOpened gate_id Gate | GateResolved gate_id | OtherEvent

record openGate =
  ogGate :: Gate
  ogSeq :: u64

datatype GateErr = GateSuperseded | GateUnpublishable | GateFull | GateOther string | GateJoin "GateErr list"

record Scope =
  scTenantID :: tenant_id
  scSessionID :: session_id
  scAgentID :: agent_id
  scRuntimeSessionID :: nat

text \<open>Seconds.\<close>

definition TTL :: "GateKind \<Rightarrow> int" where
  "TTL kind = (case kind of KindPermission \<Rightarrow> 300 | KindOpenURL \<Rightarrow> 3600 | KindOther \<Rightarrow> 86400)"

definition Deadline :: "Gate \<Rightarrow> int" where
  "Deadline g = (if gtTimeout g > 0 then gtCreatedAt g + gtTimeout g else gtCreatedAt g + TTL (gtKind g))"

text \<open>What is projected of a gate, with the deadline it is given.\<close>

record GateProjection =
  gpGateID :: GateID
  gpSeq :: u64
  gpDeadline :: int

record 'st GateSession =
  gsName :: "gate_id \<Rightarrow> GateID"
  gsScope :: "'st \<Rightarrow> GateErr + Scope"
  gsProject :: "Scope \<Rightarrow> gate_id \<Rightarrow> openGate \<Rightarrow> int \<Rightarrow> GateErr + GateProjection"
  gsProjected :: "'st \<Rightarrow> GateErr + GateProjection list"
  gsOpen :: "GateProjection \<Rightarrow> 'st \<Rightarrow> GateErr option \<times> 'st"
  gsResolve :: "GateID \<Rightarrow> 'st \<Rightarrow> GateErr option \<times> 'st"

definition FenceGateID :: GateID where "FenceGateID = ''host.residency-fence''"

section \<open>The publisher\<close>

record GateOptions =
  gxSession :: bool
  gxHints :: bool
  gxAfter :: bool
  gxRetry :: int

record Publisher =
  pbScope :: "Scope option"
  pbFenced :: bool
  pbOpen :: "gate_id \<rightharpoonup> openGate"
  pbNext :: u64
  pbDirty :: bool
  pbUnpublishable :: "GateID set"
  pbFull :: "GateID set"
  pbFolded :: bool
  pbOpenCount :: nat
  pbFoldedNext :: u64
  pbPasses :: nat
  pbSuperseded :: bool

definition StartPublisher :: "GateOptions \<Rightarrow> string + Publisher" where
  "StartPublisher p =
     (if \<not> gxSession p then Inl ''Session''
      else if \<not> gxHints p then Inl ''Hints''
      else if \<not> gxAfter p then Inl ''After''
      else if gxRetry p \<le> 0 then Inl ''Retry''
      else Inr \<lparr> pbScope = None, pbFenced = False, pbOpen = Map.empty, pbNext = 1, pbDirty = True, pbUnpublishable = {},
             pbFull = {}, pbFolded = False, pbOpenCount = 0, pbFoldedNext = 0, pbPasses = 0, pbSuperseded = False \<rparr>)"

definition Activity :: "Publisher \<Rightarrow> nat \<times> u64 \<times> bool" where
  "Activity p = (pbOpenCount p, pbFoldedNext p, pbFolded p)"

text \<open>One visited event.\<close>

definition visit :: "GateEvent \<times> u64 \<Rightarrow> Publisher \<Rightarrow> Publisher" where
  "visit ev p =
     (let p1 = (case fst ev of
            GateOpened g x \<Rightarrow> p\<lparr> pbOpen := (pbOpen p)(g \<mapsto> \<lparr> ogGate = x, ogSeq = snd ev \<rparr>), pbDirty := True \<rparr>
          | GateResolved g \<Rightarrow> p\<lparr> pbOpen := map_del g (pbOpen p), pbDirty := True \<rparr>
          | OtherEvent \<Rightarrow> p) in
      if snd ev \<ge> pbNext p1 then p1\<lparr> pbNext := snd ev + 1 \<rparr> else p1)"

text \<open>The replay from the next position; it may stop with an error after some of the events.\<close>

definition foldGates :: "(GateEvent \<times> u64) list \<Rightarrow> (nat \<times> GateErr) option \<Rightarrow> Publisher \<Rightarrow> GateErr option \<times> Publisher" where
  "foldGates journal failed p =
     (let events = filter (\<lambda>ev. snd ev \<ge> pbNext p) journal in
      case failed of
        None \<Rightarrow> (None, fold visit events p)
      | Some (n, e) \<Rightarrow> (Some e, fold visit (take n events) p))"

fun resolveLoop ::
  "'st GateSession \<Rightarrow> GateID set \<Rightarrow> GateProjection list \<Rightarrow> GateErr list \<Rightarrow> 'st \<Rightarrow> (GateErr + GateErr list) \<times> 'st" where
  "resolveLoop S want [] failures st = (Inr failures, st)"
| "resolveLoop S want (p # ps) failures st =
     (if gpGateID p \<in> want then resolveLoop S want ps failures st
      else (case gsResolve S (gpGateID p) st of
              (None, st') \<Rightarrow> resolveLoop S want ps failures st'
            | (Some e, st') \<Rightarrow>
                if e = GateSuperseded then (Inl e, st') else resolveLoop S want ps (failures @ [e]) st'))"

definition tryOpen :: "'st GateSession \<Rightarrow> Scope \<Rightarrow> gate_id \<times> openGate \<Rightarrow> 'st \<Rightarrow> GateErr option \<times> 'st" where
  "tryOpen S scope held st =
     (case gsProject S scope (fst held) (snd held) (Deadline (ogGate (snd held))) of
        Inl e \<Rightarrow> (Some e, st)
      | Inr projection \<Rightarrow> gsOpen S projection st)"

fun openLoop ::
  "'st GateSession \<Rightarrow> Scope \<Rightarrow> (gate_id \<times> openGate) list \<Rightarrow> GateErr list \<Rightarrow> Publisher \<times> 'st \<Rightarrow>
   (GateErr + GateErr list) \<times> Publisher \<times> 'st" where
  "openLoop S scope [] failures pst = (Inr failures, pst)"
| "openLoop S scope (held # rest) failures (p, st) =
     (case tryOpen S scope held st of
        (None, st') \<Rightarrow> openLoop S scope rest failures (p, st')
      | (Some GateSuperseded, st') \<Rightarrow> (Inl GateSuperseded, p, st')
      | (Some GateUnpublishable, st') \<Rightarrow>
          openLoop S scope rest failures (p\<lparr> pbUnpublishable := insert (gsName S (fst held)) (pbUnpublishable p) \<rparr>, st')
      | (Some GateFull, st') \<Rightarrow> openLoop S scope rest failures (p\<lparr> pbFull := insert (gsName S (fst held)) (pbFull p) \<rparr>, st')
      | (Some e, st') \<Rightarrow> openLoop S scope rest (failures @ [e]) (p, st'))"

definition joinGate :: "GateErr list \<Rightarrow> GateErr option" where
  "joinGate failures = (if failures = [] then None else Some (GateJoin failures))"

definition pendingGates :: "gate_id list \<Rightarrow> 'st GateSession \<Rightarrow> GateID set \<Rightarrow> Publisher \<Rightarrow> (gate_id \<times> openGate) list" where
  "pendingGates ks S have' p =
     sort_key (\<lambda>held. ogSeq (snd held))
       (filter (\<lambda>held. gsName S (fst held) \<notin> have' \<and> gsName S (fst held) \<notin> pbUnpublishable p)
          (map (\<lambda>k. (k, the (pbOpen p k))) ks))"

definition converge ::
  "gate_id list \<Rightarrow> 'st GateSession \<Rightarrow> Scope \<Rightarrow> Publisher \<times> 'st \<Rightarrow> GateErr option \<times> Publisher \<times> 'st" where
  "converge ks S scope pst =
     (case pst of (p, st) \<Rightarrow>
        (case gsProjected S st of
           Inl e \<Rightarrow> (Some e, p, st)
         | Inr projected \<Rightarrow>
             (let have' = gpGateID ` set projected; want = gsName S ` set ks in
              case resolveLoop S want projected [] st of
                (Inl e, st') \<Rightarrow> (Some e, p, st')
              | (Inr failures, st') \<Rightarrow>
                  (case openLoop S scope (pendingGates ks S have' p) failures (p, st') of
                     (Inl e, pst') \<Rightarrow> (Some e, pst')
                   | (Inr failures', pst') \<Rightarrow> (joinGate failures', pst')))))"

text \<open>One pass: the scope and the fence once, the fold, and the convergence if anything changed.\<close>

definition passScope :: "'st GateSession \<Rightarrow> Publisher \<times> 'st \<Rightarrow> GateErr + Scope" where
  "passScope S pst = (case pbScope (fst pst) of Some scope \<Rightarrow> Inr scope | None \<Rightarrow> gsScope S (snd pst))"

definition passFence :: "'st GateSession \<Rightarrow> Publisher \<times> 'st \<Rightarrow> GateErr option \<times> Publisher \<times> 'st" where
  "passFence S pst =
     (case pst of (p, st) \<Rightarrow>
        if pbFenced p then (None, p, st)
        else (case gsResolve S FenceGateID st of
                (Some e, st') \<Rightarrow> (Some e, p, st')
              | (None, st') \<Rightarrow> (None, p\<lparr> pbFenced := True \<rparr>, st')))"

definition passConverge ::
  "gate_id list \<Rightarrow> 'st GateSession \<Rightarrow> Scope \<Rightarrow> Publisher \<times> 'st \<Rightarrow> GateErr option \<times> Publisher \<times> 'st" where
  "passConverge ks S scope pst =
     (case pst of (p, st) \<Rightarrow>
        let p1 = p\<lparr> pbFolded := True, pbOpenCount := card (dom (pbOpen p)), pbFoldedNext := pbNext p \<rparr> in
        if \<not> pbDirty p1 then (None, p1, st)
        else (case converge ks S scope (p1, st) of
                (Some e, pst') \<Rightarrow> (Some e, pst')
              | (None, p2, st') \<Rightarrow> (None, p2\<lparr> pbDirty := False, pbPasses := pbPasses p2 + 1 \<rparr>, st')))"

definition gatePass ::
  "(Publisher \<Rightarrow> gate_id list) \<Rightarrow> 'st GateSession \<Rightarrow> (GateEvent \<times> u64) list \<Rightarrow> (nat \<times> GateErr) option \<Rightarrow> Publisher \<times> 'st \<Rightarrow>
   GateErr option \<times> Publisher \<times> 'st" where
  "gatePass order S journal failed pst =
     (case passScope S pst of
        Inl e \<Rightarrow> (Some e, pst)
      | Inr scope \<Rightarrow>
          (case passFence S ((fst pst)\<lparr> pbScope := Some scope \<rparr>, snd pst) of
             (Some e, pst1) \<Rightarrow> (Some e, pst1)
           | (None, p1, st1) \<Rightarrow>
               (case foldGates journal failed p1 of
                  (Some e, p2) \<Rightarrow> (Some e, p2, st1)
                | (None, p2) \<Rightarrow> passConverge (order p2) S scope (p2, st1))))"


section \<open>The open gates of a journal\<close>

text \<open>A gate is open when its last event in the journal is its opening.\<close>

definition concerns :: "gate_id \<Rightarrow> GateEvent \<times> u64 \<Rightarrow> bool" where
  "concerns g ev \<longleftrightarrow> fst ev = GateResolved g \<or> (\<exists>x. fst ev = GateOpened g x)"

definition openIn :: "(GateEvent \<times> u64) list \<Rightarrow> gate_id \<Rightarrow> openGate \<Rightarrow> bool" where
  "openIn journal g og \<longleftrightarrow>
     (\<exists>pre post. journal = pre @ (GateOpened g (ogGate og), ogSeq og) # post \<and> (\<forall>ev\<in>set post. \<not> concerns g ev))"

lemma openIn_snoc:
  "openIn (j @ [ev]) g og \<longleftrightarrow> (ev = (GateOpened g (ogGate og), ogSeq og)) \<or> (openIn j g og \<and> \<not> concerns g ev)"
proof
  assume "openIn (j @ [ev]) g og"
  then obtain pre post where e: "j @ [ev] = pre @ (GateOpened g (ogGate og), ogSeq og) # post"
    and post: "\<forall>ev\<in>set post. \<not> concerns g ev" unfolding openIn_def by blast
  show "(ev = (GateOpened g (ogGate og), ogSeq og)) \<or> (openIn j g og \<and> \<not> concerns g ev)"
  proof (cases post rule: rev_cases)
    case Nil
    with e show ?thesis by simp
  next
    case (snoc post' ev')
    with e have "j = pre @ (GateOpened g (ogGate og), ogSeq og) # post'" "ev' = ev" by simp_all
    with snoc post show ?thesis unfolding openIn_def by auto
  qed
next
  assume "(ev = (GateOpened g (ogGate og), ogSeq og)) \<or> (openIn j g og \<and> \<not> concerns g ev)"
  then show "openIn (j @ [ev]) g og"
  proof
    assume "ev = (GateOpened g (ogGate og), ogSeq og)"
    then show ?thesis unfolding openIn_def by (intro exI [of _ j] exI [of _ "[]"]) simp
  next
    assume a: "openIn j g og \<and> \<not> concerns g ev"
    then obtain pre post where "j = pre @ (GateOpened g (ogGate og), ogSeq og) # post" "\<forall>ev\<in>set post. \<not> concerns g ev"
      unfolding openIn_def by blast
    with a show ?thesis unfolding openIn_def by (intro exI [of _ pre] exI [of _ "post @ [ev]"]) auto
  qed
qed

lemma openIn_Nil [simp]: "\<not> openIn [] g og"
  by (simp add: openIn_def)

lemma visit_open:
  "pbOpen (visit ev p) g = Some og \<longleftrightarrow>
     (ev = (GateOpened g (ogGate og), ogSeq og)) \<or> (pbOpen p g = Some og \<and> \<not> concerns g ev)"
  by (cases ev; cases "fst ev") (auto simp: visit_def Let_def concerns_def)

text \<open>What the publisher has seen of a journal.\<close>

definition seenUpTo :: "(GateEvent \<times> u64) list \<Rightarrow> Publisher \<Rightarrow> bool" where
  "seenUpTo seen p \<longleftrightarrow> (\<forall>g og. pbOpen p g = Some og \<longleftrightarrow> openIn seen g og) \<and> (\<forall>ev\<in>set seen. snd ev < pbNext p)"

definition wfJournal :: "(GateEvent \<times> u64) list \<Rightarrow> bool" where
  "wfJournal j \<longleftrightarrow> sorted_wrt (<) (map snd j) \<and> (\<forall>ev\<in>set j. 0 < snd ev \<and> snd ev \<noteq> - 1)"

lemma less_inc: "w \<noteq> - 1 \<Longrightarrow> w < w + 1" for w :: u64
  using unat_inc_no_wrap [of w] by (simp add: word_less_nat_alt)

lemma seen_visit:
  assumes "seenUpTo seen p" "snd ev \<noteq> - 1" "pbNext p \<le> snd ev"
  shows "seenUpTo (seen @ [ev]) (visit ev p)" "pbNext (visit ev p) = snd ev + 1"
proof -
  show n: "pbNext (visit ev p) = snd ev + 1" using assms(3) by (simp add: visit_def Let_def split: GateEvent.split)
  have "snd e < snd ev + 1" if "e \<in> set seen" for e
    using assms that less_inc [OF assms(2)] unfolding seenUpTo_def by (meson order.strict_trans order.strict_trans2)
  then show "seenUpTo (seen @ [ev]) (visit ev p)"
    using assms(1) less_inc [OF assms(2)] by (auto simp: seenUpTo_def openIn_snoc visit_open n)
qed

lemma seen_fold:
  assumes "seenUpTo seen p" "wfJournal (seen @ evs @ rest)" "\<forall>ev\<in>set (evs @ rest). pbNext p \<le> snd ev"
  shows "seenUpTo (seen @ evs) (fold visit evs p) \<and> (\<forall>ev\<in>set rest. pbNext (fold visit evs p) \<le> snd ev)"
  using assms
proof (induction evs arbitrary: seen p)
  case Nil
  then show ?case by simp
next
  case (Cons ev evs)
  have ev: "snd ev \<noteq> - 1" "pbNext p \<le> snd ev" using Cons.prems by (auto simp: wfJournal_def)
  note v = seen_visit [OF Cons.prems(1) ev]
  have "\<forall>e\<in>set (evs @ rest). snd ev < snd e" using Cons.prems(2) by (auto simp: wfJournal_def sorted_wrt_append)
  then have "\<forall>e\<in>set (evs @ rest). pbNext (visit ev p) \<le> snd e" unfolding v(2) by (meson inc_le)
  with Cons.IH [OF v(1)] Cons.prems(2) show ?case by simp
qed


section \<open>Convergence\<close>

text \<open>
  What the publisher relies on of the session's store, as its interface documents it: \<open>ids\<close> are the
  gates the projection holds, \<open>cap\<close> how many it can hold.  A write that fails may or may not have
  happened.
\<close>

definition lawfulSession :: "'st GateSession \<Rightarrow> ('st \<Rightarrow> GateID set) \<Rightarrow> nat \<Rightarrow> bool" where
  "lawfulSession S ids cap \<longleftrightarrow>
     FenceGateID \<notin> range (gsName S) \<and> (\<forall>st. finite (ids st)) \<and>
     (\<forall>st ps. gsProjected S st = Inr ps \<longrightarrow> gpGateID ` set ps = ids st) \<and>
     (\<forall>i st st'. gsResolve S i st = (None, st') \<longrightarrow> ids st' = ids st - {i}) \<and>
     (\<forall>sc g og dl p. gsProject S sc g og dl = Inr p \<longrightarrow> gpGateID p = gsName S g) \<and>
     (\<forall>sc g og dl. gsProject S sc g og dl \<noteq> Inl GateFull) \<and>
     (\<forall>p st st'. gsOpen S p st = (None, st') \<longrightarrow> ids st' = insert (gpGateID p) (ids st)) \<and>
     (\<forall>p st st'. gsOpen S p st = (Some GateFull, st') \<longrightarrow> ids st' = ids st \<and> cap \<le> card (ids st)) \<and>
     (\<forall>p st e st'. gsOpen S p st = (Some e, st') \<longrightarrow> ids st \<subseteq> ids st' \<and> ids st' \<subseteq> insert (gpGateID p) (ids st))"

lemma lawful:
  assumes "lawfulSession S ids cap"
  shows "finite (ids st)" "FenceGateID \<noteq> gsName S g"
    and "gsProjected S st = Inr ps \<Longrightarrow> gpGateID ` set ps = ids st"
    and "gsResolve S i st = (None, st') \<Longrightarrow> ids st' = ids st - {i}"
    and "gsProject S sc g og dl = Inr p \<Longrightarrow> gpGateID p = gsName S g" "gsProject S sc g og dl \<noteq> Inl GateFull"
    and "gsOpen S p st = (None, st') \<Longrightarrow> ids st' = insert (gpGateID p) (ids st)"
    and "gsOpen S p st = (Some GateFull, st') \<Longrightarrow> ids st' = ids st \<and> cap \<le> card (ids st)"
    and "gsOpen S p st = (Some e, st') \<Longrightarrow> ids st \<subseteq> ids st' \<and> ids st' \<subseteq> insert (gpGateID p) (ids st)"
proof -
  note l = assms [unfolded lawfulSession_def]
  have f: "\<forall>st. finite (ids st)" using l by (elim conjE)
  have n: "FenceGateID \<notin> range (gsName S)" using l by (elim conjE)
  have pj: "\<forall>st ps. gsProjected S st = Inr ps \<longrightarrow> gpGateID ` set ps = ids st" using l by (elim conjE)
  have rs: "\<forall>i st st'. gsResolve S i st = (None, st') \<longrightarrow> ids st' = ids st - {i}" using l by (elim conjE)
  have pr: "\<forall>sc g og dl p. gsProject S sc g og dl = Inr p \<longrightarrow> gpGateID p = gsName S g" using l by (elim conjE)
  have nf: "\<forall>sc g og dl. gsProject S sc g og dl \<noteq> Inl GateFull" using l by (elim conjE)
  have o1: "\<forall>p st st'. gsOpen S p st = (None, st') \<longrightarrow> ids st' = insert (gpGateID p) (ids st)" using l by (elim conjE)
  have o2: "\<forall>p st st'. gsOpen S p st = (Some GateFull, st') \<longrightarrow> ids st' = ids st \<and> cap \<le> card (ids st)"
    using l by (elim conjE)
  have o3: "\<forall>p st e st'. gsOpen S p st = (Some e, st') \<longrightarrow> ids st \<subseteq> ids st' \<and> ids st' \<subseteq> insert (gpGateID p) (ids st)"
    using l by (elim conjE)
  show "finite (ids st)" using f by blast
  show "gpGateID ` set ps = ids st" if "gsProjected S st = Inr ps" using pj that by blast
  show "ids st' = ids st - {i}" if "gsResolve S i st = (None, st')" using rs that by blast
  show "gpGateID p = gsName S g" if "gsProject S sc g og dl = Inr p" using pr that by blast
  show "gsProject S sc g og dl \<noteq> Inl GateFull" using nf by blast
  show "ids st' = insert (gpGateID p) (ids st)" if "gsOpen S p st = (None, st')" using o1 that by blast
  show "ids st' = ids st \<and> cap \<le> card (ids st)" if "gsOpen S p st = (Some GateFull, st')" using o2 that by blast
  show "ids st \<subseteq> ids st' \<and> ids st' \<subseteq> insert (gpGateID p) (ids st)" if "gsOpen S p st = (Some e, st')"
    using o3 that by blast
  show "FenceGateID \<noteq> gsName S g" using n by (metis rangeI)
qed

lemma resolveLoop_clean:
  assumes "lawfulSession S ids cap"
  shows "resolveLoop S want ps fs st = (Inr [], st') \<Longrightarrow> fs = [] \<and> ids st' = ids st - (gpGateID ` set ps - want)"
proof (induction ps arbitrary: fs st)
  case Nil
  then show ?case by simp
next
  case (Cons p ps)
  show ?case
  proof (cases "gpGateID p \<in> want")
    case True
    with Cons show ?thesis by auto
  next
    case False
    obtain e st1 where r: "gsResolve S (gpGateID p) st = (e, st1)" by fastforce
    show ?thesis
    proof (cases e)
      case None
      with r have "ids st1 = ids st - {gpGateID p}" using lawful(4) [OF assms] by simp
      with None r False Cons.IH [of fs st1] Cons.prems show ?thesis by auto
    next
      case (Some x)
      with r False Cons.prems Cons.IH [of "fs @ [x]" st1] show ?thesis by (simp split: if_splits)
    qed
  qed
qed

lemma tryOpen_cases:
  assumes "lawfulSession S ids cap" "tryOpen S scope held st = (e, st')"
  shows "ids st \<subseteq> ids st' \<and> ids st' \<subseteq> insert (gsName S (fst held)) (ids st) \<and>
    (e = None \<longrightarrow> gsName S (fst held) \<in> ids st') \<and> (e = Some GateFull \<longrightarrow> cap \<le> card (ids st'))"
proof (cases "gsProject S scope (fst held) (snd held) (Deadline (ogGate (snd held)))")
  case (Inl x)
  moreover have "x \<noteq> GateFull" using lawful(6) [OF assms(1)] Inl by metis
  ultimately show ?thesis using assms(2) by (auto simp: tryOpen_def)
next
  case (Inr p)
  have name: "gpGateID p = gsName S (fst held)" using lawful(5) [OF assms(1) Inr] .
  have o: "gsOpen S p st = (e, st')" using assms(2) Inr by (simp add: tryOpen_def)
  show ?thesis
  proof (cases e)
    case None
    with lawful(7) [OF assms(1)] o have "ids st' = insert (gpGateID p) (ids st)" by simp
    with None name show ?thesis by auto
  next
    case (Some x)
    note 9 = lawful(9) [OF assms(1) o [unfolded Some]]
    have "cap \<le> card (ids st')" if "x = GateFull"
      using lawful(8) [OF assms(1) o [unfolded Some that]] by simp
    with 9 Some name show ?thesis by auto
  qed
qed

text \<open>The names of the gates for which opening is refused for good.\<close>

definition refusedGates :: "'st GateSession \<Rightarrow> GateID set" where
  "refusedGates S = {gsName S (fst held) | held. \<exists>scope st. fst (tryOpen S scope held st) = Some GateUnpublishable}"

lemma openLoop_next:
  assumes o: "openLoop S scope (h # hs) fs (p, st) = (r, p', st')" and t: "tryOpen S scope h st = (e, st1)"
    and e: "e \<noteq> Some GateSuperseded"
  shows "\<exists>q fs1. openLoop S scope hs fs1 (q, st1) = (r, p', st') \<and>
    q = p\<lparr> pbUnpublishable := pbUnpublishable q, pbFull := pbFull q \<rparr> \<and>
    pbUnpublishable p \<subseteq> pbUnpublishable q \<and> pbUnpublishable q \<subseteq> pbUnpublishable p \<union> refusedGates S \<and>
    (fs1 = [] \<longrightarrow> fs = []) \<and> (fs1 = [] \<longrightarrow> e = None \<or> e = Some GateFull \<or> gsName S (fst h) \<in> pbUnpublishable q)"
proof -
  let ?name = "gsName S (fst h)"
  consider "e = None" | "e = Some GateUnpublishable" | "e = Some GateFull"
    | x where "e = Some (GateOther x)" | x where "e = Some (GateJoin x)"
    using e by (cases e) (simp, metis GateErr.exhaust)
  then show ?thesis
  proof cases
    case 1
    with o t show ?thesis by (intro exI [of _ p] exI [of _ fs]) simp
  next
    case 2
    with t have "fst (tryOpen S scope h st) = Some GateUnpublishable" by simp
    then have "?name \<in> refusedGates S" unfolding refusedGates_def by blast
    with 2 o t show ?thesis
      by (intro exI [of _ "p\<lparr> pbUnpublishable := insert ?name (pbUnpublishable p) \<rparr>"] exI [of _ fs]) auto
  next
    case 3
    with o t show ?thesis
      by (intro exI [of _ "p\<lparr> pbFull := insert ?name (pbFull p) \<rparr>"] exI [of _ fs]) auto
  next
    case (4 x)
    with o t show ?thesis by (intro exI [of _ p] exI [of _ "fs @ [GateOther x]"]) simp
  next
    case (5 x)
    with o t show ?thesis by (intro exI [of _ p] exI [of _ "fs @ [GateJoin x]"]) simp
  qed
qed

lemma openLoop_frame:
  "openLoop S scope hs fs (p, st) = (r, p', st') \<Longrightarrow>
     p' = p\<lparr> pbUnpublishable := pbUnpublishable p', pbFull := pbFull p' \<rparr> \<and>
     pbUnpublishable p' \<subseteq> pbUnpublishable p \<union> refusedGates S"
proof (induction hs arbitrary: fs p st)
  case Nil
  then show ?case by simp
next
  case (Cons h hs)
  obtain e st1 where t: "tryOpen S scope h st = (e, st1)" by fastforce
  show ?case
  proof (cases "e = Some GateSuperseded")
    case True
    with t Cons.prems show ?thesis by simp
  next
    case False
    obtain q fs1 where n: "openLoop S scope hs fs1 (q, st1) = (r, p', st')"
      and q: "q = p\<lparr> pbUnpublishable := pbUnpublishable q, pbFull := pbFull q \<rparr>"
        "pbUnpublishable q \<subseteq> pbUnpublishable p \<union> refusedGates S"
      using openLoop_next [OF Cons.prems t False] by blast
    have "p' = q\<lparr> pbUnpublishable := pbUnpublishable p', pbFull := pbFull p' \<rparr>" using Cons.IH [OF n] by blast
    also have "\<dots> = p\<lparr> pbUnpublishable := pbUnpublishable p', pbFull := pbFull p' \<rparr>"
      by (subst q(1)) simp
    finally show ?thesis using Cons.IH [OF n] q(2) by blast
  qed
qed

lemma openLoop_clean:
  assumes "lawfulSession S ids cap"
  shows "openLoop S scope hs fs (p, st) = (Inr [], p', st') \<Longrightarrow>
    fs = [] \<and> pbUnpublishable p \<subseteq> pbUnpublishable p' \<and>
    ids st \<subseteq> ids st' \<and> ids st' \<subseteq> ids st \<union> (\<lambda>h. gsName S (fst h)) ` set hs \<and>
    (\<forall>h\<in>set hs. gsName S (fst h) \<in> ids st' \<or> gsName S (fst h) \<in> pbUnpublishable p' \<or> cap \<le> card (ids st'))"
proof (induction hs arbitrary: fs p st)
  case Nil
  then show ?case by simp
next
  case (Cons h hs)
  obtain e st1 where t: "tryOpen S scope h st = (e, st1)" by fastforce
  note opened = tryOpen_cases [OF assms t]
  let ?name = "gsName S (fst h)"
  have e: "e \<noteq> Some GateSuperseded" using Cons.prems t by auto
  obtain q fs1 where next': "openLoop S scope hs fs1 (q, st1) = (Inr [], p', st')"
    and q: "pbUnpublishable p \<subseteq> pbUnpublishable q" "fs1 = [] \<longrightarrow> fs = []"
      "fs1 = [] \<longrightarrow> e = None \<or> e = Some GateFull \<or> ?name \<in> pbUnpublishable q"
    using openLoop_next [OF Cons.prems t e] by blast
  note ih = Cons.IH [OF next']
  have mono: "card (ids st1) \<le> card (ids st')"
    using ih lawful(1) [OF assms] by (intro card_mono) simp_all
  consider "e = None" | "e = Some GateFull" | "?name \<in> pbUnpublishable q"
    using mp [OF q(3)] ih by blast
  then have "?name \<in> ids st' \<or> ?name \<in> pbUnpublishable p' \<or> cap \<le> card (ids st')"
  proof cases
    case 1
    with opened ih show ?thesis by blast
  next
    case 2
    with opened have "cap \<le> card (ids st1)" by blast
    then show ?thesis using mono by linarith
  next
    case 3
    with ih show ?thesis by blast
  qed
  then show ?case using ih q(1,2) opened by auto
qed

text \<open>What a clean convergence leaves, and what any convergence leaves alone.\<close>

definition visibleOK :: "'st GateSession \<Rightarrow> ('st \<Rightarrow> GateID set) \<Rightarrow> nat \<Rightarrow> Publisher \<Rightarrow> 'st \<Rightarrow> bool" where
  "visibleOK S ids cap p st \<longleftrightarrow>
     ids st \<subseteq> gsName S ` dom (pbOpen p) \<and>
     (\<forall>g\<in>dom (pbOpen p). gsName S g \<in> ids st \<or> gsName S g \<in> pbUnpublishable p \<or> cap \<le> card (ids st))"

lemma converge_frame:
  assumes "converge ks S scope (p, st) = (r, p', st')"
  shows "p' = p\<lparr> pbUnpublishable := pbUnpublishable p', pbFull := pbFull p' \<rparr> \<and>
    pbUnpublishable p' \<subseteq> pbUnpublishable p \<union> refusedGates S"
proof (cases "gsProjected S st")
  case (Inl e)
  with assms show ?thesis by (simp add: converge_def)
next
  case (Inr ps)
  let ?hs = "pendingGates ks S (gpGateID ` set ps) p"
  obtain rr st1 where rl: "resolveLoop S (gsName S ` set ks) ps [] st = (rr, st1)" by fastforce
  show ?thesis
  proof (cases rr)
    case (Inl e)
    with assms rl Inr show ?thesis by (simp add: converge_def Let_def)
  next
    case r2: (Inr fs)
    obtain ro p2 st2 where ol: "openLoop S scope ?hs fs (p, st1) = (ro, p2, st2)" by (metis prod.exhaust)
    have "p' = p2" using assms Inr rl r2 ol by (cases ro) (simp_all add: converge_def Let_def)
    with openLoop_frame [OF ol] show ?thesis by simp
  qed
qed

lemma pending_names:
  "(\<lambda>h. gsName S (fst h)) ` set (pendingGates ks S have' p) = {n \<in> gsName S ` set ks. n \<notin> have' \<and> n \<notin> pbUnpublishable p}"
  by (force simp: pendingGates_def image_iff)

lemma converge_none:
  assumes c: "converge ks S scope (p, st) = (None, p', st')"
  shows "\<exists>ps fs st1. gsProjected S st = Inr ps \<and> resolveLoop S (gsName S ` set ks) ps [] st = (Inr fs, st1) \<and>
    openLoop S scope (pendingGates ks S (gpGateID ` set ps) p) fs (p, st1) = (Inr [], p', st')"
proof -
  obtain ps where ps: "gsProjected S st = Inr ps" using c by (cases "gsProjected S st") (simp_all add: converge_def)
  obtain rr st1 where rl: "resolveLoop S (gsName S ` set ks) ps [] st = (rr, st1)" by fastforce
  obtain fs where rr: "rr = Inr fs" using c rl ps by (cases rr) (simp_all add: converge_def Let_def)
  obtain ro p2 st2 where ol: "openLoop S scope (pendingGates ks S (gpGateID ` set ps) p) fs (p, st1) = (ro, p2, st2)"
    by (metis prod.exhaust)
  have "ro = Inr [] \<and> p2 = p' \<and> st2 = st'"
    using c ps rl rr ol by (cases ro) (simp_all add: converge_def Let_def joinGate_def split: if_splits)
  with ps rl rr ol show ?thesis by blast
qed

lemma converge_clean:
  assumes law: "lawfulSession S ids cap" and ks: "set ks = dom (pbOpen p)"
    and c: "converge ks S scope (p, st) = (None, p', st')"
  shows "visibleOK S ids cap p' st'"
proof -
  obtain ps fs st1 where ps: "gsProjected S st = Inr ps"
    and rl: "resolveLoop S (gsName S ` set ks) ps [] st = (Inr fs, st1)"
    and ol: "openLoop S scope (pendingGates ks S (gpGateID ` set ps) p) fs (p, st1) = (Inr [], p', st')"
    using converge_none [OF c] by blast
  let ?want = "gsName S ` dom (pbOpen p)"
  have proj: "gpGateID ` set ps = ids st" by (rule lawful(3) [OF law ps])
  have names: "(\<lambda>h. gsName S (fst h)) ` set (pendingGates ks S (gpGateID ` set ps) p) =
      {n \<in> ?want. n \<notin> ids st \<and> n \<notin> pbUnpublishable p}" (is "_ ` set ?hs = ?new")
    by (simp only: pending_names proj ks)
  note o = openLoop_clean [OF law ol, unfolded names]
  from o have fs: "fs = []" and un: "pbUnpublishable p \<subseteq> pbUnpublishable p'"
    and lo: "ids st1 \<subseteq> ids st'" and hi: "ids st' \<subseteq> ids st1 \<union> ?new" by blast+
  have each: "n \<in> ids st' \<or> n \<in> pbUnpublishable p' \<or> cap \<le> card (ids st')" if "n \<in> ?new" for n
    using o that unfolding names [symmetric] by blast
  have ids1: "ids st1 = ids st - (ids st - ?want)"
    using resolveLoop_clean [OF law rl [unfolded fs]] unfolding proj ks by blast
  have same: "pbOpen p' = pbOpen p" using converge_frame [OF c, THEN conjunct1, THEN arg_cong [of _ _ pbOpen]] by simp
  have "ids st' \<subseteq> ?want" using hi ids1 by blast
  moreover have "n \<in> ids st' \<or> n \<in> pbUnpublishable p' \<or> cap \<le> card (ids st')" if "n \<in> ?want" for n
    using that each [of n] lo un ids1 by blast
  ultimately show ?thesis by (simp add: visibleOK_def same)
qed

section \<open>The fold\<close>

lemma visit_frame:
  "pbFenced (visit ev p) = pbFenced p" "pbUnpublishable (visit ev p) = pbUnpublishable p"
  "\<not> pbDirty (visit ev p) \<Longrightarrow> \<not> pbDirty p \<and> pbOpen (visit ev p) = pbOpen p"
  "pbNext (visit ev p) = pbNext p \<or> pbNext (visit ev p) = snd ev + 1"
  by (auto simp: visit_def Let_def split: GateEvent.splits if_splits)

lemma fold_frame:
  "pbFenced (fold visit evs p) = pbFenced p \<and> pbUnpublishable (fold visit evs p) = pbUnpublishable p"
  "\<not> pbDirty (fold visit evs p) \<Longrightarrow> \<not> pbDirty p \<and> pbOpen (fold visit evs p) = pbOpen p"
  "pbNext (fold visit evs p) = pbNext p \<or> (\<exists>ev\<in>set evs. pbNext (fold visit evs p) = snd ev + 1)"
proof (induction evs arbitrary: p)
  case Nil
  { case 1 then show ?case by simp } { case 2 then show ?case by simp } { case 3 then show ?case by simp }
next
  case (Cons ev evs)
  { case 1 then show ?case using Cons.IH(1) [of "visit ev p"] by (simp add: visit_frame) }
  { case 2 then show ?case using Cons.IH(2) [of "visit ev p"] visit_frame(3) [of ev p] by simp }
  { case 3 then show ?case using Cons.IH(3) [of "visit ev p"] visit_frame(4) [of ev p] by auto }
qed

text \<open>The publisher has visited a prefix of the journal and stands right behind it.\<close>

definition standsAt :: "(GateEvent \<times> u64) list \<Rightarrow> Publisher \<Rightarrow> bool" where
  "standsAt seen p \<longleftrightarrow> seenUpTo seen p \<and> (pbNext p = 1 \<or> (\<exists>ev\<in>set seen. pbNext p = snd ev + 1))"

lemma standsAt_rest:
  assumes "standsAt seen p" "wfJournal (seen @ rest)"
  shows "\<forall>ev\<in>set rest. pbNext p \<le> snd ev"
proof
  fix ev
  assume ev: "ev \<in> set rest"
  consider "pbNext p = 1" | e where "e \<in> set seen" "pbNext p = snd e + 1" using assms(1) unfolding standsAt_def by blast
  then show "pbNext p \<le> snd ev"
  proof cases
    case 1
    moreover have "0 < snd ev" using assms(2) ev by (auto simp: wfJournal_def)
    ultimately show ?thesis using inc_le [of 0 "snd ev"] by simp
  next
    case 2
    have "snd e < snd ev" using assms(2) ev 2(1) by (auto simp: wfJournal_def sorted_wrt_append)
    then show ?thesis unfolding 2(2) by (rule inc_le)
  qed
qed

lemma foldGates_stands:
  assumes at: "standsAt seen p" and wf: "wfJournal (seen @ rest)" and f: "foldGates (seen @ rest) failed p = (r, p')"
  shows "\<exists>vis rest'. rest = vis @ rest' \<and> p' = fold visit vis p \<and> standsAt (seen @ vis) p' \<and> (r = None \<longrightarrow> rest' = [])"
proof -
  note later = standsAt_rest [OF at wf]
  have "\<forall>ev\<in>set seen. \<not> pbNext p \<le> snd ev" using at by (auto simp: standsAt_def seenUpTo_def not_le)
  then have events: "filter (\<lambda>ev. pbNext p \<le> snd ev) seen = []" "filter (\<lambda>ev. pbNext p \<le> snd ev) rest = rest"
    using later by simp_all
  obtain vis rest' where v: "rest = vis @ rest'" "p' = fold visit vis p" "r = None \<longrightarrow> rest' = []"
  proof (cases failed)
    case None
    with f events that [of rest "[]"] show ?thesis by (simp add: foldGates_def)
  next
    case (Some x)
    with f events have "r = Some (snd x)" "p' = fold visit (take (fst x) rest) p"
      by (cases x, simp add: foldGates_def)+
    with that [of "take (fst x) rest" "drop (fst x) rest"] show ?thesis by simp
  qed
  have "seenUpTo (seen @ vis) p'"
    using seen_fold [of seen p vis rest'] at wf later unfolding v(1,2) standsAt_def by simp
  moreover have "pbNext p' = 1 \<or> (\<exists>ev\<in>set (seen @ vis). pbNext p' = snd ev + 1)"
    using fold_frame(3) [of vis p] at unfolding v(2) standsAt_def set_append by (metis UnI1 UnI2)
  ultimately have "standsAt (seen @ vis) p'" by (simp only: standsAt_def)
  with v show ?thesis by blast
qed

lemma seen_finite: "seenUpTo seen p \<Longrightarrow> finite (dom (pbOpen p))"
proof -
  assume s: "seenUpTo seen p"
  have "dom (pbOpen p) \<subseteq> (\<lambda>ev. case fst ev of GateOpened g x \<Rightarrow> g | GateResolved g \<Rightarrow> g | OtherEvent \<Rightarrow> 0) ` set seen"
  proof
    fix g
    assume "g \<in> dom (pbOpen p)"
    then obtain og where "openIn seen g og" using s unfolding seenUpTo_def by blast
    then have "(GateOpened g (ogGate og), ogSeq og) \<in> set seen" unfolding openIn_def by auto
    then show "g \<in> (\<lambda>ev. case fst ev of GateOpened g x \<Rightarrow> g | GateResolved g \<Rightarrow> g | OtherEvent \<Rightarrow> 0) ` set seen" by force
  qed
  then show ?thesis by (rule finite_subset) simp
qed

section \<open>Passes\<close>

definition gate_inv ::
  "'st GateSession \<Rightarrow> ('st \<Rightarrow> GateID set) \<Rightarrow> nat \<Rightarrow> (GateEvent \<times> u64) list \<Rightarrow> Publisher \<times> 'st \<Rightarrow> bool" where
  "gate_inv S ids cap j pst \<longleftrightarrow>
     (case pst of (p, st) \<Rightarrow>
        (\<exists>seen rest. j = seen @ rest \<and> standsAt seen p) \<and>
        (pbDirty p \<or> pbFenced p \<and> visibleOK S ids cap p st) \<and> pbUnpublishable p \<subseteq> refusedGates S)"

definition anyOrder :: "(Publisher \<Rightarrow> gate_id list) \<Rightarrow> bool" where
  "anyOrder order \<longleftrightarrow> (\<forall>p. finite (dom (pbOpen p)) \<longrightarrow> set (order p) = dom (pbOpen p) \<and> distinct (order p))"

lemma passConverge_inv:
  assumes law: "lawfulSession S ids cap" and ks: "set ks = dom (pbOpen p)"
    and before: "pbFenced p" "pbDirty p \<or> visibleOK S ids cap p st" "pbUnpublishable p \<subseteq> refusedGates S"
    and c: "passConverge ks S scope (p, st) = (r, p', st')"
  shows "pbOpen p' = pbOpen p \<and> pbNext p' = pbNext p \<and> pbUnpublishable p' \<subseteq> refusedGates S \<and>
    (pbDirty p' \<or> pbFenced p' \<and> visibleOK S ids cap p' st') \<and>
    (r = None \<longrightarrow> visibleOK S ids cap p' st' \<and> Activity p' = (card (dom (pbOpen p)), pbNext p, True))"
proof -
  let ?p1 = "p\<lparr> pbFolded := True, pbOpenCount := card (dom (pbOpen p)), pbFoldedNext := pbNext p \<rparr>"
  show ?thesis
  proof (cases "pbDirty p")
    case False
    then have "r = None" "p' = ?p1" "st' = st" using c by (simp_all add: passConverge_def Let_def)
    with False before show ?thesis by (simp add: visibleOK_def Activity_def)
  next
    case True
    obtain e p2 st2 where cv: "converge ks S scope (?p1, st) = (e, p2, st2)" by (metis prod.exhaust)
    note fr = converge_frame [OF cv]
    have p2: "pbOpen p2 = pbOpen p" "pbNext p2 = pbNext p" "pbFenced p2 = pbFenced p" "pbDirty p2 = pbDirty p"
        "pbFolded p2 = True" "pbOpenCount p2 = card (dom (pbOpen p))" "pbFoldedNext p2 = pbNext p"
      using fr [THEN conjunct1, THEN arg_cong [of _ _ pbOpen]] fr [THEN conjunct1, THEN arg_cong [of _ _ pbNext]]
        fr [THEN conjunct1, THEN arg_cong [of _ _ pbFenced]] fr [THEN conjunct1, THEN arg_cong [of _ _ pbDirty]]
        fr [THEN conjunct1, THEN arg_cong [of _ _ pbFolded]] fr [THEN conjunct1, THEN arg_cong [of _ _ pbOpenCount]]
        fr [THEN conjunct1, THEN arg_cong [of _ _ pbFoldedNext]] by simp_all
    have un: "pbUnpublishable p2 \<subseteq> refusedGates S" using fr before(3) by auto
    show ?thesis
    proof (cases e)
      case None
      have "visibleOK S ids cap p2 st2" using converge_clean [OF law _ cv [unfolded None]] ks by simp
      moreover have "r = None" "p' = p2\<lparr> pbDirty := False, pbPasses := pbPasses p2 + 1 \<rparr>" "st' = st2"
        using c cv None True by (simp_all add: passConverge_def Let_def)
      ultimately show ?thesis using p2 un before(1) by (simp add: visibleOK_def Activity_def)
    next
      case (Some x)
      then have "r = Some x" "p' = p2" "st' = st2" using c cv True by (simp_all add: passConverge_def Let_def)
      with p2 un True show ?thesis by simp
    qed
  qed
qed

lemma passFence_inv:
  assumes law: "lawfulSession S ids cap" and f: "passFence S (p, st) = (r, p', st')"
    and d: "pbDirty p \<or> pbFenced p \<and> visibleOK S ids cap p st"
  shows "pbOpen p' = pbOpen p \<and> pbNext p' = pbNext p \<and> pbUnpublishable p' = pbUnpublishable p \<and>
    (pbDirty p' \<or> pbFenced p' \<and> visibleOK S ids cap p' st') \<and> (r = None \<longrightarrow> pbFenced p')"
proof (cases "pbFenced p")
  case True
  with f d show ?thesis by (auto simp: passFence_def)
next
  case False
  obtain e st1 where "gsResolve S FenceGateID st = (e, st1)" by fastforce
  with False f d show ?thesis by (cases e) (auto simp: passFence_def)
qed

lemma visibleOK_cong:
  "pbOpen p' = pbOpen p \<Longrightarrow> pbUnpublishable p' = pbUnpublishable p \<Longrightarrow>
     visibleOK S ids cap p' st \<longleftrightarrow> visibleOK S ids cap p st"
  by (simp add: visibleOK_def)

lemma standsAt_cong:
  "pbOpen p' = pbOpen p \<Longrightarrow> pbNext p' = pbNext p \<Longrightarrow> standsAt seen p' \<longleftrightarrow> standsAt seen p"
  by (simp add: standsAt_def seenUpTo_def)

lemma gatePass_inv:
  assumes law: "lawfulSession S ids cap" and ord: "anyOrder order" and wf: "wfJournal j"
    and pre: "prefix j0 j" and inv: "gate_inv S ids cap j0 (p, st)"
    and pass: "gatePass order S j failed (p, st) = (r, p', st')"
  shows "gate_inv S ids cap j (p', st') \<and>
    (r = None \<longrightarrow> standsAt j p' \<and> visibleOK S ids cap p' st' \<and> Activity p' = (card (dom (pbOpen p')), pbNext p', True))"
proof (cases "passScope S (p, st)")
  case (Inl e)
  with pass have "r = Some e" "p' = p" "st' = st" by (simp_all add: gatePass_def)
  moreover have "gate_inv S ids cap j (p, st)" using inv pre unfolding gate_inv_def prefix_def by fastforce
  ultimately show ?thesis by simp
next
  case (Inr scope)
  obtain seen rest where j: "j = seen @ rest" and at: "standsAt seen p"
    using inv pre unfolding gate_inv_def prefix_def by fastforce
  have d: "pbDirty p \<or> pbFenced p \<and> visibleOK S ids cap p st" and un: "pbUnpublishable p \<subseteq> refusedGates S"
    using inv by (simp_all add: gate_inv_def)
  let ?p0 = "p\<lparr> pbScope := Some scope \<rparr>"
  obtain rf p1 st1 where f: "passFence S (?p0, st) = (rf, p1, st1)" by (metis prod.exhaust)
  have d0: "pbDirty ?p0 \<or> pbFenced ?p0 \<and> visibleOK S ids cap ?p0 st" using d by (simp add: visibleOK_def)
  note fi = passFence_inv [OF law f d0]
  have at1: "standsAt seen p1" using at fi by (simp add: standsAt_cong [of p1 p])
  show ?thesis
  proof (cases rf)
    case (Some e)
    with pass Inr f have "r = Some e" "p' = p1" "st' = st1" by (simp_all add: gatePass_def)
    moreover have "gate_inv S ids cap j (p1, st1)" using at1 j fi un by (auto simp: gate_inv_def)
    ultimately show ?thesis by simp
  next
    case None
    obtain rg p2 where fg: "foldGates j failed p1 = (rg, p2)" by fastforce
    obtain vis rest' where v: "rest = vis @ rest'" "p2 = fold visit vis p1" "standsAt (seen @ vis) p2"
        "rg = None \<longrightarrow> rest' = []"
      using foldGates_stands [OF at1 wf [unfolded j] fg [unfolded j]] by blast
    have fr: "pbFenced p2" "pbUnpublishable p2 \<subseteq> refusedGates S" "pbDirty p2 \<or> visibleOK S ids cap p2 st1"
      using fold_frame(1,2) [of vis p1] fi un None visibleOK_cong [of p2 p1 S ids cap st1] unfolding v(2) [symmetric]
      by auto
    show ?thesis
    proof (cases rg)
      case (Some e)
      with pass Inr f None fg have "r = Some e" "p' = p2" "st' = st1" by (simp_all add: gatePass_def)
      moreover have "gate_inv S ids cap j (p2, st1)"
        using v(1,3) j fr unfolding gate_inv_def by (auto simp: append_assoc [symmetric] simp del: append_assoc)
      ultimately show ?thesis by simp
    next
      case rgN: None
      with v have at2: "standsAt j p2" by (simp add: j)
      have pc: "passConverge (order p2) S scope (p2, st1) = (r, p', st')"
        using pass Inr f None fg rgN by (simp add: gatePass_def)
      have "set (order p2) = dom (pbOpen p2)"
        using ord at2 seen_finite unfolding anyOrder_def standsAt_def by blast
      note ci = passConverge_inv [OF law this fr(1,3,2) pc]
      then have "standsAt j p'" using at2 by (simp add: standsAt_cong [of p' p2])
      with ci show ?thesis by (auto simp: gate_inv_def)
    qed
  qed
qed

section \<open>The publisher's loop\<close>

text \<open>
  A run: the passes one after the other, each with the journal as it stands then, each possibly
  interrupted; a superseded pass is the last one.
\<close>

type_synonym gate_passes = "((GateEvent \<times> u64) list \<times> (nat \<times> GateErr) option) list"

fun runPublisher ::
  "(Publisher \<Rightarrow> gate_id list) \<Rightarrow> 'st GateSession \<Rightarrow> gate_passes \<Rightarrow> Publisher \<times> 'st \<Rightarrow> Publisher \<times> 'st" where
  "runPublisher order S [] pst = pst"
| "runPublisher order S (jf # rest) pst =
     (case gatePass order S (fst jf) (snd jf) pst of
        (r, p, st) \<Rightarrow> if r = Some GateSuperseded then (p\<lparr> pbSuperseded := True \<rparr>, st) else runPublisher order S rest (p, st))"

text \<open>The journal only grows.\<close>

fun growing :: "(GateEvent \<times> u64) list \<Rightarrow> gate_passes \<Rightarrow> (GateEvent \<times> u64) list \<Rightarrow> bool" where
  "growing j0 [] j \<longleftrightarrow> prefix j0 j"
| "growing j0 (jf # rest) j \<longleftrightarrow> prefix j0 (fst jf) \<and> growing (fst jf) rest j"

lemma growing_prefix: "growing j0 passes j \<Longrightarrow> prefix j0 j"
  by (induction passes arbitrary: j0) (auto intro: prefix_order.trans)

lemma wfJournal_prefix: "wfJournal j \<Longrightarrow> prefix j0 j \<Longrightarrow> wfJournal j0"
  by (auto simp: wfJournal_def prefix_def sorted_wrt_append)

lemma gate_inv_mono: "gate_inv S ids cap j0 pst \<Longrightarrow> prefix j0 j \<Longrightarrow> gate_inv S ids cap j pst"
  unfolding gate_inv_def prefix_def by fastforce

lemma gate_inv_superseded: "gate_inv S ids cap j (p\<lparr> pbSuperseded := b \<rparr>, st) \<longleftrightarrow> gate_inv S ids cap j (p, st)"
  by (simp add: gate_inv_def standsAt_def seenUpTo_def visibleOK_def)

lemma runPublisher_inv:
  assumes law: "lawfulSession S ids cap" and ord: "anyOrder order" and wf: "wfJournal j"
  shows "growing j0 passes j \<Longrightarrow> gate_inv S ids cap j0 pst \<Longrightarrow> gate_inv S ids cap j (runPublisher order S passes pst)"
proof (induction passes arbitrary: j0 pst)
  case Nil
  then show ?case using gate_inv_mono by fastforce
next
  case (Cons jf rest)
  obtain r p st where pass: "gatePass order S (fst jf) (snd jf) pst = (r, p, st)" by (metis prod.exhaust)
  have pre: "prefix j0 (fst jf)" and g: "growing (fst jf) rest j" using Cons.prems(1) by simp_all
  have "gate_inv S ids cap (fst jf) (p, st)"
    using gatePass_inv [OF law ord wfJournal_prefix [OF wf growing_prefix [OF g]] pre, of "fst pst" "snd pst" "snd jf" r p st]
      Cons.prems(2) pass by simp
  moreover have "gate_inv S ids cap j (p\<lparr> pbSuperseded := True \<rparr>, st)"
    unfolding gate_inv_superseded by (rule gate_inv_mono [OF calculation growing_prefix [OF g]])
  ultimately show ?case using Cons.IH [OF g] pass by simp
qed

lemma start_inv:
  assumes "StartPublisher opts = Inr p"
  shows "gate_inv S ids cap [] (p, st)"
proof -
  have "pbDirty p" "pbOpen p = Map.empty" "pbNext p = 1" "pbUnpublishable p = {}"
    using assms by (auto simp: StartPublisher_def split: if_splits)
  then show ?thesis by (simp add: gate_inv_def standsAt_def seenUpTo_def)
qed

text \<open>
  C11: the gate publisher converges.  However its passes went before (journals that grow, replays
  cut short, writes that failed or half happened), after a pass that returns no error the gates it
  holds open are exactly those whose last event in the journal is their opening; nothing else is
  projected, in particular no resolved gate and not the fence; every open gate is projected, unless
  the store refused it for good or the projection is full; and the activity it reports is the
  number of open gates at the position folded to.
\<close>

theorem gates_converge:
  assumes law: "lawfulSession S ids cap" and ord: "anyOrder order" and wf: "wfJournal j"
    and start: "StartPublisher opts = Inr p0" and grow: "growing [] passes j"
    and pass: "gatePass order S j failed (runPublisher order S passes (p0, st0)) = (None, p, st)"
  shows "(\<forall>g og. pbOpen p g = Some og \<longleftrightarrow> openIn j g og) \<and>
    ids st \<subseteq> {gsName S g | g og. openIn j g og} \<and> FenceGateID \<notin> ids st \<and>
    (\<forall>g og. openIn j g og \<longrightarrow> gsName S g \<in> ids st \<or> gsName S g \<in> refusedGates S \<or> cap \<le> card (ids st)) \<and>
    Activity p = (card {g. \<exists>og. openIn j g og}, pbNext p, True)"
proof -
  obtain p1 st1 where run: "runPublisher order S passes (p0, st0) = (p1, st1)" by fastforce
  have "gate_inv S ids cap j (p1, st1)"
    using runPublisher_inv [OF law ord wf grow start_inv [OF start], of st0] by (simp add: run)
  note r = gatePass_inv [OF law ord wf prefix_order.refl this pass [unfolded run]]
  have open': "pbOpen p g = Some og \<longleftrightarrow> openIn j g og" for g og using r by (simp add: standsAt_def seenUpTo_def)
  then have dom: "dom (pbOpen p) = {g. \<exists>og. openIn j g og}" by auto
  have vis: "ids st \<subseteq> gsName S ` dom (pbOpen p)"
      "\<forall>g\<in>dom (pbOpen p). gsName S g \<in> ids st \<or> gsName S g \<in> pbUnpublishable p \<or> cap \<le> card (ids st)"
    using r by (simp_all add: visibleOK_def)
  have "ids st \<subseteq> {gsName S g | g og. openIn j g og}" using vis(1) unfolding dom by blast
  moreover have "FenceGateID \<notin> ids st" using vis(1) lawful(2) [OF law] by blast
  moreover have "gsName S g \<in> ids st \<or> gsName S g \<in> refusedGates S \<or> cap \<le> card (ids st)" if "openIn j g og" for g og
    using vis(2) r that dom by (auto simp: gate_inv_def)
  moreover have "Activity p = (card {g. \<exists>og. openIn j g og}, pbNext p, True)" using r dom by simp
  ultimately show ?thesis using open' by blast
qed

text \<open>A store that holds at most two gates, and a journal whose first gate is resolved.\<close>

definition exGateSession :: "GateID list GateSession" where
  "exGateSession = \<lparr> gsName = (\<lambda>g. replicate g (CHR ''g'')), gsScope = (\<lambda>_. Inr \<lparr> scTenantID = ''t'', scSessionID = ''s'',
       scAgentID = ''a'', scRuntimeSessionID = 1 \<rparr>),
     gsProject = (\<lambda>_ g og dl. Inr \<lparr> gpGateID = replicate g (CHR ''g''), gpSeq = ogSeq og, gpDeadline = dl \<rparr>),
     gsProjected = (\<lambda>st. Inr (map (\<lambda>i. \<lparr> gpGateID = i, gpSeq = 0, gpDeadline = 0 \<rparr>) st)),
     gsOpen = (\<lambda>p st. if card (set st) \<ge> 2 then (Some GateFull, st) else (None, st @ [gpGateID p])),
     gsResolve = (\<lambda>i st. (None, filter (\<lambda>x. x \<noteq> i) st)) \<rparr>"

definition exGate :: Gate where
  "exGate = \<lparr> gtKind = KindPermission, gtTimeout = 0, gtCreatedAt = 0, gtRest = 0 \<rparr>"

definition exJournal :: "(GateEvent \<times> u64) list" where
  "exJournal = [(GateOpened 1 exGate, 1), (OtherEvent, 2), (GateOpened 2 exGate, 3), (GateResolved 1, 4)]"

lemma exGateSession_lawful: "lawfulSession exGateSession set 2"
proof -
  have "FenceGateID \<noteq> replicate n (CHR ''g'')" for n
  proof
    assume "FenceGateID = replicate n (CHR ''g'')"
    then have "c \<in> set FenceGateID \<Longrightarrow> c = CHR ''g''" for c by (metis in_set_replicate)
    from this [of "CHR ''h''"] show False by (simp add: FenceGateID_def)
  qed
  then show ?thesis by (auto simp: lawfulSession_def exGateSession_def image_image split: if_splits)
qed

text \<open>The keys of a map in some order.\<close>

definition someOrder :: "Publisher \<Rightarrow> gate_id list" where
  "someOrder p = sorted_list_of_set (dom (pbOpen p))"

lemma someOrder_any: "anyOrder someOrder"
  by (simp add: anyOrder_def someOrder_def)

lemma exPass:
  "\<exists>p st. gatePass someOrder exGateSession exJournal None
     (runPublisher someOrder exGateSession [(take 1 exJournal, None), (exJournal, Some (1, GateOther ''io''))]
        (projr (StartPublisher \<lparr> gxSession = True, gxHints = True, gxAfter = True, gxRetry = 1 \<rparr>), [FenceGateID])) = (None, p, st)"
  by (simp add: gatePass_def passScope_def passFence_def passConverge_def foldGates_def converge_def StartPublisher_def
      exGateSession_def exJournal_def visit_def someOrder_def pendingGates_def tryOpen_def joinGate_def FenceGateID_def Let_def
      Deadline_def map_del_def)

theorem gates_converge_witness:
  "\<exists>p st. gatePass someOrder exGateSession exJournal None
       (runPublisher someOrder exGateSession [(take 1 exJournal, None), (exJournal, Some (1, GateOther ''io''))]
          (projr (StartPublisher \<lparr> gxSession = True, gxHints = True, gxAfter = True, gxRetry = 1 \<rparr>), [FenceGateID])) = (None, p, st) \<and>
     (\<forall>g og. pbOpen p g = Some og \<longleftrightarrow> openIn exJournal g og) \<and> FenceGateID \<notin> set st \<and>
     set st \<subseteq> {gsName exGateSession g | g og. openIn exJournal g og}"
proof -
  let ?opts = "\<lparr> gxSession = True, gxHints = True, gxAfter = True, gxRetry = 1 \<rparr>"
  let ?passes = "[(take 1 exJournal, None), (exJournal, Some (1, GateOther ''io''))]"
  have start: "StartPublisher ?opts = Inr (projr (StartPublisher ?opts))" by (simp add: StartPublisher_def)
  have wf: "wfJournal exJournal" by (simp add: wfJournal_def exJournal_def)
  have grow: "growing [] ?passes exJournal" by (simp add: exJournal_def)
  obtain p st where pass: "gatePass someOrder exGateSession exJournal None
      (runPublisher someOrder exGateSession ?passes (projr (StartPublisher ?opts), [FenceGateID])) = (None, p, st)"
    using exPass by blast
  from gates_converge [OF exGateSession_lawful someOrder_any wf start grow pass] pass show ?thesis by blast
qed

end
