(* ===== verification/Json.thy ===== *)
theory Json
  imports Host_Prelude
begin

text \<open>
  The part of Go's \<^verbatim>\<open>encoding/json\<close> that the Host's public bodies go through, on bytes: the scanner
  behind \<^verbatim>\<open>json.Valid\<close> and the decoder, the splitting of an object into its members with their
  raw bytes, the decoding of a string, and the compact, HTML-escaped encoding of \<^verbatim>\<open>json.Marshal\<close>.

  The scanner descends with a fuel of one step per byte of the text.  A string is taken to be valid
  UTF-8, so the decoder's replacement of broken sequences is left out.
\<close>

section \<open>Bytes\<close>

abbreviation QUOTE :: char where "QUOTE \<equiv> CHR 0x22"
abbreviation BSLASH :: char where "BSLASH \<equiv> CHR 0x5C"

definition code :: "char \<Rightarrow> nat" where "code c = of_char c"

definition isWs :: "char \<Rightarrow> bool" where
  "isWs c \<longleftrightarrow> c \<in> {CHR 0x20, CHR 0x09, CHR 0x0A, CHR 0x0D}"

definition isDigit :: "char \<Rightarrow> bool" where
  "isDigit c \<longleftrightarrow> 48 \<le> code c \<and> code c \<le> 57"

definition isLowerHex :: "char \<Rightarrow> bool" where
  "isLowerHex c \<longleftrightarrow> isDigit c \<or> 97 \<le> code c \<and> code c \<le> 102"

definition isHex :: "char \<Rightarrow> bool" where
  "isHex c \<longleftrightarrow> isLowerHex c \<or> 65 \<le> code c \<and> code c \<le> 70"

definition skipWs :: "string \<Rightarrow> string" where
  "skipWs = dropWhile isWs"

section \<open>The scanner\<close>

text \<open>The content of a string behind its opening quote, and what follows the closing one.\<close>

fun scanString :: "string \<Rightarrow> (string \<times> string) option" where
  "scanString [] = None"
| "scanString (c # cs) =
     (if c = QUOTE then Some ([], cs)
      else if c = BSLASH then
        (case cs of
           [] \<Rightarrow> None
         | e # r \<Rightarrow>
             if e \<in> {QUOTE, BSLASH, CHR ''/'', CHR ''b'', CHR ''f'', CHR ''n'', CHR ''r'', CHR ''t''}
             then map_option (\<lambda>(raw, rest). (c # e # raw, rest)) (scanString r)
             else if e = CHR ''u'' \<and> 4 \<le> length r \<and> list_all isHex (take 4 r)
             then map_option (\<lambda>(raw, rest). (c # e # take 4 r @ raw, rest)) (scanString (drop 4 r))
             else None)
      else if code c < 32 then None
      else map_option (\<lambda>(raw, rest). (c # raw, rest)) (scanString cs))"

definition digits1 :: "string \<Rightarrow> string option" where
  "digits1 s = (case s of c # _ \<Rightarrow> if isDigit c then Some (dropWhile isDigit s) else None | [] \<Rightarrow> None)"

definition scanFrac :: "string \<Rightarrow> string option" where
  "scanFrac s = (case s of c # r \<Rightarrow> if c = CHR ''.'' then digits1 r else Some s | [] \<Rightarrow> Some s)"

definition scanExp :: "string \<Rightarrow> string option" where
  "scanExp s =
     (case s of
        c # r \<Rightarrow>
          if c \<in> {CHR ''e'', CHR ''E''}
          then (case r of d # r' \<Rightarrow> if d \<in> {CHR ''+'', CHR ''-''} then digits1 r' else digits1 r | [] \<Rightarrow> None)
          else Some s
      | [] \<Rightarrow> Some s)"

definition scanNumber :: "string \<Rightarrow> string option" where
  "scanNumber s =
     (let s1 = (case s of c # r \<Rightarrow> if c = CHR ''-'' then r else s | [] \<Rightarrow> s) in
      case s1 of
        [] \<Rightarrow> None
      | c # r \<Rightarrow>
          Option.bind (if c = CHR ''0'' then Some r else if isDigit c then Some (dropWhile isDigit r) else None)
            (\<lambda>s2. Option.bind (scanFrac s2) scanExp))"

definition scanWord :: "string \<Rightarrow> string \<Rightarrow> string option" where
  "scanWord w s = (if take (length w) s = w then Some (drop (length w) s) else None)"

text \<open>One value; the members of an object behind a brace or a comma; the elements of an array.\<close>

fun scanValue :: "nat \<Rightarrow> string \<Rightarrow> string option"
  and scanMembers :: "nat \<Rightarrow> string \<Rightarrow> string option"
  and scanElements :: "nat \<Rightarrow> string \<Rightarrow> string option" where
  "scanValue 0 s = None"
| "scanValue (Suc n) s =
     (case skipWs s of
        [] \<Rightarrow> None
      | c # cs \<Rightarrow>
          if c = QUOTE then map_option snd (scanString cs)
          else if c = CHR ''{'' then
            (case skipWs cs of d # r \<Rightarrow> if d = CHR ''}'' then Some r else scanMembers n cs | [] \<Rightarrow> None)
          else if c = CHR ''['' then
            (case skipWs cs of d # r \<Rightarrow> if d = CHR '']'' then Some r else scanElements n cs | [] \<Rightarrow> None)
          else if c = CHR ''t'' then scanWord ''true'' (c # cs)
          else if c = CHR ''f'' then scanWord ''false'' (c # cs)
          else if c = CHR ''n'' then scanWord ''null'' (c # cs)
          else scanNumber (c # cs))"
| "scanMembers 0 s = None"
| "scanMembers (Suc n) s =
     (case skipWs s of
        c # cs \<Rightarrow>
          if c = QUOTE then
            (case scanString cs of
               Some (_, s1) \<Rightarrow>
                 (case skipWs s1 of
                    d # s2 \<Rightarrow>
                      if d = CHR '':'' then
                        (case scanValue n s2 of
                           Some s3 \<Rightarrow>
                             (case skipWs s3 of
                                e # s4 \<Rightarrow>
                                  if e = CHR '','' then scanMembers n s4 else if e = CHR ''}'' then Some s4 else None
                              | [] \<Rightarrow> None)
                         | None \<Rightarrow> None)
                      else None
                  | [] \<Rightarrow> None)
             | None \<Rightarrow> None)
          else None
      | [] \<Rightarrow> None)"
| "scanElements 0 s = None"
| "scanElements (Suc n) s =
     (case scanValue n s of
        Some s1 \<Rightarrow>
          (case skipWs s1 of
             e # s2 \<Rightarrow> if e = CHR '','' then scanElements n s2 else if e = CHR '']'' then Some s2 else None
           | [] \<Rightarrow> None)
      | None \<Rightarrow> None)"

definition scanOne :: "string \<Rightarrow> string option" where
  "scanOne s = scanValue (2 * length s + 2) s"

definition jsonValid :: "string \<Rightarrow> bool" where
  "jsonValid s \<longleftrightarrow> (case scanOne s of Some rest \<Rightarrow> skipWs rest = [] | None \<Rightarrow> False)"

section \<open>Decoding a string\<close>

definition hexVal :: "char \<Rightarrow> nat" where
  "hexVal c = (if isDigit c then code c - 48 else if 97 \<le> code c then code c - 87 else code c - 55)"

definition hex4Val :: "string \<Rightarrow> nat" where
  "hex4Val s = foldl (\<lambda>n c. 16 * n + hexVal c) 0 (take 4 s)"

definition utf8Encode :: "nat \<Rightarrow> string" where
  "utf8Encode n = map char_of
     (if n < 0x80 then [n]
      else if n < 0x800 then [0xC0 + n div 64, 0x80 + n mod 64]
      else if n < 0x10000 then [0xE0 + n div 4096, 0x80 + n div 64 mod 64, 0x80 + n mod 64]
      else [0xF0 + n div 262144, 0x80 + n div 4096 mod 64, 0x80 + n div 64 mod 64, 0x80 + n mod 64])"

definition unescape1 :: "char \<Rightarrow> char" where
  "unescape1 e =
     (if e = CHR ''b'' then CHR 0x08 else if e = CHR ''f'' then CHR 0x0C else if e = CHR ''n'' then CHR 0x0A
      else if e = CHR ''r'' then CHR 0x0D else if e = CHR ''t'' then CHR 0x09 else e)"

definition isHighSurrogate :: "nat \<Rightarrow> bool" where "isHighSurrogate n \<longleftrightarrow> 0xD800 \<le> n \<and> n < 0xDC00"
definition isLowSurrogate :: "nat \<Rightarrow> bool" where "isLowSurrogate n \<longleftrightarrow> 0xDC00 \<le> n \<and> n < 0xE000"

fun unquote :: "string \<Rightarrow> string" where
  "unquote [] = []"
| "unquote (c # cs) =
     (if c \<noteq> BSLASH then c # unquote cs
      else
        (case cs of
           [] \<Rightarrow> []
         | e # r \<Rightarrow>
             if e \<noteq> CHR ''u'' then unescape1 e # unquote r
             else
               (let n = hex4Val r; r1 = drop 4 r in
                if isHighSurrogate n \<and> take 2 r1 = [BSLASH, CHR ''u''] \<and> isLowSurrogate (hex4Val (drop 2 r1))
                then utf8Encode (0x10000 + (n - 0xD800) * 1024 + (hex4Val (drop 2 r1) - 0xDC00)) @ unquote (drop 6 r1)
                else if isHighSurrogate n \<or> isLowSurrogate n then utf8Encode 0xFFFD @ unquote r1
                else utf8Encode n @ unquote r1)))"

text \<open>The string a raw value holds, if it is one.\<close>

definition decodeString :: "string \<Rightarrow> string option" where
  "decodeString raw =
     (case raw of
        c # cs \<Rightarrow> if c = QUOTE then map_option (unquote \<circ> fst) (scanString cs) else None
      | [] \<Rightarrow> None)"

section \<open>Members of an object\<close>

record JMember =
  jmKey :: string
  jmRawKey :: string
  jmValue :: string

text \<open>The members behind a brace or a comma: the key, its bytes, the bytes of the value.\<close>

fun memberList :: "nat \<Rightarrow> string \<Rightarrow> (JMember list \<times> string) option" where
  "memberList 0 s = None"
| "memberList (Suc n) s =
     (case skipWs s of
        c # cs \<Rightarrow>
          if c \<noteq> QUOTE then None
          else
            (case scanString cs of
               None \<Rightarrow> None
             | Some (raw, s1) \<Rightarrow>
                 (case skipWs s1 of
                    [] \<Rightarrow> None
                  | d # s2 \<Rightarrow>
                      if d \<noteq> CHR '':'' then None
                      else
                        (let s2' = skipWs s2 in
                         case scanOne s2' of
                           None \<Rightarrow> None
                         | Some s3 \<Rightarrow>
                             (let m = \<lparr> jmKey = unquote raw, jmRawKey = QUOTE # raw @ [QUOTE],
                                        jmValue = take (length s2' - length s3) s2' \<rparr> in
                              case skipWs s3 of
                                [] \<Rightarrow> None
                              | e # s4 \<Rightarrow>
                                  if e = CHR ''}'' then Some ([m], s4)
                                  else if e = CHR '','' then map_option (\<lambda>(ms, rest). (m # ms, rest)) (memberList n s4)
                                  else None))))
      | [] \<Rightarrow> None)"

definition splitObject :: "string \<Rightarrow> (JMember list \<times> string) option" where
  "splitObject s =
     (case skipWs s of
        c # cs \<Rightarrow>
          if c \<noteq> CHR ''{'' then None
          else (case skipWs cs of d # r \<Rightarrow> if d = CHR ''}'' then Some ([], r) else memberList (length cs) cs | [] \<Rightarrow> None)
      | [] \<Rightarrow> None)"

section \<open>Encoding\<close>

definition hexDigit :: "nat \<Rightarrow> char" where
  "hexDigit n = char_of (if n < 10 then 48 + n else 87 + n)"

definition escByte :: "char \<Rightarrow> string" where
  "escByte c =
     (if c = QUOTE then [BSLASH, QUOTE]
      else if c = BSLASH then [BSLASH, BSLASH]
      else if c = CHR 0x08 then [BSLASH, CHR ''b'']
      else if c = CHR 0x0C then [BSLASH, CHR ''f'']
      else if c = CHR 0x0A then [BSLASH, CHR ''n'']
      else if c = CHR 0x0D then [BSLASH, CHR ''r'']
      else if c = CHR 0x09 then [BSLASH, CHR ''t'']
      else if code c < 32 \<or> c \<in> {CHR ''<'', CHR ''>'', CHR ''&''}
      then [BSLASH, CHR ''u'', CHR ''0'', CHR ''0'', hexDigit (code c div 16), hexDigit (code c mod 16)]
      else [c])"

text \<open>The two line separators that are escaped although they are printable.\<close>

definition isSeparator :: "string \<Rightarrow> bool" where
  "isSeparator s \<longleftrightarrow> take 3 s = [CHR 0xE2, CHR 0x80, CHR 0xA8] \<or> take 3 s = [CHR 0xE2, CHR 0x80, CHR 0xA9]"

definition escSeparator :: "string \<Rightarrow> string" where
  "escSeparator s = [BSLASH, CHR ''u'', CHR ''2'', CHR ''0'', CHR ''2'', if s ! 2 = CHR 0xA8 then CHR ''8'' else CHR ''9'']"

fun goEscape :: "string \<Rightarrow> string" where
  "goEscape [] = []"
| "goEscape (c # cs) =
     (if isSeparator (c # cs) then escSeparator (c # cs) @ goEscape (drop 2 cs) else escByte c @ goEscape cs)"

definition goQuote :: "string \<Rightarrow> string" where
  "goQuote s = QUOTE # goEscape s @ [QUOTE]"

text \<open>
  What \<^verbatim>\<open>json.Marshal\<close> makes of bytes that are JSON already: white space between the tokens goes,
  and inside strings the HTML characters and the separators are escaped.
\<close>

fun goCompact :: "bool \<Rightarrow> string \<Rightarrow> string" where
  "goCompact inStr [] = []"
| "goCompact inStr (c # cs) =
     (if \<not> inStr then (if isWs c then goCompact False cs else c # goCompact (c = QUOTE) cs)
      else if c = QUOTE then c # goCompact False cs
      else if c = BSLASH then (case cs of [] \<Rightarrow> [c] | e # r \<Rightarrow> c # e # goCompact True r)
      else if isSeparator (c # cs) then escSeparator (c # cs) @ goCompact True (drop 2 cs)
      else if c \<in> {CHR ''<'', CHR ''>'', CHR ''&''} then escByte c @ goCompact True cs
      else c # goCompact True cs)"

fun joinWith :: "char \<Rightarrow> string list \<Rightarrow> string" where
  "joinWith sep [] = []"
| "joinWith sep [x] = x"
| "joinWith sep (x # y # ys) = x @ sep # joinWith sep (y # ys)"

text \<open>The bodies the runtime writes: values, encoded by the library.\<close>

datatype JSON = JNull | JBool bool | JNum string | JStr string | JArr "JSON list" | JObj "(string \<times> JSON) list"

fun jsonText :: "JSON \<Rightarrow> string" where
  "jsonText JNull = ''null''"
| "jsonText (JBool b) = (if b then ''true'' else ''false'')"
| "jsonText (JNum t) = t"
| "jsonText (JStr s) = goQuote s"
| "jsonText (JArr xs) = CHR ''['' # joinWith (CHR '','') (map jsonText xs) @ [CHR '']'']"
| "jsonText (JObj ms) = CHR ''{'' # joinWith (CHR '','') (map (\<lambda>(k, v). goQuote k @ CHR '':'' # jsonText v) ms) @ [CHR ''}'']"

end
