(* ===== verification/PublicBody.thy ===== *)
theory PublicBody
  imports Json "HOL-Library.Sublist"
begin

text \<open>
  The projection of a committed body onto public identities, \<^verbatim>\<open>internal/publicbody/publicbody.go\<close>.

  A body is its bytes.  A UUID is its canonical text; Core's parser and validators are a record of
  functions.  A resolver of commands has a state of its own, because the index behind it remembers
  what it read.
\<close>

section \<open>Replacing an identity in the bytes\<close>

type_synonym uuid = string
type_synonym command_id = string

fun indexOf :: "string \<Rightarrow> string \<Rightarrow> nat option" where
  "indexOf p [] = (if p = [] then Some 0 else None)"
| "indexOf p (c # cs) = (if take (length p) (c # cs) = p then Some 0 else map_option Suc (indexOf p cs))"

definition backslashesBefore :: "string \<Rightarrow> nat \<Rightarrow> nat" where
  "backslashesBefore body u = length (takeWhile (\<lambda>c. c = BSLASH) (rev (take u body)))"

definition isEscapeLead :: "string \<Rightarrow> nat \<Rightarrow> bool" where
  "isEscapeLead body u \<longleftrightarrow> \<not> (u = 0 \<or> body ! (u - 1) \<noteq> BSLASH) \<and> backslashesBefore body u mod 2 = 1"

definition overlapsUnicodeEscape :: "string \<Rightarrow> nat \<Rightarrow> bool" where
  "overlapsUnicodeEscape body matchStart \<longleftrightarrow>
     list_ex (\<lambda>offset. offset \<le> matchStart \<and> body ! (matchStart - offset) = CHR ''u'' \<and> isEscapeLead body (matchStart - offset))
       [1, 2, 3, 4]"

lemma indexOf_bound: "indexOf p s = Some i \<Longrightarrow> i + length p \<le> length s"
proof (induction s arbitrary: i)
  case Nil
  then show ?case by (simp split: if_splits)
next
  case (Cons c s)
  show ?case
  proof (cases "take (length p) (c # s) = p")
    case True
    then have "length p \<le> length (c # s)" by (metis length_take min.cobounded1)
    with True Cons.prems show ?thesis by simp
  next
    case False
    with Cons.prems obtain k where "indexOf p s = Some k" "i = Suc k" by auto
    with Cons.IH show ?thesis by auto
  qed
qed

text \<open>A UUID's text is never empty.\<close>

function replaceLoop :: "string \<Rightarrow> string \<Rightarrow> string \<Rightarrow> nat \<Rightarrow> string" where
  "replaceLoop body old new base =
     (if old = [] then drop base body
      else
        (case indexOf old (drop base body) of
           None \<Rightarrow> drop base body
         | Some idx \<Rightarrow>
             if overlapsUnicodeEscape body (base + idx)
             then take (idx + 1) (drop base body) @ replaceLoop body old new (base + idx + 1)
             else take idx (drop base body) @ new @ replaceLoop body old new (base + idx + length old)))"
  by pat_completeness auto

termination
proof (relation "measure (\<lambda>(body, _, _, base). Suc (length body) - base)")
  show "((body, old, new, base + idx + 1), (body, old, new, base)) \<in> measure (\<lambda>(body, _, _, base). Suc (length body) - base)"
    if "old \<noteq> []" "indexOf old (drop base body) = Some idx" for body old new base idx
    using indexOf_bound [OF that(2)] that(1) by (cases old) auto
  show "((body, old, new, base + idx + length old), (body, old, new, base)) \<in> measure (\<lambda>(body, _, _, base). Suc (length body) - base)"
    if "old \<noteq> []" "indexOf old (drop base body) = Some idx" for body old new base idx
    using indexOf_bound [OF that(2)] that(1) by (cases old) auto
qed simp

declare replaceLoop.simps [simp del]

definition replaceAll :: "string \<Rightarrow> string \<Rightarrow> string \<Rightarrow> string" where
  "replaceAll body uuidText replacement =
     (case indexOf uuidText body of None \<Rightarrow> body | Some _ \<Rightarrow> replaceLoop body uuidText (goEscape replacement) 0)"

section \<open>The projection\<close>

datatype ProjectError =
    NoRuntimeSession | InvalidPublicSession | ErrNonCanonical | MappingError string

record PublicCore =
  pcParseUUID :: "string \<Rightarrow> uuid option"
  pcIsZero :: "uuid \<Rightarrow> bool"
  pcValidSession :: "session_id \<Rightarrow> bool"

type_synonym 'st Commands = "uuid \<Rightarrow> u64 \<Rightarrow> 'st \<Rightarrow> (string + command_id option) \<times> 'st"

record 'st Identities =
  idRuntimeSessionID :: uuid
  idSessionID :: session_id
  idCommands :: "'st Commands option"

definition firstByte :: "string \<Rightarrow> char option" where
  "firstByte raw = (case raw of [] \<Rightarrow> None | c # _ \<Rightarrow> Some c)"

definition objectMembers :: "string \<Rightarrow> ProjectError + JMember list" where
  "objectMembers raw = (case splitObject raw of None \<Rightarrow> Inl ErrNonCanonical | Some (ms, _) \<Rightarrow> Inr ms)"

definition encodeObject :: "JMember list \<Rightarrow> string" where
  "encodeObject members =
     CHR ''{'' # joinWith (CHR '','') (map (\<lambda>m. jmRawKey m @ CHR '':'' # jmValue m) members) @ [CHR ''}'']"

text \<open>A value that is not a runtime command has no public identity either.\<close>

definition resolveCommand ::
  "PublicCore \<Rightarrow> 'st Identities \<Rightarrow> u64 \<Rightarrow> string \<Rightarrow> 'st \<Rightarrow> (ProjectError + (uuid \<times> command_id) option) \<times> 'st" where
  "resolveCommand pc ids seq raw st =
     (case decodeString raw of
        None \<Rightarrow> (Inr None, st)
      | Some text \<Rightarrow>
          (case pcParseUUID pc text of
             None \<Rightarrow> (Inr None, st)
           | Some runtime \<Rightarrow>
               if pcIsZero pc runtime then (Inr None, st)
               else
                 (case idCommands ids of
                    None \<Rightarrow> (Inr None, st)
                  | Some commands \<Rightarrow>
                      (case commands runtime seq st of
                         (Inl e, st') \<Rightarrow> (Inl (MappingError e), st')
                       | (Inr None, st') \<Rightarrow> (Inr None, st')
                       | (Inr (Some public), st') \<Rightarrow> (Inr (Some (runtime, public)), st')))))"

text \<open>The last member named so that holds an object; the first member named so.\<close>

definition causeAt :: "JMember list \<Rightarrow> nat option" where
  "causeAt members =
     (case filter (\<lambda>i. jmKey (members ! i) = ''cause'' \<and> firstByte (jmValue (members ! i)) = Some (CHR ''{''))
             [0..<length members] of
        [] \<Rightarrow> None | is \<Rightarrow> Some (last is))"

definition commandAt :: "JMember list \<Rightarrow> nat option" where
  "commandAt cause =
     (case filter (\<lambda>i. jmKey (cause ! i) = ''command_id'') [0..<length cause] of [] \<Rightarrow> None | i # _ \<Rightarrow> Some i)"

definition removeAt :: "nat \<Rightarrow> 'a list \<Rightarrow> 'a list" where
  "removeAt i xs = take i xs @ drop (Suc i) xs"

definition withoutCommand :: "JMember list \<Rightarrow> nat \<Rightarrow> JMember list \<Rightarrow> nat \<Rightarrow> string" where
  "withoutCommand members at cause i =
     (let cause' = removeAt i cause in
      if cause' = [] then encodeObject (removeAt at members)
      else encodeObject (members[at := (members ! at)\<lparr> jmValue := encodeObject cause' \<rparr>]))"

definition projectCause ::
  "PublicCore \<Rightarrow> 'st Identities \<Rightarrow> u64 \<Rightarrow> string \<Rightarrow> 'st \<Rightarrow> (ProjectError + string) \<times> 'st" where
  "projectCause pc ids seq body st =
     (if firstByte body \<noteq> Some (CHR ''{'') \<or> indexOf (QUOTE # ''command_id'' @ [QUOTE]) body = None then (Inr body, st)
      else
        (case objectMembers body of
           Inl e \<Rightarrow> (Inl e, st)
         | Inr members \<Rightarrow>
             (case causeAt members of
                None \<Rightarrow> (Inr body, st)
              | Some at \<Rightarrow>
                  (case objectMembers (jmValue (members ! at)) of
                     Inl e \<Rightarrow> (Inl e, st)
                   | Inr cause \<Rightarrow>
                       (case commandAt cause of
                          None \<Rightarrow> (Inr body, st)
                        | Some i \<Rightarrow>
                            (case resolveCommand pc ids seq (jmValue (cause ! i)) st of
                               (Inl e, st') \<Rightarrow> (Inl e, st')
                             | (Inr (Some (runtime, public)), st') \<Rightarrow> (Inr (replaceAll body runtime public), st')
                             | (Inr None, st') \<Rightarrow> (Inr (withoutCommand members at cause i), st')))))))"

definition canonical :: "string \<Rightarrow> bool" where
  "canonical body \<longleftrightarrow> body \<noteq> [] \<and> jsonValid body \<and> goCompact False body = body"

definition Project ::
  "PublicCore \<Rightarrow> 'st Identities \<Rightarrow> u64 \<Rightarrow> string \<Rightarrow> 'st \<Rightarrow> (ProjectError + string) \<times> 'st" where
  "Project pc ids seq body st =
     (if pcIsZero pc (idRuntimeSessionID ids) then (Inl NoRuntimeSession, st)
      else if \<not> pcValidSession pc (idSessionID ids) then (Inl InvalidPublicSession, st)
      else
        (case projectCause pc ids seq (replaceAll body (idRuntimeSessionID ids) (idSessionID ids)) st of
           (Inl e, st') \<Rightarrow> (Inl e, st')
         | (Inr out, st') \<Rightarrow> if \<not> canonical out then (Inl ErrNonCanonical, st') else (Inr out, st')))"

section \<open>What replacing in the bytes means\<close>

text \<open>The text of a UUID: hexadecimal digits and four hyphens.\<close>

definition uuidChar :: "char \<Rightarrow> bool" where
  "uuidChar c \<longleftrightarrow> isLowerHex c \<or> c = CHR ''-''"

definition uuidText :: "string \<Rightarrow> bool" where
  "uuidText u \<longleftrightarrow> length u = 36 \<and> list_all uuidChar u \<and> count_list u (CHR ''-'') = 4"

text \<open>The loop, one byte at a time, over what lies before and what lies ahead.\<close>

definition trail :: "string \<Rightarrow> nat" where
  "trail pre = length (takeWhile (\<lambda>c. c = BSLASH) (rev pre))"

definition overlapsAt :: "string \<Rightarrow> bool" where
  "overlapsAt pre \<longleftrightarrow>
     list_ex (\<lambda>k. k \<le> length pre \<and> pre ! (length pre - k) = CHR ''u'' \<and> trail (take (length pre - k) pre) mod 2 = 1) [1, 2, 3, 4]"

fun rep :: "string \<Rightarrow> string \<Rightarrow> string \<Rightarrow> string \<Rightarrow> string" where
  "rep pre u n [] = []"
| "rep pre u n (c # cs) =
     (if u \<noteq> [] \<and> take (length u) (c # cs) = u \<and> \<not> overlapsAt pre
      then n @ rep (pre @ u) u n (drop (length u - 1) cs)
      else c # rep (pre @ [c]) u n cs)"

lemma isEscapeLead_pre:
  assumes "i < length pre"
  shows "isEscapeLead (pre @ post) i \<longleftrightarrow> trail (take i pre) mod 2 = 1"
proof -
  have t: "backslashesBefore (pre @ post) i = trail (take i pre)"
    using assms by (simp add: backslashesBefore_def trail_def)
  show ?thesis
  proof (cases i)
    case 0
    then show ?thesis by (simp add: isEscapeLead_def trail_def)
  next
    case (Suc k)
    have "trail (take i pre) = 0" if "pre ! k \<noteq> BSLASH"
      using that assms Suc by (simp add: trail_def take_Suc_conv_app_nth)
    with t assms Suc show ?thesis by (cases "pre ! k = BSLASH") (simp_all add: isEscapeLead_def nth_append)
  qed
qed

lemma overlaps_pre: "overlapsUnicodeEscape (pre @ post) (length pre) \<longleftrightarrow> overlapsAt pre"
proof -
  have "(k \<le> length pre \<and> (pre @ post) ! (length pre - k) = CHR ''u'' \<and> isEscapeLead (pre @ post) (length pre - k)) \<longleftrightarrow>
      (k \<le> length pre \<and> pre ! (length pre - k) = CHR ''u'' \<and> trail (take (length pre - k) pre) mod 2 = 1)" if "0 < k" for k
    using that isEscapeLead_pre [of "length pre - k" pre post] by (auto simp: nth_append)
  then show ?thesis by (simp add: overlapsUnicodeEscape_def overlapsAt_def)
qed

lemma rep_skip:
  assumes "u \<noteq> []"
  shows "indexOf u post = None \<Longrightarrow> rep pre u n post = post"
    and "indexOf u post = Some i \<Longrightarrow>
      rep pre u n post = take i post @ rep (pre @ take i post) u n (drop i post) \<and> take (length u) (drop i post) = u"
proof (induction post arbitrary: pre i)
  case Nil
  { case 1 then show ?case by simp } { case 2 with assms show ?case by simp }
next
  case (Cons c post)
  { case 1 with Cons.IH(1) show ?case by (auto split: if_splits) }
  { case 2
    show ?case
    proof (cases "take (length u) (c # post) = u")
      case True
      with 2 show ?thesis by simp
    next
      case False
      with 2 obtain k where k: "indexOf u post = Some k" "i = Suc k" by auto
      with False Cons.IH(2) [OF k(1), of "pre @ [c]"] show ?thesis by simp
    qed }
qed

lemma take_drop_idx:
  "base + idx \<le> length body \<Longrightarrow> take base body @ take idx (drop base body) = take (base + idx) body"
  by (simp add: take_add)

lemma replaceLoop_rep:
  "u \<noteq> [] \<Longrightarrow> base \<le> length body \<Longrightarrow> replaceLoop body u n base = rep (take base body) u n (drop base body)"
proof (induction body u n base rule: replaceLoop.induct)
  case (1 body u n base)
  let ?post = "drop base body"
  show ?case
  proof (cases "indexOf u ?post")
    case None
    then show ?thesis using rep_skip(1) [OF 1(3) None] 1(3) by (simp add: replaceLoop.simps [of body u n base])
  next
    case (Some idx)
    note s = rep_skip(2) [OF 1(3) Some, of "take base body" n]
    have bound: "base + idx + length u \<le> length body" using indexOf_bound [OF Some] 1(3,4) by (cases u) auto
    then have pre: "take base body @ take idx ?post = take (base + idx) body" by (intro take_drop_idx) simp
    have lt: "base + idx < length body" using bound 1(3) by (cases u) simp_all
    define c cs where "c = body ! (base + idx)" and "cs = drop (Suc (base + idx)) body"
    then have cs: "drop (base + idx) body = c # cs" using Cons_nth_drop_Suc [OF lt] by simp
    have len: "length (take (base + idx) body) = base + idx" using bound by simp
    have ov: "overlapsUnicodeEscape body (base + idx) \<longleftrightarrow> overlapsAt (take (base + idx) body)"
      using overlaps_pre [of "take (base + idx) body" "drop (base + idx) body"] len by simp
    have hit: "take (length u) (c # cs) = u" using s cs by (simp add: add.commute)
    show ?thesis
    proof (cases "overlapsUnicodeEscape body (base + idx)")
      case True
      have "take (Suc (base + idx)) body = take (base + idx) body @ [c]"
        using lt by (simp add: take_Suc_conv_app_nth c_def)
      moreover have "take (Suc idx) ?post = take idx ?post @ [c]"
        using lt by (simp add: take_Suc_conv_app_nth c_def)
      ultimately show ?thesis
        using 1(1) [OF 1(3) Some True] 1(3) lt s pre cs True ov cs_def
        by (simp add: replaceLoop.simps [of body u n base] Some add.commute)
    next
      case False
      have "take (base + idx + length u) body = take (base + idx) body @ u"
        using hit cs bound by (metis take_add)
      moreover have "drop (base + idx + length u) body = drop (length u - 1) cs"
      proof -
        have "drop (base + idx + length u) body = drop (length u) (c # cs)" by (simp add: cs [symmetric] ac_simps)
        then show ?thesis using 1(3) by (cases u) simp_all
      qed
      ultimately show ?thesis
        using 1(2) [OF 1(3) Some False] 1(3) bound s pre cs hit False ov
        by (simp add: replaceLoop.simps [of body u n base] Some add.commute)
    qed
  qed
qed

lemma replaceAll_rep: "u \<noteq> [] \<Longrightarrow> replaceAll body u r = rep [] u (goEscape r) body"
  by (simp add: replaceAll_def replaceLoop_rep rep_skip(1) split: option.split)

text \<open>Between two tokens the loop is at a clean point.\<close>

definition clean :: "string \<Rightarrow> bool" where
  "clean pre \<longleftrightarrow> \<not> overlapsAt pre \<and> trail pre mod 2 = 0"

lemma trail_snoc: "trail (pre @ [c]) = (if c = BSLASH then Suc (trail pre) else 0)"
  by (simp add: trail_def)

definition leadAt :: "string \<Rightarrow> nat \<Rightarrow> bool" where
  "leadAt pre k \<longleftrightarrow> k \<le> length pre \<and> pre ! (length pre - k) = CHR ''u'' \<and> trail (take (length pre - k) pre) mod 2 = 1"

lemma overlapsAt_lead: "overlapsAt pre \<longleftrightarrow> leadAt pre 1 \<or> leadAt pre 2 \<or> leadAt pre 3 \<or> leadAt pre 4"
  by (simp add: overlapsAt_def leadAt_def)

lemma leadAt_snoc: "leadAt (pre @ [c]) (Suc k) \<longleftrightarrow> (if k = 0 then c = CHR ''u'' \<and> trail pre mod 2 = 1 else leadAt pre k)"
  by (auto simp: leadAt_def nth_append)

lemma overlapsAt_snoc:
  "overlapsAt (pre @ [c]) \<longleftrightarrow> c = CHR ''u'' \<and> trail pre mod 2 = 1 \<or> leadAt pre 1 \<or> leadAt pre 2 \<or> leadAt pre 3"
  using leadAt_snoc [of pre c 0] leadAt_snoc [of pre c 1] leadAt_snoc [of pre c 2] leadAt_snoc [of pre c 3]
  by (simp add: overlapsAt_lead numeral_eq_Suc)

lemma clean_Nil [simp]: "clean []"
  by (simp add: clean_def overlapsAt_def trail_def)

lemma clean_snoc: "clean pre \<Longrightarrow> c \<noteq> BSLASH \<Longrightarrow> clean (pre @ [c])"
  by (auto simp: clean_def overlapsAt_snoc trail_snoc overlapsAt_lead [of pre])

lemma clean_bslash: "clean pre \<Longrightarrow> trail (pre @ [BSLASH]) mod 2 = 1"
  by (simp add: clean_def trail_snoc mod_Suc)

lemma clean_append: "clean pre \<Longrightarrow> BSLASH \<notin> set s \<Longrightarrow> clean (pre @ s)"
proof (induction s arbitrary: pre)
  case (Cons c s)
  have "c \<noteq> BSLASH" using Cons.prems(2) by auto
  then show ?case using Cons.IH [OF clean_snoc [OF Cons.prems(1)], of c] Cons.prems(2) by simp
qed simp

text \<open>Behind an escape of one character.\<close>

lemma clean_short: "clean pre \<Longrightarrow> e \<noteq> CHR ''u'' \<Longrightarrow> clean (pre @ [BSLASH, e])"
proof -
  assume c: "clean pre" and e: "e \<noteq> CHR ''u''"
  have "\<not> overlapsAt ((pre @ [BSLASH]) @ [e])"
    using c e leadAt_snoc [of pre BSLASH 0] leadAt_snoc [of pre BSLASH 1] leadAt_snoc [of pre BSLASH 2]
    unfolding overlapsAt_snoc [of "pre @ [BSLASH]" e] clean_def overlapsAt_lead [of pre] by (simp add: numeral_eq_Suc)
  moreover have "trail ((pre @ [BSLASH]) @ [e]) mod 2 = 0"
    using clean_bslash [OF c] by (simp only: trail_snoc [of "pre @ [BSLASH]" e]) (simp add: mod_Suc)
  ultimately show ?thesis by (simp add: clean_def)
qed

text \<open>Inside the digits of a \<open>u\<close> escape every position overlaps, behind them none does.\<close>

lemma overlaps_inside:
  assumes "clean pre" "length ds \<le> 3"
  shows "overlapsAt (pre @ BSLASH # CHR ''u'' # ds)"
proof -
  let ?all = "pre @ BSLASH # CHR ''u'' # ds"
  have "length ?all - Suc (length ds) = length (pre @ [BSLASH])" by simp
  moreover have "?all ! length (pre @ [BSLASH]) = CHR ''u''" by (simp add: nth_append)
  moreover have "take (length (pre @ [BSLASH])) ?all = pre @ [BSLASH]" by simp
  moreover have "Suc (length ds) \<le> length ?all" by simp
  ultimately have "leadAt ?all (Suc (length ds))"
    using clean_bslash [OF assms(1)] by (simp only: leadAt_def)
  moreover have "length ds = 0 \<or> length ds = 1 \<or> length ds = 2 \<or> length ds = 3" using assms(2) by linarith
  ultimately show ?thesis by (auto simp: overlapsAt_lead numeral_eq_Suc)
qed

lemma clean_long:
  assumes "length ds = 4" "BSLASH \<notin> set ds" "CHR ''u'' \<notin> set ds"
  shows "clean (pre @ ds)"
proof -
  have "overlapsAt (pre @ ds) = False"
  proof -
    have "(pre @ ds) ! (length (pre @ ds) - k) \<in> set ds" if "1 \<le> k" "k \<le> 4" for k
      using that assms(1) by (auto simp: nth_append)
    then have "\<not> leadAt (pre @ ds) k" if "1 \<le> k" "k \<le> 4" for k
      using that assms(3) unfolding leadAt_def by metis
    then show ?thesis by (simp add: overlapsAt_lead)
  qed
  moreover obtain c where "last ds = c" "c \<noteq> BSLASH" "ds = butlast ds @ [c]"
    using assms(1,2) by (metis append_butlast_last_id last_in_set length_0_conv zero_neq_numeral)
  then have "trail (pre @ ds) = 0" using trail_snoc [of "pre @ butlast ds" c] by simp
  ultimately show ?thesis by (simp add: clean_def)
qed

text \<open>Passing a byte, and passing the escapes.\<close>

lemma rep_pass: "take (length u) (c # cs) \<noteq> u \<or> overlapsAt pre \<Longrightarrow> rep pre u n (c # cs) = c # rep (pre @ [c]) u n cs"
  by auto

lemma rep_pass_hd: "u \<noteq> [] \<Longrightarrow> hd u \<noteq> c \<Longrightarrow> rep pre u n (c # cs) = c # rep (pre @ [c]) u n cs"
  by (rule rep_pass) (cases u, auto)

declare rep.simps(2) [simp del]

lemma uuidChar_plain:
  assumes "uuidChar c"
  shows "escByte c = [c]" "c \<noteq> BSLASH" "c \<noteq> QUOTE" "c \<noteq> CHR ''u''" "c \<noteq> CHR 0xE2" "\<not> isSeparator (c # cs)"
proof -
  have k: "code c = 45 \<or> 48 \<le> code c \<and> code c \<le> 57 \<or> 97 \<le> code c \<and> code c \<le> 102"
    using assms unfolding uuidChar_def isLowerHex_def isDigit_def by (auto simp: code_def)
  have ne: "c \<noteq> d" if "code d < 45 \<or> 57 < code d \<and> code d < 97 \<or> 102 < code d" for d
    using that k by auto
  show "c \<noteq> BSLASH" "c \<noteq> QUOTE" "c \<noteq> CHR ''u''" "c \<noteq> CHR 0xE2" by (rule ne, simp add: code_def)+
  then show "\<not> isSeparator (c # cs)" by (simp add: isSeparator_def)
  have "c \<noteq> CHR 0x08" "c \<noteq> CHR 0x0C" "c \<noteq> CHR 0x0A" "c \<noteq> CHR 0x0D" "c \<noteq> CHR 0x09"
      "c \<noteq> CHR ''<''" "c \<noteq> CHR ''>''" "c \<noteq> CHR ''&''" by (rule ne, simp add: code_def)+
  moreover have "\<not> code c < 32" using k by auto
  ultimately show "escByte c = [c]" using \<open>c \<noteq> BSLASH\<close> \<open>c \<noteq> QUOTE\<close> by (simp add: escByte_def)
qed

lemma rep_short:
  assumes "list_all uuidChar u" "u \<noteq> []" "hd u \<noteq> e"
  shows "rep pre u n (BSLASH # e # rest) = BSLASH # e # rep (pre @ [BSLASH, e]) u n rest"
proof -
  have "uuidChar (hd u)" using assms(1,2) by (cases u) auto
  then have "hd u \<noteq> BSLASH" using uuidChar_plain(2) by blast
  then show ?thesis using rep_pass_hd [OF assms(2)] assms(3) by simp
qed

lemma rep_long:
  assumes "clean pre" "list_all uuidChar u" "u \<noteq> []" "length ds = 4"
  shows "rep pre u n (BSLASH # CHR ''u'' # ds @ rest) = BSLASH # CHR ''u'' # ds @ rep (pre @ BSLASH # CHR ''u'' # ds) u n rest"
proof -
  obtain a b c d where ds: "ds = [a, b, c, d]" using assms(4) by (auto simp: numeral_eq_Suc length_Suc_conv)
  have "uuidChar (hd u)" using assms(2,3) by (cases u) auto
  then have ne: "hd u \<noteq> BSLASH" "hd u \<noteq> CHR ''u''" using uuidChar_plain by blast+
  note o = overlaps_inside [OF assms(1)]
  show ?thesis
    using o [of "[]"] o [of "[a]"] o [of "[a, b]"] o [of "[a, b, c]"]
    by (simp add: ds rep_pass_hd [OF assms(3)] ne rep_pass)
qed

lemma hexDigit_plain: "n < 16 \<Longrightarrow> hexDigit n \<noteq> BSLASH \<and> hexDigit n \<noteq> CHR ''u''"
proof -
  assume "n < 16"
  then have "code (hexDigit n) = (if n < 10 then 48 + n else 87 + n)" by (simp add: code_def hexDigit_def)
  moreover have "code BSLASH = 92" "code (CHR ''u'') = 117" by (simp_all add: code_def)
  ultimately show ?thesis using \<open>n < 16\<close> by (auto split: if_splits)
qed

lemma code_less: "code c < 256"
  by (simp add: code_def)

lemma escByte_shape:
  "escByte c = [c] \<or>
   (\<exists>e\<in>{QUOTE, BSLASH, CHR ''b'', CHR ''f'', CHR ''n'', CHR ''r'', CHR ''t''}. escByte c = [BSLASH, e]) \<or>
   escByte c = [BSLASH, CHR ''u'', CHR ''0'', CHR ''0'', hexDigit (code c div 16), hexDigit (code c mod 16)]"
  by (simp add: escByte_def)

lemma escByte_cases:
  obtains "escByte c = [c]"
  | e where "escByte c = [BSLASH, e]" "\<not> uuidChar c" "c \<noteq> CHR 0xE2" "e \<noteq> CHR ''u''" "uuidChar e \<longrightarrow> e = CHR ''b'' \<or> e = CHR ''f''"
  | ds where "escByte c = BSLASH # CHR ''u'' # ds" "\<not> uuidChar c" "c \<noteq> CHR 0xE2" "length ds = 4" "BSLASH \<notin> set ds" "CHR ''u'' \<notin> set ds"
proof -
  have lt: "code c div 16 < 16" "code c mod 16 < 16" using code_less [of c] by simp_all
  have nu: "\<not> uuidChar c" "c \<noteq> CHR 0xE2" if "escByte c \<noteq> [c]"
    using that uuidChar_plain(1) by (blast, auto simp: escByte_def code_def)
  consider "escByte c = [c]"
    | e where "escByte c = [BSLASH, e]" "e \<in> {QUOTE, BSLASH, CHR ''b'', CHR ''f'', CHR ''n'', CHR ''r'', CHR ''t''}"
    | "escByte c = [BSLASH, CHR ''u'', CHR ''0'', CHR ''0'', hexDigit (code c div 16), hexDigit (code c mod 16)]"
    using escByte_shape [of c] by blast
  then show ?thesis
  proof cases
    case 1
    then show ?thesis by (rule that(1))
  next
    case (2 e)
    then have "uuidChar e \<longrightarrow> e = CHR ''b'' \<or> e = CHR ''f''" "e \<noteq> CHR ''u''"
      by (auto simp: uuidChar_def isLowerHex_def isDigit_def code_def)
    moreover have "escByte c \<noteq> [c]" using 2(1) by simp
    ultimately show ?thesis using that(2) [OF 2(1)] nu by blast
  next
    case 3
    moreover have "escByte c \<noteq> [c]" using 3 by simp
    ultimately show ?thesis using that(3) [OF 3] nu hexDigit_plain [OF lt(1)] hexDigit_plain [OF lt(2)] by auto
  qed
qed

text \<open>What the replacement does to the string itself.\<close>

fun substStr :: "string \<Rightarrow> string \<Rightarrow> string \<Rightarrow> string" where
  "substStr u r [] = []"
| "substStr u r (c # cs) =
     (if u \<noteq> [] \<and> take (length u) (c # cs) = u then r @ substStr u r (drop (length u - 1) cs) else c # substStr u r cs)"

definition okRest :: "string \<Rightarrow> bool" where
  "okRest rest \<longleftrightarrow> rest = [] \<or> \<not> uuidChar (hd rest)"

lemma substStr_pass: "u \<noteq> [] \<Longrightarrow> hd u \<noteq> c \<Longrightarrow> substStr u r (c # cs) = c # substStr u r cs"
  by (cases u) auto

lemma goEscape_plain: "list_all uuidChar u \<Longrightarrow> goEscape (u @ t) = u @ goEscape t"
  by (induction u) (simp_all add: uuidChar_plain)

lemma match_escaped:
  "list_all uuidChar u \<Longrightarrow> okRest rest \<Longrightarrow> take (length u) (goEscape s @ rest) = u \<longleftrightarrow> take (length u) s = u"
proof (induction u arbitrary: s)
  case (Cons d u)
  have d: "uuidChar d" and u: "list_all uuidChar u" using Cons.prems by simp_all
  show ?case
  proof (cases s)
    case Nil
    then show ?thesis using Cons.prems(2) d by (cases rest) (auto simp: okRest_def)
  next
    case (Cons c cs)
    show ?thesis
    proof (cases "isSeparator (c # cs)")
      case True
      then have "c = CHR 0xE2" by (auto simp: isSeparator_def)
      then have "c \<noteq> d" using uuidChar_plain(5) [OF d] by blast
      then show ?thesis using True Cons uuidChar_plain(2) [OF d] by (auto simp: escSeparator_def)
    next
      case False
      show ?thesis
      proof (cases rule: escByte_cases [of c])
        case 1
        then show ?thesis using False Cons Cons.IH [OF u Cons.prems(2), of cs] by simp
      next
        case (2 e)
        then show ?thesis using False Cons d uuidChar_plain(2) [OF d] by auto
      next
        case (3 ds)
        then show ?thesis using False Cons d uuidChar_plain(2) [OF d] by auto
      qed
    qed
  qed
qed simp

lemma isSeparator_iff:
  "isSeparator s \<longleftrightarrow> (\<exists>x t. s = CHR 0xE2 # CHR 0x80 # x # t \<and> (x = CHR 0xA8 \<or> x = CHR 0xA9))"
proof -
  have "take 3 s = [a, b, d] \<longleftrightarrow> (\<exists>t. s = a # b # d # t)" for a b d
    by (auto simp: numeral_eq_Suc take_Suc_conv_app_nth intro: take_drop) (metis Cons_eq_appendI append_Nil append_take_drop_id numeral_eq_Suc)
  then show ?thesis unfolding isSeparator_def by blast
qed

text \<open>An ASCII replacement.\<close>

definition ascii :: "string \<Rightarrow> bool" where
  "ascii r \<longleftrightarrow> r \<noteq> [] \<and> list_all (\<lambda>c. code c < 128) r"

lemma uuidChar_ascii: "uuidChar c \<Longrightarrow> code c < 128"
  by (auto simp: uuidChar_def isLowerHex_def isDigit_def code_def)

lemma high_hd:
  assumes "list_all uuidChar u" "u \<noteq> []" "ascii r" "128 \<le> code x"
  shows "substStr u r cs = x # y \<longleftrightarrow> (\<exists>t. cs = x # t \<and> y = substStr u r t)"
proof (cases cs)
  case Nil
  then show ?thesis by simp
next
  case (Cons d t)
  have "uuidChar (hd u)" using assms(1,2) by (cases u) auto
  then have u: "hd u \<noteq> x" using uuidChar_ascii assms(4) by fastforce
  show ?thesis
  proof (cases "take (length u) (d # t) = u")
    case True
    then have "d = hd u" using assms(2) by (cases u) auto
    moreover have "hd r \<noteq> x" "r \<noteq> []" using assms(3,4) by (auto simp: ascii_def) (cases r, auto)
    ultimately show ?thesis using True Cons u assms(2) by (cases r) auto
  next
    case False
    then show ?thesis using Cons by auto
  qed
qed

lemma isSeparator_subst:
  assumes "list_all uuidChar u" "u \<noteq> []" "ascii r"
  shows "isSeparator (c # substStr u r cs) \<longleftrightarrow> isSeparator (c # cs)"
proof -
  note h = high_hd [OF assms]
  have two: "(\<exists>t. substStr u r cs = CHR 0x80 # x # t) \<longleftrightarrow> (\<exists>t. cs = CHR 0x80 # x # t)" if "x = CHR 0xA8 \<or> x = CHR 0xA9" for x
  proof -
    have "128 \<le> code (CHR 0x80)" "128 \<le> code x" using that by (auto simp: code_def)
    then show ?thesis by (metis h)
  qed
  have "isSeparator (c # s) \<longleftrightarrow> c = CHR 0xE2 \<and> (\<exists>x. (x = CHR 0xA8 \<or> x = CHR 0xA9) \<and> (\<exists>t. s = CHR 0x80 # x # t))" for s
    unfolding isSeparator_iff by blast
  then show ?thesis using two by meson
qed

lemma goEscape_ascii: "list_all (\<lambda>c. code c < 128) r \<Longrightarrow> goEscape (r @ t) = goEscape r @ goEscape t"
proof (induction r)
  case (Cons c r)
  have "c \<noteq> CHR 0xE2" using Cons.prems by (auto simp: code_def)
  then have "\<not> isSeparator (c # s)" for s by (auto simp: isSeparator_iff)
  with Cons show ?case by simp
qed simp

lemma escSeparator_shape:
  "\<exists>ds. escSeparator s = BSLASH # CHR ''u'' # ds \<and> length ds = 4 \<and> BSLASH \<notin> set ds \<and> CHR ''u'' \<notin> set ds"
  by (simp add: escSeparator_def)

text \<open>The identity's own first character is never the letter of a short escape.\<close>

definition unambiguous :: "string \<Rightarrow> bool" where
  "unambiguous u \<longleftrightarrow> uuidText u \<and> hd u \<noteq> CHR ''b'' \<and> hd u \<noteq> CHR ''f''"

lemma unambiguousD: "unambiguous u \<Longrightarrow> list_all uuidChar u \<and> u \<noteq> [] \<and> hd u \<noteq> CHR ''b'' \<and> hd u \<noteq> CHR ''f'' \<and> uuidChar (hd u)"
  by (cases u) (auto simp: unambiguous_def uuidText_def)

lemma rep_string:
  assumes u: "unambiguous u" and r: "ascii r" and rest: "okRest rest"
  shows "clean pre \<Longrightarrow>
    rep pre u (goEscape r) (goEscape s @ rest) = goEscape (substStr u r s) @ rep (pre @ goEscape s) u (goEscape r) rest \<and>
    clean (pre @ goEscape s)"
proof (induction "length s" arbitrary: s pre rule: less_induct)
  case less
  have uc: "list_all uuidChar u" "u \<noteq> []" "uuidChar (hd u)" using unambiguousD [OF u] by auto
  let ?n = "goEscape r"
  show ?case
  proof (cases s)
    case Nil
    with less.prems show ?thesis by simp
  next
    case (Cons c cs)
    have pass: "substStr u r (c # cs) = c # substStr u r cs" if "\<not> uuidChar c"
      using that uc substStr_pass [OF uc(2)] by metis
    note sep = isSeparator_subst [OF uc(1,2) r]
    show ?thesis
    proof (cases "isSeparator (c # cs)")
      case True
      then obtain x t where s: "c # cs = CHR 0xE2 # CHR 0x80 # x # t" "x = CHR 0xA8 \<or> x = CHR 0xA9"
        unfolding isSeparator_iff by blast
      obtain ds where ds: "escSeparator (c # cs) = BSLASH # CHR ''u'' # ds" "length ds = 4" "BSLASH \<notin> set ds" "CHR ''u'' \<notin> set ds"
        using escSeparator_shape by blast
      have nu: "\<not> uuidChar (CHR 0xE2)" "\<not> uuidChar (CHR 0x80)" "\<not> uuidChar x"
        using s(2) uuidChar_ascii by (fastforce simp: code_def)+
      have sub: "substStr u r s = CHR 0xE2 # CHR 0x80 # x # substStr u r t"
        using nu uc Cons s(1) substStr_pass [OF uc(2)] by metis
      have e2: "goEscape (substStr u r s) = BSLASH # CHR ''u'' # ds @ goEscape (substStr u r t)"
        using sub s ds(1) by (auto simp: isSeparator_iff escSeparator_def)
      have e1: "goEscape s = BSLASH # CHR ''u'' # ds @ goEscape t" using Cons s(1) True ds(1) by simp
      have "clean (pre @ BSLASH # CHR ''u'' # ds)" using clean_long [OF ds(2-4), of "pre @ [BSLASH, CHR ''u'']"] by simp
      moreover have "length t < length s" using Cons s(1) by simp
      ultimately show ?thesis
        using less.hyps [of t "pre @ BSLASH # CHR ''u'' # ds"] rep_long [OF less.prems uc(1,2) ds(2)] e1 e2 by simp
    next
      case False
      show ?thesis
      proof (cases rule: escByte_cases [of c])
        case 1
        show ?thesis
        proof (cases "take (length u) (c # cs) = u")
          case True
          define t where "t = drop (length u - 1) cs"
          have s: "c # cs = u @ t"
            using True uc(2) unfolding t_def by (cases u) (auto, metis append_take_drop_id)
          have e1: "goEscape s = u @ goEscape t" using Cons s goEscape_plain [OF uc(1)] by simp
          have lt: "length t < length s" using Cons s uc(2) by (cases u) auto
          have "substStr u r s = r @ substStr u r t" using True Cons uc(2) by (simp add: t_def)
          then have e2: "goEscape (substStr u r s) = ?n @ goEscape (substStr u r t)"
            using r goEscape_ascii by (simp add: ascii_def)
          have "BSLASH \<notin> set u" using uc(1) uuidChar_plain(2) by (auto simp: list_all_iff)
          then have cl: "clean (pre @ u)" by (rule clean_append [OF less.prems])
          have "\<not> overlapsAt pre" using less.prems by (simp add: clean_def)
          then have "rep pre u ?n (u @ goEscape t @ rest) = ?n @ rep (pre @ u) u ?n (goEscape t @ rest)"
            using uc(2) by (cases u) (simp_all add: rep.simps(2))
          then show ?thesis using less.hyps [OF lt cl] e1 e2 by simp
        next
          case nomatch: False
          have "take (length u) (goEscape (c # cs) @ rest) \<noteq> u" using match_escaped [OF uc(1) rest] nomatch by blast
          then have nm: "take (length u) (c # goEscape cs @ rest) \<noteq> u" using False 1 by simp
          have cb: "c \<noteq> BSLASH" using 1 by (auto simp: escByte_def)
          have sub: "goEscape (substStr u r s) = c # goEscape (substStr u r cs)" using Cons nomatch False 1 sep [of c cs] by simp
          have "goEscape s = c # goEscape cs" using Cons False 1 by simp
          moreover have "length cs < length s" using Cons by simp
          ultimately show ?thesis
            using less.hyps [OF _ clean_snoc [OF less.prems cb], of cs] sub rep_pass [of u c "goEscape cs @ rest" pre ?n] nm
            by simp
        qed
      next
        case (2 e)
        have "hd u \<noteq> e" using 2(5) unambiguousD [OF u] by auto
        then have "rep pre u ?n (BSLASH # e # goEscape cs @ rest) = BSLASH # e # rep (pre @ [BSLASH, e]) u ?n (goEscape cs @ rest)"
          by (rule rep_short [OF uc(1,2)])
        moreover have "goEscape s = BSLASH # e # goEscape cs" using Cons False 2 by simp
        moreover have "goEscape (substStr u r s) = BSLASH # e # goEscape (substStr u r cs)"
          using Cons False 2 pass sep [of c cs] by simp
        moreover have "length cs < length s" using Cons by simp
        ultimately show ?thesis using less.hyps [OF _ clean_short [OF less.prems 2(4)], of cs] by simp
      next
        case (3 ds)
        have "clean (pre @ BSLASH # CHR ''u'' # ds)" using clean_long [OF 3(4-6), of "pre @ [BSLASH, CHR ''u'']"] by simp
        moreover have "goEscape s = BSLASH # CHR ''u'' # ds @ goEscape cs" using Cons False 3 by simp
        moreover have "goEscape (substStr u r s) = BSLASH # CHR ''u'' # ds @ goEscape (substStr u r cs)"
          using Cons False 3 pass sep [of c cs] by simp
        moreover have "length cs < length s" using Cons by simp
        ultimately show ?thesis
          using less.hyps [of cs "pre @ BSLASH # CHR ''u'' # ds"] rep_long [OF less.prems uc(1,2) 3(4), of ?n "goEscape cs @ rest"]
          by simp
      qed
    qed
  qed
qed

section \<open>Replacing in a whole body\<close>

text \<open>A text that the loop turns into another one wherever it stands between tokens.\<close>

definition passes :: "string \<Rightarrow> string \<Rightarrow> string \<Rightarrow> string \<Rightarrow> bool" where
  "passes u n t t' \<longleftrightarrow>
     (\<forall>pre rest. clean pre \<longrightarrow> okRest rest \<longrightarrow> rep pre u n (t @ rest) = t' @ rep (pre @ t) u n rest \<and> clean (pre @ t))"

lemma passes_Nil: "passes u n [] []"
  by (simp add: passes_def)

lemma passes_Cons:
  assumes "passes u n b b'" "\<not> uuidChar c" "c \<noteq> BSLASH" "unambiguous u"
  shows "passes u n (c # b) (c # b')"
proof -
  have "u \<noteq> []" "hd u \<noteq> c" using unambiguousD [OF assms(4)] assms(2) by auto
  note p = rep_pass_hd [OF this]
  show ?thesis unfolding passes_def
  proof (intro allI impI)
    fix pre rest
    assume "clean pre" "okRest rest"
    moreover from this have "clean (pre @ [c])" using clean_snoc assms(3) by blast
    ultimately show "rep pre u n ((c # b) @ rest) = (c # b') @ rep (pre @ c # b) u n rest \<and> clean (pre @ c # b)"
      using assms(1) p [of pre n "b @ rest"] unfolding passes_def by (metis append.assoc append_Cons append_Nil)
  qed
qed

lemma passes_append:
  assumes "passes u n a a'" "passes u n b b'" "b \<noteq> []" "\<not> uuidChar (hd b)"
  shows "passes u n (a @ b) (a' @ b')"
  unfolding passes_def
proof (intro allI impI)
  fix pre rest
  assume c: "clean pre" and o: "okRest rest"
  have "okRest (b @ rest)" using assms(3,4) by (simp add: okRest_def)
  with assms(1) c have 1: "rep pre u n (a @ b @ rest) = a' @ rep (pre @ a) u n (b @ rest)" "clean (pre @ a)"
    unfolding passes_def by blast+
  with assms(2) o have "rep (pre @ a) u n (b @ rest) = b' @ rep ((pre @ a) @ b) u n rest" "clean ((pre @ a) @ b)"
    unfolding passes_def by blast+
  with 1 show "rep pre u n ((a @ b) @ rest) = (a' @ b') @ rep (pre @ a @ b) u n rest \<and> clean (pre @ a @ b)" by simp
qed

lemma passes_quote:
  assumes "unambiguous u" "ascii r"
  shows "passes u (goEscape r) (goQuote s) (goQuote (substStr u r s))"
proof -
  have q: "\<not> uuidChar QUOTE" by (simp add: uuidChar_def isLowerHex_def isDigit_def code_def)
  have "passes u (goEscape r) (goEscape s) (goEscape (substStr u r s))"
    using rep_string [OF assms] unfolding passes_def by blast
  then have "passes u (goEscape r) (goEscape s @ [QUOTE]) (goEscape (substStr u r s) @ [QUOTE])"
    by (rule passes_append) (simp_all add: passes_Cons [OF passes_Nil] q assms(1))
  then show ?thesis unfolding goQuote_def by (rule passes_Cons) (simp_all add: q assms(1))
qed

lemma no_match:
  assumes "\<not> sublist u t" "list_all uuidChar u" "okRest rest"
  shows "take (length u) (t @ rest) \<noteq> u"
proof
  assume "take (length u) (t @ rest) = u"
  then have "prefix u (t @ rest)" using take_is_prefix [of "length u" "t @ rest"] by argo
  then consider "prefix u t" | us where "u = t @ us" "prefix us rest" unfolding prefix_append by blast
  then show False
  proof cases
    case 1
    then show ?thesis using assms(1) by blast
  next
    case 2
    then have "us \<noteq> []" using assms(1) by auto
    then obtain x xs where us: "us = x # xs" by (cases us) auto
    then have "hd rest = x" "rest \<noteq> []" using 2(2) by (auto simp: prefix_def)
    then show ?thesis using us 2(1) assms(2,3) by (simp add: okRest_def)
  qed
qed

lemma passes_plain:
  assumes "BSLASH \<notin> set t" "\<not> sublist u t" "unambiguous u"
  shows "passes u n t t"
  using assms(1,2)
proof (induction t)
  case Nil
  show ?case by (rule passes_Nil)
next
  case (Cons c t)
  have "\<not> sublist u t" using Cons.prems(2) by (simp add: sublist_Cons_right)
  then have ih: "passes u n t t" using Cons.IH Cons.prems(1) by simp
  have uc: "list_all uuidChar u" using unambiguousD [OF assms(3)] by blast
  show ?case unfolding passes_def
  proof (intro allI impI)
    fix pre rest
    assume c: "clean pre" and o: "okRest rest"
    have "clean (pre @ [c])" by (rule clean_snoc [OF c]) (use Cons.prems(1) in auto)
    with ih o have "rep (pre @ [c]) u n (t @ rest) = t @ rep ((pre @ [c]) @ t) u n rest \<and> clean ((pre @ [c]) @ t)"
      unfolding passes_def by blast
    moreover have "rep pre u n (c # t @ rest) = c # rep (pre @ [c]) u n (t @ rest)"
      by (rule rep_pass) (use no_match [OF Cons.prems(2) uc o] in simp)
    ultimately show "rep pre u n ((c # t) @ rest) = (c # t) @ rep (pre @ c # t) u n rest \<and> clean (pre @ c # t)" by simp
  qed
qed

lemma passes_join:
  assumes "\<And>x. x \<in> set xs \<Longrightarrow> passes u n (f x) (g x)" "unambiguous u"
  shows "passes u n (joinWith (CHR '','') (map f xs)) (joinWith (CHR '','') (map g xs))"
  using assms(1)
proof (induction xs rule: induct_list012)
  case (3 x y zs)
  have comma: "\<not> uuidChar (CHR '','')" by (simp add: uuidChar_def isLowerHex_def isDigit_def code_def)
  have "passes u n (CHR '','' # joinWith (CHR '','') (map f (y # zs))) (CHR '','' # joinWith (CHR '','') (map g (y # zs)))"
    using 3 by (intro passes_Cons [OF _ comma _ assms(2)]) simp_all
  then have "passes u n (f x @ CHR '','' # joinWith (CHR '','') (map f (y # zs))) (g x @ CHR '','' # joinWith (CHR '','') (map g (y # zs)))"
    using 3(3) by (intro passes_append) (simp_all add: comma)
  then show ?case by simp
qed (simp_all add: passes_Nil)

text \<open>The values whose numbers are numbers: at most two signs, no escape.\<close>

fun numbersOK :: "JSON \<Rightarrow> bool" where
  "numbersOK (JNum t) \<longleftrightarrow> count_list t (CHR ''-'') \<le> 2 \<and> BSLASH \<notin> set t"
| "numbersOK (JArr xs) \<longleftrightarrow> (\<forall>x\<in>set xs. numbersOK x)"
| "numbersOK (JObj ms) \<longleftrightarrow> (\<forall>kv\<in>set ms. numbersOK (snd kv))"
| "numbersOK _ \<longleftrightarrow> True"

text \<open>The same value with every string, and every name of a member, changed.\<close>

fun substJSON :: "string \<Rightarrow> string \<Rightarrow> JSON \<Rightarrow> JSON" where
  "substJSON u r (JStr s) = JStr (substStr u r s)"
| "substJSON u r (JArr xs) = JArr (map (substJSON u r) xs)"
| "substJSON u r (JObj ms) = JObj (map (\<lambda>(k, v). (substStr u r k, substJSON u r v)) ms)"
| "substJSON u r v = v"

lemma count_list_sublist: "sublist u t \<Longrightarrow> count_list u c \<le> count_list t c"
  by (auto simp: sublist_def)

lemma passes_json:
  assumes u: "unambiguous u" and r: "ascii r"
  shows "numbersOK v \<Longrightarrow> passes u (goEscape r) (jsonText v) (jsonText (substJSON u r v))"
proof (induction v)
  case (JNum t)
  have "count_list u (CHR ''-'') = 4" using u by (simp add: unambiguous_def uuidText_def)
  then have "\<not> sublist u t" using JNum count_list_sublist [of u t "CHR ''-''"] by auto
  with JNum show ?case by (simp add: passes_plain [OF _ _ u])
next
  case (JStr s)
  show ?case by (simp add: passes_quote [OF u r])
next
  case (JArr xs)
  have br: "\<not> uuidChar (CHR ''['')" "\<not> uuidChar (CHR '']'')" by (simp_all add: uuidChar_def isLowerHex_def isDigit_def code_def)
  have "passes u (goEscape r) (joinWith (CHR '','') (map jsonText xs)) (joinWith (CHR '','') (map (jsonText \<circ> substJSON u r) xs))"
    using JArr by (intro passes_join [OF _ u]) simp
  then have "passes u (goEscape r) (joinWith (CHR '','') (map jsonText xs) @ [CHR '']''])
      (joinWith (CHR '','') (map (jsonText \<circ> substJSON u r) xs) @ [CHR '']''])"
    by (rule passes_append) (simp_all add: passes_Cons [OF passes_Nil] br u)
  then show ?case by (simp add: passes_Cons [OF _ br(1) _ u])
next
  case (JObj ms)
  have br: "\<not> uuidChar (CHR ''{'')" "\<not> uuidChar (CHR ''}'')" "\<not> uuidChar (CHR '':'')"
    by (simp_all add: uuidChar_def isLowerHex_def isDigit_def code_def)
  let ?f = "\<lambda>(k, v). goQuote k @ CHR '':'' # jsonText v"
  let ?g = "?f \<circ> (\<lambda>(k, v). (substStr u r k, substJSON u r v))"
  have "passes u (goEscape r) (?f kv) (?g kv)" if "kv \<in> set ms" for kv
  proof -
    obtain k v where kv: "kv = (k, v)" by fastforce
    have "passes u (goEscape r) (jsonText v) (jsonText (substJSON u r v))"
      using JObj that kv by (metis numbersOK.simps(3) snd_conv snds.intros)
    then show ?thesis using kv passes_quote [OF u r, of k]
      by (auto intro!: passes_append passes_Cons simp: br u)
  qed
  then have "passes u (goEscape r) (joinWith (CHR '','') (map ?f ms)) (joinWith (CHR '','') (map ?g ms))"
    by (intro passes_join [OF _ u])
  then have "passes u (goEscape r) (joinWith (CHR '','') (map ?f ms) @ [CHR ''}'']) (joinWith (CHR '','') (map ?g ms) @ [CHR ''}''])"
    by (rule passes_append) (simp_all add: passes_Cons [OF passes_Nil] br u)
  then show ?case by (simp add: passes_Cons [OF _ br(1) _ u] comp_def)
next
  case JNull
  have "\<not> sublist u ''null''" using u sublist_length_le by (fastforce simp: unambiguous_def uuidText_def)
  then show ?case by (simp add: passes_plain [OF _ _ u])
next
  case (JBool b)
  have "\<not> sublist u ''true''" "\<not> sublist u ''false''" using u sublist_length_le by (fastforce simp: unambiguous_def uuidText_def)+
  then show ?case by (simp add: passes_plain [OF _ _ u])
qed

text \<open>
  C19: replacing a private identity in the bytes of a body is replacing it in the strings of the
  body: for every value the runtime encodes and every identity that does not begin with the letter
  of a short escape, the bytes after the replacement are exactly the encoding of the value in which
  every string, and every name of a member, at any depth has every occurrence of the identity
  replaced; so nothing else changes and the result is again an encoding.
\<close>

theorem replaceAll_in_strings:
  assumes "unambiguous u" "ascii r" "numbersOK v"
  shows "replaceAll (jsonText v) u r = jsonText (substJSON u r v)"
proof -
  have "rep [] u (goEscape r) (jsonText v @ []) = jsonText (substJSON u r v) @ rep ([] @ jsonText v) u (goEscape r) []"
    using passes_json [OF assms] unfolding passes_def by (simp add: okRest_def)
  then show ?thesis using replaceAll_rep [of u "jsonText v" r] unambiguousD [OF assms(1)] by simp
qed

definition exRuntime :: uuid where
  "exRuntime = ''003c0000-aaaa-4bbb-8ccc-0123456789ab''"

definition exBody :: JSON where
  "exBody = JObj [(''v'', JNum ''1''), (''session_id'', JStr exRuntime),
     (''note'', JArr [JStr (''<'' @ drop 4 exRuntime @ '' '' @ exRuntime), JBool True, JNull])]"

theorem replaceAll_in_strings_witness:
  "replaceAll (jsonText exBody) exRuntime ''s-1'' = jsonText (substJSON exRuntime ''s-1'' exBody) \<and>
   substJSON exRuntime ''s-1'' exBody = JObj [(''v'', JNum ''1''), (''session_id'', JStr ''s-1''),
     (''note'', JArr [JStr (''<'' @ drop 4 exRuntime @ '' s-1''), JBool True, JNull])]"
proof
  have "unambiguous exRuntime" "ascii ''s-1''" "numbersOK exBody" by code_simp+
  then show "replaceAll (jsonText exBody) exRuntime ''s-1'' = jsonText (substJSON exRuntime ''s-1'' exBody)"
    by (rule replaceAll_in_strings)
  show "substJSON exRuntime ''s-1'' exBody = JObj [(''v'', JNum ''1''), (''session_id'', JStr ''s-1''),
     (''note'', JArr [JStr (''<'' @ drop 4 exRuntime @ '' s-1''), JBool True, JNull])]" by code_simp
qed

text \<open>
  The condition on the first letter is needed: Go writes a backspace as a backslash and \<open>b\<close>, and
  the skipping of escapes looks for \<open>u\<close> only.  A string with a backspace before all but the first
  character of an identity that begins with \<open>b\<close> does not contain the identity, its bytes do, and
  replacing them leaves an escape that does not exist; the projection refuses the body.
\<close>

definition exShort :: uuid where
  "exShort = ''b03c0000-aaaa-4bbb-8ccc-0123456789ab''"

lemma short_escape_is_replaced:
  "jsonValid (jsonText (JStr (CHR 0x08 # tl exShort))) \<and> substStr exShort ''s-1'' (CHR 0x08 # tl exShort) = CHR 0x08 # tl exShort \<and>
   \<not> jsonValid (replaceAll (jsonText (JStr (CHR 0x08 # tl exShort))) exShort ''s-1'')"
  by code_simp

text \<open>White space between the members goes when a cause is removed, so such an input is not refused.\<close>

lemma loose_body_is_projected:
  "fst (Project \<lparr> pcParseUUID = (\<lambda>_. None), pcIsZero = (\<lambda>_. False), pcValidSession = (\<lambda>_. True) \<rparr>
       \<lparr> idRuntimeSessionID = exRuntime, idSessionID = ''s-1'', idCommands = None \<rparr> 1
       (''{ '' @ goQuote ''v'' @ '':1,'' @ goQuote ''cause'' @ '':{'' @ goQuote ''command_id'' @ '':2}}'') ()) =
     Inr (''{'' @ goQuote ''v'' @ '':1}'')"
  by code_simp

end
