(* ===== verification/PublicIndex.thy ===== *)
theory PublicIndex
  imports PublicBody
begin

text \<open>
  The index from runtime commands to public ones, \<^verbatim>\<open>internal/publicbody/index.go\<close> and \<^verbatim>\<open>journal.go\<close>, and
  the inbox source of \<^verbatim>\<open>internal/compose/publicbody.go\<close>.  The locale \<open>mapping_source\<close> is what the index
  relies on of a source; the journal and the inbox interpret it.
\<close>

section \<open>The index of commands\<close>

record Pair =
  prRuntime :: uuid
  prPublic :: command_id

record Index =
  ixThrough :: u64
  ixKnown :: "uuid \<rightharpoonup> command_id"
  ixAbsent :: "uuid set"

definition maxAbsent :: nat where "maxAbsent = 4096"

definition NewIndex :: Index where
  "NewIndex = \<lparr> ixThrough = 0, ixKnown = Map.empty, ixAbsent = {} \<rparr>"

type_synonym source_answer = "string + Pair list \<times> u64 \<times> bool"

text \<open>Reading on until the command is known, the source is done, or it makes no progress; the \<open>k\<close>-th read of a call.\<close>

definition learn :: "Pair list \<Rightarrow> u64 \<Rightarrow> Index \<Rightarrow> Index" where
  "learn pairs through ix =
     ix\<lparr> ixKnown := fold (\<lambda>p m. m(prRuntime p \<mapsto> prPublic p)) pairs (ixKnown ix),
        ixThrough := (if through > ixThrough ix then through else ixThrough ix) \<rparr>"

function readLoop :: "(nat \<Rightarrow> u64 \<Rightarrow> u64 \<Rightarrow> source_answer) \<Rightarrow> uuid \<Rightarrow> u64 \<Rightarrow> nat \<Rightarrow> Index \<Rightarrow> string option \<times> Index" where
  "readLoop rd runtime bound k ix =
     (case rd k (ixThrough ix) bound of
        Inl e \<Rightarrow> (Some e, ix)
      | Inr (pairs, through, dn) \<Rightarrow>
          if ixKnown (learn pairs through ix) runtime \<noteq> None \<or> dn \<or> \<not> through > ixThrough ix then (None, learn pairs through ix)
          else readLoop rd runtime bound (Suc k) (learn pairs through ix))"
  by pat_completeness auto

termination
proof (relation "measure (\<lambda>(rd, runtime, bound, k, ix). 2 ^ 64 - unat (ixThrough ix))")
  show "((rd, runtime, bound, Suc k, learn pairs through ix), rd, runtime, bound, k, ix)
      \<in> measure (\<lambda>(rd, runtime, bound, k, ix). 2 ^ 64 - unat (ixThrough ix))"
    if "rd k (ixThrough ix) bound = Inr x" "(pairs, y) = x" "(through, dn) = y"
      "\<not> (ixKnown (learn pairs through ix) runtime \<noteq> None \<or> dn \<or> \<not> ixThrough ix < through)"
    for rd :: "nat \<Rightarrow> u64 \<Rightarrow> u64 \<Rightarrow> source_answer" and runtime bound k ix x pairs y through dn
  proof -
    have "unat (ixThrough ix) < unat through" using that(4) by (simp add: word_less_nat_alt)
    moreover have "unat through < 2 ^ 64" using unsigned_less [of through] by simp
    moreover have "ixThrough (learn pairs through ix) = through" using that(4) by (simp add: learn_def)
    ultimately show ?thesis by simp
  qed
qed simp

declare readLoop.simps [simp del]

definition PublicCommand ::
  "(nat \<Rightarrow> u64 \<Rightarrow> u64 \<Rightarrow> source_answer) \<Rightarrow> uuid \<Rightarrow> u64 \<Rightarrow> Index \<Rightarrow> (string + command_id option) \<times> Index" where
  "PublicCommand rd runtime bound ix =
     (case ixKnown ix runtime of
        Some public \<Rightarrow> (Inr (Some public), ix)
      | None \<Rightarrow>
          if runtime \<in> ixAbsent ix then (Inr None, ix)
          else
            (case readLoop rd runtime bound 0 ix of
               (Some e, ix1) \<Rightarrow> (Inl e, ix1)
             | (None, ix1) \<Rightarrow>
                 (case ixKnown ix1 runtime of
                    Some public \<Rightarrow> (Inr (Some public), ix1)
                  | None \<Rightarrow>
                      (Inr None, ix1\<lparr> ixAbsent := insert runtime (if card (ixAbsent ix1) \<ge> maxAbsent then {} else ixAbsent ix1) \<rparr>))))"

text \<open>The journal as a source: a page of its records, the application prefixes among them.\<close>

definition journalPage :: nat where "journalPage = 512"

record RuntimeRecord =
  rrSeq :: u64
  rrPrefix :: bool
  rrRuntime :: uuid
  rrPublic :: command_id

definition JournalSourceRead :: "(u64 \<Rightarrow> nat \<Rightarrow> string + RuntimeRecord list) \<Rightarrow> u64 \<Rightarrow> u64 \<Rightarrow> source_answer" where
  "JournalSourceRead readJournal after bound =
     (case readJournal (after + 1) journalPage of
        Inl e \<Rightarrow> Inl e
      | Inr records \<Rightarrow>
          (let through = fold (\<lambda>r t. if rrSeq r > t then rrSeq r else t) records after in
           Inr (map (\<lambda>r. \<lparr> prRuntime = rrRuntime r, prPublic = rrPublic r \<rparr>) (filter rrPrefix records),
                through, records = [] \<or> through \<ge> bound)))"

text \<open>The inbox as a source: a page of commands in acceptance order; the zero identity names none.\<close>

definition inboxCommandPage :: nat where "inboxCommandPage = 256"

record InboxRow =
  irOrder :: u64
  irRuntime :: "uuid option"
  irPublic :: command_id

definition inboxCommandsRead :: "(u64 \<Rightarrow> nat \<Rightarrow> string + InboxRow list) \<Rightarrow> u64 \<Rightarrow> u64 \<Rightarrow> source_answer" where
  "inboxCommandsRead listOrdered after bound =
     (case listOrdered after inboxCommandPage of
        Inl e \<Rightarrow> Inl e
      | Inr records \<Rightarrow>
          Inr (map (\<lambda>r. \<lparr> prRuntime = the (irRuntime r), prPublic = irPublic r \<rparr>) (filter (\<lambda>r. irRuntime r \<noteq> None) records),
               fold (\<lambda>r t. if irOrder r > t then irOrder r else t) records after, length records < inboxCommandPage))"

section \<open>What a source promises\<close>

text \<open>
  A log of records in the order of their positions; some of them map a command.  A read returns the
  mappings recorded behind a position up to the one it reports, and when it is done, or makes no
  progress, whatever it has not read is too late for the bound.
\<close>

definition wfLog :: "('r \<Rightarrow> u64) \<Rightarrow> 'r list \<Rightarrow> bool" where
  "wfLog pos log \<longleftrightarrow> sorted_wrt (<) (map pos log) \<and> (\<forall>x\<in>set log. 0 < pos x \<and> pos x \<noteq> - 1)"

definition maps :: "('r \<Rightarrow> Pair option) \<Rightarrow> 'r list \<Rightarrow> uuid \<Rightarrow> command_id \<Rightarrow> bool" where
  "maps pair log runtime c \<longleftrightarrow> (\<exists>x\<in>set log. pair x = Some \<lparr> prRuntime = runtime, prPublic = c \<rparr>)"

definition oneMapping :: "('r \<Rightarrow> Pair option) \<Rightarrow> 'r list \<Rightarrow> bool" where
  "oneMapping pair log \<longleftrightarrow> (\<forall>r c c'. maps pair log r c \<longrightarrow> maps pair log r c' \<longrightarrow> c = c')"

definition stoodAt :: "('r \<Rightarrow> u64) \<Rightarrow> 'r list \<Rightarrow> u64 \<Rightarrow> bool" where
  "stoodAt pos log p \<longleftrightarrow> p = 0 \<or> p \<in> pos ` set log"

definition knows :: "('r \<Rightarrow> u64) \<Rightarrow> ('r \<Rightarrow> Pair option) \<Rightarrow> 'r list \<Rightarrow> Index \<Rightarrow> bool" where
  "knows pos pair log ix \<longleftrightarrow>
     stoodAt pos log (ixThrough ix) \<and>
     (\<forall>r c. ixKnown ix r = Some c \<longleftrightarrow> maps pair (filter (\<lambda>x. pos x \<le> ixThrough ix) log) r c)"

text \<open>A question put to the index, the log as it stood, and how the reads made for it answered.\<close>

record 'r Query =
  qyLog :: "'r list"
  qyRead :: "nat \<Rightarrow> u64 \<Rightarrow> u64 \<Rightarrow> source_answer"
  qyRuntime :: uuid
  qyBound :: u64

fun askAll :: "'r Query list \<Rightarrow> Index \<Rightarrow> (string + command_id option) list" where
  "askAll [] ix = []"
| "askAll (q # qs) ix = (case PublicCommand (qyRead q) (qyRuntime q) (qyBound q) ix of (ans, ix') \<Rightarrow> ans # askAll qs ix')"

fun growingLogs :: "'r list \<Rightarrow> 'r Query list \<Rightarrow> 'r list \<Rightarrow> bool" where
  "growingLogs l [] f \<longleftrightarrow> prefix l f"
| "growingLogs l (q # qs) f \<longleftrightarrow> prefix l (qyLog q) \<and> growingLogs (qyLog q) qs f"

lemma growingLogs_prefix: "growingLogs l qs f \<Longrightarrow> prefix l f"
  by (induction qs arbitrary: l) (auto intro: prefix_order.trans)

lemma wfLog_prefix: "wfLog pos f \<Longrightarrow> prefix l f \<Longrightarrow> wfLog pos l"
  by (auto simp: wfLog_def prefix_def sorted_wrt_append)

lemma wfLog_later:
  assumes "wfLog pos (l @ e)" "stoodAt pos l p" "x \<in> set e"
  shows "p < pos x"
  using assms by (auto simp: wfLog_def stoodAt_def sorted_wrt_append)

lemma maps_prefix: "maps pair l r c \<Longrightarrow> prefix l f \<Longrightarrow> maps pair f r c"
  by (auto simp: maps_def prefix_def)

lemma knows_prefix:
  assumes "knows pos pair l ix" "prefix l f" "wfLog pos f"
  shows "knows pos pair f ix"
proof -
  obtain e where f: "f = l @ e" using assms(2) by (auto simp: prefix_def)
  have st: "stoodAt pos l (ixThrough ix)" using assms(1) by (simp add: knows_def)
  have "filter (\<lambda>x. pos x \<le> ixThrough ix) e = []"
    using wfLog_later [OF assms(3) [unfolded f] st] by (auto simp: filter_empty_conv not_le)
  moreover have "stoodAt pos f (ixThrough ix)" using st by (auto simp: stoodAt_def f)
  ultimately show ?thesis using assms(1) by (simp add: knows_def f)
qed

lemma fold_known:
  "(\<exists>c. fold (\<lambda>p m. m(prRuntime p \<mapsto> prPublic p)) ps m r = Some c \<and> \<lparr> prRuntime = r, prPublic = c \<rparr> \<in> set ps) \<or>
   fold (\<lambda>p m. m(prRuntime p \<mapsto> prPublic p)) ps m r = m r \<and> (\<forall>c. \<lparr> prRuntime = r, prPublic = c \<rparr> \<notin> set ps)"
proof (induction ps rule: rev_induct)
  case (snoc p ps)
  show ?case
  proof (cases "prRuntime p = r")
    case True
    then have "\<lparr> prRuntime = r, prPublic = prPublic p \<rparr> = p" by (intro Pair.equality) simp_all
    with True show ?thesis by simp
  next
    case False
    then have "p \<noteq> \<lparr> prRuntime = r, prPublic = c \<rparr>" for c by auto
    with False snoc show ?thesis by auto
  qed
qed simp

lemma split_range:
  fixes a b :: u64
  assumes "a \<le> b"
  shows "(\<exists>x\<in>A. f x \<le> b \<and> Q x) \<longleftrightarrow> (\<exists>x\<in>A. f x \<le> a \<and> Q x) \<or> (\<exists>x\<in>A. a < f x \<and> f x \<le> b \<and> Q x)"
  using assms by (meson leD leI order.trans)

locale mapping_source =
  fixes read :: "'r list \<Rightarrow> u64 \<Rightarrow> u64 \<Rightarrow> source_answer"
    and pos :: "'r \<Rightarrow> u64"
    and pair :: "'r \<Rightarrow> Pair option"
    and late :: "u64 \<Rightarrow> u64 \<Rightarrow> bool"
  assumes read_law: "wfLog pos log \<Longrightarrow> stoodAt pos log after \<Longrightarrow> read log after bound = Inr (ps, th, dn) \<Longrightarrow>
      stoodAt pos log th \<and> after \<le> th \<and>
      set ps = {p. \<exists>x\<in>set log. after < pos x \<and> pos x \<le> th \<and> pair x = Some p} \<and>
      (dn \<or> th = after \<longrightarrow> (\<forall>x\<in>set log. pos x \<le> th \<or> late bound (pos x)))"
begin

lemma learn_knows:
  assumes wf: "wfLog pos log" and one: "oneMapping pair log" and k: "knows pos pair log ix"
    and rd: "read log (ixThrough ix) bound = Inr (ps, th, dn)"
  shows "knows pos pair log (learn ps th ix) \<and> ixThrough (learn ps th ix) = th"
proof -
  have st: "stoodAt pos log (ixThrough ix)" using k by (simp add: knows_def)
  note law = read_law [OF wf st rd]
  have le: "ixThrough ix \<le> th" using law by blast
  have th: "ixThrough (learn ps th ix) = th" using le by (simp add: learn_def)
  let ?P = "\<lambda>r c x. pair x = Some \<lparr> prRuntime = r, prPublic = c \<rparr>"
  have old: "ixKnown ix r = Some c \<longleftrightarrow> (\<exists>x\<in>set log. pos x \<le> ixThrough ix \<and> ?P r c x)" for r c
    using k by (auto simp: knows_def maps_def)
  have new: "\<lparr> prRuntime = r, prPublic = c \<rparr> \<in> set ps \<longleftrightarrow> (\<exists>x\<in>set log. ixThrough ix < pos x \<and> pos x \<le> th \<and> ?P r c x)" for r c
    using law by simp
  have "ixKnown (learn ps th ix) r = Some c \<longleftrightarrow> (\<exists>x\<in>set log. pos x \<le> th \<and> ?P r c x)" for r c
    unfolding split_range [OF le] old [symmetric] new [symmetric]
    using fold_known [of ps "ixKnown ix" r]
  proof
    assume "\<exists>c'. fold (\<lambda>p m. m(prRuntime p \<mapsto> prPublic p)) ps (ixKnown ix) r = Some c' \<and> \<lparr> prRuntime = r, prPublic = c' \<rparr> \<in> set ps"
    then obtain c' where c': "ixKnown (learn ps th ix) r = Some c'" "\<lparr> prRuntime = r, prPublic = c' \<rparr> \<in> set ps"
      by (auto simp: learn_def)
    have m: "maps pair log r c'" using c'(2) unfolding new maps_def by blast
    have "maps pair log r c" if "ixKnown ix r = Some c \<or> \<lparr> prRuntime = r, prPublic = c \<rparr> \<in> set ps"
      using that unfolding old new maps_def by blast
    with m one c' show "(ixKnown (learn ps th ix) r = Some c) = (ixKnown ix r = Some c \<or> \<lparr> prRuntime = r, prPublic = c \<rparr> \<in> set ps)"
      unfolding oneMapping_def by (metis option.inject)
  next
    assume "fold (\<lambda>p m. m(prRuntime p \<mapsto> prPublic p)) ps (ixKnown ix) r = ixKnown ix r \<and> (\<forall>c. \<lparr> prRuntime = r, prPublic = c \<rparr> \<notin> set ps)"
    then show "(ixKnown (learn ps th ix) r = Some c) = (ixKnown ix r = Some c \<or> \<lparr> prRuntime = r, prPublic = c \<rparr> \<in> set ps)"
      by (simp add: learn_def)
  qed
  then have "knows pos pair log (learn ps th ix)"
    unfolding knows_def th using law by (auto simp: maps_def)
  with th show ?thesis by blast
qed

lemma readLoop_knows:
  assumes wf: "wfLog pos log" and one: "oneMapping pair log"
    and conforms: "\<forall>k a b. rd k a b = read log a b \<or> (\<exists>e. rd k a b = Inl e)"
  shows "knows pos pair log ix \<Longrightarrow> readLoop rd runtime bound k ix = (r, ix') \<Longrightarrow>
    knows pos pair log ix' \<and> ixAbsent ix' = ixAbsent ix \<and>
    (r = None \<longrightarrow> ixKnown ix' runtime \<noteq> None \<or> (\<forall>x\<in>set log. pos x \<le> ixThrough ix' \<or> late bound (pos x)))"
  using conforms
proof (induction rd runtime bound k ix rule: readLoop.induct)
  case (1 rd runtime bound k ix)
  show ?case
  proof (cases "rd k (ixThrough ix) bound")
    case (Inl e)
    with 1(3) have "r = Some e" "ix' = ix" by (simp_all add: readLoop.simps [of rd])
    with 1(2) show ?thesis by simp
  next
    case (Inr a)
    obtain ps th dn where a: "a = (ps, th, dn)" by (cases a) auto
    let ?ix = "learn ps th ix"
    have rd: "read log (ixThrough ix) bound = Inr (ps, th, dn)" using 1(4) Inr a by (metis Inl_Inr_False)
    note l = learn_knows [OF wf one 1(2) rd]
    have st: "stoodAt pos log (ixThrough ix)" using 1(2) by (simp add: knows_def)
    note law = read_law [OF wf st rd]
    have ab: "ixAbsent ?ix = ixAbsent ix" by (simp add: learn_def)
    show ?thesis
    proof (cases "ixKnown ?ix runtime \<noteq> None \<or> dn \<or> \<not> th > ixThrough ix")
      case True
      then have "r = None" "ix' = ?ix" using 1(3) Inr a by (simp_all add: readLoop.simps [of rd])
      moreover have "ixKnown ?ix runtime \<noteq> None \<or> (\<forall>x\<in>set log. pos x \<le> th \<or> late bound (pos x))"
        using True law by fastforce
      ultimately show ?thesis using l ab by simp
    next
      case False
      then have "readLoop rd runtime bound (Suc k) ?ix = (r, ix')" using 1(3) Inr a by (simp add: readLoop.simps [of rd _ _ k])
      from 1(1) [OF Inr a [symmetric] refl False conjunct1 [OF l] this 1(4)] ab show ?thesis by simp
    qed
  qed
qed

end

section \<open>The index answers with the mapping\<close>

context mapping_source
begin

text \<open>
  The runtime commands of a set \<open>T\<close> are only asked for once their mapping is recorded, those outside
  it at any time.
\<close>

lemma PublicCommand_answers_in:
  assumes wf: "wfLog pos f" and one: "oneMapping pair f" and pre: "prefix (qyLog q) f"
    and conforms: "\<forall>k a b. qyRead q k a b = read (qyLog q) a b \<or> (\<exists>e. qyRead q k a b = Inl e)"
    and visible: "qyRuntime q \<in> T \<longrightarrow> (\<forall>x\<in>set f. \<forall>c. pair x = Some \<lparr> prRuntime = qyRuntime q, prPublic = c \<rparr> \<longrightarrow>
        x \<in> set (qyLog q) \<and> \<not> late (qyBound q) (pos x))"
    and k: "knows pos pair (qyLog q) ix" and absent: "\<forall>r\<in>ixAbsent ix \<inter> T. \<forall>c. \<not> maps pair f r c"
    and pc: "PublicCommand (qyRead q) (qyRuntime q) (qyBound q) ix = (ans, ix')"
  shows "knows pos pair (qyLog q) ix' \<and> (\<forall>r\<in>ixAbsent ix' \<inter> T. \<forall>c. \<not> maps pair f r c) \<and>
    (\<forall>o'. ans = Inr o' \<longrightarrow> (\<forall>c. o' = Some c \<longrightarrow> maps pair f (qyRuntime q) c) \<and>
       (qyRuntime q \<in> T \<longrightarrow> (\<forall>c. o' = Some c \<longleftrightarrow> maps pair f (qyRuntime q) c)))"
proof -
  let ?l = "qyLog q" and ?r = "qyRuntime q"
  have wfl: "wfLog pos ?l" and onel: "oneMapping pair ?l"
    using wfLog_prefix [OF wf pre] one maps_prefix [OF _ pre] unfolding oneMapping_def by blast+
  have found: "o' = Some c \<longleftrightarrow> maps pair f ?r c" if "knows pos pair ?l i" "ixKnown i ?r = Some p" "o' = Some p" for i p o' c
  proof -
    have "maps pair ?l ?r p" using that(1,2) by (auto simp: knows_def maps_def)
    then have "maps pair f ?r p" by (rule maps_prefix [OF _ pre])
    then show ?thesis using that(3) one unfolding oneMapping_def by blast
  qed
  show ?thesis
  proof (cases "ixKnown ix ?r")
    case (Some p)
    then have "ans = Inr (Some p)" "ix' = ix" using pc by (simp_all add: PublicCommand_def)
    with found [OF k Some refl] k absent show ?thesis by simp
  next
    case None
    show ?thesis
    proof (cases "?r \<in> ixAbsent ix")
      case True
      then have "ans = Inr None" "ix' = ix" using pc None by (simp_all add: PublicCommand_def)
      with True k absent show ?thesis by simp
    next
      case False
      obtain e ix1 where rl: "readLoop (qyRead q) ?r (qyBound q) 0 ix = (e, ix1)" by fastforce
      note kn = readLoop_knows [OF wfl onel conforms k rl]
      show ?thesis
      proof (cases e)
        case (Some x)
        then have "ans = Inl x" "ix' = ix1" using pc None False rl by (simp_all add: PublicCommand_def)
        with kn absent show ?thesis by simp
      next
        case eN: None
        show ?thesis
        proof (cases "ixKnown ix1 ?r")
          case (Some p)
          then have "ans = Inr (Some p)" "ix' = ix1" using pc None False rl eN by (simp_all add: PublicCommand_def)
          with found [OF conjunct1 [OF kn] Some refl] kn absent show ?thesis by simp
        next
          case k1: None
          have ans: "ans = Inr None"
            and ix': "ix' = ix1\<lparr> ixAbsent := insert ?r (if card (ixAbsent ix1) \<ge> maxAbsent then {} else ixAbsent ix1) \<rparr>"
            using pc None False rl eN k1 by (simp_all add: PublicCommand_def)
          have "\<not> maps pair f ?r c" if "?r \<in> T" for c
          proof
            assume "maps pair f ?r c"
            then obtain x where x: "x \<in> set f" "pair x = Some \<lparr> prRuntime = ?r, prPublic = c \<rparr>" unfolding maps_def by blast
            with visible \<open>?r \<in> T\<close> have "x \<in> set ?l" "\<not> late (qyBound q) (pos x)" by blast+
            with kn eN k1 have "pos x \<le> ixThrough ix1" by blast
            with x \<open>x \<in> set ?l\<close> kn have "ixKnown ix1 ?r = Some c" by (auto simp: knows_def maps_def)
            with k1 show False by simp
          qed
          with ans ix' kn absent show ?thesis by (auto simp: knows_def)
        qed
      qed
    qed
  qed
qed

lemma PublicCommand_answers:
  assumes wf: "wfLog pos f" and one: "oneMapping pair f" and pre: "prefix (qyLog q) f"
    and conforms: "\<forall>k a b. qyRead q k a b = read (qyLog q) a b \<or> (\<exists>e. qyRead q k a b = Inl e)"
    and visible: "\<forall>x\<in>set f. \<forall>c. pair x = Some \<lparr> prRuntime = qyRuntime q, prPublic = c \<rparr> \<longrightarrow>
        x \<in> set (qyLog q) \<and> \<not> late (qyBound q) (pos x)"
    and k: "knows pos pair (qyLog q) ix" and absent: "\<forall>r\<in>ixAbsent ix. \<forall>c. \<not> maps pair f r c"
    and pc: "PublicCommand (qyRead q) (qyRuntime q) (qyBound q) ix = (ans, ix')"
  shows "knows pos pair (qyLog q) ix' \<and> (\<forall>r\<in>ixAbsent ix'. \<forall>c. \<not> maps pair f r c) \<and>
    (\<forall>o'. ans = Inr o' \<longrightarrow> (\<forall>c. o' = Some c \<longleftrightarrow> maps pair f (qyRuntime q) c))"
  using PublicCommand_answers_in [OF wf one pre conforms _ k _ pc, of UNIV] visible absent by simp

lemma index_answers:
  assumes wf: "wfLog pos f" and one: "oneMapping pair f"
  shows "growingLogs l qs f \<Longrightarrow> knows pos pair l ix \<Longrightarrow> \<forall>r\<in>ixAbsent ix \<inter> T. \<forall>c. \<not> maps pair f r c \<Longrightarrow>
    \<forall>q\<in>set qs. \<forall>k a b. qyRead q k a b = read (qyLog q) a b \<or> (\<exists>e. qyRead q k a b = Inl e) \<Longrightarrow>
    \<forall>q\<in>set qs. qyRuntime q \<in> T \<longrightarrow> (\<forall>x\<in>set f. \<forall>c. pair x = Some \<lparr> prRuntime = qyRuntime q, prPublic = c \<rparr> \<longrightarrow>
        x \<in> set (qyLog q) \<and> \<not> late (qyBound q) (pos x)) \<Longrightarrow>
    list_all2 (\<lambda>q ans. \<forall>o'. ans = Inr o' \<longrightarrow> (\<forall>c. o' = Some c \<longrightarrow> maps pair f (qyRuntime q) c) \<and>
       (qyRuntime q \<in> T \<longrightarrow> (\<forall>c. o' = Some c \<longleftrightarrow> maps pair f (qyRuntime q) c))) qs (askAll qs ix)"
proof (induction qs arbitrary: l ix)
  case Nil
  then show ?case by simp
next
  case (Cons q qs)
  obtain ans ix' where pc: "PublicCommand (qyRead q) (qyRuntime q) (qyBound q) ix = (ans, ix')" by fastforce
  have g: "prefix l (qyLog q)" "growingLogs (qyLog q) qs f" using Cons.prems(1) by simp_all
  have pre: "prefix (qyLog q) f" by (rule growingLogs_prefix [OF g(2)])
  have k: "knows pos pair (qyLog q) ix" by (rule knows_prefix [OF Cons.prems(2) g(1) wfLog_prefix [OF wf pre]])
  have q: "\<forall>k a b. qyRead q k a b = read (qyLog q) a b \<or> (\<exists>e. qyRead q k a b = Inl e)"
      "qyRuntime q \<in> T \<longrightarrow> (\<forall>x\<in>set f. \<forall>c. pair x = Some \<lparr> prRuntime = qyRuntime q, prPublic = c \<rparr> \<longrightarrow>
         x \<in> set (qyLog q) \<and> \<not> late (qyBound q) (pos x))"
    using Cons.prems(4,5) by simp_all
  note a = PublicCommand_answers_in [OF wf one pre q k Cons.prems(3) pc]
  have "list_all2 (\<lambda>q ans. \<forall>o'. ans = Inr o' \<longrightarrow> (\<forall>c. o' = Some c \<longrightarrow> maps pair f (qyRuntime q) c) \<and>
      (qyRuntime q \<in> T \<longrightarrow> (\<forall>c. o' = Some c \<longleftrightarrow> maps pair f (qyRuntime q) c))) qs (askAll qs ix')"
    using Cons.IH [OF g(2) conjunct1 [OF a]] a Cons.prems(4,5) by simp
  with a pc show ?case by simp
qed

end

section \<open>The journal and the inbox are sources\<close>

text \<open>What the stores answer: at most a page of the records from a position on, in order.\<close>

definition journalAnswer :: "RuntimeRecord list \<Rightarrow> u64 \<Rightarrow> nat \<Rightarrow> string + RuntimeRecord list" where
  "journalAnswer log from limit = Inr (take limit (filter (\<lambda>r. from \<le> rrSeq r) log))"

definition inboxAnswer :: "InboxRow list \<Rightarrow> u64 \<Rightarrow> nat \<Rightarrow> string + InboxRow list" where
  "inboxAnswer log after limit = Inr (take limit (filter (\<lambda>r. after < irOrder r) log))"

definition recordPair :: "RuntimeRecord \<Rightarrow> Pair option" where
  "recordPair r = (if rrPrefix r then Some \<lparr> prRuntime = rrRuntime r, prPublic = rrPublic r \<rparr> else None)"

definition rowPair :: "InboxRow \<Rightarrow> Pair option" where
  "rowPair r = map_option (\<lambda>u. \<lparr> prRuntime = u, prPublic = irPublic r \<rparr>) (irRuntime r)"

lemma rowPair_Some:
  "rowPair r = Some p \<longleftrightarrow> irRuntime r \<noteq> None \<and> p = \<lparr> prRuntime = the (irRuntime r), prPublic = irPublic r \<rparr>"
  by (auto simp: rowPair_def)

lemma fold_through:
  "sorted_wrt (<) (map f rs) \<Longrightarrow> \<forall>x\<in>set rs. t < f x \<Longrightarrow>
     fold (\<lambda>r t. if f r > t then f r else t) rs t = (if rs = [] then t else f (last rs))" for t :: u64
proof (induction rs arbitrary: t)
  case (Cons r rs)
  then show ?case using Cons.IH [of "f r"] by simp
qed simp

lemma last_greatest: "sorted_wrt (<) (map f rs) \<Longrightarrow> x \<in> set rs \<Longrightarrow> f x \<le> f (last rs)" for f :: "'r \<Rightarrow> u64"
proof (induction rs)
  case (Cons r rs)
  then show ?case by (cases "rs = []") (auto simp: less_imp_le)
qed simp

text \<open>A page of a log behind a position.\<close>

lemma page_law:
  assumes wf: "wfLog f log" and after: "stoodAt f log after" and n: "0 < n"
    and rs: "rs = take n (filter (\<lambda>x. after < f x) log)"
    and th: "th = fold (\<lambda>r t. if f r > t then f r else t) rs after"
  shows "stoodAt f log th \<and> after \<le> th \<and> (\<forall>x. x \<in> set rs \<longleftrightarrow> x \<in> set log \<and> after < f x \<and> f x \<le> th) \<and>
    (rs = [] \<longleftrightarrow> th = after) \<and> (length rs < n \<longrightarrow> (\<forall>x\<in>set log. f x \<le> th))"
proof -
  let ?fl = "filter (\<lambda>x. after < f x) log"
  have sorted: "sorted_wrt (<) (map f ?fl)"
    using wf unfolding wfLog_def sorted_wrt_map by (blast intro: sorted_wrt_filter)
  then have st: "sorted_wrt (<) (map f rs)" unfolding rs by (simp add: take_map [symmetric] sorted_wrt_take)
  have gt: "\<forall>x\<in>set rs. after < f x" unfolding rs by (auto dest: in_set_takeD)
  have th': "th = (if rs = [] then after else f (last rs))" unfolding th by (rule fold_through [OF st gt])
  have later: "f x < f y" if "x \<in> set rs" "y \<in> set (drop n ?fl)" for x y
  proof -
    have "sorted_wrt (<) (map f (take n ?fl) @ map f (drop n ?fl))"
      using sorted by (simp only: map_append [symmetric] append_take_drop_id)
    then show ?thesis using that unfolding rs sorted_wrt_append by simp
  qed
  note upto = last_greatest [OF st]
  have mem: "x \<in> set rs \<longleftrightarrow> x \<in> set log \<and> after < f x \<and> f x \<le> th" for x
  proof
    assume x: "x \<in> set rs"
    then have "x \<in> set ?fl" unfolding rs by (rule in_set_takeD)
    with x upto [OF x] th' show "x \<in> set log \<and> after < f x \<and> f x \<le> th" by auto
  next
    assume x: "x \<in> set log \<and> after < f x \<and> f x \<le> th"
    then have "x \<in> set ?fl" by simp
    then have "x \<in> set rs \<or> x \<in> set (drop n ?fl)" unfolding rs by (metis Un_iff append_take_drop_id set_append)
    moreover have "x \<notin> set (drop n ?fl)"
    proof (cases "rs = []")
      case True
      with th' have "th = after" by simp
      with x show ?thesis by auto
    next
      case False
      then have "last rs \<in> set rs" by simp
      with later [of "last rs" x] th' x False show ?thesis by (metis leD)
    qed
    ultimately show "x \<in> set rs" by blast
  qed
  have "stoodAt f log th \<and> after \<le> th"
    using after th' mem [of "last rs"] by (cases "rs = []") (auto simp: stoodAt_def)
  moreover have "rs = [] \<longleftrightarrow> th = after" using th' gt by (cases "rs = []") auto
  moreover have "f x \<le> th" if "length rs < n" "x \<in> set log" for x
  proof (cases "after < f x")
    case True
    have "rs = ?fl" using that(1) unfolding rs by simp
    with True that(2) mem [of x] show ?thesis by auto
  next
    case False
    with \<open>stoodAt f log th \<and> after \<le> th\<close> show ?thesis by auto
  qed
  ultimately show ?thesis using mem by blast
qed

lemma after_next: "after \<noteq> - 1 \<Longrightarrow> after + 1 \<le> w \<longleftrightarrow> after < w" for after w :: u64
  using unat_inc_no_wrap [of after] by (simp add: word_le_nat_alt word_less_nat_alt Suc_le_eq)

interpretation journal: mapping_source
  "\<lambda>log. JournalSourceRead (journalAnswer log)" rrSeq recordPair "\<lambda>bound p. bound < p"
proof
  fix log after bound ps th dn
  assume wf: "wfLog rrSeq log" and after: "stoodAt rrSeq log after"
    and rd: "JournalSourceRead (journalAnswer log) after bound = Inr (ps, th, dn)"
  define rs where "rs = take journalPage (filter (\<lambda>x. after < rrSeq x) log)"
  have "after \<noteq> - 1" using wf after by (auto simp: stoodAt_def wfLog_def)
  then have "journalAnswer log (after + 1) journalPage = Inr rs"
    by (simp add: journalAnswer_def rs_def after_next)
  with rd have r: "th = fold (\<lambda>r t. if rrSeq r > t then rrSeq r else t) rs after"
      "ps = map (\<lambda>r. \<lparr> prRuntime = rrRuntime r, prPublic = rrPublic r \<rparr>) (filter rrPrefix rs)" "dn \<longleftrightarrow> rs = [] \<or> bound \<le> th"
    by (auto simp: JournalSourceRead_def Let_def)
  note law = page_law [OF wf after _ rs_def r(1), unfolded journalPage_def, simplified]
  have "set ps = {p. \<exists>x\<in>set log. after < rrSeq x \<and> rrSeq x \<le> th \<and> recordPair x = Some p}"
    unfolding r(2) recordPair_def using law by auto
  moreover have "rrSeq x \<le> th \<or> bound < rrSeq x" if "dn \<or> th = after" "x \<in> set log" for x
  proof (cases "rs = []")
    case True
    with law that(2) show ?thesis by auto
  next
    case False
    with that law r(3) have "bound \<le> th" by blast
    then show ?thesis by (meson leI le_less_trans)
  qed
  ultimately show "stoodAt rrSeq log th \<and> after \<le> th \<and>
      set ps = {p. \<exists>x\<in>set log. after < rrSeq x \<and> rrSeq x \<le> th \<and> recordPair x = Some p} \<and>
      (dn \<or> th = after \<longrightarrow> (\<forall>x\<in>set log. rrSeq x \<le> th \<or> bound < rrSeq x))"
    using law by blast
qed

interpretation inbox: mapping_source
  "\<lambda>log. inboxCommandsRead (inboxAnswer log)" irOrder rowPair "\<lambda>bound p. False"
proof
  fix log after bound ps th dn
  assume wf: "wfLog irOrder log" and after: "stoodAt irOrder log after"
    and rd: "inboxCommandsRead (inboxAnswer log) after bound = Inr (ps, th, dn)"
  define rs where "rs = take inboxCommandPage (filter (\<lambda>x. after < irOrder x) log)"
  have r: "th = fold (\<lambda>r t. if irOrder r > t then irOrder r else t) rs after"
      "ps = map (\<lambda>r. \<lparr> prRuntime = the (irRuntime r), prPublic = irPublic r \<rparr>) (filter (\<lambda>r. irRuntime r \<noteq> None) rs)"
      "dn \<longleftrightarrow> length rs < inboxCommandPage"
    using rd by (auto simp: inboxCommandsRead_def inboxAnswer_def rs_def)
  have n: "0 < inboxCommandPage" by (simp add: inboxCommandPage_def)
  note law = page_law [OF wf after n rs_def r(1)]
  have "set ps = {p. \<exists>x\<in>set log. after < irOrder x \<and> irOrder x \<le> th \<and> rowPair x = Some p}"
    unfolding r(2) rowPair_Some using law by auto
  moreover have "\<forall>x\<in>set log. irOrder x \<le> th" if "dn \<or> th = after"
  proof -
    have "rs = [] \<longleftrightarrow> th = after" using law by blast
    with that r(3) n have "length rs < inboxCommandPage" by auto
    with law show ?thesis by blast
  qed
  ultimately show "stoodAt irOrder log th \<and> after \<le> th \<and>
      set ps = {p. \<exists>x\<in>set log. after < irOrder x \<and> irOrder x \<le> th \<and> rowPair x = Some p} \<and>
      (dn \<or> th = after \<longrightarrow> (\<forall>x\<in>set log. irOrder x \<le> th \<or> False))"
    using law by blast
qed

text \<open>
  C23: the index of commands answers with the admission mapping.  A runtime command is mapped at most
  once by the session's journal, in its application prefixes; reads may fail at any point, and questions
  are asked in any order over the growing journal.  Every answer that names a public command names the one
  the journal maps, whenever it was asked.  For a runtime command that is only asked for when the
  record of its mapping, if the journal ever has one, is in the journal at or below the bound, every answer
  that is not an error is the public command, and nothing exactly when there is none, however
  prematurely other runtime commands were asked for: the remembered misses, the paging and the bound
  never hide such a mapping.
\<close>

theorem journal_index_answers:
  assumes "wfLog rrSeq journal" "oneMapping recordPair journal" "growingLogs [] qs journal"
    and "\<forall>q\<in>set qs. \<forall>k a b. qyRead q k a b = JournalSourceRead (journalAnswer (qyLog q)) a b \<or> (\<exists>e. qyRead q k a b = Inl e)"
  shows "list_all2 (\<lambda>q ans. \<forall>o'. ans = Inr o' \<longrightarrow>
      (\<forall>c. o' = Some c \<longrightarrow> maps recordPair journal (qyRuntime q) c) \<and>
      ((\<forall>q'\<in>set qs. qyRuntime q' = qyRuntime q \<longrightarrow>
          (\<forall>x\<in>set journal. \<forall>c. recordPair x = Some \<lparr> prRuntime = qyRuntime q, prPublic = c \<rparr> \<longrightarrow>
             x \<in> set (qyLog q') \<and> rrSeq x \<le> qyBound q')) \<longrightarrow>
       (\<forall>c. o' = Some c \<longleftrightarrow> maps recordPair journal (qyRuntime q) c)))
    qs (askAll qs NewIndex)"
proof -
  let ?T = "{r. \<forall>q'\<in>set qs. qyRuntime q' = r \<longrightarrow> (\<forall>x\<in>set journal. \<forall>c. recordPair x = Some \<lparr> prRuntime = r, prPublic = c \<rparr> \<longrightarrow>
     x \<in> set (qyLog q') \<and> rrSeq x \<le> qyBound q')}"
  have k: "knows rrSeq recordPair [] NewIndex" by (simp add: knows_def stoodAt_def maps_def NewIndex_def)
  have a: "\<forall>r\<in>ixAbsent NewIndex \<inter> ?T. \<forall>c. \<not> maps recordPair journal r c" by (simp add: NewIndex_def)
  have v: "\<forall>q\<in>set qs. qyRuntime q \<in> ?T \<longrightarrow> (\<forall>x\<in>set journal. \<forall>c. recordPair x = Some \<lparr> prRuntime = qyRuntime q, prPublic = c \<rparr> \<longrightarrow>
      x \<in> set (qyLog q) \<and> \<not> qyBound q < rrSeq x)"
    by (auto simp: not_less)
  from journal.index_answers [OF assms(1,2,3) k a assms(4) v] show ?thesis by simp
qed

text \<open>The same for the inbox, which the live tail reads.\<close>

lemma inbox_index_answers:
  assumes "wfLog irOrder rows" "oneMapping rowPair rows" "growingLogs [] qs rows"
    and "\<forall>q\<in>set qs. \<forall>k a b. qyRead q k a b = inboxCommandsRead (inboxAnswer (qyLog q)) a b \<or> (\<exists>e. qyRead q k a b = Inl e)"
    and "\<forall>q\<in>set qs. \<forall>x\<in>set rows. \<forall>c. rowPair x = Some \<lparr> prRuntime = qyRuntime q, prPublic = c \<rparr> \<longrightarrow> x \<in> set (qyLog q)"
  shows "list_all2 (\<lambda>q ans. \<forall>o'. ans = Inr o' \<longrightarrow> (\<forall>c. o' = Some c \<longleftrightarrow> maps rowPair rows (qyRuntime q) c))
    qs (askAll qs NewIndex)"
proof -
  have k: "knows irOrder rowPair [] NewIndex" by (simp add: knows_def stoodAt_def maps_def NewIndex_def)
  have a: "\<forall>r\<in>ixAbsent NewIndex \<inter> UNIV. \<forall>c. \<not> maps rowPair rows r c" by (simp add: NewIndex_def)
  have v: "\<forall>q\<in>set qs. qyRuntime q \<in> UNIV \<longrightarrow> (\<forall>x\<in>set rows. \<forall>c. rowPair x = Some \<lparr> prRuntime = qyRuntime q, prPublic = c \<rparr> \<longrightarrow>
      x \<in> set (qyLog q) \<and> \<not> False)"
    using assms(5) by simp
  from inbox.index_answers [OF assms(1,2,3) k a assms(4) v] show ?thesis by (rule list_all2_mono) simp
qed

definition exRecords :: "RuntimeRecord list" where
  "exRecords = [\<lparr> rrSeq = 1, rrPrefix = True, rrRuntime = ''r1'', rrPublic = ''c1'' \<rparr>,
     \<lparr> rrSeq = 2, rrPrefix = False, rrRuntime = [], rrPublic = [] \<rparr>, \<lparr> rrSeq = 4, rrPrefix = True, rrRuntime = ''r2'', rrPublic = ''c2'' \<rparr>]"

definition exQuery :: "nat \<Rightarrow> uuid \<Rightarrow> u64 \<Rightarrow> RuntimeRecord Query" where
  "exQuery n r b = \<lparr> qyLog = take n exRecords, qyRead = (\<lambda>_. JournalSourceRead (journalAnswer (take n exRecords))), qyRuntime = r, qyBound = b \<rparr>"

text \<open>
  A command is asked for before its mapping is recorded, which is remembered as a miss; the next answer is
  not touched by it.
\<close>

theorem journal_index_answers_witness:
  "askAll [exQuery 2 ''r2'' 2, exQuery 3 ''r1'' 4] NewIndex ! 1 = Inr (Some ''c1'')"
proof -
  let ?qs = "[exQuery 2 ''r2'' 2, exQuery 3 ''r1'' 4]"
  have 1: "wfLog rrSeq exRecords" by (simp add: wfLog_def exRecords_def)
  have 2: "oneMapping recordPair exRecords" by (auto simp: oneMapping_def maps_def exRecords_def recordPair_def)
  have 3: "growingLogs [] ?qs exRecords" by (simp add: exQuery_def exRecords_def)
  have 4: "\<forall>q\<in>set ?qs. \<forall>k a b. qyRead q k a b = JournalSourceRead (journalAnswer (qyLog q)) a b \<or> (\<exists>e. qyRead q k a b = Inl e)"
    by (simp add: exQuery_def)
  have "\<not> isl (askAll ?qs NewIndex ! 1)" by code_simp
  then have ok: "\<exists>o'. askAll ?qs NewIndex ! 1 = Inr o'" by (cases "askAll ?qs NewIndex ! 1") simp_all
  have r1: "\<forall>q'\<in>set ?qs. qyRuntime q' = qyRuntime (?qs ! 1) \<longrightarrow>
      (\<forall>x\<in>set exRecords. \<forall>c. recordPair x = Some \<lparr> prRuntime = qyRuntime (?qs ! 1), prPublic = c \<rparr> \<longrightarrow>
         x \<in> set (qyLog q') \<and> rrSeq x \<le> qyBound q')"
    by (auto simp: exQuery_def exRecords_def recordPair_def)
  have m: "maps recordPair exRecords (qyRuntime (?qs ! 1)) ''c1''" by (simp add: maps_def exQuery_def exRecords_def recordPair_def)
  obtain o' where o': "askAll ?qs NewIndex ! 1 = Inr o'" using ok by blast
  have "1 < length ?qs" by simp
  note h = list_all2_nthD [OF journal_index_answers [OF 1 2 3 4] this, rule_format, OF o', THEN conjunct2, rule_format]
  have "o' = Some ''c1''" by (rule iffD2 [OF h m]) (use r1 in auto)
  with o' show ?thesis by simp
qed

end
