(* ===== verification/LiveText.thy ===== *)
theory LiveText
  imports Json
begin

text \<open>
  The transient bodies of a live session: \<^verbatim>\<open>internal/livetext/body.go\<close> and \<^verbatim>\<open>internal/livetool/body.go\<close>.
  A body is its bytes; decoding into a struct is \<^verbatim>\<open>json.Unmarshal\<close>: the members in their order, a name
  matched without regard to the case of its ASCII letters, a null leaving a field as it was, a value
  of another type failing the whole.
\<close>

section \<open>Decoding into a struct\<close>

definition toLower :: "char \<Rightarrow> char" where
  "toLower c = (if 65 \<le> code c \<and> code c \<le> 90 then char_of (code c + 32) else c)"

definition named :: "string \<Rightarrow> JMember \<Rightarrow> bool" where
  "named name m \<longleftrightarrow> map toLower (jmKey m) = map toLower name"

definition isNull :: "string \<Rightarrow> bool" where
  "isNull raw \<longleftrightarrow> raw = ''null''"

definition asString :: "string \<Rightarrow> string \<Rightarrow> string option" where
  "asString old raw = (if isNull raw then Some old else decodeString raw)"

definition asBool :: "bool \<Rightarrow> string \<Rightarrow> bool option" where
  "asBool old raw = (if isNull raw then Some old else if raw = ''true'' then Some True else if raw = ''false'' then Some False else None)"

definition digitsVal :: "string \<Rightarrow> nat" where
  "digitsVal s = foldl (\<lambda>n c. 10 * n + (code c - 48)) 0 s"

definition asInt :: "int \<Rightarrow> string \<Rightarrow> int option" where
  "asInt old raw =
     (if isNull raw then Some old
      else
        (case raw of
           c # r \<Rightarrow>
             if c = CHR ''-'' then (if r \<noteq> [] \<and> list_all isDigit r \<and> digitsVal r \<le> 2 ^ 63 then Some (- int (digitsVal r)) else None)
             else if list_all isDigit raw \<and> digitsVal raw < 2 ^ 63 then Some (int (digitsVal raw)) else None
         | [] \<Rightarrow> None))"

definition asUint64 :: "u64 \<Rightarrow> string \<Rightarrow> u64 option" where
  "asUint64 old raw =
     (if isNull raw then Some old
      else if raw \<noteq> [] \<and> list_all isDigit raw \<and> digitsVal raw < 2 ^ 64 then Some (of_nat (digitsVal raw)) else None)"

text \<open>The members of a body, or none for a null; another value is no struct.\<close>

definition structMembers :: "string \<Rightarrow> JMember list option" where
  "structMembers raw = (if isNull (skipWs raw) then Some [] else map_option fst (splitObject raw))"

definition unmarshal :: "(JMember \<Rightarrow> 'd \<Rightarrow> 'd option) \<Rightarrow> 'd \<Rightarrow> string \<Rightarrow> 'd option" where
  "unmarshal put zero raw =
     (if \<not> jsonValid raw then None
      else Option.bind (structMembers raw) (\<lambda>ms. fold (\<lambda>m acc. Option.bind acc (put m)) ms (Some zero)))"

text \<open>A map of raw members; the last member of a name counts.  It is written with its keys in order.\<close>

definition rawMap :: "JMember list \<Rightarrow> (string \<times> string) list" where
  "rawMap ms = fold (\<lambda>m acc. (jmKey m, jmValue m) # filter (\<lambda>kv. fst kv \<noteq> jmKey m) acc) ms []"

definition putRaw :: "string \<Rightarrow> string \<Rightarrow> (string \<times> string) list \<Rightarrow> (string \<times> string) list" where
  "putRaw k v ms = (k, v) # filter (\<lambda>kv. fst kv \<noteq> k) ms"

definition marshalMap :: "(string \<times> string) list \<Rightarrow> string" where
  "marshalMap ms =
     CHR ''{'' # joinWith (CHR '','') (map (\<lambda>(k, v). goQuote k @ CHR '':'' # goCompact False v) (sort_key fst ms)) @ [CHR ''}'']"

section \<open>Text\<close>

definition MaxBytes :: nat where "MaxBytes = 2048"

record Delta =
  dlVersion :: int
  dlType :: string
  dlSessionID :: string
  dlLoopID :: string
  dlTurnID :: string
  dlChunkType :: string
  dlText :: string
  dlThinking :: string

definition zeroDelta :: Delta where
  "zeroDelta = \<lparr> dlVersion = 0, dlType = [], dlSessionID = [], dlLoopID = [], dlTurnID = [], dlChunkType = [], dlText = [], dlThinking = [] \<rparr>"

definition putChunk :: "JMember \<Rightarrow> Delta \<Rightarrow> Delta option" where
  "putChunk m d =
     (if named ''chunk_type'' m then map_option (\<lambda>s. d\<lparr> dlChunkType := s \<rparr>) (asString (dlChunkType d) (jmValue m))
      else if named ''text'' m then map_option (\<lambda>s. d\<lparr> dlText := s \<rparr>) (asString (dlText d) (jmValue m))
      else if named ''thinking'' m then map_option (\<lambda>s. d\<lparr> dlThinking := s \<rparr>) (asString (dlThinking d) (jmValue m))
      else Some d)"

definition putDelta :: "JMember \<Rightarrow> Delta \<Rightarrow> Delta option" where
  "putDelta m d =
     (if named ''v'' m then map_option (\<lambda>n. d\<lparr> dlVersion := n \<rparr>) (asInt (dlVersion d) (jmValue m))
      else if named ''type'' m then map_option (\<lambda>s. d\<lparr> dlType := s \<rparr>) (asString (dlType d) (jmValue m))
      else if named ''session_id'' m then map_option (\<lambda>s. d\<lparr> dlSessionID := s \<rparr>) (asString (dlSessionID d) (jmValue m))
      else if named ''loop_id'' m then map_option (\<lambda>s. d\<lparr> dlLoopID := s \<rparr>) (asString (dlLoopID d) (jmValue m))
      else if named ''turn_id'' m then map_option (\<lambda>s. d\<lparr> dlTurnID := s \<rparr>) (asString (dlTurnID d) (jmValue m))
      else if named ''chunk'' m then
        Option.bind (structMembers (jmValue m)) (\<lambda>ms. fold (\<lambda>c acc. Option.bind acc (putChunk c)) ms (Some d))
      else Some d)"

definition ParseText :: "string \<Rightarrow> Delta option" where
  "ParseText body =
     (case unmarshal putDelta zeroDelta body of
        None \<Rightarrow> None
      | Some d \<Rightarrow>
          if dlVersion d \<noteq> 1 \<or> dlType d \<noteq> ''TokenDelta'' \<or> dlLoopID d = [] \<or> dlTurnID d = [] \<or>
            dlChunkType d \<noteq> ''text'' \<and> dlChunkType d \<noteq> ''thinking''
          then None
          else
            (let d' = (if dlChunkType d = ''thinking'' then d\<lparr> dlText := dlThinking d \<rparr> else d) in
             if dlText d' = [] \<or> length (dlText d') > MaxBytes then None else Some d'))"

definition Join :: "string \<Rightarrow> string \<Rightarrow> string option" where
  "Join first text =
     (case ParseText first of
        None \<Rightarrow> None
      | Some d \<Rightarrow>
          (case splitObject first of
             None \<Rightarrow> None
           | Some (ms, _) \<Rightarrow>
               (let name = (if dlChunkType d = ''thinking'' then ''thinking'' else ''text'');
                    chunk = CHR ''{'' # goQuote ''chunk_type'' @ CHR '':'' # goQuote name @ CHR '','' # goQuote name @ CHR '':'' # goQuote text @ [CHR ''}'']
                in Some (marshalMap (putRaw ''chunk'' chunk (rawMap ms))))))"

definition Merge :: "string \<Rightarrow> string \<Rightarrow> string option" where
  "Merge first next =
     (case (ParseText first, ParseText next) of
        (Some a, Some b) \<Rightarrow>
          if dlSessionID a \<noteq> dlSessionID b \<or> dlLoopID a \<noteq> dlLoopID b \<or> dlTurnID a \<noteq> dlTurnID b \<or> dlChunkType a \<noteq> dlChunkType b \<or>
            length (dlText a) + length (dlText b) > MaxBytes
          then None else Join first (dlText a @ dlText b)
      | _ \<Rightarrow> None)"

definition putBoundary :: "JMember \<Rightarrow> string \<times> string \<Rightarrow> (string \<times> string) option" where
  "putBoundary m d =
     (if named ''type'' m then map_option (\<lambda>s. (s, snd d)) (asString (fst d) (jmValue m))
      else if named ''loop_id'' m then map_option (\<lambda>s. (fst d, s)) (asString (snd d) (jmValue m))
      else Some d)"

definition BoundaryLoop :: "string \<Rightarrow> string option" where
  "BoundaryLoop body =
     (case unmarshal putBoundary ([], []) body of
        None \<Rightarrow> None
      | Some (ty, loop) \<Rightarrow>
          if ty \<in> {''StepDone'', ''TurnDone'', ''TurnFailed'', ''TurnInterrupted''} then Some loop else None)"

section \<open>Tool steps\<close>

record Step =
  spVersion :: int
  spType :: string
  spSessionID :: string
  spLoopID :: string
  spTurnID :: string
  spStepID :: string
  spToolExecutionID :: string
  spToolUseID :: string
  spToolName :: string
  spSummary :: string
  spIsError :: bool
  spElapsedMillis :: u64
  spResultPreview :: string

definition zeroStep :: Step where
  "zeroStep = \<lparr> spVersion = 0, spType = [], spSessionID = [], spLoopID = [], spTurnID = [], spStepID = [], spToolExecutionID = [],
     spToolUseID = [], spToolName = [], spSummary = [], spIsError = False, spElapsedMillis = 0, spResultPreview = [] \<rparr>"

definition putStep :: "JMember \<Rightarrow> Step \<Rightarrow> Step option" where
  "putStep m d =
     (let v = jmValue m in
      if named ''v'' m then map_option (\<lambda>n. d\<lparr> spVersion := n \<rparr>) (asInt (spVersion d) v)
      else if named ''type'' m then map_option (\<lambda>s. d\<lparr> spType := s \<rparr>) (asString (spType d) v)
      else if named ''session_id'' m then map_option (\<lambda>s. d\<lparr> spSessionID := s \<rparr>) (asString (spSessionID d) v)
      else if named ''loop_id'' m then map_option (\<lambda>s. d\<lparr> spLoopID := s \<rparr>) (asString (spLoopID d) v)
      else if named ''turn_id'' m then map_option (\<lambda>s. d\<lparr> spTurnID := s \<rparr>) (asString (spTurnID d) v)
      else if named ''step_id'' m then map_option (\<lambda>s. d\<lparr> spStepID := s \<rparr>) (asString (spStepID d) v)
      else if named ''tool_execution_id'' m then map_option (\<lambda>s. d\<lparr> spToolExecutionID := s \<rparr>) (asString (spToolExecutionID d) v)
      else if named ''tool_use_id'' m then map_option (\<lambda>s. d\<lparr> spToolUseID := s \<rparr>) (asString (spToolUseID d) v)
      else if named ''tool_name'' m then map_option (\<lambda>s. d\<lparr> spToolName := s \<rparr>) (asString (spToolName d) v)
      else if named ''summary'' m then map_option (\<lambda>s. d\<lparr> spSummary := s \<rparr>) (asString (spSummary d) v)
      else if named ''is_error'' m then map_option (\<lambda>b. d\<lparr> spIsError := b \<rparr>) (asBool (spIsError d) v)
      else if named ''elapsed_ms'' m then map_option (\<lambda>n. d\<lparr> spElapsedMillis := n \<rparr>) (asUint64 (spElapsedMillis d) v)
      else if named ''result_preview'' m then map_option (\<lambda>s. d\<lparr> spResultPreview := s \<rparr>) (asString (spResultPreview d) v)
      else Some d)"

definition ParseTool :: "string \<Rightarrow> Step option" where
  "ParseTool body =
     (case unmarshal putStep zeroStep body of
        None \<Rightarrow> None
      | Some d \<Rightarrow>
          if spVersion d \<noteq> 1 \<or> spType d \<noteq> ''ToolCallStarted'' \<and> spType d \<noteq> ''ToolCallCompleted'' \<or>
            spLoopID d = [] \<or> spTurnID d = [] \<or> spToolExecutionID d = []
          then None else Some d)"

definition KindTool :: "string \<Rightarrow> string option" where
  "KindTool body = map_option spType (ParseTool body)"

text \<open>Shortening one member until the body fits; the cut falls on the start of a rune.\<close>

definition ellipsis :: string where "ellipsis = [CHR 0xE2, CHR 0x80, CHR 0xA6]"

definition runeStart :: "char \<Rightarrow> bool" where
  "runeStart c \<longleftrightarrow> \<not> (128 \<le> code c \<and> code c < 192)"

fun backToRune :: "string \<Rightarrow> nat \<Rightarrow> nat" where
  "backToRune str 0 = 0"
| "backToRune str (Suc n) = (if runeStart (str ! Suc n) then Suc n else backToRune str n)"

lemma backToRune_le: "backToRune str n \<le> n"
  by (induction n) auto

text \<open>One round: how much of the text is kept when the encoding is \<open>over\<close> bytes too long.\<close>

definition nextCut :: "string \<Rightarrow> nat \<Rightarrow> nat \<Rightarrow> nat" where
  "nextCut str keep over = backToRune str (keep - (over + length ellipsis))"

function fitLoop :: "nat \<Rightarrow> string \<Rightarrow> string \<Rightarrow> nat \<Rightarrow> (string \<times> string) list \<Rightarrow> string option \<times> (string \<times> string) list" where
  "fitLoop limit name str keep members =
     (let encoded = marshalMap members in
      if length encoded \<le> limit then (Some encoded, members)
      else if keep = 0 then (None, members)
      else
        (let keep' = nextCut str keep (length encoded - limit) in
         fitLoop limit name str keep' (putRaw name (goQuote (take keep' str @ ellipsis)) members)))"
  by pat_completeness auto

termination
proof (relation "measure (\<lambda>(limit, name, str, keep, members). keep)")
  fix limit :: nat and name str :: string and keep members x xa
  assume "x = marshalMap members" "\<not> length x \<le> limit" "keep \<noteq> 0" "xa = nextCut str keep (length x - limit)"
  then show "((limit, name, str, xa, putRaw name (goQuote (take xa str @ ellipsis)) members), limit, name, str, keep, members)
      \<in> measure (\<lambda>(limit, name, str, keep, members). keep)"
    using backToRune_le [of str "keep - (length x - limit + length ellipsis)"] by (simp add: nextCut_def ellipsis_def)
qed simp

declare fitLoop.simps [simp del]

fun fitMembers :: "nat \<Rightarrow> string list \<Rightarrow> (string \<times> string) list \<Rightarrow> string option" where
  "fitMembers limit [] members = None"
| "fitMembers limit (name # names) members =
     (case map_of members name of
        None \<Rightarrow> fitMembers limit names members
      | Some raw \<Rightarrow>
          (case asString [] raw of
             None \<Rightarrow> None
           | Some str \<Rightarrow>
               (case fitLoop limit name str (length str) members of
                  (Some encoded, _) \<Rightarrow> Some encoded
                | (None, members') \<Rightarrow> fitMembers limit names members')))"

definition Fit :: "string \<Rightarrow> nat \<Rightarrow> string option" where
  "Fit body limit =
     (case ParseTool body of
        None \<Rightarrow> None
      | Some _ \<Rightarrow>
          if length body \<le> limit then Some body
          else
            (case splitObject body of
               None \<Rightarrow> None
             | Some (ms, _) \<Rightarrow> fitMembers limit [''result_preview'', ''summary''] (rawMap ms)))"

lemma fitLoop_fits: "fitLoop limit name str keep members = (Some e, ms) \<Longrightarrow> length e \<le> limit"
proof (induction limit name str keep members rule: fitLoop.induct)
  case (1 limit name str keep members)
  show ?case
  proof (cases "length (marshalMap members) \<le> limit")
    case True
    with 1(2) show ?thesis by (auto simp: fitLoop.simps [of limit name str keep] Let_def)
  next
    case False
    then have "keep \<noteq> 0" using 1(2) by (auto simp: fitLoop.simps [of limit name str keep] Let_def split: if_splits)
    with False 1 show ?thesis by (simp add: fitLoop.simps [of limit name str keep] Let_def)
  qed
qed

lemma fitMembers_fits: "fitMembers limit names members = Some e \<Longrightarrow> length e \<le> limit"
proof (induction names arbitrary: members)
  case (Cons name names)
  show ?case
  proof (cases "map_of members name")
    case None
    with Cons show ?thesis by simp
  next
    case (Some raw)
    then obtain str where t: "asString [] raw = Some str" using Cons.prems by (cases "asString [] raw") auto
    obtain o' ms where l: "fitLoop limit name str (length str) members = (o', ms)" by fastforce
    with Some t Cons fitLoop_fits [of limit name str "length str" members e ms] show ?thesis by (cases o') auto
  qed
qed simp

lemma Fit_fits: "Fit body limit = Some e \<Longrightarrow> length e \<le> limit"
  by (auto simp: Fit_def simp del: fitMembers.simps dest: fitMembers_fits split: option.splits if_splits)

end
