(* ===== verification/Tail.thy ===== *)
theory Tail
  imports LiveText "HOL-Library.Sublist"
begin

text \<open>
  The live tail of a session, \<^verbatim>\<open>internal/service/events.go\<close>: one goroutine per session that relays what
  the runtime committed and, between those frames, transient text and tool steps.

  The goroutine is a step function over the events its select can take: the context ends, the flush
  timer fires, a projection worker answers, the stream delivers or closes.  The state is the loop's
  local variables and the counters of the tail; \<open>lsOut\<close> is what reached the channel.  The transport,
  the projector of enduring bodies and Core's encoders are a record; the transport's answers are
  given by the number of the call, so they are arbitrary.  The bodies are read by the functions of
  theory \<open>LiveText\<close>, which a record hands in (\<open>hostCodec\<close>).
\<close>

section \<open>Publications and frames\<close>

record EphemeralPublication =
  epTenantID :: tenant_id
  epSessionID :: session_id
  epBody :: string

record EnduringPublication =
  enTenantID :: tenant_id
  enSessionID :: session_id
  enEventID :: string
  enJournalSeq :: u64
  enCoveredThrough :: u64
  enBody :: string

record LiveCodec =
  lcParse :: "string \<Rightarrow> Delta option"
  lcMerge :: "string \<Rightarrow> string \<Rightarrow> string option"
  lcBoundary :: "string \<Rightarrow> string option"
  lcTool :: "string \<Rightarrow> Step option"
  lcFit :: "string \<Rightarrow> nat \<Rightarrow> string option"
  lcEphemeral :: "EphemeralPublication \<Rightarrow> string option"
  lcEnduring :: "EnduringPublication \<Rightarrow> string option"

definition hostCodec :: "(EphemeralPublication \<Rightarrow> string option) \<Rightarrow> (EnduringPublication \<Rightarrow> string option) \<Rightarrow> LiveCodec" where
  "hostCodec eph end' =
     \<lparr> lcParse = ParseText, lcMerge = Merge, lcBoundary = BoundaryLoop, lcTool = ParseTool, lcFit = Fit,
       lcEphemeral = eph, lcEnduring = end' \<rparr>"

datatype TailError = ErrForeignPublication | ErrRewrite string | ErrEncode | ErrTransport string | ErrTerminal string | ErrContext

datatype TailEnd = TailEndRunning | TailEndStopped | TailEndLost | TailEndRefused

record TailConfig =
  tcKey :: Key
  tcReasoning :: bool
  tcToolSteps :: bool
  tcEphemeralTransport :: bool
  tcTry :: "nat \<Rightarrow> bool"
  tcPublish :: "nat \<Rightarrow> string option"
  tcRewrite :: "(string \<Rightarrow> u64 \<Rightarrow> string + string) option"
  tcTransient :: "string \<Rightarrow> string"

datatype Frame = TextFrame Delta string | ToolFrame string | EndFrame EnduringPublication string

section \<open>Starting a tail\<close>

record TailOptions =
  txPublications :: bool
  txRoutes :: bool
  txFlushInterval :: int

datatype TailOptionError = TailOptionError string | SubscribeFailed string

definition NewTails :: "TailOptions \<Rightarrow> TailOptionError + int" where
  "NewTails options =
     (if \<not> txPublications options then Inl (TailOptionError ''Publications'')
      else if \<not> txRoutes options then Inl (TailOptionError ''Routes'')
      else if txFlushInterval options < 0 then Inl (TailOptionError ''FlushInterval'')
      else Inr (if txFlushInterval options = 0 then 50000000 else txFlushInterval options))"

text \<open>What the subscriber offers, and the subscription taken.\<close>

record Subscriber =
  sbLiveOptions :: bool
  sbLive :: bool
  sbReasoning :: bool

datatype Subscription = SubscribeLiveWith bool bool | SubscribeLiveReasoning | SubscribeLive | SubscribeCommitted

definition chooseSubscription :: "bool \<Rightarrow> bool \<Rightarrow> bool \<Rightarrow> Subscriber \<Rightarrow> Subscription" where
  "chooseSubscription includeReasoning includeToolSteps transient sub =
     (if sbLiveOptions sub \<and> transient then SubscribeLiveWith includeReasoning includeToolSteps
      else if sbLive sub \<and> transient then
        (if sbReasoning sub \<and> includeReasoning then SubscribeLiveReasoning else SubscribeLive)
      else SubscribeCommitted)"

definition PublishProjected ::
  "(tenant_id \<Rightarrow> bool) \<Rightarrow> (session_id \<Rightarrow> bool) \<Rightarrow> bool \<Rightarrow> bool \<Rightarrow> Key \<Rightarrow> Subscriber option \<Rightarrow> bool
     \<Rightarrow> (Subscription \<Rightarrow> string option) \<Rightarrow> TailOptionError + Subscription" where
  "PublishProjected validTenant validSession includeReasoning includeToolSteps key subscriber transient subscribe =
     (case subscriber of
        None \<Rightarrow> Inl (TailOptionError ''PublicationSubscriber'')
      | Some sub \<Rightarrow>
          if \<not> validTenant (TenantID key) then Inl (TailOptionError ''TenantID'')
          else if \<not> validSession (SessionID key) then Inl (TailOptionError ''SessionID'')
          else
            (let choice = chooseSubscription includeReasoning includeToolSteps transient sub in
             case subscribe choice of Some e \<Rightarrow> Inl (SubscribeFailed e) | None \<Rightarrow> Inr choice))"

section \<open>The state of the relay\<close>

definition liveProjectionQueue :: nat where "liveProjectionQueue = 16"
definition ephemeralFrameCap :: nat where "ephemeralFrameCap = 4096"

record LiveState =
  lsPending :: "(EphemeralPublication \<times> Delta) option"
  lsGapped :: "string set"
  lsFlushAt :: bool
  lsProjecting :: "EphemeralPublication option"
  lsQueued :: "EphemeralPublication list"
  lsEnd :: TailEnd
  lsCause :: "TailError option"
  lsPublished :: u64
  lsEphPublished :: u64
  lsEphDrops :: u64
  lsReturned :: bool
  lsInvalidated :: nat
  lsOut :: "Frame list"
  lsTries :: nat
  lsPubs :: nat

definition startLive :: LiveState where
  "startLive = \<lparr> lsPending = None, lsGapped = {}, lsFlushAt = False, lsProjecting = None, lsQueued = [], lsEnd = TailEndRunning,
     lsCause = None, lsPublished = 0, lsEphPublished = 0, lsEphDrops = 0, lsReturned = False, lsInvalidated = 0, lsOut = [], lsTries = 0,
     lsPubs = 0 \<rparr>"

definition textKey :: "Delta \<Rightarrow> string" where
  "textKey d = dlLoopID d @ CHR 0x00 # dlTurnID d @ CHR 0x00 # dlChunkType d"

definition stopTimer :: "LiveState \<Rightarrow> LiveState" where
  "stopTimer s = s\<lparr> lsFlushAt := False \<rparr>"

definition startTimer :: "LiveState \<Rightarrow> LiveState" where
  "startTimer s = s\<lparr> lsFlushAt := True \<rparr>"

definition dropEphemeral :: "LiveState \<Rightarrow> LiveState" where
  "dropEphemeral s = s\<lparr> lsEphDrops := lsEphDrops s + 1 \<rparr>"

definition addGap :: "string \<Rightarrow> LiveState \<Rightarrow> LiveState" where
  "addGap k s = s\<lparr> lsGapped := insert k (lsGapped s) \<rparr>"

definition markGap :: "LiveCodec \<Rightarrow> string \<Rightarrow> LiveState \<Rightarrow> LiveState" where
  "markGap codec body s = (case lcParse codec body of Some d \<Rightarrow> addGap (textKey d) s | None \<Rightarrow> s)"

definition finishTail :: "TailEnd \<Rightarrow> TailError option \<Rightarrow> LiveState \<Rightarrow> LiveState" where
  "finishTail end' cause s = (if lsEnd s \<noteq> TailEndRunning then s else s\<lparr> lsEnd := end', lsCause := cause \<rparr>)"

definition invalidate :: "LiveState \<Rightarrow> LiveState" where
  "invalidate s = s\<lparr> lsInvalidated := lsInvalidated s + 1 \<rparr>"

definition return :: "LiveState \<Rightarrow> LiveState" where
  "return s = s\<lparr> lsReturned := True \<rparr>"

section \<open>Publishing\<close>

definition fitsEphemeralFrame :: "LiveCodec \<Rightarrow> EphemeralPublication \<Rightarrow> bool" where
  "fitsEphemeralFrame codec p = (case lcEphemeral codec p of None \<Rightarrow> False | Some payload \<Rightarrow> length payload \<le> 4096)"

definition publishEphemeral ::
  "TailConfig \<Rightarrow> LiveCodec \<Rightarrow> (string \<Rightarrow> Frame) \<Rightarrow> EphemeralPublication \<Rightarrow> LiveState \<Rightarrow> bool \<times> LiveState" where
  "publishEphemeral cfg codec frame p s =
     (if \<not> tcEphemeralTransport cfg then (False, s)
      else
        (case lcEphemeral codec p of
           None \<Rightarrow> (False, s)
         | Some payload \<Rightarrow>
             if length payload > 4096 then (False, s)
             else
               (let s1 = s\<lparr> lsTries := lsTries s + 1 \<rparr> in
                if \<not> tcTry cfg (lsTries s) then (False, s1)
                else (True, s1\<lparr> lsEphPublished := lsEphPublished s1 + 1, lsOut := lsOut s1 @ [frame payload] \<rparr>))))"

definition publishToolStep :: "TailConfig \<Rightarrow> LiveCodec \<Rightarrow> EphemeralPublication \<Rightarrow> LiveState \<Rightarrow> bool \<times> LiveState" where
  "publishToolStep cfg codec p s =
     (case lcEphemeral codec (p\<lparr> epBody := ''{}'' \<rparr>) of
        None \<Rightarrow> (False, s)
      | Some envelope \<Rightarrow>
          (case lcFit codec (epBody p) (ephemeralFrameCap - (length envelope - 2)) of
             None \<Rightarrow> (False, s)
           | Some body \<Rightarrow> publishEphemeral cfg codec ToolFrame (p\<lparr> epBody := body \<rparr>) s))"

definition publishEnduring ::
  "TailConfig \<Rightarrow> LiveCodec \<Rightarrow> EnduringPublication \<Rightarrow> LiveState \<Rightarrow> TailError option \<times> LiveState" where
  "publishEnduring cfg codec p s =
     (if enTenantID p \<noteq> TenantID (tcKey cfg) \<or> enSessionID p \<noteq> SessionID (tcKey cfg) then (Some ErrForeignPublication, s)
      else
        (case (case tcRewrite cfg of None \<Rightarrow> Inr (enBody p) | Some rewrite \<Rightarrow> rewrite (enBody p) (enJournalSeq p)) of
           Inl e \<Rightarrow> (Some (ErrRewrite e), s)
         | Inr body \<Rightarrow>
             (case lcEnduring codec (p\<lparr> enBody := body \<rparr>) of
                None \<Rightarrow> (Some ErrEncode, s)
              | Some payload \<Rightarrow>
                  (let s1 = s\<lparr> lsPubs := lsPubs s + 1 \<rparr> in
                   case tcPublish cfg (lsPubs s) of
                     Some e \<Rightarrow> (Some (ErrTransport e), s1)
                   | None \<Rightarrow> (None, s1\<lparr> lsPublished := lsPublished s1 + 1, lsOut := lsOut s1 @ [EndFrame p payload] \<rparr>)))))"

definition flush :: "TailConfig \<Rightarrow> LiveCodec \<Rightarrow> LiveState \<Rightarrow> LiveState" where
  "flush cfg codec s =
     (case lsPending s of
        None \<Rightarrow> s
      | Some (p, d) \<Rightarrow>
          (case publishEphemeral cfg codec (TextFrame d) p (stopTimer s) of
             (False, s1) \<Rightarrow> startTimer s1
           | (True, s1) \<Rightarrow> s1\<lparr> lsPending := None \<rparr>))"

text \<open>Text that could not go is given up, and its stream has a gap.\<close>

definition giveUpPending :: "LiveState \<Rightarrow> LiveState" where
  "giveUpPending s =
     (case lsPending s of
        None \<Rightarrow> s
      | Some (_, d) \<Rightarrow> dropEphemeral (stopTimer ((addGap (textKey d) s)\<lparr> lsPending := None \<rparr>)))"

definition clearsKey :: "string \<Rightarrow> string \<Rightarrow> bool" where
  "clearsKey loop key \<longleftrightarrow> loop = [] \<or> length key > length loop \<and> take (length loop + 1) key = loop @ [CHR 0x00]"

definition clearBoundary :: "LiveCodec \<Rightarrow> string \<Rightarrow> LiveState \<Rightarrow> LiveState" where
  "clearBoundary codec body s =
     (case lcBoundary codec body of
        None \<Rightarrow> s
      | Some loop \<Rightarrow> s\<lparr> lsGapped := {k \<in> lsGapped s. \<not> clearsKey loop k} \<rparr>)"

section \<open>A projected frame\<close>

datatype ProjectedLive = NotOK | ToolStep EphemeralPublication | LiveDelta EphemeralPublication Delta

text \<open>The worker: a failure, or the projected body read as text, else as a tool step.\<close>

definition projectLive :: "TailConfig \<Rightarrow> LiveCodec \<Rightarrow> EphemeralPublication \<Rightarrow> bool \<Rightarrow> ProjectedLive" where
  "projectLive cfg codec p failed =
     (if failed then NotOK
      else
        (let body = tcTransient cfg (epBody p); value = p\<lparr> epBody := body \<rparr> in
         case lcParse codec body of
           None \<Rightarrow>
             if tcToolSteps cfg then
               (case lcTool codec body of
                  Some step \<Rightarrow> if spSessionID step = SessionID (tcKey cfg) then ToolStep value else NotOK
                | None \<Rightarrow> NotOK)
             else NotOK
         | Some d \<Rightarrow>
             if (tcReasoning cfg \<or> dlChunkType d = ''text'') \<and> dlSessionID d = SessionID (tcKey cfg)
             then LiveDelta value d else NotOK))"

definition startPending :: "EphemeralPublication \<Rightarrow> Delta \<Rightarrow> LiveState \<Rightarrow> LiveState" where
  "startPending p d s = startTimer (s\<lparr> lsPending := Some (p, d) \<rparr>)"

definition mergeFailed :: "string \<Rightarrow> LiveState \<Rightarrow> LiveState" where
  "mergeFailed k s = dropEphemeral (dropEphemeral (stopTimer ((addGap k s)\<lparr> lsPending := None \<rparr>)))"

definition mergeText :: "LiveCodec \<Rightarrow> EphemeralPublication \<Rightarrow> Delta \<Rightarrow> EphemeralPublication \<times> Delta \<Rightarrow> LiveState \<Rightarrow> LiveState" where
  "mergeText codec p d pend s =
     (case lcMerge codec (epBody (fst pend)) (epBody p) of
        Some body \<Rightarrow>
          if fitsEphemeralFrame codec ((fst pend)\<lparr> epBody := body \<rparr>)
          then s\<lparr> lsPending := Some ((fst pend)\<lparr> epBody := body \<rparr>, (snd pend)\<lparr> dlText := dlText (snd pend) @ dlText d \<rparr>) \<rparr>
          else mergeFailed (textKey d) s
      | None \<Rightarrow> mergeFailed (textKey d) s)"

definition acceptText :: "TailConfig \<Rightarrow> LiveCodec \<Rightarrow> EphemeralPublication \<Rightarrow> Delta \<Rightarrow> LiveState \<Rightarrow> LiveState" where
  "acceptText cfg codec p d s =
     (if textKey d \<in> lsGapped s then dropEphemeral s
      else if \<not> fitsEphemeralFrame codec p then dropEphemeral (addGap (textKey d) s)
      else
        (case lsPending s of
           Some pend \<Rightarrow>
             if textKey (snd pend) = textKey d then mergeText codec p d pend s
             else startPending p d (giveUpPending (flush cfg codec s))
         | None \<Rightarrow> startPending p d (giveUpPending (flush cfg codec s))))"

definition acceptTool :: "TailConfig \<Rightarrow> LiveCodec \<Rightarrow> EphemeralPublication \<Rightarrow> LiveState \<Rightarrow> LiveState" where
  "acceptTool cfg codec p s =
     (let s1 = flush cfg codec s in
      if lsPending s1 \<noteq> None then dropEphemeral s1
      else (case publishToolStep cfg codec p s1 of (True, s2) \<Rightarrow> s2 | (False, s2) \<Rightarrow> dropEphemeral s2))"

definition nextProjection :: "LiveState \<Rightarrow> LiveState" where
  "nextProjection s = (case lsQueued s of [] \<Rightarrow> s | v # vs \<Rightarrow> s\<lparr> lsQueued := vs, lsProjecting := Some v \<rparr>)"

definition onProjected :: "TailConfig \<Rightarrow> LiveCodec \<Rightarrow> bool \<Rightarrow> LiveState \<Rightarrow> LiveState" where
  "onProjected cfg codec failed s =
     (case lsProjecting s of
        None \<Rightarrow> s
      | Some p \<Rightarrow>
          (let s0 = s\<lparr> lsProjecting := None \<rparr> in
           nextProjection
             (case projectLive cfg codec p failed of
                NotOK \<Rightarrow> dropEphemeral s0
              | ToolStep v \<Rightarrow> acceptTool cfg codec v s0
              | LiveDelta v d \<Rightarrow> acceptText cfg codec v d s0)))"

section \<open>The loop\<close>

definition dropQueued :: "LiveCodec \<Rightarrow> EphemeralPublication list \<Rightarrow> LiveState \<Rightarrow> LiveState" where
  "dropQueued codec vs s = fold (\<lambda>v s. dropEphemeral (markGap codec (epBody v) s)) vs s"

definition abandonProjections :: "LiveCodec \<Rightarrow> LiveState \<Rightarrow> LiveState" where
  "abandonProjections codec s =
     (let s1 = (case lsProjecting s of
                  None \<Rightarrow> s
                | Some p \<Rightarrow> dropEphemeral ((markGap codec (epBody p) s)\<lparr> lsProjecting := None \<rparr>)) in
      (dropQueued codec (lsQueued s1) s1)\<lparr> lsQueued := [] \<rparr>)"

text \<open>The flag says whether the context is done when the publication has failed.\<close>

definition onEnduring :: "TailConfig \<Rightarrow> LiveCodec \<Rightarrow> EnduringPublication \<Rightarrow> bool \<Rightarrow> LiveState \<Rightarrow> LiveState" where
  "onEnduring cfg codec p stopped s =
     (case publishEnduring cfg codec p (giveUpPending (flush cfg codec (abandonProjections codec s))) of
        (Some e, s1) \<Rightarrow>
          return (if stopped then finishTail TailEndStopped (Some ErrContext) s1
                  else invalidate (finishTail TailEndRefused (Some e) s1))
      | (None, s1) \<Rightarrow> clearBoundary codec (enBody p) s1)"

definition onEphemeral :: "TailConfig \<Rightarrow> EphemeralPublication \<Rightarrow> LiveState \<Rightarrow> LiveState" where
  "onEphemeral cfg p s =
     (if epTenantID p \<noteq> TenantID (tcKey cfg) \<or> epSessionID p \<noteq> SessionID (tcKey cfg) then dropEphemeral s
      else if lsProjecting s \<noteq> None then
        (if length (lsQueued s) = liveProjectionQueue then dropEphemeral s else s\<lparr> lsQueued := lsQueued s @ [p] \<rparr>)
      else s\<lparr> lsProjecting := Some p \<rparr>)"

datatype LiveEvent =
    EvDone | EvFlush | EvProjected bool | EvClosed bool | EvTerminal string
  | EvEnduring EnduringPublication bool | EvEphemeral EphemeralPublication | EvNeither

definition relayLive :: "TailConfig \<Rightarrow> LiveCodec \<Rightarrow> LiveEvent \<Rightarrow> LiveState \<Rightarrow> LiveState" where
  "relayLive cfg codec ev s =
     (if lsReturned s then s
      else
        (case ev of
           EvDone \<Rightarrow> return (finishTail TailEndStopped (Some ErrContext) (stopTimer s))
         | EvFlush \<Rightarrow>
             if \<not> lsFlushAt s then s
             else if lsProjecting s \<noteq> None \<or> lsQueued s \<noteq> [] then startTimer s
             else flush cfg codec s
         | EvProjected failed \<Rightarrow> onProjected cfg codec failed s
         | EvClosed stopped \<Rightarrow>
             return (if stopped then finishTail TailEndStopped (Some ErrContext) (stopTimer s)
                     else invalidate (finishTail TailEndLost None (stopTimer s)))
         | EvTerminal cause \<Rightarrow> return (invalidate (finishTail TailEndLost (Some (ErrTerminal cause)) s))
         | EvEnduring p stopped \<Rightarrow> onEnduring cfg codec p stopped s
         | EvEphemeral p \<Rightarrow> onEphemeral cfg p s
         | EvNeither \<Rightarrow> dropEphemeral s))"

text \<open>The loop over a committed stream alone.\<close>

definition relay :: "TailConfig \<Rightarrow> LiveCodec \<Rightarrow> LiveEvent \<Rightarrow> LiveState \<Rightarrow> LiveState" where
  "relay cfg codec ev s =
     (if lsReturned s then s
      else
        (case ev of
           EvDone \<Rightarrow> return (finishTail TailEndStopped (Some ErrContext) s)
         | EvClosed stopped \<Rightarrow>
             return (if stopped then finishTail TailEndStopped (Some ErrContext) s
                     else invalidate (finishTail TailEndLost None s))
         | EvEnduring p stopped \<Rightarrow>
             (case publishEnduring cfg codec p s of
                (Some e, s1) \<Rightarrow>
                  return (if stopped then finishTail TailEndStopped (Some ErrContext) s1
                          else invalidate (finishTail TailEndRefused (Some e) s1))
              | (None, s1) \<Rightarrow> s1)
         | _ \<Rightarrow> s))"

section \<open>The text of a stream\<close>

text \<open>The text handed to the transport for a stream since the last boundary of its loop.\<close>

definition resetBy :: "LiveCodec \<Rightarrow> string \<Rightarrow> (string \<Rightarrow> string) \<Rightarrow> string \<Rightarrow> string" where
  "resetBy codec body m = (case lcBoundary codec body of None \<Rightarrow> m | Some loop \<Rightarrow> (\<lambda>k. if clearsKey loop k then [] else m k))"

fun frameStep :: "LiveCodec \<Rightarrow> Frame \<Rightarrow> (string \<Rightarrow> string) \<Rightarrow> string \<Rightarrow> string" where
  "frameStep codec (TextFrame d _) m = m(textKey d := m (textKey d) @ dlText d)"
| "frameStep codec (ToolFrame _) m = m"
| "frameStep codec (EndFrame p _) m = resetBy codec (enBody p) m"

definition sent :: "LiveCodec \<Rightarrow> Frame list \<Rightarrow> string \<Rightarrow> string" where
  "sent codec frames = fold (frameStep codec) frames (\<lambda>_. [])"

text \<open>The text received for a stream since the last boundary of its loop, as it will be projected.\<close>

definition accText :: "TailConfig \<Rightarrow> LiveCodec \<Rightarrow> EphemeralPublication \<Rightarrow> (string \<times> string) option" where
  "accText cfg codec p = (case projectLive cfg codec p False of LiveDelta _ d \<Rightarrow> Some (textKey d, dlText d) | _ \<Rightarrow> None)"

definition textOf :: "TailConfig \<Rightarrow> LiveCodec \<Rightarrow> string \<Rightarrow> EphemeralPublication \<Rightarrow> string" where
  "textOf cfg codec k p = (case accText cfg codec p of Some (k', t) \<Rightarrow> if k' = k then t else [] | None \<Rightarrow> [])"

definition ownEphemeral :: "TailConfig \<Rightarrow> EphemeralPublication \<Rightarrow> bool" where
  "ownEphemeral cfg p \<longleftrightarrow> epTenantID p = TenantID (tcKey cfg) \<and> epSessionID p = SessionID (tcKey cfg)"

definition seenStep :: "TailConfig \<Rightarrow> LiveCodec \<Rightarrow> LiveEvent \<Rightarrow> (string \<Rightarrow> string) \<Rightarrow> string \<Rightarrow> string" where
  "seenStep cfg codec ev m =
     (case ev of
        EvEphemeral p \<Rightarrow> if ownEphemeral cfg p then (\<lambda>k. m k @ textOf cfg codec k p) else m
      | EvEnduring p _ \<Rightarrow> resetBy codec (enBody p) m
      | _ \<Rightarrow> m)"

fun runLive :: "TailConfig \<Rightarrow> LiveCodec \<Rightarrow> LiveEvent list \<Rightarrow> LiveState \<Rightarrow> LiveState" where
  "runLive cfg codec [] s = s"
| "runLive cfg codec (ev # evs) s = runLive cfg codec evs (relayLive cfg codec ev s)"

fun seenFrom :: "TailConfig \<Rightarrow> LiveCodec \<Rightarrow> LiveEvent list \<Rightarrow> LiveState \<Rightarrow> (string \<Rightarrow> string) \<Rightarrow> string \<Rightarrow> string" where
  "seenFrom cfg codec [] s m = m"
| "seenFrom cfg codec (ev # evs) s m =
     (let s' = relayLive cfg codec ev s in seenFrom cfg codec evs s' (if lsReturned s' then m else seenStep cfg codec ev m))"

text \<open>No delta was lost to a full queue or to a projection that failed.\<close>

definition smoothStep :: "LiveEvent \<Rightarrow> LiveState \<Rightarrow> bool" where
  "smoothStep ev s =
     (case ev of
        EvEphemeral _ \<Rightarrow> \<not> (lsProjecting s \<noteq> None \<and> length (lsQueued s) = liveProjectionQueue)
      | EvProjected failed \<Rightarrow> \<not> failed
      | _ \<Rightarrow> True)"

fun smooth :: "TailConfig \<Rightarrow> LiveCodec \<Rightarrow> LiveEvent list \<Rightarrow> LiveState \<Rightarrow> bool" where
  "smooth cfg codec [] s \<longleftrightarrow> True"
| "smooth cfg codec (ev # evs) s \<longleftrightarrow> smoothStep ev s \<and> smooth cfg codec evs (relayLive cfg codec ev s)"

text \<open>What is held back: the pending text, and the deltas whose projection is still to come.\<close>

definition pendText :: "LiveState \<Rightarrow> string \<Rightarrow> string" where
  "pendText s k = (case lsPending s of Some (_, d) \<Rightarrow> if textKey d = k then dlText d else [] | None \<Rightarrow> [])"

definition heldText :: "LiveCodec \<Rightarrow> LiveState \<Rightarrow> string \<Rightarrow> string" where
  "heldText codec s k = sent codec (lsOut s) k @ pendText s k"

definition inFlight :: "LiveState \<Rightarrow> EphemeralPublication list" where
  "inFlight s = (case lsProjecting s of None \<Rightarrow> [] | Some p \<Rightarrow> [p]) @ lsQueued s"

definition waiting :: "TailConfig \<Rightarrow> LiveCodec \<Rightarrow> LiveState \<Rightarrow> string \<Rightarrow> string" where
  "waiting cfg codec s k = concat (map (textOf cfg codec k) (inFlight s))"

definition total :: "TailConfig \<Rightarrow> LiveCodec \<Rightarrow> LiveState \<Rightarrow> string \<Rightarrow> string" where
  "total cfg codec s k = heldText codec s k @ waiting cfg codec s k"

definition live_inv :: "TailConfig \<Rightarrow> LiveCodec \<Rightarrow> (string \<Rightarrow> string) \<Rightarrow> LiveState \<Rightarrow> bool" where
  "live_inv cfg codec m s \<longleftrightarrow>
     (lsProjecting s = None \<longrightarrow> lsQueued s = []) \<and>
     (\<forall>k. (k \<notin> lsGapped s \<longrightarrow> m k = total cfg codec s k) \<and> (k \<in> lsGapped s \<longrightarrow> prefix (heldText codec s k) (m k)))"

text \<open>A step that moves text along, or gives it up together with its stream.\<close>

definition okStep :: "TailConfig \<Rightarrow> LiveCodec \<Rightarrow> LiveState \<Rightarrow> LiveState \<Rightarrow> bool" where
  "okStep cfg codec s s' \<longleftrightarrow>
     (\<forall>k. (k \<notin> lsGapped s' \<longrightarrow> k \<notin> lsGapped s \<and> total cfg codec s' k = total cfg codec s k) \<and>
        prefix (heldText codec s' k) (if k \<in> lsGapped s then heldText codec s k else total cfg codec s k))"

lemma okStep_refl: "okStep cfg codec s s"
  by (simp add: okStep_def total_def)

lemma okStepD:
  assumes "okStep cfg codec s s'"
  shows "k \<notin> lsGapped s' \<Longrightarrow> k \<notin> lsGapped s" "k \<notin> lsGapped s' \<Longrightarrow> total cfg codec s' k = total cfg codec s k"
    and "k \<in> lsGapped s \<Longrightarrow> prefix (heldText codec s' k) (heldText codec s k)"
    and "k \<notin> lsGapped s \<Longrightarrow> prefix (heldText codec s' k) (total cfg codec s k)"
  using assms [unfolded okStep_def, rule_format, of k] by simp_all

lemma okStepI:
  assumes "\<And>k. k \<notin> lsGapped s' \<Longrightarrow> k \<notin> lsGapped s \<and> total cfg codec s' k = total cfg codec s k"
    and "\<And>k. k \<in> lsGapped s \<Longrightarrow> prefix (heldText codec s' k) (heldText codec s k)"
    and "\<And>k. k \<notin> lsGapped s \<Longrightarrow> prefix (heldText codec s' k) (total cfg codec s k)"
  shows "okStep cfg codec s s'"
  unfolding okStep_def using assms by simp

lemma okStep_trans:
  assumes a: "okStep cfg codec s1 s2" and b: "okStep cfg codec s2 s3"
  shows "okStep cfg codec s1 s3"
proof (rule okStepI)
  fix k
  show "k \<notin> lsGapped s1 \<and> total cfg codec s3 k = total cfg codec s1 k" if "k \<notin> lsGapped s3"
    using okStepD(1,2) [OF b that] okStepD(1,2) [OF a, of k] by simp
  show "prefix (heldText codec s3 k) (heldText codec s1 k)" if g: "k \<in> lsGapped s1"
  proof -
    have "k \<in> lsGapped s2" using okStepD(1) [OF a, of k] g by blast
    from prefix_order.trans [OF okStepD(3) [OF b this] okStepD(3) [OF a g]] show ?thesis .
  qed
  show "prefix (heldText codec s3 k) (total cfg codec s1 k)" if g: "k \<notin> lsGapped s1"
  proof (cases "k \<in> lsGapped s2")
    case True
    from prefix_order.trans [OF okStepD(3) [OF b True] okStepD(4) [OF a g]] show ?thesis .
  next
    case False
    from okStepD(4) [OF b False] okStepD(2) [OF a False] show ?thesis by simp
  qed
qed

lemma okStep_same:
  assumes "\<And>k. heldText codec s' k = heldText codec s k" "\<And>k. waiting cfg codec s' k = waiting cfg codec s k" "lsGapped s \<subseteq> lsGapped s'"
  shows "okStep cfg codec s s'"
  using assms by (intro okStepI) (auto simp: total_def)

lemma okStep_inv:
  assumes "okStep cfg codec s s'" "live_inv cfg codec m s" "lsProjecting s' = None \<longrightarrow> lsQueued s' = []"
  shows "live_inv cfg codec m s'"
  unfolding live_inv_def
proof (intro conjI allI impI)
  fix k
  show "m k = total cfg codec s' k" if "k \<notin> lsGapped s'"
    using okStepD(1,2) [OF assms(1) that] assms(2) unfolding live_inv_def by simp
  show "prefix (heldText codec s' k) (m k)" if "k \<in> lsGapped s'"
  proof (cases "k \<in> lsGapped s")
    case True
    then have "prefix (heldText codec s k) (m k)" using assms(2) unfolding live_inv_def by blast
    from prefix_order.trans [OF okStepD(3) [OF assms(1) True] this] show ?thesis .
  next
    case False
    with okStepD(4) [OF assms(1) False] assms(2) show ?thesis unfolding live_inv_def by simp
  qed
qed (use assms(3) in simp_all)

section \<open>The operations move text along\<close>

lemma held_eq: "lsOut s' = lsOut s \<Longrightarrow> lsPending s' = lsPending s \<Longrightarrow> heldText codec s' k = heldText codec s k"
  by (simp add: heldText_def pendText_def)

lemma waiting_eq: "lsProjecting s' = lsProjecting s \<Longrightarrow> lsQueued s' = lsQueued s \<Longrightarrow> waiting cfg codec s' k = waiting cfg codec s k"
  by (simp add: waiting_def inFlight_def)

lemma sent_snoc: "sent codec (fs @ [f]) = frameStep codec f (sent codec fs)"
  by (simp add: sent_def)

text \<open>What publishing a transient frame changes.\<close>

lemma publishEphemeral_effect:
  assumes "publishEphemeral cfg codec frame p s = (ok, s')"
  shows "lsPending s' = lsPending s \<and> lsGapped s' = lsGapped s \<and> lsProjecting s' = lsProjecting s \<and> lsQueued s' = lsQueued s \<and>
    lsReturned s' = lsReturned s \<and> lsEnd s' = lsEnd s \<and> lsInvalidated s' = lsInvalidated s \<and>
    (if ok then \<exists>payload. lcEphemeral codec p = Some payload \<and> length payload \<le> 4096 \<and> lsOut s' = lsOut s @ [frame payload]
     else lsOut s' = lsOut s)"
  using assms by (auto simp: publishEphemeral_def Let_def split: if_splits option.splits)

lemma publishToolStep_effect:
  assumes "publishToolStep cfg codec p s = (ok, s')"
  shows "lsPending s' = lsPending s \<and> lsGapped s' = lsGapped s \<and> lsProjecting s' = lsProjecting s \<and> lsQueued s' = lsQueued s \<and>
    lsReturned s' = lsReturned s \<and> lsEnd s' = lsEnd s \<and> lsInvalidated s' = lsInvalidated s \<and>
    (lsOut s' = lsOut s \<or> (\<exists>payload. length payload \<le> 4096 \<and> lsOut s' = lsOut s @ [ToolFrame payload]))"
proof (cases "lcEphemeral codec (p\<lparr> epBody := ''{}'' \<rparr>)")
  case None
  with assms show ?thesis by (simp add: publishToolStep_def)
next
  case (Some envelope)
  show ?thesis
  proof (cases "lcFit codec (epBody p) (ephemeralFrameCap - (length envelope - 2))")
    case None
    with Some assms show ?thesis by (simp add: publishToolStep_def)
  next
    case f: (Some body)
    then have "publishEphemeral cfg codec ToolFrame (p\<lparr> epBody := body \<rparr>) s = (ok, s')"
      using Some assms by (simp add: publishToolStep_def)
    from publishEphemeral_effect [OF this] show ?thesis by (auto split: if_splits)
  qed
qed

lemma flush_effect:
  "lsGapped (flush cfg codec s) = lsGapped s \<and> lsProjecting (flush cfg codec s) = lsProjecting s \<and> lsQueued (flush cfg codec s) = lsQueued s \<and>
   lsReturned (flush cfg codec s) = lsReturned s \<and> lsEnd (flush cfg codec s) = lsEnd s \<and> lsInvalidated (flush cfg codec s) = lsInvalidated s \<and>
   heldText codec (flush cfg codec s) k = heldText codec s k \<and>
   (lsOut (flush cfg codec s) = lsOut s \<or>
    (\<exists>p d payload. lsPending s = Some (p, d) \<and> length payload \<le> 4096 \<and> lsOut (flush cfg codec s) = lsOut s @ [TextFrame d payload]))"
proof (cases "lsPending s")
  case None
  then show ?thesis by (simp add: flush_def)
next
  case (Some pd)
  obtain p d where pd: "pd = (p, d)" by fastforce
  obtain ok s1 where r: "publishEphemeral cfg codec (TextFrame d) p (stopTimer s) = (ok, s1)" by fastforce
  note e = publishEphemeral_effect [OF r]
  show ?thesis
  proof (cases ok)
    case True
    then have f: "flush cfg codec s = s1\<lparr> lsPending := None \<rparr>" using Some pd r by (simp add: flush_def)
    obtain payload where "length payload \<le> 4096" "lsOut s1 = lsOut s @ [TextFrame d payload]"
      using e True by (auto simp: stopTimer_def)
    with e f Some pd show ?thesis by (auto simp: heldText_def sent_snoc pendText_def stopTimer_def)
  next
    case False
    then have f: "flush cfg codec s = startTimer s1" using Some pd r by (simp add: flush_def)
    with e False show ?thesis by (simp add: heldText_def pendText_def startTimer_def stopTimer_def)
  qed
qed

lemma flush_simps [simp]:
  "lsGapped (flush cfg codec s) = lsGapped s" "lsProjecting (flush cfg codec s) = lsProjecting s"
  "lsQueued (flush cfg codec s) = lsQueued s" "lsReturned (flush cfg codec s) = lsReturned s" "lsEnd (flush cfg codec s) = lsEnd s"
  "lsInvalidated (flush cfg codec s) = lsInvalidated s" "heldText codec (flush cfg codec s) k = heldText codec s k"
  "inFlight (flush cfg codec s) = inFlight s"
  by (simp_all add: flush_effect inFlight_def)

lemma okStep_flush: "okStep cfg codec s (flush cfg codec s)"
  by (rule okStep_same) (simp_all add: waiting_def)

lemma giveUp_simps [simp]:
  "lsProjecting (giveUpPending s) = lsProjecting s" "lsQueued (giveUpPending s) = lsQueued s" "lsPending (giveUpPending s) = None"
  "lsReturned (giveUpPending s) = lsReturned s" "lsEnd (giveUpPending s) = lsEnd s" "lsInvalidated (giveUpPending s) = lsInvalidated s"
  "lsOut (giveUpPending s) = lsOut s" "inFlight (giveUpPending s) = inFlight s"
  "lsGapped (giveUpPending s) = lsGapped s \<union> (case lsPending s of None \<Rightarrow> {} | Some pd \<Rightarrow> {textKey (snd pd)})"
  by (auto simp: giveUpPending_def dropEphemeral_def stopTimer_def addGap_def inFlight_def split: option.splits)

lemma giveUp_pendText [simp]: "pendText (giveUpPending s) k = []"
  by (simp add: pendText_def)

lemma okStep_giveUp: "okStep cfg codec s (giveUpPending s)"
proof -
  have h: "heldText codec (giveUpPending s) k = sent codec (lsOut s) k" for k by (simp add: heldText_def pendText_def)
  have w: "waiting cfg codec (giveUpPending s) k = waiting cfg codec s k" for k by (simp add: waiting_def)
  have p: "pendText s k = []" if "k \<notin> lsGapped (giveUpPending s)" for k
    using that by (cases "lsPending s") (auto simp: pendText_def)
  have g: "lsGapped s \<subseteq> lsGapped (giveUpPending s)" by auto
  show ?thesis
  proof (rule okStepI)
    fix k
    show "k \<notin> lsGapped s \<and> total cfg codec (giveUpPending s) k = total cfg codec s k" if "k \<notin> lsGapped (giveUpPending s)"
      using g that p [OF that] by (auto simp: total_def h w heldText_def)
    show "prefix (heldText codec (giveUpPending s) k) (heldText codec s k)" by (simp add: h heldText_def)
    show "prefix (heldText codec (giveUpPending s) k) (total cfg codec s k)" by (simp add: h total_def heldText_def)
  qed
qed

text \<open>Transitions that touch none of the text.\<close>

lemma held_frame [simp]:
  "heldText codec (dropEphemeral s) k = heldText codec s k" "heldText codec (startTimer s) k = heldText codec s k" "heldText codec (stopTimer s) k = heldText codec s k"
  "heldText codec (addGap g s) k = heldText codec s k" "heldText codec (s\<lparr> lsProjecting := pr \<rparr>) k = heldText codec s k"
  "heldText codec (s\<lparr> lsQueued := qs \<rparr>) k = heldText codec s k"
  by (simp_all add: heldText_def pendText_def dropEphemeral_def startTimer_def stopTimer_def addGap_def)

lemma frame_simps [simp]:
  "inFlight (dropEphemeral s) = inFlight s" "inFlight (startTimer s) = inFlight s" "inFlight (stopTimer s) = inFlight s"
  "inFlight (addGap g s) = inFlight s" "inFlight (s\<lparr> lsPending := pd \<rparr>) = inFlight s"
  "lsGapped (dropEphemeral s) = lsGapped s" "lsGapped (startTimer s) = lsGapped s" "lsGapped (stopTimer s) = lsGapped s"
  "lsGapped (addGap g s) = insert g (lsGapped s)"
  "lsPending (dropEphemeral s) = lsPending s" "lsPending (startTimer s) = lsPending s" "lsPending (stopTimer s) = lsPending s"
  "lsPending (addGap g s) = lsPending s"
  "lsOut (dropEphemeral s) = lsOut s" "lsOut (startTimer s) = lsOut s" "lsOut (stopTimer s) = lsOut s" "lsOut (addGap g s) = lsOut s"
  "lsProjecting (dropEphemeral s) = lsProjecting s" "lsProjecting (startTimer s) = lsProjecting s" "lsProjecting (stopTimer s) = lsProjecting s"
  "lsProjecting (addGap g s) = lsProjecting s"
  "lsQueued (dropEphemeral s) = lsQueued s" "lsQueued (startTimer s) = lsQueued s" "lsQueued (stopTimer s) = lsQueued s"
  "lsQueued (addGap g s) = lsQueued s"
  "lsReturned (dropEphemeral s) = lsReturned s" "lsReturned (startTimer s) = lsReturned s" "lsReturned (stopTimer s) = lsReturned s"
  "lsReturned (addGap g s) = lsReturned s"
  "lsEnd (dropEphemeral s) = lsEnd s" "lsEnd (startTimer s) = lsEnd s" "lsEnd (stopTimer s) = lsEnd s" "lsEnd (addGap g s) = lsEnd s"
  "lsInvalidated (dropEphemeral s) = lsInvalidated s" "lsInvalidated (startTimer s) = lsInvalidated s"
  "lsInvalidated (stopTimer s) = lsInvalidated s" "lsInvalidated (addGap g s) = lsInvalidated s"
  by (simp_all add: inFlight_def dropEphemeral_def startTimer_def stopTimer_def addGap_def)

lemma pendText_frame [simp]:
  "pendText (dropEphemeral s) k = pendText s k" "pendText (startTimer s) k = pendText s k" "pendText (stopTimer s) k = pendText s k"
  "pendText (addGap g s) k = pendText s k"
  by (simp_all add: pendText_def)

text \<open>
  A text frame leaves the flight, for the pending text or not at all: \<open>t\<close> is what it carries for its
  stream, \<open>s0\<close> the state without it.
\<close>

lemma okStep_accept:
  assumes fl: "inFlight s = p # rest" and s0: "s0 = s\<lparr> lsProjecting := None \<rparr>" and rest: "inFlight s0 = rest"
    and d: "accText cfg codec p = Some (textKey d, dlText d)"
    and s1: "inFlight s1 = rest" "lsGapped s \<subseteq> lsGapped s1"
    and mine: "if textKey d \<in> lsGapped s1 then prefix (heldText codec s1 (textKey d)) (heldText codec s0 (textKey d))
               else heldText codec s1 (textKey d) = heldText codec s0 (textKey d) @ dlText d"
    and others: "\<And>k. k \<noteq> textKey d \<Longrightarrow> (k \<notin> lsGapped s1 \<longrightarrow> heldText codec s1 k = heldText codec s0 k) \<and> prefix (heldText codec s1 k) (heldText codec s0 k)"
  shows "okStep cfg codec s s1"
proof -
  have own: "textOf cfg codec (textKey d) p = dlText d" using d by (simp add: textOf_def)
  have oth: "textOf cfg codec k p = []" if "k \<noteq> textKey d" for k using d that by (simp add: textOf_def)
  have w: "waiting cfg codec s k = textOf cfg codec k p @ waiting cfg codec s1 k" for k using fl s1 by (simp add: waiting_def)
  have h0: "heldText codec s0 k = heldText codec s k" for k using s0 by simp
  show ?thesis
  proof (rule okStepI)
    fix k
    show "k \<notin> lsGapped s \<and> total cfg codec s1 k = total cfg codec s k" if "k \<notin> lsGapped s1"
      using that s1(2) mine others [of k] own oth [of k] by (cases "k = textKey d") (auto simp: total_def w h0)
    show "prefix (heldText codec s1 k) (heldText codec s k)" if "k \<in> lsGapped s"
    proof (cases "k = textKey d")
      case True
      with that s1(2) mine show ?thesis by (auto simp: h0 split: if_splits)
    next
      case False
      with others [OF False] show ?thesis by (simp add: h0)
    qed
    show "prefix (heldText codec s1 k) (total cfg codec s k)" if "k \<notin> lsGapped s"
    proof (cases "k = textKey d")
      case True
      show ?thesis
      proof (cases "k \<in> lsGapped s1")
        case g: True
        with mine True have "prefix (heldText codec s1 k) (heldText codec s k)" by (simp add: h0)
        then show ?thesis by (simp add: total_def)
      next
        case False
        with mine True own show ?thesis by (simp add: total_def w h0)
      qed
    next
      case False
      with others [OF False] have "prefix (heldText codec s1 k) (heldText codec s k)" by (simp add: h0)
      then show ?thesis by (simp add: total_def)
    qed
  qed
qed

lemma flush_pending: "lsPending (flush cfg codec s) = None \<or> lsPending (flush cfg codec s) = lsPending s"
proof (cases "lsPending s")
  case (Some pd)
  obtain ok s1 where r: "publishEphemeral cfg codec (TextFrame (snd pd)) (fst pd) (stopTimer s) = (ok, s1)" by fastforce
  have "lsPending s1 = lsPending s" using publishEphemeral_effect [OF r] by simp
  with Some r show ?thesis by (cases ok; cases pd) (simp_all add: flush_def)
qed (simp add: flush_def)

lemma okStep_acceptText:
  assumes fl: "inFlight s = p # rest" and s0: "s0 = s\<lparr> lsProjecting := None \<rparr>" and rest: "inFlight s0 = rest"
    and pl: "accText cfg codec p = Some (textKey d, dlText d)"
  shows "okStep cfg codec s (acceptText cfg codec v d s0) \<and> inFlight (acceptText cfg codec v d s0) = rest"
proof -
  let ?k = "textKey d"
  have g0: "lsGapped s0 = lsGapped s" using s0 by simp
  have start: "okStep cfg codec s (startPending v d (giveUpPending (flush cfg codec s0))) \<and>
      inFlight (startPending v d (giveUpPending (flush cfg codec s0))) = rest"
    if "?k \<notin> lsGapped s0" and other: "\<And>pd. lsPending s0 = Some pd \<Longrightarrow> textKey (snd pd) \<noteq> ?k"
  proof -
    let ?f = "flush cfg codec s0"
    let ?s1 = "startPending v d (giveUpPending ?f)"
    have pk: "pendText ?f ?k = []"
      using flush_pending [of cfg codec s0] other by (auto simp: pendText_def split: option.splits)
    have h1: "heldText codec ?s1 k = sent codec (lsOut ?f) k @ (if k = ?k then dlText d else [])" for k
      by (simp add: startPending_def heldText_def pendText_def)
    have hf: "heldText codec s0 k = sent codec (lsOut ?f) k @ pendText ?f k" for k
      using flush_simps(7) [of codec cfg s0 k] by (simp add: heldText_def)
    have fl1: "inFlight ?s1 = rest" by (simp add: startPending_def rest)
    have gs: "lsGapped ?s1 = lsGapped s0 \<union> (case lsPending ?f of None \<Rightarrow> {} | Some pd \<Rightarrow> {textKey (snd pd)})"
      by (simp add: startPending_def)
    have nk: "?k \<notin> lsGapped ?s1" using that flush_pending [of cfg codec s0] unfolding gs by (auto split: option.splits)
    have pend: "pendText ?f k = []" if "k \<notin> lsGapped ?s1" for k
      using that unfolding gs by (cases "lsPending ?f") (auto simp: pendText_def)
    have "okStep cfg codec s ?s1"
    proof (rule okStep_accept [OF fl s0 rest pl fl1])
      show "lsGapped s \<subseteq> lsGapped ?s1" unfolding gs g0 by blast
      show "if ?k \<in> lsGapped ?s1 then prefix (heldText codec ?s1 ?k) (heldText codec s0 ?k) else heldText codec ?s1 ?k = heldText codec s0 ?k @ dlText d"
        using nk pk h1 [of ?k] hf [of ?k] by simp
      show "(k \<notin> lsGapped ?s1 \<longrightarrow> heldText codec ?s1 k = heldText codec s0 k) \<and> prefix (heldText codec ?s1 k) (heldText codec s0 k)" if "k \<noteq> ?k" for k
        using that h1 [of k] hf [of k] pend [of k] by simp
    qed
    with fl1 show ?thesis by blast
  qed
  have failed: "okStep cfg codec s (mergeFailed ?k s0) \<and> inFlight (mergeFailed ?k s0) = rest"
    if "lsPending s0 = Some pd" "textKey (snd pd) = ?k" for pd
  proof -
    have h: "heldText codec (mergeFailed ?k s0) k = sent codec (lsOut s0) k" for k
      by (simp add: mergeFailed_def heldText_def pendText_def)
    have p: "pendText s0 k = (if k = ?k then dlText (snd pd) else [])" for k
      using that by (cases pd) (simp add: pendText_def)
    have fl1: "inFlight (mergeFailed ?k s0) = rest" by (simp add: mergeFailed_def rest)
    have "okStep cfg codec s (mergeFailed ?k s0)"
      by (rule okStep_accept [OF fl s0 rest pl fl1])
        (use g0 in \<open>auto simp: h heldText_def [of codec s0] p\<close>, simp_all add: mergeFailed_def)
    with fl1 show ?thesis by blast
  qed
  show ?thesis
  proof (cases "?k \<in> lsGapped s0 \<or> \<not> fitsEphemeralFrame codec v")
    case True
    then obtain s1 where s1: "acceptText cfg codec v d s0 = dropEphemeral s1" "s1 = s0 \<or> s1 = addGap ?k s0" "?k \<in> lsGapped s1"
      by (cases "?k \<in> lsGapped s0") (auto simp: acceptText_def)
    have "okStep cfg codec s (dropEphemeral s1)"
      by (rule okStep_accept [OF fl s0 rest pl]) (use s1 g0 rest in auto)
    moreover have "inFlight (dropEphemeral s1) = rest" using s1(2) rest by auto
    ultimately show ?thesis using s1(1) by simp
  next
    case False
    show ?thesis
    proof (cases "lsPending s0")
      case None
      with start False show ?thesis by (simp add: acceptText_def)
    next
      case (Some pd)
      show ?thesis
      proof (cases "textKey (snd pd) = ?k")
        case False
        with start Some \<open>\<not> (?k \<in> lsGapped s0 \<or> \<not> fitsEphemeralFrame codec v)\<close> show ?thesis by (simp add: acceptText_def)
      next
        case same: True
        have acc: "acceptText cfg codec v d s0 = mergeText codec v d pd s0" using False Some same by (simp add: acceptText_def)
        show ?thesis
        proof (cases "\<exists>body. lcMerge codec (epBody (fst pd)) (epBody v) = Some body \<and> fitsEphemeralFrame codec ((fst pd)\<lparr> epBody := body \<rparr>)")
          case True
          then obtain body where b: "lcMerge codec (epBody (fst pd)) (epBody v) = Some body"
            "fitsEphemeralFrame codec ((fst pd)\<lparr> epBody := body \<rparr>)" by blast
          let ?pd = "((fst pd)\<lparr> epBody := body \<rparr>, (snd pd)\<lparr> dlText := dlText (snd pd) @ dlText d \<rparr>)"
          have m: "mergeText codec v d pd s0 = s0\<lparr> lsPending := Some ?pd \<rparr>" using b by (simp add: mergeText_def)
          have tk: "textKey (snd ?pd) = ?k" using same by (simp add: textKey_def)
          have h: "heldText codec (s0\<lparr> lsPending := Some ?pd \<rparr>) k = sent codec (lsOut s0) k @ (if k = ?k then dlText (snd pd) @ dlText d else [])" for k
            using tk by (auto simp: heldText_def pendText_def)
          have p: "pendText s0 k = (if k = ?k then dlText (snd pd) else [])" for k
            using Some same by (cases pd) (simp add: pendText_def)
          have "okStep cfg codec s (s0\<lparr> lsPending := Some ?pd \<rparr>)"
            by (rule okStep_accept [OF fl s0 rest pl]) (use g0 rest False in \<open>auto simp: h heldText_def [of codec s0] p\<close>)
          with rest show ?thesis unfolding acc m by simp
        next
          case no: False
          then have "mergeText codec v d pd s0 = mergeFailed ?k s0" by (auto simp: mergeText_def split: option.splits)
          with failed [OF Some same] show ?thesis unfolding acc by simp
        qed
      qed
    qed
  qed
qed

lemma inFlight_projecting:
  "lsProjecting s = Some p \<Longrightarrow> inFlight s = p # lsQueued s \<and> inFlight (s\<lparr> lsProjecting := None \<rparr>) = lsQueued s"
  by (simp add: inFlight_def)

lemma nextProjection_okStep:
  assumes "lsProjecting s = None"
  shows "okStep cfg codec s (nextProjection s)" "lsProjecting (nextProjection s) = None \<longrightarrow> lsQueued (nextProjection s) = []"
    "lsReturned (nextProjection s) = lsReturned s"
proof -
  have "inFlight (nextProjection s) = inFlight s" using assms by (auto simp: nextProjection_def inFlight_def split: list.split)
  moreover have "heldText codec (nextProjection s) k = heldText codec s k" for k
    by (auto simp: nextProjection_def heldText_def pendText_def split: list.split)
  moreover have "lsGapped (nextProjection s) = lsGapped s" by (auto simp: nextProjection_def split: list.split)
  ultimately show "okStep cfg codec s (nextProjection s)" by (intro okStep_same) (simp_all add: waiting_def)
  show "lsProjecting (nextProjection s) = None \<longrightarrow> lsQueued (nextProjection s) = []"
    "lsReturned (nextProjection s) = lsReturned s"
    by (auto simp: nextProjection_def split: list.split)
qed

text \<open>A frame that carries no text leaves the flight.\<close>

lemma okStep_silent:
  assumes "inFlight s = p # rest" "accText cfg codec p = None" "inFlight s1 = rest" "lsGapped s1 = lsGapped s"
    "\<And>k. heldText codec s1 k = heldText codec s k"
  shows "okStep cfg codec s s1"
  using assms by (intro okStep_same) (simp_all add: waiting_def textOf_def)

lemma acceptTool_effect:
  "inFlight (acceptTool cfg codec v s) = inFlight s \<and> lsProjecting (acceptTool cfg codec v s) = lsProjecting s \<and>
   lsGapped (acceptTool cfg codec v s) = lsGapped s \<and> heldText codec (acceptTool cfg codec v s) k = heldText codec s k \<and>
   lsReturned (acceptTool cfg codec v s) = lsReturned s"
proof (cases "lsPending (flush cfg codec s) = None")
  case False
  then show ?thesis by (simp add: acceptTool_def Let_def)
next
  case True
  obtain ok s2 where r: "publishToolStep cfg codec v (flush cfg codec s) = (ok, s2)" by fastforce
  note e = publishToolStep_effect [OF r]
  have "heldText codec s2 k = heldText codec (flush cfg codec s) k"
    using e by (auto simp: heldText_def pendText_def sent_snoc)
  moreover have "acceptTool cfg codec v s = (if ok then s2 else dropEphemeral s2)"
    using True r by (cases ok) (simp_all add: acceptTool_def Let_def)
  ultimately show ?thesis using e by (auto simp: inFlight_def)
qed

lemma acceptText_frame:
  "lsProjecting (acceptText cfg codec v d s) = lsProjecting s \<and> lsReturned (acceptText cfg codec v d s) = lsReturned s"
  by (auto simp: acceptText_def mergeText_def mergeFailed_def startPending_def split: option.splits)

lemma onProjected_inv:
  assumes inv: "live_inv cfg codec m s"
  shows "live_inv cfg codec m (onProjected cfg codec False s) \<and> lsReturned (onProjected cfg codec False s) = lsReturned s"
proof (cases "lsProjecting s")
  case None
  with inv show ?thesis by (simp add: onProjected_def)
next
  case (Some p)
  let ?s0 = "s\<lparr> lsProjecting := None \<rparr>"
  define s1 where "s1 = (case projectLive cfg codec p False of NotOK \<Rightarrow> dropEphemeral ?s0
    | ToolStep v \<Rightarrow> acceptTool cfg codec v ?s0 | LiveDelta v d \<Rightarrow> acceptText cfg codec v d ?s0)"
  have on: "onProjected cfg codec False s = nextProjection s1" using Some by (simp add: onProjected_def s1_def Let_def)
  note fl = inFlight_projecting [OF Some]
  have "okStep cfg codec s s1 \<and> lsProjecting s1 = None \<and> lsReturned s1 = lsReturned s"
  proof (cases "projectLive cfg codec p False")
    case NotOK
    then have "accText cfg codec p = None" by (simp add: accText_def)
    with NotOK fl show ?thesis by (auto simp: s1_def intro!: okStep_silent)
  next
    case (ToolStep v)
    then have "accText cfg codec p = None" by (simp add: accText_def)
    with ToolStep fl acceptTool_effect [of cfg codec v ?s0] show ?thesis by (auto simp: s1_def intro!: okStep_silent)
  next
    case (LiveDelta v d)
    then have "accText cfg codec p = Some (textKey d, dlText d)" by (simp add: accText_def)
    from okStep_acceptText [OF conjunct1 [OF fl] refl conjunct2 [OF fl] this, of v] acceptText_frame [of cfg codec v d ?s0]
    show ?thesis using LiveDelta by (simp add: s1_def)
  qed
  then have s1: "okStep cfg codec s s1" "lsProjecting s1 = None" "lsReturned s1 = lsReturned s" by blast+
  have "okStep cfg codec s (nextProjection s1)" by (rule okStep_trans [OF s1(1) nextProjection_okStep(1) [OF s1(2)]])
  from okStep_inv [OF this inv nextProjection_okStep(2) [OF s1(2)]] show ?thesis
    using on nextProjection_okStep(3) [OF s1(2)] s1(3) by simp
qed

text \<open>The projection keeps the stream of a body, so a body given up unprojected gaps the right stream.\<close>

definition keepsStream :: "TailConfig \<Rightarrow> LiveCodec \<Rightarrow> bool" where
  "keepsStream cfg codec \<longleftrightarrow>
     (\<forall>b d. lcParse codec (tcTransient cfg b) = Some d \<longrightarrow> (\<exists>d'. lcParse codec b = Some d' \<and> textKey d' = textKey d))"

lemma accText_gap:
  assumes "keepsStream cfg codec" "accText cfg codec p = Some (k, t)"
  shows "k \<in> lsGapped (markGap codec (epBody p) s)"
proof -
  obtain v d where pl: "projectLive cfg codec p False = LiveDelta v d" and k: "k = textKey d"
    using assms(2) by (auto simp: accText_def split: ProjectedLive.splits)
  then have "lcParse codec (tcTransient cfg (epBody p)) = Some d"
    by (auto simp: projectLive_def Let_def split: option.splits if_splits)
  with assms(1) obtain d' where "lcParse codec (epBody p) = Some d'" "textKey d' = textKey d" unfolding keepsStream_def by blast
  with k show ?thesis by (simp add: markGap_def)
qed

lemma markGap_simps [simp]:
  "inFlight (markGap codec b s) = inFlight s" "heldText codec (markGap codec b s) k = heldText codec s k"
  "lsQueued (markGap codec b s) = lsQueued s" "lsReturned (markGap codec b s) = lsReturned s" "lsOut (markGap codec b s) = lsOut s"
  "lsEnd (markGap codec b s) = lsEnd s" "lsInvalidated (markGap codec b s) = lsInvalidated s" "lsPending (markGap codec b s) = lsPending s"
  "lsProjecting (markGap codec b s) = lsProjecting s"
  by (auto simp: markGap_def split: option.split)

lemma markGap_mono: "lsGapped s \<subseteq> lsGapped (markGap codec b s)"
  by (auto simp: markGap_def split: option.split)

lemma dropQueued_simps [simp]:
  "heldText codec (dropQueued codec vs s) k = heldText codec s k" "lsProjecting (dropQueued codec vs s) = lsProjecting s"
  "lsReturned (dropQueued codec vs s) = lsReturned s" "lsEnd (dropQueued codec vs s) = lsEnd s"
  "lsInvalidated (dropQueued codec vs s) = lsInvalidated s" "lsOut (dropQueued codec vs s) = lsOut s"
  by (induction vs arbitrary: s) (simp_all add: dropQueued_def)

lemma dropQueued_gaps:
  assumes "keepsStream cfg codec"
  shows "lsGapped s \<subseteq> lsGapped (dropQueued codec vs s) \<and>
    (\<forall>v\<in>set vs. \<forall>k t. accText cfg codec v = Some (k, t) \<longrightarrow> k \<in> lsGapped (dropQueued codec vs s))"
proof (induction vs arbitrary: s)
  case (Cons v vs)
  let ?s1 = "dropEphemeral (markGap codec (epBody v) s)"
  have "dropQueued codec (v # vs) s = dropQueued codec vs ?s1" by (simp add: dropQueued_def)
  moreover have "lsGapped s \<subseteq> lsGapped ?s1" using markGap_mono by simp
  moreover have "k \<in> lsGapped ?s1" if "accText cfg codec v = Some (k, t)" for k t using accText_gap [OF assms that] by simp
  ultimately show ?case using Cons.IH [of ?s1] by auto
qed (simp add: dropQueued_def)

lemma abandon_okStep:
  assumes keeps: "keepsStream cfg codec"
  shows "okStep cfg codec s (abandonProjections codec s)"
proof -
  define s1 where "s1 = (case lsProjecting s of None \<Rightarrow> s
    | Some p \<Rightarrow> dropEphemeral ((markGap codec (epBody p) s)\<lparr> lsProjecting := None \<rparr>))"
  let ?s2 = "(dropQueued codec (lsQueued s1) s1)\<lparr> lsQueued := [] \<rparr>"
  have ab: "abandonProjections codec s = ?s2" by (simp add: abandonProjections_def s1_def Let_def)
  have q: "lsQueued s1 = lsQueued s" "lsProjecting s1 = None" "\<And>k. heldText codec s1 k = heldText codec s k"
    by (auto simp: s1_def split: option.split)
  have g1: "lsGapped s \<subseteq> lsGapped s1" using markGap_mono by (auto simp: s1_def split: option.split)
  have p1: "k \<in> lsGapped s1" if "lsProjecting s = Some p" "accText cfg codec p = Some (k, t)" for p k t
    using accText_gap [OF keeps that(2), of s] that(1) by (simp add: s1_def)
  note dq = dropQueued_gaps [OF keeps, of s1 "lsQueued s1"]
  have h: "heldText codec ?s2 k = heldText codec s k" for k using q by simp
  have w2: "waiting cfg codec ?s2 k = []" for k by (simp add: waiting_def inFlight_def q)
  have w: "waiting cfg codec s k = []" if "k \<notin> lsGapped ?s2" for k
  proof -
    have "textOf cfg codec k v = []" if v: "v \<in> set (inFlight s)" for v
    proof (cases "accText cfg codec v")
      case (Some kt)
      obtain k' t where kt: "kt = (k', t)" by fastforce
      have "k' \<in> lsGapped ?s2"
        using v Some kt p1 dq q(1) by (cases "lsProjecting s") (auto simp: inFlight_def)
      then have "k' \<noteq> k" using \<open>k \<notin> lsGapped ?s2\<close> by blast
      with Some kt show ?thesis by (simp add: textOf_def)
    qed (simp add: textOf_def)
    then show ?thesis by (simp add: waiting_def)
  qed
  have g: "lsGapped s \<subseteq> lsGapped ?s2" using g1 dq by auto
  show ?thesis unfolding ab
  proof (rule okStepI)
    fix k
    show "k \<notin> lsGapped s \<and> total cfg codec ?s2 k = total cfg codec s k" if "k \<notin> lsGapped ?s2"
      using that g w [OF that] h [of k] w2 [of k] unfolding total_def by auto
    show "prefix (heldText codec ?s2 k) (heldText codec s k)" by (simp only: h)
    show "prefix (heldText codec ?s2 k) (total cfg codec s k)" unfolding h total_def by (rule prefixI [OF refl])
  qed
qed

lemma abandon_simps [simp]:
  "lsProjecting (abandonProjections codec s) = None" "lsQueued (abandonProjections codec s) = []"
  "lsReturned (abandonProjections codec s) = lsReturned s" "lsEnd (abandonProjections codec s) = lsEnd s"
  "lsInvalidated (abandonProjections codec s) = lsInvalidated s" "lsOut (abandonProjections codec s) = lsOut s"
  by (auto simp: abandonProjections_def Let_def split: option.split)

lemma publishEnduring_effect:
  assumes "publishEnduring cfg codec p s = (r, s')"
  shows "lsPending s' = lsPending s \<and> lsGapped s' = lsGapped s \<and> lsProjecting s' = lsProjecting s \<and> lsQueued s' = lsQueued s \<and>
    lsReturned s' = lsReturned s \<and> lsEnd s' = lsEnd s \<and> lsInvalidated s' = lsInvalidated s \<and>
    (if r = None
     then \<exists>body payload. lsOut s' = lsOut s @ [EndFrame p payload] \<and> lcEnduring codec (p\<lparr> enBody := body \<rparr>) = Some payload \<and>
       enTenantID p = TenantID (tcKey cfg) \<and> enSessionID p = SessionID (tcKey cfg) \<and>
       (case tcRewrite cfg of None \<Rightarrow> body = enBody p | Some rewrite \<Rightarrow> rewrite (enBody p) (enJournalSeq p) = Inr body)
     else lsOut s' = lsOut s)"
  using assms by (auto simp: publishEnduring_def Let_def split: if_splits option.splits sum.splits)

lemma clearBoundary_simps [simp]:
  "lsOut (clearBoundary codec b s) = lsOut s" "lsPending (clearBoundary codec b s) = lsPending s"
  "lsProjecting (clearBoundary codec b s) = lsProjecting s" "lsQueued (clearBoundary codec b s) = lsQueued s"
  "lsReturned (clearBoundary codec b s) = lsReturned s" "lsEnd (clearBoundary codec b s) = lsEnd s"
  "lsInvalidated (clearBoundary codec b s) = lsInvalidated s"
  "lsGapped (clearBoundary codec b s) =
     (case lcBoundary codec b of None \<Rightarrow> lsGapped s | Some loop \<Rightarrow> {k \<in> lsGapped s. \<not> clearsKey loop k})"
  by (auto simp: clearBoundary_def split: option.split)

lemma onEnduring_inv:
  assumes keeps: "keepsStream cfg codec" and inv: "live_inv cfg codec m s"
    and s': "s' = onEnduring cfg codec p stopped s" and open': "\<not> lsReturned s'"
  shows "live_inv cfg codec (resetBy codec (enBody p) m) s'"
proof -
  let ?s3 = "giveUpPending (flush cfg codec (abandonProjections codec s))"
  have ok: "okStep cfg codec s ?s3"
    by (rule okStep_trans [OF okStep_trans [OF abandon_okStep [OF keeps] okStep_flush] okStep_giveUp])
  have i3: "live_inv cfg codec m ?s3" by (rule okStep_inv [OF ok inv]) simp
  obtain r s4 where pe: "publishEnduring cfg codec p ?s3 = (r, s4)" by fastforce
  note e = publishEnduring_effect [OF pe]
  have r: "r = None" using open' s' pe by (cases r) (auto simp: onEnduring_def return_def)
  then have s'4: "s' = clearBoundary codec (enBody p) s4" using s' pe by (simp add: onEnduring_def)
  obtain payload where out: "lsOut s4 = lsOut ?s3 @ [EndFrame p payload]" using e r by auto
  have h3: "heldText codec ?s3 k = sent codec (lsOut ?s3) k" for k by (simp add: heldText_def)
  have h': "heldText codec s' k = resetBy codec (enBody p) (sent codec (lsOut ?s3)) k" for k
    using e by (simp add: s'4 heldText_def pendText_def out sent_snoc del: giveUp_simps(7))
  have w3: "waiting cfg codec ?s3 k = []" for k by (simp add: waiting_def inFlight_def)
  have w': "waiting cfg codec s' k = []" for k using e by (simp add: s'4 waiting_def inFlight_def)
  have g: "k \<in> lsGapped s' \<longleftrightarrow> k \<in> lsGapped ?s3 \<and> (\<forall>loop. lcBoundary codec (enBody p) = Some loop \<longrightarrow> \<not> clearsKey loop k)" for k
    using e by (simp add: s'4 split: option.split del: giveUp_simps)
  have i: "k \<notin> lsGapped ?s3 \<Longrightarrow> m k = sent codec (lsOut ?s3) k" "k \<in> lsGapped ?s3 \<Longrightarrow> prefix (sent codec (lsOut ?s3) k) (m k)" for k
    using i3 unfolding live_inv_def total_def h3 w3 append_Nil2 by blast+
  show ?thesis unfolding live_inv_def total_def h' w'
  proof (intro conjI allI impI)
    show "lsQueued s' = []" using e by (simp add: s'4)
    fix k
    show "resetBy codec (enBody p) m k = resetBy codec (enBody p) (sent codec (lsOut ?s3)) k @ []" if "k \<notin> lsGapped s'"
      using that i(1) [of k] unfolding g by (auto simp: resetBy_def split: option.split)
    show "prefix (resetBy codec (enBody p) (sent codec (lsOut ?s3)) k) (resetBy codec (enBody p) m k)" if "k \<in> lsGapped s'"
      using that i(2) [of k] unfolding g by (auto simp: resetBy_def split: option.split)
  qed
qed

lemma onEphemeral_inv:
  assumes inv: "live_inv cfg codec m s" and room: "\<not> (lsProjecting s \<noteq> None \<and> length (lsQueued s) = liveProjectionQueue)"
  shows "live_inv cfg codec (if ownEphemeral cfg p then \<lambda>k. m k @ textOf cfg codec k p else m) (onEphemeral cfg p s) \<and>
    lsReturned (onEphemeral cfg p s) = lsReturned s"
proof (cases "ownEphemeral cfg p")
  case False
  have "okStep cfg codec s (dropEphemeral s)" by (rule okStep_same) (simp_all add: waiting_def)
  moreover have "lsProjecting s = None \<longrightarrow> lsQueued s = []" using inv by (simp add: live_inv_def)
  ultimately have "live_inv cfg codec m (dropEphemeral s)" using okStep_inv [OF _ inv] by simp
  with False show ?thesis by (auto simp: onEphemeral_def ownEphemeral_def)
next
  case True
  let ?s = "onEphemeral cfg p s"
  have q: "lsProjecting s = None \<longrightarrow> lsQueued s = []" using inv by (simp add: live_inv_def)
  have fl: "inFlight ?s = inFlight s @ [p]"
    using True room q by (auto simp: onEphemeral_def ownEphemeral_def inFlight_def split: option.splits)
  have other: "heldText codec ?s k = heldText codec s k" "lsGapped ?s = lsGapped s" "lsReturned ?s = lsReturned s"
      "lsProjecting ?s \<noteq> None" for k
    using True room by (auto simp: onEphemeral_def ownEphemeral_def heldText_def pendText_def)
  have w: "waiting cfg codec ?s k = waiting cfg codec s k @ textOf cfg codec k p" for k by (simp add: waiting_def fl)
  have i: "k \<notin> lsGapped s \<Longrightarrow> m k = heldText codec s k @ waiting cfg codec s k" "k \<in> lsGapped s \<Longrightarrow> prefix (heldText codec s k) (m k)" for k
    using inv by (simp_all add: live_inv_def total_def)
  have "live_inv cfg codec (\<lambda>k. m k @ textOf cfg codec k p) ?s"
    unfolding live_inv_def total_def other(1,2) w using other(4) i by (auto intro: prefix_prefix)
  with True other(3) show ?thesis by simp
qed

section \<open>Live text is contiguous\<close>

lemma inv_sent:
  assumes "live_inv cfg codec m s"
  shows "prefix (sent codec (lsOut s) k) (m k)"
proof (cases "k \<in> lsGapped s")
  case True
  then have "prefix (sent codec (lsOut s) k @ pendText s k) (m k)" using assms unfolding live_inv_def heldText_def by blast
  then show ?thesis by (rule append_prefixD)
next
  case False
  then have "m k = sent codec (lsOut s) k @ pendText s k @ waiting cfg codec s k"
    using assms unfolding live_inv_def total_def heldText_def by simp
  then show ?thesis by (rule prefixI)
qed

lemma relayLive_inv:
  assumes keeps: "keepsStream cfg codec" and inv: "live_inv cfg codec m s" and sm: "smoothStep ev s"
    and s': "s' = relayLive cfg codec ev s"
  shows "live_inv cfg codec (if lsReturned s' then m else seenStep cfg codec ev m) s' \<or>
    lsReturned s' \<and> (\<forall>k. prefix (sent codec (lsOut s') k) (m k))"
proof (cases "lsReturned s")
  case True
  with inv s' show ?thesis by (simp add: relayLive_def)
next
  case False
  have q: "lsProjecting s = None \<longrightarrow> lsQueued s = []" using inv by (simp add: live_inv_def)
  have out: "prefix (sent codec (lsOut s) k) (m k)" for k
    by (rule inv_sent [OF inv])
  have same: "live_inv cfg codec m s1" if "okStep cfg codec s s1" "lsProjecting s1 = lsProjecting s" "lsQueued s1 = lsQueued s" for s1
    using okStep_inv [OF that(1) inv] that(2,3) q by simp
  have still: "okStep cfg codec s (startTimer s)" "okStep cfg codec s (dropEphemeral s)"
    by (rule okStep_same; simp add: waiting_def)+
  show ?thesis
  proof (cases ev)
    case EvFlush
    then have "s' = s \<or> s' = startTimer s \<or> s' = flush cfg codec s" using False s' by (auto simp: relayLive_def)
    then have "live_inv cfg codec m s'" "lsReturned s' = lsReturned s"
      using inv same [OF still(1)] same [OF okStep_flush] by auto
    then show ?thesis using EvFlush False by (simp add: seenStep_def)
  next
    case (EvProjected failed)
    with sm have "s' = onProjected cfg codec False s" using False s' by (simp add: relayLive_def smoothStep_def)
    with onProjected_inv [OF inv] EvProjected False show ?thesis by (simp add: seenStep_def)
  next
    case (EvEnduring p stopped)
    then have e: "s' = onEnduring cfg codec p stopped s" using False s' by (simp add: relayLive_def)
    show ?thesis
    proof (cases "lsReturned s'")
      case True
      let ?s3 = "giveUpPending (flush cfg codec (abandonProjections codec s))"
      have ok: "okStep cfg codec s ?s3"
        by (rule okStep_trans [OF okStep_trans [OF abandon_okStep [OF keeps] okStep_flush] okStep_giveUp])
      have i3: "live_inv cfg codec m ?s3" by (rule okStep_inv [OF ok inv]) simp
      obtain r s4 where pe: "publishEnduring cfg codec p ?s3 = (r, s4)" by fastforce
      note eff = publishEnduring_effect [OF pe]
      have "r \<noteq> None"
      proof
        assume "r = None"
        then have "s' = clearBoundary codec (enBody p) s4" using e pe by (simp add: onEnduring_def)
        then show False using True False eff by simp
      qed
      then obtain x where x: "r = Some x" by blast
      then have "lsOut s' = lsOut s4" using e pe by (simp add: onEnduring_def return_def finishTail_def invalidate_def)
      then have "lsOut s' = lsOut ?s3" using eff x by simp
      moreover have "prefix (sent codec (lsOut ?s3) k) (m k)" for k
        by (rule inv_sent [OF i3])
      ultimately show ?thesis using True by simp
    next
      case open': False
      from onEnduring_inv [OF keeps inv e open'] show ?thesis using open' EvEnduring by (simp add: seenStep_def)
    qed
  next
    case (EvEphemeral p)
    with sm have room: "\<not> (lsProjecting s \<noteq> None \<and> length (lsQueued s) = liveProjectionQueue)" by (simp add: smoothStep_def)
    have "s' = onEphemeral cfg p s" using EvEphemeral False s' by (simp add: relayLive_def)
    with onEphemeral_inv [OF inv room, of p] EvEphemeral False show ?thesis by (simp add: seenStep_def)
  next
    case EvNeither
    then have "s' = dropEphemeral s" using False s' by (simp add: relayLive_def)
    with same [OF still(2)] EvNeither False show ?thesis by (simp add: seenStep_def)
  next
    case EvDone
    then have "lsReturned s' \<and> lsOut s' = lsOut s" using False s' by (simp add: relayLive_def return_def finishTail_def)
    with out show ?thesis by simp
  next
    case (EvClosed stopped)
    then have "lsReturned s' \<and> lsOut s' = lsOut s"
      using False s' by (simp add: relayLive_def return_def finishTail_def invalidate_def)
    with out show ?thesis by simp
  next
    case (EvTerminal cause)
    then have "lsReturned s' \<and> lsOut s' = lsOut s"
      using False s' by (simp add: relayLive_def return_def finishTail_def invalidate_def)
    with out show ?thesis by simp
  qed
qed

lemma runLive_inv:
  assumes keeps: "keepsStream cfg codec"
  shows "live_inv cfg codec m s \<or> lsReturned s \<and> (\<forall>k. prefix (sent codec (lsOut s) k) (m k)) \<Longrightarrow> smooth cfg codec evs s \<Longrightarrow>
    prefix (sent codec (lsOut (runLive cfg codec evs s)) k) (seenFrom cfg codec evs s m k)"
proof (induction evs arbitrary: s m)
  case Nil
  then show ?case using inv_sent by auto
next
  case (Cons ev evs)
  let ?s = "relayLive cfg codec ev s"
  let ?m = "if lsReturned ?s then m else seenStep cfg codec ev m"
  have "live_inv cfg codec ?m ?s \<or> lsReturned ?s \<and> (\<forall>k. prefix (sent codec (lsOut ?s) k) (?m k))"
    using Cons.prems(1)
  proof
    assume "live_inv cfg codec m s"
    from relayLive_inv [OF keeps this _ refl, of ev] Cons.prems(2) show ?thesis by auto
  next
    assume r: "lsReturned s \<and> (\<forall>k. prefix (sent codec (lsOut s) k) (m k))"
    then have "?s = s" by (simp add: relayLive_def)
    with r show ?thesis by simp
  qed
  from Cons.IH [OF this] Cons.prems(2) show ?case by (simp add: Let_def)
qed

lemma start_live_inv: "live_inv cfg codec (\<lambda>_. []) startLive"
  by (simp add: live_inv_def startLive_def total_def heldText_def pendText_def waiting_def inFlight_def sent_def)

section \<open>The text is in the published bodies\<close>

text \<open>Merging bodies one after the other, as \<open>mergeText\<close> does with those that arrive.\<close>

fun mergeAll :: "LiveCodec \<Rightarrow> string \<Rightarrow> string list \<Rightarrow> string option" where
  "mergeAll codec b [] = Some b"
| "mergeAll codec b (x # xs) = Option.bind (lcMerge codec b x) (\<lambda>c. mergeAll codec c xs)"

lemma mergeAll_snoc: "mergeAll codec b (xs @ [x]) = Option.bind (mergeAll codec b xs) (\<lambda>c. lcMerge codec c x)"
  by (induction xs arbitrary: b) (auto split: bind_splits)

definition bodyText :: "LiveCodec \<Rightarrow> string \<Rightarrow> string" where
  "bodyText codec b = (case lcParse codec b of Some d \<Rightarrow> dlText d | None \<Rightarrow> [])"

text \<open>
  A body carries the text of a delta: it is the merge, in order, of bodies of the delta's stream
  whose texts make up the delta's text.
\<close>

definition carriesBody :: "LiveCodec \<Rightarrow> Delta \<Rightarrow> string \<Rightarrow> bool" where
  "carriesBody codec d body \<longleftrightarrow>
     (\<exists>b bs. mergeAll codec b bs = Some body \<and> dlText d = concat (map (bodyText codec) (b # bs)) \<and>
        (\<forall>x\<in>set (b # bs). map_option textKey (lcParse codec x) = Some (textKey d)))"

definition carriesPayload :: "LiveCodec \<Rightarrow> Delta \<Rightarrow> string \<Rightarrow> bool" where
  "carriesPayload codec d payload \<longleftrightarrow> (\<exists>p. lcEphemeral codec p = Some payload \<and> carriesBody codec d (epBody p))"

definition carries_inv :: "LiveCodec \<Rightarrow> LiveState \<Rightarrow> bool" where
  "carries_inv codec s \<longleftrightarrow>
     (\<forall>p d. lsPending s = Some (p, d) \<longrightarrow> carriesBody codec d (epBody p)) \<and>
     (\<forall>d payload. TextFrame d payload \<in> set (lsOut s) \<longrightarrow> carriesPayload codec d payload)"

lemma carriesBody_one: "lcParse codec body = Some d \<Longrightarrow> carriesBody codec d body"
  unfolding carriesBody_def by (intro exI [of _ body] exI [of _ "[]"]) (simp add: bodyText_def)

lemma carriesBody_merge:
  assumes "carriesBody codec d body" "lcParse codec x = Some dx" "textKey dx = textKey d" "lcMerge codec body x = Some c"
  shows "carriesBody codec (d\<lparr> dlText := dlText d @ dlText dx \<rparr>) c"
proof -
  from assms(1) obtain b bs where "mergeAll codec b bs = Some body" "dlText d = concat (map (bodyText codec) (b # bs))"
    "\<forall>y\<in>set (b # bs). map_option textKey (lcParse codec y) = Some (textKey d)"
    unfolding carriesBody_def by blast
  with assms(2-4) show ?thesis
    unfolding carriesBody_def
    by (intro exI [of _ b] exI [of _ "bs @ [x]"]) (auto simp: mergeAll_snoc bodyText_def textKey_def)
qed

lemma carries_inv_more:
  assumes "carries_inv codec s" "lsPending s' = lsPending s \<or> lsPending s' = None" "lsOut s' = lsOut s"
  shows "carries_inv codec s'"
  using assms unfolding carries_inv_def by auto

lemma quiet_steps [simp]:
  "lsPending (stopTimer s) = lsPending s" "lsOut (stopTimer s) = lsOut s"
  "lsPending (startTimer s) = lsPending s" "lsOut (startTimer s) = lsOut s"
  "lsPending (dropEphemeral s) = lsPending s" "lsOut (dropEphemeral s) = lsOut s"
  "lsPending (addGap k s) = lsPending s" "lsOut (addGap k s) = lsOut s"
  "lsPending (finishTail e c s) = lsPending s" "lsOut (finishTail e c s) = lsOut s"
  "lsPending (invalidate s) = lsPending s" "lsOut (invalidate s) = lsOut s"
  "lsPending (return s) = lsPending s" "lsOut (return s) = lsOut s"
  "lsPending (clearBoundary codec b s) = lsPending s" "lsOut (clearBoundary codec b s) = lsOut s"
  "lsPending (nextProjection s) = lsPending s" "lsOut (nextProjection s) = lsOut s"
  "lsPending (markGap codec b s) = lsPending s" "lsOut (markGap codec b s) = lsOut s"
  by (auto simp: stopTimer_def startTimer_def dropEphemeral_def addGap_def finishTail_def invalidate_def return_def
      clearBoundary_def nextProjection_def markGap_def split: option.split list.split)

lemma dropQueued_quiet [simp]:
  "lsPending (dropQueued codec vs s) = lsPending s" "lsOut (dropQueued codec vs s) = lsOut s"
  unfolding dropQueued_def by (induction vs arbitrary: s) auto

lemma abandon_quiet [simp]:
  "lsPending (abandonProjections codec s) = lsPending s" "lsOut (abandonProjections codec s) = lsOut s"
  by (auto simp: abandonProjections_def Let_def split: option.split)

lemma flush_carries: "carries_inv codec s \<Longrightarrow> carries_inv codec (flush cfg codec s)"
  unfolding carries_inv_def carriesPayload_def
  by (auto simp: flush_def publishEphemeral_def Let_def split: option.splits if_splits prod.splits bool.splits)

lemma giveUp_carries: "carries_inv codec s \<Longrightarrow> carries_inv codec (giveUpPending s)"
  by (erule carries_inv_more) (auto simp: giveUpPending_def split: option.split)

lemma acceptText_carries:
  assumes "carries_inv codec s" "lcParse codec (epBody v) = Some d"
  shows "carries_inv codec (acceptText cfg codec v d s)"
proof -
  have start: "carries_inv codec (startPending v d s')" if "carries_inv codec s'" for s'
    using that carriesBody_one [OF assms(2)] by (auto simp: carries_inv_def startPending_def)
  have merge: "carries_inv codec (mergeText codec v d pend s)" if "lsPending s = Some pend" "textKey (snd pend) = textKey d" for pend
    using assms that carriesBody_merge [OF _ assms(2)]
    by (cases pend) (auto simp: carries_inv_def mergeText_def mergeFailed_def split: option.split)
  show ?thesis
    using assms(1) start [OF giveUp_carries [OF flush_carries [OF assms(1)]]] merge
    by (auto simp: acceptText_def intro: carries_inv_more split: option.split)
qed

lemma acceptTool_carries:
  assumes "carries_inv codec s"
  shows "carries_inv codec (acceptTool cfg codec v s)"
proof -
  have "carries_inv codec (snd (publishToolStep cfg codec v s'))" if "carries_inv codec s'" for s'
    using that unfolding carries_inv_def
    by (auto simp: publishToolStep_def publishEphemeral_def Let_def split: option.splits if_splits)
  from this [OF flush_carries [OF assms, of cfg]] flush_carries [OF assms, of cfg] show ?thesis
    by (auto simp: acceptTool_def Let_def intro: carries_inv_more split: prod.splits bool.splits)
qed

lemma onEnduring_carries:
  assumes "carries_inv codec s"
  shows "carries_inv codec (onEnduring cfg codec p stopped s)"
proof -
  let ?s = "giveUpPending (flush cfg codec (abandonProjections codec s))"
  have "carries_inv codec (abandonProjections codec s)" using assms by (rule carries_inv_more) simp_all
  then have c: "carries_inv codec ?s" by (intro giveUp_carries flush_carries)
  have "carries_inv codec (snd (publishEnduring cfg codec p ?s))"
    using c unfolding carries_inv_def
    by (auto simp: publishEnduring_def Let_def split: option.splits if_splits sum.splits)
  then show ?thesis
    by (auto simp: onEnduring_def split: prod.splits option.splits intro: carries_inv_more)
qed

lemma relayLive_carries:
  assumes "carries_inv codec s"
  shows "carries_inv codec (relayLive cfg codec ev s)"
proof -
  have proj: "carries_inv codec (onProjected cfg codec failed s)" for failed
  proof (cases "lsProjecting s")
    case (Some p)
    have s0: "carries_inv codec (s\<lparr> lsProjecting := None \<rparr>)" using assms by (rule carries_inv_more) simp_all
    have "lcParse codec (epBody v) = Some d" if "projectLive cfg codec p failed = LiveDelta v d" for v d
      using that by (auto simp: projectLive_def Let_def split: if_splits option.splits)
    then have "carries_inv codec (case projectLive cfg codec p failed of NotOK \<Rightarrow> dropEphemeral (s\<lparr> lsProjecting := None \<rparr>)
        | ToolStep v \<Rightarrow> acceptTool cfg codec v (s\<lparr> lsProjecting := None \<rparr>)
        | LiveDelta v d \<Rightarrow> acceptText cfg codec v d (s\<lparr> lsProjecting := None \<rparr>))"
      using s0 by (auto intro: carries_inv_more acceptTool_carries acceptText_carries split: ProjectedLive.split)
    then show ?thesis using Some by (auto simp: onProjected_def Let_def intro: carries_inv_more)
  qed (use assms in \<open>simp add: onProjected_def\<close>)
  show ?thesis
    using assms proj onEnduring_carries [OF assms] flush_carries [OF assms]
    by (auto simp: relayLive_def onEphemeral_def intro: carries_inv_more split: LiveEvent.split)
qed

lemma runLive_carries: "carries_inv codec s \<Longrightarrow> carries_inv codec (runLive cfg codec evs s)"
  by (induction evs arbitrary: s) (auto intro: relayLive_carries)


text \<open>A codec for bodies that name a stream by their first character and carry the rest as text.\<close>

definition exParse :: "string \<Rightarrow> Delta option" where
  "exParse b =
     (case b of
        c # t \<Rightarrow> if c = CHR ''!'' then None
          else Some \<lparr> dlVersion = 1, dlType = ''TokenDelta'', dlSessionID = ''s'', dlLoopID = [c], dlTurnID = ''t'', dlChunkType = ''text'', dlText = t, dlThinking = [] \<rparr>
      | [] \<Rightarrow> None)"

definition exLiveCodec :: LiveCodec where
  "exLiveCodec =
     \<lparr> lcParse = exParse, lcMerge = (\<lambda>a b. Some (a @ tl b)), lcBoundary = (\<lambda>b. case b of c # l \<Rightarrow> if c = CHR ''!'' then Some l else None | [] \<Rightarrow> None),
       lcTool = (\<lambda>_. None), lcFit = (\<lambda>b _. Some b), lcEphemeral = (\<lambda>p. Some (epBody p)), lcEnduring = (\<lambda>p. Some (enBody p)) \<rparr>"

definition exTail :: "(nat \<Rightarrow> bool) \<Rightarrow> TailConfig" where
  "exTail try = \<lparr> tcKey = Key ''t'' ''s'', tcReasoning = False, tcToolSteps = False, tcEphemeralTransport = True, tcTry = try,
     tcPublish = (\<lambda>_. None), tcRewrite = None, tcTransient = id \<rparr>"

definition exText :: "string \<Rightarrow> LiveEvent" where
  "exText b = EvEphemeral \<lparr> epTenantID = ''t'', epSessionID = ''s'', epBody = b \<rparr>"

definition exCommit :: "string \<Rightarrow> LiveEvent" where
  "exCommit b = EvEnduring \<lparr> enTenantID = ''t'', enSessionID = ''s'', enEventID = ''e'', enJournalSeq = 1, enCoveredThrough = 1, enBody = b \<rparr> False"

definition exEvents :: "LiveEvent list" where
  "exEvents = [exText ''aHel'', EvProjected False, exText ''alo'', EvProjected False, EvFlush, exText ''bX'', EvProjected False, EvFlush]"

lemma exTail_keeps: "keepsStream (exTail try) exLiveCodec"
  by (simp add: keepsStream_def exTail_def)

definition exStream :: string where
  "exStream = ''a'' @ CHR 0x00 # ''t'' @ CHR 0x00 # ''text''"


text \<open>
  The condition is needed.  A delta refused because the projection queue is full is counted but does
  not gap its stream, and neither does a delta whose projection failed, so the text that follows it
  is published and the stream has a hole.
\<close>

definition exOverflow :: "LiveEvent list" where
  "exOverflow = exText ''a0'' # map (\<lambda>_. exText ''a1'') [0..<16] @ [exText ''aLOST''] @ map (\<lambda>_. EvProjected False) [0..<17] @
     [exText ''a2'', EvProjected False, EvFlush]"

lemma full_queue_leaves_a_hole:
  "sent exLiveCodec (lsOut (runLive (exTail (\<lambda>_. True)) exLiveCodec exOverflow startLive)) exStream = ''01111111111111111'' @ ''2'' \<and>
   seenFrom (exTail (\<lambda>_. True)) exLiveCodec exOverflow startLive (\<lambda>_. []) exStream = ''01111111111111111'' @ ''LOST2''"
  by code_simp

lemma failed_projection_leaves_a_hole:
  "sent exLiveCodec (lsOut (runLive (exTail (\<lambda>_. True)) exLiveCodec
       [exText ''aHel'', EvProjected False, exText ''alo'', EvProjected True, exText ''a!'', EvProjected False, EvFlush] startLive)) exStream = ''Hel!''"
  by code_simp

section \<open>What was committed is relayed in order\<close>

fun transientOK :: "Frame \<Rightarrow> bool" where
  "transientOK (TextFrame _ payload) \<longleftrightarrow> length payload \<le> ephemeralFrameCap"
| "transientOK (ToolFrame payload) \<longleftrightarrow> length payload \<le> ephemeralFrameCap"
| "transientOK (EndFrame _ _) \<longleftrightarrow> False"

definition onlyTransient :: "LiveState \<Rightarrow> LiveState \<Rightarrow> bool" where
  "onlyTransient s s' \<longleftrightarrow>
     (\<exists>fs. lsOut s' = lsOut s @ fs \<and> (\<forall>f\<in>set fs. transientOK f)) \<and>
     lsReturned s' = lsReturned s \<and> lsEnd s' = lsEnd s \<and> lsInvalidated s' = lsInvalidated s"

lemma onlyTransient_same:
  "lsOut s' = lsOut s \<Longrightarrow> lsReturned s' = lsReturned s \<Longrightarrow> lsEnd s' = lsEnd s \<Longrightarrow> lsInvalidated s' = lsInvalidated s \<Longrightarrow> onlyTransient s s'"
  by (simp add: onlyTransient_def)

lemma onlyTransient_trans: "onlyTransient a b \<Longrightarrow> onlyTransient b c \<Longrightarrow> onlyTransient a c"
  unfolding onlyTransient_def by fastforce

lemma onlyTransient_flush: "onlyTransient s (flush cfg codec s)"
proof -
  have "\<exists>fs. lsOut (flush cfg codec s) = lsOut s @ fs \<and> (\<forall>f\<in>set fs. transientOK f)"
    using flush_effect [of cfg codec s "[]"] by (auto simp: ephemeralFrameCap_def)
  then show ?thesis by (simp add: onlyTransient_def)
qed

lemma onlyTransient_giveUp: "onlyTransient s (giveUpPending s)"
  by (rule onlyTransient_same) simp_all

lemma onlyTransient_tool: "onlyTransient s (acceptTool cfg codec v s)"
proof (cases "lsPending (flush cfg codec s) = None")
  case False
  then have "acceptTool cfg codec v s = dropEphemeral (flush cfg codec s)" by (simp add: acceptTool_def Let_def)
  moreover have "onlyTransient (flush cfg codec s) (dropEphemeral (flush cfg codec s))" by (rule onlyTransient_same) simp_all
  ultimately show ?thesis using onlyTransient_trans [OF onlyTransient_flush] by simp
next
  case True
  obtain ok s2 where r: "publishToolStep cfg codec v (flush cfg codec s) = (ok, s2)" by fastforce
  have a: "acceptTool cfg codec v s = (if ok then s2 else dropEphemeral s2)"
    using True r by (cases ok) (simp_all add: acceptTool_def Let_def)
  have "onlyTransient (flush cfg codec s) s2"
    using publishToolStep_effect [OF r] by (auto simp: onlyTransient_def ephemeralFrameCap_def)
  moreover have "onlyTransient s2 (if ok then s2 else dropEphemeral s2)" by (rule onlyTransient_same) simp_all
  ultimately show ?thesis unfolding a using onlyTransient_trans onlyTransient_flush by blast
qed

lemma onlyTransient_text: "onlyTransient s (acceptText cfg codec v d s)"
proof -
  have m: "onlyTransient s (mergeFailed k s)" for k by (rule onlyTransient_same) (simp_all add: mergeFailed_def)
  have p: "onlyTransient (giveUpPending (flush cfg codec s)) (startPending v d (giveUpPending (flush cfg codec s)))"
    by (rule onlyTransient_same) (simp_all add: startPending_def)
  have f: "onlyTransient s (startPending v d (giveUpPending (flush cfg codec s)))"
    by (rule onlyTransient_trans [OF onlyTransient_trans [OF onlyTransient_flush onlyTransient_giveUp] p])
  have g: "onlyTransient s (dropEphemeral s)" "onlyTransient s (dropEphemeral (addGap (textKey d) s))"
    by (rule onlyTransient_same; simp)+
  have t: "onlyTransient s (mergeText codec v d pend s)" for pend
    using m by (auto simp: mergeText_def onlyTransient_def split: option.split)
  show ?thesis unfolding acceptText_def using f g t by (auto split: option.split)
qed

lemma onlyTransient_projected: "onlyTransient s (onProjected cfg codec failed s)"
proof (cases "lsProjecting s")
  case None
  then show ?thesis by (simp add: onProjected_def onlyTransient_def)
next
  case (Some p)
  let ?s0 = "s\<lparr> lsProjecting := None \<rparr>"
  have n: "onlyTransient x (nextProjection x)" for x
    by (rule onlyTransient_same) (auto simp: nextProjection_def split: list.split)
  have s0: "onlyTransient s ?s0" by (rule onlyTransient_same) simp_all
  have d: "onlyTransient ?s0 (dropEphemeral ?s0)" by (rule onlyTransient_same) simp_all
  have "onlyTransient ?s0 (case projectLive cfg codec p failed of NotOK \<Rightarrow> dropEphemeral ?s0
    | ToolStep v \<Rightarrow> acceptTool cfg codec v ?s0 | LiveDelta v d \<Rightarrow> acceptText cfg codec v d ?s0)"
    using d onlyTransient_tool onlyTransient_text by (auto split: ProjectedLive.split)
  from onlyTransient_trans [OF onlyTransient_trans [OF s0 this] n] show ?thesis
    using Some by (simp add: onProjected_def Let_def)
qed

text \<open>The committed publications of a run of events and of the frames on the channel.\<close>

fun commits :: "LiveEvent list \<Rightarrow> EnduringPublication list" where
  "commits [] = []"
| "commits (EvEnduring p _ # evs) = p # commits evs"
| "commits (_ # evs) = commits evs"

fun relayed :: "Frame list \<Rightarrow> EnduringPublication list" where
  "relayed [] = []"
| "relayed (EndFrame p _ # fs) = p # relayed fs"
| "relayed (_ # fs) = relayed fs"

lemma relayed_append: "relayed (a @ b) = relayed a @ relayed b"
  by (induction a rule: relayed.induct) simp_all

lemma relayed_transient: "\<forall>f\<in>set fs. transientOK f \<Longrightarrow> relayed fs = []"
  by (induction fs rule: relayed.induct) simp_all

definition frameOK :: "TailConfig \<Rightarrow> LiveCodec \<Rightarrow> Frame \<Rightarrow> bool" where
  "frameOK cfg codec f \<longleftrightarrow>
     transientOK f \<or>
     (\<exists>p body payload. f = EndFrame p payload \<and> lcEnduring codec (p\<lparr> enBody := body \<rparr>) = Some payload \<and>
        enTenantID p = TenantID (tcKey cfg) \<and> enSessionID p = SessionID (tcKey cfg) \<and>
        (case tcRewrite cfg of None \<Rightarrow> body = enBody p | Some rewrite \<Rightarrow> rewrite (enBody p) (enJournalSeq p) = Inr body))"

definition end_inv :: "TailConfig \<Rightarrow> LiveCodec \<Rightarrow> EnduringPublication list \<Rightarrow> LiveState \<Rightarrow> bool" where
  "end_inv cfg codec ps s \<longleftrightarrow>
     prefix (relayed (lsOut s)) ps \<and> (\<not> lsReturned s \<longrightarrow> relayed (lsOut s) = ps) \<and>
     (lsReturned s \<longleftrightarrow> lsEnd s \<noteq> TailEndRunning) \<and>
     lsInvalidated s = (if lsEnd s = TailEndLost \<or> lsEnd s = TailEndRefused then 1 else 0) \<and>
     (\<forall>f\<in>set (lsOut s). frameOK cfg codec f)"

lemma end_inv_transient:
  assumes "end_inv cfg codec ps s" "onlyTransient s s'"
  shows "end_inv cfg codec ps s'"
proof -
  obtain fs where fs: "lsOut s' = lsOut s @ fs" "\<forall>f\<in>set fs. transientOK f"
    and e: "lsReturned s' = lsReturned s" "lsEnd s' = lsEnd s" "lsInvalidated s' = lsInvalidated s"
    using assms(2) unfolding onlyTransient_def by blast
  have "relayed (lsOut s') = relayed (lsOut s)" using relayed_transient [OF fs(2)] by (simp add: fs(1) relayed_append)
  moreover have "\<forall>f\<in>set (lsOut s'). frameOK cfg codec f" using assms(1) fs by (auto simp: end_inv_def frameOK_def)
  ultimately show ?thesis using assms(1) e by (simp add: end_inv_def)
qed

lemma end_inv_ended:
  assumes "end_inv cfg codec ps s" "\<not> lsReturned s" "lsOut s' = lsOut s" "lsReturned s'" "prefix ps ps'"
    and "lsEnd s' = TailEndStopped \<and> lsInvalidated s' = lsInvalidated s \<or>
      (lsEnd s' = TailEndLost \<or> lsEnd s' = TailEndRefused) \<and> lsInvalidated s' = Suc (lsInvalidated s)"
  shows "end_inv cfg codec ps' s'"
  using assms by (auto simp: end_inv_def)

lemma relayLive_end_inv:
  assumes inv: "end_inv cfg codec ps s"
  shows "end_inv cfg codec (ps @ commits [ev]) (relayLive cfg codec ev s)"
proof (cases "lsReturned s")
  case True
  with inv show ?thesis by (auto simp: relayLive_def end_inv_def intro: prefix_prefix)
next
  case False
  then have run: "lsEnd s = TailEndRunning" using inv by (simp add: end_inv_def)
  have drop: "onlyTransient s (dropEphemeral s)" "onlyTransient s (startTimer s)" by (rule onlyTransient_same; simp)+
  have eph: "onlyTransient s (onEphemeral cfg p s)" for p by (rule onlyTransient_same) (simp_all add: onEphemeral_def)
  show ?thesis
  proof (cases ev)
    case (EvEnduring p stopped)
    let ?s3 = "giveUpPending (flush cfg codec (abandonProjections codec s))"
    have "onlyTransient s (abandonProjections codec s)" by (rule onlyTransient_same) simp_all
    then have i3: "end_inv cfg codec ps ?s3"
      using end_inv_transient [OF inv] onlyTransient_trans onlyTransient_flush onlyTransient_giveUp by blast
    obtain r s4 where pe: "publishEnduring cfg codec p ?s3 = (r, s4)" by fastforce
    note e = publishEnduring_effect [OF pe]
    show ?thesis
    proof (cases r)
      case None
      then have s': "relayLive cfg codec ev s = clearBoundary codec (enBody p) s4"
        using EvEnduring False pe by (simp add: relayLive_def onEnduring_def)
      obtain payload where out: "lsOut s4 = lsOut ?s3 @ [EndFrame p payload]" "frameOK cfg codec (EndFrame p payload)"
        using e None unfolding frameOK_def by auto
      have "relayed (lsOut ?s3) = ps" using i3 False by (simp add: end_inv_def)
      then show ?thesis using e out i3 False run EvEnduring unfolding s' end_inv_def
        by (simp add: relayed_append del: giveUp_simps(7))
    next
      case (Some x)
      have "end_inv cfg codec (ps @ [p]) (relayLive cfg codec ev s)"
        by (rule end_inv_ended [OF i3])
          (use EvEnduring False run pe Some e in \<open>auto simp: relayLive_def onEnduring_def return_def finishTail_def invalidate_def\<close>)
      then show ?thesis using EvEnduring by simp
    qed
  next
    case EvFlush
    then have "onlyTransient s (relayLive cfg codec ev s)"
      using False drop(2) onlyTransient_flush by (auto simp: relayLive_def onlyTransient_def)
    with end_inv_transient [OF inv] EvFlush show ?thesis by simp
  next
    case (EvProjected failed)
    with end_inv_transient [OF inv onlyTransient_projected] False show ?thesis by (simp add: relayLive_def)
  next
    case (EvEphemeral p)
    with end_inv_transient [OF inv eph] False show ?thesis by (simp add: relayLive_def)
  next
    case EvNeither
    with end_inv_transient [OF inv drop(1)] False show ?thesis by (simp add: relayLive_def)
  next
    case EvDone
    then show ?thesis using False run
      by (intro end_inv_ended [OF inv]) (simp_all add: relayLive_def return_def finishTail_def)
  next
    case (EvClosed stopped)
    then show ?thesis using False run
      by (intro end_inv_ended [OF inv]) (simp_all add: relayLive_def return_def finishTail_def invalidate_def)
  next
    case (EvTerminal cause)
    then show ?thesis using False run
      by (intro end_inv_ended [OF inv]) (simp_all add: relayLive_def return_def finishTail_def invalidate_def)
  qed
qed

lemma commits_Cons: "commits (ev # evs) = commits [ev] @ commits evs"
  by (cases ev) simp_all

lemma runLive_end_inv: "end_inv cfg codec ps s \<Longrightarrow> end_inv cfg codec (ps @ commits evs) (runLive cfg codec evs s)"
proof (induction evs arbitrary: ps s)
  case (Cons ev evs)
  from Cons.IH [OF relayLive_end_inv [OF Cons.prems, of ev]] show ?case by (simp add: commits_Cons [of ev evs])
qed simp

lemma startLive_end_inv: "end_inv cfg codec [] startLive"
  by (simp add: end_inv_def startLive_def)

text \<open>
  C4: For every run of events, whatever live text is merged, flushed, abandoned or dropped in
  between, the committed publications on the channel are, in their order and each once, a
  prefix of those the subscription delivered, and all of them while the relay has not
  returned.  The relay has returned exactly when its end has a reason; it invalidates the
  channel, and once, exactly when the stream was lost or refused, so a consumer whose
  channel was not invalidated is missing no commit.  A committed frame carries the
  tail's own session and the encoding of its own (rewritten) body.
\<close>

theorem committed_relayed_in_order:
  "let s = runLive cfg codec evs startLive in
     prefix (relayed (lsOut s)) (commits evs)
     \<and> (lsReturned s \<or> relayed (lsOut s) = commits evs)
     \<and> (lsReturned s \<longleftrightarrow> lsEnd s \<noteq> TailEndRunning)
     \<and> lsInvalidated s = (if lsEnd s = TailEndLost \<or> lsEnd s = TailEndRefused then 1 else 0)
     \<and> list_all (frameOK cfg codec) (lsOut s)"
  using runLive_end_inv [OF startLive_end_inv, of cfg codec evs]
  unfolding Let_def end_inv_def list_all_iff append_Nil by blast

end
