(* ===== verification/StoreAdapter.thy ===== *)
theory StoreAdapter
  imports Disposition Attach Gates
begin

text \<open>
  The adapter between the Host and the session store, \<^verbatim>\<open>internal/sessionstoreadapter\<close>: it turns the Host's
  calls into the store's requests, the store's records into the Host's, and the store's errors into
  the sentinels the fence, the consumer and the gate publisher decide on.

  The store is not the repository's: it is a function from a request and a state of its own to an
  answer (\<open>exec\<close>) and a set of reads, and what is proved of it is assumed by name.  A Go error is the
  list of errors that \<^verbatim>\<open>errors.As\<close> and \<^verbatim>\<open>errors.Is\<close> visit, itself first; a nil error is no error at
  all, so a classification is a function of an error that is there.
\<close>

section \<open>Errors\<close>

datatype CatalogCode =
    CatalogErrorEpoch | CatalogErrorNotFound | CatalogErrorDeleted | CatalogErrorInvalid | CatalogErrorTooLarge
  | CatalogErrorOther string
datatype InboxCode = InboxErrorEpoch | InboxErrorOther string
datatype RegistryCode = RegistryErrorEpoch | RegistryErrorOther string
datatype JournalCode = JournalErrorLeaseHeld | JournalErrorFenced | JournalErrorLeaseLost | JournalErrorOther string
datatype HostTargetCode = HostTargetErrorGeneration | HostTargetErrorOther string

datatype ErrNode =
    CatalogError CatalogCode string
  | KeyspaceError KeyspaceCode
  | InboxError InboxCode
  | RegistryError RegistryCode
  | JournalError JournalCode
  | HostTargetError HostTargetCode
  | LeaseHeldError
  | ResidencyAcquireCleanupError
  | DispositionBindingError
  | StoreOther string
  | IsEpochSuperseded
  | IsFenceConflict
  | IsLeaseHeld
  | IsTargetGenerationSuperseded
  | IsUnpublishable
  | IsProjectionFull
  | IsEvidenceUnroutable
  | LeaseCleanupError
  | UnroutableBindingError string string string
  | NoDispositionCatalogError tenant_id session_id
  | RuntimeSessionIDError tenant_id session_id
  | RuntimeJournalProbeError tenant_id session_id string nat
  | GateOwnerUnavailableError string
  | UnmappedValueError string string
  | UnavailableMemberError string
  | UnsupportedWireVersionError nat
  | ForeignGrantError Key Key
  | ErrForeignLease
  | ErrNoGateJournals
  | ErrReplayBeforeScope

type_synonym error = "ErrNode list"

fun errorsAs :: "(ErrNode \<Rightarrow> 'a option) \<Rightarrow> error \<Rightarrow> 'a option" where
  "errorsAs pick [] = None"
| "errorsAs pick (n # ns) = (case pick n of Some x \<Rightarrow> Some x | None \<Rightarrow> errorsAs pick ns)"

definition asCatalog :: "error \<Rightarrow> (CatalogCode \<times> string) option" where
  "asCatalog = errorsAs (\<lambda>n. case n of CatalogError c f \<Rightarrow> Some (c, f) | _ \<Rightarrow> None)"

definition asKeyspace :: "error \<Rightarrow> KeyspaceCode option" where
  "asKeyspace = errorsAs (\<lambda>n. case n of KeyspaceError c \<Rightarrow> Some c | _ \<Rightarrow> None)"

definition asInbox :: "error \<Rightarrow> InboxCode option" where
  "asInbox = errorsAs (\<lambda>n. case n of InboxError c \<Rightarrow> Some c | _ \<Rightarrow> None)"

definition asRegistry :: "error \<Rightarrow> RegistryCode option" where
  "asRegistry = errorsAs (\<lambda>n. case n of RegistryError c \<Rightarrow> Some c | _ \<Rightarrow> None)"

definition asJournal :: "error \<Rightarrow> JournalCode option" where
  "asJournal = errorsAs (\<lambda>n. case n of JournalError c \<Rightarrow> Some c | _ \<Rightarrow> None)"

definition asHostTarget :: "error \<Rightarrow> HostTargetCode option" where
  "asHostTarget = errorsAs (\<lambda>n. case n of HostTargetError c \<Rightarrow> Some c | _ \<Rightarrow> None)"

definition isUnroutable :: "ErrNode \<Rightarrow> bool" where
  "isUnroutable n = (case n of UnroutableBindingError _ _ _ \<Rightarrow> True | _ \<Rightarrow> False)"

subsection \<open>Classifications\<close>

definition classifyRegistry :: "error \<Rightarrow> error" where
  "classifyRegistry err = (if asRegistry err = Some RegistryErrorEpoch then IsEpochSuperseded # err else err)"

definition classifyJournal :: "error \<Rightarrow> error" where
  "classifyJournal err =
     (case asJournal err of
        Some JournalErrorLeaseHeld \<Rightarrow> IsLeaseHeld # err
      | Some JournalErrorFenced \<Rightarrow> IsFenceConflict # err
      | Some JournalErrorLeaseLost \<Rightarrow> IsEpochSuperseded # err
      | _ \<Rightarrow> err)"

definition classifyInbox :: "error \<Rightarrow> error" where
  "classifyInbox err = (if asInbox err = Some InboxErrorEpoch then IsEpochSuperseded # err else err)"

definition classifySettlement :: "error \<Rightarrow> error" where
  "classifySettlement err =
     (if list_ex isUnroutable err then IsEvidenceUnroutable # err
      else if DispositionBindingError \<in> set err then IsEvidenceUnroutable # err
      else classifyInbox err)"

definition classifyResidency :: "error \<Rightarrow> error" where
  "classifyResidency err =
     (if ResidencyAcquireCleanupError \<in> set err then LeaseCleanupError # err
      else if LeaseHeldError \<in> set err then IsLeaseHeld # err
      else err)"

definition classifyTarget :: "error \<Rightarrow> error" where
  "classifyTarget err =
     (if asHostTarget err = Some HostTargetErrorGeneration then IsTargetGenerationSuperseded # err else err)"

definition classifyGateWrite :: "error \<Rightarrow> error" where
  "classifyGateWrite err =
     (case asCatalog err of
        None \<Rightarrow> err
      | Some (c, field) \<Rightarrow>
          if c = CatalogErrorEpoch then IsEpochSuperseded # err
          else if c = CatalogErrorDeleted \<and> field = ''gate_intent'' then IsUnpublishable # err
          else if c = CatalogErrorTooLarge \<and> field = ''open_gates'' then IsProjectionFull # err
          else err)"

definition isDispositionCatalogRefusal :: "error \<Rightarrow> bool" where
  "isDispositionCatalogRefusal err =
     (case asKeyspace err of
        Some c \<Rightarrow> c = KeyspaceBindingNotFound
      | None \<Rightarrow>
          (case asCatalog err of
             None \<Rightarrow> False
           | Some (c, _) \<Rightarrow> c \<in> {CatalogErrorNotFound, CatalogErrorDeleted, CatalogErrorInvalid}))"

definition classifyDispositionRead :: "Key \<Rightarrow> error \<Rightarrow> error" where
  "classifyDispositionRead key err =
     (if \<not> isDispositionCatalogRefusal err then err
      else NoDispositionCatalogError (TenantID key) (SessionID key) # err)"

definition isCatalogAbsent :: "error \<Rightarrow> bool" where
  "isCatalogAbsent err =
     (if asKeyspace err = Some KeyspaceBindingNotFound then True
      else
        (case asCatalog err of
           None \<Rightarrow> False
         | Some (c, _) \<Rightarrow> c = CatalogErrorNotFound \<or> c = CatalogErrorDeleted))"

section \<open>The store's vocabulary and the Host's\<close>

datatype InboxState =
    InboxStatePending | InboxStateClaimed | InboxStateApplying | InboxStateApplied | InboxStateRejected
  | InboxStateOther string

datatype StoreOutcome =
    CommandApplicationAbsent | CommandApplicationCommitted | CommandApplicationAbandoned
  | CommandApplicationUnresolved | CommandApplicationConflicted | CommandApplicationOther string

definition adaptState :: "InboxState \<Rightarrow> error + State" where
  "adaptState state =
     (case state of
        InboxStatePending \<Rightarrow> Inr StatePending
      | InboxStateClaimed \<Rightarrow> Inr StateClaimed
      | InboxStateApplying \<Rightarrow> Inr StateApplying
      | InboxStateApplied \<Rightarrow> Inr StateApplied
      | InboxStateRejected \<Rightarrow> Inr StateRejected
      | InboxStateOther s \<Rightarrow> Inl [UnmappedValueError ''sessionstore.InboxState'' s])"

definition adaptOutcome :: "StoreOutcome \<Rightarrow> error + ApplicationOutcome" where
  "adaptOutcome o' =
     (case o' of
        CommandApplicationAbsent \<Rightarrow> Inr ApplicationAbsent
      | CommandApplicationCommitted \<Rightarrow> Inr ApplicationCommitted
      | CommandApplicationAbandoned \<Rightarrow> Inr ApplicationAbandoned
      | CommandApplicationUnresolved \<Rightarrow> Inr ApplicationUnresolved
      | CommandApplicationConflicted \<Rightarrow> Inr ApplicationConflicted
      | CommandApplicationOther s \<Rightarrow> Inl [UnmappedValueError ''sessionstore.CommandApplicationOutcome'' s])"

text \<open>Core's parser of UUIDs is \<open>parse\<close>; the zero UUID is 0.\<close>

definition adaptRuntimeCommandID :: "(string \<Rightarrow> nat option) \<Rightarrow> string \<Rightarrow> error + nat" where
  "adaptRuntimeCommandID parse id' =
     (case parse id' of None \<Rightarrow> Inl [UnmappedValueError ''sessionstore.RuntimeCommandID'' id'] | Some u \<Rightarrow> Inr u)"

definition asKind :: "string \<Rightarrow> Kind" where
  "asKind s =
     (if s = ''create'' then KindCreate else if s = ''restore'' then KindRestore else if s = ''input'' then KindInput
      else if s = ''interrupt'' then KindInterrupt else if s = ''gate_response'' then KindGateResponse else Kind.KindOther s)"

subsection \<open>Records\<close>

record InboxEntry =
  ieTenantID :: tenant_id
  ieSessionID :: session_id
  ieCommandID :: string
  ieRuntimeCommandID :: string
  ieKind :: string
  ieState :: InboxState
  iePayload :: string
  iePayloadRef :: object_reference
  ieAcceptedOrder :: u64
  ieRevision :: u64
  ieApplyDeadline :: instant
  ieClaimEpoch :: u64
  ieClaimExpiresAt :: instant

record StoreApplication =
  saCommandID :: string
  saRuntimeCommandID :: string
  saOutcome :: StoreOutcome
  saPrefixEpoch :: u64
  saEffectEventID :: string
  saEffectSeq :: u64
  saSupersedingEpoch :: u64

text \<open>A disposition entry; its claim is an epoch and an expiry, its attempt an identity and two epochs.\<close>

record DispositionEntry =
  deTenantID :: tenant_id
  deSessionID :: session_id
  deCommandID :: string
  deRuntimeCommandID :: string
  deKind :: string
  dePayload :: string
  dePayloadObject :: "object_reference option"
  deState :: InboxState
  deAcceptedOrder :: u64
  deRevision :: u64
  deApplyDeadline :: instant
  deClaim :: "(u64 \<times> instant) option"
  deAttempt :: "(string \<times> u64 \<times> u64) option"

definition adaptRecord :: "(string \<Rightarrow> nat option) \<Rightarrow> InboxEntry \<Rightarrow> error + Record" where
  "adaptRecord parse e =
     (case adaptState (ieState e) of
        Inl err \<Rightarrow> Inl err
      | Inr state \<Rightarrow>
          (case adaptRuntimeCommandID parse (ieRuntimeCommandID e) of
             Inl err \<Rightarrow> Inl err
           | Inr runtime \<Rightarrow>
               Inr \<lparr> rcTenantID = ieTenantID e, rcSessionID = ieSessionID e, rcCommandID = ieCommandID e,
                     rcRuntimeCommandID = runtime, rcKind = asKind (ieKind e), rcState = state,
                     rcAcceptedOrder = ieAcceptedOrder e, rcRevision = ieRevision e,
                     rcApplyDeadline = ieApplyDeadline e, rcClaimEpoch = ieClaimEpoch e,
                     rcClaimExpiresAt = ieClaimExpiresAt e \<rparr>))"

text \<open>An absent claim or attempt leaves the zero values of the record.\<close>

definition adaptDispositionRecord :: "(string \<Rightarrow> nat option) \<Rightarrow> DispositionEntry \<Rightarrow> error + DispositionRecord" where
  "adaptDispositionRecord parse e =
     (case adaptState (deState e) of
        Inl err \<Rightarrow> Inl err
      | Inr state \<Rightarrow>
          (case adaptRuntimeCommandID parse (deRuntimeCommandID e) of
             Inl err \<Rightarrow> Inl err
           | Inr runtime \<Rightarrow>
               Inr \<lparr> drTenantID = deTenantID e, drSessionID = deSessionID e, drCommandID = deCommandID e,
                     drRuntimeCommandID = runtime, drKind = asKind (deKind e), drState = state,
                     drAcceptedOrder = deAcceptedOrder e, drRevision = deRevision e,
                     drApplyDeadline = deApplyDeadline e,
                     drClaimResidencyEpoch = (case deClaim e of Some (epoch, _) \<Rightarrow> epoch | None \<Rightarrow> 0),
                     drClaimExpiresAt = (case deClaim e of Some (_, expires) \<Rightarrow> expires | None \<Rightarrow> 0),
                     drAttemptID = (case deAttempt e of Some (a, _, _) \<Rightarrow> a | None \<Rightarrow> []),
                     drAttemptJournalEpoch = (case deAttempt e of Some (_, j, _) \<Rightarrow> j | None \<Rightarrow> 0),
                     drAttemptResidencyEpoch = (case deAttempt e of Some (_, _, r) \<Rightarrow> r | None \<Rightarrow> 0) \<rparr>))"

section \<open>Requests\<close>

text \<open>
  The writes the adapter sends, with every field they carry.  A grant of residency is the store's own
  and opaque; the entry the store answers with has a revision and a state.
\<close>

datatype StoreReq =
    ReqClaim tenant_id session_id string u64 u64 instant
  | ReqBeginApplying tenant_id session_id string u64 u64 instant
  | ReqComplete tenant_id session_id string u64 u64 instant string u64
  | ReqReject tenant_id session_id string u64 u64 ErrorDetail
  | ReqSaveCursor tenant_id session_id u64 u64
  | ReqClaimDisposition tenant_id session_id string u64 handle instant
  | ReqBeginAttempt tenant_id session_id string u64 string u64 u64 instant
  | ReqSettle tenant_id session_id string u64 u64
  | ReqRejectDisposition tenant_id session_id string u64 u64
  | ReqPutRegistration Observation
  | ReqClearRegistration tenant_id session_id u64
  | ReqPublishTarget agent_id compat_id HostPlacement host_id u64 instant string HostIsolationClass bool u64 instant
  | ReqDrainTarget agent_id compat_id HostPlacement host_id u64
  | ReqAppendPrefix handle string nat string
  | ReqOpenGate tenant_id session_id GateProjection handle
  | ReqResolveGate tenant_id session_id GateID handle

record StoreEntry =
  seRevision :: u64
  seState :: InboxState

type_synonym 'db exec = "StoreReq \<Rightarrow> 'db \<Rightarrow> (error + StoreEntry) \<times> 'db"

definition answered :: "(error \<Rightarrow> error) \<Rightarrow> (StoreEntry \<Rightarrow> error + 'a) \<Rightarrow> (error + StoreEntry) \<times> 'db \<Rightarrow> (error + 'a) \<times> 'db" where
  "answered cls take' r = (case r of (Inl e, db) \<Rightarrow> (Inl (cls e), db) | (Inr entry, db) \<Rightarrow> (take' entry, db))"

section \<open>The inbox\<close>

definition LoadCommand :: "(string \<Rightarrow> nat option) \<Rightarrow> error + InboxEntry \<Rightarrow> error + Record" where
  "LoadCommand parse got = (case got of Inl e \<Rightarrow> Inl e | Inr entry \<Rightarrow> adaptRecord parse entry)"

definition LoadPayload :: "error + InboxEntry \<Rightarrow> error + Payload" where
  "LoadPayload got = (case got of Inl e \<Rightarrow> Inl e | Inr entry \<Rightarrow> Inr \<lparr> plBody = iePayload entry, plRef = iePayloadRef entry \<rparr>)"

text \<open>A runtime command the store does not name stays the zero UUID.\<close>

definition FindApplication :: "(string \<Rightarrow> nat option) \<Rightarrow> error + StoreApplication \<Rightarrow> error + Application" where
  "FindApplication parse got =
     (case got of
        Inl e \<Rightarrow> Inl e
      | Inr found \<Rightarrow>
          (case adaptOutcome (saOutcome found) of
             Inl e \<Rightarrow> Inl e
           | Inr o' \<Rightarrow>
               (case (if saRuntimeCommandID found = [] then Inr 0 else adaptRuntimeCommandID parse (saRuntimeCommandID found)) of
                  Inl e \<Rightarrow> Inl e
                | Inr runtime \<Rightarrow>
                    Inr \<lparr> apCommandID = saCommandID found, apRuntimeCommandID = runtime, apOutcome = o',
                          apPrefixEpoch = saPrefixEpoch found, apEffectEventID = saEffectEventID found,
                          apEffectSeq = saEffectSeq found, apSupersedingEpoch = saSupersedingEpoch found \<rparr>)))"

definition ClaimCommand :: "'db exec \<Rightarrow> Key \<Rightarrow> string \<Rightarrow> Claim \<Rightarrow> 'db \<Rightarrow> (error + u64) \<times> 'db" where
  "ClaimCommand exec key command claim db =
     answered classifyInbox (\<lambda>entry. Inr (seRevision entry))
       (exec (ReqClaim (TenantID key) (SessionID key) command (clExpectedRevision claim) (clEpoch claim) (clExpiresAt claim)) db)"

definition BeginApplying :: "'db exec \<Rightarrow> Key \<Rightarrow> string \<Rightarrow> Applying \<Rightarrow> 'db \<Rightarrow> (error + u64) \<times> 'db" where
  "BeginApplying exec key command applying db =
     answered classifyInbox (\<lambda>entry. Inr (seRevision entry))
       (exec (ReqBeginApplying (TenantID key) (SessionID key) command (alExpectedRevision applying) (alEpoch applying) (alExpiresAt applying)) db)"

definition CompleteCommand :: "'db exec \<Rightarrow> Key \<Rightarrow> string \<Rightarrow> Completion \<Rightarrow> 'db \<Rightarrow> (error + unit) \<times> 'db" where
  "CompleteCommand exec key command completion db =
     answered classifyInbox (\<lambda>_. Inr ())
       (exec (ReqComplete (TenantID key) (SessionID key) command (cpExpectedRevision completion) (cpEpoch completion)
          (efCompletedAt (cpEffect completion)) (efEventID (cpEffect completion)) (efJournalSeq (cpEffect completion))) db)"

definition RejectCommand :: "'db exec \<Rightarrow> Key \<Rightarrow> string \<Rightarrow> Rejection \<Rightarrow> 'db \<Rightarrow> (error + unit) \<times> 'db" where
  "RejectCommand exec key command rejection db =
     answered classifyInbox (\<lambda>_. Inr ())
       (exec (ReqReject (TenantID key) (SessionID key) command (rjExpectedRevision rejection) (rjEpoch rejection) (rjDetail rejection)) db)"

section \<open>The ordered listing and the cursor\<close>

fun adaptCommands :: "(string \<Rightarrow> nat option) \<Rightarrow> DispositionEntry list \<Rightarrow> error + Command list" where
  "adaptCommands parse [] = Inr []"
| "adaptCommands parse (e # es) =
     (case adaptState (deState e) of
        Inl err \<Rightarrow> Inl err
      | Inr state \<Rightarrow>
          (case adaptCommands parse es of
             Inl err \<Rightarrow> Inl err
           | Inr rest \<Rightarrow>
               Inr (\<lparr> cmTenantID = deTenantID e, cmSessionID = deSessionID e, cmCommandID = deCommandID e,
                     cmAcceptedOrder = deAcceptedOrder e, cmState = state,
                     cmRuntimeCommandID = (case parse (deRuntimeCommandID e) of None \<Rightarrow> 0 | Some u \<Rightarrow> u) \<rparr> # rest)))"

definition ListOrdered ::
  "(string \<Rightarrow> nat option) \<Rightarrow> (u64 \<Rightarrow> nat \<Rightarrow> error + DispositionEntry list) \<Rightarrow> Key \<Rightarrow> u64 \<Rightarrow> nat \<Rightarrow> error + Command list" where
  "ListOrdered parse page key afterOrder limit =
     (case page afterOrder limit of Inl e \<Rightarrow> Inl (classifyDispositionRead key e) | Inr es \<Rightarrow> adaptCommands parse es)"

definition LoadCursor :: "Key \<Rightarrow> error + u64 \<Rightarrow> error + u64" where
  "LoadCursor key got = (case got of Inl e \<Rightarrow> Inl (classifyDispositionRead key e) | Inr order \<Rightarrow> Inr order)"

definition SaveCursor :: "'db exec \<Rightarrow> Key \<Rightarrow> u64 \<Rightarrow> u64 \<Rightarrow> 'db \<Rightarrow> (error + unit) \<times> 'db" where
  "SaveCursor exec key epoch order db =
     answered (\<lambda>e. if isDispositionCatalogRefusal e then NoDispositionCatalogError (TenantID key) (SessionID key) # e else classifyInbox e)
       (\<lambda>_. Inr ()) (exec (ReqSaveCursor (TenantID key) (SessionID key) epoch order) db)"

section \<open>Dispositions\<close>

definition LoadDispositionCommand :: "(string \<Rightarrow> nat option) \<Rightarrow> error + DispositionEntry \<Rightarrow> error + DispositionRecord" where
  "LoadDispositionCommand parse got =
     (case got of Inl e \<Rightarrow> Inl (classifyInbox e) | Inr entry \<Rightarrow> adaptDispositionRecord parse entry)"

definition LoadDispositionPayload :: "error + DispositionEntry \<Rightarrow> error + Payload" where
  "LoadDispositionPayload got =
     (case got of
        Inl e \<Rightarrow> Inl (classifyInbox e)
      | Inr entry \<Rightarrow>
          Inr \<lparr> plBody = dePayload entry, plRef = (case dePayloadObject entry of Some ref \<Rightarrow> ref | None \<Rightarrow> []) \<rparr>)"

text \<open>
  A lease handed in by the Host: one of this adapter's, nil or not, with or without a grant, or
  another implementation's.
\<close>

datatype LeaseHandle = OwnLease "handle option option" | OtherLease

definition leaseGrant :: "LeaseHandle \<Rightarrow> handle option" where
  "leaseGrant lease = (case lease of OwnLease (Some grant) \<Rightarrow> grant | _ \<Rightarrow> None)"

definition DispositionWriterFor :: "LeaseHandle \<Rightarrow> error + handle" where
  "DispositionWriterFor lease = (case leaseGrant lease of None \<Rightarrow> Inl [ErrForeignLease] | Some grant \<Rightarrow> Inr grant)"

definition ClaimDisposition :: "'db exec \<Rightarrow> handle \<Rightarrow> Key \<Rightarrow> string \<Rightarrow> DispositionClaim \<Rightarrow> 'db \<Rightarrow> (error + u64) \<times> 'db" where
  "ClaimDisposition exec grant key command claim db =
     answered classifyInbox (\<lambda>entry. Inr (seRevision entry))
       (exec (ReqClaimDisposition (TenantID key) (SessionID key) command (dcExpectedRevision claim) grant (dcExpiresAt claim)) db)"

definition BeginAttempt :: "'db exec \<Rightarrow> Key \<Rightarrow> string \<Rightarrow> DispositionAttempt \<Rightarrow> 'db \<Rightarrow> (error + u64) \<times> 'db" where
  "BeginAttempt exec key command attempt db =
     answered classifyInbox (\<lambda>entry. Inr (seRevision entry))
       (exec (ReqBeginAttempt (TenantID key) (SessionID key) command (dtExpectedRevision attempt) (dtAttemptID attempt)
          (dtJournalEpoch attempt) (dtResidencyEpoch attempt) (dtStartedAt attempt)) db)"

definition SettleDisposition :: "'db exec \<Rightarrow> Key \<Rightarrow> string \<Rightarrow> DispositionSettlement \<Rightarrow> 'db \<Rightarrow> (error + State) \<times> 'db" where
  "SettleDisposition exec key command settlement db =
     answered classifySettlement (\<lambda>entry. adaptState (seState entry))
       (exec (ReqSettle (TenantID key) (SessionID key) command (dsExpectedRevision settlement) (dsResidencyEpoch settlement)) db)"

definition RejectDisposition :: "'db exec \<Rightarrow> Key \<Rightarrow> string \<Rightarrow> DispositionRejection \<Rightarrow> 'db \<Rightarrow> (error + unit) \<times> 'db" where
  "RejectDisposition exec key command rejection db =
     answered classifyInbox (\<lambda>_. Inr ())
       (exec (ReqRejectDisposition (TenantID key) (SessionID key) command (dnExpectedRevision rejection) (dnResidencyEpoch rejection)) db)"

section \<open>Locations and targets\<close>

text \<open>The wire version an observation or a report carries, and the current one.\<close>

definition StorePublishResidency :: "nat \<Rightarrow> 'db exec \<Rightarrow> nat \<Rightarrow> Observation \<Rightarrow> 'db \<Rightarrow> (error + unit) \<times> 'db" where
  "StorePublishResidency wire exec version ob db =
     (if version \<noteq> wire then (Inl [UnsupportedWireVersionError version], db)
      else answered classifyRegistry (\<lambda>_. Inr ()) (exec (ReqPutRegistration ob) db))"

definition StoreTombstoneResidency :: "'db exec \<Rightarrow> Key \<Rightarrow> u64 \<Rightarrow> 'db \<Rightarrow> (error + unit) \<times> 'db" where
  "StoreTombstoneResidency exec key epoch db =
     answered classifyRegistry (\<lambda>_. Inr ()) (exec (ReqClearRegistration (TenantID key) (SessionID key) epoch) db)"

definition PublishTarget :: "nat \<Rightarrow> 'db exec \<Rightarrow> nat \<Rightarrow> HostLinkCapacityReport \<Rightarrow> 'db \<Rightarrow> (error + unit) \<times> 'db" where
  "PublishTarget wire exec version r db =
     (if version \<noteq> wire then (Inl [UnsupportedWireVersionError version], db)
      else answered classifyTarget (\<lambda>_. Inr ())
        (exec (ReqPublishTarget (crAgentID r) (crCompatibilityID r) (crPlacement r) (crHostID r) (crHostGeneration r)
           (crObservedAt r) (crInternalEndpoint r) (crIsolationClass r) (crAccepting r) (crAvailableCapacity r) (crExpiresAt r)) db))"

definition WithdrawTarget :: "nat \<Rightarrow> 'db exec \<Rightarrow> nat \<Rightarrow> HostLinkCapacityReport \<Rightarrow> 'db \<Rightarrow> (error + unit) \<times> 'db" where
  "WithdrawTarget wire exec version r db =
     (if version \<noteq> wire then (Inl [UnsupportedWireVersionError version], db)
      else answered classifyTarget (\<lambda>_. Inr ())
        (exec (ReqDrainTarget (crAgentID r) (crCompatibilityID r) (crPlacement r) (crHostID r) (crHostGeneration r)) db))"

section \<open>Leases and durable state\<close>

definition AcquireSessionLease :: "error + handle \<Rightarrow> error + LeaseHandle" where
  "AcquireSessionLease got = (case got of Inl e \<Rightarrow> Inl (classifyResidency e) | Inr grant \<Rightarrow> Inr (OwnLease (Some (Some grant))))"

text \<open>The catalog; a binding that is absent is the zero binding.  The gates it projects carry the event that opened them.\<close>

datatype ProtocolMode = ProtocolModeDisposition | ProtocolModeOther string

record SessionBinding =
  sbProtocolMode :: ProtocolMode
  sbRuntimeSessionID :: string
  sbStorageBindingID :: string

record GateRow = GateProjection +
  gpOpenedEventID :: string

record CatalogRecord =
  ctTenantID :: tenant_id
  ctSessionID :: session_id
  ctAgentID :: agent_id
  ctRuntimeCompatibilityID :: compat_id
  ctCheckpointSeq :: u64
  ctLeaseEpoch :: u64
  ctBinding :: "SessionBinding option"
  ctOpenGates :: "GateRow list"

text \<open>What the deployment gave the adapter, each of it optional.\<close>

record AdapterOptions =
  aoNamespace :: "(tenant_id \<Rightarrow> session_id \<Rightarrow> string) option"
  aoRigSessionIDs :: "(tenant_id \<Rightarrow> session_id \<Rightarrow> error + nat) option"
  aoJournals :: "(tenant_id \<Rightarrow> SessionBinding \<Rightarrow> nat \<Rightarrow> error + RuntimeJournal) option"

text \<open>A binding's runtime session is a UUID other than the zero one.\<close>

definition runtimeSession :: "(string \<Rightarrow> nat option) \<Rightarrow> Key \<Rightarrow> SessionBinding \<Rightarrow> error + nat" where
  "runtimeSession parse key b =
     (case parse (sbRuntimeSessionID b) of
        None \<Rightarrow> Inl [RuntimeSessionIDError (TenantID key) (SessionID key)]
      | Some u \<Rightarrow> if u = 0 then Inl [RuntimeSessionIDError (TenantID key) (SessionID key)] else Inr u)"

definition LoadSessionState ::
  "AdapterOptions \<Rightarrow> (string \<Rightarrow> nat option) \<Rightarrow> Key \<Rightarrow> error + CatalogRecord \<Rightarrow> error + SessionState" where
  "LoadSessionState opts parse key got =
     (case aoNamespace opts of
        None \<Rightarrow> Inl [UnavailableMemberError ''Namespace'']
      | Some layout \<Rightarrow>
          (let none = \<lparr> ssExists = False, ssNamespace = layout (TenantID key) (SessionID key), ssCompatibilityID = [],
                 ssRigSessionID = 0, ssRuntimeJournal = JournalUnknown, ssHasCheckpoint = False \<rparr> in
           case got of
             Inl e \<Rightarrow> if isCatalogAbsent e then Inr none else Inl e
           | Inr c \<Rightarrow>
               (let found = none\<lparr> ssExists := True, ssCompatibilityID := ctRuntimeCompatibilityID c,
                      ssHasCheckpoint := ctCheckpointSeq c \<noteq> 0 \<rparr> in
                case ctBinding c of
                  Some b \<Rightarrow>
                    (case runtimeSession parse key b of
                       Inl e \<Rightarrow> Inl e
                     | Inr u \<Rightarrow>
                         (case aoJournals opts of
                            None \<Rightarrow> Inr (found\<lparr> ssRigSessionID := u \<rparr>)
                          | Some journals \<Rightarrow>
                              (case journals (TenantID key) b u of
                                 Inl e \<Rightarrow> Inl (RuntimeJournalProbeError (TenantID key) (SessionID key) (sbStorageBindingID b) u # e)
                               | Inr j \<Rightarrow> Inr (found\<lparr> ssRigSessionID := u, ssRuntimeJournal := j \<rparr>))))
                | None \<Rightarrow>
                    (case aoRigSessionIDs opts of
                       None \<Rightarrow> Inl [UnavailableMemberError ''RigSessionID'']
                     | Some ids \<Rightarrow>
                         (case ids (TenantID key) (SessionID key) of
                            Inl e \<Rightarrow> Inl e
                          | Inr u \<Rightarrow> Inr (found\<lparr> ssRigSessionID := u \<rparr>))))))"

section \<open>The journal grant\<close>

text \<open>The channel of losses is closed at most once: closing it twice would panic, so the closes are counted.\<close>

record Grant =
  gnWriter :: handle
  gnTenant :: tenant_id
  gnSession :: session_id
  gnDone :: bool
  gnCloses :: nat

definition OpenSession :: "Key \<Rightarrow> error + handle \<Rightarrow> error + Grant" where
  "OpenSession key got =
     (case got of
        Inl e \<Rightarrow> Inl (classifyJournal e)
      | Inr w \<Rightarrow> Inr \<lparr> gnWriter = w, gnTenant = TenantID key, gnSession = SessionID key, gnDone = False, gnCloses = 0 \<rparr>)"

definition endGrant :: "Grant \<Rightarrow> Grant" where
  "endGrant g = (if gnDone g then g else g\<lparr> gnDone := True, gnCloses := gnCloses g + 1 \<rparr>)"

definition ReleaseGrant :: "error option \<Rightarrow> Grant \<Rightarrow> error option \<times> Grant" where
  "ReleaseGrant closed g = (map_option classifyJournal closed, endGrant g)"

definition AppendApplicationPrefix ::
  "(Kind \<Rightarrow> string) \<Rightarrow> 'db exec \<Rightarrow> Key \<Rightarrow> Prefix \<Rightarrow> Grant \<times> 'db \<Rightarrow> error option \<times> Grant \<times> 'db" where
  "AppendApplicationPrefix kindText exec key px gd =
     (case gd of (g, db) \<Rightarrow>
        if TenantID key \<noteq> gnTenant g \<or> SessionID key \<noteq> gnSession g
        then (Some [ForeignGrantError (Key (gnTenant g) (gnSession g)) key], g, db)
        else
          (case exec (ReqAppendPrefix (gnWriter g) (pxCommandID px) (pxRuntimeCommandID px) (kindText (pxKind px))) db of
             (Inr _, db') \<Rightarrow> (None, g, db')
           | (Inl e, db') \<Rightarrow>
               (let err = classifyJournal e in
                (Some err, (if IsEpochSuperseded \<in> set err \<or> IsFenceConflict \<in> set err then endGrant g else g), db'))))"

section \<open>Evidence\<close>

text \<open>
  A reader of settlement evidence is what it answers, and what else it is: a runtime's event replayer,
  a runtime journal.  A table of readers is visited in any order when it is checked.
\<close>

datatype TableProblem = TableEmpty | NoBinding | NilReader string | BadTenant string

fun checkTable :: "(('k \<times> 'r option) \<Rightarrow> TableProblem option) \<Rightarrow> ('k \<times> 'r option) list \<Rightarrow> TableProblem option" where
  "checkTable check [] = None"
| "checkTable check (kr # rest) = (case check kr of Some p \<Rightarrow> Some p | None \<Rightarrow> checkTable check rest)"

definition presentReaders :: "('k \<times> 'r option) list \<Rightarrow> 'k \<rightharpoonup> 'r" where
  "presentReaders readers = (\<lambda>k. Option.bind (map_of readers k) id)"

definition NewEvidenceRouter :: "(string \<times> 'r option) list \<Rightarrow> TableProblem + (string \<rightharpoonup> 'r)" where
  "NewEvidenceRouter readers =
     (if readers = [] then Inl TableEmpty
      else
        (case checkTable (\<lambda>(binding, reader). if binding = [] then Some NoBinding
             else if reader = None then Some (NilReader binding) else None) readers of
           Some p \<Rightarrow> Inl p
         | None \<Rightarrow> Inr (presentReaders readers)))"

definition ReadDispositionEvidence :: "(string \<rightharpoonup> 'q \<Rightarrow> error + 'ev) \<Rightarrow> string \<Rightarrow> string \<Rightarrow> 'q \<Rightarrow> error + 'ev" where
  "ReadDispositionEvidence router binding command req =
     (case router binding of
        None \<Rightarrow> Inl [UnroutableBindingError [] binding command]
      | Some reader \<Rightarrow> reader req)"

definition NewTenantEvidenceRouter ::
  "(tenant_id \<Rightarrow> bool) \<Rightarrow> ((tenant_id \<times> string) \<times> 'r option) list \<Rightarrow> TableProblem + (tenant_id \<times> string \<rightharpoonup> 'r)" where
  "NewTenantEvidenceRouter validTenant readers =
     (if readers = [] then Inl TableEmpty
      else
        (case checkTable (\<lambda>((tenant, binding), reader). if \<not> validTenant tenant then Some (BadTenant binding)
             else if binding = [] then Some NoBinding
             else if reader = None then Some (NilReader binding) else None) readers of
           Some p \<Rightarrow> Inl p
         | None \<Rightarrow> Inr (presentReaders readers)))"

definition ReadTenantEvidence ::
  "(tenant_id \<times> string \<rightharpoonup> 'q \<Rightarrow> error + 'ev) \<Rightarrow> tenant_id \<Rightarrow> string \<Rightarrow> string \<Rightarrow> 'q \<Rightarrow> error + 'ev" where
  "ReadTenantEvidence router tenant binding command req =
     (case router (tenant, binding) of
        None \<Rightarrow> Inl [UnroutableBindingError tenant binding command]
      | Some reader \<Rightarrow> reader req)"

text \<open>
  The probe of a runtime's journal: its catalog's metadata, then its first event.  \<open>pbMeta\<close> is None for
  a failed read; the replayer and its cursor may fail to open; the first read finds an event, the
  end, or fails.
\<close>

datatype FirstEvent = FirstFound | FirstEOF | FirstFailed error

record JournalProbe =
  pbMeta :: "bool option"
  pbReplayer :: "error option"
  pbCursor :: "error option"
  pbFirst :: FirstEvent

text \<open>A reader: whether it is a runtime's store, and then what a probe of it finds.\<close>

definition probeRuntimeJournal ::
  "(tenant_id \<times> string \<rightharpoonup> (nat \<Rightarrow> JournalProbe) option) \<Rightarrow> tenant_id \<Rightarrow> SessionBinding \<Rightarrow> nat \<Rightarrow> error + RuntimeJournal" where
  "probeRuntimeJournal router tenant b u =
     (case router (tenant, sbStorageBindingID b) of
        None \<Rightarrow> Inr JournalUnknown
      | Some None \<Rightarrow> Inr JournalUnknown
      | Some (Some probe) \<Rightarrow>
          if pbMeta (probe u) = Some True then Inr JournalPresent
          else
            (case pbReplayer (probe u) of
               Some e \<Rightarrow> Inl e
             | None \<Rightarrow>
                 (case pbCursor (probe u) of
                    Some e \<Rightarrow> Inl e
                  | None \<Rightarrow>
                      (case pbFirst (probe u) of
                         FirstFound \<Rightarrow> Inr JournalPresent
                       | FirstEOF \<Rightarrow> Inr JournalAbsent
                       | FirstFailed e \<Rightarrow> Inl e))))"

section \<open>Gates\<close>

definition zeroGate :: Applier.Gate where
  "zeroGate = \<lparr> gtGateID = [], gtOpen = False, gtOwnerHostID = [], gtOwnerEpoch = 0, gtOpenedEventID = [], gtOpenedJournalSeq = 0 \<rparr>"

definition dispositionBound :: "CatalogRecord \<Rightarrow> bool" where
  "dispositionBound c = (case ctBinding c of Some b \<Rightarrow> sbProtocolMode b = ProtocolModeDisposition | None \<Rightarrow> False)"

definition LoadGate :: "GateID \<Rightarrow> error + CatalogRecord \<Rightarrow> error + (Applier.Gate \<times> bool)" where
  "LoadGate gate got =
     (case got of
        Inl e \<Rightarrow> Inl e
      | Inr c \<Rightarrow>
          (case find (\<lambda>p. gpGateID p = gate) (ctOpenGates c) of
             Some p \<Rightarrow>
               if \<not> dispositionBound c then Inl [GateOwnerUnavailableError gate]
               else Inr (zeroGate\<lparr> gtGateID := gpGateID p, gtOpen := True, gtOwnerEpoch := ctLeaseEpoch c,
                           gtOpenedEventID := gpOpenedEventID p, gtOpenedJournalSeq := gpSeq p \<rparr>, True)
           | None \<Rightarrow>
               if dispositionBound c then Inr (zeroGate\<lparr> gtOwnerEpoch := ctLeaseEpoch c \<rparr>, False)
               else Inr (zeroGate, False)))"

text \<open>A session's gates, under the grant of a lease of this adapter; \<open>gjPresent\<close> is what routes to a runtime's events.\<close>

definition GateSessionFor :: "bool \<Rightarrow> LeaseHandle \<Rightarrow> error + handle" where
  "GateSessionFor gjPresent lease =
     (case leaseGrant lease of
        None \<Rightarrow> Inl [ErrForeignLease]
      | Some grant \<Rightarrow> if \<not> gjPresent then Inl [ErrNoGateJournals] else Inr grant)"

definition GateJournal :: "(tenant_id \<times> string \<rightharpoonup> 'r option) \<Rightarrow> tenant_id \<Rightarrow> string \<Rightarrow> 'r option" where
  "GateJournal router tenant binding = (case router (tenant, binding) of None \<Rightarrow> None | Some replayers \<Rightarrow> replayers)"

definition GateScope ::
  "(string \<Rightarrow> nat option) \<Rightarrow> (tenant_id \<Rightarrow> string \<Rightarrow> 'r option) \<Rightarrow> Key \<Rightarrow> error + CatalogRecord \<Rightarrow> error + (Scope \<times> nat \<times> 'r)" where
  "GateScope parse journals key got =
     (case got of
        Inl e \<Rightarrow> Inl e
      | Inr c \<Rightarrow>
          (let b = (case ctBinding c of Some b \<Rightarrow> b | None \<Rightarrow> \<lparr> sbProtocolMode = ProtocolModeOther [], sbRuntimeSessionID = [], sbStorageBindingID = [] \<rparr>) in
           case runtimeSession parse key b of
             Inl e \<Rightarrow> Inl e
           | Inr u \<Rightarrow>
               (case journals (ctTenantID c) (sbStorageBindingID b) of
                  None \<Rightarrow> Inl [UnroutableBindingError (ctTenantID c) (sbStorageBindingID b) []]
                | Some r \<Rightarrow>
                    Inr (\<lparr> scTenantID = ctTenantID c, scSessionID = ctSessionID c, scAgentID = ctAgentID c, scRuntimeSessionID = u \<rparr>, u, r))))"

definition GateProjected :: "error + CatalogRecord \<Rightarrow> error + GateProjection list" where
  "GateProjected got = (case got of Inl e \<Rightarrow> Inl e | Inr c \<Rightarrow> Inr (map GateProjection.truncate (ctOpenGates c)))"

definition OpenGate :: "'db exec \<Rightarrow> handle \<Rightarrow> Key \<Rightarrow> GateProjection \<Rightarrow> 'db \<Rightarrow> (error + unit) \<times> 'db" where
  "OpenGate exec grant key p db =
     answered classifyGateWrite (\<lambda>_. Inr ()) (exec (ReqOpenGate (TenantID key) (SessionID key) p grant) db)"

definition ResolveGate :: "'db exec \<Rightarrow> handle \<Rightarrow> Key \<Rightarrow> GateID \<Rightarrow> 'db \<Rightarrow> (error + unit) \<times> 'db" where
  "ResolveGate exec grant key gate db =
     answered classifyGateWrite (\<lambda>_. Inr ()) (exec (ReqResolveGate (TenantID key) (SessionID key) gate grant) db)"

text \<open>The replay: what a replayer yields is its events and the error they end with, none at the end of the journal.\<close>

fun replayLoop :: "('ev \<times> u64 \<Rightarrow> 's \<Rightarrow> error option \<times> 's) \<Rightarrow> ('ev \<times> u64) list \<Rightarrow> error option \<Rightarrow> 's \<Rightarrow> error option \<times> 's" where
  "replayLoop visit' [] ends s = (ends, s)"
| "replayLoop visit' (e # es) ends s =
     (case visit' e s of (Some err, s') \<Rightarrow> (Some err, s') | (None, s') \<Rightarrow> replayLoop visit' es ends s')"

definition Replay ::
  "(u64 \<Rightarrow> error + (('ev \<times> u64) list \<times> error option)) option \<Rightarrow> u64 \<Rightarrow> ('ev \<times> u64 \<Rightarrow> 's \<Rightarrow> error option \<times> 's) \<Rightarrow> 's \<Rightarrow> error option \<times> 's" where
  "Replay replay from visit' s =
     (case replay of
        None \<Rightarrow> (Some [ErrReplayBeforeScope], s)
      | Some replayer \<Rightarrow>
          (case replayer from of Inl e \<Rightarrow> (Some e, s) | Inr (es, ends) \<Rightarrow> replayLoop visit' es ends s))"

section \<open>Writes through the fence\<close>

text \<open>What the fence sees of an error.\<close>

definition residencyErr :: "error \<Rightarrow> Err" where
  "residencyErr e =
     (if IsEpochSuperseded \<in> set e then ErrEpochSuperseded
      else if IsFenceConflict \<in> set e then ErrFenceConflict
      else ErrOther ''store'')"

text \<open>The writes a residency makes under its fence, and the request each one sends, if any.\<close>

datatype AdapterWrite =
    WClaim string Claim | WBegin string Applying | WComplete string Completion | WReject string Rejection
  | WCursor u64 u64
  | WClaimDisposition handle string DispositionClaim | WAttempt string DispositionAttempt
  | WSettle string DispositionSettlement | WRejectDisposition string DispositionRejection
  | WPublish nat nat Observation | WTombstone u64
  | WPrefix Key Prefix

definition plainWrite :: "(error + 'a) \<times> 'db \<Rightarrow> 'g \<Rightarrow> Err option \<times> 'g \<times> 'db" where
  "plainWrite r g = (case r of (Inl e, db) \<Rightarrow> (Some (residencyErr e), g, db) | (Inr _, db) \<Rightarrow> (None, g, db))"

definition runWrite :: "(Kind \<Rightarrow> string) \<Rightarrow> 'db exec \<Rightarrow> Key \<Rightarrow> AdapterWrite \<Rightarrow> Grant \<times> 'db \<Rightarrow> Err option \<times> Grant \<times> 'db" where
  "runWrite kindText exec key w gd =
     (case gd of (g, db) \<Rightarrow>
        (case w of
           WClaim c claim \<Rightarrow> plainWrite (ClaimCommand exec key c claim db) g
         | WBegin c applying \<Rightarrow> plainWrite (BeginApplying exec key c applying db) g
         | WComplete c completion \<Rightarrow> plainWrite (CompleteCommand exec key c completion db) g
         | WReject c rejection \<Rightarrow> plainWrite (RejectCommand exec key c rejection db) g
         | WCursor epoch order \<Rightarrow> plainWrite (SaveCursor exec key epoch order db) g
         | WClaimDisposition grant c claim \<Rightarrow> plainWrite (ClaimDisposition exec grant key c claim db) g
         | WAttempt c attempt \<Rightarrow> plainWrite (BeginAttempt exec key c attempt db) g
         | WSettle c settlement \<Rightarrow> plainWrite (SettleDisposition exec key c settlement db) g
         | WRejectDisposition c rejection \<Rightarrow> plainWrite (RejectDisposition exec key c rejection db) g
         | WPublish current' version ob \<Rightarrow> plainWrite (StorePublishResidency current' exec version ob db) g
         | WTombstone epoch \<Rightarrow> plainWrite (StoreTombstoneResidency exec key epoch db) g
         | WPrefix key' px \<Rightarrow>
             (case AppendApplicationPrefix kindText exec key' px (g, db) of (r, gd') \<Rightarrow> (map_option residencyErr r, gd'))))"

definition requestOf :: "(Kind \<Rightarrow> string) \<Rightarrow> Key \<Rightarrow> Grant \<Rightarrow> AdapterWrite \<Rightarrow> StoreReq list" where
  "requestOf kindText key g w =
     (case w of
        WClaim c cl \<Rightarrow> [ReqClaim (TenantID key) (SessionID key) c (clExpectedRevision cl) (clEpoch cl) (clExpiresAt cl)]
      | WBegin c al \<Rightarrow> [ReqBeginApplying (TenantID key) (SessionID key) c (alExpectedRevision al) (alEpoch al) (alExpiresAt al)]
      | WComplete c cp \<Rightarrow> [ReqComplete (TenantID key) (SessionID key) c (cpExpectedRevision cp) (cpEpoch cp)
          (efCompletedAt (cpEffect cp)) (efEventID (cpEffect cp)) (efJournalSeq (cpEffect cp))]
      | WReject c rj \<Rightarrow> [ReqReject (TenantID key) (SessionID key) c (rjExpectedRevision rj) (rjEpoch rj) (rjDetail rj)]
      | WCursor epoch order \<Rightarrow> [ReqSaveCursor (TenantID key) (SessionID key) epoch order]
      | WClaimDisposition grant c cl \<Rightarrow> [ReqClaimDisposition (TenantID key) (SessionID key) c (dcExpectedRevision cl) grant (dcExpiresAt cl)]
      | WAttempt c dt \<Rightarrow> [ReqBeginAttempt (TenantID key) (SessionID key) c (dtExpectedRevision dt) (dtAttemptID dt)
          (dtJournalEpoch dt) (dtResidencyEpoch dt) (dtStartedAt dt)]
      | WSettle c ds \<Rightarrow> [ReqSettle (TenantID key) (SessionID key) c (dsExpectedRevision ds) (dsResidencyEpoch ds)]
      | WRejectDisposition c dn \<Rightarrow> [ReqRejectDisposition (TenantID key) (SessionID key) c (dnExpectedRevision dn) (dnResidencyEpoch dn)]
      | WPublish current' version ob \<Rightarrow> if version = current' then [ReqPutRegistration ob] else []
      | WTombstone epoch \<Rightarrow> [ReqClearRegistration (TenantID key) (SessionID key) epoch]
      | WPrefix key' px \<Rightarrow>
          if key' = Key (gnTenant g) (gnSession g)
          then [ReqAppendPrefix (gnWriter g) (pxCommandID px) (pxRuntimeCommandID px) (kindText (pxKind px))] else [])"

text \<open>The store with a log of what it was asked and what it answered.\<close>

definition logged :: "'db exec \<Rightarrow> ('db \<times> (StoreReq \<times> (error + StoreEntry)) list) exec" where
  "logged exec req dl = (case dl of (db, log) \<Rightarrow> (case exec req db of (r, db') \<Rightarrow> (r, db', log @ [(req, r)])))"

subsection \<open>What the store answers\<close>

text \<open>
  The errors of the store: never one of the Host's sentinels, one code at most, and that of the part
  of the store the request went to.  A stale owner is told so by one of four codes.
\<close>

definition hostNode :: "ErrNode \<Rightarrow> bool" where
  "hostNode n \<longleftrightarrow>
     n \<in> {IsEpochSuperseded, IsFenceConflict, IsLeaseHeld, IsTargetGenerationSuperseded, IsUnpublishable, IsProjectionFull, IsEvidenceUnroutable}"

definition coded :: "ErrNode \<Rightarrow> bool" where
  "coded n =
     (case n of CatalogError _ _ \<Rightarrow> True | KeyspaceError _ \<Rightarrow> True | InboxError _ \<Rightarrow> True | RegistryError _ \<Rightarrow> True
      | JournalError _ \<Rightarrow> True | DispositionBindingError \<Rightarrow> True | UnroutableBindingError _ _ _ \<Rightarrow> True | _ \<Rightarrow> False)"

definition partOf :: "StoreReq \<Rightarrow> ErrNode \<Rightarrow> bool" where
  "partOf req n =
     (case n of
        InboxError _ \<Rightarrow> (case req of ReqPutRegistration _ \<Rightarrow> False | ReqClearRegistration _ _ _ \<Rightarrow> False | ReqAppendPrefix _ _ _ _ \<Rightarrow> False | _ \<Rightarrow> True)
      | RegistryError _ \<Rightarrow> (case req of ReqPutRegistration _ \<Rightarrow> True | ReqClearRegistration _ _ _ \<Rightarrow> True | _ \<Rightarrow> False)
      | JournalError _ \<Rightarrow> (case req of ReqAppendPrefix _ _ _ _ \<Rightarrow> True | _ \<Rightarrow> False)
      | _ \<Rightarrow> True)"

definition storeError :: "StoreReq \<Rightarrow> error \<Rightarrow> bool" where
  "storeError req e \<longleftrightarrow> list_all (\<lambda>n. \<not> hostNode n \<and> partOf req n) e \<and> length (filter coded e) \<le> 1"

definition staleNode :: "ErrNode \<Rightarrow> bool" where
  "staleNode n \<longleftrightarrow>
     n \<in> {InboxError InboxErrorEpoch, RegistryError RegistryErrorEpoch, JournalError JournalErrorFenced, JournalError JournalErrorLeaseLost}"

definition staleAnswer :: "error + StoreEntry \<Rightarrow> bool" where
  "staleAnswer r = (case r of Inl e \<Rightarrow> list_ex staleNode e | Inr _ \<Rightarrow> False)"

text \<open>
  The store tells a writer that it is stale: its answer is an error whose one code is such a code, of
  the part of the store the request went to.
\<close>

definition staleTold :: "StoreReq \<Rightarrow> error + StoreEntry \<Rightarrow> bool" where
  "staleTold req r =
     (case r of Inl e \<Rightarrow> (case filter coded e of [n] \<Rightarrow> staleNode n \<and> partOf req n | _ \<Rightarrow> False) | Inr _ \<Rightarrow> False)"

lemma errorsAs_None: "errorsAs pick e = None \<longleftrightarrow> (\<forall>n\<in>set e. pick n = None)"
  by (induction e) (auto split: option.splits)

lemma errorsAs_Some: "errorsAs pick e = Some x \<Longrightarrow> \<exists>n\<in>set e. pick n = Some x"
  by (induction e) (auto split: option.splits)

lemma one_coded:
  assumes "length (filter coded e) \<le> 1" "n \<in> set e" "coded n" "m \<in> set e" "coded m"
  shows "n = m"
proof -
  have "n \<in> set (filter coded e)" "m \<in> set (filter coded e)" using assms by simp_all
  moreover obtain x where "set (filter coded e) \<subseteq> {x}"
    using assms(1) by (cases "filter coded e") auto
  ultimately show ?thesis by blast
qed

lemma errorsAs_code:
  assumes "length (filter coded e) \<le> 1" and pick: "\<And>n x. pick n = Some x \<longleftrightarrow> n = C x" and "\<And>x. coded (C x)"
  shows "errorsAs pick e = Some x \<longleftrightarrow> C x \<in> set e"
proof
  assume "errorsAs pick e = Some x"
  from errorsAs_Some [OF this] obtain n where "n \<in> set e" "pick n = Some x" by (rule bexE)
  then show "C x \<in> set e" by (simp add: pick)
next
  assume x: "C x \<in> set e"
  have px: "pick (C x) = Some x" by (simp add: pick)
  show "errorsAs pick e = Some x"
  proof (cases "errorsAs pick e")
    case None
    then have "pick (C x) = None" using x by (simp add: errorsAs_None)
    with px show ?thesis by simp
  next
    case (Some y)
    from errorsAs_Some [OF this] obtain m where m: "m \<in> set e" "pick m = Some y" by (rule bexE)
    have y: "m = C y" using m(2) by (simp add: pick)
    have "C x = C y" by (rule one_coded [OF assms(1) x assms(3) m(1) [unfolded y] assms(3)])
    then have "pick (C x) = Some y" by (simp add: pick)
    with px Some show ?thesis by simp
  qed
qed

lemma picks:
  "(case n of InboxError c \<Rightarrow> Some c | _ \<Rightarrow> None) = Some x \<longleftrightarrow> n = InboxError x"
  "(case n of RegistryError c \<Rightarrow> Some c | _ \<Rightarrow> None) = Some x' \<longleftrightarrow> n = RegistryError x'"
  "(case n of JournalError c \<Rightarrow> Some c | _ \<Rightarrow> None) = Some x'' \<longleftrightarrow> n = JournalError x''"
  "(case n of KeyspaceError c \<Rightarrow> Some c | _ \<Rightarrow> None) = Some k \<longleftrightarrow> n = KeyspaceError k"
  "(case n of CatalogError c f \<Rightarrow> Some (c, f) | _ \<Rightarrow> None) = Some cf \<longleftrightarrow> n = CatalogError (fst cf) (snd cf)"
  by (cases n; auto)+

lemma as_codes:
  assumes "length (filter coded e) \<le> 1"
  shows "asInbox e = Some c \<longleftrightarrow> InboxError c \<in> set e"
    and "asRegistry e = Some c' \<longleftrightarrow> RegistryError c' \<in> set e"
    and "asJournal e = Some c'' \<longleftrightarrow> JournalError c'' \<in> set e"
  unfolding asInbox_def asRegistry_def asJournal_def
  by (rule errorsAs_code [OF assms]; simp add: picks coded_def)+

definition sentinel :: "error \<Rightarrow> bool" where
  "sentinel e \<longleftrightarrow> IsEpochSuperseded \<in> set e \<or> IsFenceConflict \<in> set e"

lemma sentinel_Cons: "sentinel (n # e) \<longleftrightarrow> n = IsEpochSuperseded \<or> n = IsFenceConflict \<or> sentinel e"
  by (auto simp: sentinel_def)

lemma storeError_coded: "storeError req e \<Longrightarrow> length (filter coded e) \<le> 1"
  by (simp add: storeError_def)

lemma storeError_plain: "storeError req e \<Longrightarrow> \<not> sentinel e"
  by (auto simp: storeError_def sentinel_def hostNode_def list_all_iff)

text \<open>The requests that go to the inbox.\<close>

definition inboxReq :: "StoreReq \<Rightarrow> bool" where
  "inboxReq req \<longleftrightarrow> (\<forall>c. \<not> partOf req (RegistryError c)) \<and> (\<forall>c. \<not> partOf req (JournalError c))"

text \<open>What a classification must do: mark nothing but a stale code, and mark every error that tells so.\<close>

definition tellsStale :: "StoreReq \<Rightarrow> (error \<Rightarrow> error) \<Rightarrow> bool" where
  "tellsStale req cls \<longleftrightarrow>
     (\<forall>e. \<not> sentinel e \<longrightarrow> (sentinel (cls e) \<longrightarrow> list_ex staleNode e) \<and> (staleTold req (Inl e) \<longrightarrow> sentinel (cls e)))"

lemma staleTold_code:
  assumes "staleTold req (Inl e)"
  obtains n where "n \<in> set e" "staleNode n" "partOf req n" "\<And>m. m \<in> set e \<Longrightarrow> coded m \<Longrightarrow> m = n" "length (filter coded e) \<le> 1"
proof -
  from assms obtain n where n: "filter coded e = [n]" "staleNode n" "partOf req n"
    by (auto simp: staleTold_def split: list.splits)
  have "m \<in> set (filter coded e) \<longleftrightarrow> m = n" for m unfolding n(1) by simp
  then have "m \<in> set e \<and> coded m \<longleftrightarrow> m = n" for m by simp
  with n show ?thesis using that [of n] by auto
qed

lemma staleTold_inbox:
  assumes "staleTold req (Inl e)" "inboxReq req"
  shows "asInbox e = Some InboxErrorEpoch" "\<And>m. m \<in> set e \<Longrightarrow> coded m \<Longrightarrow> m = InboxError InboxErrorEpoch"
proof -
  from staleTold_code [OF assms(1)] obtain n where n: "n \<in> set e" "staleNode n" "partOf req n"
    "\<And>m. m \<in> set e \<Longrightarrow> coded m \<Longrightarrow> m = n" "length (filter coded e) \<le> 1" by blast
  have "n = InboxError InboxErrorEpoch" using n(2,3) assms(2) by (auto simp: staleNode_def inboxReq_def)
  with n show "asInbox e = Some InboxErrorEpoch" "\<And>m. m \<in> set e \<Longrightarrow> coded m \<Longrightarrow> m = InboxError InboxErrorEpoch"
    by (auto simp: as_codes)
qed

lemma as_in:
  "asInbox e = Some c \<Longrightarrow> InboxError c \<in> set e"
  "asRegistry e = Some c' \<Longrightarrow> RegistryError c' \<in> set e"
  "asJournal e = Some c'' \<Longrightarrow> JournalError c'' \<in> set e"
  unfolding asInbox_def asRegistry_def asJournal_def by (drule errorsAs_Some, auto simp: picks)+

lemma classifyInbox_tells: "inboxReq req \<Longrightarrow> tellsStale req classifyInbox"
  unfolding tellsStale_def classifyInbox_def
  by (auto simp: sentinel_Cons list_ex_iff staleNode_def staleTold_inbox(1) dest!: as_in(1))

lemma refusal_coded:
  assumes "isDispositionCatalogRefusal e"
  shows "\<exists>n\<in>set e. coded n \<and> n \<noteq> InboxError InboxErrorEpoch"
proof (cases "asKeyspace e")
  case None
  then obtain cf where "asCatalog e = Some cf"
    using assms by (auto simp: isDispositionCatalogRefusal_def split: option.splits)
  from errorsAs_Some [OF this [unfolded asCatalog_def]] have "CatalogError (fst cf) (snd cf) \<in> set e" by (auto simp: picks)
  then show ?thesis by (rule rev_bexI) (simp add: coded_def)
next
  case (Some k)
  from errorsAs_Some [OF this [unfolded asKeyspace_def]] have "KeyspaceError k \<in> set e" by (auto simp: picks)
  then show ?thesis by (rule rev_bexI) (simp add: coded_def)
qed

lemma guarded_tells:
  assumes "inboxReq req" "\<And>e. guard e \<Longrightarrow> \<exists>n\<in>set e. coded n \<and> n \<noteq> InboxError InboxErrorEpoch" "\<not> sentinel [x]"
  shows "tellsStale req (\<lambda>e. if guard e then x # e else classifyInbox e)"
proof -
  have "\<not> (guard e \<and> staleTold req (Inl e))" for e
    using staleTold_inbox(2) [OF _ assms(1)] assms(2) by blast
  then show ?thesis
    using classifyInbox_tells [OF assms(1)] assms(3) unfolding tellsStale_def by (auto simp: sentinel_Cons sentinel_def [of "[]"])
qed

lemma classifySettlement_tells:
  assumes "inboxReq req"
  shows "tellsStale req classifySettlement"
proof -
  have "classifySettlement = (\<lambda>e. if list_ex isUnroutable e \<or> DispositionBindingError \<in> set e then IsEvidenceUnroutable # e else classifyInbox e)"
    by (auto simp: classifySettlement_def)
  moreover have "\<exists>n\<in>set e. coded n \<and> n \<noteq> InboxError InboxErrorEpoch" if "list_ex isUnroutable e \<or> DispositionBindingError \<in> set e" for e
    using that by (auto simp: list_ex_iff isUnroutable_def coded_def split: ErrNode.splits intro: rev_bexI)
  ultimately show ?thesis using guarded_tells [OF assms, of "\<lambda>e. list_ex isUnroutable e \<or> DispositionBindingError \<in> set e" IsEvidenceUnroutable]
    by (simp add: sentinel_def)
qed

lemma cursor_tells:
  "inboxReq req \<Longrightarrow> tellsStale req (\<lambda>e. if isDispositionCatalogRefusal e then NoDispositionCatalogError t s # e else classifyInbox e)"
  by (rule guarded_tells) (auto simp: sentinel_def dest: refusal_coded)

lemma classifyRegistry_tells:
  assumes "\<forall>c. \<not> partOf req (InboxError c)" "\<forall>c. \<not> partOf req (JournalError c)"
  shows "tellsStale req classifyRegistry"
  unfolding tellsStale_def
proof (intro allI impI conjI)
  fix e assume e: "\<not> sentinel e"
  show "list_ex staleNode e" if "sentinel (classifyRegistry e)"
    using that e by (auto simp: classifyRegistry_def sentinel_Cons list_ex_iff staleNode_def split: if_splits dest!: as_in(2))
  assume "staleTold req (Inl e)"
  from staleTold_code [OF this] obtain n where n: "n \<in> set e" "staleNode n" "partOf req n" "length (filter coded e) \<le> 1" by blast
  then have "RegistryError RegistryErrorEpoch \<in> set e" using assms by (auto simp: staleNode_def)
  then show "sentinel (classifyRegistry e)" using as_codes(2) [OF n(4)] by (simp add: classifyRegistry_def sentinel_def)
qed

lemma classifyJournal_tells:
  assumes "\<forall>c. \<not> partOf req (InboxError c)" "\<forall>c. \<not> partOf req (RegistryError c)"
  shows "tellsStale req classifyJournal"
  unfolding tellsStale_def
proof (intro allI impI conjI)
  fix e assume e: "\<not> sentinel e"
  show "list_ex staleNode e" if "sentinel (classifyJournal e)"
    using that e
    by (auto simp: classifyJournal_def sentinel_Cons list_ex_iff staleNode_def split: option.splits JournalCode.splits dest!: as_in(3))
  assume "staleTold req (Inl e)"
  from staleTold_code [OF this] obtain n where n: "n \<in> set e" "staleNode n" "partOf req n" "length (filter coded e) \<le> 1" by blast
  then have "JournalError JournalErrorFenced \<in> set e \<or> JournalError JournalErrorLeaseLost \<in> set e" using assms by (auto simp: staleNode_def)
  then have "asJournal e = Some JournalErrorFenced \<or> asJournal e = Some JournalErrorLeaseLost" using as_codes(3) [OF n(4)] by simp
  then show "sentinel (classifyJournal e)" by (auto simp: classifyJournal_def sentinel_def)
qed

subsection \<open>One write\<close>

definition ends :: "Err option \<Rightarrow> bool" where
  "ends err \<longleftrightarrow> err = Some ErrEpochSuperseded \<or> err = Some ErrFenceConflict"

lemma ends_residencyErr: "ends (Some (residencyErr e)) \<longleftrightarrow> sentinel e"
  by (simp add: ends_def residencyErr_def sentinel_def)

definition storeOK :: "'db exec \<Rightarrow> bool" where
  "storeOK exec \<longleftrightarrow> (\<forall>req db e db'. exec req db = (Inl e, db') \<longrightarrow> storeError req e)"

lemma storeOKD: "storeOK exec \<Longrightarrow> exec req db = (Inl e, db') \<Longrightarrow> storeError req e"
  unfolding storeOK_def by blast

text \<open>The store does not know the Host's sentinels; otherwise its errors may be any.\<close>

definition plainStore :: "'db exec \<Rightarrow> bool" where
  "plainStore exec \<longleftrightarrow> (\<forall>req db e db'. exec req db = (Inl e, db') \<longrightarrow> list_all (\<lambda>n. \<not> hostNode n) e)"

lemma plainStoreD: "plainStore exec \<Longrightarrow> exec req db = (Inl e, db') \<Longrightarrow> \<not> sentinel e"
  unfolding plainStore_def by (auto simp: list_all_iff sentinel_def hostNode_def)

text \<open>One write: one entry of the log; only a stale code ends the fence, and an answer that tells so does.\<close>

definition wroteOne :: "StoreReq \<Rightarrow> (StoreReq \<times> (error + StoreEntry)) list \<Rightarrow> Err option \<times> Grant \<times> 'db \<times> (StoreReq \<times> (error + StoreEntry)) list \<Rightarrow> bool" where
  "wroteOne req log out =
     (case out of (err, g, db, log') \<Rightarrow> \<exists>r. log' = log @ [(req, r)] \<and> (ends err \<longrightarrow> staleAnswer r) \<and> (staleTold req r \<longrightarrow> ends err))"

lemma plainWrite_one:
  assumes "plainStore exec" "tellsStale req cls" "\<And>entry e. tk entry = Inl e \<Longrightarrow> \<not> sentinel e"
  shows "wroteOne req log (plainWrite (answered cls tk (logged exec req (db, log))) g)"
proof -
  obtain r db' where x: "exec req db = (r, db')" by (cases "exec req db")
  show ?thesis
  proof (cases r)
    case (Inl e)
    then have "\<not> sentinel e" using plainStoreD [OF assms(1)] x by blast
    with assms(2) show ?thesis
      using x Inl unfolding tellsStale_def
      by (simp add: wroteOne_def plainWrite_def answered_def logged_def staleAnswer_def ends_residencyErr)
  next
    case (Inr entry)
    then show ?thesis using x assms(3)
      by (cases "tk entry") (simp_all add: wroteOne_def plainWrite_def answered_def logged_def staleAnswer_def staleTold_def ends_residencyErr, simp add: ends_def)
  qed
qed

lemma adaptState_plain: "adaptState s = Inl e \<Longrightarrow> \<not> sentinel e"
  by (auto simp: adaptState_def sentinel_def split: InboxState.splits)

lemmas adapter_ops = ClaimCommand_def BeginApplying_def CompleteCommand_def RejectCommand_def SaveCursor_def ClaimDisposition_def
  BeginAttempt_def SettleDisposition_def RejectDisposition_def StorePublishResidency_def StoreTombstoneResidency_def

lemma inbox_one:
  assumes "plainStore exec" "inboxReq req"
  shows "wroteOne req log (plainWrite (answered classifyInbox (\<lambda>entry. Inr (f entry)) (logged exec req (db, log))) g)"
    and "wroteOne req log (plainWrite (answered classifySettlement (\<lambda>entry. adaptState (seState entry)) (logged exec req (db, log))) g)"
    and "wroteOne req log (plainWrite (answered (\<lambda>e. if isDispositionCatalogRefusal e then NoDispositionCatalogError t s # e else classifyInbox e)
      (\<lambda>entry. Inr (f entry)) (logged exec req (db, log))) g)"
  by (rule plainWrite_one [OF assms(1)], rule classifyInbox_tells [OF assms(2)], simp)
    (rule plainWrite_one [OF assms(1)], rule classifySettlement_tells [OF assms(2)], erule adaptState_plain,
     rule plainWrite_one [OF assms(1)], rule cursor_tells [OF assms(2)], simp)

lemma registry_one:
  assumes "plainStore exec" "\<forall>c. \<not> partOf req (InboxError c)" "\<forall>c. \<not> partOf req (JournalError c)"
  shows "wroteOne req log (plainWrite (answered classifyRegistry (\<lambda>entry. Inr (f entry)) (logged exec req (db, log))) g)"
  by (rule plainWrite_one [OF assms(1)], rule classifyRegistry_tells [OF assms(2,3)], simp)

lemma inboxReqs:
  "inboxReq (ReqClaim t s c r ep x)" "inboxReq (ReqBeginApplying t s c r ep x)" "inboxReq (ReqComplete t s c r ep x ev sq)"
  "inboxReq (ReqReject t s c r ep dt)" "inboxReq (ReqSaveCursor t s ep ord)" "inboxReq (ReqClaimDisposition t s c r h x)"
  "inboxReq (ReqBeginAttempt t s c r a je re x)" "inboxReq (ReqSettle t s c r ep)" "inboxReq (ReqRejectDisposition t s c r ep)"
  by (simp_all add: inboxReq_def partOf_def)

lemma prefix_one:
  assumes "plainStore exec" "key' = Key (gnTenant g) (gnSession g)"
  shows "wroteOne (ReqAppendPrefix (gnWriter g) (pxCommandID px) (pxRuntimeCommandID px) (kindText (pxKind px))) log
    (runWrite kindText (logged exec) key (WPrefix key' px) (g, db, log))"
proof -
  let ?req = "ReqAppendPrefix (gnWriter g) (pxCommandID px) (pxRuntimeCommandID px) (kindText (pxKind px))"
  obtain r db' where x: "exec ?req db = (r, db')" by (cases "exec ?req db")
  show ?thesis
  proof (cases r)
    case (Inl e)
    then have "\<not> sentinel e" using plainStoreD [OF assms(1)] x by blast
    moreover have "tellsStale ?req classifyJournal" by (rule classifyJournal_tells) (simp_all add: partOf_def)
    ultimately show ?thesis using x Inl assms(2) unfolding tellsStale_def
      by (simp add: wroteOne_def runWrite_def AppendApplicationPrefix_def logged_def staleAnswer_def ends_residencyErr Let_def)
  next
    case (Inr entry)
    then show ?thesis using x assms(2)
      by (simp add: wroteOne_def runWrite_def AppendApplicationPrefix_def logged_def staleAnswer_def staleTold_def ends_def)
  qed
qed

lemma runWrite_one:
  assumes ok: "plainStore exec" and req: "requestOf kindText key g w = [req]"
  shows "wroteOne req log (runWrite kindText (logged exec) key w (g, db, log))"
proof (cases w)
  case (WPrefix key' px)
  then have "key' = Key (gnTenant g) (gnSession g)"
    "req = ReqAppendPrefix (gnWriter g) (pxCommandID px) (pxRuntimeCommandID px) (kindText (pxKind px))"
    using req by (simp_all add: requestOf_def split: if_splits)
  with WPrefix show ?thesis using prefix_one [OF ok, of key' g px kindText log key db] by simp
next
  case (WPublish v v' ob)
  with req show ?thesis
    by (auto simp: runWrite_def requestOf_def adapter_ops partOf_def split: if_splits intro!: registry_one [OF ok])
next
  case (WTombstone epoch)
  with req show ?thesis
    by (auto simp: runWrite_def requestOf_def adapter_ops partOf_def intro!: registry_one [OF ok])
qed (use req in \<open>auto simp: runWrite_def requestOf_def adapter_ops inboxReqs intro!: inbox_one [OF ok]\<close>)

subsection \<open>Sequences of writes\<close>

lemma requestOf_cases: "requestOf kindText key g w = [] \<or> (\<exists>req. requestOf kindText key g w = [req])"
  by (cases w) (simp_all add: requestOf_def)

lemma runWrite_none:
  assumes "requestOf kindText key g w = []"
  shows "\<exists>err. runWrite kindText (logged exec) key w (g, db, log) = (err, g, db, log) \<and> \<not> ends err"
proof (cases w)
  case (WPublish v v' ob)
  with assms show ?thesis
    by (simp add: requestOf_def runWrite_def StorePublishResidency_def plainWrite_def ends_residencyErr sentinel_def split: if_splits)
next
  case (WPrefix key' px)
  with assms have "TenantID key' \<noteq> gnTenant g \<or> SessionID key' \<noteq> gnSession g"
    by (cases key') (simp add: requestOf_def split: if_splits)
  with WPrefix show ?thesis
    by (simp add: runWrite_def AppendApplicationPrefix_def ends_residencyErr sentinel_def)
qed (use assms in \<open>simp_all add: requestOf_def\<close>)

text \<open>A grant keeps its session and its writer, and its channel is closed once at most.\<close>

definition sameGrant :: "Grant \<Rightarrow> Grant \<Rightarrow> bool" where
  "sameGrant g g' \<longleftrightarrow> gnTenant g' = gnTenant g \<and> gnSession g' = gnSession g \<and> gnWriter g' = gnWriter g"

definition grantOK :: "Grant \<Rightarrow> bool" where
  "grantOK g \<longleftrightarrow> gnCloses g = (if gnDone g then 1 else 0)"

lemma endGrant_ok: "sameGrant g (endGrant g)" "grantOK g \<Longrightarrow> grantOK (endGrant g)" "gnDone (endGrant g)"
  by (simp_all add: endGrant_def sameGrant_def grantOK_def)

lemma plainWrite_grant: "fst (snd (plainWrite r g)) = g"
  by (simp add: plainWrite_def split: prod.split sum.split)

lemma append_grant:
  "sameGrant g (fst (snd (AppendApplicationPrefix kindText exec key px (g, db)))) \<and>
   (grantOK g \<longrightarrow> grantOK (fst (snd (AppendApplicationPrefix kindText exec key px (g, db)))))"
  using endGrant_ok [of g] by (simp add: AppendApplicationPrefix_def sameGrant_def Let_def split: prod.split sum.split)

lemma runWrite_grant:
  "sameGrant g (fst (snd (runWrite kindText exec key w (g, db)))) \<and>
   (grantOK g \<longrightarrow> grantOK (fst (snd (runWrite kindText exec key w (g, db)))))"
proof (cases w)
  case (WPrefix key' px)
  then show ?thesis using append_grant [of g kindText exec key' px db] by (auto simp: runWrite_def split: prod.splits)
qed (simp_all add: runWrite_def plainWrite_grant sameGrant_def)

lemma requestOf_same: "sameGrant g g' \<Longrightarrow> requestOf kindText key g' = requestOf kindText key g"
  by (rule ext) (simp add: requestOf_def sameGrant_def split: AdapterWrite.split)

lemma fenceWrite_run:
  assumes "held f = None" "run s = (err, s')" "fenceWrite run (f, s) = (err', f', s'')"
  shows "err' = err" "s'' = s'" "ends err \<Longrightarrow> held f' = Some ErrLeaseNotHeld" "\<not> ends err \<Longrightarrow> f' = f"
  using fence.runs [of f run s] fence.latches [of f run s] fence.keeps [of f run s] assms held_cases [of f']
  by (auto simp: ends_def)

text \<open>
  What a run of writes logged: a prefix of the requests, none behind an answer that tells the writer it
  is stale, all of them while the fence is held.
\<close>

definition loggedOK :: "StoreReq list \<Rightarrow> (StoreReq \<times> (error + StoreEntry)) list \<Rightarrow> bool \<Rightarrow> bool" where
  "loggedOK reqs new fend \<longleftrightarrow>
     prefix (map fst new) reqs \<and>
     (if fend then new \<noteq> [] \<and> staleAnswer (snd (last new)) \<and> list_all (\<lambda>x. \<not> staleTold (fst x) (snd x)) (butlast new)
      else map fst new = reqs \<and> list_all (\<lambda>x. \<not> staleTold (fst x) (snd x)) new)"

lemma loggedOK_Cons:
  assumes "loggedOK reqs new fend" "\<not> staleTold req r"
  shows "loggedOK (req # reqs) ((req, r) # new) fend"
  using assms by (auto simp: loggedOK_def)

lemma runWrites_logged:
  assumes ok: "plainStore exec" and "held f = None"
  shows "\<exists>es f' g' db' new. fencedAll fenceWrite (map (runWrite kindText (logged exec) key) ws) (f, g, db, log) = (es, f', g', db', log @ new)
    \<and> loggedOK (concat (map (requestOf kindText key g) ws)) new (held f' \<noteq> None) \<and> sameGrant g g' \<and> (grantOK g \<longrightarrow> grantOK g')"
  using assms(2)
proof (induction ws arbitrary: f g db log)
  case Nil
  then show ?case by (simp add: loggedOK_def sameGrant_def)
next
  case (Cons w ws)
  let ?run = "runWrite kindText (logged exec) key w"
  obtain err g1 db1 log1 where r: "?run (g, db, log) = (err, g1, db1, log1)" by (metis prod_cases4)
  have g1: "sameGrant g g1" "grantOK g \<longrightarrow> grantOK g1" using runWrite_grant [of g kindText "logged exec" key w "(db, log)"] r by simp_all
  obtain err' f1 s1 where fw: "fenceWrite ?run (f, g, db, log) = (err', f1, s1)" by (metis prod_cases3)
  note w1 = fenceWrite_run [OF Cons.prems r fw]
  show ?case
  proof (cases "ends err")
    case True
    with runWrite_none [of kindText key g w exec db log] r requestOf_cases [of kindText key g w]
    obtain req where req: "requestOf kindText key g w = [req]" by auto
    from runWrite_one [OF ok req, of log db] r True obtain a where a: "log1 = log @ [(req, a)]" "staleAnswer a"
      by (auto simp: wroteOne_def)
    have "fencedAll fenceWrite (map (runWrite kindText (logged exec) key) (w # ws)) (f, g, db, log) =
        (err # map (\<lambda>_. Some ErrLeaseNotHeld) ws, f1, g1, db1, log @ [(req, a)])"
      using fw w1 True a(1) fence.all_refused [of f1 "map (runWrite kindText (logged exec) key) ws" "(g1, db1, log1)"] by (simp add: comp_def)
    then show ?thesis using a(2) w1(3) True g1 req by (intro exI conjI) (auto simp: loggedOK_def)
  next
    case False
    then have f1: "f1 = f" and s1: "s1 = (g1, db1, log1)" and e: "err' = err" using w1 by simp_all
    from Cons.IH [OF Cons.prems, of g1 db1 log1] obtain es f' g' db' new where
      ih: "fencedAll fenceWrite (map (runWrite kindText (logged exec) key) ws) (f, g1, db1, log1) = (es, f', g', db', log1 @ new)"
      "loggedOK (concat (map (requestOf kindText key g1) ws)) new (held f' \<noteq> None)" "sameGrant g1 g'" "grantOK g1 \<longrightarrow> grantOK g'"
      by blast
    have run: "fencedAll fenceWrite (map (runWrite kindText (logged exec) key) (w # ws)) (f, g, db, log) = (err # es, f', g', db', log1 @ new)"
      using fw ih(1) by (simp add: f1 s1 e)
    have g': "sameGrant g g'" "grantOK g \<longrightarrow> grantOK g'" using g1 ih(3,4) by (auto simp: sameGrant_def)
    have ok': "loggedOK (concat (map (requestOf kindText key g) ws)) new (held f' \<noteq> None)"
      using ih(2) by (simp add: requestOf_same [OF g1(1)])
    show ?thesis
    proof (cases "requestOf kindText key g w = []")
      case True
      then have "log1 = log" using runWrite_none [OF True, of exec db log] r by simp
      with run g' ok' True show ?thesis by (intro exI conjI) auto
    next
      case False
      then obtain req where req: "requestOf kindText key g w = [req]" using requestOf_cases [of kindText key g w] by auto
      from runWrite_one [OF ok req, of log db] r \<open>\<not> ends err\<close> obtain a where a: "log1 = log @ [(req, a)]" "\<not> staleTold req a"
        by (auto simp: wroteOne_def)
      with run g' loggedOK_Cons [OF ok' a(2)] req show ?thesis by (intro exI conjI) auto
    qed
  qed
qed

lemma loggedOK_last:
  assumes "loggedOK reqs (a @ x # b) fend" "staleTold (fst x) (snd x)"
  shows "b = [] \<and> fend"
proof (cases fend)
  case True
  show ?thesis
  proof (cases "b = []")
    case False
    then have "x \<in> set (butlast (a @ x # b))" by (simp add: butlast_append)
    with assms True show ?thesis by (auto simp: loggedOK_def list_all_iff)
  qed (simp add: True)
next
  case False
  with assms show ?thesis by (simp add: loggedOK_def)
qed

text \<open>
  C6: a Host that lost its session stops writing when the store tells it so.  Whatever writes a
  residency makes through the adapter and its fence (claims, attempts, settlements, cursors, route
  observations, application prefixes) and whatever errors the store answers, as long as it does not
  use the Host's own sentinels: the store sees a prefix of their requests in order; an answer whose one
  code says that the writer is stale, by the part of the store that was asked, is the last it ever
  gives, and ends the fence; nothing but an answer with such a code in it ends it, and while it is held
  every write has been sent.  The loss channel of the journal grant is closed at most once.
\<close>

theorem stale_owner_stops_writing:
  assumes "plainStore exec" "held f = None" "grantOK g"
    and "fencedAll fenceWrite (map (runWrite kindText (logged exec) key) ws) (f, g, db, []) = (es, f', g', db', log)"
  shows "prefix (map fst log) (concat (map (requestOf kindText key g) ws)) \<and>
    (\<forall>a x b. log = a @ x # b \<and> staleTold (fst x) (snd x) \<longrightarrow> b = [] \<and> held f' \<noteq> None) \<and>
    (if held f' = None then map fst log = concat (map (requestOf kindText key g) ws)
     else log \<noteq> [] \<and> staleAnswer (snd (last log))) \<and>
    gnCloses g' = (if gnDone g' then 1 else 0)"
proof -
  from runWrites_logged [OF assms(1,2), of kindText key ws g db "[]"] assms(3,4)
  have ok: "loggedOK (concat (map (requestOf kindText key g) ws)) log (held f' \<noteq> None)" and g': "grantOK g'" by auto
  have last: "b = [] \<and> held f' \<noteq> None" if "log = a @ x # b \<and> staleTold (fst x) (snd x)" for a x b
    using loggedOK_last ok that by blast
  show ?thesis
  proof (intro conjI allI impI)
    show "prefix (map fst log) (concat (map (requestOf kindText key g) ws))" using ok by (simp add: loggedOK_def)
    show "b = []" "held f' \<noteq> None" if "log = a @ x # b \<and> staleTold (fst x) (snd x)" for a x b using last that by blast+
    show "if held f' = None then map fst log = concat (map (requestOf kindText key g) ws)
        else log \<noteq> [] \<and> staleAnswer (snd (last log))" using ok by (simp add: loggedOK_def)
    show "gnCloses g' = (if gnDone g' then 1 else 0)" using g' by (simp add: grantOK_def)
  qed
qed

text \<open>A store that knows the newest epoch of a session and refuses a cursor of an older one.\<close>

definition exExec :: "u64 exec" where
  "exExec req newest =
     (let entry = \<lparr> seRevision = 1, seState = InboxStateClaimed \<rparr> in
      case req of
        ReqSaveCursor _ _ epoch _ \<Rightarrow> if epoch < newest then (Inl [InboxError InboxErrorEpoch], newest) else (Inr entry, newest)
      | _ \<Rightarrow> (Inr entry, newest))"

definition exGrant :: Grant where
  "exGrant = \<lparr> gnWriter = 5, gnTenant = ''t'', gnSession = ''s'', gnDone = False, gnCloses = 0 \<rparr>"

definition exWrites :: "AdapterWrite list" where
  "exWrites = [WTombstone 3, WCursor 3 7, WCursor 3 8]"

lemma exExec_ok: "plainStore exExec"
  unfolding plainStore_def
proof (intro allI impI)
  show "list_all (\<lambda>n. \<not> hostNode n) e" if "exExec req db = (Inl e, db')" for req db e db'
    using that by (cases req) (auto simp: exExec_def hostNode_def Let_def split: if_splits)
qed

text \<open>
  One code alone is needed: an error that joins the catalog's refusal to a stale epoch of the inbox is
  read as the refusal, and the fence stays.
\<close>

lemma joined_codes_hide_staleness:
  "\<not> sentinel (fst (map_prod (\<lambda>r. case r of Inl e \<Rightarrow> e | Inr _ \<Rightarrow> []) id
      (SaveCursor (\<lambda>_ db. (Inl [CatalogError CatalogErrorNotFound [], InboxError InboxErrorEpoch], db)) key epoch order ())))"
  by (simp add: SaveCursor_def answered_def isDispositionCatalogRefusal_def asKeyspace_def asCatalog_def sentinel_def)

theorem stale_owner_stops_writing_witness:
  "\<exists>es f' g' db' log.
     fencedAll fenceWrite (map (runWrite (\<lambda>_. []) (logged exExec) (Key ''t'' ''s'')) exWrites) (newEpochFence (Some False), exGrant, 4, []) = (es, f', g', db', log) \<and>
     map fst log = [ReqClearRegistration ''t'' ''s'' 3, ReqSaveCursor ''t'' ''s'' 3 7] \<and> held f' \<noteq> None \<and> staleAnswer (snd (last log))"
proof -
  let ?run = "fencedAll fenceWrite (map (runWrite (\<lambda>_. []) (logged exExec) (Key ''t'' ''s'')) exWrites) (newEpochFence (Some False), exGrant, 4, [])"
  obtain es f' g' db' log where r: "?run = (es, f', g', db', log)" by (metis prod_cases5)
  have h: "held (newEpochFence (Some False)) = None" "grantOK exGrant"
    by (simp_all add: newEpochFence_def held_def lostReady_def grantOK_def exGrant_def)
  have l: "map fst log = [ReqClearRegistration ''t'' ''s'' 3, ReqSaveCursor ''t'' ''s'' 3 7]"
    using r by (auto simp: exWrites_def runWrite_def adapter_ops answered_def plainWrite_def logged_def exExec_def exGrant_def Let_def
        classifyInbox_def asInbox_def isDispositionCatalogRefusal_def asKeyspace_def asCatalog_def residencyErr_def
        fence_defs newEpochFence_def)
  have "held f' \<noteq> None"
  proof
    assume "held f' = None"
    with stale_owner_stops_writing [OF exExec_ok h r] l show False by (simp add: exWrites_def requestOf_def)
  qed
  with stale_owner_stops_writing [OF exExec_ok h r] r l show ?thesis by auto
qed

section \<open>Values the Host knows\<close>

lemma adaptState_known: "adaptState s = Inr st \<Longrightarrow> known st"
  by (auto simp: adaptState_def known_def split: InboxState.splits)

lemma adaptState_total: "(\<exists>st. adaptState s = Inr st) \<longleftrightarrow> (\<forall>x. s \<noteq> InboxStateOther x)"
  by (auto simp: adaptState_def split: InboxState.splits)

lemma adaptOutcome_known: "adaptOutcome o' = Inr out \<Longrightarrow> outcomeKnown out"
  by (auto simp: adaptOutcome_def outcomeKnown_def split: StoreOutcome.splits)

lemma adaptCommands_fields:
  "adaptCommands parse es = Inr cs \<Longrightarrow>
     map cmTenantID cs = map deTenantID es \<and> map cmSessionID cs = map deSessionID es \<and> map cmCommandID cs = map deCommandID es \<and>
     map cmAcceptedOrder cs = map deAcceptedOrder es \<and> list_all (\<lambda>c. known (cmState c)) cs"
  by (induction es arbitrary: cs) (auto split: sum.splits dest: adaptState_known)

lemma adaptCommands_total: "(\<exists>cs. adaptCommands parse es = Inr cs) \<longleftrightarrow> (\<forall>e\<in>set es. \<forall>x. deState e \<noteq> InboxStateOther x)"
proof (induction es)
  case (Cons e es)
  have "(\<exists>cs. adaptCommands parse (e # es) = Inr cs) \<longleftrightarrow> (\<exists>st. adaptState (deState e) = Inr st) \<and> (\<exists>cs. adaptCommands parse es = Inr cs)"
    by (cases "adaptState (deState e)"; cases "adaptCommands parse es") simp_all
  then show ?case using Cons.IH by (simp add: adaptState_total)
qed simp

lemma listed_recordOK:
  assumes "adaptCommands parse es = Inr cs"
    and "\<forall>e\<in>set es. deTenantID e = TenantID key \<and> deSessionID e = SessionID key \<and> idValid (deCommandID e)"
  shows "\<forall>c\<in>set cs. recordOK idValid key c"
  using assms
proof (induction es arbitrary: cs)
  case (Cons e es)
  obtain st where st: "adaptState (deState e) = Inr st" using Cons.prems(1) by (cases "adaptState (deState e)") simp_all
  obtain rest where rest: "adaptCommands parse es = Inr rest" using Cons.prems(1) st by (cases "adaptCommands parse es") simp_all
  have "\<forall>c\<in>set rest. recordOK idValid key c" by (rule Cons.IH [OF rest]) (use Cons.prems(2) in simp)
  moreover obtain c where c: "cs = c # rest" "cmTenantID c = deTenantID e" "cmSessionID c = deSessionID e" "cmCommandID c = deCommandID e" "cmState c = st"
    using Cons.prems(1) st rest by fastforce
  moreover have "recordOK idValid key c" using c Cons.prems(2) adaptState_known [OF st] by (simp add: recordOK_def)
  ultimately show ?case by simp
qed simp

text \<open>
  The words of the two vocabularies: the states of the store's inbox and outcomes of its
  applications, and those of the Host (\<^verbatim>\<open>internal/commands\<close>).
\<close>

definition inboxWord :: "InboxState \<Rightarrow> string" where
  "inboxWord s =
     (case s of InboxStatePending \<Rightarrow> ''pending'' | InboxStateClaimed \<Rightarrow> ''claimed'' | InboxStateApplying \<Rightarrow> ''applying''
      | InboxStateApplied \<Rightarrow> ''applied'' | InboxStateRejected \<Rightarrow> ''rejected'' | InboxStateOther x \<Rightarrow> x)"

definition stateWord :: "State \<Rightarrow> string" where
  "stateWord s =
     (case s of StatePending \<Rightarrow> ''pending'' | StateClaimed \<Rightarrow> ''claimed'' | StateApplying \<Rightarrow> ''applying''
      | StateApplied \<Rightarrow> ''applied'' | StateRejected \<Rightarrow> ''rejected'' | StateUnknown x \<Rightarrow> x)"

definition storeOutcomeWord :: "StoreOutcome \<Rightarrow> string" where
  "storeOutcomeWord o' =
     (case o' of CommandApplicationAbsent \<Rightarrow> ''absent'' | CommandApplicationCommitted \<Rightarrow> ''committed''
      | CommandApplicationAbandoned \<Rightarrow> ''abandoned'' | CommandApplicationUnresolved \<Rightarrow> ''unresolved''
      | CommandApplicationConflicted \<Rightarrow> ''conflicted'' | CommandApplicationOther x \<Rightarrow> x)"

definition outcomeWord :: "ApplicationOutcome \<Rightarrow> string" where
  "outcomeWord o' =
     (case o' of ApplicationAbsent \<Rightarrow> ''absent'' | ApplicationCommitted \<Rightarrow> ''committed'' | ApplicationAbandoned \<Rightarrow> ''abandoned''
      | ApplicationUnresolved \<Rightarrow> ''unresolved'' | ApplicationConflicted \<Rightarrow> ''conflicted'' | ApplicationOther x \<Rightarrow> x)"

lemma adaptState_word: "adaptState s = Inr st \<Longrightarrow> stateWord st = inboxWord s"
  by (auto simp: adaptState_def stateWord_def inboxWord_def split: InboxState.splits)

lemma adaptOutcome_word: "adaptOutcome o' = Inr out \<Longrightarrow> outcomeWord out = storeOutcomeWord o'"
  by (auto simp: adaptOutcome_def outcomeWord_def storeOutcomeWord_def split: StoreOutcome.splits)

lemma adaptCommands_words:
  "adaptCommands parse es = Inr cs \<Longrightarrow> map (stateWord \<circ> cmState) cs = map (inboxWord \<circ> deState) es"
  by (induction es arbitrary: cs) (auto split: sum.splits dest: adaptState_word)

text \<open>
  C39: what the adapter hands to the Host says what the store says, in the Host's vocabulary.  Take a
  page of a store that keeps its contract (the session's own rows, at most so many, in strictly
  increasing order behind the cursor, each command once).  If a row is in a state the Host does not
  know the whole page is refused, and otherwise it is translated row by row, no row skipped, each
  under its own state, and passes the consumer's own check of a page.  A record, an application or a
  settled state the adapter returns is known to the Host and is the one the store answered, and none
  is returned where the store's is unknown.
\<close>

theorem adapted_values_known:
  assumes "page cursor limit = Inr es" "length es \<le> limit" "sorted_wrt (<) (cursor # map deAcceptedOrder es)"
    and "distinct (map deCommandID es)"
    and "\<forall>e\<in>set es. deTenantID e = TenantID key \<and> deSessionID e = SessionID key \<and> idValid (deCommandID e)"
  shows "(if \<exists>e\<in>set es. \<exists>x. deState e = InboxStateOther x
      then \<exists>err. ListOrdered parse page key cursor limit = Inl err
      else \<exists>cs. ListOrdered parse page key cursor limit = Inr cs \<and> validatePage idValid key cs cursor limit = None \<and>
        map cmCommandID cs = map deCommandID es \<and> map cmAcceptedOrder cs = map deAcceptedOrder es \<and>
        map (stateWord \<circ> cmState) cs = map (inboxWord \<circ> deState) es) \<and>
    (\<forall>e r. LoadCommand parse (Inr e) = Inr r \<longrightarrow>
       known (rcState r) \<and> stateWord (rcState r) = inboxWord (ieState e) \<and> rcCommandID r = ieCommandID e \<and> rcRevision r = ieRevision e) \<and>
    (\<forall>e r. LoadDispositionCommand parse (Inr e) = Inr r \<longrightarrow>
       known (drState r) \<and> stateWord (drState r) = inboxWord (deState e) \<and> drCommandID r = deCommandID e \<and> drRevision r = deRevision e) \<and>
    (\<forall>found a. FindApplication parse (Inr found) = Inr a \<longrightarrow>
       outcomeKnown (apOutcome a) \<and> outcomeWord (apOutcome a) = storeOutcomeWord (saOutcome found) \<and> apEffectSeq a = saEffectSeq found) \<and>
    (\<forall>exec command (settlement :: DispositionSettlement) db entry db'.
       exec (ReqSettle (TenantID key) (SessionID key) command (dsExpectedRevision settlement) (dsResidencyEpoch settlement)) db = (Inr entry, db') \<longrightarrow>
       (case fst (SettleDisposition exec key command settlement db) of
          Inr st \<Rightarrow> known st \<and> stateWord st = inboxWord (seState entry)
        | Inl _ \<Rightarrow> \<exists>x. seState entry = InboxStateOther x))"
proof (intro conjI allI impI)
  show "if \<exists>e\<in>set es. \<exists>x. deState e = InboxStateOther x
      then \<exists>err. ListOrdered parse page key cursor limit = Inl err
      else \<exists>cs. ListOrdered parse page key cursor limit = Inr cs \<and> validatePage idValid key cs cursor limit = None \<and>
        map cmCommandID cs = map deCommandID es \<and> map cmAcceptedOrder cs = map deAcceptedOrder es \<and>
        map (stateWord \<circ> cmState) cs = map (inboxWord \<circ> deState) es"
  proof (cases "adaptCommands parse es")
    case (Inl err)
    then have "\<not> (\<forall>e\<in>set es. \<forall>x. deState e \<noteq> InboxStateOther x)" using adaptCommands_total [of parse es] by auto
    with Inl assms(1) show ?thesis by (auto simp: ListOrdered_def)
  next
    case (Inr cs)
    note f = adaptCommands_fields [OF Inr]
    then have "length cs = length es" by (metis length_map)
    with f listed_recordOK [OF Inr assms(5)] assms(2-4) have "validatePage idValid key cs cursor limit = None"
      unfolding validatePage_None by simp
    moreover have "\<not> (\<exists>e\<in>set es. \<exists>x. deState e = InboxStateOther x)" using adaptCommands_total [of parse es] Inr by auto
    ultimately show ?thesis using Inr f adaptCommands_words [OF Inr] assms(1) by (auto simp: ListOrdered_def)
  qed
  fix exec :: "'db exec" and command and settlement :: DispositionSettlement and db entry db'
  assume "exec (ReqSettle (TenantID key) (SessionID key) command (dsExpectedRevision settlement) (dsResidencyEpoch settlement)) db = (Inr entry, db')"
  then show "case fst (SettleDisposition exec key command settlement db) of
          Inr st \<Rightarrow> known st \<and> stateWord st = inboxWord (seState entry)
        | Inl _ \<Rightarrow> \<exists>x. seState entry = InboxStateOther x"
    using adaptState_total [of "seState entry"]
    by (auto simp: SettleDisposition_def answered_def split: sum.splits dest: adaptState_known adaptState_word)
qed (auto simp: LoadCommand_def adaptRecord_def LoadDispositionCommand_def adaptDispositionRecord_def FindApplication_def
    split: sum.splits dest: adaptState_known adaptState_word adaptOutcome_known adaptOutcome_word)

definition exEntry :: "string \<Rightarrow> u64 \<Rightarrow> InboxState \<Rightarrow> DispositionEntry" where
  "exEntry c order st =
     \<lparr> deTenantID = ''t'', deSessionID = ''s'', deCommandID = c, deRuntimeCommandID = ''r'', deKind = ''input'', dePayload = [],
       dePayloadObject = None, deState = st, deAcceptedOrder = order, deRevision = 1, deApplyDeadline = 9, deClaim = None, deAttempt = None \<rparr>"

theorem adapted_values_known_witness:
  "(\<exists>cs. ListOrdered (\<lambda>_. Some 7) (\<lambda>_ _. Inr [exEntry ''c1'' 4 InboxStatePending, exEntry ''c2'' 6 InboxStateApplied]) (Key ''t'' ''s'') 3 2 = Inr cs \<and>
     validatePage (\<lambda>_. True) (Key ''t'' ''s'') cs 3 2 = None \<and> map cmCommandID cs = [''c1'', ''c2''] \<and>
     map (stateWord \<circ> cmState) cs = [''pending'', ''applied'']) \<and>
   (\<exists>err. ListOrdered (\<lambda>_. Some 7) (\<lambda>_ _. Inr [exEntry ''c1'' 4 (InboxStateOther ''parked'')]) (Key ''t'' ''s'') 3 2 = Inl err)"
proof -
  let ?es = "[exEntry ''c1'' 4 InboxStatePending, exEntry ''c2'' 6 InboxStateApplied]" and ?us = "[exEntry ''c1'' 4 (InboxStateOther ''parked'')]"
  have es: "\<not> (\<exists>e\<in>set ?es. \<exists>x. deState e = InboxStateOther x)" "\<exists>e\<in>set ?us. \<exists>x. deState e = InboxStateOther x"
    "map deCommandID ?es = [''c1'', ''c2'']" "map (inboxWord \<circ> deState) ?es = [''pending'', ''applied'']"
    by (simp_all add: exEntry_def inboxWord_def)
  have "length ?es \<le> 2" "sorted_wrt (<) (3 # map deAcceptedOrder ?es)" "distinct (map deCommandID ?es)"
    "\<forall>e\<in>set ?es. deTenantID e = TenantID (Key ''t'' ''s'') \<and> deSessionID e = SessionID (Key ''t'' ''s'') \<and> True"
    by (simp_all add: exEntry_def)
  note e = adapted_values_known [where page = "\<lambda>_ _. Inr ?es" and cursor = 3 and limit = 2 and es = ?es and key = "Key ''t'' ''s''" and
      idValid = "\<lambda>_. True" and parse = "\<lambda>_. Some 7", OF refl this, THEN conjunct1, unfolded if_not_P [OF es(1)] es(3,4)]
  have "length ?us \<le> 2" "sorted_wrt (<) (3 # map deAcceptedOrder ?us)" "distinct (map deCommandID ?us)"
    "\<forall>e\<in>set ?us. deTenantID e = TenantID (Key ''t'' ''s'') \<and> deSessionID e = SessionID (Key ''t'' ''s'') \<and> True"
    by (simp_all add: exEntry_def)
  note u = adapted_values_known [where page = "\<lambda>_ _. Inr ?us" and cursor = 3 and limit = 2 and es = ?us and key = "Key ''t'' ''s''" and
      idValid = "\<lambda>_. True" and parse = "\<lambda>_. Some 7", OF refl this, THEN conjunct1, unfolded if_P [OF es(2)]]
  show ?thesis by (rule conjI, rule ex_forward [OF e], (elim conjE, intro conjI, assumption+), rule u)
qed

section \<open>The gate session\<close>

text \<open>What the publisher of gates sees of an error.\<close>

definition gateErr :: "error \<Rightarrow> GateErr" where
  "gateErr e =
     (if IsEpochSuperseded \<in> set e then GateSuperseded
      else if IsUnpublishable \<in> set e then GateUnpublishable
      else if IsProjectionFull \<in> set e then GateFull
      else GateOther ''store'')"

definition gateWrite :: "(error + unit) \<times> 'db \<Rightarrow> GateErr option \<times> 'db" where
  "gateWrite r = (case r of (Inl e, db) \<Rightarrow> (Some (gateErr e), db) | (Inr _, db) \<Rightarrow> (None, db))"

definition adapterGates ::
  "(gate_id \<Rightarrow> GateID) \<Rightarrow> (Scope \<Rightarrow> gate_id \<Rightarrow> openGate \<Rightarrow> int \<Rightarrow> GateErr + GateProjection) \<Rightarrow> (string \<Rightarrow> nat option) \<Rightarrow>
   (tenant_id \<Rightarrow> string \<Rightarrow> 'r option) \<Rightarrow> ('db \<Rightarrow> error + CatalogRecord) \<Rightarrow> 'db exec \<Rightarrow> handle \<Rightarrow> Key \<Rightarrow> 'db GateSession" where
  "adapterGates name project parse journals get exec grant key =
     \<lparr> gsName = name,
       gsScope = (\<lambda>db. case GateScope parse journals key (get db) of Inl e \<Rightarrow> Inl (gateErr e) | Inr (sc, _) \<Rightarrow> Inr sc),
       gsProject = project,
       gsProjected = (\<lambda>db. case GateProjected (get db) of Inl e \<Rightarrow> Inl (gateErr e) | Inr ps \<Rightarrow> Inr ps),
       gsOpen = (\<lambda>p db. gateWrite (OpenGate exec grant key p db)),
       gsResolve = (\<lambda>i db. gateWrite (ResolveGate exec grant key i db)) \<rparr>"

text \<open>
  What the catalog promises: it holds a finite set of gates, which a read shows; a write that succeeds
  has happened, one that fails may have; \<open>open_gates\<close> is too large only when it is full; its errors
  carry none of the Host's sentinels and one code at most.
\<close>

definition lawfulCatalog :: "('db \<Rightarrow> error + CatalogRecord) \<Rightarrow> 'db exec \<Rightarrow> handle \<Rightarrow> Key \<Rightarrow> ('db \<Rightarrow> GateID set) \<Rightarrow> nat \<Rightarrow> bool" where
  "lawfulCatalog get exec grant key ids cap \<longleftrightarrow>
     storeOK exec \<and> (\<forall>db. finite (ids db)) \<and>
     (\<forall>db c. get db = Inr c \<longrightarrow> gpGateID ` set (ctOpenGates c) = ids db) \<and>
     (\<forall>p db en db'. exec (ReqOpenGate (TenantID key) (SessionID key) p grant) db = (Inr en, db') \<longrightarrow> ids db' = insert (gpGateID p) (ids db)) \<and>
     (\<forall>p db e db'. exec (ReqOpenGate (TenantID key) (SessionID key) p grant) db = (Inl e, db') \<longrightarrow>
        ids db \<subseteq> ids db' \<and> ids db' \<subseteq> insert (gpGateID p) (ids db) \<and>
        (CatalogError CatalogErrorTooLarge ''open_gates'' \<in> set e \<longrightarrow> ids db' = ids db \<and> cap \<le> card (ids db))) \<and>
     (\<forall>i db en db'. exec (ReqResolveGate (TenantID key) (SessionID key) i grant) db = (Inr en, db') \<longrightarrow> ids db' = ids db - {i})"

lemma truncate_GateID: "gpGateID (GateProjection.truncate row) = gpGateID row"
  by (simp add: GateProjection.truncate_def)

lemma asCatalog_in: "asCatalog e = Some cf \<Longrightarrow> CatalogError (fst cf) (snd cf) \<in> set e"
  unfolding asCatalog_def by (drule errorsAs_Some) (auto simp: picks)

lemma asCatalog_code: "length (filter coded e) \<le> 1 \<Longrightarrow> asCatalog e = Some (c, f) \<longleftrightarrow> CatalogError c f \<in> set e"
  using errorsAs_code [of e "\<lambda>n. case n of CatalogError c f \<Rightarrow> Some (c, f) | _ \<Rightarrow> None" "\<lambda>cf. CatalogError (fst cf) (snd cf)" "(c, f)"]
  by (simp add: asCatalog_def picks coded_def)

lemma gateErr_classified:
  assumes "storeError req e"
  shows "gateErr (classifyGateWrite e) = GateSuperseded \<longleftrightarrow> (\<exists>f. CatalogError CatalogErrorEpoch f \<in> set e)"
    and "gateErr (classifyGateWrite e) = GateUnpublishable \<longleftrightarrow> CatalogError CatalogErrorDeleted ''gate_intent'' \<in> set e"
    and "gateErr (classifyGateWrite e) = GateFull \<longleftrightarrow> CatalogError CatalogErrorTooLarge ''open_gates'' \<in> set e"
proof -
  have n: "IsEpochSuperseded \<notin> set e" "IsUnpublishable \<notin> set e" "IsProjectionFull \<notin> set e"
    using assms by (auto simp: storeError_def hostNode_def list_all_iff)
  note c = asCatalog_code [OF storeError_coded [OF assms], symmetric]
  have "gateErr (classifyGateWrite e) =
    (case asCatalog e of
       None \<Rightarrow> GateOther ''store''
     | Some (c, f) \<Rightarrow>
         if c = CatalogErrorEpoch then GateSuperseded
         else if c = CatalogErrorDeleted \<and> f = ''gate_intent'' then GateUnpublishable
         else if c = CatalogErrorTooLarge \<and> f = ''open_gates'' then GateFull
         else GateOther ''store'')"
    using n by (simp add: gateErr_def classifyGateWrite_def split: option.split)
  then show "gateErr (classifyGateWrite e) = GateSuperseded \<longleftrightarrow> (\<exists>f. CatalogError CatalogErrorEpoch f \<in> set e)"
    and "gateErr (classifyGateWrite e) = GateUnpublishable \<longleftrightarrow> CatalogError CatalogErrorDeleted ''gate_intent'' \<in> set e"
    and "gateErr (classifyGateWrite e) = GateFull \<longleftrightarrow> CatalogError CatalogErrorTooLarge ''open_gates'' \<in> set e"
    unfolding c by (auto split: option.splits)
qed

lemma gateWrite_cases:
  assumes "gateWrite (answered classifyGateWrite (\<lambda>_. Inr ()) r) = (o', db')"
  obtains (ok) en where "r = (Inr en, db')" "o' = None"
    | (failed) e where "r = (Inl e, db')" "o' = Some (gateErr (classifyGateWrite e))"
  using assms by (cases r; cases "fst r") (auto simp: gateWrite_def answered_def)

lemma lawfulCatalogD:
  assumes "lawfulCatalog get exec grant key ids cap"
  shows "storeOK exec" "finite (ids db)"
    and "get db = Inr c \<Longrightarrow> gpGateID ` set (ctOpenGates c) = ids db"
    and "exec (ReqOpenGate (TenantID key) (SessionID key) p grant) db = (Inr en, db') \<Longrightarrow> ids db' = insert (gpGateID p) (ids db)"
    and "exec (ReqOpenGate (TenantID key) (SessionID key) p grant) db = (Inl e, db') \<Longrightarrow>
        ids db \<subseteq> ids db' \<and> ids db' \<subseteq> insert (gpGateID p) (ids db) \<and>
        (CatalogError CatalogErrorTooLarge ''open_gates'' \<in> set e \<longrightarrow> ids db' = ids db \<and> cap \<le> card (ids db))"
    and "exec (ReqResolveGate (TenantID key) (SessionID key) i grant) db = (Inr en, db') \<Longrightarrow> ids db' = ids db - {i}"
proof -
  note l = assms [unfolded lawfulCatalog_def]
  note 1 = l [THEN conjunct1] and r1 = l [THEN conjunct2]
  note 2 = r1 [THEN conjunct1, rule_format] and r2 = r1 [THEN conjunct2]
  note 3 = r2 [THEN conjunct1, rule_format] and r3 = r2 [THEN conjunct2]
  note 4 = r3 [THEN conjunct1, THEN spec, THEN spec, THEN spec, THEN spec, THEN mp] and r4 = r3 [THEN conjunct2]
  note 5 = r4 [THEN conjunct1, THEN spec, THEN spec, THEN spec, THEN spec, THEN mp]
    and 6 = r4 [THEN conjunct2, THEN spec, THEN spec, THEN spec, THEN spec, THEN mp]
  show "storeOK exec" by (rule 1)
  show "finite (ids db)" by (rule 2)
  show "gpGateID ` set (ctOpenGates c) = ids db" if "get db = Inr c" by (rule 3 [OF that])
  show "ids db' = insert (gpGateID p) (ids db)" if "exec (ReqOpenGate (TenantID key) (SessionID key) p grant) db = (Inr en, db')"
    by (rule 4 [OF that])
  show "ids db \<subseteq> ids db' \<and> ids db' \<subseteq> insert (gpGateID p) (ids db) \<and>
        (CatalogError CatalogErrorTooLarge ''open_gates'' \<in> set e \<longrightarrow> ids db' = ids db \<and> cap \<le> card (ids db))"
    if "exec (ReqOpenGate (TenantID key) (SessionID key) p grant) db = (Inl e, db')" by (rule 5 [OF that])
  show "ids db' = ids db - {i}" if "exec (ReqResolveGate (TenantID key) (SessionID key) i grant) db = (Inr en, db')" by (rule 6 [OF that])
qed

lemma adapter_open:
  assumes law: "lawfulCatalog get exec grant key ids cap"
    and "gsOpen (adapterGates name project parse journals get exec grant key) p db = (o', db')"
  shows "if o' = None then ids db' = insert (gpGateID p) (ids db)
    else ids db \<subseteq> ids db' \<and> ids db' \<subseteq> insert (gpGateID p) (ids db) \<and> (o' = Some GateFull \<longrightarrow> ids db' = ids db \<and> cap \<le> card (ids db))"
proof -
  let ?r = "exec (ReqOpenGate (TenantID key) (SessionID key) p grant) db"
  have "gateWrite (answered classifyGateWrite (\<lambda>_. Inr ()) ?r) = (o', db')"
    using assms(2) by (simp add: adapterGates_def OpenGate_def)
  then show ?thesis
  proof (cases rule: gateWrite_cases)
    case (ok en)
    then show ?thesis using lawfulCatalogD(4) [OF law ok(1)] by simp
  next
    case (failed e)
    then show ?thesis
      using lawfulCatalogD(5) [OF law failed(1)] gateErr_classified(3) [OF storeOKD [OF lawfulCatalogD(1) [OF law] failed(1)]] by simp
  qed
qed

lemma adapter_resolve:
  assumes law: "lawfulCatalog get exec grant key ids cap"
    and "gsResolve (adapterGates name project parse journals get exec grant key) i db = (None, db')"
  shows "ids db' = ids db - {i}"
proof -
  have "gateWrite (answered classifyGateWrite (\<lambda>_. Inr ()) (exec (ReqResolveGate (TenantID key) (SessionID key) i grant) db)) = (None, db')"
    using assms(2) by (simp add: adapterGates_def ResolveGate_def)
  then show ?thesis by (cases rule: gateWrite_cases) (simp_all add: lawfulCatalogD(6) [OF law])
qed

lemma adapter_projected:
  assumes law: "lawfulCatalog get exec grant key ids cap"
    and "gsProjected (adapterGates name project parse journals get exec grant key) db = Inr ps"
  shows "gpGateID ` set ps = ids db"
proof (cases "get db")
  case (Inr c)
  with assms(2) have "ps = map GateProjection.truncate (ctOpenGates c)" by (simp add: adapterGates_def GateProjected_def)
  with lawfulCatalogD(3) [OF law Inr] show ?thesis by (simp add: image_image truncate_GateID)
qed (use assms(2) in \<open>simp add: adapterGates_def GateProjected_def\<close>)


text \<open>A catalog of two gates at most.\<close>

definition exCatalog :: "GateID list \<Rightarrow> error + CatalogRecord" where
  "exCatalog db =
     Inr \<lparr> ctTenantID = ''t'', ctSessionID = ''s'', ctAgentID = ''a'', ctRuntimeCompatibilityID = ''b'', ctCheckpointSeq = 0, ctLeaseEpoch = 3,
       ctBinding = None, ctOpenGates = map (\<lambda>i. \<lparr> gpGateID = i, gpSeq = 1, gpDeadline = 9, gpOpenedEventID = ''e'' \<rparr>) db \<rparr>"

definition exGateExec :: "GateID list exec" where
  "exGateExec req db =
     (let entry = \<lparr> seRevision = 1, seState = InboxStateClaimed \<rparr> in
      case req of
        ReqOpenGate _ _ p _ \<Rightarrow>
          if gpGateID p \<in> set db then (Inr entry, db)
          else if card (set db) \<ge> 2 then (Inl [CatalogError CatalogErrorTooLarge ''open_gates''], db)
          else (Inr entry, gpGateID p # db)
      | ReqResolveGate _ _ i _ \<Rightarrow> (Inr entry, filter (\<lambda>j. j \<noteq> i) db)
      | _ \<Rightarrow> (Inr entry, db))"

lemma exGateExec_ok: "storeOK exGateExec"
  unfolding storeOK_def
proof (intro allI impI)
  show "storeError req e" if "exGateExec req db = (Inl e, db')" for req db e db'
    using that by (cases req) (auto simp: exGateExec_def storeError_def hostNode_def partOf_def coded_def Let_def split: if_splits)
qed

lemma exCatalog_lawful: "lawfulCatalog exCatalog exGateExec 5 (Key ''t'' ''s'') set 2"
  unfolding lawfulCatalog_def
proof (intro conjI allI impI)
  show "storeOK exGateExec" by (rule exGateExec_ok)
qed (auto simp: exCatalog_def exGateExec_def Let_def image_image split: if_splits)


section \<open>Routing and durable state\<close>

lemma checkTable_None: "checkTable check readers = None \<longleftrightarrow> (\<forall>kr\<in>set readers. check kr = None)"
  by (induction readers) (auto split: option.splits)

text \<open>A router that was built serves exactly the bindings of its table, each of a tenant Core accepts.\<close>

lemma tenant_router_serves:
  assumes "NewTenantEvidenceRouter valid readers = Inr router" "distinct (map fst readers)"
  shows "router k = Some r \<longleftrightarrow> (k, Some r) \<in> set readers"
    and "router k = Some r \<Longrightarrow> valid (fst k) \<and> snd k \<noteq> []"
proof -
  have t: "\<forall>kr\<in>set readers. valid (fst (fst kr)) \<and> snd (fst kr) \<noteq> [] \<and> snd kr \<noteq> None" and r: "router = presentReaders readers"
    using assms(1) by (auto simp: NewTenantEvidenceRouter_def checkTable_None split: if_splits option.splits)
  have "map_of readers k = Some x \<longleftrightarrow> (k, x) \<in> set readers" for x using assms(2) by (simp add: map_of_eq_Some_iff)
  then show s: "router k = Some r \<longleftrightarrow> (k, Some r) \<in> set readers"
    by (cases "map_of readers k") (auto simp: r presentReaders_def)
  show "valid (fst k) \<and> snd k \<noteq> []" if "router k = Some r" using t s that by fastforce
qed

text \<open>A state read for a session with a binding names a runtime session, and one that has been read is that of a session that exists.\<close>

lemma LoadSessionState_found:
  assumes "LoadSessionState opts parse key (Inr c) = Inr st"
  shows "ssExists st" "ctBinding c = Some b \<Longrightarrow> ssRigSessionID st \<noteq> 0 \<and> parse (sbRuntimeSessionID b) = Some (ssRigSessionID st)"
    and "ssHasCheckpoint st \<longleftrightarrow> ctCheckpointSeq c \<noteq> 0" "ssCompatibilityID st = ctRuntimeCompatibilityID c"
  using assms by (auto simp: LoadSessionState_def runtimeSession_def Let_def split: option.splits sum.splits if_splits)

lemma LoadSessionState_absent:
  "LoadSessionState opts parse key (Inl e) = Inr st \<longleftrightarrow>
     (\<exists>layout. aoNamespace opts = Some layout \<and> isCatalogAbsent e \<and>
        st = \<lparr> ssExists = False, ssNamespace = layout (TenantID key) (SessionID key), ssCompatibilityID = [], ssRigSessionID = 0,
          ssRuntimeJournal = JournalUnknown, ssHasCheckpoint = False \<rparr>)"
  by (auto simp: LoadSessionState_def Let_def split: option.splits)

end
