(* ===== verification/ServiceLife.thy ===== *)
theory ServiceLife
  imports Disposition
begin

text \<open>
  The composed Host as a process: its options, and the life of its \<open>Service\<close> from composition over start,
  attaches, drain and stop to disposal (\<^verbatim>\<open>internal/compose/compose.go\<close>), with the commit point of an attach
  and the tables of resident sessions and consumers (\<^verbatim>\<open>internal/compose/adapters.go\<close>).

  Every access to the flags and tables is a critical section of the service's mutex.  One section is a
  function; the goroutines interleave between them, so their runs are the steps of \<open>svStep\<close>, each under the
  condition its caller has established before.  What a section does to the outside (launching the
  heartbeat, closing the channel of stops, closing the store) is counted.
\<close>

section \<open>Options\<close>

record ComposeOptions =
  coMaxCommandBodyBytes :: int
  coHost :: "Host option"
  coHostGeneration :: u64
  coClock :: bool
  coLeases :: bool
  coDurable :: bool
  coLocations :: bool
  coWorkspaces :: bool
  coInbox :: bool
  coCursors :: bool
  coRecords :: bool
  coWriters :: bool
  coTargets :: "int option"
  coCheckpointer :: bool
  coAuth :: bool
  coDeriveWorkStates :: bool
  coWorkStates :: bool
  coGates :: bool
  coGateReads :: bool
  coObjects :: bool
  coMaxBindingsPerLink :: int
  coMaxBindings :: int
  coMaxTenantLinks :: int
  coGrace :: int
  coIdleBoundary :: int
  coPublishBound :: int
  coCompatibilityTimeout :: int
  coWorkPoll :: int
  coGateRetry :: int

text \<open>The targets carry the longest expiry their directory takes.\<close>

fun firstMissing :: "(string \<times> bool) list \<Rightarrow> string option" where
  "firstMissing [] = None"
| "firstMissing ((field, ok) # rest) = (if \<not> ok then Some field else firstMissing rest)"

definition validateCompose :: "ComposeOptions \<Rightarrow> string option" where
  "validateCompose p =
     (if coMaxCommandBodyBytes p \<noteq> 0 \<and> (coMaxCommandBodyBytes p \<le> 64 * 2 ^ 10 \<or> coMaxCommandBodyBytes p > MaxCommandBodyBytesLimit)
      then Some ''MaxCommandBodyBytes''
      else
        (case coHost p of
           None \<Rightarrow> Some ''Host''
         | Some h \<Rightarrow>
             if coHostGeneration p = 0 then Some ''HostGeneration''
             else
               (case firstMissing
                       [(''Clock'', coClock p), (''Leases'', coLeases p), (''Durable'', coDurable p), (''Locations'', coLocations p),
                        (''Workspaces'', coWorkspaces p), (''Inbox'', coInbox p), (''Cursors'', coCursors p), (''Records'', coRecords p),
                        (''Writers'', coWriters p), (''Targets'', coTargets p \<noteq> None), (''Checkpointer'', coCheckpointer p), (''Auth'', coAuth p)] of
                  Some field \<Rightarrow> Some field
                | None \<Rightarrow>
                    if coDeriveWorkStates p \<and> coWorkStates p then Some ''DeriveWorkStates''
                    else if coDeriveWorkStates p \<and> \<not> coGates p then Some ''DeriveWorkStates''
                    else
                      (case firstMissing
                              [(''MaxBindingsPerLink'', coMaxBindingsPerLink p > 0), (''MaxBindings'', coMaxBindings p > 0),
                               (''MaxTenantLinks'', coMaxTenantLinks p > 0), (''Grace'', coGrace p > 0), (''IdleBoundary'', coIdleBoundary p > 0),
                               (''PublishBound'', coPublishBound p > 0), (''CompatibilityTimeout'', coCompatibilityTimeout p > 0),
                               (''WorkPoll'', coWorkPoll p > 0)] of
                         Some field \<Rightarrow> Some field
                       | None \<Rightarrow> if hRegistryExpiry h > the (coTargets p) then Some ''Host.RegistryExpiry'' else None))))"

definition gateRetry :: "ComposeOptions \<Rightarrow> int" where
  "gateRetry p = (if coGateRetry p \<le> 0 then 1000000000 else coGateRetry p)"

datatype HostLinkCapability = CapabilityAttributionPrincipal | CapabilityPayloadReference | CapabilityGateResponse

definition serviceCapabilities :: "ComposeOptions \<Rightarrow> HostLinkCapability list" where
  "serviceCapabilities p =
     (let caps = [CapabilityAttributionPrincipal] @ (if coObjects p then [CapabilityPayloadReference] else []) in
      if coGates p \<and> coGateReads p then CapabilityGateResponse # caps else caps)"

section \<open>The service\<close>

datatype Disposal = NotDisposed | DisposeRunning | DisposeDone "string option"

text \<open>A row of the table of residents: the generation, whether its attach settled, whether a drain halted its consumer.\<close>

record ResidentRow =
  rwGeneration :: u64
  rwSettled :: bool
  rwDrainHalted :: bool

record Service =
  svStarted :: bool
  svStarting :: bool
  svDraining :: bool
  svStopped :: bool
  svDisposed :: bool
  svDispose :: Disposal
  svAttaching :: "u64 \<rightharpoonup> Key"
  svAttachSeq :: u64
  svUnreleased :: "string list"
  svSessions :: "Key \<rightharpoonup> ResidentRow"
  svConsumers :: "Key \<rightharpoonup> handle"
  svLeases :: "Key \<rightharpoonup> handle"
  svBeats :: nat
  svStopCloses :: nat
  svStoreCloses :: nat

definition newService :: Service where
  "newService =
     \<lparr> svStarted = False, svStarting = False, svDraining = False, svStopped = False, svDisposed = False, svDispose = NotDisposed,
       svAttaching = Map.empty, svAttachSeq = 0, svUnreleased = [], svSessions = Map.empty, svConsumers = Map.empty, svLeases = Map.empty,
       svBeats = 0, svStopCloses = 0, svStoreCloses = 0 \<rparr>"

datatype LifecycleError = ErrServiceDisposed | ErrServiceActive | ErrServiceNotStarted | ErrStartsOnce | ErrPublish string

subsection \<open>Start\<close>

definition StartBegin :: "Service \<Rightarrow> LifecycleError option \<times> Service" where
  "StartBegin s =
     (if svDisposed s then (Some ErrServiceDisposed, s)
      else if svStarted s \<or> svStopped s \<or> svStarting s \<or> svDraining s then (Some ErrStartsOnce, s)
      else (None, s\<lparr> svStarting := True \<rparr>))"

definition StartEnd :: "string option \<Rightarrow> Service \<Rightarrow> LifecycleError option \<times> Service" where
  "StartEnd published s =
     (case published of
        Some e \<Rightarrow> (Some (ErrPublish e), s\<lparr> svStarting := False \<rparr>)
      | None \<Rightarrow> (None, s\<lparr> svStarting := False, svStarted := True, svBeats := svBeats s + 1 \<rparr>))"

definition Ready :: "bool \<Rightarrow> Service \<Rightarrow> bool" where
  "Ready capacityDraining s \<longleftrightarrow> svStarted s \<and> \<not> svStopped s \<and> \<not> capacityDraining"

definition Live :: "Service \<Rightarrow> bool" where
  "Live s \<longleftrightarrow> svStarted s \<and> \<not> svStopped s"

subsection \<open>Attach\<close>

definition AttachBegin :: "Key \<Rightarrow> Service \<Rightarrow> (LifecycleError + u64) \<times> Service" where
  "AttachBegin key s =
     (if svDisposed s then (Inl ErrServiceDisposed, s)
      else if \<not> svStarted s then (Inl ErrServiceNotStarted, s)
      else
        (let i = svAttachSeq s + 1 in
         (Inr i, s\<lparr> svAttachSeq := i, svAttaching := (svAttaching s)(i \<mapsto> key) \<rparr>)))"

definition AttachEnd :: "u64 \<Rightarrow> Service \<Rightarrow> Service" where
  "AttachEnd i s = s\<lparr> svAttaching := (svAttaching s)(i := None) \<rparr>"

text \<open>
  The end of an attach: a generation for one that succeeded; for one that failed, whether it is an attach
  error and what of its rollback is still held.
\<close>

datatype AttachOutcome = Attached u64 | AttachFailed "string option"

definition settleAttach :: "Key \<Rightarrow> AttachOutcome \<Rightarrow> Service \<Rightarrow> Service" where
  "settleAttach key out s =
     (case out of
        Attached generation \<Rightarrow>
          (case svSessions s key of
             Some row \<Rightarrow> if rwGeneration row = generation then s\<lparr> svSessions := (svSessions s)(key \<mapsto> row\<lparr> rwSettled := True \<rparr>) \<rparr> else s
           | None \<Rightarrow> s)
      | AttachFailed unreleased \<Rightarrow>
          (case unreleased of None \<Rightarrow> s | Some e \<Rightarrow> s\<lparr> svUnreleased := svUnreleased s @ [e] \<rparr>))"

text \<open>The commit point; \<open>commit\<close> says whether the attach may still commit.\<close>

datatype TrackError = DrainingAttachRefusal | WatchFailed

definition trackCommit :: "bool \<Rightarrow> Key \<Rightarrow> u64 \<Rightarrow> Service \<Rightarrow> TrackError option \<times> Service" where
  "trackCommit commit key generation s =
     (if svDraining s then (Some DrainingAttachRefusal, s)
      else if \<not> commit then (Some DrainingAttachRefusal, s)
      else (None, s\<lparr> svSessions := (svSessions s)(key \<mapsto> \<lparr> rwGeneration = generation, rwSettled = False, rwDrainHalted = False \<rparr>) \<rparr>))"

definition forgetRow :: "Key \<Rightarrow> u64 \<Rightarrow> Service \<Rightarrow> bool \<times> Service" where
  "forgetRow key generation s =
     (case svSessions s key of
        Some row \<Rightarrow> if rwGeneration row = generation then (True, s\<lparr> svSessions := (svSessions s)(key := None) \<rparr>) else (False, s)
      | None \<Rightarrow> (False, s))"

datatype WatchAnswer = WatchOK | WatchStopped | WatchOther

definition trackResident :: "bool \<Rightarrow> WatchAnswer \<Rightarrow> Key \<Rightarrow> u64 \<Rightarrow> Service \<Rightarrow> TrackError option \<times> Service" where
  "trackResident commit watch key generation s =
     (case trackCommit commit key generation s of
        (Some e, s1) \<Rightarrow> (Some e, s1)
      | (None, s1) \<Rightarrow> if watch = WatchOther then (Some WatchFailed, snd (forgetRow key generation s1)) else (None, s1))"

subsection \<open>Drain, stop and disposal\<close>

definition ServiceStartDrain :: "Service \<Rightarrow> LifecycleError option \<times> Service" where
  "ServiceStartDrain s =
     (if svDisposed s then (Some ErrServiceDisposed, s)
      else if svStarting s then (Some ErrServiceActive, s)
      else if \<not> svStarted s then (Some ErrServiceNotStarted, s)
      else (None, s\<lparr> svDraining := True \<rparr>))"

text \<open>The section of \<open>Stop\<close> behind the wait for the drain; the channel of stops is closed by the first caller.\<close>

definition stopMark :: "Service \<Rightarrow> Service" where
  "stopMark s = (if \<not> svStopped s then s\<lparr> svStopped := True, svStopCloses := svStopCloses s + 1 \<rparr> else s)"

definition CloseUnstarted :: "bool \<Rightarrow> Service \<Rightarrow> LifecycleError option \<times> Service" where
  "CloseUnstarted registryEmpty s =
     (if svDisposed s then (None, s)
      else if svStarting s \<or> svDraining s \<or> svStarted s \<or> svStopped s \<or> svAttaching s \<noteq> Map.empty \<or> svSessions s \<noteq> Map.empty \<or> \<not> registryEmpty
      then (Some ErrServiceActive, s)
      else (None, s\<lparr> svDisposed := True, svDispose := DisposeRunning \<rparr>))"

text \<open>The goroutine of the disposal: the transports and then the store are closed, and their errors joined.\<close>

definition disposeFinish :: "string option \<Rightarrow> Service \<Rightarrow> Service" where
  "disposeFinish errs s = s\<lparr> svDispose := DisposeDone errs, svStoreCloses := svStoreCloses s + 1 \<rparr>"

text \<open>What a caller of the disposal is told: nothing yet, the context's end, or the shared result.\<close>

definition disposeWait :: "bool \<Rightarrow> Service \<Rightarrow> string option option" where
  "disposeWait ctxDone s =
     (case svDispose s of DisposeDone errs \<Rightarrow> Some errs | _ \<Rightarrow> if ctxDone then Some (Some ''context'') else None)"

subsection \<open>Waiting for attaches\<close>

text \<open>
  The attaches in flight at the call that a filter selects, in some order.  At the \<open>n\<close>-th of them the
  select sees it done or sees the context end; then those already done are left out of the answer.
\<close>

definition inflight :: "(Key \<Rightarrow> bool) \<Rightarrow> u64 list \<Rightarrow> Service \<Rightarrow> (u64 \<times> Key) list" where
  "inflight selected order s = [(i, the (svAttaching s i)). i \<leftarrow> order, svAttaching s i \<noteq> None, selected (the (svAttaching s i))]"

fun awaitLoop :: "(u64 \<Rightarrow> bool) \<Rightarrow> (u64 \<Rightarrow> bool) \<Rightarrow> (u64 \<times> Key) list \<Rightarrow> (u64 \<times> Key) list" where
  "awaitLoop seen doneNow [] = []"
| "awaitLoop seen doneNow ((i, key) # rest) =
     (if seen i then awaitLoop seen doneNow rest
      else filter (\<lambda>left. \<not> doneNow (fst left)) ((i, key) # rest))"

definition awaitAttaches :: "(Key \<Rightarrow> bool) \<Rightarrow> u64 list \<Rightarrow> (u64 \<Rightarrow> bool) \<Rightarrow> (u64 \<Rightarrow> bool) \<Rightarrow> Service \<Rightarrow> (u64 \<times> Key) list" where
  "awaitAttaches selected order seen doneNow s = awaitLoop seen doneNow (inflight selected order s)"

subsection \<open>Consumers and leases\<close>

definition ConsumerFor :: "Key \<Rightarrow> Service \<Rightarrow> handle option" where
  "ConsumerFor key s = svConsumers s key"

definition recordConsumer :: "Key \<Rightarrow> handle \<Rightarrow> Service \<Rightarrow> Service" where
  "recordConsumer key c s = s\<lparr> svConsumers := (svConsumers s)(key \<mapsto> c) \<rparr>"

definition forgetConsumer :: "Key \<Rightarrow> Service \<Rightarrow> Service" where
  "forgetConsumer key s = s\<lparr> svConsumers := (svConsumers s)(key := None) \<rparr>"

text \<open>
  The lease of a session is recorded once its gates are fenced; a lease that could not be is given back,
  and one that could not be given back is returned as a cleanup that is still owed.
\<close>

datatype RecordedLease = LeaseRecorded handle | LeaseNotAcquired | FenceFailedReleased | FenceFailedHeld

definition recordLease :: "Key \<Rightarrow> handle option \<Rightarrow> bool \<Rightarrow> bool \<Rightarrow> Service \<Rightarrow> RecordedLease \<times> Service" where
  "recordLease key acquired fenced' released s =
     (case acquired of
        None \<Rightarrow> (LeaseNotAcquired, s)
      | Some lease \<Rightarrow>
          if \<not> fenced' then ((if released then FenceFailedReleased else FenceFailedHeld), s)
          else (LeaseRecorded lease, s\<lparr> svLeases := (svLeases s)(key \<mapsto> lease) \<rparr>))"

subsection \<open>Halting consumption\<close>

text \<open>What is asked of a consumer: a halt, a resumption, or nothing when there is none.\<close>

datatype ConsumerCall = CallHalt handle | CallResume handle

definition HaltConsumption :: "Key \<Rightarrow> Service \<Rightarrow> ConsumerCall option" where
  "HaltConsumption key s = map_option CallHalt (svConsumers s key)"

definition ResumeConsumption :: "Key \<Rightarrow> Service \<Rightarrow> ConsumerCall option" where
  "ResumeConsumption key s =
     (case svSessions s key of
        Some row \<Rightarrow> if rwDrainHalted row then None else map_option CallResume (svConsumers s key)
      | None \<Rightarrow> map_option CallResume (svConsumers s key))"

definition haltForDrain :: "Key \<Rightarrow> u64 \<Rightarrow> Service \<Rightarrow> ConsumerCall option \<times> Service" where
  "haltForDrain key generation s =
     (map_option CallHalt (svConsumers s key),
      (case svSessions s key of
         Some row \<Rightarrow> if rwGeneration row = generation then s\<lparr> svSessions := (svSessions s)(key \<mapsto> row\<lparr> rwDrainHalted := True \<rparr>) \<rparr> else s
       | None \<Rightarrow> s))"

section \<open>Runs\<close>

text \<open>
  The sections that goroutines take in any order.  A start is finished by the goroutine that began it,
  so only while one is in flight; the commit of an attach and its end happen inside an attach in flight;
  the stop's section comes behind a drain that was accepted; the disposal's goroutine runs once launched.
  The capacity's registry may be empty or not when a disposal looks.
\<close>

inductive svStep :: "Service \<Rightarrow> Service \<Rightarrow> bool" where
  start_begin: "StartBegin s = (r, s') \<Longrightarrow> svStep s s'"
| start_end: "svStarting s \<Longrightarrow> StartEnd published s = (r, s') \<Longrightarrow> svStep s s'"
| attach_begin: "AttachBegin key s = (r, s') \<Longrightarrow> svStep s s'"
| track: "svAttaching s i = Some key \<Longrightarrow> trackCommit commit key generation s = (r, s') \<Longrightarrow> svStep s s'"
| settle: "svAttaching s i = Some key \<Longrightarrow> svStep s (settleAttach key out s)"
| attach_end: "svAttaching s i = Some key \<Longrightarrow> svStep s (AttachEnd i s)"
| forget: "svStep s (snd (forgetRow key generation s))"
| halt: "haltForDrain key generation s = (r, s') \<Longrightarrow> svStep s s'"
| record_consumer: "svAttaching s i = Some key \<Longrightarrow> svStep s (recordConsumer key c s)"
| forget_consumer: "svStep s (forgetConsumer key s)"
| record_lease: "svAttaching s i = Some key \<Longrightarrow> recordLease key acquired fenced' released s = (r, s') \<Longrightarrow> svStep s s'"
| start_drain: "ServiceStartDrain s = (r, s') \<Longrightarrow> svStep s s'"
| stop: "svDraining s \<Longrightarrow> svStep s (stopMark s)"
| close_unstarted: "CloseUnstarted registryEmpty s = (r, s') \<Longrightarrow> svStep s s'"
| dispose: "svDispose s = DisposeRunning \<Longrightarrow> svStep s (disposeFinish errs s)"

inductive_cases svStepE: "svStep s s'"

inductive svReach :: "Service \<Rightarrow> bool" where
  init: "svReach newService"
| step: "svReach s \<Longrightarrow> svStep s s' \<Longrightarrow> svReach s'"

lemmas sv_ops = StartBegin_def StartEnd_def AttachBegin_def trackCommit_def settleAttach_def AttachEnd_def forgetRow_def haltForDrain_def
  recordConsumer_def forgetConsumer_def recordLease_def ServiceStartDrain_def stopMark_def CloseUnstarted_def disposeFinish_def Let_def

text \<open>What holds of the flags and of what was done outside.\<close>

definition life_inv :: "Service \<Rightarrow> bool" where
  "life_inv s \<longleftrightarrow>
     (svStopped s \<longrightarrow> svDraining s) \<and> (svDraining s \<longrightarrow> svStarted s) \<and> (svStarted s \<longrightarrow> \<not> svStarting s) \<and>
     svBeats s = (if svStarted s then 1 else 0) \<and> svStopCloses s = (if svStopped s then 1 else 0) \<and>
     (svAttaching s \<noteq> Map.empty \<longrightarrow> svStarted s) \<and> (svSessions s \<noteq> Map.empty \<longrightarrow> svStarted s) \<and>
     (svDisposed s \<longrightarrow> \<not> svStarted s \<and> \<not> svStarting s) \<and> (svDisposed s \<longleftrightarrow> svDispose s \<noteq> NotDisposed) \<and>
     svStoreCloses s = (case svDispose s of DisposeDone _ \<Rightarrow> 1 | _ \<Rightarrow> 0)"

lemma svStep_life: "svStep s s' \<Longrightarrow> life_inv s \<Longrightarrow> life_inv s'"
proof (induction rule: svStep.induct)
  case (track s i key commit generation r s')
  then have "svStarted s" by (auto simp: life_inv_def)
  with track show ?case by (auto simp: life_inv_def sv_ops split: if_splits)
next
  case (settle s i key out)
  then have "svStarted s" by (auto simp: life_inv_def)
  with settle show ?case by (auto simp: life_inv_def sv_ops split: AttachOutcome.splits option.splits if_splits)
next
  case (attach_end s i key)
  then have "svStarted s" by (auto simp: life_inv_def)
  with attach_end show ?case by (auto simp: life_inv_def sv_ops)
next
  case (record_consumer s i key c)
  then show ?case by (simp add: life_inv_def sv_ops)
next
  case (record_lease s i key acquired fenced' released r s')
  then show ?case by (auto simp: life_inv_def sv_ops split: option.splits if_splits)
next
  case (halt key generation s r s')
  then show ?case by (auto simp: life_inv_def sv_ops split: option.splits if_splits)
next
  case (forget s key generation)
  then show ?case by (auto simp: life_inv_def sv_ops split: option.splits if_splits)
qed (auto simp: life_inv_def sv_ops split: if_splits option.splits)

lemma svReach_life: "svReach s \<Longrightarrow> life_inv s"
  by (induction rule: svReach.induct) (simp add: life_inv_def newService_def, rule svStep_life)

text \<open>A draining service takes no session in: the table only shrinks, and what is in it keeps its generation.\<close>

definition onlyForgets :: "Service \<Rightarrow> Service \<Rightarrow> bool" where
  "onlyForgets s s' \<longleftrightarrow>
     svDraining s' \<and> (\<forall>key row. svSessions s' key = Some row \<longrightarrow> (\<exists>row0. svSessions s key = Some row0 \<and> rwGeneration row0 = rwGeneration row))"

lemma svStep_draining: "svStep s s' \<Longrightarrow> svDraining s \<Longrightarrow> onlyForgets s s'"
  by (induction rule: svStep.induct)
    (auto simp: onlyForgets_def sv_ops split: if_splits option.splits AttachOutcome.splits)

lemma draining_only_forgets: "svStep\<^sup>*\<^sup>* s s' \<Longrightarrow> svDraining s \<Longrightarrow> onlyForgets s s'"
proof (induction rule: rtranclp_induct)
  case (step s1 s2)
  then show ?case using svStep_draining [of s1 s2] by (fastforce simp: onlyForgets_def)
qed (simp add: onlyForgets_def)

text \<open>A wait that reports nothing has seen every attach it selected end.\<close>

lemma awaitLoop_done:
  assumes "awaitLoop seen doneNow xs = []" "\<And>i. seen i \<Longrightarrow> ended i" "\<And>i. doneNow i \<Longrightarrow> ended i" "x \<in> set xs"
  shows "ended (fst x)"
  using assms(1,4)
proof (induction xs)
  case (Cons y ys)
  then show ?case using assms(2,3) by (cases y) (auto simp: filter_empty_conv split: if_splits)
qed simp

lemma awaitAttaches_done:
  assumes "awaitAttaches selected order seen doneNow s = []" "\<And>i. seen i \<Longrightarrow> ended i" "\<And>i. doneNow i \<Longrightarrow> ended i"
    and "set order = dom (svAttaching s)" "svAttaching s i = Some key" "selected key"
  shows "ended i"
proof -
  have "(i, key) \<in> set (inflight selected order s)" using assms(4-6) by (force simp: inflight_def)
  from awaitLoop_done [OF assms(1) [unfolded awaitAttaches_def] assms(2,3) this] show ?thesis by simp
qed


text \<open>A start, an attach that commits, and a drain.\<close>

lemma exRun_reach:
  "svReach (snd (trackCommit True (Key ''t'' ''s'') 7 (snd (AttachBegin (Key ''t'' ''s'') (snd (StartEnd None (snd (StartBegin newService))))))))"
proof -
  let ?s1 = "snd (StartBegin newService)"
  have "svReach ?s1" by (rule svReach.step [OF svReach.init svStep.start_begin [of _ "fst (StartBegin newService)"]]) simp
  then have "svReach (snd (StartEnd None ?s1))"
    by (rule svReach.step) (rule svStep.start_end [of _ None None], simp_all add: StartBegin_def StartEnd_def newService_def)
  then have a: "svReach (snd (AttachBegin (Key ''t'' ''s'') (snd (StartEnd None ?s1))))"
    by (rule svReach.step) (rule svStep.attach_begin [of "Key ''t'' ''s''" _ "fst (AttachBegin (Key ''t'' ''s'') (snd (StartEnd None ?s1)))"], simp)
  show ?thesis
    by (rule svReach.step [OF a], rule svStep.track [of _ 1 "Key ''t'' ''s''" True 7 None])
      (simp_all add: StartBegin_def StartEnd_def AttachBegin_def trackCommit_def newService_def Let_def)
qed


section \<open>Beginning ownership\<close>

text \<open>
  The parts of a session's ownership: the heartbeat behind its handle, the supervised tail, the gate
  publisher, the consumer.  What the constructors answer is given; whether the service drains is read at
  the early check and again, in the service's own state, at the commit point.
\<close>

datatype WorkPart = PHandle | PTail | PGates | PConsumer

datatype WorkAct = Began WorkPart | Ended WorkPart | InvalidatedRoutes Key

datatype WorkError =
    OwnershipDraining | OwnershipInner | NoReleaseHalves | NoRecordedLease | WorkRefused string | OwnershipTrack TrackError

record WorkAnswers =
  waDraining :: bool
  waInner :: bool
  waHalves :: bool
  waWriter :: bool
  waApplier :: bool
  waConsumer :: "handle option"
  waLink :: bool
  waTail :: bool
  waGateSession :: "bool option"
  waGatePublisher :: bool
  waCommit :: bool
  waWatch :: WatchAnswer

definition beginWork :: "WorkAnswers \<Rightarrow> Key \<Rightarrow> Service \<Rightarrow> WorkError option \<times> WorkAct list \<times> Service" where
  "beginWork wa key s =
     (if svLeases s key = None then (Some NoRecordedLease, [], s)
      else if \<not> waWriter wa then (Some (WorkRefused ''writer''), [], s)
      else if \<not> waApplier wa then (Some (WorkRefused ''applier''), [], s)
      else
        (case waConsumer wa of
           None \<Rightarrow> (Some (WorkRefused ''consumer''), [], s)
         | Some c \<Rightarrow>
             if \<not> waLink wa then (Some (WorkRefused ''link''), [], s)
             else if \<not> waTail wa then (Some (WorkRefused ''tail''), [], s)
             else
               (case waGateSession wa of
                  None \<Rightarrow> (None, [Began PTail, Began PConsumer], recordConsumer key c s)
                | Some False \<Rightarrow> (Some (WorkRefused ''gate session''), [Began PTail, Ended PTail], s)
                | Some True \<Rightarrow>
                    if \<not> waGatePublisher wa then (Some (WorkRefused ''gate publisher''), [Began PTail, Ended PTail], s)
                    else (None, [Began PTail, Began PGates, Began PConsumer], recordConsumer key c s))))"

definition endWork :: "WorkAnswers \<Rightarrow> Key \<Rightarrow> Service \<Rightarrow> WorkAct list \<times> Service" where
  "endWork wa key s =
     ([Ended PTail] @ (if waGateSession wa = None then [] else [Ended PGates]) @ [Ended PConsumer, InvalidatedRoutes key], forgetConsumer key s)"

definition BeginOwnership :: "WorkAnswers \<Rightarrow> Key \<Rightarrow> u64 \<Rightarrow> Service \<Rightarrow> WorkError option \<times> WorkAct list \<times> Service" where
  "BeginOwnership wa key generation s =
     (if waDraining wa then (Some OwnershipDraining, [], s)
      else if \<not> waInner wa then (Some OwnershipInner, [], s)
      else if \<not> waHalves wa then (Some NoReleaseHalves, [Began PHandle, Ended PHandle], s)
      else
        (case beginWork wa key s of
           (Some e, acts, s1) \<Rightarrow> (Some e, [Began PHandle] @ acts @ [Ended PHandle], s1)
         | (None, acts, s1) \<Rightarrow>
             (case trackResident (waCommit wa) (waWatch wa) key generation s1 of
                (Some e, s2) \<Rightarrow>
                  (case endWork wa key s2 of
                     (acts', s3) \<Rightarrow> (Some (OwnershipTrack e), [Began PHandle] @ acts @ acts' @ [Ended PHandle], s3))
              | (None, s2) \<Rightarrow> (None, [Began PHandle] @ acts, s2))))"

definition running :: "WorkAct list \<Rightarrow> WorkPart \<Rightarrow> int" where
  "running acts p = int (count_list acts (Began p)) - int (count_list acts (Ended p))"

lemma running_simps [simp]:
  "running [] p = 0" "running (Began q # acts) p = (if q = p then 1 else 0) + running acts p"
  "running (Ended q # acts) p = running acts p - (if q = p then 1 else 0)" "running (InvalidatedRoutes k # acts) p = running acts p"
  "running (acts @ acts') p = running acts p + running acts' p"
  by (simp_all add: running_def)

text \<open>
  C30: an attach owns all of a session's machinery or none of it.  Whatever the constructors answer and
  whenever the drain begins, a beginning of ownership that is refused has ended every part it began and
  left the table of residents as it was, or without the session's row when the row could not be watched,
  and the table of consumers as it was or without the session's; one that
  succeeds runs its heartbeat, its tail and its consumer once each, and its gate publisher exactly when
  gates are configured, and the session is in the table the drain reads.
\<close>

theorem ownership_all_or_nothing:
  "case BeginOwnership wa key generation s of
     (Some e, acts, s') \<Rightarrow>
       (\<forall>p. running acts p = 0) \<and>
       (svSessions s' = svSessions s \<or> svSessions s' = (svSessions s)(key := None) \<and> e = OwnershipTrack WatchFailed) \<and>
       (svConsumers s' = svConsumers s \<or> svConsumers s' key = None)
   | (None, acts, s') \<Rightarrow>
       \<not> svDraining s' \<and> svSessions s' key = Some \<lparr> rwGeneration = generation, rwSettled = False, rwDrainHalted = False \<rparr> \<and>
       running acts PHandle = 1 \<and> running acts PTail = 1 \<and> running acts PConsumer = 1 \<and>
       running acts PGates = (if waGateSession wa = None then 0 else 1) \<and> svConsumers s' key = waConsumer wa"
proof (cases "waDraining wa \<or> \<not> waInner wa \<or> \<not> waHalves wa")
  case True
  then show ?thesis by (auto simp: BeginOwnership_def)
next
  case False
  obtain r acts s1 where w: "beginWork wa key s = (r, acts, s1)" by (metis prod_cases3)
  have refused: "r \<noteq> None \<Longrightarrow> s1 = s \<and> (\<forall>p. running acts p = 0)"
    using w by (auto simp: beginWork_def split: if_splits option.splits bool.splits)
  have begun: "r = None \<Longrightarrow> (\<exists>c. waConsumer wa = Some c \<and> s1 = recordConsumer key c s) \<and>
      acts = [Began PTail] @ (if waGateSession wa = None then [] else [Began PGates]) @ [Began PConsumer]"
    using w by (auto simp: beginWork_def split: if_splits option.splits bool.splits)
  show ?thesis
  proof (cases r)
    case (Some e)
    with False w refused show ?thesis by (simp add: BeginOwnership_def)
  next
    case None
    then obtain c where c: "waConsumer wa = Some c" "s1 = recordConsumer key c s"
      and acts: "acts = [Began PTail] @ (if waGateSession wa = None then [] else [Began PGates]) @ [Began PConsumer]"
      using begun by blast
    show ?thesis using False w None c acts
      by (auto simp: BeginOwnership_def trackResident_def trackCommit_def forgetRow_def endWork_def recordConsumer_def forgetConsumer_def
          split: prod.splits)
  qed
qed

end
