(* ===== verification/Links.thy ===== *)
theory Links
  imports Host_Prelude
begin

text \<open>
  The table of tenant links, \<^verbatim>\<open>internal/compose/links.go\<close>: one routing table, transport and relay per tenant,
  at most so many of them, built when a tenant is first named and reclaimed when it holds no binding.

  A link is known by the number of its building, so that a link built again for the same tenant is
  another one.  How many bindings a link's routing table holds changes behind the table's back and is
  read from \<open>len\<close>; the order in which a map is visited is given.  \<open>lkServers\<close> records which transports were
  built and which were closed.
\<close>

section \<open>The table\<close>

record tenantLink =
  tlId :: nat
  tlLastUsed :: instant

record Links =
  lkMax :: int
  lkByTenant :: "tenant_id \<rightharpoonup> tenantLink"
  lkClosed :: bool
  lkNext :: nat
  lkClosedServers :: "nat list"

definition newLinks :: "int \<Rightarrow> Links" where
  "newLinks mx = \<lparr> lkMax = mx, lkByTenant = Map.empty, lkClosed = False, lkNext = 0, lkClosedServers = [] \<rparr>"

datatype LinkError = InvalidTenant | ErrHostClosed | ErrTooManyTenants | BuildFailed

definition linkCount :: "Links \<Rightarrow> nat" where
  "linkCount l = card (dom (lkByTenant l))"

text \<open>The least recently used of the links without a binding, over the tenants in the order of the visit.\<close>

fun victim :: "(nat \<Rightarrow> nat) \<Rightarrow> (tenant_id \<rightharpoonup> tenantLink) \<Rightarrow> tenant_id list \<Rightarrow> (tenant_id \<times> tenantLink) option \<Rightarrow> (tenant_id \<times> tenantLink) option" where
  "victim len table [] best = best"
| "victim len table (t # ts) best =
     (case table t of
        None \<Rightarrow> victim len table ts best
      | Some link \<Rightarrow>
          if len (tlId link) \<noteq> 0 then victim len table ts best
          else
            (case best of
               None \<Rightarrow> victim len table ts (Some (t, link))
             | Some (_, b) \<Rightarrow> if tlLastUsed link < tlLastUsed b then victim len table ts (Some (t, link)) else victim len table ts best))"

definition reclaimLocked :: "(nat \<Rightarrow> nat) \<Rightarrow> tenant_id list \<Rightarrow> Links \<Rightarrow> bool \<times> Links" where
  "reclaimLocked len order l =
     (case victim len (lkByTenant l) order None of
        None \<Rightarrow> (False, l)
      | Some (t, link) \<Rightarrow>
          (True, l\<lparr> lkByTenant := (lkByTenant l)(t := None), lkClosedServers := lkClosedServers l @ [tlId link] \<rparr>))"

definition buildLink :: "instant \<Rightarrow> tenant_id \<Rightarrow> Links \<Rightarrow> tenantLink \<times> Links" where
  "buildLink now tenant l =
     (let link = \<lparr> tlId = lkNext l, tlLastUsed = now \<rparr> in
      (link, l\<lparr> lkByTenant := (lkByTenant l)(tenant \<mapsto> link), lkNext := lkNext l + 1 \<rparr>))"

definition resolve ::
  "(tenant_id \<Rightarrow> bool) \<Rightarrow> (nat \<Rightarrow> nat) \<Rightarrow> tenant_id list \<Rightarrow> bool \<Rightarrow> instant \<Rightarrow> tenant_id \<Rightarrow> Links \<Rightarrow> (LinkError + tenantLink) \<times> Links" where
  "resolve valid len order builds now tenant l =
     (if \<not> valid tenant then (Inl InvalidTenant, l)
      else if lkClosed l then (Inl ErrHostClosed, l)
      else
        (case lkByTenant l tenant of
           Some existing \<Rightarrow>
             (let used = existing\<lparr> tlLastUsed := now \<rparr> in (Inr used, l\<lparr> lkByTenant := (lkByTenant l)(tenant \<mapsto> used) \<rparr>))
         | None \<Rightarrow>
             (case (if int (linkCount l) \<ge> lkMax l then reclaimLocked len order l else (True, l)) of
                (False, l1) \<Rightarrow> (Inl ErrTooManyTenants, l1)
              | (True, l1) \<Rightarrow>
                  if \<not> builds then (Inl BuildFailed, l1)
                  else (case buildLink now tenant l1 of (link, l2) \<Rightarrow> (Inr link, l2)))))"

definition lookup :: "tenant_id \<Rightarrow> Links \<Rightarrow> tenantLink option" where
  "lookup tenant l = lkByTenant l tenant"

text \<open>
  Every transport in the table is closed, each under the caller's context; the errors are joined.  The
  code closes them after it has given up the lock: by then the table is empty and marked closed, so no
  other operation reaches them, and \<open>lkClosedServers\<close> records them with the step that took them over.
\<close>

definition CloseLinks :: "tenant_id list \<Rightarrow> (nat \<Rightarrow> string option) \<Rightarrow> Links \<Rightarrow> string list \<times> Links" where
  "CloseLinks order close l =
     (let live = map (\<lambda>t. tlId (the (lkByTenant l t))) (filter (\<lambda>t. lkByTenant l t \<noteq> None) order) in
      (concat (map (\<lambda>i. case close i of None \<Rightarrow> [] | Some e \<Rightarrow> [e]) live),
       l\<lparr> lkClosed := True, lkByTenant := Map.empty, lkClosedServers := lkClosedServers l @ live \<rparr>))"

section \<open>The handler\<close>

definition tenantFromPath :: "string \<Rightarrow> string \<Rightarrow> string option" where
  "tenantFromPath prefix' path =
     (if take (length prefix') path \<noteq> prefix' then None
      else
        (let rest = drop (length prefix') path in
         if rest = [] \<or> CHR ''/'' \<in> set rest then None else Some rest))"

datatype Answer = StatusNotFound | StatusServiceUnavailable | StatusBadRequest | Served tenantLink

definition linkHandler ::
  "string \<Rightarrow> (tenant_id \<Rightarrow> bool) \<Rightarrow> (nat \<Rightarrow> nat) \<Rightarrow> tenant_id list \<Rightarrow> bool \<Rightarrow> instant \<Rightarrow> string \<Rightarrow> Links \<Rightarrow> Answer \<times> Links" where
  "linkHandler prefix' valid len order builds now path l =
     (case tenantFromPath prefix' path of
        None \<Rightarrow> (StatusNotFound, l)
      | Some name \<Rightarrow>
          (case resolve valid len order builds now name l of
             (Inr link, l1) \<Rightarrow> (Served link, l1)
           | (Inl ErrTooManyTenants, l1) \<Rightarrow> (StatusServiceUnavailable, l1)
           | (Inl ErrHostClosed, l1) \<Rightarrow> (StatusServiceUnavailable, l1)
           | (Inl _, l1) \<Rightarrow> (StatusBadRequest, l1)))"

section \<open>Runs\<close>

datatype LinkOp = OpResolve "nat \<Rightarrow> nat" "tenant_id list" bool instant tenant_id | OpClose "tenant_id list"

definition linkExec :: "(tenant_id \<Rightarrow> bool) \<Rightarrow> LinkOp \<Rightarrow> Links \<Rightarrow> Links" where
  "linkExec valid op l =
     (case op of
        OpResolve len order builds now tenant \<Rightarrow> snd (resolve valid len order builds now tenant l)
      | OpClose order \<Rightarrow> snd (CloseLinks order (\<lambda>_. None) l))"

text \<open>The orders visit the whole table, each tenant once.\<close>

definition visits :: "Links \<Rightarrow> LinkOp \<Rightarrow> bool" where
  "visits l op = (case op of OpResolve _ order _ _ _ \<Rightarrow> set order = dom (lkByTenant l) \<and> distinct order
     | OpClose order \<Rightarrow> set order = dom (lkByTenant l) \<and> distinct order)"

fun linkRun :: "(tenant_id \<Rightarrow> bool) \<Rightarrow> LinkOp list \<Rightarrow> Links \<Rightarrow> Links" where
  "linkRun valid [] l = l"
| "linkRun valid (op # ops) l = linkRun valid ops (linkExec valid op l)"

fun linkVisits :: "(tenant_id \<Rightarrow> bool) \<Rightarrow> LinkOp list \<Rightarrow> Links \<Rightarrow> bool" where
  "linkVisits valid [] l \<longleftrightarrow> True"
| "linkVisits valid (op # ops) l \<longleftrightarrow> visits l op \<and> linkVisits valid ops (linkExec valid op l)"

definition liveServers :: "Links \<Rightarrow> nat set" where
  "liveServers l = tlId ` ran (lkByTenant l)"

text \<open>
  Every transport that was built is in the table or closed, not both, and no two tenants share one; the
  table is finite and within its bound; a closed table is empty.
\<close>

definition soleTenant :: "Links \<Rightarrow> bool" where
  "soleTenant l \<longleftrightarrow> (\<forall>t t' a b. lkByTenant l t = Some a \<and> lkByTenant l t' = Some b \<and> tlId a = tlId b \<longrightarrow> t = t')"

definition links_inv :: "Links \<Rightarrow> bool" where
  "links_inv l \<longleftrightarrow>
     finite (dom (lkByTenant l)) \<and> int (linkCount l) \<le> max 0 (lkMax l) \<and>
     soleTenant l \<and> distinct (lkClosedServers l) \<and> liveServers l \<inter> set (lkClosedServers l) = {} \<and>
     liveServers l \<union> set (lkClosedServers l) = {..<lkNext l} \<and>
     (lkClosed l \<longrightarrow> lkByTenant l = Map.empty)"

lemmas link_run_simps = newLinks_def visits_def linkExec_def resolve_def linkCount_def reclaimLocked_def buildLink_def CloseLinks_def lookup_def Let_def

section \<open>Reclaiming\<close>

definition idleLink :: "(nat \<Rightarrow> nat) \<Rightarrow> (tenant_id \<rightharpoonup> tenantLink) \<Rightarrow> tenant_id \<times> tenantLink \<Rightarrow> bool" where
  "idleLink len table kl \<longleftrightarrow> table (fst kl) = Some (snd kl) \<and> len (tlId (snd kl)) = 0"

lemma victim_least:
  assumes "\<forall>b. best = Some b \<longrightarrow> idleLink len table b"
  shows "case victim len table ts best of
      None \<Rightarrow> best = None \<and> (\<forall>t\<in>set ts. \<forall>b. \<not> idleLink len table (t, b))
    | Some v \<Rightarrow> idleLink len table v \<and> (\<forall>b. best = Some b \<longrightarrow> tlLastUsed (snd v) \<le> tlLastUsed (snd b)) \<and>
        (\<forall>t\<in>set ts. \<forall>b. idleLink len table (t, b) \<longrightarrow> tlLastUsed (snd v) \<le> tlLastUsed b)"
  using assms
proof (induction ts arbitrary: best)
  case Nil
  then show ?case by (cases best) auto
next
  case (Cons t ts)
  show ?case
  proof (cases "\<exists>b. idleLink len table (t, b)")
    case False
    then have "victim len table (t # ts) best = victim len table ts best" by (auto simp: idleLink_def split: option.splits)
    with Cons.IH [OF Cons.prems] False show ?thesis by (cases "victim len table ts best") auto
  next
    case True
    then obtain link where link: "table t = Some link" "len (tlId link) = 0" by (auto simp: idleLink_def)
    define best' where "best' = (case best of None \<Rightarrow> Some (t, link) | Some (u, b) \<Rightarrow> if tlLastUsed link < tlLastUsed b then Some (t, link) else best)"
    have v: "victim len table (t # ts) best = victim len table ts best'" using link by (auto simp: best'_def split: option.splits)
    have ok: "\<forall>b. best' = Some b \<longrightarrow> idleLink len table b"
      using Cons.prems link by (auto simp: best'_def idleLink_def split: option.splits if_splits)
    have le: "\<exists>b'. best' = Some b' \<and> tlLastUsed (snd b') \<le> tlLastUsed link \<and> (\<forall>b. best = Some b \<longrightarrow> tlLastUsed (snd b') \<le> tlLastUsed (snd b))"
      by (auto simp: best'_def split: option.splits)
    have me: "idleLink len table (t, b) \<Longrightarrow> b = link" for b using link by (simp add: idleLink_def)
    from Cons.IH [OF ok] le me show ?thesis unfolding v by (cases "victim len table ts best'") fastforce+
  qed
qed

lemma reclaim_cases:
  assumes "reclaimLocked len order l = (ok, l')"
  obtains (none) "\<not> ok" "l' = l" "\<forall>t\<in>set order. \<forall>b. \<not> idleLink len (lkByTenant l) (t, b)"
  | (some) t link where "ok" "idleLink len (lkByTenant l) (t, link)"
      "l' = l\<lparr> lkByTenant := (lkByTenant l)(t := None), lkClosedServers := lkClosedServers l @ [tlId link] \<rparr>"
      "\<forall>t'\<in>set order. \<forall>b. idleLink len (lkByTenant l) (t', b) \<longrightarrow> tlLastUsed link \<le> tlLastUsed b"
proof (cases "victim len (lkByTenant l) order None")
  case None
  then show thesis using victim_least [of None len "lkByTenant l" order] assms none by (simp add: reclaimLocked_def)
next
  case (Some v)
  obtain t link where v: "v = (t, link)" by fastforce
  show thesis by (rule some) (use Some victim_least [of None len "lkByTenant l" order] assms v in \<open>auto simp: reclaimLocked_def\<close>)
qed

section \<open>The invariant\<close>

lemma liveServers_iff: "i \<in> liveServers l \<longleftrightarrow> (\<exists>t a. lkByTenant l t = Some a \<and> tlId a = i)"
  by (auto simp: liveServers_def ran_def)

lemma soleTenantD: "soleTenant l \<Longrightarrow> lkByTenant l t = Some a \<Longrightarrow> lkByTenant l t' = Some b \<Longrightarrow> tlId a = tlId b \<Longrightarrow> t = t'"
  unfolding soleTenant_def by blast

lemma remove_inv:
  assumes inv: "links_inv l" and t: "lkByTenant l t = Some link" and open': "\<not> lkClosed l"
    and l': "l' = l\<lparr> lkByTenant := (lkByTenant l)(t := None), lkClosedServers := lkClosedServers l @ [tlId link] \<rparr>"
  shows "links_inv l'" "linkCount l' = linkCount l - 1" "linkCount l > 0"
proof -
  have fin: "finite (dom (lkByTenant l))" and td: "t \<in> dom (lkByTenant l)" and sole: "soleTenant l"
    using inv t by (auto simp: links_inv_def)
  have d: "dom (lkByTenant l') = dom (lkByTenant l) - {t}" by (auto simp: l')
  show c: "linkCount l' = linkCount l - 1" unfolding linkCount_def d using fin td by simp
  show "linkCount l > 0" unfolding linkCount_def using fin td card_gt_0_iff by blast
  have sub: "lkByTenant l' u = Some a \<longleftrightarrow> u \<noteq> t \<and> lkByTenant l u = Some a" for u a by (simp add: l')
  have live: "liveServers l' = liveServers l - {tlId link}"
  proof (rule set_eqI)
    fix i
    have "u = t" if "lkByTenant l u = Some a" "tlId a = tlId link" for u a using soleTenantD [OF sole that(1) t that(2)] .
    then show "i \<in> liveServers l' \<longleftrightarrow> i \<in> liveServers l - {tlId link}"
      unfolding Diff_iff singleton_iff liveServers_iff sub using t by (metis option.inject)
  qed
  have in': "tlId link \<in> liveServers l" using t by (auto simp: liveServers_iff)
  have "lkMax l' = lkMax l" by (simp add: l')
  moreover have "int (linkCount l) \<le> max 0 (lkMax l)" using inv by (simp add: links_inv_def)
  ultimately have "int (linkCount l') \<le> max 0 (lkMax l')" using c by linarith
  moreover have "soleTenant l'" using sole unfolding soleTenant_def sub by (elim all_forward) simp
  moreover have "liveServers l' \<inter> set (lkClosedServers l') = {}" "liveServers l' \<union> set (lkClosedServers l') = {..<lkNext l'}"
    "distinct (lkClosedServers l')"
    unfolding live using inv in' by (auto simp: links_inv_def l')
  ultimately show "links_inv l'"
    using fin d open' by (simp add: links_inv_def l')
qed

lemma build_inv:
  assumes inv: "links_inv l" and free: "lkByTenant l tenant = None" "\<not> lkClosed l" and room: "int (linkCount l) < lkMax l"
    and b: "buildLink now tenant l = (link, l')"
  shows "links_inv l'"
proof -
  have fin: "finite (dom (lkByTenant l))" and sole: "soleTenant l" using inv by (simp_all add: links_inv_def)
  have l': "l' = l\<lparr> lkByTenant := (lkByTenant l)(tenant \<mapsto> \<lparr> tlId = lkNext l, tlLastUsed = now \<rparr>), lkNext := lkNext l + 1 \<rparr>"
    using b by (auto simp: buildLink_def Let_def)
  have sub: "lkByTenant l' u = Some a \<longleftrightarrow> (if u = tenant then a = \<lparr> tlId = lkNext l, tlLastUsed = now \<rparr> else lkByTenant l u = Some a)" for u a
    by (auto simp: l')
  have new: "lkNext l \<notin> liveServers l \<union> set (lkClosedServers l)" using inv by (simp add: links_inv_def)
  have fresh: "lkByTenant l u = Some a \<Longrightarrow> tlId a \<noteq> lkNext l" for u a using new by (auto simp: liveServers_iff)
  have live: "liveServers l' = insert (lkNext l) (liveServers l)"
  proof (rule set_eqI)
    fix i
    show "i \<in> liveServers l' \<longleftrightarrow> i \<in> insert (lkNext l) (liveServers l)"
      unfolding insert_iff liveServers_iff sub using free(1) by (metis (no_types, lifting) option.distinct(1) tenantLink.select_convs(1))
  qed
  have "linkCount l' = Suc (linkCount l)" using fin free by (simp add: linkCount_def l' domIff card_insert_if)
  moreover have "soleTenant l'" unfolding soleTenant_def sub using soleTenantD [OF sole] fresh
    by (metis tenantLink.select_convs(1))
  moreover have "liveServers l' \<inter> set (lkClosedServers l') = {}" "liveServers l' \<union> set (lkClosedServers l') = {..<lkNext l'}"
    unfolding live using inv new by (auto simp: links_inv_def l')
  ultimately show ?thesis using inv fin free(2) room by (simp add: links_inv_def l')
qed

lemma touch_inv:
  assumes inv: "links_inv l" and t: "lkByTenant l tenant = Some existing" and open': "\<not> lkClosed l"
  shows "links_inv (l\<lparr> lkByTenant := (lkByTenant l)(tenant \<mapsto> existing\<lparr> tlLastUsed := now \<rparr>) \<rparr>)" (is "links_inv ?l")
proof -
  have d: "dom (lkByTenant ?l) = dom (lkByTenant l)" using t by auto
  have live: "liveServers ?l = liveServers l"
  proof (rule set_eqI)
    fix i
    have "(\<exists>a. lkByTenant ?l u = Some a \<and> tlId a = i) \<longleftrightarrow> (\<exists>a. lkByTenant l u = Some a \<and> tlId a = i)" for u
      using t by (cases "u = tenant") simp_all
    then show "i \<in> liveServers ?l \<longleftrightarrow> i \<in> liveServers l" unfolding liveServers_iff by presburger
  qed
  have own: "lkByTenant ?l u = Some a \<Longrightarrow> \<exists>b. lkByTenant l u = Some b \<and> tlId b = tlId a" for u a
    using t by (auto split: if_splits)
  have sole: "soleTenant ?l" unfolding soleTenant_def
  proof (intro allI impI)
    fix u u' a b
    assume "lkByTenant ?l u = Some a \<and> lkByTenant ?l u' = Some b \<and> tlId a = tlId b"
    then show "u = u'" using own [of u a] own [of u' b] inv soleTenantD [of l u _ u'] by (auto simp: links_inv_def)
  qed
  show ?thesis using inv d live sole open' by (simp add: links_inv_def linkCount_def)
qed

lemma resolve_inv:
  assumes inv: "links_inv l"
  shows "links_inv (snd (resolve valid len order builds now tenant l))"
proof (cases "valid tenant \<and> \<not> lkClosed l")
  case False
  then show ?thesis using inv by (auto simp: resolve_def)
next
  case ok: True
  show ?thesis
  proof (cases "lkByTenant l tenant")
    case (Some existing)
    then show ?thesis using ok touch_inv [OF inv Some, of now] by (simp add: resolve_def Let_def)
  next
    case None
    obtain found l1 where r: "(if int (linkCount l) \<ge> lkMax l then reclaimLocked len order l else (True, l)) = (found, l1)" by fastforce
    have l1: "links_inv l1 \<and> (found \<longrightarrow> lkByTenant l1 tenant = None \<and> \<not> lkClosed l1 \<and> int (linkCount l1) < lkMax l1)"
    proof (cases "int (linkCount l) \<ge> lkMax l")
      case False
      then show ?thesis using r inv ok None by simp
    next
      case full: True
      with r have "reclaimLocked len order l = (found, l1)" by simp
      then show ?thesis
      proof (cases rule: reclaim_cases)
        case none
        then show ?thesis using inv by simp
      next
        case (some t link)
        from some(2) have t: "lkByTenant l t = Some link" by (simp add: idleLink_def)
        note rm = remove_inv [OF inv t _ some(3)]
        have "int (linkCount l) \<le> max 0 (lkMax l)" using inv by (simp add: links_inv_def)
        then show ?thesis using rm ok None some(3) by (auto simp: max_def split: if_splits)
      qed
    qed
    obtain link l2 where b: "buildLink now tenant l1 = (link, l2)" by fastforce
    show ?thesis using ok None r l1 b build_inv [OF _ _ _ _ b] by (cases found) (auto simp: resolve_def)
  qed
qed

lemma close_inv:
  assumes inv: "links_inv l" and order: "set order = dom (lkByTenant l)" "distinct order"
  shows "links_inv (snd (CloseLinks order close l))"
proof -
  define live where "live = map (\<lambda>t. tlId (the (lkByTenant l t))) order"
  have f: "filter (\<lambda>t. lkByTenant l t \<noteq> None) order = order" using order by (auto simp: filter_id_conv)
  have s: "set live = liveServers l" using order by (force simp: live_def liveServers_iff)
  have "inj_on (\<lambda>t. tlId (the (lkByTenant l t))) (set order)"
    using inv order by (auto simp: inj_on_def links_inv_def dom_def dest: soleTenantD)
  then have dl: "distinct live" using order by (simp add: live_def distinct_map)
  have e: "snd (CloseLinks order close l) = l\<lparr> lkClosed := True, lkByTenant := Map.empty, lkClosedServers := lkClosedServers l @ live \<rparr>"
    unfolding CloseLinks_def Let_def live_def f by simp
  show ?thesis unfolding e using inv s dl by (auto simp: links_inv_def linkCount_def liveServers_def soleTenant_def)
qed

lemma linkRun_inv: "linkVisits valid ops l \<Longrightarrow> links_inv l \<Longrightarrow> links_inv (linkRun valid ops l)"
proof (induction ops arbitrary: l)
  case (Cons op ops)
  have "links_inv (linkExec valid op l)"
    using Cons.prems resolve_inv close_inv by (cases op) (simp_all add: linkExec_def visits_def)
  then show ?case using Cons by simp
qed simp

lemma newLinks_inv: "links_inv (newLinks mx)"
  by (simp add: links_inv_def newLinks_def linkCount_def liveServers_def soleTenant_def)

lemma linkRun_max: "lkMax (linkRun valid ops l) = lkMax l"
proof (induction ops arbitrary: l)
  case (Cons op ops)
  have "lkMax (linkExec valid op l) = lkMax l"
    by (cases op) (auto simp: linkExec_def resolve_def reclaimLocked_def buildLink_def CloseLinks_def Let_def split: option.splits prod.splits if_splits)
  then show ?case using Cons by simp
qed simp

section \<open>Properties\<close>

text \<open>
  C35: However tenants are named and whenever the table is closed, the Host never holds more links than
  it was configured for; every transport it built is either the one of exactly one tenant or was closed,
  exactly once and never while still in the table, so none is leaked; a closed table holds nothing, and
  whatever is asked of it afterwards it builds nothing.
\<close>

theorem links_bounded:
  assumes "linkVisits valid ops (newLinks mx)"
  defines "l \<equiv> linkRun valid ops (newLinks mx)"
  shows "int (linkCount l) \<le> max 0 mx \<and>
     (\<forall>t t' a b. lookup t l = Some a \<and> lookup t' l = Some b \<and> tlId a = tlId b \<longrightarrow> t = t') \<and>
     distinct (lkClosedServers l) \<and>
     liveServers l \<inter> set (lkClosedServers l) = {} \<and>
     liveServers l \<union> set (lkClosedServers l) = {..<lkNext l} \<and>
     (lkClosed l \<longrightarrow> liveServers l = {} \<and>
        (\<forall>len order builds now tenant. case resolve valid len order builds now tenant l of
           (answer, l') \<Rightarrow> l' = l \<and> answer = Inl (if valid tenant then ErrHostClosed else InvalidTenant)))"
proof -
  have inv: "links_inv l" unfolding l_def by (rule linkRun_inv [OF assms(1) newLinks_inv])
  have "lkMax l = mx" by (simp add: l_def linkRun_max newLinks_def)
  moreover have "lkClosed l \<Longrightarrow> resolve valid len order builds now tenant l = (Inl (if valid tenant then ErrHostClosed else InvalidTenant), l)"
    for len order builds now tenant by (simp add: resolve_def)
  moreover have "lkClosed l \<Longrightarrow> liveServers l = {}" using inv by (simp add: links_inv_def liveServers_def)
  ultimately show ?thesis using inv unfolding links_inv_def soleTenant_def lookup_def by simp
qed

theorem links_bounded_witness:
  "(let l = linkRun (\<lambda>_. True) [OpResolve (\<lambda>_. 0) [] True 1 ''a'', OpResolve (\<lambda>_. 0) [''a''] True 2 ''b'', OpClose [''b'']] (newLinks 1) in
    liveServers l = {} \<and> lkNext l = 2 \<and> set (lkClosedServers l) = {..<2})"
proof -
  have v: "linkVisits (\<lambda>_. True) [OpResolve (\<lambda>_. 0) [] True 1 ''a'', OpResolve (\<lambda>_. 0) [''a''] True 2 ''b'', OpClose [''b'']] (newLinks 1)"
    by (simp add: link_run_simps)
  show ?thesis using links_bounded [OF v]
    by (simp add: link_run_simps numeral_2_eq_2 lessThan_Suc insert_commute)
qed

text \<open>
  Room for a tenant is made only at the cost of a link nobody uses.  Answering a tenant takes
  nothing from another tenant whose link holds a binding; it takes from at most one tenant without, only
  when the table was full and the tenant had no link, and from one whose last use is the oldest of those
  that may be taken; and a tenant is refused for want of room only when every link holds a binding.
\<close>

theorem only_idle_links_reclaimed:
  assumes "set order = dom (lkByTenant l)" and "resolve valid len order builds now tenant l = (answer, l')"
  shows "(\<forall>t link. lookup t l = Some link \<and> len (tlId link) \<noteq> 0 \<and> t \<noteq> tenant \<longrightarrow> lookup t l' = Some link) \<and>
     (\<forall>t link. lookup t l = Some link \<and> lookup t l' = None \<longrightarrow>
        int (linkCount l) \<ge> lkMax l \<and> lookup tenant l = None \<and> len (tlId link) = 0 \<and>
        lkClosedServers l' = lkClosedServers l @ [tlId link] \<and>
        (\<forall>u other. lookup u l = Some other \<and> u \<noteq> t \<longrightarrow> lookup u l' = Some other \<and> (len (tlId other) = 0 \<longrightarrow> tlLastUsed link \<le> tlLastUsed other))) \<and>
     (answer = Inl ErrTooManyTenants \<longrightarrow> l' = l \<and> (\<forall>t link. lookup t l = Some link \<longrightarrow> len (tlId link) \<noteq> 0)) \<and>
     (\<forall>link. answer = Inr link \<longrightarrow> lookup tenant l' = Some link \<and> tlLastUsed link = now \<and>
        (\<forall>old. lookup tenant l = Some old \<longrightarrow> tlId link = tlId old))"
proof (cases "valid tenant \<and> \<not> lkClosed l \<and> lkByTenant l tenant = None")
  case False
  then show ?thesis using assms(2) by (auto simp: resolve_def lookup_def Let_def split: if_splits option.splits)
next
  case ok: True
  show ?thesis
  proof (cases "int (linkCount l) \<ge> lkMax l")
    case False
    then show ?thesis using ok assms(2) by (auto simp: resolve_def lookup_def buildLink_def Let_def split: if_splits)
  next
    case full: True
    obtain found l1 where r: "reclaimLocked len order l = (found, l1)" by fastforce
    then show ?thesis
    proof (cases rule: reclaim_cases)
      case none
      have "\<forall>t link. lkByTenant l t = Some link \<longrightarrow> len (tlId link) \<noteq> 0"
        using none(3) assms(1) by (auto simp: idleLink_def dom_def)
      then show ?thesis using none(1,2) ok full r assms(2) by (auto simp: resolve_def lookup_def)
    next
      case (some t link)
      have t: "lkByTenant l t = Some link" "len (tlId link) = 0" using some(2) by (simp_all add: idleLink_def)
      have least: "lkByTenant l u = Some other \<and> len (tlId other) = 0 \<Longrightarrow> tlLastUsed link \<le> tlLastUsed other" for u other
        using some(4) assms(1) by (auto simp: idleLink_def dom_def)
      have gone: "lkByTenant l' u = (if builds \<and> u = tenant then Some \<lparr> tlId = lkNext l, tlLastUsed = now \<rparr> else if u = t then None else lkByTenant l u)"
        "lkClosedServers l' = lkClosedServers l @ [tlId link]"
        "answer = (if builds then Inr \<lparr> tlId = lkNext l, tlLastUsed = now \<rparr> else Inl BuildFailed)" for u
        using ok full r assms(2) some(1) by (auto simp: some(3) resolve_def buildLink_def Let_def split: if_splits)
      have tn: "t \<noteq> tenant" "lkByTenant l tenant = None" using t ok by auto
      show ?thesis unfolding lookup_def gone using full t tn least by (simp split: if_splits) auto
    qed
  qed
qed

theorem only_idle_links_reclaimed_witness:
  "(let l = linkRun (\<lambda>_. True) [OpResolve (\<lambda>_. 0) [] True 1 ''a'', OpResolve (\<lambda>_. 0) [''a''] True 2 ''b''] (newLinks 2) in
    lookup ''a'' (snd (resolve (\<lambda>_. True) (\<lambda>i. if i = 0 then 1 else 0) [''a'', ''b''] True 3 ''c'' l)) = lookup ''a'' l)"
proof -
  define l where "l = linkRun (\<lambda>_. True) [OpResolve (\<lambda>_. 0) [] True 1 ''a'', OpResolve (\<lambda>_. 0) [''a''] True 2 ''b''] (newLinks 2)"
  have l: "l = \<lparr> lkMax = 2, lkByTenant = [''a'' \<mapsto> \<lparr> tlId = 0, tlLastUsed = 1 \<rparr>, ''b'' \<mapsto> \<lparr> tlId = 1, tlLastUsed = 2 \<rparr>],
      lkClosed = False, lkNext = 2, lkClosedServers = [] \<rparr>"
    by (simp add: l_def link_run_simps)
  obtain answer l' where r: "resolve (\<lambda>_. True) (\<lambda>i. if i = 0 then 1 else 0) [''a'', ''b''] True 3 ''c'' l = (answer, l')" by fastforce
  have d: "set [''a'', ''b''] = dom (lkByTenant l)" by (auto simp: l)
  have a: "lookup ''a'' l = Some \<lparr> tlId = 0, tlLastUsed = 1 \<rparr>" by (simp add: l lookup_def)
  have "lookup ''a'' l' = lookup ''a'' l"
    unfolding a by (rule only_idle_links_reclaimed [OF d r, THEN conjunct1, rule_format]) (simp add: a)
  then show ?thesis unfolding Let_def l_def [symmetric] r by simp
qed

section \<open>Paths\<close>

lemma tenantFromPath_roundtrip:
  "tenantFromPath p path = Some t \<longleftrightarrow> path = p @ t \<and> t \<noteq> [] \<and> CHR ''/'' \<notin> set t"
  by (auto simp: tenantFromPath_def Let_def) (metis append_take_drop_id)

text \<open>
  What the routing table of a link holds is the bindings of a client, and a tail of a resident session is
  not one: a link whose session is resident and has no client is as idle as any, and once it is reclaimed
  the tenant's next link is another one.
\<close>

lemma reclaimed_link_is_rebuilt:
  "(let l0 = snd (resolve (\<lambda>_. True) (\<lambda>_. 0) [] True 1 ''a'' (newLinks 1));
        l1 = snd (resolve (\<lambda>_. True) (\<lambda>_. 0) [''a''] True 2 ''b'' l0);
        l2 = snd (resolve (\<lambda>_. True) (\<lambda>_. 0) [''b''] True 3 ''a'' l1) in
    map_option tlId (lookup ''a'' l0) = Some 0 \<and> lkClosedServers l1 = [0] \<and> map_option tlId (lookup ''a'' l2) = Some 2)"
  by (simp add: link_run_simps)

end
