(* ===== verification/Projectors.thy ===== *)
theory Projectors
  imports PublicIndex
begin

text \<open>
  The projectors of a session's public bodies (\<^verbatim>\<open>internal/compose/publicbody.go\<close>; the
  supervision of the live tail in the same file is \<^verbatim>\<open>Supervision\<close>), and the public journal and its cache of indexes
  (\<^verbatim>\<open>public_journal.go\<close>).  Both apply \<open>Project\<close>; the tail reads the command mapping from the inbox, the
  journal from its application prefixes.

  The retrying projection may run forever, so it is a partial function; what its environment does is
  given per attempt.  Durations are integers of nanoseconds, far from the bound of their width.
\<close>

section \<open>Backoff\<close>

record backoff =
  boFloor :: int
  boCeiling :: int

definition defaultProjectionRetry :: backoff where
  "defaultProjectionRetry = \<lparr> boFloor = 50 * 10 ^ 6, boCeiling = 5 * 10 ^ 9 \<rparr>"

definition defaultTailRestart :: backoff where
  "defaultTailRestart = \<lparr> boFloor = 100 * 10 ^ 6, boCeiling = 5 * 10 ^ 9 \<rparr>"

definition projectionRetry :: "backoff \<Rightarrow> backoff" where
  "projectionRetry bounds = (if bounds \<noteq> \<lparr> boFloor = 0, boCeiling = 0 \<rparr> then bounds else defaultProjectionRetry)"

definition tailRestart :: "backoff \<Rightarrow> backoff" where
  "tailRestart bounds = (if bounds \<noteq> \<lparr> boFloor = 0, boCeiling = 0 \<rparr> then bounds else defaultTailRestart)"

definition nextDelay :: "backoff \<Rightarrow> int \<Rightarrow> int" where
  "nextDelay bounds delay = min (2 * delay) (boCeiling bounds)"

section \<open>The retrying projection\<close>

datatype LiveError = ContextDone | ProjectionFailed ProjectError

text \<open>
  The attempt \<open>k\<close>: the projection as it runs then, whether the context is seen done behind it, and whether it
  ends the wait before the timer does.  The result carries the waits slept.
\<close>

partial_function (option) retryLoop ::
  "(nat \<Rightarrow> 'st \<Rightarrow> (ProjectError + string) \<times> 'st) \<Rightarrow> (nat \<Rightarrow> bool) \<Rightarrow> (nat \<Rightarrow> bool) \<Rightarrow> backoff \<Rightarrow> nat \<Rightarrow> int \<Rightarrow> int list \<Rightarrow> 'st \<Rightarrow>
    ((LiveError + string) \<times> int list \<times> 'st) option" where
  "retryLoop project ctxErr ctxWait bounds k delay slept st =
     (case project k st of
        (Inr projected, st1) \<Rightarrow> Some (Inr projected, slept, st1)
      | (Inl (MappingError e), st1) \<Rightarrow>
          if ctxErr k then Some (Inl ContextDone, slept, st1)
          else if ctxWait k then Some (Inl ContextDone, slept, st1)
          else retryLoop project ctxErr ctxWait bounds (Suc k) (nextDelay bounds delay) (slept @ [delay]) st1
      | (Inl e, st1) \<Rightarrow> Some (Inl (ProjectionFailed e), slept, st1))"

declare retryLoop.simps [code]

definition retryingProjection ::
  "(nat \<Rightarrow> 'st \<Rightarrow> (ProjectError + string) \<times> 'st) \<Rightarrow> (nat \<Rightarrow> bool) \<Rightarrow> (nat \<Rightarrow> bool) \<Rightarrow> backoff \<Rightarrow> 'st \<Rightarrow>
    ((LiveError + string) \<times> int list \<times> 'st) option" where
  "retryingProjection project ctxErr ctxWait bounds st = retryLoop project ctxErr ctxWait bounds 0 (boFloor bounds) [] st"

text \<open>The states the attempts meet when each fails to read the mapping.\<close>

fun stateAt :: "(nat \<Rightarrow> 'st \<Rightarrow> (ProjectError + string) \<times> 'st) \<Rightarrow> nat \<Rightarrow> 'st \<Rightarrow> 'st" where
  "stateAt project 0 st = st"
| "stateAt project (Suc n) st = snd (project n (stateAt project n st))"

definition mappingFails :: "(ProjectError + string) \<Rightarrow> bool" where
  "mappingFails r \<longleftrightarrow> (case r of Inl (MappingError _) \<Rightarrow> True | _ \<Rightarrow> False)"

definition fails :: "(nat \<Rightarrow> 'st \<Rightarrow> (ProjectError + string) \<times> 'st) \<Rightarrow> 'st \<Rightarrow> nat \<Rightarrow> bool" where
  "fails project st n \<longleftrightarrow> mappingFails (fst (project n (stateAt project n st)))"

definition delayAt :: "backoff \<Rightarrow> nat \<Rightarrow> int" where
  "delayAt bounds i = (if i = 0 then boFloor bounds else min (2 ^ i * boFloor bounds) (boCeiling bounds))"

lemma delayAt_next:
  assumes "0 \<le> boFloor bounds" "0 \<le> boCeiling bounds"
  shows "nextDelay bounds (delayAt bounds i) = delayAt bounds (Suc i)"
proof -
  have "0 \<le> 2 ^ i * boFloor bounds" using assms(1) by simp
  then show ?thesis using assms by (auto simp: delayAt_def nextDelay_def min_def)
qed

lemma retryLoop_runs:
  assumes b: "0 \<le> boFloor bounds" "0 \<le> boCeiling bounds"
    and before: "\<forall>i<n. fails project st i \<and> \<not> ctxErr i \<and> \<not> ctxWait i"
    and now: "\<not> fails project st n \<or> ctxErr n \<or> ctxWait n"
    and r: "project n (stateAt project n st) = (r, st1)"
    and k: "k \<le> n"
  shows "retryLoop project ctxErr ctxWait bounds k (delayAt bounds k) (map (delayAt bounds) [0..<k]) (stateAt project k st) =
    Some (if mappingFails r then Inl ContextDone else (case r of Inl e \<Rightarrow> Inl (ProjectionFailed e) | Inr p \<Rightarrow> Inr p),
          map (delayAt bounds) [0..<n], st1)"
  using k
proof (induction rule: inc_induct)
  case base
  show ?case using r now
    by (cases r; cases "projl r")
       (auto simp: retryLoop.simps [of project ctxErr ctxWait bounds n] fails_def mappingFails_def split: sum.splits)
next
  case (step k)
  obtain r' st' where r': "project k (stateAt project k st) = (r', st')" by fastforce
  have f: "fails project st k" "\<not> ctxErr k" "\<not> ctxWait k" using before step.hyps by auto
  from f(1) r' obtain e where e: "r' = Inl (MappingError e)"
    by (auto simp: fails_def mappingFails_def split: sum.splits ProjectError.splits)
  show ?case using step.IH r' e f(2,3) delayAt_next [OF b]
    by (simp add: retryLoop.simps [of project ctxErr ctxWait bounds k])
qed
lemmas retryLoop_induct = retryLoop.raw_induct [rotated, consumes 1, case_names step]

lemma retryLoop_returns:
  assumes "retryLoop project ctxErr ctxWait bounds k delay slept st = Some out" "st = stateAt project k st0"
  shows "\<exists>n. \<not> fails project st0 n \<or> ctxErr n \<or> ctxWait n"
  using assms
proof (induction arbitrary: st0 rule: retryLoop_induct)
  case (step rl project ctxErr ctxWait bounds k delay slept st out)
  obtain r st1 where r: "project k st = (r, st1)" by fastforce
  show ?case
  proof (cases "mappingFails r \<and> \<not> ctxErr k \<and> \<not> ctxWait k")
    case False
    then have "\<not> fails project st0 k \<or> ctxErr k \<or> ctxWait k" using r step.prems by (auto simp: fails_def)
    then show ?thesis by blast
  next
    case True
    then obtain e where e: "r = Inl (MappingError e)" by (auto simp: mappingFails_def split: sum.splits ProjectError.splits)
    have "rl project ctxErr ctxWait bounds (Suc k) (nextDelay bounds delay) (slept @ [delay]) st1 = Some out"
      using step.hyps r e True by simp
    moreover have "st1 = stateAt project (Suc k) st0" using r step.prems by simp
    ultimately show ?thesis by (rule step.IH)
  qed
qed

text \<open>
  C32: a store that cannot be read does not end the live tail.  A projection is tried again while the
  command mapping cannot be read and the context is alive, after waits that double from the floor up to
  the ceiling; it returns at the first attempt that is not so, with that attempt's own answer or with the
  end of the context, and never with the failure to read.  It runs on only while every attempt fails and
  the context never ends.
\<close>

theorem retry_until_read:
  assumes "0 \<le> boFloor bounds" "0 \<le> boCeiling bounds"
  shows "(\<forall>n r st1. (\<forall>i<n. fails project st i \<and> \<not> ctxErr i \<and> \<not> ctxWait i) \<and> project n (stateAt project n st) = (r, st1) \<and>
        (\<not> mappingFails r \<or> ctxErr n \<or> ctxWait n) \<longrightarrow>
        retryingProjection project ctxErr ctxWait bounds st =
          Some (if mappingFails r then Inl ContextDone else (case r of Inl e \<Rightarrow> Inl (ProjectionFailed e) | Inr p \<Rightarrow> Inr p),
                map (delayAt bounds) [0..<n], st1)) \<and>
     (retryingProjection project ctxErr ctxWait bounds st = None \<longleftrightarrow> (\<forall>n. fails project st n \<and> \<not> ctxErr n \<and> \<not> ctxWait n))"
proof -
  have runs: "retryingProjection project ctxErr ctxWait bounds st =
      Some (if mappingFails r then Inl ContextDone else (case r of Inl e \<Rightarrow> Inl (ProjectionFailed e) | Inr p \<Rightarrow> Inr p),
        map (delayAt bounds) [0..<n], st1)"
    if "\<forall>i<n. fails project st i \<and> \<not> ctxErr i \<and> \<not> ctxWait i" "project n (stateAt project n st) = (r, st1)"
      "\<not> mappingFails r \<or> ctxErr n \<or> ctxWait n" for n r st1
    using retryLoop_runs [OF assms that(1) _ that(2), of 0] that(2,3)
    by (simp add: retryingProjection_def delayAt_def fails_def)
  have "\<exists>out. retryingProjection project ctxErr ctxWait bounds st = Some out"
    if x: "\<exists>n. \<not> (fails project st n \<and> \<not> ctxErr n \<and> \<not> ctxWait n)"
  proof -
    define n where "n = (LEAST n. \<not> (fails project st n \<and> \<not> ctxErr n \<and> \<not> ctxWait n))"
    have now: "\<not> (fails project st n \<and> \<not> ctxErr n \<and> \<not> ctxWait n)" unfolding n_def using x by (rule LeastI_ex)
    have before: "\<forall>i<n. fails project st i \<and> \<not> ctxErr i \<and> \<not> ctxWait i" using not_less_Least unfolding n_def by blast
    obtain r st1 where "project n (stateAt project n st) = (r, st1)" by fastforce
    with runs [OF before this] now show ?thesis by (auto simp: fails_def)
  qed
  moreover have "\<exists>n. \<not> (fails project st n \<and> \<not> ctxErr n \<and> \<not> ctxWait n)"
    if "retryingProjection project ctxErr ctxWait bounds st = Some out" for out
    using retryLoop_returns [of project ctxErr ctxWait bounds 0 "boFloor bounds" "[]" st out st] that
    by (auto simp: retryingProjection_def)
  ultimately have "retryingProjection project ctxErr ctxWait bounds st = None \<longleftrightarrow> (\<forall>n. fails project st n \<and> \<not> ctxErr n \<and> \<not> ctxWait n)"
    by (metis option.exhaust option.distinct(1))
  with runs show ?thesis by blast
qed

definition flaky :: "nat \<Rightarrow> unit \<Rightarrow> (ProjectError + string) \<times> unit" where
  "flaky k st = (if k < 2 then (Inl (MappingError ''unavailable''), ()) else (Inr ''{}'', ()))"

theorem retry_until_read_witness:
  "retryingProjection flaky (\<lambda>_. False) (\<lambda>_. False) defaultProjectionRetry () = Some (Inr ''{}'', [50000000, 100000000], ())"
proof -
  have b: "0 \<le> boFloor defaultProjectionRetry" "0 \<le> boCeiling defaultProjectionRetry" by (simp_all add: defaultProjectionRetry_def)
  have "\<forall>i<2. fails flaky () i \<and> \<not> False \<and> \<not> False" by (simp add: fails_def mappingFails_def flaky_def)
  moreover have "flaky 2 (stateAt flaky 2 ()) = (Inr ''{}'', ())" "\<not> mappingFails (Inr ''{}'')" by (simp_all add: flaky_def mappingFails_def)
  moreover have "map (delayAt defaultProjectionRetry) [0..<2] = [50000000, 100000000]"
    by (simp add: upt_rec delayAt_def defaultProjectionRetry_def)
  ultimately show ?thesis
    using retry_until_read [OF b, THEN conjunct1, rule_format, of 2 flaky "()" "\<lambda>_. False" "\<lambda>_. False" "Inr ''{}''" "()"] by simp
qed

section \<open>The projectors of a session\<close>

definition identities :: "uuid \<Rightarrow> session_id \<Rightarrow> (nat \<Rightarrow> u64 \<Rightarrow> u64 \<Rightarrow> source_answer) \<Rightarrow> Index Identities" where
  "identities runtime session rd = \<lparr> idRuntimeSessionID = runtime, idSessionID = session, idCommands = Some (PublicCommand rd) \<rparr>"

text \<open>A projector: its identities, its own index, and the bounds of its retries when it retries.\<close>

record Projector =
  pjRuntime :: uuid
  pjSession :: session_id
  pjIndex :: Index
  pjRetry :: "backoff option"

definition tailProjectors :: "uuid \<Rightarrow> session_id \<Rightarrow> Index \<Rightarrow> Index \<Rightarrow> backoff \<Rightarrow> Projector \<times> Projector" where
  "tailProjectors runtime session enduring transient bounds =
     (\<lparr> pjRuntime = runtime, pjSession = session, pjIndex = enduring, pjRetry = Some bounds \<rparr>,
      \<lparr> pjRuntime = runtime, pjSession = session, pjIndex = transient, pjRetry = None \<rparr>)"

definition publicProjectors :: "PublicCore \<Rightarrow> backoff \<Rightarrow> bool \<Rightarrow> uuid option \<Rightarrow> session_id \<Rightarrow> Projector option \<times> Projector option" where
  "publicProjectors pc bounds liveText reported session =
     (case reported of
        None \<Rightarrow> (None, None)
      | Some runtime \<Rightarrow>
          if pcIsZero pc runtime then (None, None)
          else
            (case tailProjectors runtime session NewIndex NewIndex (projectionRetry bounds) of
               (enduring, transient) \<Rightarrow> (Some enduring, if liveText then Some transient else None)))"

text \<open>The enduring projector on one event: what the store answers in each attempt is \<open>rd\<close>.\<close>

definition projectEnduring ::
  "PublicCore \<Rightarrow> backoff \<Rightarrow> (nat \<Rightarrow> nat \<Rightarrow> u64 \<Rightarrow> u64 \<Rightarrow> source_answer) \<Rightarrow> (nat \<Rightarrow> bool) \<Rightarrow> (nat \<Rightarrow> bool) \<Rightarrow> uuid \<Rightarrow> session_id \<Rightarrow>
    u64 \<Rightarrow> string \<Rightarrow> Index \<Rightarrow> ((LiveError + string) \<times> int list \<times> Index) option" where
  "projectEnduring pc bounds rd ctxErr ctxWait runtime session seq body ix =
     retryingProjection (\<lambda>k. Project pc (identities runtime session (rd k)) seq body) ctxErr ctxWait bounds ix"

section \<open>The public journal\<close>

record JournalEvent =
  jeSeq :: u64
  jeBody :: string

datatype JournalError =
    NoJournalReader | InvalidJournalTenant | InvalidJournalSession | ErrPublicJournalScope | JournalReadFailed string | EventFailed u64 ProjectError

text \<open>A public journal names its index, and the index its cell: the source it reads and the reader last given.\<close>

record PublicJournal =
  jTenant :: tenant_id
  jRuntime :: session_id
  jRuntimeID :: uuid
  jSession :: session_id
  jIndex :: nat

record 'r IndexCell =
  icTenant :: tenant_id
  icRuntime :: session_id
  icIndex :: Index
  icReader :: 'r

type_synonym publicJournalKey = "tenant_id \<times> session_id \<times> session_id"

record cachedIndex =
  ciIndex :: nat
  ciUsed :: u64

record 'r PublicJournals =
  pjCapacity :: int
  pjClock :: u64
  pjIndexes :: "publicJournalKey \<rightharpoonup> cachedIndex"
  pjCells :: "nat \<rightharpoonup> 'r IndexCell"
  pjNext :: nat

definition NewPublicJournals :: "int \<Rightarrow> 'r PublicJournals" where
  "NewPublicJournals capacity =
     \<lparr> pjCapacity = (if capacity \<le> 0 then 1024 else capacity), pjClock = 0, pjIndexes = Map.empty, pjCells = Map.empty, pjNext = 0 \<rparr>"

definition newPublicJournal ::
  "PublicCore \<Rightarrow> (tenant_id \<Rightarrow> bool) \<Rightarrow> 'r option \<Rightarrow> tenant_id \<Rightarrow> session_id \<Rightarrow> string \<Rightarrow> 'r PublicJournals \<Rightarrow>
    (JournalError + PublicJournal) \<times> 'r PublicJournals" where
  "newPublicJournal pc validTenant reader tenant session binding p =
     (case reader of
        None \<Rightarrow> (Inl NoJournalReader, p)
      | Some rd \<Rightarrow>
          if \<not> validTenant tenant then (Inl InvalidJournalTenant, p)
          else if \<not> pcValidSession pc session then (Inl InvalidJournalSession, p)
          else
            (case pcParseUUID pc binding of
               None \<Rightarrow> (Inl ErrPublicJournalScope, p)
             | Some runtimeID \<Rightarrow>
                 if pcIsZero pc runtimeID then (Inl ErrPublicJournalScope, p)
                 else
                   (Inr \<lparr> jTenant = tenant, jRuntime = binding, jRuntimeID = runtimeID, jSession = session, jIndex = pjNext p \<rparr>,
                    p\<lparr> pjCells := (pjCells p)(pjNext p \<mapsto> \<lparr> icTenant = tenant, icRuntime = binding, icIndex = NewIndex, icReader = rd \<rparr>),
                       pjNext := pjNext p + 1 \<rparr>)))"

text \<open>The least recently used of the cached keys, in the order the map is visited.\<close>

fun oldestKey :: "(publicJournalKey \<rightharpoonup> cachedIndex) \<Rightarrow> publicJournalKey list \<Rightarrow> publicJournalKey option \<Rightarrow> publicJournalKey option" where
  "oldestKey indexes [] oldest = oldest"
| "oldestKey indexes (candidate # rest) oldest =
     (case (indexes candidate, oldest) of
        (None, _) \<Rightarrow> oldestKey indexes rest oldest
      | (Some c, None) \<Rightarrow> oldestKey indexes rest (Some candidate)
      | (Some c, Some k) \<Rightarrow>
          oldestKey indexes rest (if ciUsed c < (case indexes k of Some d \<Rightarrow> ciUsed d | None \<Rightarrow> 0) then Some candidate else Some k))"

definition JournalsReader ::
  "PublicCore \<Rightarrow> (tenant_id \<Rightarrow> bool) \<Rightarrow> publicJournalKey list \<Rightarrow> 'r option \<Rightarrow> tenant_id \<Rightarrow> session_id \<Rightarrow> string \<Rightarrow> 'r PublicJournals \<Rightarrow>
    (JournalError + PublicJournal) \<times> 'r PublicJournals" where
  "JournalsReader pc validTenant order reader tenant session binding p =
     (case newPublicJournal pc validTenant reader tenant session binding p of
        (Inl e, p1) \<Rightarrow> (Inl e, p1)
      | (Inr fresh, p1) \<Rightarrow>
          (let key = (tenant, session, jRuntime fresh); p2 = p1\<lparr> pjClock := pjClock p1 + 1 \<rparr> in
           case pjIndexes p2 key of
             Some cached \<Rightarrow>
               (Inr (fresh\<lparr> jIndex := ciIndex cached \<rparr>),
                p2\<lparr> pjIndexes := (pjIndexes p2)(key \<mapsto> cached\<lparr> ciUsed := pjClock p2 \<rparr>),
                    pjCells := (pjCells p2)(ciIndex cached := map_option (\<lambda>c. c\<lparr> icReader := the reader \<rparr>) (pjCells p2 (ciIndex cached))) \<rparr>)
           | None \<Rightarrow>
               (let indexes =
                  (if int (card (dom (pjIndexes p2))) \<ge> pjCapacity p2
                   then (case oldestKey (pjIndexes p2) order None of Some k \<Rightarrow> (pjIndexes p2)(k := None) | None \<Rightarrow> pjIndexes p2)
                   else pjIndexes p2) in
                (Inr fresh, p2\<lparr> pjIndexes := indexes(key \<mapsto> \<lparr> ciIndex = jIndex fresh, ciUsed = pjClock p2 \<rparr>) \<rparr>))))"

text \<open>The bodies of a page, one after the other; \<open>rd n\<close> is what the journal answers while the \<open>n\<close>-th is projected.\<close>

fun projectEvents ::
  "PublicCore \<Rightarrow> uuid \<Rightarrow> session_id \<Rightarrow> (nat \<Rightarrow> nat \<Rightarrow> u64 \<Rightarrow> u64 \<Rightarrow> source_answer) \<Rightarrow> nat \<Rightarrow> JournalEvent list \<Rightarrow> Index \<Rightarrow>
    (JournalError + JournalEvent list) \<times> Index" where
  "projectEvents pc runtime session rd n [] ix = (Inr [], ix)"
| "projectEvents pc runtime session rd n (ev # evs) ix =
     (case Project pc (identities runtime session (rd n)) (jeSeq ev) (jeBody ev) ix of
        (Inl e, ix1) \<Rightarrow> (Inl (EventFailed (jeSeq ev) e), ix1)
      | (Inr body, ix1) \<Rightarrow>
          (case projectEvents pc runtime session rd (Suc n) evs ix1 of
             (Inl e, ix2) \<Rightarrow> (Inl e, ix2)
           | (Inr evs', ix2) \<Rightarrow> (Inr (ev\<lparr> jeBody := body \<rparr> # evs'), ix2)))"

definition ReadPublicJournal ::
  "PublicCore \<Rightarrow> (string + JournalEvent list) \<Rightarrow> ('r \<Rightarrow> nat \<Rightarrow> nat \<Rightarrow> u64 \<Rightarrow> u64 \<Rightarrow> source_answer) \<Rightarrow> tenant_id \<Rightarrow> session_id \<Rightarrow>
    PublicJournal \<Rightarrow> 'r PublicJournals \<Rightarrow> (JournalError + JournalEvent list) \<times> 'r PublicJournals" where
  "ReadPublicJournal pc page rd tenant session j p =
     (if tenant \<noteq> jTenant j \<or> session \<noteq> jRuntime j then (Inl ErrPublicJournalScope, p)
      else
        (case page of
           Inl e \<Rightarrow> (Inl (JournalReadFailed e), p)
         | Inr events \<Rightarrow>
             (case pjCells p (jIndex j) of
                None \<Rightarrow> (Inl ErrPublicJournalScope, p)
              | Some cell \<Rightarrow>
                  (case projectEvents pc (jRuntimeID j) (jSession j) (rd (icReader cell)) 0 events (icIndex cell) of
                     (out, ix) \<Rightarrow> (out, p\<lparr> pjCells := (pjCells p)(jIndex j \<mapsto> cell\<lparr> icIndex := ix \<rparr>) \<rparr>)))))"

section \<open>What a body reads as\<close>

text \<open>
  The reference: the projection under a mapping that is simply known.  A body names at most one command;
  which one does not depend on the mapping.
\<close>

definition publicOf :: "PublicCore \<Rightarrow> uuid \<Rightarrow> session_id \<Rightarrow> (uuid \<Rightarrow> command_id option) \<Rightarrow> string \<Rightarrow> ProjectError + string" where
  "publicOf pc runtime session mapping body =
     fst (Project pc \<lparr> idRuntimeSessionID = runtime, idSessionID = session, idCommands = Some (\<lambda>r _ u. (Inr (mapping r), u)) \<rparr> 0 body ())"

definition bodyCommand :: "PublicCore \<Rightarrow> string \<Rightarrow> uuid option" where
  "bodyCommand pc body =
     (if firstByte body \<noteq> Some (CHR ''{'') \<or> indexOf (QUOTE # ''command_id'' @ [QUOTE]) body = None then None
      else
        (case objectMembers body of
           Inl _ \<Rightarrow> None
         | Inr members \<Rightarrow>
             (case causeAt members of
                None \<Rightarrow> None
              | Some at \<Rightarrow>
                  (case objectMembers (jmValue (members ! at)) of
                     Inl _ \<Rightarrow> None
                   | Inr cause \<Rightarrow>
                       (case commandAt cause of
                          None \<Rightarrow> None
                        | Some i \<Rightarrow>
                            (case decodeString (jmValue (cause ! i)) of
                               None \<Rightarrow> None
                             | Some text \<Rightarrow>
                                 (case pcParseUUID pc text of
                                    None \<Rightarrow> None
                                  | Some r \<Rightarrow> if pcIsZero pc r then None else Some r)))))))"

definition namedCommand :: "PublicCore \<Rightarrow> uuid \<Rightarrow> session_id \<Rightarrow> string \<Rightarrow> uuid option" where
  "namedCommand pc runtime session body = bodyCommand pc (replaceAll body runtime session)"

definition mapOf :: "('r \<Rightarrow> Pair option) \<Rightarrow> 'r list \<Rightarrow> uuid \<Rightarrow> command_id option" where
  "mapOf pair log runtime = map_option prPublic (List.find (\<lambda>p. prRuntime p = runtime) (List.map_filter pair log))"

text \<open>How \<open>projectCause\<close> goes on from the value of the command it found.\<close>

definition commandValue :: "string \<Rightarrow> (ProjectError + (JMember list \<times> nat \<times> JMember list \<times> nat) option)" where
  "commandValue body =
     (if firstByte body \<noteq> Some (CHR ''{'') \<or> indexOf (QUOTE # ''command_id'' @ [QUOTE]) body = None then Inr None
      else
        (case objectMembers body of
           Inl e \<Rightarrow> Inl e
         | Inr members \<Rightarrow>
             (case causeAt members of
                None \<Rightarrow> Inr None
              | Some at \<Rightarrow>
                  (case objectMembers (jmValue (members ! at)) of
                     Inl e \<Rightarrow> Inl e
                   | Inr cause \<Rightarrow> Inr (map_option (\<lambda>i. (members, at, cause, i)) (commandAt cause))))))"

definition finish :: "string \<Rightarrow> JMember list \<Rightarrow> nat \<Rightarrow> JMember list \<Rightarrow> nat \<Rightarrow> (ProjectError + (uuid \<times> command_id) option) \<Rightarrow> ProjectError + string" where
  "finish body members at cause i r =
     (case r of Inl e \<Rightarrow> Inl e | Inr (Some (runtime, public)) \<Rightarrow> Inr (replaceAll body runtime public)
      | Inr None \<Rightarrow> Inr (withoutCommand members at cause i))"

lemma projectCause_by:
  "projectCause pc ids seq body st =
     (case commandValue body of
        Inl e \<Rightarrow> (Inl e, st)
      | Inr None \<Rightarrow> (Inr body, st)
      | Inr (Some (members, at, cause, i)) \<Rightarrow>
          (case resolveCommand pc ids seq (jmValue (cause ! i)) st of (r, st') \<Rightarrow> (finish body members at cause i r, st')))"
proof (cases "firstByte body \<noteq> Some (CHR ''{'') \<or> indexOf (QUOTE # ''command_id'' @ [QUOTE]) body = None")
  case False
  show ?thesis
  proof (cases "objectMembers body")
    case (Inr members)
    show ?thesis
    proof (cases "causeAt members")
      case (Some at)
      show ?thesis
      proof (cases "objectMembers (jmValue (members ! at))")
        case cause: (Inr cause)
        show ?thesis
        proof (cases "commandAt cause")
          case i: (Some i)
          obtain r st' where "resolveCommand pc ids seq (jmValue (cause ! i)) st = (r, st')" by fastforce
          with False Inr Some cause i show ?thesis
            by (cases r; cases "projr r") (auto simp: projectCause_def commandValue_def finish_def)
        qed (use False Inr Some cause in \<open>simp add: projectCause_def commandValue_def\<close>)
      qed (use False Inr Some in \<open>simp add: projectCause_def commandValue_def\<close>)
    qed (use False Inr in \<open>simp add: projectCause_def commandValue_def\<close>)
  qed (use False in \<open>simp add: projectCause_def commandValue_def\<close>)
qed (simp add: projectCause_def commandValue_def)

definition runtimeAt :: "PublicCore \<Rightarrow> string \<Rightarrow> uuid option" where
  "runtimeAt pc raw =
     (case decodeString raw of None \<Rightarrow> None
      | Some text \<Rightarrow> (case pcParseUUID pc text of None \<Rightarrow> None | Some r \<Rightarrow> if pcIsZero pc r then None else Some r))"

lemma bodyCommand_by:
  "bodyCommand pc body = (case commandValue body of Inr (Some (members, at, cause, i)) \<Rightarrow> runtimeAt pc (jmValue (cause ! i)) | _ \<Rightarrow> None)"
proof (cases "firstByte body \<noteq> Some (CHR ''{'') \<or> indexOf (QUOTE # ''command_id'' @ [QUOTE]) body = None")
  case False
  show ?thesis
  proof (cases "objectMembers body")
    case (Inr members)
    show ?thesis
    proof (cases "causeAt members")
      case (Some at)
      show ?thesis using False Inr Some
        by (cases "objectMembers (jmValue (members ! at))") (simp_all add: bodyCommand_def commandValue_def runtimeAt_def split: option.splits)
    qed (use False Inr in \<open>simp add: bodyCommand_def commandValue_def\<close>)
  qed (use False in \<open>simp add: bodyCommand_def commandValue_def\<close>)
qed (simp add: bodyCommand_def commandValue_def)

lemma resolveCommand_by:
  assumes "idCommands ids = Some commands"
  shows "resolveCommand pc ids seq raw st =
     (case runtimeAt pc raw of
        None \<Rightarrow> (Inr None, st)
      | Some r \<Rightarrow> (case commands r seq st of (Inl e, st') \<Rightarrow> (Inl (MappingError e), st') | (Inr o', st') \<Rightarrow> (Inr (map_option (Pair r) o'), st')))"
proof (cases "runtimeAt pc raw")
  case None
  then show ?thesis by (auto simp: resolveCommand_def runtimeAt_def split: option.splits if_splits)
next
  case (Some r)
  then obtain tx where "decodeString raw = Some tx" "pcParseUUID pc tx = Some r" "\<not> pcIsZero pc r"
    by (auto simp: runtimeAt_def split: option.splits if_splits)
  with Some assms show ?thesis by (auto simp: resolveCommand_def split: prod.splits sum.splits option.splits)
qed

lemma projectCause_none:
  assumes n: "bodyCommand pc body = None" and ids: "idCommands ids = Some c" "idCommands ids' = Some c'"
  shows "fst (projectCause pc ids seq body st) = fst (projectCause pc ids' seq' body st')" "snd (projectCause pc ids seq body st) = st"
proof -
  have r: "runtimeAt pc (jmValue (cause ! i)) = None" if "commandValue body = Inr (Some (members, at, cause, i))" for members at cause i
    using n that by (simp add: bodyCommand_by)
  consider e where "commandValue body = Inl e" | "commandValue body = Inr None"
    | members at cause i where "commandValue body = Inr (Some (members, at, cause, i))"
    by (metis obj_sumE option.exhaust prod_cases4)
  then show "fst (projectCause pc ids seq body st) = fst (projectCause pc ids' seq' body st')" "snd (projectCause pc ids seq body st) = st"
    using r by (cases; simp add: projectCause_by resolveCommand_by [OF ids(1)] resolveCommand_by [OF ids(2)])+
qed

lemma projectCause_some:
  assumes n: "bodyCommand pc body = Some r" and ids: "idCommands ids = Some commands" and c: "commands r seq st = (ans, st1)"
  shows "projectCause pc ids seq body st =
    ((case ans of Inl e \<Rightarrow> Inl (MappingError e)
      | Inr o' \<Rightarrow> fst (projectCause pc \<lparr> idRuntimeSessionID = rt, idSessionID = sn, idCommands = Some (\<lambda>_ _ u. (Inr o', u)) \<rparr> 0 body ())), st1)"
proof -
  have k: "idCommands (\<lparr> idRuntimeSessionID = rt, idSessionID = sn, idCommands = Some (\<lambda>_ _ u. (Inr o', u)) \<rparr> :: unit Identities) =
      Some (\<lambda>_ _ u. (Inr o', u))" for o' by simp
  obtain members at cause i where v: "commandValue body = Inr (Some (members, at, cause, i))" "runtimeAt pc (jmValue (cause ! i)) = Some r"
  proof (cases "commandValue body")
    case (Inr v)
    then show thesis using n that by (cases v) (auto simp: bodyCommand_by)
  qed (use n in \<open>simp add: bodyCommand_by\<close>)
  have left: "projectCause pc ids seq body st = (finish body members at cause i (case ans of Inl e \<Rightarrow> Inl (MappingError e) | Inr o' \<Rightarrow> Inr (map_option (Pair r) o')), st1)"
    unfolding projectCause_by resolveCommand_by [OF ids] v(1) using c v(2) by (cases ans) simp_all
  have right: "fst (projectCause pc (\<lparr> idRuntimeSessionID = rt, idSessionID = sn, idCommands = Some (\<lambda>_ _ u. (Inr o', u)) \<rparr> :: unit Identities) 0 body ()) =
      finish body members at cause i (Inr (map_option (Pair r) o'))" for o'
    unfolding projectCause_by resolveCommand_by [OF k] v(1) using v(2) by simp
  show ?thesis unfolding left right by (cases ans) (simp_all add: finish_def)
qed

lemma projectCause_mapping:
  assumes "bodyCommand pc body = Some r"
  shows "fst (projectCause pc \<lparr> idRuntimeSessionID = rt, idSessionID = sn, idCommands = Some (\<lambda>r _ u. (Inr (mapping r), u)) \<rparr> seq body ()) =
    fst (projectCause pc \<lparr> idRuntimeSessionID = rt', idSessionID = sn', idCommands = Some (\<lambda>_ _ u. (Inr (mapping r), u)) \<rparr> seq' body ())"
  using projectCause_some [OF assms, where commands = "\<lambda>r _ u. (Inr (mapping r), u)" and rt = rt' and sn = sn'
      and ids = "\<lparr> idRuntimeSessionID = rt, idSessionID = sn, idCommands = Some (\<lambda>r _ u. (Inr (mapping r), u)) \<rparr>" and st = "()" and seq = seq]
    projectCause_some [OF assms, where commands = "\<lambda>_ _ u. (Inr (mapping r), u)" and rt = rt' and sn = sn'
      and ids = "\<lparr> idRuntimeSessionID = rt', idSessionID = sn', idCommands = Some (\<lambda>_ _ u. (Inr (mapping r), u)) \<rparr>" and st = "()" and seq = seq']
  by simp

text \<open>The projection through an index is the reference, or fails to read the mapping.\<close>

lemma identities_sel [simp]:
  "idRuntimeSessionID (identities rt sn rd) = rt" "idSessionID (identities rt sn rd) = sn" "idCommands (identities rt sn rd) = Some (PublicCommand rd)"
  by (simp_all add: identities_def)

definition checked :: "ProjectError + string \<Rightarrow> ProjectError + string" where
  "checked c = (case c of Inl e \<Rightarrow> Inl e | Inr b \<Rightarrow> if \<not> canonical b then Inl ErrNonCanonical else Inr b)"

lemma Project_checked:
  assumes "\<not> pcIsZero pc (idRuntimeSessionID ids)" "pcValidSession pc (idSessionID ids)"
  shows "Project pc ids seq body st =
    (checked (fst (projectCause pc ids seq (replaceAll body (idRuntimeSessionID ids) (idSessionID ids)) st)),
     snd (projectCause pc ids seq (replaceAll body (idRuntimeSessionID ids) (idSessionID ids)) st))"
  using assms
  by (cases "projectCause pc ids seq (replaceAll body (idRuntimeSessionID ids) (idSessionID ids)) st") (auto simp: Project_def checked_def split: sum.splits)

lemma checked_fails: "mappingFails c \<Longrightarrow> mappingFails (checked c)"
  by (auto simp: mappingFails_def checked_def split: sum.splits)

lemma projectCause_reference:
  fixes mapping :: "uuid \<Rightarrow> command_id option" and runtime :: uuid and session :: session_id
  defines "ids0 \<equiv> \<lparr> idRuntimeSessionID = runtime, idSessionID = session, idCommands = Some (\<lambda>r _ u. (Inr (mapping r), u)) \<rparr> :: unit Identities"
  assumes answers: "\<And>r ans ix'. bodyCommand pc b = Some r \<Longrightarrow> PublicCommand rd r seq ix = (ans, ix') \<Longrightarrow>
      I ix' \<and> (\<forall>o'. ans = Inr o' \<longrightarrow> o' = mapping r)"
    and ix: "I ix"
  shows "I (snd (projectCause pc (identities runtime session rd) seq b ix)) \<and>
    (fst (projectCause pc (identities runtime session rd) seq b ix) = fst (projectCause pc ids0 0 b ()) \<or>
     mappingFails (fst (projectCause pc (identities runtime session rd) seq b ix)))"
proof (cases "bodyCommand pc b")
  case None
  have i0: "idCommands ids0 = Some (\<lambda>r _ u. (Inr (mapping r), u))" by (simp add: ids0_def)
  show ?thesis using projectCause_none(1) [OF None identities_sel(3) i0, of runtime session rd seq ix 0 "()"]
      projectCause_none(2) [OF None identities_sel(3) i0, of runtime session rd seq ix] ix by simp
next
  case (Some r)
  obtain ans ix2 where a: "PublicCommand rd r seq ix = (ans, ix2)" by fastforce
  note w = answers [OF Some a]
  note p = projectCause_some [OF Some identities_sel(3) [of runtime session rd] a, where rt = runtime and sn = session]
  show ?thesis
  proof (cases ans)
    case (Inl e)
    then show ?thesis unfolding p using w by (simp add: mappingFails_def)
  next
    case (Inr o')
    with w have "o' = mapping r" by simp
    then show ?thesis unfolding p Inr ids0_def projectCause_mapping [OF Some, of runtime session mapping 0 runtime session 0] using w by simp
  qed
qed

lemma Project_reference:
  assumes answers: "\<And>r ans ix'. namedCommand pc runtime session body = Some r \<Longrightarrow> PublicCommand rd r seq ix = (ans, ix') \<Longrightarrow>
      I ix' \<and> (\<forall>o'. ans = Inr o' \<longrightarrow> o' = mapping r)"
    and ix: "I ix" and p: "Project pc (identities runtime session rd) seq body ix = (out, ix1)"
  shows "I ix1 \<and> (out = publicOf pc runtime session mapping body \<or> mappingFails out)"
proof (cases "pcIsZero pc runtime \<or> \<not> pcValidSession pc session")
  case True
  with p ix show ?thesis by (auto simp: Project_def publicOf_def)
next
  case False
  note s = projectCause_reference [of pc "replaceAll body runtime session" rd seq ix I mapping runtime session,
      OF answers [unfolded namedCommand_def] ix]
  have "out = checked (fst (projectCause pc (identities runtime session rd) seq (replaceAll body runtime session) ix))"
      "ix1 = snd (projectCause pc (identities runtime session rd) seq (replaceAll body runtime session) ix)"
    using p Project_checked [of pc "identities runtime session rd" seq body ix] False by simp_all
  with s show ?thesis using False checked_fails by (auto simp: publicOf_def Project_checked)
qed

lemma mapOf_maps:
  assumes "oneMapping pair log"
  shows "mapOf pair log r = Some c \<longleftrightarrow> maps pair log r c"
proof -
  have mem: "p \<in> set (List.map_filter pair log) \<and> prRuntime p = r \<longleftrightarrow> maps pair log r (prPublic p) \<and> prRuntime p = r" for p
    by (cases p) (force simp: maps_def List.map_filter_def)
  show ?thesis
  proof (cases "List.find (\<lambda>p. prRuntime p = r) (List.map_filter pair log)")
    case None
    then have "\<forall>p\<in>set (List.map_filter pair log). prRuntime p \<noteq> r" by (auto simp: find_None_iff)
    then have "\<not> maps pair log r c" using mem [of "\<lparr> prRuntime = r, prPublic = c \<rparr>"] by auto
    with None show ?thesis by (simp add: mapOf_def)
  next
    case (Some p)
    then have "maps pair log r (prPublic p)" using mem [of p] by (auto simp: find_Some_iff)
    with Some assms show ?thesis unfolding oneMapping_def by (auto simp: mapOf_def)
  qed
qed

section \<open>Live and durable\<close>

text \<open>An index that has read a prefix of a log, as it stands, and remembers no miss that is ever recorded.\<close>

definition soundIndex :: "('r \<Rightarrow> u64) \<Rightarrow> ('r \<Rightarrow> Pair option) \<Rightarrow> 'r list \<Rightarrow> 'r list \<Rightarrow> Index \<Rightarrow> bool" where
  "soundIndex pos pair f log ix \<longleftrightarrow> prefix log f \<and> knows pos pair log ix \<and> (\<forall>r\<in>ixAbsent ix. \<forall>c. \<not> maps pair f r c)"

lemma soundIndex_new: "prefix log f \<Longrightarrow> wfLog pos f \<Longrightarrow> soundIndex pos pair f log NewIndex"
  using knows_prefix [of pos pair "[]" NewIndex log] wfLog_prefix [of pos f log]
  by (simp add: soundIndex_def NewIndex_def knows_def stoodAt_def maps_def)

lemma soundIndex_grow: "soundIndex pos pair f log ix \<Longrightarrow> prefix log log' \<Longrightarrow> prefix log' f \<Longrightarrow> wfLog pos f \<Longrightarrow> soundIndex pos pair f log' ix"
  using knows_prefix [of pos pair log ix log'] wfLog_prefix [of pos f log'] by (simp add: soundIndex_def)

context mapping_source
begin

lemma project_source:
  assumes wf: "wfLog pos f" and one: "oneMapping pair f" and ix: "soundIndex pos pair f log ix"
    and reads: "\<forall>k a b. rd k a b = read log a b \<or> (\<exists>e. rd k a b = Inl e)"
    and visible: "\<And>r x c. namedCommand pc rt sn body = Some r \<Longrightarrow> x \<in> set f \<Longrightarrow> pair x = Some \<lparr> prRuntime = r, prPublic = c \<rparr> \<Longrightarrow>
        x \<in> set log \<and> \<not> late seq (pos x)"
    and p: "Project pc (identities rt sn rd) seq body ix = (out, ix1)"
  shows "soundIndex pos pair f log ix1 \<and> (out = publicOf pc rt sn (mapOf pair f) body \<or> mappingFails out)"
proof (rule Project_reference [where I = "soundIndex pos pair f log", OF _ ix p])
  fix r ans ix'
  assume r: "namedCommand pc rt sn body = Some r" and c: "PublicCommand rd r seq ix = (ans, ix')"
  define q where "q = \<lparr> qyLog = log, qyRead = rd, qyRuntime = r, qyBound = seq \<rparr>"
  have i: "prefix (qyLog q) f" "knows pos pair (qyLog q) ix" "\<forall>r\<in>ixAbsent ix. \<forall>c. \<not> maps pair f r c"
    using ix by (simp_all add: soundIndex_def q_def)
  have conforms: "\<forall>k a b. qyRead q k a b = read (qyLog q) a b \<or> (\<exists>e. qyRead q k a b = Inl e)" using reads by (simp add: q_def)
  have vis: "\<forall>x\<in>set f. \<forall>c. pair x = Some \<lparr> prRuntime = qyRuntime q, prPublic = c \<rparr> \<longrightarrow> x \<in> set (qyLog q) \<and> \<not> late (qyBound q) (pos x)"
    using visible [OF r] by (simp add: q_def)
  have pc: "PublicCommand (qyRead q) (qyRuntime q) (qyBound q) ix = (ans, ix')" using c by (simp add: q_def)
  note a = PublicCommand_answers [OF wf one i(1) conforms vis i(2,3) pc]
  have "o' = mapOf pair f r" if "ans = Inr o'" for o'
  proof -
    have "o' = Some d \<longleftrightarrow> mapOf pair f r = Some d" for d using a that mapOf_maps [OF one, of r d] by (simp add: q_def)
    then show ?thesis by (metis option.exhaust)
  qed
  with a i(1) show "soundIndex pos pair f log ix' \<and> (\<forall>o'. ans = Inr o' \<longrightarrow> o' = mapOf pair f r)"
    by (simp add: soundIndex_def q_def)
qed

end

lemma retryLoop_inv:
  assumes "retryLoop project ctxErr ctxWait bounds k delay slept st = Some out" "I k st"
    and "\<And>k st r st1. I k st \<Longrightarrow> project k st = (r, st1) \<Longrightarrow> J k st1 \<and> Q r" and "\<And>k st. J k st \<Longrightarrow> I (Suc k) st"
  shows "\<exists>n. k \<le> n \<and> length (fst (snd out)) + k = length slept + n \<and> J n (snd (snd out)) \<and> (\<forall>b. fst out = Inr b \<longrightarrow> Q (Inr b))"
  using assms
proof (induction rule: retryLoop_induct)
  case (step rl project ctxErr ctxWait bounds k delay slept st out)
  obtain r st1 where r: "project k st = (r, st1)" by fastforce
  have j: "J k st1" "Q r" using step.prems(2) [OF step.prems(1) r] by blast+
  show ?case
  proof (cases "mappingFails r \<and> \<not> ctxErr k \<and> \<not> ctxWait k")
    case False
    have "out = ((if mappingFails r then Inl ContextDone else (case r of Inl e \<Rightarrow> Inl (ProjectionFailed e) | Inr p \<Rightarrow> Inr p)), slept, st1)"
      using step.hyps r False
      by (cases r; cases "projl r") (simp_all add: mappingFails_def split: if_splits)
    with j show ?thesis by (intro exI [of _ k]) (cases r; simp add: mappingFails_def)
  next
    case True
    then obtain e where e: "r = Inl (MappingError e)" by (auto simp: mappingFails_def split: sum.splits ProjectError.splits)
    have "rl project ctxErr ctxWait bounds (Suc k) (nextDelay bounds delay) (slept @ [delay]) st1 = Some out"
      using step.hyps r e True by simp
    from step.IH [OF this step.prems(3) [OF j(1)]] step.prems(2,3)
    obtain n where "Suc k \<le> n" "length (fst (snd out)) + Suc k = length (slept @ [delay]) + n" "J n (snd (snd out))" "\<forall>b. fst out = Inr b \<longrightarrow> Q (Inr b)"
      by blast
    then show ?thesis by (intro exI [of _ n]) simp
  qed
qed

text \<open>
  A tail's life: the inbox grows, up to what it ever holds, and events are published one after the other.
  The store may fail any read, and may grow between the attempts of one event.  A command that an event
  names was admitted before the event, so its row is in the inbox already.
\<close>

definition inboxReads :: "(nat \<Rightarrow> u64 \<Rightarrow> u64 \<Rightarrow> source_answer) \<Rightarrow> InboxRow list \<Rightarrow> bool" where
  "inboxReads rd log \<longleftrightarrow> (\<forall>k a b. rd k a b = inboxCommandsRead (inboxAnswer log) a b \<or> (\<exists>e. rd k a b = Inl e))"

definition admittedBefore :: "PublicCore \<Rightarrow> uuid \<Rightarrow> session_id \<Rightarrow> InboxRow list \<Rightarrow> InboxRow list \<Rightarrow> string \<Rightarrow> bool" where
  "admittedBefore pc rt sn rows log body \<longleftrightarrow>
     (\<forall>r x c. namedCommand pc rt sn body = Some r \<and> x \<in> set rows \<and> rowPair x = Some \<lparr> prRuntime = r, prPublic = c \<rparr> \<longrightarrow> x \<in> set log)"

inductive liveReach ::
  "PublicCore \<Rightarrow> backoff \<Rightarrow> uuid \<Rightarrow> session_id \<Rightarrow> InboxRow list \<Rightarrow> InboxRow list \<Rightarrow> Index \<Rightarrow> (JournalEvent \<times> (LiveError + string)) list \<Rightarrow> bool"
  for pc bounds rt sn rows where
  init: "liveReach pc bounds rt sn rows [] NewIndex []"
| grow: "liveReach pc bounds rt sn rows log ix outs \<Longrightarrow> prefix log log' \<Longrightarrow> prefix log' rows \<Longrightarrow> liveReach pc bounds rt sn rows log' ix outs"
| publish: "liveReach pc bounds rt sn rows log ix outs \<Longrightarrow> admittedBefore pc rt sn rows log (jeBody ev) \<Longrightarrow>
    \<forall>k. prefix log (logs k) \<and> prefix (logs k) (logs (Suc k)) \<and> prefix (logs k) rows \<and> inboxReads (rd k) (logs k) \<Longrightarrow>
    projectEnduring pc bounds rd ctxErr ctxWait rt sn (jeSeq ev) (jeBody ev) ix = Some (out, slept, ix') \<Longrightarrow>
    liveReach pc bounds rt sn rows (logs (length slept)) ix' (outs @ [(ev, out)])"

lemma live_sound:
  assumes "liveReach pc bounds rt sn rows log ix outs" and wf: "wfLog irOrder rows" and one: "oneMapping rowPair rows"
  shows "soundIndex irOrder rowPair rows log ix \<and>
    (\<forall>(ev, out) \<in> set outs. \<forall>b. out = Inr b \<longrightarrow> publicOf pc rt sn (mapOf rowPair rows) (jeBody ev) = Inr b)"
  using assms(1)
proof induction
  case init
  then show ?case using soundIndex_new [OF _ wf] by simp
next
  case (grow log ix outs log')
  then show ?case using soundIndex_grow [OF _ grow.hyps(2,3) wf] by blast
next
  case (publish log ix outs ev logs rd ctxErr ctxWait out slept ix')
  let ?I = "\<lambda>k ix. soundIndex irOrder rowPair rows (logs k) ix"
  let ?ref = "publicOf pc rt sn (mapOf rowPair rows) (jeBody ev)"
  have run: "retryLoop (\<lambda>k. Project pc (identities rt sn (rd k)) (jeSeq ev) (jeBody ev)) ctxErr ctxWait bounds 0 (boFloor bounds) [] ix = Some (out, slept, ix')"
    using publish.hyps(4) by (simp add: projectEnduring_def retryingProjection_def)
  have start: "?I 0 ix" using publish.IH publish.hyps(3) soundIndex_grow [OF _ _ _ wf] by blast
  have step: "?I k ix2 \<and> (r = ?ref \<or> mappingFails r)"
    if "?I k ix1" "Project pc (identities rt sn (rd k)) (jeSeq ev) (jeBody ev) ix1 = (r, ix2)" for k ix1 r ix2
  proof (rule inbox.project_source [OF wf one that(1) _ _ that(2)])
    show "\<forall>ka a b. rd k ka a b = inboxCommandsRead (inboxAnswer (logs k)) a b \<or> (\<exists>e. rd k ka a b = Inl e)"
      using publish.hyps(3) by (simp add: inboxReads_def)
    fix r x c
    assume "namedCommand pc rt sn (jeBody ev) = Some r" "x \<in> set rows" "rowPair x = Some \<lparr> prRuntime = r, prPublic = c \<rparr>"
    then have "x \<in> set log" using publish.hyps(2) by (auto simp: admittedBefore_def)
    then show "x \<in> set (logs k) \<and> \<not> False" using publish.hyps(3) set_mono_prefix by blast
  qed
  have next': "?I (Suc k) ix1" if "?I k ix1" for k ix1
    using that publish.hyps(3) soundIndex_grow [OF _ _ _ wf] by blast
  from retryLoop_inv [OF run, of ?I ?I "\<lambda>r. r = ?ref \<or> mappingFails r", OF start step next']
  have "?I (length slept) ix'" "\<forall>b. out = Inr b \<longrightarrow> ?ref = Inr b" by (auto simp: mappingFails_def)
  with publish.IH show ?case by auto
qed

lemma publicOf_cong:
  assumes "\<And>r. namedCommand pc rt sn body = Some r \<Longrightarrow> m r = m' r"
  shows "publicOf pc rt sn m body = publicOf pc rt sn m' body"
proof (cases "pcIsZero pc rt \<or> \<not> pcValidSession pc sn")
  case True
  then show ?thesis by (auto simp: publicOf_def Project_def)
next
  case False
  let ?b = "replaceAll body rt sn"
  let ?ids = "\<lambda>m. \<lparr> idRuntimeSessionID = rt, idSessionID = sn, idCommands = Some (\<lambda>r _ u. (Inr (m r), u)) \<rparr> :: unit Identities"
  have "fst (projectCause pc (?ids m) 0 ?b ()) = fst (projectCause pc (?ids m') 0 ?b ())"
  proof (cases "bodyCommand pc ?b")
    case None
    show ?thesis by (rule projectCause_none(1) [OF None]) simp_all
  next
    case (Some r)
    then have "m r = m' r" using assms by (simp add: namedCommand_def)
    then show ?thesis unfolding projectCause_mapping [OF Some, of rt sn m 0 rt sn 0] projectCause_mapping [OF Some, of rt sn m' 0 rt sn 0] by simp
  qed
  with False show ?thesis by (simp add: publicOf_def Project_checked)
qed

text \<open>
  The life of the public journals of a Factory: journals grow, up to what they ever hold, readers are
  opened, through the cache or beside it, and pages are read.  The mapping of a command that an event
  names is in the journal at or below the event.
\<close>

type_synonym journals = "tenant_id \<times> session_id \<Rightarrow> RuntimeRecord list"

definition journalReads :: "(nat \<Rightarrow> u64 \<Rightarrow> u64 \<Rightarrow> source_answer) \<Rightarrow> RuntimeRecord list \<Rightarrow> bool" where
  "journalReads rd log \<longleftrightarrow> (\<forall>k a b. rd k a b = JournalSourceRead (journalAnswer log) a b \<or> (\<exists>e. rd k a b = Inl e))"

definition appliedBefore :: "PublicCore \<Rightarrow> PublicJournal \<Rightarrow> RuntimeRecord list \<Rightarrow> RuntimeRecord list \<Rightarrow> JournalEvent \<Rightarrow> bool" where
  "appliedBefore pc j f log ev \<longleftrightarrow>
     (\<forall>r x c. namedCommand pc (jRuntimeID j) (jSession j) (jeBody ev) = Some r \<and> x \<in> set f \<and> recordPair x = Some \<lparr> prRuntime = r, prPublic = c \<rparr> \<longrightarrow>
        x \<in> set log \<and> rrSeq x \<le> jeSeq ev)"

definition lawfulPage ::
  "PublicCore \<Rightarrow> journals \<Rightarrow> journals \<Rightarrow> ('r \<Rightarrow> nat \<Rightarrow> nat \<Rightarrow> u64 \<Rightarrow> u64 \<Rightarrow> source_answer) \<Rightarrow> PublicJournal \<Rightarrow> JournalEvent list \<Rightarrow> bool" where
  "lawfulPage pc f logs rd j events \<longleftrightarrow>
     (\<forall>reader n. journalReads (rd reader n) (logs (jTenant j, jRuntime j))) \<and>
     (\<forall>ev\<in>set events. appliedBefore pc j (f (jTenant j, jRuntime j)) (logs (jTenant j, jRuntime j)) ev)"

inductive journalReach :: "PublicCore \<Rightarrow> (tenant_id \<Rightarrow> bool) \<Rightarrow> journals \<Rightarrow> 'r PublicJournals \<Rightarrow> PublicJournal set \<Rightarrow> journals \<Rightarrow> bool"
  for pc validTenant f where
  init: "journalReach pc validTenant f (NewPublicJournals capacity) {} (\<lambda>_. [])"
| grow: "journalReach pc validTenant f p opened logs \<Longrightarrow> prefix (logs k) log' \<Longrightarrow> prefix log' (f k) \<Longrightarrow>
    journalReach pc validTenant f p opened (logs(k := log'))"
| open_cached: "journalReach pc validTenant f p opened logs \<Longrightarrow> set order = dom (pjIndexes p) \<Longrightarrow>
    JournalsReader pc validTenant order reader tenant session binding p = (Inr j, p') \<Longrightarrow> journalReach pc validTenant f p' (insert j opened) logs"
| open_alone: "journalReach pc validTenant f p opened logs \<Longrightarrow>
    newPublicJournal pc validTenant reader tenant session binding p = (Inr j, p') \<Longrightarrow> journalReach pc validTenant f p' (insert j opened) logs"
| read: "journalReach pc validTenant f p opened logs \<Longrightarrow> j \<in> opened \<Longrightarrow> lawfulPage pc f logs rd j events \<Longrightarrow>
    ReadPublicJournal pc (Inr events) rd tenant session j p = (out, p') \<Longrightarrow> journalReach pc validTenant f p' opened logs"

definition cellOf :: "'r PublicJournals \<Rightarrow> nat \<Rightarrow> tenant_id \<Rightarrow> session_id \<Rightarrow> bool" where
  "cellOf p i tenant runtime \<longleftrightarrow> (\<exists>c. pjCells p i = Some c \<and> icTenant c = tenant \<and> icRuntime c = runtime)"

definition cellsSound :: "journals \<Rightarrow> journals \<Rightarrow> 'r PublicJournals \<Rightarrow> bool" where
  "cellsSound f logs p \<longleftrightarrow>
     (\<forall>i c. pjCells p i = Some c \<longrightarrow> soundIndex rrSeq recordPair (f (icTenant c, icRuntime c)) (logs (icTenant c, icRuntime c)) (icIndex c)) \<and>
     (\<forall>i\<ge>pjNext p. pjCells p i = None)"

definition cacheSound :: "'r PublicJournals \<Rightarrow> bool" where
  "cacheSound p \<longleftrightarrow>
     0 < pjCapacity p \<and> finite (dom (pjIndexes p)) \<and> int (card (dom (pjIndexes p))) \<le> pjCapacity p \<and>
     (\<forall>t s r ci. pjIndexes p (t, s, r) = Some ci \<longrightarrow> cellOf p (ciIndex ci) t r)"

definition journals_inv :: "journals \<Rightarrow> journals \<Rightarrow> 'r PublicJournals \<Rightarrow> PublicJournal set \<Rightarrow> bool" where
  "journals_inv f logs p opened \<longleftrightarrow>
     (\<forall>k. prefix (logs k) (f k)) \<and> cellsSound f logs p \<and> cacheSound p \<and> (\<forall>j\<in>opened. cellOf p (jIndex j) (jTenant j) (jRuntime j))"

lemma newPublicJournal_inv:
  assumes n: "newPublicJournal pc validTenant reader tenant session binding p = (Inr j, p')"
    and inv: "journals_inv f logs p opened" and wf: "\<And>k. wfLog rrSeq (f k)"
  shows "journals_inv f logs p' opened" "cellOf p' (jIndex j) tenant binding" "jTenant j = tenant" "jRuntime j = binding" "pjIndexes p' = pjIndexes p"
    "reader \<noteq> None"
proof -
  obtain rd where rd: "reader = Some rd" using n by (cases reader) (simp_all add: newPublicJournal_def)
  then obtain runtimeID where r: "pcParseUUID pc binding = Some runtimeID"
      "j = \<lparr> jTenant = tenant, jRuntime = binding, jRuntimeID = runtimeID, jSession = session, jIndex = pjNext p \<rparr>"
      "p' = p\<lparr> pjCells := (pjCells p)(pjNext p \<mapsto> \<lparr> icTenant = tenant, icRuntime = binding, icIndex = NewIndex, icReader = rd \<rparr>), pjNext := pjNext p + 1 \<rparr>"
    using n by (auto simp: newPublicJournal_def split: if_splits option.splits)
  have keep: "cellOf p i t s \<Longrightarrow> cellOf p' i t s" for i t s
    using inv by (auto simp: cellOf_def r(3) journals_inv_def cellsSound_def)
  have "prefix (logs (tenant, binding)) (f (tenant, binding))" using inv by (simp add: journals_inv_def)
  then have "cellsSound f logs p'" using inv soundIndex_new [OF _ wf] by (simp add: cellsSound_def journals_inv_def r(3))
  moreover have "cacheSound p'" using inv keep by (auto simp: cacheSound_def journals_inv_def r(3))
  ultimately show "journals_inv f logs p' opened" using inv keep by (auto simp: journals_inv_def)
  show "cellOf p' (jIndex j) tenant binding" by (simp add: cellOf_def r)
  show "jTenant j = tenant" "jRuntime j = binding" "pjIndexes p' = pjIndexes p" "reader \<noteq> None" by (simp_all add: r rd)
qed

lemma oldestKey_dom:
  assumes "\<forall>k. oldest = Some k \<longrightarrow> k \<in> dom indexes" "set order \<subseteq> dom indexes"
  shows "case oldestKey indexes order oldest of None \<Rightarrow> oldest = None \<and> order = [] | Some k \<Rightarrow> k \<in> dom indexes"
  using assms
proof (induction order arbitrary: oldest)
  case Nil
  then show ?case by (cases oldest) auto
next
  case (Cons c rest)
  then obtain ci where ci: "indexes c = Some ci" by auto
  define oldest' where "oldest' = (case oldest of None \<Rightarrow> Some c
    | Some k \<Rightarrow> if ciUsed ci < (case indexes k of Some d \<Rightarrow> ciUsed d | None \<Rightarrow> 0) then Some c else Some k)"
  have "oldestKey indexes (c # rest) oldest = oldestKey indexes rest oldest'" by (cases oldest) (simp_all add: ci oldest'_def)
  moreover obtain k where k: "oldest' = Some k" "k = c \<or> oldest = Some k"
  proof (cases oldest)
    case None
    then show thesis using that [of c] by (simp add: oldest'_def)
  next
    case (Some k)
    then have "oldest' = Some c \<or> oldest' = Some k" by (simp add: oldest'_def)
    then show thesis using that [of c] that [of k] Some by blast
  qed
  have "\<forall>k. oldest' = Some k \<longrightarrow> k \<in> dom indexes" using k Cons.prems(1) ci by (metis domI option.inject)
  from Cons.IH [OF this] Cons.prems(2) k(1)
  have "\<exists>k. oldestKey indexes rest oldest' = Some k \<and> k \<in> dom indexes"
    by (cases "oldestKey indexes rest oldest'") simp_all
  ultimately show ?case by auto
qed

lemma JournalsReader_inv:
  assumes o: "JournalsReader pc validTenant order reader tenant session binding p = (Inr j, p')"
    and order: "set order = dom (pjIndexes p)"
    and inv: "journals_inv f logs p opened" and wf: "\<And>k. wfLog rrSeq (f k)"
  shows "journals_inv f logs p' (insert j opened)"
proof -
  obtain fresh p1 where n: "newPublicJournal pc validTenant reader tenant session binding p = (Inr fresh, p1)"
    using o by (cases "newPublicJournal pc validTenant reader tenant session binding p"; cases "fst (newPublicJournal pc validTenant reader tenant session binding p)")
      (auto simp: JournalsReader_def)
  note new = newPublicJournal_inv [OF n inv wf]
  let ?key = "(tenant, session, binding)"
  show ?thesis
  proof (cases "pjIndexes p ?key")
    case (Some cached)
    then obtain c where c: "pjCells p1 (ciIndex cached) = Some c" "icTenant c = tenant" "icRuntime c = binding"
      using new(1) new(5) by (fastforce simp: journals_inv_def cacheSound_def cellOf_def)
    have p': "j = fresh\<lparr> jIndex := ciIndex cached \<rparr>"
        "p' = p1\<lparr> pjClock := pjClock p1 + 1, pjIndexes := (pjIndexes p)(?key \<mapsto> cached\<lparr> ciUsed := pjClock p1 + 1 \<rparr>),
          pjCells := (pjCells p1)(ciIndex cached \<mapsto> c\<lparr> icReader := the reader \<rparr>) \<rparr>"
      using o n Some c new(4,5) by (simp_all add: JournalsReader_def Let_def)
    have keep: "cellOf p1 i t s \<Longrightarrow> cellOf p' i t s" for i t s using c by (auto simp: cellOf_def p'(2))
    have "cellsSound f logs p'" using new(1) c by (auto simp: journals_inv_def cellsSound_def p'(2))
    moreover have "dom (pjIndexes p') = dom (pjIndexes p)" using Some by (auto simp: p'(2))
    then have "cacheSound p'" using new(1,5) keep c Some
      by (auto simp: journals_inv_def cacheSound_def p'(2) cellOf_def split: if_splits)
    moreover have "cellOf p' (jIndex j) (jTenant j) (jRuntime j)" using c new(3,4) by (simp add: cellOf_def p')
    ultimately show ?thesis using new(1) keep by (auto simp: journals_inv_def)
  next
    case None
    define kept where "kept = (if int (card (dom (pjIndexes p))) \<ge> pjCapacity p1
        then (case oldestKey (pjIndexes p) order None of Some k \<Rightarrow> (pjIndexes p)(k := None) | None \<Rightarrow> pjIndexes p) else pjIndexes p)"
    have p': "j = fresh" "p' = p1\<lparr> pjClock := pjClock p1 + 1, pjIndexes := kept(?key \<mapsto> \<lparr> ciIndex = jIndex fresh, ciUsed = pjClock p1 + 1 \<rparr>) \<rparr>"
      using o n None new(4,5)
      by (cases "int (card (dom (pjIndexes p))) \<ge> pjCapacity p1"; cases "oldestKey (pjIndexes p) order None"; auto simp: JournalsReader_def Let_def kept_def)+
    have cache: "0 < pjCapacity p1" "finite (dom (pjIndexes p))" "int (card (dom (pjIndexes p))) \<le> pjCapacity p1"
      using new(1,5) by (simp_all add: journals_inv_def cacheSound_def)
    have sub: "kept k = Some ci \<Longrightarrow> pjIndexes p k = Some ci" for k ci
      by (auto simp: kept_def split: if_splits option.splits)
    have fin: "finite (dom kept)" by (rule finite_subset [OF _ cache(2)]) (auto dest: sub)
    have "int (card (dom kept)) < pjCapacity p1"
    proof (cases "int (card (dom (pjIndexes p))) \<ge> pjCapacity p1")
      case True
      with cache(1) have "order \<noteq> []" using order by auto
      with oldestKey_dom [of None "pjIndexes p" order] order obtain k where k: "oldestKey (pjIndexes p) order None = Some k" "k \<in> dom (pjIndexes p)"
        by (cases "oldestKey (pjIndexes p) order None") auto
      then have "dom kept = dom (pjIndexes p) - {k}" using True by (auto simp: kept_def)
      moreover have "0 < card (dom (pjIndexes p))" using k(2) cache(2) card_gt_0_iff by blast
      ultimately show ?thesis using k(2) cache(2,3) by simp
    qed (simp add: kept_def)
    then have "int (card (dom (pjIndexes p'))) \<le> pjCapacity p1" using fin by (simp add: p'(2) card_insert_if)
    moreover have cells: "pjCells p' = pjCells p1" "pjNext p' = pjNext p1" "pjCapacity p' = pjCapacity p1" by (simp_all add: p'(2))
    moreover have "cellOf p1 (ciIndex ci) t r" if "pjIndexes p' (t, s, r) = Some ci" for t s r ci
    proof (cases "(t, s, r) = ?key")
      case True
      then show ?thesis using that new(2) by (auto simp: p'(2))
    next
      case False
      then have "pjIndexes p1 (t, s, r) = Some ci" using that sub [of "(t, s, r)" ci] new(5) by (auto simp: p'(2) split: if_splits)
      then show ?thesis using new(1) unfolding journals_inv_def cacheSound_def by blast
    qed
    ultimately have "cacheSound p'" using cache(1) fin by (simp add: cacheSound_def cellOf_def p'(2))
    then show ?thesis using new(1-4) cells by (auto simp: journals_inv_def cellsSound_def cellOf_def p'(1))
  qed
qed

lemma projectEvents_sound:
  assumes wf: "wfLog rrSeq f" and one: "oneMapping recordPair f"
    and reads: "\<forall>n. journalReads (rd n) log"
  shows "soundIndex rrSeq recordPair f log ix \<Longrightarrow>
    \<forall>ev\<in>set events. \<forall>r x c. namedCommand pc rt sn (jeBody ev) = Some r \<and> x \<in> set f \<and> recordPair x = Some \<lparr> prRuntime = r, prPublic = c \<rparr> \<longrightarrow>
        x \<in> set log \<and> rrSeq x \<le> jeSeq ev \<Longrightarrow>
    projectEvents pc rt sn rd n events ix = (out, ix') \<Longrightarrow>
    soundIndex rrSeq recordPair f log ix' \<and>
    (\<forall>page. out = Inr page \<longrightarrow> list_all2 (\<lambda>ev ev'. jeSeq ev' = jeSeq ev \<and> publicOf pc rt sn (mapOf recordPair f) (jeBody ev) = Inr (jeBody ev')) events page)"
proof (induction events arbitrary: n ix out ix')
  case Nil
  then show ?case by auto
next
  case (Cons ev evs)
  obtain o1 ix1 where p: "Project pc (identities rt sn (rd n)) (jeSeq ev) (jeBody ev) ix = (o1, ix1)" by fastforce
  have s: "soundIndex rrSeq recordPair f log ix1 \<and> (o1 = publicOf pc rt sn (mapOf recordPair f) (jeBody ev) \<or> mappingFails o1)"
  proof (rule journal.project_source [OF wf one Cons.prems(1) _ _ p])
    show "\<forall>k a b. rd n k a b = JournalSourceRead (journalAnswer log) a b \<or> (\<exists>e. rd n k a b = Inl e)" using reads by (simp add: journalReads_def)
    fix r x c
    assume "namedCommand pc rt sn (jeBody ev) = Some r" "x \<in> set f" "recordPair x = Some \<lparr> prRuntime = r, prPublic = c \<rparr>"
    then show "x \<in> set log \<and> \<not> jeSeq ev < rrSeq x" using Cons.prems(2) by (simp add: not_less)
  qed
  obtain o2 ix2 where rest: "projectEvents pc rt sn rd (Suc n) evs ix1 = (o2, ix2)" by fastforce
  have ih: "soundIndex rrSeq recordPair f log ix2 \<and>
      (\<forall>page. o2 = Inr page \<longrightarrow> list_all2 (\<lambda>ev ev'. jeSeq ev' = jeSeq ev \<and> publicOf pc rt sn (mapOf recordPair f) (jeBody ev) = Inr (jeBody ev')) evs page)"
    by (rule Cons.IH [OF conjunct1 [OF s] _ rest]) (use Cons.prems(2) in simp)
  show ?case
  proof (cases o1)
    case (Inl e)
    then show ?thesis using Cons.prems(3) p s by auto
  next
    case (Inr b)
    with s have b: "publicOf pc rt sn (mapOf recordPair f) (jeBody ev) = Inr b" by (auto simp: mappingFails_def)
    show ?thesis using Cons.prems(3) p rest ih Inr b by (cases o2) auto
  qed
qed

lemma ReadPublicJournal_sound:
  assumes r: "ReadPublicJournal pc (Inr events) rd tenant session j p = (out, p')" and j: "j \<in> opened" and law: "lawfulPage pc f logs rd j events"
    and inv: "journals_inv f logs p opened" and wf: "\<And>k. wfLog rrSeq (f k)" and one: "\<And>k. oneMapping recordPair (f k)"
  shows "journals_inv f logs p' opened \<and>
    (\<forall>page. out = Inr page \<longrightarrow> list_all2 (\<lambda>ev ev'. jeSeq ev' = jeSeq ev \<and>
        publicOf pc (jRuntimeID j) (jSession j) (mapOf recordPair (f (jTenant j, jRuntime j))) (jeBody ev) = Inr (jeBody ev')) events page)"
proof -
  obtain c where c: "pjCells p (jIndex j) = Some c" "icTenant c = jTenant j" "icRuntime c = jRuntime j"
    using inv j by (auto simp: journals_inv_def cellOf_def)
  let ?k = "(jTenant j, jRuntime j)"
  obtain o1 ix where e: "projectEvents pc (jRuntimeID j) (jSession j) (rd (icReader c)) 0 events (icIndex c) = (o1, ix)" by fastforce
  have ix0: "soundIndex rrSeq recordPair (f ?k) (logs ?k) (icIndex c)" using inv c by (fastforce simp: journals_inv_def cellsSound_def)
  have s: "soundIndex rrSeq recordPair (f ?k) (logs ?k) ix \<and>
      (\<forall>page. o1 = Inr page \<longrightarrow> list_all2 (\<lambda>ev ev'. jeSeq ev' = jeSeq ev \<and>
        publicOf pc (jRuntimeID j) (jSession j) (mapOf recordPair (f ?k)) (jeBody ev) = Inr (jeBody ev')) events page)"
    by (rule projectEvents_sound [OF wf one _ ix0 _ e]) (use law in \<open>simp_all add: lawfulPage_def appliedBefore_def\<close>)
  show ?thesis
  proof (cases "tenant \<noteq> jTenant j \<or> session \<noteq> jRuntime j")
    case True
    then show ?thesis using r inv by (auto simp: ReadPublicJournal_def)
  next
    case False
    then have p': "out = o1" "p' = p\<lparr> pjCells := (pjCells p)(jIndex j \<mapsto> c\<lparr> icIndex := ix \<rparr>) \<rparr>" using r c e by (auto simp: ReadPublicJournal_def)
    have keep: "cellOf p i t s \<Longrightarrow> cellOf p' i t s" for i t s using c by (auto simp: cellOf_def p'(2))
    have "cellsSound f logs p'" using inv s c by (auto simp: journals_inv_def cellsSound_def p'(2))
    moreover have "cacheSound p'" using inv keep by (auto simp: journals_inv_def cacheSound_def p'(2))
    ultimately show ?thesis using inv s keep p'(1) by (auto simp: journals_inv_def)
  qed
qed

lemma journalReach_inv:
  assumes "journalReach pc validTenant f p opened logs" and wf: "\<And>k. wfLog rrSeq (f k)" and one: "\<And>k. oneMapping recordPair (f k)"
  shows "journals_inv f logs p opened"
  using assms(1)
proof induction
  case (init capacity)
  show ?case by (simp add: journals_inv_def cellsSound_def cacheSound_def NewPublicJournals_def)
next
  case (grow p opened logs k log')
  have "soundIndex rrSeq recordPair (f q) ((logs(k := log')) q) ix" if "soundIndex rrSeq recordPair (f q) (logs q) ix" for q ix
    using that soundIndex_grow [OF that _ _ wf] grow.hyps(2,3) by (cases "q = k") simp_all
  then show ?case using grow by (simp add: journals_inv_def cellsSound_def)
next
  case (open_cached p opened logs order reader tenant session binding j p')
  show ?case by (rule JournalsReader_inv [OF open_cached.hyps(3,2) open_cached.IH wf])
next
  case (open_alone p opened logs reader tenant session binding j p')
  note n = newPublicJournal_inv [OF open_alone.hyps(2) open_alone.IH wf]
  then show ?case by (simp add: journals_inv_def)
next
  case (read p opened logs j rd events tenant session out p')
  then show ?case using ReadPublicJournal_sound [OF read.hyps(4,2,3) read.IH wf one] by blast
qed

text \<open>
  C3: an event reads the same live and durably.  A tail publishes events, projected through the mapping
  of the inbox, with reads that fail and are retried; a reader of the public journal, one of any number
  that share cached indexes, are evicted and opened again, reads pages of the journal, projected through
  the mapping of its application prefixes.  The two record the same mapping for the commands the events
  name.  Then whatever the tail published for an event is byte for byte what the journal answers for it,
  the answered page has the events' sequences, and the cache never holds more than its capacity.
\<close>

theorem live_equals_durable:
  assumes live: "liveReach pc bounds (jRuntimeID j) (jSession j) rows log ix outs" "wfLog irOrder rows" "oneMapping rowPair rows"
    and durable: "journalReach pc validTenant f p opened logs" "\<And>k. wfLog rrSeq (f k)" "\<And>k. oneMapping recordPair (f k)"
    and read: "j \<in> opened" "lawfulPage pc f logs rd j events" "ReadPublicJournal pc (Inr events) rd tenant session j p = (Inr page, p')"
    and same: "\<And>ev r c. ev \<in> set events \<Longrightarrow> namedCommand pc (jRuntimeID j) (jSession j) (jeBody ev) = Some r \<Longrightarrow>
        maps rowPair rows r c \<longleftrightarrow> maps recordPair (f (jTenant j, jRuntime j)) r c"
  shows "map jeSeq page = map jeSeq events \<and>
    (\<forall>n<length events. \<forall>b. (events ! n, Inr b) \<in> set outs \<longrightarrow> jeBody (page ! n) = b) \<and>
    int (card (dom (pjIndexes p'))) \<le> pjCapacity p'"
proof -
  let ?live = "mapOf rowPair rows" and ?durable = "mapOf recordPair (f (jTenant j, jRuntime j))"
  have inv: "journals_inv f logs p opened" by (rule journalReach_inv [OF durable])
  note r = ReadPublicJournal_sound [OF read(3,1,2) inv durable(2,3)]
  have page: "list_all2 (\<lambda>ev ev'. jeSeq ev' = jeSeq ev \<and> publicOf pc (jRuntimeID j) (jSession j) ?durable (jeBody ev) = Inr (jeBody ev')) events page"
    using r by blast
  have eq: "publicOf pc (jRuntimeID j) (jSession j) ?live (jeBody ev) = publicOf pc (jRuntimeID j) (jSession j) ?durable (jeBody ev)"
    if "ev \<in> set events" for ev
  proof (rule publicOf_cong)
    fix q
    assume q: "namedCommand pc (jRuntimeID j) (jSession j) (jeBody ev) = Some q"
    have "?live q = Some c \<longleftrightarrow> ?durable q = Some c" for c
      using same [OF that q] by (simp add: mapOf_maps [OF live(3)] mapOf_maps [OF durable(3)])
    then show "?live q = ?durable q" by (metis option.exhaust)
  qed
  have "jeBody (page ! n) = b" if n: "n < length events" and b: "(events ! n, Inr b) \<in> set outs" for n b
  proof -
    have "publicOf pc (jRuntimeID j) (jSession j) ?live (jeBody (events ! n)) = Inr b" using live_sound [OF live] b by blast
    moreover have "publicOf pc (jRuntimeID j) (jSession j) ?durable (jeBody (events ! n)) = Inr (jeBody (page ! n))"
      using list_all2_nthD [OF page n] by blast
    ultimately show ?thesis using eq [of "events ! n"] n by simp
  qed
  moreover have "map jeSeq page = map jeSeq events" using page by (induction rule: list_all2_induct) simp_all
  moreover have "int (card (dom (pjIndexes p'))) \<le> pjCapacity p'" using r by (simp add: journals_inv_def cacheSound_def)
  ultimately show ?thesis by blast
qed

definition exCore :: PublicCore where
  "exCore = \<lparr> pcParseUUID = Some, pcIsZero = (\<lambda>_. False), pcValidSession = (\<lambda>_. True) \<rparr>"

definition exRows :: "InboxRow list" where
  "exRows = [\<lparr> irOrder = 1, irRuntime = Some ''r1'', irPublic = ''c1'' \<rparr>]"

definition exApplied :: "RuntimeRecord list" where
  "exApplied = [\<lparr> rrSeq = 1, rrPrefix = True, rrRuntime = ''r1'', rrPublic = ''c1'' \<rparr>]"

definition exEvent :: JournalEvent where
  "exEvent = \<lparr> jeSeq = 2, jeBody = jsonText (JObj [(''session_id'', JStr ''rt''), (''cause'', JObj [(''command_id'', JStr ''r1'')])]) \<rparr>"

definition exPublic :: string where
  "exPublic = jsonText (JObj [(''session_id'', JStr ''s-1''), (''cause'', JObj [(''command_id'', JStr ''c1'')])])"

text \<open>The store of the example fails its first read.\<close>

definition exReads :: "nat \<Rightarrow> nat \<Rightarrow> u64 \<Rightarrow> u64 \<Rightarrow> source_answer" where
  "exReads n k a b = (if n = 0 then Inl ''unavailable'' else inboxCommandsRead (inboxAnswer exRows) a b)"

definition exJournals :: "unit PublicJournals" where
  "exJournals = \<lparr> pjCapacity = 1024, pjClock = 1, pjIndexes = [(''t'', ''s-1'', ''rt'') \<mapsto> \<lparr> ciIndex = 0, ciUsed = 1 \<rparr>],
     pjCells = [0 \<mapsto> \<lparr> icTenant = ''t'', icRuntime = ''rt'', icIndex = NewIndex, icReader = () \<rparr>], pjNext = 1 \<rparr>"

definition exJournal :: PublicJournal where
  "exJournal = \<lparr> jTenant = ''t'', jRuntime = ''rt'', jRuntimeID = ''rt'', jSession = ''s-1'', jIndex = 0 \<rparr>"

lemma exNamed: "namedCommand exCore ''rt'' ''s-1'' (jeBody exEvent) = Some ''r1''"
  by code_simp

lemma exLive: "\<exists>ix. projectEnduring exCore defaultProjectionRetry exReads (\<lambda>_. False) (\<lambda>_. False) ''rt'' ''s-1'' 2 (jeBody exEvent) NewIndex =
    Some (Inr exPublic, [50000000], ix)"
proof -
  have "map_option (\<lambda>(out, slept, _). (out, slept)) (projectEnduring exCore defaultProjectionRetry exReads (\<lambda>_. False) (\<lambda>_. False) ''rt'' ''s-1'' 2 (jeBody exEvent) NewIndex) =
      Some (Inr exPublic, [50000000])" by code_simp
  then show ?thesis by auto
qed

lemma exRead: "fst (ReadPublicJournal exCore (Inr [exEvent]) (\<lambda>_ _ _. JournalSourceRead (journalAnswer exApplied)) ''t'' ''rt'' exJournal exJournals) =
    Inr [\<lparr> jeSeq = 2, jeBody = exPublic \<rparr>]"
  by code_simp

lemma exOpened: "journalReach exCore (\<lambda>_. True) (\<lambda>k. if k = (''t'', ''rt'') then exApplied else []) exJournals {exJournal}
    (\<lambda>k. if k = (''t'', ''rt'') then exApplied else [])"
proof -
  let ?f = "\<lambda>k. if k = (''t'', ''rt'') then exApplied else []"
  have "journalReach exCore (\<lambda>_. True) ?f (NewPublicJournals 0 :: unit PublicJournals) {} (\<lambda>_. [])" by (rule journalReach.init)
  then have g: "journalReach exCore (\<lambda>_. True) ?f (NewPublicJournals 0 :: unit PublicJournals) {} ((\<lambda>_. [])((''t'', ''rt'') := exApplied))"
    by (rule journalReach.grow) simp_all
  have "(\<lambda>_. [])((''t'', ''rt'') := exApplied) = ?f" by auto
  with g have g': "journalReach exCore (\<lambda>_. True) ?f (NewPublicJournals 0 :: unit PublicJournals) {} ?f" by simp
  show ?thesis
  proof (rule journalReach.open_cached [OF g', of "[]" "Some ()" "''t''" "''s-1''" "''rt''"])
    show "JournalsReader exCore (\<lambda>_. True) [] (Some ()) ''t'' ''s-1'' ''rt'' (NewPublicJournals 0) = (Inr exJournal, exJournals)"
      by (simp add: JournalsReader_def newPublicJournal_def NewPublicJournals_def exCore_def exJournal_def exJournals_def Let_def)
  qed (simp add: NewPublicJournals_def)
qed

theorem live_equals_durable_witness:
  "\<exists>ix p'. projectEnduring exCore defaultProjectionRetry exReads (\<lambda>_. False) (\<lambda>_. False) ''rt'' ''s-1'' 2 (jeBody exEvent) NewIndex = Some (Inr exPublic, [50000000], ix) \<and>
     ReadPublicJournal exCore (Inr [exEvent]) (\<lambda>_ _ _. JournalSourceRead (journalAnswer exApplied)) ''t'' ''rt'' exJournal exJournals =
       (Inr [\<lparr> jeSeq = 2, jeBody = exPublic \<rparr>], p') \<and> int (card (dom (pjIndexes p'))) \<le> pjCapacity p'"
proof -
  let ?f = "\<lambda>k. if k = (''t'', ''rt'') then exApplied else []"
  let ?rd = "\<lambda>_ _ _. JournalSourceRead (journalAnswer exApplied)"
  obtain ix where e: "projectEnduring exCore defaultProjectionRetry exReads (\<lambda>_. False) (\<lambda>_. False) ''rt'' ''s-1'' 2 (jeBody exEvent) NewIndex =
      Some (Inr exPublic, [50000000], ix)" using exLive by blast
  obtain p' where r: "ReadPublicJournal exCore (Inr [exEvent]) ?rd ''t'' ''rt'' exJournal exJournals = (Inr [\<lparr> jeSeq = 2, jeBody = exPublic \<rparr>], p')"
    using exRead by (metis prod.collapse)
  have l0: "liveReach exCore defaultProjectionRetry ''rt'' ''s-1'' exRows exRows NewIndex []"
    by (rule liveReach.grow [OF liveReach.init]) simp_all
  have live: "liveReach exCore defaultProjectionRetry (jRuntimeID exJournal) (jSession exJournal) exRows exRows ix [(exEvent, Inr exPublic)]"
    using liveReach.publish [OF l0, of exEvent "\<lambda>_. exRows" exReads "\<lambda>_. False" "\<lambda>_. False" "Inr exPublic" "[50000000]" ix] e
    by (simp add: admittedBefore_def inboxReads_def exReads_def exJournal_def exEvent_def)
  have w: "wfLog irOrder exRows" "oneMapping rowPair exRows"
    by (simp_all add: wfLog_def oneMapping_def maps_def exRows_def rowPair_def)
  have wj: "wfLog rrSeq (?f k)" "oneMapping recordPair (?f k)" for k
    by (simp_all add: wfLog_def oneMapping_def maps_def exApplied_def recordPair_def)
  have law: "lawfulPage exCore ?f ?f ?rd exJournal [exEvent]"
    by (simp add: lawfulPage_def journalReads_def appliedBefore_def exJournal_def exApplied_def exEvent_def recordPair_def)
  have same: "maps rowPair exRows q c \<longleftrightarrow> maps recordPair (?f (jTenant exJournal, jRuntime exJournal)) q c" for q c
    by (simp add: maps_def exRows_def exApplied_def exJournal_def rowPair_def recordPair_def)
  have "int (card (dom (pjIndexes p'))) \<le> pjCapacity p'"
    using live_equals_durable [OF live w exOpened wj _ law r] same by simp
  with e r show ?thesis by blast
qed

end
