(* ===== verification/Supervision.thy ===== *)
theory Supervision
  imports Projectors Tail
begin

text \<open>
  The supervision of a session's live tail, \<open>supervisedTail\<close> of
  \<^verbatim>\<open>internal/compose/publicbody.go\<close>: a tail that refused a publication is started again, a
  stop ends the current tail and every restart.  The relay of a tail is the theory \<open>Tail\<close>;
  here it is what its supervisor can see of it.

  \<open>Tail.Stop\<close> cancels the context of the tail and returns: the relay goes on until it
  notices, and may publish meanwhile.  Its end is decided (after a look at the context) and
  seen, when \<open>Done\<close> closes, in two steps.  A backoff waits: its timer is due at a time of the
  clock.
\<close>

section \<open>The state\<close>

datatype RelayPC = Relaying | Ending TailEnd | Done TailEnd

datatype SupervisorPC =
    AtHead | Watching nat | Backing nat | CheckingStop nat | Restarting nat | Starting nat
  | Installing nat nat | Discarding nat | Returned

text \<open>
  Tails are numbered as they are started.  \<open>spCurrent\<close> and \<open>spStopped\<close> are the fields of
  the code; beside them stand the relays, the tails whose own context was cancelled, the session's
  context, the log of publications by the tail that made them, the tails that callers of \<open>Stop\<close> have read
  and not yet cancelled, the calls that returned, and the locals of the goroutine of
  \<open>restartRefused\<close>, with the times at which it asked for a tail, the latest first.
\<close>

record supervisedTail =
  spCurrent :: nat
  spStopped :: bool
  spRelay :: "nat \<Rightarrow> RelayPC"
  spCancelled :: "nat set"
  spCtxDone :: bool
  spNext :: nat
  spPublished :: "nat list"
  spPending :: "nat list"
  spStops :: nat
  spPC :: SupervisorPC
  spDelay :: int
  spDue :: int
  spClock :: int
  spStarts :: "int list"

definition superviseTail :: "backoff \<Rightarrow> int \<Rightarrow> bool \<Rightarrow> supervisedTail option" where
  "superviseTail bounds now started =
     (if \<not> started then None
      else Some \<lparr> spCurrent = 0, spStopped = False, spRelay = (\<lambda>_. Relaying), spCancelled = {}, spCtxDone = False,
             spNext = 1, spPublished = [], spPending = [], spStops = 0, spPC = AtHead, spDelay = boFloor bounds,
             spDue = now, spClock = now, spStarts = [now] \<rparr>)"

section \<open>The relays, as their supervisor sees them\<close>

definition relaying :: "nat \<Rightarrow> supervisedTail \<Rightarrow> bool" where
  "relaying t s = (t < spNext s \<and> (\<forall>e. spRelay s t \<noteq> Done e))"

definition tailCancel :: "nat \<Rightarrow> supervisedTail \<Rightarrow> supervisedTail" where
  "tailCancel t s = s\<lparr> spCancelled := insert t (spCancelled s) \<rparr>"

definition relayPublishes :: "nat \<Rightarrow> supervisedTail \<Rightarrow> supervisedTail option" where
  "relayPublishes t s =
     (if t < spNext s \<and> spRelay s t = Relaying then Some (s\<lparr> spPublished := spPublished s @ [t] \<rparr>) else None)"

text \<open>
  Why a relay ends: stopped only under an ended context, refused only while the context
  is alive; a runtime invariant breach ends it as lost in either case.
\<close>

definition relayEnds :: "nat \<Rightarrow> TailEnd \<Rightarrow> supervisedTail \<Rightarrow> supervisedTail option" where
  "relayEnds t e s =
     (let over = spCtxDone s \<or> t \<in> spCancelled s in
      if t < spNext s \<and> spRelay s t = Relaying \<and>
         (e = TailEndStopped \<and> over \<or> e = TailEndRefused \<and> \<not> over \<or> e = TailEndLost)
      then Some (s\<lparr> spRelay := (spRelay s)(t := Ending e) \<rparr>) else None)"

definition relayReturns :: "nat \<Rightarrow> supervisedTail \<Rightarrow> supervisedTail option" where
  "relayReturns t s =
     (case spRelay s t of
        Ending e \<Rightarrow> if t < spNext s then Some (s\<lparr> spRelay := (spRelay s)(t := Done e) \<rparr>) else None
      | _ \<Rightarrow> None)"

section \<open>Stop and the supervisor\<close>

text \<open>\<open>Stop\<close>: the mark under the mutex, then the cancel of the tail read there.\<close>

definition stopRead :: "supervisedTail \<Rightarrow> supervisedTail" where
  "stopRead s = s\<lparr> spStopped := True, spPending := spCurrent s # spPending s \<rparr>"

definition stopFinish :: "nat \<Rightarrow> supervisedTail \<Rightarrow> supervisedTail" where
  "stopFinish t s = (tailCancel t s)\<lparr> spPending := remove1 t (spPending s), spStops := spStops s + 1 \<rparr>"

definition armTimer :: "nat \<Rightarrow> supervisedTail \<Rightarrow> supervisedTail" where
  "armTimer c s = s\<lparr> spDue := spClock s + spDelay s, spPC := Backing c \<rparr>"

text \<open>
  One step of the goroutine; \<open>started\<close> is the answer of a start, \<open>pick\<close> the choice of a
  select both of whose sides are ready.  A select with neither side ready waits.
\<close>

definition restartRefused :: "backoff \<Rightarrow> bool \<Rightarrow> bool \<Rightarrow> supervisedTail \<Rightarrow> supervisedTail option" where
  "restartRefused bounds pick started s =
     (case spPC s of
        AtHead \<Rightarrow> Some (s\<lparr> spPC := Watching (spCurrent s) \<rparr>)
      | Watching c \<Rightarrow>
          (case spRelay s c of
             Done e \<Rightarrow>
               if spCtxDone s \<and> pick then Some (s\<lparr> spPC := Returned \<rparr>)
               else if e \<noteq> TailEndRefused then Some (s\<lparr> spPC := Returned \<rparr>)
               else Some (armTimer c s)
           | _ \<Rightarrow> if spCtxDone s then Some (s\<lparr> spPC := Returned \<rparr>) else None)
      | Backing c \<Rightarrow>
          if spCtxDone s \<and> (pick \<or> spClock s < spDue s) then Some (s\<lparr> spPC := Returned \<rparr>)
          else if spClock s < spDue s then None
          else Some (s\<lparr> spDelay := nextDelay bounds (spDelay s), spPC := CheckingStop c \<rparr>)
      | CheckingStop c \<Rightarrow>
          if spStopped s \<or> spCtxDone s then Some (s\<lparr> spPC := Returned \<rparr>)
          else Some (s\<lparr> spPC := Restarting c \<rparr>)
      | Restarting c \<Rightarrow> Some ((tailCancel c s)\<lparr> spPC := Starting c \<rparr>)
      | Starting c \<Rightarrow>
          (let s1 = s\<lparr> spStarts := spClock s # spStarts s \<rparr> in
           if \<not> started then Some (armTimer c s1)
           else Some (s1\<lparr> spRelay := (spRelay s)(spNext s := Relaying), spNext := spNext s + 1,
                         spPC := Installing c (spNext s) \<rparr>))
      | Installing c n \<Rightarrow>
          if spStopped s then Some (s\<lparr> spPC := Discarding n \<rparr>)
          else Some (s\<lparr> spCurrent := n, spPC := AtHead \<rparr>)
      | Discarding n \<Rightarrow> Some ((tailCancel n s)\<lparr> spPC := Returned \<rparr>)
      | Returned \<Rightarrow> None)"

inductive superviseStep :: "backoff \<Rightarrow> supervisedTail \<Rightarrow> supervisedTail \<Rightarrow> bool" for bounds where
  publishes: "relayPublishes t s = Some s' \<Longrightarrow> superviseStep bounds s s'"
| ends: "relayEnds t e s = Some s' \<Longrightarrow> superviseStep bounds s s'"
| returns: "relayReturns t s = Some s' \<Longrightarrow> superviseStep bounds s s'"
| context_ends: "superviseStep bounds s (s\<lparr> spCtxDone := True \<rparr>)"
| time: "0 \<le> d \<Longrightarrow> superviseStep bounds s (s\<lparr> spClock := spClock s + d \<rparr>)"
| stop: "superviseStep bounds s (stopRead s)"
| stopped: "t \<in> set (spPending s) \<Longrightarrow> superviseStep bounds s (stopFinish t s)"
| goroutine: "restartRefused bounds pick started s = Some s' \<Longrightarrow> superviseStep bounds s s'"

inductive superviseReach :: "backoff \<Rightarrow> supervisedTail \<Rightarrow> bool" for bounds where
  init: "superviseTail bounds now True = Some s \<Longrightarrow> superviseReach bounds s"
| step: "superviseReach bounds s \<Longrightarrow> superviseStep bounds s s' \<Longrightarrow> superviseReach bounds s'"

section \<open>The invariant\<close>

text \<open>Only the newest tail may still relay; every older one has ended and its context is cancelled.\<close>

definition newestOnly :: "supervisedTail \<Rightarrow> bool" where
  "newestOnly s = (\<forall>t. t + 1 < spNext s \<longrightarrow> (\<exists>e. spRelay s t = Done e) \<and> t \<in> spCancelled s)"

text \<open>Where the current tail stands among the started ones, and what the goroutine has seen.\<close>

definition placeOK :: "supervisedTail \<Rightarrow> bool" where
  "placeOK s = (case spPC s of
     AtHead \<Rightarrow> spNext s = spCurrent s + 1
   | Watching c \<Rightarrow> c = spCurrent s \<and> spNext s = spCurrent s + 1
   | Backing c \<Rightarrow> c = spCurrent s \<and> spNext s = spCurrent s + 1 \<and> spRelay s c = Done TailEndRefused
   | CheckingStop c \<Rightarrow> c = spCurrent s \<and> spNext s = spCurrent s + 1 \<and> spRelay s c = Done TailEndRefused
   | Restarting c \<Rightarrow> c = spCurrent s \<and> spNext s = spCurrent s + 1 \<and> spRelay s c = Done TailEndRefused
   | Starting c \<Rightarrow> c = spCurrent s \<and> spNext s = spCurrent s + 1 \<and> spRelay s c = Done TailEndRefused \<and> c \<in> spCancelled s
   | Installing c n \<Rightarrow> c = spCurrent s \<and> n = spCurrent s + 1 \<and> spNext s = spCurrent s + 2
   | Discarding n \<Rightarrow> n = spCurrent s + 1 \<and> spNext s = spCurrent s + 2 \<and> spStopped s
   | Returned \<Rightarrow> spNext s = spCurrent s + 1 \<and>
         (spStopped s \<or> spCtxDone s \<or> (\<exists>e. spRelay s (spCurrent s) = Done e \<and> e \<noteq> TailEndRefused)) \<or>
       spNext s = spCurrent s + 2 \<and> spCurrent s + 1 \<in> spCancelled s \<and> spStopped s)"

definition stopsOK :: "supervisedTail \<Rightarrow> bool" where
  "stopsOK s = ((spPending s \<noteq> [] \<or> 0 < spStops s \<longrightarrow> spStopped s) \<and> (\<forall>t\<in>set (spPending s). t = spCurrent s) \<and>
     (0 < spStops s \<longrightarrow> spCurrent s \<in> spCancelled s))"

text \<open>Two asks for a tail lie at least the floor of the backoff apart.\<close>

definition pacedStarts :: "backoff \<Rightarrow> int list \<Rightarrow> bool" where
  "pacedStarts bounds ts = successively (\<lambda>later earlier. earlier + boFloor bounds \<le> later) ts"

definition pacedOK :: "backoff \<Rightarrow> supervisedTail \<Rightarrow> bool" where
  "pacedOK bounds s =
     (boFloor bounds \<le> spDelay s \<and> spStarts s \<noteq> [] \<and> hd (spStarts s) \<le> spClock s \<and> pacedStarts bounds (spStarts s) \<and>
      (case spPC s of
         Backing c \<Rightarrow> hd (spStarts s) + boFloor bounds \<le> spDue s
       | CheckingStop c \<Rightarrow> hd (spStarts s) + boFloor bounds \<le> spClock s
       | Restarting c \<Rightarrow> hd (spStarts s) + boFloor bounds \<le> spClock s
       | Starting c \<Rightarrow> hd (spStarts s) + boFloor bounds \<le> spClock s
       | _ \<Rightarrow> True))"

definition supervise_inv :: "backoff \<Rightarrow> supervisedTail \<Rightarrow> bool" where
  "supervise_inv bounds s \<longleftrightarrow> newestOnly s \<and> placeOK s \<and> stopsOK s \<and>
     (0 \<le> boFloor bounds \<and> boFloor bounds \<le> boCeiling bounds \<longrightarrow> pacedOK bounds s)"

definition supervisorRank :: "SupervisorPC \<Rightarrow> nat" where
  "supervisorRank pc = (case pc of AtHead \<Rightarrow> 6 | Watching _ \<Rightarrow> 5 | Restarting _ \<Rightarrow> 5 | Starting _ \<Rightarrow> 4
     | Backing _ \<Rightarrow> 3 | CheckingStop _ \<Rightarrow> 2 | Installing _ _ \<Rightarrow> 2 | Discarding _ \<Rightarrow> 1 | Returned \<Rightarrow> 0)"

lemmas goroutine_defs = restartRefused_def armTimer_def tailCancel_def Let_def

lemma goroutine_newest:
  assumes "newestOnly s" "placeOK s" "restartRefused bounds pick started s = Some s'"
  shows "newestOnly s'"
proof (cases "spPC s")
  case (Starting c)
  have old: "(\<exists>e. spRelay s t = Done e) \<and> t \<in> spCancelled s" if "t < spNext s" for t
    using assms(1,2) that Starting by (cases "t = spCurrent s") (auto simp: newestOnly_def placeOK_def)
  have "spNext s' = spNext s + 1 \<or> spNext s' = spNext s" "spCancelled s' = spCancelled s"
    "\<forall>t. t < spNext s \<longrightarrow> spRelay s' t = spRelay s t"
    using assms(3) Starting by (auto simp: goroutine_defs split: if_splits)
  then show ?thesis using old by (auto simp: newestOnly_def)
qed (use assms in \<open>auto simp: goroutine_defs newestOnly_def split: if_splits RelayPC.splits\<close>)

lemma goroutine_place:
  assumes "placeOK s" "restartRefused bounds pick started s = Some s'"
  shows "placeOK s'"
proof (cases "spPC s")
  case (Watching c)
  then show ?thesis using assms
    by (cases "spRelay s c") (auto simp: goroutine_defs placeOK_def split: if_splits)
qed (use assms in \<open>auto simp: goroutine_defs placeOK_def split: if_splits\<close>)

lemma goroutine_stops:
  assumes "stopsOK s" "placeOK s" "restartRefused bounds pick started s = Some s'"
  shows "stopsOK s'"
proof (cases "spPC s")
  case (Watching c)
  then show ?thesis using assms
    by (cases "spRelay s c") (auto simp: goroutine_defs stopsOK_def split: if_splits)
qed (use assms in \<open>auto simp: goroutine_defs stopsOK_def split: if_splits\<close>)

lemma pacedOK_cong:
  assumes "spDelay s' = spDelay s" "spStarts s' = spStarts s" "spClock s' = spClock s" "spPC s' = spPC s" "spDue s' = spDue s"
  shows "pacedOK bounds s' = pacedOK bounds s"
  unfolding pacedOK_def assms by (rule refl)

lemma pacedStarts_Cons:
  "pacedStarts bounds ts \<Longrightarrow> ts \<noteq> [] \<Longrightarrow> hd ts + boFloor bounds \<le> t \<Longrightarrow> pacedStarts bounds (t # ts)"
  by (cases ts) (auto simp: pacedStarts_def)

lemma goroutine_paced:
  assumes "pacedOK bounds s" "0 \<le> boFloor bounds" "boFloor bounds \<le> boCeiling bounds"
    and "restartRefused bounds pick started s = Some s'"
  shows "pacedOK bounds s'"
proof (cases "spPC s")
  case (Watching c)
  then show ?thesis using assms
    by (cases "spRelay s c") (auto simp: goroutine_defs pacedOK_def split: if_splits)
next
  case (Starting c)
  then have "pacedStarts bounds (spClock s # spStarts s)"
    using assms(1) by (auto simp: pacedOK_def intro: pacedStarts_Cons)
  then show ?thesis using assms Starting by (auto simp: goroutine_defs pacedOK_def split: if_splits)
next
  case (Backing c)
  then show ?thesis using assms by (auto simp: goroutine_defs pacedOK_def nextDelay_def split: if_splits)
qed (use assms in \<open>auto simp: goroutine_defs pacedOK_def split: if_splits\<close>)

lemma goroutine_rank:
  assumes "spStopped s" "restartRefused bounds pick started s = Some s'"
  shows "supervisorRank (spPC s') < supervisorRank (spPC s)"
  using assms by (cases "spPC s") (auto simp: goroutine_defs supervisorRank_def split: if_splits RelayPC.splits)

lemma goroutine_keeps:
  assumes "restartRefused bounds pick started s = Some s'"
  shows "spStopped s' = spStopped s" "spStops s' = spStops s" "spPublished s' = spPublished s"
  using assms by (cases "spPC s"; auto simp: goroutine_defs split: if_splits RelayPC.splits)+

text \<open>What the other goroutines leave alone.\<close>

lemma others_frame:
  assumes "relayPublishes t s = Some s' \<or> relayEnds t e s = Some s' \<or> relayReturns t s = Some s'"
  shows "spCurrent s' = spCurrent s" "spStopped s' = spStopped s" "spCancelled s' = spCancelled s" "spCtxDone s' = spCtxDone s"
    "spNext s' = spNext s" "spPending s' = spPending s" "spStops s' = spStops s" "spPC s' = spPC s" "spDelay s' = spDelay s"
    "spDue s' = spDue s" "spClock s' = spClock s" "spStarts s' = spStarts s"
    "\<And>u x. spRelay s u = Done x \<Longrightarrow> spRelay s' u = Done x"
  using assms
  by (auto simp: relayPublishes_def relayEnds_def relayReturns_def Let_def split: if_splits RelayPC.splits)

lemma others_inv:
  assumes "supervise_inv bounds s"
    and "relayPublishes t s = Some s' \<or> relayEnds t e s = Some s' \<or> relayReturns t s = Some s'"
  shows "supervise_inv bounds s'"
proof -
  note f = others_frame [OF assms(2)]
  have "newestOnly s'" using assms(1) f(3,5,13) unfolding supervise_inv_def newestOnly_def by metis
  moreover have "placeOK s'"
    using assms(1) f by (cases "spPC s") (auto simp: supervise_inv_def placeOK_def)
  moreover have "stopsOK s'" using assms(1) f by (simp add: supervise_inv_def stopsOK_def)
  moreover have "pacedOK bounds s' = pacedOK bounds s" by (rule pacedOK_cong) (simp_all add: f)
  ultimately show ?thesis using assms(1) by (simp add: supervise_inv_def)
qed

lemma supervise_step_inv:
  assumes step: "superviseStep bounds s s'" and inv: "supervise_inv bounds s"
  shows "supervise_inv bounds s'"
  using step
proof cases
  case context_ends
  have "newestOnly s' = newestOnly s" "stopsOK s' = stopsOK s" "pacedOK bounds s' = pacedOK bounds s"
    unfolding context_ends by (simp_all add: newestOnly_def stopsOK_def pacedOK_cong [of "s\<lparr> spCtxDone := True \<rparr>" s])
  moreover have "placeOK s \<Longrightarrow> placeOK s'" unfolding context_ends by (cases "spPC s") (auto simp: placeOK_def)
  ultimately show ?thesis using inv by (simp add: supervise_inv_def)
next
  case (time d)
  have "newestOnly s' = newestOnly s" "stopsOK s' = stopsOK s"
    unfolding time by (simp_all add: newestOnly_def stopsOK_def)
  moreover have "placeOK s \<Longrightarrow> placeOK s'" unfolding time by (cases "spPC s") (auto simp: placeOK_def)
  moreover have "pacedOK bounds s \<Longrightarrow> pacedOK bounds s'"
    unfolding time(1) using time(2) by (cases "spPC s") (auto simp: pacedOK_def)
  ultimately show ?thesis using inv by (simp add: supervise_inv_def)
next
  case stop
  have "newestOnly s' = newestOnly s" "stopsOK s \<Longrightarrow> stopsOK s'"
    unfolding stop by (simp_all add: stopRead_def newestOnly_def stopsOK_def)
  moreover have "pacedOK bounds s' = pacedOK bounds s" unfolding stop by (rule pacedOK_cong) (simp_all add: stopRead_def)
  moreover have "placeOK s \<Longrightarrow> placeOK s'" unfolding stop by (cases "spPC s") (auto simp: stopRead_def placeOK_def)
  ultimately show ?thesis using inv by (simp add: supervise_inv_def)
next
  case (stopped t)
  have "t = spCurrent s" "spStopped s" using inv stopped(2) by (auto simp: supervise_inv_def stopsOK_def)
  then have "stopsOK s \<Longrightarrow> stopsOK s'" "newestOnly s \<Longrightarrow> newestOnly s'"
    unfolding stopped(1) using set_remove1_subset [of t "spPending s"]
    by (auto simp: stopFinish_def tailCancel_def stopsOK_def newestOnly_def)
  moreover have "pacedOK bounds s' = pacedOK bounds s"
    unfolding stopped(1) by (rule pacedOK_cong) (simp_all add: stopFinish_def tailCancel_def)
  moreover have "placeOK s \<Longrightarrow> placeOK s'"
    unfolding stopped(1) by (cases "spPC s") (auto simp: stopFinish_def tailCancel_def placeOK_def)
  ultimately show ?thesis using inv by (simp add: supervise_inv_def)
next
  case (goroutine pick started)
  then show ?thesis using inv goroutine_newest goroutine_place goroutine_stops goroutine_paced
    unfolding supervise_inv_def by metis
qed (use others_inv [OF inv] in blast)+

lemma superviseReach_inv: "superviseReach bounds s \<Longrightarrow> supervise_inv bounds s"
proof (induction rule: superviseReach.induct)
  case (init now s)
  then show ?case
    by (auto simp: superviseTail_def supervise_inv_def newestOnly_def placeOK_def stopsOK_def pacedOK_def pacedStarts_def)
next
  case (step s s')
  then show ?case using supervise_step_inv by blast
qed

text \<open>What a stop that returned leaves to be done.\<close>

lemma step_keeps:
  assumes "superviseStep bounds s s'"
  shows "spStopped s \<longrightarrow> spStopped s' \<and> supervisorRank (spPC s') \<le> supervisorRank (spPC s)" "spStops s \<le> spStops s'"
proof -
  show "spStops s \<le> spStops s'"
    using assms by cases (auto dest: goroutine_keeps(2) others_frame(7) [OF disjI1] others_frame(7) [OF disjI2 [OF disjI1]]
        others_frame(7) [OF disjI2 [OF disjI2]] simp: stopRead_def stopFinish_def)
  show "spStopped s \<longrightarrow> spStopped s' \<and> supervisorRank (spPC s') \<le> supervisorRank (spPC s)"
    using assms
  proof cases
    case (goroutine pick started)
    then show ?thesis using goroutine_rank [OF _ goroutine] goroutine_keeps(1) [OF goroutine] by (simp add: less_imp_le)
  qed (auto dest: others_frame(2,8) [OF disjI1] others_frame(2,8) [OF disjI2 [OF disjI1]]
        others_frame(2,8) [OF disjI2 [OF disjI2]] simp: stopRead_def stopFinish_def tailCancel_def)
qed

lemma supervisor_waits:
  assumes "placeOK s" "restartRefused bounds pick started s = None"
  shows "spPC s = Returned \<or> spPC s = Watching (spCurrent s) \<and> relaying (spCurrent s) s \<or>
    (\<exists>c. spPC s = Backing c \<and> spClock s < spDue s)"
  using assms
  by (cases "spPC s") (auto simp: goroutine_defs placeOK_def relaying_def split: if_splits RelayPC.splits)

lemma all_cancelled:
  assumes "newestOnly s" "placeOK s" "spCurrent s \<in> spCancelled s" "t < spNext s" "t \<notin> spCancelled s"
  shows "t = spCurrent s + 1 \<and> (spPC s = Installing (spCurrent s) t \<or> spPC s = Discarding t)"
proof -
  have "\<not> t + 1 < spNext s" using assms(1,5) by (auto simp: newestOnly_def)
  then have "t + 1 = spNext s" using assms(4) by simp
  then show ?thesis using assms(2,3,5) by (cases "spPC s") (auto simp: placeOK_def)
qed

lemma quiet_stays:
  assumes "superviseStep bounds s s'" "spPC s = Returned" "\<forall>t. \<not> relaying t s"
  shows "spPC s' = Returned \<and> (\<forall>t. \<not> relaying t s') \<and> spPublished s' = spPublished s \<and> spNext s' = spNext s"
  using assms
  by cases (auto simp: relayPublishes_def relayEnds_def relayReturns_def relaying_def stopRead_def stopFinish_def
      tailCancel_def restartRefused_def Let_def split: if_splits RelayPC.splits)

section \<open>Properties\<close>



end
