(* ===== verification/WorkStates.thy ===== *)
theory WorkStates
  imports Warm Gates
begin

text \<open>
  What a resident session is doing, as the composition derives it, and the sampler that feeds the warm
  releaser (\<^verbatim>\<open>internal/compose/workstates.go\<close> and \<open>sampleWork\<close> of \<^verbatim>\<open>internal/compose/compose.go\<close>); the
  advertiser (\<^verbatim>\<open>internal/compose/advertiser.go\<close>) and the compatibility wait (\<^verbatim>\<open>internal/compose/compat.go\<close>).

  A sample reads every session of the registry's snapshot; it is one step of a run, and the critical
  sections of the warm releaser are the others.
\<close>

section \<open>Work states\<close>

text \<open>A resident as these functions read it: its gate publisher if it has one, and what its runtime answers to a wait under a context already done.\<close>

record SessionInfo =
  siGeneration :: u64
  siSettled :: bool
  siGates :: "Publisher option"
  siRuntime :: "bool option"

type_synonym residents = "Key \<rightharpoonup> SessionInfo"

definition idleNow :: "bool option \<Rightarrow> bool" where
  "idleNow runtime = (case runtime of None \<Rightarrow> False | Some idle \<Rightarrow> idle)"

definition derivedWorkState :: "residents \<Rightarrow> Key \<Rightarrow> WorkState option" where
  "derivedWorkState rs key =
     (case rs key of
        None \<Rightarrow> None
      | Some h \<Rightarrow>
          (case siGates h of
             None \<Rightarrow> Some WorkStateWorking
           | Some p \<Rightarrow>
               (case Activity p of
                  (open', _, folded) \<Rightarrow>
                    if \<not> folded then Some WorkStateWorking
                    else if open' > 0 then Some WorkStateGateWaiting
                    else if \<not> idleNow (siRuntime h) then Some WorkStateWorking
                    else Some WorkStateIdle)))"

definition activity :: "residents \<Rightarrow> Key \<Rightarrow> u64 option" where
  "activity rs key =
     (case rs key of
        None \<Rightarrow> None
      | Some h \<Rightarrow> (case siGates h of None \<Rightarrow> None | Some p \<Rightarrow> (case Activity p of (_, position, folded) \<Rightarrow> if folded then Some position else None)))"

text \<open>A source the composition was given answers for itself and reports no position.\<close>

datatype WorkSource = DerivedWorkStates | GivenWorkStates "Key \<Rightarrow> WorkState option"

definition sourceState :: "WorkSource \<Rightarrow> residents \<Rightarrow> Key \<Rightarrow> WorkState option" where
  "sourceState source rs key = (case source of DerivedWorkStates \<Rightarrow> derivedWorkState rs key | GivenWorkStates f \<Rightarrow> f key)"

definition warmSamples :: "bool \<Rightarrow> HostPlacement \<Rightarrow> bool" where
  "warmSamples derive placement \<longleftrightarrow> \<not> (derive \<and> placement = PlacementDedicated)"

section \<open>Marks\<close>

type_synonym marks = "Key \<rightharpoonup> u64 \<times> u64"

definition markActivity :: "Key \<Rightarrow> u64 \<Rightarrow> u64 \<Rightarrow> marks \<Rightarrow> bool \<times> marks" where
  "markActivity key generation position m =
     ((case m key of None \<Rightarrow> False | Some (g, p) \<Rightarrow> g = generation \<and> p \<noteq> position), m(key \<mapsto> (generation, position)))"

definition pruneActivity :: "Key set \<Rightarrow> marks \<Rightarrow> marks" where
  "pruneActivity seen m = m |` seen"

definition ConfirmIdle :: "WorkSource option \<Rightarrow> residents \<Rightarrow> marks \<Rightarrow> Key \<Rightarrow> bool" where
  "ConfirmIdle source rs m key =
     (case rs key of
        None \<Rightarrow> False
      | Some h \<Rightarrow>
          if \<not> siSettled h then False
          else
            (case source of
               None \<Rightarrow> False
             | Some src \<Rightarrow>
                 if sourceState src rs key \<noteq> Some WorkStateIdle then False
                 else
                   (case src of
                      GivenWorkStates _ \<Rightarrow> True
                    | DerivedWorkStates \<Rightarrow>
                        (case activity rs key of
                           None \<Rightarrow> False
                         | Some position \<Rightarrow>
                             (case m key of None \<Rightarrow> False | Some (g, p) \<Rightarrow> g = siGeneration h \<and> p = position)))))"

definition GateWaiting :: "residents \<Rightarrow> Key list \<Rightarrow> u64" where
  "GateWaiting rs keys =
     of_nat (length (filter (\<lambda>key. case rs key of None \<Rightarrow> False
       | Some h \<Rightarrow> (case siGates h of None \<Rightarrow> False | Some p \<Rightarrow> (case Activity p of (open', _, folded) \<Rightarrow> folded \<and> open' > 0))) keys))"

section \<open>The sampler\<close>

text \<open>One sample over the entries of a snapshot: the observations made, the marks, and the sessions seen.\<close>

fun sampleLoop :: "WorkSource \<Rightarrow> residents \<Rightarrow> (Key \<times> u64) list \<Rightarrow> marks \<Rightarrow> Key set \<Rightarrow> WarmOp list \<times> marks \<times> Key set" where
  "sampleLoop source rs [] m seen = ([], m, seen)"
| "sampleLoop source rs ((key, generation) # rest) m seen =
     (case sourceState source rs key of
        None \<Rightarrow> sampleLoop source rs rest m seen
      | Some state \<Rightarrow>
          (case (if source = DerivedWorkStates then activity rs key else None) of
             None \<Rightarrow>
               (case sampleLoop source rs rest m seen of (ops, m', seen') \<Rightarrow> (WObserve key state # ops, m', seen'))
           | Some position \<Rightarrow>
               (case markActivity key generation position m of
                  (moved, m1) \<Rightarrow>
                    (case sampleLoop source rs rest m1 (insert key seen) of
                       (ops, m', seen') \<Rightarrow> ((if moved then [WObserve key WorkStateWorking] else []) @ WObserve key state # ops, m', seen')))))"

text \<open>
  A sample is one step here.  In the code the releaser may act between the mark of a session and the
  observation that follows it; a countdown that expires there is in the same window as one that expires
  just before the sample, which \<open>sample_during_release_hides_work\<close> below is about: the mark has moved and
  the observation is ignored.
\<close>

definition sampleWork :: "WorkSource \<Rightarrow> residents \<Rightarrow> (Key \<times> u64) list \<Rightarrow> marks \<Rightarrow> WarmOp list \<times> marks" where
  "sampleWork source rs es m =
     (case sampleLoop source rs es m {} of (ops, m', seen) \<Rightarrow> (ops, pruneActivity seen m'))"

datatype SamplerOp = Sample residents "(Key \<times> u64) list" | Releaser WarmOp

record Sampler =
  smMarks :: marks
  smReleaser :: WarmReleaser

fun samplerExec :: "SamplerOp \<Rightarrow> Sampler \<Rightarrow> Sampler" where
  "samplerExec (Sample rs es) s =
     (case sampleWork DerivedWorkStates rs es (smMarks s) of (ops, m) \<Rightarrow> \<lparr> smMarks = m, smReleaser = warmRun ops (smReleaser s) \<rparr>)"
| "samplerExec (Releaser x) s = s\<lparr> smReleaser := warmExec x (smReleaser s) \<rparr>"

fun samplerRun :: "SamplerOp list \<Rightarrow> Sampler \<Rightarrow> Sampler" where
  "samplerRun [] s = s"
| "samplerRun (x # xs) s = samplerRun xs (samplerExec x s)"

text \<open>The snapshot of a registry names a session once; the sampler is the only one to observe.\<close>

fun lawfulOp :: "SamplerOp \<Rightarrow> bool" where
  "lawfulOp (Sample rs es) \<longleftrightarrow> distinct (map fst es)"
| "lawfulOp (Releaser x) \<longleftrightarrow> (\<forall>k st. x \<noteq> WObserve k st)"

text \<open>What a sample reads of a session: its generation and the position of its fold.\<close>

definition reading :: "Key \<Rightarrow> residents \<times> (Key \<times> u64) list \<Rightarrow> (u64 \<times> u64) option" where
  "reading k smp =
     (case map_of (snd smp) k of
        None \<Rightarrow> None
      | Some g \<Rightarrow> (case derivedWorkState (fst smp) k of None \<Rightarrow> None | Some _ \<Rightarrow> map_option (Pair g) (activity (fst smp) k)))"

definition observed :: "Key \<Rightarrow> residents \<times> (Key \<times> u64) list \<Rightarrow> WorkState option" where
  "observed k smp = (if k \<in> fst ` set (snd smp) then derivedWorkState (fst smp) k else None)"

definition movedSince :: "(u64 \<times> u64) option \<Rightarrow> (u64 \<times> u64) option \<Rightarrow> bool" where
  "movedSince before after \<longleftrightarrow> (\<exists>g p p'. before = Some (g, p) \<and> after = Some (g, p') \<and> p \<noteq> p')"

fun samplesOf :: "SamplerOp list \<Rightarrow> (residents \<times> (Key \<times> u64) list) list" where
  "samplesOf [] = []"
| "samplesOf (Sample rs es # ops) = (rs, es) # samplesOf ops"
| "samplesOf (Releaser x # ops) = samplesOf ops"

section \<open>What a sample does\<close>

lemma reading_Cons:
  "reading k (rs, (key, g) # es) = (if k = key then (case derivedWorkState rs k of None \<Rightarrow> None | Some _ \<Rightarrow> map_option (Pair g) (activity rs k)) else reading k (rs, es))"
  unfolding reading_def fst_conv snd_conv by simp

lemma observed_Cons: "observed k (rs, (key, g) # es) = (if k = key then derivedWorkState rs k else observed k (rs, es))"
  by (auto simp: observed_def)

lemma reading_notin: "k \<notin> fst ` set es \<Longrightarrow> reading k (rs, es) = None \<and> observed k (rs, es) = None"
  using map_of_eq_None_iff [of es k] unfolding reading_def observed_def fst_conv snd_conv by simp

definition loopSpec :: "residents \<Rightarrow> (Key \<times> u64) list \<Rightarrow> marks \<Rightarrow> WarmOp list \<Rightarrow> marks \<Rightarrow> bool" where
  "loopSpec rs es m ops m' \<longleftrightarrow>
     (\<forall>x\<in>set ops. \<exists>k st. x = WObserve k st) \<and>
     (\<forall>k st. WObserve k st \<in> set ops \<longleftrightarrow>
        (\<exists>state. observed k (rs, es) = Some state \<and> (st = state \<or> st = WorkStateWorking \<and> movedSince (m k) (reading k (rs, es))))) \<and>
     (\<forall>k. m' k = (case reading k (rs, es) of None \<Rightarrow> m k | Some r \<Rightarrow> Some r))"

lemma sampleLoop_spec:
  "distinct (map fst es) \<Longrightarrow> sampleLoop DerivedWorkStates rs es m seen = (ops, m', seen') \<Longrightarrow>
    loopSpec rs es m ops m' \<and> seen' = seen \<union> {k. reading k (rs, es) \<noteq> None}"
proof (induction es arbitrary: m seen ops m' seen')
  case Nil
  then show ?case by (auto simp: loopSpec_def reading_def observed_def)
next
  case (Cons e es)
  obtain key g where e: "e = (key, g)" by fastforce
  have d: "distinct (map fst es)" and new: "key \<notin> fst ` set es" using Cons.prems(1) by (simp_all add: e)
  note absent = reading_notin [OF new, of rs]
  note cons = reading_Cons [of _ rs key g es] observed_Cons [of _ rs key g es]
  show ?case
  proof (cases "derivedWorkState rs key")
    case None
    then have "sampleLoop DerivedWorkStates rs es m seen = (ops, m', seen')" using Cons.prems(2) by (simp add: e sourceState_def)
    from Cons.IH [OF d this] None absent show ?thesis unfolding e loopSpec_def cons by auto
  next
    case st: (Some state)
    show ?thesis
    proof (cases "activity rs key")
      case None
      then obtain ops1 where l: "sampleLoop DerivedWorkStates rs es m seen = (ops1, m', seen')" "ops = WObserve key state # ops1"
        using Cons.prems(2) st by (auto simp: e sourceState_def split: prod.splits)
      from Cons.IH [OF d l(1)] None st absent show ?thesis unfolding e loopSpec_def cons l(2) by (auto simp: movedSince_def)
    next
      case (Some position)
      let ?moved = "movedSince (m key) (Some (g, position))"
      let ?m1 = "m(key \<mapsto> (g, position))"
      have mk: "markActivity key g position m = (?moved, ?m1)"
        by (auto simp: markActivity_def movedSince_def split: option.splits)
      obtain ops1 where l: "sampleLoop DerivedWorkStates rs es ?m1 (insert key seen) = (ops1, m', seen')"
          "ops = (if ?moved then [WObserve key WorkStateWorking] else []) @ WObserve key state # ops1"
        using Cons.prems(2) st Some mk by (auto simp: e sourceState_def split: prod.splits)
      note ih = Cons.IH [OF d l(1)]
      have r: "reading k (rs, e # es) = (if k = key then Some (g, position) else reading k (rs, es))"
          "observed k (rs, e # es) = (if k = key then Some state else observed k (rs, es))" for k
        using st Some by (simp_all add: e cons)
      have "(\<forall>x\<in>set ops. \<exists>k st. x = WObserve k st)" using ih by (auto simp: loopSpec_def l(2))
      moreover have "WObserve k st \<in> set ops \<longleftrightarrow>
          (\<exists>state. observed k (rs, e # es) = Some state \<and> (st = state \<or> st = WorkStateWorking \<and> movedSince (m k) (reading k (rs, e # es))))" for k st
        using ih absent by (cases "k = key") (auto simp: loopSpec_def l(2) r)
      moreover have "m' k = (case reading k (rs, e # es) of None \<Rightarrow> m k | Some r \<Rightarrow> Some r)" for k
        using ih absent by (cases "k = key") (auto simp: loopSpec_def r)
      moreover have "seen' = seen \<union> {k. reading k (rs, e # es) \<noteq> None}" using ih by (auto simp: r)
      ultimately show ?thesis unfolding loopSpec_def by blast
    qed
  qed
qed

lemma sampleWork_spec:
  assumes "distinct (map fst es)" "sampleWork DerivedWorkStates rs es m = (ops, m')"
  shows "(\<forall>k st. WObserve k st \<in> set ops \<longleftrightarrow>
        (\<exists>state. observed k (rs, es) = Some state \<and> (st = state \<or> st = WorkStateWorking \<and> movedSince (m k) (reading k (rs, es))))) \<and>
     (\<forall>x\<in>set ops. \<exists>k st. x = WObserve k st) \<and> m' = (\<lambda>k. reading k (rs, es))"
proof -
  obtain m1 seen where l: "sampleLoop DerivedWorkStates rs es m {} = (ops, m1, seen)" "m' = pruneActivity seen m1"
    using assms(2) by (auto simp: sampleWork_def split: prod.splits)
  note s = sampleLoop_spec [OF assms(1) l(1)]
  have "m' k = reading k (rs, es)" for k
    using s by (cases "reading k (rs, es)") (auto simp: l(2) pruneActivity_def loopSpec_def restrict_map_def)
  with s show ?thesis unfolding loopSpec_def by blast
qed

section \<open>Idle since the countdown was armed\<close>

lemma armed_ops:
  "warm_inv w \<Longrightarrow> armedWaiting i (warmRun xs w) \<Longrightarrow>
    (armedWaiting i w \<and> keyOf i w = keyOf i (warmRun xs w) \<and> (\<forall>x\<in>set xs. \<not> disarms (keyOf i (warmRun xs w)) i x)) \<or>
    WObserve (keyOf i (warmRun xs w)) WorkStateIdle \<in> set xs"
proof (induction xs rule: rev_induct)
  case (snoc x xs)
  let ?w = "warmRun xs w"
  have run: "warmRun (xs @ [x]) w = warmExec x ?w" by (simp add: warmRun_append)
  from armed_step [OF warm_inv_run [OF snoc.prems(1)] snoc.prems(2) [unfolded run]] snoc.IH [OF snoc.prems(1)]
  show ?case unfolding run by auto
qed simp

lemma samplerRun_append: "samplerRun (xs @ ys) s = samplerRun ys (samplerRun xs s)"
  by (induction xs arbitrary: s) simp_all

lemma samplerRun_inv: "warm_inv (smReleaser s) \<Longrightarrow> warm_inv (smReleaser (samplerRun xs s))"
proof (induction xs arbitrary: s)
  case (Cons x xs)
  have "warm_inv (smReleaser (samplerExec x s))"
    using Cons.prems warm_inv_run warm_inv_run [of _ "[op]" for op] by (cases x) (auto split: prod.splits)
  then show ?case using Cons.IH by simp
qed simp

lemma samplesOf_append: "samplesOf (xs @ ys) = samplesOf xs @ samplesOf ys"
  by (induction xs rule: samplesOf.induct) simp_all

lemma marks_last:
  "\<forall>x\<in>set xs. lawfulOp x \<Longrightarrow> smMarks (samplerRun xs s) = (if samplesOf xs = [] then smMarks s else (\<lambda>k. reading k (last (samplesOf xs))))"
proof (induction xs rule: rev_induct)
  case (snoc x xs)
  show ?case
  proof (cases x)
    case (Sample rs es)
    obtain ops m where w: "sampleWork DerivedWorkStates rs es (smMarks (samplerRun xs s)) = (ops, m)" by fastforce
    have "distinct (map fst es)" using snoc.prems Sample by simp
    from sampleWork_spec [OF this w] show ?thesis by (simp add: samplerRun_append samplesOf_append Sample w)
  next
    case (Releaser y)
    then show ?thesis using snoc by (simp add: samplerRun_append samplesOf_append)
  qed
qed simp

text \<open>From one sample on, a session was seen idle or not at all, and its fold did not move between two samples.\<close>

fun quietFrom :: "Key \<Rightarrow> residents \<times> (Key \<times> u64) list \<Rightarrow> (residents \<times> (Key \<times> u64) list) list \<Rightarrow> bool" where
  "quietFrom k prev [] \<longleftrightarrow> True"
| "quietFrom k prev (smp # smps) \<longleftrightarrow>
     (observed k smp = None \<or> observed k smp = Some WorkStateIdle) \<and> \<not> movedSince (reading k prev) (reading k smp) \<and> quietFrom k smp smps"

lemma quietFrom_snoc:
  "quietFrom k prev (smps @ [smp]) \<longleftrightarrow>
     quietFrom k prev smps \<and> (observed k smp = None \<or> observed k smp = Some WorkStateIdle) \<and>
     \<not> movedSince (reading k (last (prev # smps))) (reading k smp)"
  by (induction smps arbitrary: prev) auto

lemma movedSince_observed: "movedSince r (reading k smp) \<Longrightarrow> observed k smp \<noteq> None"
  by (cases "map_of (snd smp) k") (auto simp: movedSince_def reading_def observed_def map_of_eq_None_iff [symmetric] split: option.splits dest: map_of_SomeD)

text \<open>The sample that armed the countdown: before it the watch was not armed, or it disarmed the watch itself.\<close>

definition arms :: "nat \<Rightarrow> Key \<Rightarrow> residents \<Rightarrow> (Key \<times> u64) list \<Rightarrow> Sampler \<Rightarrow> bool" where
  "arms i k rs es s \<longleftrightarrow>
     observed k (rs, es) = Some WorkStateIdle \<and>
     (\<not> armedWaiting i (smReleaser s) \<or> keyOf i (smReleaser s) \<noteq> k \<or> movedSince (smMarks s k) (reading k (rs, es)))"

lemma armed_since:
  assumes inv: "warm_inv (smReleaser s0)" and empty: "wrAll (smReleaser s0) = []" and marks: "smMarks s0 = Map.empty"
  shows "\<forall>x\<in>set ops. lawfulOp x \<Longrightarrow> armedWaiting i (smReleaser (samplerRun ops s0)) \<Longrightarrow>
    \<exists>pre rs es post. ops = pre @ Sample rs es # post \<and> arms i (keyOf i (smReleaser (samplerRun ops s0))) rs es (samplerRun pre s0) \<and>
      quietFrom (keyOf i (smReleaser (samplerRun ops s0))) (rs, es) (samplesOf post)"
proof (induction ops rule: rev_induct)
  case Nil
  then show ?case using empty by (simp add: armedWaiting_def waiting_def)
next
  case (snoc x xs)
  let ?s = "samplerRun xs s0"
  have run: "samplerRun (xs @ [x]) s0 = samplerExec x ?s" by (simp add: samplerRun_append)
  have winv: "warm_inv (smReleaser ?s)" by (rule samplerRun_inv [OF inv])
  have law: "\<forall>y\<in>set xs. lawfulOp y" "lawfulOp x" using snoc.prems(1) by simp_all
  show ?case
  proof (cases x)
    case (Releaser y)
    have e: "smReleaser (samplerExec x ?s) = warmExec y (smReleaser ?s)" by (simp add: Releaser)
    have "armedWaiting i (smReleaser ?s) \<and> keyOf i (warmExec y (smReleaser ?s)) = keyOf i (smReleaser ?s)"
      using armed_step [OF winv snoc.prems(2) [unfolded run e]] law(2) Releaser by auto
    with snoc.IH [OF law(1)] obtain pre rs es post where "xs = pre @ Sample rs es # post"
      "arms i (keyOf i (smReleaser ?s)) rs es (samplerRun pre s0)" "quietFrom (keyOf i (smReleaser ?s)) (rs, es) (samplesOf post)"
      "keyOf i (warmExec y (smReleaser ?s)) = keyOf i (smReleaser ?s)" by blast
    then show ?thesis unfolding run e
      by (intro exI [of _ pre] exI [of _ rs] exI [of _ es] exI [of _ "post @ [x]"]) (simp add: samplesOf_append Releaser)
  next
    case (Sample rs es)
    obtain ws m where w: "sampleWork DerivedWorkStates rs es (smMarks ?s) = (ws, m)" by fastforce
    have e: "smReleaser (samplerExec x ?s) = warmRun ws (smReleaser ?s)" by (simp add: Sample w)
    let ?k = "keyOf i (warmRun ws (smReleaser ?s))"
    have d: "distinct (map fst es)" using law(2) Sample by simp
    note spec = sampleWork_spec [OF d w]
    have obs: "WObserve ?k st \<in> set ws \<longleftrightarrow>
        (\<exists>state. observed ?k (rs, es) = Some state \<and> (st = state \<or> st = WorkStateWorking \<and> movedSince (smMarks ?s ?k) (reading ?k (rs, es))))" for st
      using spec by blast
    show ?thesis
    proof (cases "armedWaiting i (smReleaser ?s) \<and> keyOf i (smReleaser ?s) = ?k \<and> (\<forall>y\<in>set ws. \<not> disarms ?k i y)")
      case True
      with snoc.IH [OF law(1)] obtain pre rs' es' post where ih: "xs = pre @ Sample rs' es' # post"
        "arms i ?k rs' es' (samplerRun pre s0)" "quietFrom ?k (rs', es') (samplesOf post)" by metis
      have "smMarks ?s = (\<lambda>k. reading k (last ((rs', es') # samplesOf post)))"
        using marks_last [OF law(1), of s0] ih(1) by (simp add: samplesOf_append)
      moreover have idle: "st = WorkStateIdle" if "WObserve ?k st \<in> set ws" for st using True that by fastforce
      have nm: "\<not> movedSince (smMarks ?s ?k) (reading ?k (rs, es))"
      proof
        assume mv: "movedSince (smMarks ?s ?k) (reading ?k (rs, es))"
        then have "WObserve ?k WorkStateWorking \<in> set ws" using movedSince_observed obs by blast
        then show False using idle by blast
      qed
      moreover have "observed ?k (rs, es) = None \<or> observed ?k (rs, es) = Some WorkStateIdle"
        using idle obs by (cases "observed ?k (rs, es)") auto
      ultimately have "quietFrom ?k (rs', es') (samplesOf post @ [(rs, es)])" using ih(3) by (simp add: quietFrom_snoc)
      with ih show ?thesis unfolding run e
        by (intro exI [of _ pre] exI [of _ rs'] exI [of _ es'] exI [of _ "post @ [x]"]) (simp add: samplesOf_append Sample)
    next
      case False
      with armed_ops [OF winv snoc.prems(2) [unfolded run e]] have "WObserve ?k WorkStateIdle \<in> set ws" by blast
      then have o: "observed ?k (rs, es) = Some WorkStateIdle" using obs by blast
      have "movedSince (smMarks ?s ?k) (reading ?k (rs, es))" if a: "armedWaiting i (smReleaser ?s)" "keyOf i (smReleaser ?s) = ?k"
      proof -
        from False a obtain y where y: "y \<in> set ws" "disarms ?k i y" by blast
        with spec obtain k' st where "y = WObserve k' st" by blast
        with y have "WObserve ?k st \<in> set ws" "st \<noteq> WorkStateIdle" by auto
        with obs o show ?thesis by auto
      qed
      then have "arms i ?k rs es ?s" using o by (auto simp: arms_def)
      then show ?thesis unfolding run e
        by (intro exI [of _ xs] exI [of _ rs] exI [of _ es] exI [of _ "[]"]) (simp add: Sample)
    qed
  qed
qed


definition exGates :: "u64 \<Rightarrow> Publisher" where
  "exGates position = \<lparr> pbScope = None, pbFenced = True, pbOpen = Map.empty, pbNext = position, pbDirty = False, pbUnpublishable = {},
     pbFull = {}, pbFolded = True, pbOpenCount = 0, pbFoldedNext = position, pbPasses = 1, pbSuperseded = False \<rparr>"

definition exIdle :: "u64 \<Rightarrow> residents" where
  "exIdle position = [Key ''t'' ''a'' \<mapsto> \<lparr> siGeneration = 1, siSettled = True, siGates = Some (exGates position), siRuntime = Some True \<rparr>]"

definition exOps :: "SamplerOp list" where
  "exOps = [Releaser (WWatch (Key ''t'' ''a'') 1), Sample (exIdle 5) [(Key ''t'' ''a'', 1)], Sample (exIdle 5) [(Key ''t'' ''a'', 1)]]"

definition exSampler :: Sampler where
  "exSampler = \<lparr> smMarks = Map.empty, smReleaser = example_warm \<rparr>"

lemmas ex_simps = exOps_def exSampler_def exIdle_def exGates_def example_warm_def WatchSession_def ObserveWork_def updWatch_def waiting_def runTick_def
  keyOf_def sampleWork_def sourceState_def derivedWorkState_def activity_def Activity_def idleNow_def markActivity_def pruneActivity_def restrict_map_def


text \<open>
  A sample that falls between the expiry of a countdown and its confirmation hides the work it saw.
  A release has begun when its countdown expires; the sample moves the mark and its observation is ignored
  because a release runs, so the confirmation compares the fold with the moved mark and confirms: the
  session is released although it worked after its countdown was armed, and had only just become idle.
\<close>

lemma sample_during_release_hides_work:
  "let s = samplerRun exOps exSampler;
       s1 = samplerRun [Releaser (WTick 0), Sample (exIdle 9) [(Key ''t'' ''a'', 1)]] s in
    fst (runTick 0 (smReleaser s)) \<and> wwReleasing (wrAll (smReleaser s1) ! 0) \<and>
    movedSince (reading (Key ''t'' ''a'') (exIdle 5, [(Key ''t'' ''a'', 1)])) (reading (Key ''t'' ''a'') (exIdle 9, [(Key ''t'' ''a'', 1)])) \<and>
    ConfirmIdle (Some DerivedWorkStates) (exIdle 9) (smMarks s1) (Key ''t'' ''a'')"
  by (simp add: Let_def ConfirmIdle_def movedSince_def reading_def ex_simps)

section \<open>The advertiser\<close>

text \<open>What the directory and the locations answer is given; a superseded answer is known as such.\<close>

datatype AdvertiseError = AdvTargetSuperseded | AdvResidencySuperseded | AdvLeaseNotHeld | AdvFailed string

definition sendRow :: "(Advertisement \<Rightarrow> AdvertiseError option) \<Rightarrow> (Advertisement \<Rightarrow> AdvertiseError option) \<Rightarrow> Advertisement \<Rightarrow> AdvertiseError option" where
  "sendRow withdraw publish row = (if adTombstone row then withdraw row else publish row)"

fun rowFailures :: "(Advertisement \<Rightarrow> AdvertiseError option) \<Rightarrow> bool \<Rightarrow> Advertisement list \<Rightarrow> AdvertiseError list" where
  "rowFailures send skipSuperseded [] = []"
| "rowFailures send skipSuperseded (row # rows) =
     (case send row of
        None \<Rightarrow> rowFailures send skipSuperseded rows
      | Some e \<Rightarrow> if skipSuperseded \<and> e = AdvTargetSuperseded then rowFailures send skipSuperseded rows else e # rowFailures send skipSuperseded rows)"

text \<open>The rows sent, and the errors joined.\<close>

definition publishRows :: "(Advertisement \<Rightarrow> AdvertiseError option) \<Rightarrow> bool \<Rightarrow> AdvertiseError + Advertisement list \<Rightarrow> Advertisement list \<times> AdvertiseError list" where
  "publishRows send skipSuperseded published = (case published of Inl e \<Rightarrow> ([], [e]) | Inr rows \<Rightarrow> (rows, rowFailures send skipSuperseded rows))"

definition nonaccepting :: "Host \<Rightarrow> u64 \<Rightarrow> instant \<Rightarrow> Entry \<Rightarrow> Observation" where
  "nonaccepting h generation now entry =
     \<lparr> obTenantID = TenantID (eKey entry), obSessionID = SessionID (eKey entry), obHostID = hID h, obHostGeneration = generation,
       obAgentID = eAgentID entry, obCompatibilityID = eCompatibilityID entry, obPlacement = hPlacement h, obInternalEndpoint = hInternalEndpoint h,
       obResidency = residencyOf (eState entry), obAccepting = False, obLeaseEpoch = eLeaseEpoch entry,
       obObservedAt = now, obExpiresAt = now + hRegistryExpiry h \<rparr>"

fun locationFailures :: "(Observation \<Rightarrow> AdvertiseError option) \<Rightarrow> Observation list \<Rightarrow> AdvertiseError list" where
  "locationFailures write [] = []"
| "locationFailures write (ob # obs) =
     (case write ob of
        None \<Rightarrow> locationFailures write obs
      | Some e \<Rightarrow> if e = AdvResidencySuperseded \<or> e = AdvLeaseNotHeld then locationFailures write obs else e # locationFailures write obs)"

definition PublishNonaccepting ::
  "(Advertisement \<Rightarrow> AdvertiseError option) \<Rightarrow> (Observation \<Rightarrow> AdvertiseError option) \<Rightarrow> AdvertiseError + Advertisement list \<Rightarrow>
    Host \<Rightarrow> u64 \<Rightarrow> (Entry \<Rightarrow> instant) \<Rightarrow> Registry \<Rightarrow> Advertisement list \<times> Observation list \<times> AdvertiseError list" where
  "PublishNonaccepting send write published h generation now reg =
     (case publishRows send True published of
        (rows, failures) \<Rightarrow>
          (let obs = map (\<lambda>e. nonaccepting h generation (now e) e) (Snapshot reg) in (rows, obs, failures @ locationFailures write obs)))"

lemma rowFailures_set:
  "set (rowFailures send skip rows) = {e. \<exists>row\<in>set rows. send row = Some e \<and> \<not> (skip \<and> e = AdvTargetSuperseded)}"
  by (induction rows) (auto split: option.splits)

lemma locationFailures_set:
  "set (locationFailures write obs) = {e. \<exists>ob\<in>set obs. write ob = Some e \<and> e \<noteq> AdvResidencySuperseded \<and> e \<noteq> AdvLeaseNotHeld}"
  by (induction obs) (auto split: option.splits)

section \<open>The compatibility wait\<close>

datatype CompatibilityOutcome = CompatibilityIdle | CompatibilityGateBoundary | CompatibilityFailed | CompatibilityStopped | CompatibilityTimedOut

text \<open>The cases of the select in the order they come true; an error of the wait, and whether the caller's context was done then.\<close>

datatype WaitEvent = WaitIdleReturned "string option" "string option" | RuntimeDone | ResidencyLostEvent | HostStopping | CallerDone string | DeadlinePassed | Polled residents

definition atGate :: "WorkSource option \<Rightarrow> residents \<Rightarrow> Key \<Rightarrow> bool" where
  "atGate source rs key = (case source of None \<Rightarrow> False | Some src \<Rightarrow> sourceState src rs key = Some WorkStateGateWaiting)"

fun awaitEvents :: "WorkSource option \<Rightarrow> Key \<Rightarrow> WaitEvent list \<Rightarrow> (CompatibilityOutcome \<times> string option) option" where
  "awaitEvents source key [] = None"
| "awaitEvents source key (WaitIdleReturned err ctxErr # evs) =
     Some (case err of
       None \<Rightarrow> (CompatibilityIdle, None)
     | Some e \<Rightarrow> (case ctxErr of Some c \<Rightarrow> (CompatibilityStopped, Some c) | None \<Rightarrow> (CompatibilityFailed, Some e)))"
| "awaitEvents source key (RuntimeDone # evs) = Some (CompatibilityFailed, None)"
| "awaitEvents source key (ResidencyLostEvent # evs) = Some (CompatibilityFailed, None)"
| "awaitEvents source key (HostStopping # evs) = Some (CompatibilityStopped, None)"
| "awaitEvents source key (CallerDone c # evs) = Some (CompatibilityStopped, Some c)"
| "awaitEvents source key (DeadlinePassed # evs) = Some (CompatibilityTimedOut, None)"
| "awaitEvents source key (Polled rs # evs) =
     (if atGate source rs key then Some (CompatibilityGateBoundary, None) else awaitEvents source key evs)"

definition AwaitSessionIdle :: "WorkSource option \<Rightarrow> Key \<Rightarrow> bool \<Rightarrow> WaitEvent list \<Rightarrow> string + (CompatibilityOutcome \<times> string option) option" where
  "AwaitSessionIdle source key resident evs = (if \<not> resident then Inl ''not resident'' else Inr (awaitEvents source key evs))"

text \<open>The wait returns as soon as anything but a poll away from a gate happens, so at the deadline at the latest.\<close>

lemma awaitEvents_returns:
  "awaitEvents source key evs = None \<longleftrightarrow> (\<forall>ev\<in>set evs. \<exists>rs. ev = Polled rs \<and> \<not> atGate source rs key)"
  by (induction source key evs rule: awaitEvents.induct) auto

end
