(* ===== verification/HarnessRuntime.thy ===== *)
theory HarnessRuntime
  imports Bodies Department "HOL-Library.Sublist"
begin

text \<open>
  From a launch to a runtime: the rig adapter and the session it binds (\<^verbatim>\<open>harnessruntime/rig.go\<close>,
  \<^verbatim>\<open>harnessruntime/session.go\<close>) and the target that adapts it for the Host (\<^verbatim>\<open>department/runtime.go\<close>).

  A harness session and what it answers is a parameter: which capabilities it has, and how it answers a
  release.  The calls that give a session back are traced.
\<close>

section \<open>Teardown\<close>

text \<open>
  A teardown whose context ended is asked again, once and under a context of its own, when the session is
  already gone: the first call is joined, not repeated.  An error that says the journal lease is still
  held is marked so.
\<close>

datatype TeardownError = TeardownContext | TeardownLeaseHeld string | TeardownFailed string

definition teardownOutcome :: "(nat \<Rightarrow> TeardownError option) \<Rightarrow> bool \<Rightarrow> TeardownError option \<times> nat" where
  "teardownOutcome call sessionDone =
     (case call 0 of
        None \<Rightarrow> (None, 1)
      | Some e \<Rightarrow> if e \<noteq> TeardownContext then (Some e, 1) else if \<not> sessionDone then (Some e, 1) else (call 1, 2))"

definition classifyLeaseRelease :: "TeardownError option \<Rightarrow> bool \<times> TeardownError option" where
  "classifyLeaseRelease err = ((case err of Some (TeardownLeaseHeld _) \<Rightarrow> True | _ \<Rightarrow> False), err)"

section \<open>The adapter and the session it binds\<close>

record Controller =
  hcID :: string
  hcIdleWaiter :: bool
  hcLiveness :: bool
  hcReleaser :: bool
  hcLeaseEpochReporter :: bool
  hcFaultReporter :: bool
  hcAbandoner :: bool
  hcEventProvider :: bool
  hcCommittedEvents :: bool
  hcFaultChannel :: bool
  hcCommandProvider :: bool
  hcApplier :: bool
  hcAttemptCloser :: bool
  hcRelease :: "nat \<Rightarrow> TeardownError option"
  hcAbandon :: "TeardownError option"
  hcDone :: bool

datatype SessionCall = CalledRelease | CalledAbandon

datatype LaunchError =
    ErrNoRigs | ErrNoRig | ErrNoSession | RigRefused string | IncapableSession "string list" "TeardownError option"
  | RigLaunchFailed LaunchError | ErrRigSessionIdentity "TeardownError option" | ErrNoRigSession | CompatibilityMismatch compat_id compat_id
  | IncapableRuntime "string list" "TeardownError option"

definition recoveryCloserAvailable :: "Controller \<Rightarrow> bool" where
  "recoveryCloserAvailable c \<longleftrightarrow> (if \<not> hcCommandProvider c then False else if \<not> hcApplier c then False else hcAttemptCloser c)"

text \<open>
  A refused controller is released by one call, or abandoned, or cannot be given back.  \<open>hcRelease n\<close> is its
  answer to the \<open>n\<close>-th release, \<open>hcDone\<close> whether its liveness has ended when one was cut short.
\<close>

definition harnessReleaseRefused :: "Controller \<Rightarrow> TeardownError option \<times> SessionCall list" where
  "harnessReleaseRefused c =
     (if hcReleaser c then (hcRelease c 0, [CalledRelease])
      else if hcAbandoner c then (hcAbandon c, [CalledAbandon])
      else (Some (TeardownFailed ''neither ReleaseResidency nor AbandonResidency''), []))"

definition missingIf :: "bool \<Rightarrow> string \<Rightarrow> string list" where
  "missingIf present name = (if present then [] else [name])"

definition bindMissing :: "bool \<Rightarrow> Controller \<Rightarrow> string list" where
  "bindMissing requireRecovery c =
     missingIf (hcIdleWaiter c) ''IdleWaiter'' @ missingIf (hcLiveness c) ''Liveness'' @ missingIf (hcReleaser c) ''Releaser'' @
     missingIf (hcLeaseEpochReporter c) ''LeaseEpochReporter'' @ missingIf (hcFaultReporter c) ''PersistenceFaultReporter'' @
     missingIf (hcAbandoner c) ''ResidencyAbandoner'' @
     (if \<not> hcEventProvider c then [''CommittedPublicEventProvider''] else missingIf (hcCommittedEvents c) ''committed public events'') @
     (if requireRecovery \<and> hcFaultReporter c \<and> hcAbandoner c
      then missingIf (recoveryCloserAvailable c) ''AttemptCloser'' @ missingIf (hcFaultReporter c \<and> hcFaultChannel c) ''fault channel''
      else [])"

text \<open>A rig's session, as the target sees it: the interfaces it satisfies, and two that say whether one of them works.\<close>

record RigSession =
  rgID :: string
  rgIdleWaiter :: bool
  rgLiveness :: bool
  rgReleaser :: bool
  rgSubscriber :: bool
  rgApplier :: bool
  rgLeaseEpoch :: bool
  rgCloser :: bool
  rgCloserAvailable :: "bool option"
  rgFaults :: bool
  rgFaultsAvailable :: "bool option"
  rgLive :: bool
  rgReasoning :: bool
  rgOptions :: bool
  rgRelease :: "TeardownError option \<times> SessionCall list"

text \<open>The bound session has every method; whether the closer and the faults work is decided when it is bound.\<close>

definition boundRelease :: "Controller \<Rightarrow> TeardownError option \<times> SessionCall list" where
  "boundRelease c =
     (case teardownOutcome (hcRelease c) (hcDone c) of (err, n) \<Rightarrow> (snd (classifyLeaseRelease err), replicate n CalledRelease))"

definition boundSession :: "Controller \<Rightarrow> RigSession" where
  "boundSession c =
     \<lparr> rgID = hcID c, rgIdleWaiter = True, rgLiveness = True, rgReleaser = True, rgSubscriber = True, rgApplier = True, rgLeaseEpoch = True,
       rgCloser = True, rgCloserAvailable = Some (recoveryCloserAvailable c), rgFaults = True,
       rgFaultsAvailable = Some (hcFaultReporter c \<and> hcFaultChannel c), rgLive = True, rgReasoning = True, rgOptions = True,
       rgRelease = boundRelease c \<rparr>"

definition bindController :: "bool \<Rightarrow> Controller option \<Rightarrow> (LaunchError + RigSession) \<times> SessionCall list" where
  "bindController requireRecovery controller =
     (case controller of
        None \<Rightarrow> (Inl ErrNoSession, [])
      | Some c \<Rightarrow>
          (case bindMissing requireRecovery c of
             [] \<Rightarrow> (Inr (boundSession c), [])
           | missing \<Rightarrow> (case harnessReleaseRefused c of (err, calls) \<Rightarrow> (Inl (IncapableSession missing err), calls))))"

text \<open>
  A launch of the adapter: the resolver's answer, which may be an error or no rig, and the rig's, for the
  identity it is asked to launch under.
\<close>

type_synonym resolver = "string + (string option \<Rightarrow> string + Controller option) option"

definition AdapterLaunch :: "bool \<Rightarrow> resolver \<Rightarrow> string option \<Rightarrow> (LaunchError + RigSession) \<times> SessionCall list" where
  "AdapterLaunch requireRecovery resolved identity =
     (case resolved of
        Inl e \<Rightarrow> (Inl (RigRefused e), [])
      | Inr None \<Rightarrow> (Inl ErrNoRig, [])
      | Inr (Some launcher) \<Rightarrow>
          (case launcher identity of
             Inl e \<Rightarrow> (Inl (RigRefused e), [])
           | Inr controller \<Rightarrow> bindController requireRecovery controller))"

section \<open>The target\<close>

record RigRuntime =
  rtSessionID :: session_id
  rtAgentID :: agent_id
  rtRigID :: string
  rtCloser :: bool
  rtFaults :: bool
  rtLive :: bool
  rtReasoning :: bool
  rtOptions :: bool

definition releaseRefused :: "RigSession \<Rightarrow> TeardownError option \<times> SessionCall list" where
  "releaseRefused s = (if rgReleaser s then rgRelease s else (Some (TeardownFailed ''no Releaser''), []))"

definition requireRigIdentity :: "string option \<Rightarrow> RigSession option \<Rightarrow> LaunchError option \<times> SessionCall list" where
  "requireRigIdentity want session =
     (case (want, session) of
        (Some w, Some s) \<Rightarrow>
          if rgID s = w then (None, [])
          else (case releaseRefused s of (err, calls) \<Rightarrow> (Some (ErrRigSessionIdentity err), calls))
      | _ \<Rightarrow> (None, []))"

definition closerOf :: "RigSession \<Rightarrow> bool" where
  "closerOf s \<longleftrightarrow> rgCloser s \<and> rgCloserAvailable s \<noteq> Some False"

definition faultsOf :: "RigSession \<Rightarrow> bool" where
  "faultsOf s \<longleftrightarrow> rgFaults s \<and> rgFaultsAvailable s \<noteq> Some False"

definition runtimeMissing :: "Recovery \<Rightarrow> RigSession \<Rightarrow> string list" where
  "runtimeMissing declared s =
     missingIf (rgIdleWaiter s) ''IdleWaiter'' @ missingIf (rgLiveness s) ''Liveness'' @ missingIf (rgReleaser s) ''Releaser'' @
     missingIf (rgSubscriber s) ''PublicationSubscriber'' @ missingIf (rgApplier s) ''CommandApplier'' @
     missingIf (rgLeaseEpoch s) ''LeaseEpochReporter'' @
     missingIf (\<not> (rAttemptCloser declared \<and> \<not> closerOf s)) ''declared AttemptCloser absent'' @
     missingIf (\<not> (rPersistenceFaults declared \<and> \<not> faultsOf s)) ''declared PersistenceFaults absent''"

definition adaptRigSession :: "Recovery \<Rightarrow> session_id \<Rightarrow> agent_id \<Rightarrow> RigSession option \<Rightarrow> (LaunchError + RigRuntime) \<times> SessionCall list" where
  "adaptRigSession declared sessionID agentID session =
     (case session of
        None \<Rightarrow> (Inl (RigLaunchFailed ErrNoRigSession), [])
      | Some s \<Rightarrow>
          (case runtimeMissing declared s of
             [] \<Rightarrow>
               (Inr \<lparr> rtSessionID = sessionID, rtAgentID = agentID, rtRigID = rgID s, rtCloser = closerOf s, rtFaults = faultsOf s,
                      rtLive = rgLive s, rtReasoning = rgLive s \<and> rgReasoning s, rtOptions = rgOptions s \<rparr>, [])
           | missing \<Rightarrow> (case releaseRefused s of (err, calls) \<Rightarrow> (Inl (IncapableRuntime missing err), calls))))"

text \<open>A launch by the rig of a target: its answer for an identity, with the calls it made on a session it refused itself.\<close>

type_synonym rig = "string option \<Rightarrow> (LaunchError + RigSession option) \<times> SessionCall list"

definition launchTarget :: "Recovery \<Rightarrow> rig \<Rightarrow> string option \<Rightarrow> session_id \<Rightarrow> agent_id \<Rightarrow> (LaunchError + RigRuntime) \<times> SessionCall list" where
  "launchTarget declared rig identity sessionID agentID =
     (case rig identity of
        (Inl e, calls) \<Rightarrow> (Inl (RigLaunchFailed e), calls)
      | (Inr session, calls) \<Rightarrow>
          (case requireRigIdentity identity session of
             (Some e, calls1) \<Rightarrow> (Inl (RigLaunchFailed e), calls @ calls1)
           | (None, calls1) \<Rightarrow>
               (case adaptRigSession declared sessionID agentID session of (out, calls2) \<Rightarrow> (out, calls @ calls1 @ calls2))))"

definition RigTargetCreate :: "LaunchTarget \<Rightarrow> rig \<Rightarrow> string option \<Rightarrow> session_id \<Rightarrow> agent_id \<Rightarrow> (LaunchError + RigRuntime) \<times> SessionCall list" where
  "RigTargetCreate t rig identity sessionID agentID = launchTarget (cRecovery (ltCapabilities t)) rig identity sessionID agentID"

definition RigTargetRestore ::
  "LaunchTarget \<Rightarrow> rig \<Rightarrow> compat_id \<Rightarrow> string option \<Rightarrow> session_id \<Rightarrow> agent_id \<Rightarrow> (LaunchError + RigRuntime) \<times> SessionCall list" where
  "RigTargetRestore t rig build identity sessionID agentID =
     (if build \<noteq> ltCompatibilityID t then (Inl (CompatibilityMismatch build (ltCompatibilityID t)), [])
      else launchTarget (cRecovery (ltCapabilities t)) rig identity sessionID agentID)"

text \<open>The adapter as the rig of a target.\<close>

definition adapterRig :: "bool \<Rightarrow> resolver \<Rightarrow> rig" where
  "adapterRig requireRecovery resolved identity =
     (case AdapterLaunch requireRecovery resolved identity of (Inl e, calls) \<Rightarrow> (Inl e, calls) | (Inr s, calls) \<Rightarrow> (Inr (Some s), calls))"

section \<open>Commands\<close>

text \<open>Harness' part: its kinds, the validation of an admitted command and of a closure, the decoding of blocks.\<close>

record HarnessCore =
  hkCreate :: string
  hkInput :: string
  hkGateResponse :: string
  hkValid :: "string \<Rightarrow> bool"

record RuntimeCommand =
  rcCommandID :: string
  rcRuntimeCommandID :: string
  rcKind :: string
  rcPayload :: string
  rcPayloadRef :: bool
  rcAttemptID :: string
  rcPrincipal :: string
  rcMetadata :: string

record Admitted =
  adCommandID :: string
  adRuntimeCommandID :: string
  adKind :: string
  adLeaseEpoch :: u64
  adAttemptID :: string
  adPrincipal :: string
  adMetadata :: "string option"
  adGateResponse :: "Response option"
  adBlocks :: "string option"

datatype CommandError =
    UnsupportedNoCapability | UnsupportedNoLog | UnsupportedNoCloser | UnsupportedNoLease | UnsupportedPayloadRef | UnsupportedKind
  | UnsupportedNoDecoder | BodyRefused BodyError | BlocksRefused string | AdmittedInvalid string
  | DispatchUnsupported string | DispatchPrefixCommitted string | DispatchFailed string

definition admitGate :: "HarnessCore \<Rightarrow> Codec \<Rightarrow> session_id \<Rightarrow> RuntimeCommand \<Rightarrow> CommandError + Response option" where
  "admitGate hk cd session c =
     (if rcKind c = hkGateResponse hk
      then (case Decode cd (rcPayload c) session (rcCommandID c) of Inl e \<Rightarrow> Inl (BodyRefused e) | Inr r \<Rightarrow> Inr (Some r))
      else Inr None)"

definition decodeWith :: "(string \<Rightarrow> string + string) option \<Rightarrow> string \<Rightarrow> CommandError + string" where
  "decodeWith decode body =
     (case decode of None \<Rightarrow> Inl UnsupportedNoDecoder | Some d \<Rightarrow> (case d body of Inl e \<Rightarrow> Inl (BlocksRefused e) | Inr b \<Rightarrow> Inr b))"

definition admitBlocks :: "HarnessCore \<Rightarrow> Codec \<Rightarrow> (string \<Rightarrow> string + string) option \<Rightarrow> RuntimeCommand \<Rightarrow> CommandError + string option" where
  "admitBlocks hk cd decode c =
     (if rcKind c = hkCreate hk
      then (case FirstMessage cd (rcPayload c) of
              Inl e \<Rightarrow> Inl (BodyRefused e)
            | Inr None \<Rightarrow> Inr None
            | Inr (Some body) \<Rightarrow>
                if length body = 0 then Inr None else (case decodeWith decode body of Inl e \<Rightarrow> Inl e | Inr b \<Rightarrow> Inr (Some b)))
      else if rcKind c = hkInput hk then (case decodeWith decode (rcPayload c) of Inl e \<Rightarrow> Inl e | Inr b \<Rightarrow> Inr (Some b))
      else Inr None)"

definition admit ::
  "HarnessCore \<Rightarrow> Codec \<Rightarrow> (string \<Rightarrow> string + string) option \<Rightarrow> (Admitted \<Rightarrow> string option) \<Rightarrow> u64 option \<Rightarrow> session_id \<Rightarrow> RuntimeCommand \<Rightarrow>
    CommandError + Admitted" where
  "admit hk cd decode validate lease session c =
     (case lease of
        None \<Rightarrow> Inl UnsupportedNoLease
      | Some epoch \<Rightarrow>
          if rcPayloadRef c then Inl UnsupportedPayloadRef
          else if \<not> hkValid hk (rcKind c) then Inl UnsupportedKind
          else
            (case admitGate hk cd session c of
               Inl e \<Rightarrow> Inl e
             | Inr gate \<Rightarrow>
                 (case admitBlocks hk cd decode c of
                    Inl e \<Rightarrow> Inl e
                  | Inr blocks \<Rightarrow>
                      (let a = \<lparr> adCommandID = rcCommandID c, adRuntimeCommandID = rcRuntimeCommandID c, adKind = rcKind c, adLeaseEpoch = epoch,
                                 adAttemptID = rcAttemptID c, adPrincipal = rcPrincipal c,
                                 adMetadata = (if rcKind c = hkCreate hk \<or> rcKind c = hkInput hk then Some (rcMetadata c) else None),
                                 adGateResponse = gate, adBlocks = blocks \<rparr> in
                       case validate a of Some e \<Rightarrow> Inl (AdmittedInvalid e) | None \<Rightarrow> Inr a))))"

text \<open>The applier's answer: the sequence of the committed prefix, and an error that may be a refusal of the kind.\<close>

record Dispatch =
  dpPrefix :: u64
  dpError :: "string option"
  dpUnsupported :: bool

definition classifyDispatch :: "Dispatch \<Rightarrow> CommandError option" where
  "classifyDispatch d =
     (case dpError d of
        None \<Rightarrow> None
      | Some e \<Rightarrow> Some (if dpUnsupported d then DispatchUnsupported e else if dpPrefix d \<noteq> 0 then DispatchPrefixCommitted e else DispatchFailed e))"

text \<open>The command dispatched, if any, and the answer.\<close>

definition ApplyCommand ::
  "HarnessCore \<Rightarrow> Codec \<Rightarrow> (string \<Rightarrow> string + string) option \<Rightarrow> (Admitted \<Rightarrow> string option) \<Rightarrow> u64 option \<Rightarrow> session_id \<Rightarrow> Controller \<Rightarrow>
    (Admitted \<Rightarrow> Dispatch) \<Rightarrow> RuntimeCommand \<Rightarrow> CommandError option \<times> Admitted option" where
  "ApplyCommand hk cd decode validate lease session c apply' command =
     (if \<not> hcCommandProvider c then (Some UnsupportedNoCapability, None)
      else if \<not> hcApplier c then (Some UnsupportedNoLog, None)
      else
        (case admit hk cd decode validate lease session command of
           Inl e \<Rightarrow> (Some e, None)
         | Inr a \<Rightarrow> (classifyDispatch (apply' a), Some a)))"

datatype ClosureError = ClosureUnsupported CommandError | ClosureInvalid string | ClosureEnduringEffect string | ClosureFailed string

definition classifyClosure :: "(bool \<times> string) option \<Rightarrow> ClosureError option" where
  "classifyClosure answer = (case answer of None \<Rightarrow> None | Some (enduring, e) \<Rightarrow> Some (if enduring then ClosureEnduringEffect e else ClosureFailed e))"

definition CloseAttempt :: "Controller \<Rightarrow> string option \<Rightarrow> (bool \<times> string) option \<Rightarrow> ClosureError option \<times> bool" where
  "CloseAttempt c invalid answer =
     (if \<not> hcCommandProvider c then (Some (ClosureUnsupported UnsupportedNoCapability), False)
      else if \<not> hcApplier c then (Some (ClosureUnsupported UnsupportedNoLog), False)
      else if \<not> hcAttemptCloser c then (Some (ClosureUnsupported UnsupportedNoCloser), False)
      else (case invalid of Some e \<Rightarrow> (Some (ClosureInvalid e), False) | None \<Rightarrow> (classifyClosure answer, True)))"

section \<open>The live pump\<close>

datatype DeliveryEvent = EnduringEvent | TextChunk string | ThinkingChunk string | OtherChunk | ToolCallEvent | OtherEphemeral

record Delivery =
  dlEvent :: "DeliveryEvent option"
  dlCommitted :: bool
  dlEventID :: string
  dlSeq :: u64
  dlCovered :: u64
  dlBody :: string

record Publication =
  puTenant :: tenant_id
  puSession :: session_id
  puEventID :: string
  puSeq :: u64
  puCovered :: u64
  puBody :: string

datatype LivePublication = LEnduring Publication | LEphemeral string | LTerminal string u64

definition committedEgressBuffer :: nat where "committedEgressBuffer = 256"
definition liveEphemeralBuffer :: nat where "liveEphemeralBuffer = 16"

definition publicationOf :: "tenant_id \<Rightarrow> session_id \<Rightarrow> Delivery \<Rightarrow> Publication" where
  "publicationOf tenant session d =
     \<lparr> puTenant = tenant, puSession = session, puEventID = dlEventID d, puSeq = dlSeq d, puCovered = dlCovered d, puBody = dlBody d \<rparr>"

record LiveOptions =
  loReasoning :: bool
  loToolSteps :: bool
  loMaxBytes :: nat

definition previewable :: "LiveOptions \<Rightarrow> DeliveryEvent \<Rightarrow> bool" where
  "previewable o' e =
     (case e of
        TextChunk t \<Rightarrow> t \<noteq> [] \<and> length t \<le> loMaxBytes o'
      | ThinkingChunk t \<Rightarrow> loReasoning o' \<and> t \<noteq> [] \<and> length t \<le> loMaxBytes o'
      | ToolCallEvent \<Rightarrow> loToolSteps o'
      | _ \<Rightarrow> False)"

text \<open>The pump: what waits to be sent, the two counters, whether it still listens, what was sent, how many were dropped, what it received.\<close>

record Pump =
  pmPending :: "LivePublication list"
  pmEnduring :: nat
  pmEphemeral :: nat
  pmListening :: bool
  pmReturned :: bool
  pmSent :: "LivePublication list"
  pmDrops :: u64
  pmReceived :: "Delivery list"

definition newPump :: Pump where
  "newPump = \<lparr> pmPending = [], pmEnduring = 0, pmEphemeral = 0, pmListening = True, pmReturned = False, pmSent = [], pmDrops = 0, pmReceived = [] \<rparr>"

datatype PumpInput = PumpContextDone | PumpReceiverReady | PumpDelivery Delivery | PumpSourceClosed

definition sendFirst :: "Pump \<Rightarrow> Pump" where
  "sendFirst s =
     (case pmPending s of
        [] \<Rightarrow> s
      | first # rest \<Rightarrow>
          (let s1 = s\<lparr> pmSent := pmSent s @ [first] \<rparr> in
           case first of
             LTerminal _ _ \<Rightarrow> s1\<lparr> pmReturned := True \<rparr>
           | LEnduring _ \<Rightarrow> s1\<lparr> pmEnduring := pmEnduring s - 1, pmPending := rest \<rparr>
           | LEphemeral _ \<Rightarrow> s1\<lparr> pmEphemeral := pmEphemeral s - 1, pmPending := rest \<rparr>))"

text \<open>One delivery; \<open>project\<close> is Harness' projection of an ephemeral event, when it has one.\<close>

definition receive :: "LiveOptions \<Rightarrow> tenant_id \<Rightarrow> session_id \<Rightarrow> (Delivery \<Rightarrow> string option) \<Rightarrow> Delivery \<Rightarrow> Pump \<Rightarrow> Pump" where
  "receive o' tenant session project d s0 =
     (let s = s0\<lparr> pmReceived := pmReceived s0 @ [d] \<rparr> in
      case dlEvent d of
        None \<Rightarrow> s\<lparr> pmReturned := True \<rparr>
      | Some EnduringEvent \<Rightarrow>
          if \<not> dlCommitted d then s\<lparr> pmPending := pmPending s @ [LTerminal (dlEventID d) (dlSeq d)], pmListening := False \<rparr>
          else if pmEnduring s = committedEgressBuffer then s\<lparr> pmReturned := True \<rparr>
          else s\<lparr> pmPending := pmPending s @ [LEnduring (publicationOf tenant session d)], pmEnduring := pmEnduring s + 1 \<rparr>
      | Some e \<Rightarrow>
          if \<not> previewable o' e \<or> pmEphemeral s = liveEphemeralBuffer then s\<lparr> pmDrops := pmDrops s + 1 \<rparr>
          else
            (case project d of
               None \<Rightarrow> s\<lparr> pmDrops := pmDrops s + 1 \<rparr>
             | Some body \<Rightarrow> s\<lparr> pmPending := pmPending s @ [LEphemeral body], pmEphemeral := pmEphemeral s + 1 \<rparr>))"

definition pumpLive :: "LiveOptions \<Rightarrow> tenant_id \<Rightarrow> session_id \<Rightarrow> (Delivery \<Rightarrow> string option) \<Rightarrow> PumpInput \<Rightarrow> Pump \<Rightarrow> Pump" where
  "pumpLive o' tenant session project i s =
     (if pmReturned s then s
      else
        (case i of
           PumpContextDone \<Rightarrow> s\<lparr> pmReturned := True \<rparr>
         | PumpReceiverReady \<Rightarrow> sendFirst s
         | PumpDelivery d \<Rightarrow> if pmListening s then receive o' tenant session project d s else s
         | PumpSourceClosed \<Rightarrow> if pmListening s then s\<lparr> pmReturned := True \<rparr> else s))"

text \<open>The pump of committed events alone sends into a buffered channel and returns when it is full.\<close>

definition pump :: "tenant_id \<Rightarrow> session_id \<Rightarrow> PumpInput \<Rightarrow> Pump \<Rightarrow> Pump" where
  "pump tenant session i s =
     (case i of
        PumpReceiverReady \<Rightarrow>
          (case pmPending s of [] \<Rightarrow> s | first # rest \<Rightarrow> s\<lparr> pmSent := pmSent s @ [first], pmPending := rest, pmEnduring := pmEnduring s - 1 \<rparr>)
      | _ \<Rightarrow>
          if pmReturned s then s
          else
            (case i of
               PumpDelivery d \<Rightarrow>
                 (let s1 = s\<lparr> pmReceived := pmReceived s @ [d] \<rparr> in
                  if \<not> dlCommitted d then s1
                  else if length (pmPending s) = committedEgressBuffer then s1\<lparr> pmReturned := True \<rparr>
                  else s1\<lparr> pmPending := pmPending s @ [LEnduring (publicationOf tenant session d)], pmEnduring := pmEnduring s + 1 \<rparr>)
             | _ \<Rightarrow> s\<lparr> pmReturned := True \<rparr>))"

fun pumpRun :: "(PumpInput \<Rightarrow> Pump \<Rightarrow> Pump) \<Rightarrow> PumpInput list \<Rightarrow> Pump \<Rightarrow> Pump" where
  "pumpRun step [] s = s"
| "pumpRun step (i # is) s = pumpRun step is (step i s)"

section \<open>Launches\<close>

text \<open>What a launched session must have, and what a launch that refuses it does.\<close>

definition capable :: "Recovery \<Rightarrow> RigSession \<Rightarrow> bool" where
  "capable declared s \<longleftrightarrow>
     rgIdleWaiter s \<and> rgLiveness s \<and> rgReleaser s \<and> rgSubscriber s \<and> rgApplier s \<and> rgLeaseEpoch s \<and>
     (rAttemptCloser declared \<longrightarrow> closerOf s) \<and> (rPersistenceFaults declared \<longrightarrow> faultsOf s)"

lemma runtimeMissing_capable: "runtimeMissing declared s = [] \<longleftrightarrow> capable declared s"
  by (auto simp: runtimeMissing_def capable_def missingIf_def)

lemma launchTarget_session:
  assumes "rig identity = (Inr (Some s), calls)"
  shows "launchTarget declared rig identity sessionID agentID =
    (if identity \<noteq> None \<and> identity \<noteq> Some (rgID s)
     then (Inl (RigLaunchFailed (ErrRigSessionIdentity (fst (releaseRefused s)))), calls @ snd (releaseRefused s))
     else if capable declared s
     then (Inr \<lparr> rtSessionID = sessionID, rtAgentID = agentID, rtRigID = rgID s, rtCloser = closerOf s, rtFaults = faultsOf s,
                 rtLive = rgLive s, rtReasoning = rgLive s \<and> rgReasoning s, rtOptions = rgOptions s \<rparr>, calls)
     else (Inl (IncapableRuntime (runtimeMissing declared s) (fst (releaseRefused s))), calls @ snd (releaseRefused s)))"
proof (cases identity)
  case None
  then show ?thesis using assms
    by (cases "runtimeMissing declared s"; cases "releaseRefused s")
       (auto simp: launchTarget_def requireRigIdentity_def adaptRigSession_def runtimeMissing_capable [symmetric])
next
  case (Some w)
  then show ?thesis using assms
    by (cases "runtimeMissing declared s"; cases "releaseRefused s"; cases "rgID s = w")
       (auto simp: launchTarget_def requireRigIdentity_def adaptRigSession_def runtimeMissing_capable [symmetric])
qed

lemma bound_capable: "capable declared (boundSession c) \<longleftrightarrow>
    (rAttemptCloser declared \<longrightarrow> recoveryCloserAvailable c) \<and> (rPersistenceFaults declared \<longrightarrow> hcFaultReporter c \<and> hcFaultChannel c)"
  by (auto simp: capable_def boundSession_def closerOf_def faultsOf_def)

text \<open>What the Host needs of a session, by name, and what a target's declaration adds.\<close>

definition hostNeeds :: "bool \<Rightarrow> Recovery \<Rightarrow> Controller \<Rightarrow> bool" where
  "hostNeeds requireRecovery declared c \<longleftrightarrow>
     hcIdleWaiter c \<and> hcLiveness c \<and> hcReleaser c \<and> hcLeaseEpochReporter c \<and> hcFaultReporter c \<and> hcAbandoner c \<and>
     hcEventProvider c \<and> hcCommittedEvents c \<and>
     (requireRecovery \<or> rAttemptCloser declared \<longrightarrow> hcCommandProvider c \<and> hcApplier c \<and> hcAttemptCloser c) \<and>
     (requireRecovery \<or> rPersistenceFaults declared \<longrightarrow> hcFaultChannel c)"

lemma bindMissing_iff:
  "bindMissing requireRecovery c = [] \<longleftrightarrow> hcIdleWaiter c \<and> hcLiveness c \<and> hcReleaser c \<and> hcLeaseEpochReporter c \<and> hcFaultReporter c \<and>
     hcAbandoner c \<and> hcEventProvider c \<and> hcCommittedEvents c \<and> (requireRecovery \<longrightarrow> recoveryCloserAvailable c \<and> hcFaultChannel c)"
  by (auto simp: bindMissing_def missingIf_def)

lemma closer_iff: "recoveryCloserAvailable c \<longleftrightarrow> hcCommandProvider c \<and> hcApplier c \<and> hcAttemptCloser c"
  by (simp add: recoveryCloserAvailable_def)

text \<open>The one release of a session that was bound: a second call only joins one that was cut short.\<close>

lemma boundRelease_calls:
  "snd (boundRelease c) = [CalledRelease] \<or>
   snd (boundRelease c) = [CalledRelease, CalledRelease] \<and> hcRelease c 0 = Some TeardownContext \<and> hcDone c"
  by (auto simp: boundRelease_def teardownOutcome_def numeral_2_eq_2 split: option.splits)

text \<open>
  C28: a launch gives a session that works or gives it back.  A target launches through the adapter, to
  create or to restore.  A runtime is returned exactly for a session that can wait for idleness, report its
  liveness, release and abandon its residency, report its lease epoch and its persistence faults and provide
  its committed events, that closes attempts and has a channel of faults where the target declares or the
  adapter requires it, and that has the identity that was asked for; the runtime says truthfully whether it
  can close attempts and report faults, and nothing was then released.  Every other session the harness
  launched was given back: released by one call, which is joined by a second when its context ended after
  the session had; abandoned by one call if it offers no release; left alone only if it offers neither.  And
  a session written by another build is never launched.
\<close>

theorem launch_works_or_gives_back:
  fixes t :: LaunchTarget and requireRecovery :: bool and sessionID :: session_id and agentID :: agent_id
  assumes "resolved = Inr (Some launcher)" "launcher identity = Inr (Some c)"
  defines "launched \<equiv> RigTargetCreate t (adapterRig requireRecovery resolved) identity sessionID agentID"
  shows "(case launched of
      (Inr rt, calls) \<Rightarrow>
        calls = [] \<and> hostNeeds requireRecovery (cRecovery (ltCapabilities t)) c \<and>
        (identity = None \<or> identity = Some (hcID c)) \<and> rtRigID rt = hcID c \<and>
        rtCloser rt = (hcCommandProvider c \<and> hcApplier c \<and> hcAttemptCloser c) \<and> rtFaults rt = hcFaultChannel c
    | (Inl e, calls) \<Rightarrow>
        (\<not> hostNeeds requireRecovery (cRecovery (ltCapabilities t)) c \<or> identity \<noteq> None \<and> identity \<noteq> Some (hcID c)) \<and>
        (if hcReleaser c
         then calls = [CalledRelease] \<or> calls = [CalledRelease, CalledRelease] \<and> hcRelease c 0 = Some TeardownContext \<and> hcDone c
         else calls = (if hcAbandoner c then [CalledAbandon] else []))) \<and>
    (RigTargetRestore t (adapterRig requireRecovery resolved) build identity sessionID agentID =
      (if build = ltCompatibilityID t then launched else (Inl (CompatibilityMismatch build (ltCompatibilityID t)), [])))"
proof (rule conjI [rotated])
  show "RigTargetRestore t (adapterRig requireRecovery resolved) build identity sessionID agentID =
      (if build = ltCompatibilityID t then launched else (Inl (CompatibilityMismatch build (ltCompatibilityID t)), []))"
    by (simp add: RigTargetRestore_def launched_def RigTargetCreate_def)
  let ?d = "cRecovery (ltCapabilities t)"
  show "case launched of
      (Inr rt, calls) \<Rightarrow>
        calls = [] \<and> hostNeeds requireRecovery ?d c \<and>
        (identity = None \<or> identity = Some (hcID c)) \<and> rtRigID rt = hcID c \<and>
        rtCloser rt = (hcCommandProvider c \<and> hcApplier c \<and> hcAttemptCloser c) \<and> rtFaults rt = hcFaultChannel c
    | (Inl e, calls) \<Rightarrow>
        (\<not> hostNeeds requireRecovery ?d c \<or> identity \<noteq> None \<and> identity \<noteq> Some (hcID c)) \<and>
        (if hcReleaser c
         then calls = [CalledRelease] \<or> calls = [CalledRelease, CalledRelease] \<and> hcRelease c 0 = Some TeardownContext \<and> hcDone c
         else calls = (if hcAbandoner c then [CalledAbandon] else []))"
  proof (cases "bindMissing requireRecovery c")
    case Nil
    then have rig: "adapterRig requireRecovery resolved identity = (Inr (Some (boundSession c)), [])"
      using assms(1,2) by (simp add: adapterRig_def AdapterLaunch_def bindController_def)
    have needs: "hostNeeds requireRecovery ?d c \<longleftrightarrow> capable ?d (boundSession c)"
      using Nil by (auto simp: hostNeeds_def bound_capable bindMissing_iff closer_iff)
    have rel: "releaseRefused (boundSession c) = boundRelease c" by (simp add: releaseRefused_def boundSession_def)
    have id: "rgID (boundSession c) = hcID c" "closerOf (boundSession c) = recoveryCloserAvailable c" "faultsOf (boundSession c) = hcFaultChannel c"
      using Nil by (auto simp: boundSession_def closerOf_def faultsOf_def bindMissing_iff)
    have "hcReleaser c" using Nil by (simp add: bindMissing_iff)
    then show ?thesis
      unfolding launched_def RigTargetCreate_def
        launchTarget_session [of "adapterRig requireRecovery resolved" identity "boundSession c" "[]", OF rig] rel needs
      using boundRelease_calls [of c] by (simp add: id closer_iff)
  next
    case (Cons m ms)
    obtain err calls where r: "harnessReleaseRefused c = (err, calls)" by fastforce
    have rig: "adapterRig requireRecovery resolved identity = (Inl (IncapableSession (m # ms) err), calls)"
      using assms(1,2) Cons r by (simp add: adapterRig_def AdapterLaunch_def bindController_def)
    have "bindMissing requireRecovery c \<noteq> []" using Cons by simp
    then have "\<not> hostNeeds requireRecovery ?d c" by (auto simp: hostNeeds_def bindMissing_iff closer_iff)
    then show ?thesis unfolding launched_def RigTargetCreate_def launchTarget_def rig
      using r by (auto simp: harnessReleaseRefused_def split: if_splits)
  qed
qed

definition exController :: Controller where
  "exController = \<lparr> hcID = ''u1'', hcIdleWaiter = True, hcLiveness = True, hcReleaser = True, hcLeaseEpochReporter = True, hcFaultReporter = True,
     hcAbandoner = True, hcEventProvider = True, hcCommittedEvents = True, hcFaultChannel = True, hcCommandProvider = True, hcApplier = True,
     hcAttemptCloser = False, hcRelease = (\<lambda>n. if n = 0 then Some TeardownContext else None), hcAbandon = None, hcDone = True \<rparr>"

definition exTarget :: LaunchTarget where
  "exTarget = \<lparr> ltHandle = 1, ltCompatibilityID = ''b1'', ltCapabilities = example_caps\<lparr> cRecovery := \<lparr> rAttemptCloser = True, rPersistenceFaults = True \<rparr> \<rparr> \<rparr>"

theorem launch_works_or_gives_back_witness:
  "\<exists>e calls. RigTargetCreate exTarget (adapterRig False (Inr (Some (\<lambda>_. Inr (Some exController))))) None ''s'' ''a'' = (Inl e, calls) \<and>
     (calls = [CalledRelease] \<or> calls = [CalledRelease, CalledRelease])"
proof -
  obtain out calls where r: "RigTargetCreate exTarget (adapterRig False (Inr (Some (\<lambda>_. Inr (Some exController))))) None ''s'' ''a'' = (out, calls)" by fastforce
  have "\<not> hostNeeds False (cRecovery (ltCapabilities exTarget)) exController" "hcReleaser exController"
    by (simp_all add: exController_def hostNeeds_def exTarget_def)
  with launch_works_or_gives_back [of "Inr (Some (\<lambda>_. Inr (Some exController)))" "\<lambda>_. Inr (Some exController)" None exController,
      where t = exTarget and requireRecovery = False and sessionID = "''s''" and agentID = "''a''"] r
  have "\<exists>e. out = Inl e" "calls = [CalledRelease] \<or> calls = [CalledRelease, CalledRelease]" by (cases out; auto)+
  with r show ?thesis by blast
qed

section \<open>What the pumps publish\<close>

definition enduringOf :: "LivePublication list \<Rightarrow> Publication list" where
  "enduringOf ps = concat (map (\<lambda>p. case p of LEnduring e \<Rightarrow> [e] | _ \<Rightarrow> []) ps)"

definition ephemeralOf :: "LivePublication list \<Rightarrow> string list" where
  "ephemeralOf ps = concat (map (\<lambda>p. case p of LEphemeral b \<Rightarrow> [b] | _ \<Rightarrow> []) ps)"

lemma publications_simps [simp]:
  "enduringOf [] = []" "ephemeralOf [] = []" "enduringOf (ps @ qs) = enduringOf ps @ enduringOf qs" "ephemeralOf (ps @ qs) = ephemeralOf ps @ ephemeralOf qs"
  "enduringOf (LEnduring e # ps) = e # enduringOf ps" "enduringOf (LEphemeral b # ps) = enduringOf ps" "enduringOf (LTerminal i n # ps) = enduringOf ps"
  "ephemeralOf (LEnduring e # ps) = ephemeralOf ps" "ephemeralOf (LEphemeral b # ps) = b # ephemeralOf ps" "ephemeralOf (LTerminal i n # ps) = ephemeralOf ps"
  by (simp_all add: enduringOf_def ephemeralOf_def)

definition committedEvent :: "Delivery \<Rightarrow> bool" where
  "committedEvent d \<longleftrightarrow> dlEvent d = Some EnduringEvent \<and> dlCommitted d"

definition strayEvent :: "Delivery \<Rightarrow> bool" where
  "strayEvent d \<longleftrightarrow> dlEvent d = Some EnduringEvent \<and> \<not> dlCommitted d"

definition ephemeralEvent :: "Delivery \<Rightarrow> bool" where
  "ephemeralEvent d \<longleftrightarrow> dlEvent d \<noteq> None \<and> dlEvent d \<noteq> Some EnduringEvent"

definition noTerminal :: "LivePublication list \<Rightarrow> bool" where
  "noTerminal ps \<longleftrightarrow> (\<forall>i n. LTerminal i n \<notin> set ps)"

definition pump_inv :: "tenant_id \<Rightarrow> session_id \<Rightarrow> Pump \<Rightarrow> bool" where
  "pump_inv tenant session s \<longleftrightarrow>
     pmEnduring s = length (enduringOf (pmPending s)) \<and> pmEnduring s \<le> committedEgressBuffer \<and>
     pmEphemeral s = length (ephemeralOf (pmPending s)) \<and> pmEphemeral s \<le> liveEphemeralBuffer \<and>
     prefix (enduringOf (pmSent s) @ enduringOf (pmPending s)) (map (publicationOf tenant session) (filter committedEvent (pmReceived s))) \<and>
     (\<not> pmReturned s \<longrightarrow> enduringOf (pmSent s) @ enduringOf (pmPending s) = map (publicationOf tenant session) (filter committedEvent (pmReceived s))) \<and>
     pmDrops s + of_nat (length (ephemeralOf (pmSent s)) + length (ephemeralOf (pmPending s))) = of_nat (length (filter ephemeralEvent (pmReceived s))) \<and>
     (\<not> pmReturned s \<longrightarrow> noTerminal (pmSent s)) \<and>
     (pmListening s \<longrightarrow> noTerminal (pmSent s) \<and> noTerminal (pmPending s)) \<and>
     (\<not> pmListening s \<longrightarrow> (\<exists>ps d ds. pmPending s = ps @ [LTerminal (dlEventID d) (dlSeq d)] \<and> noTerminal ps \<and> pmReceived s = ds @ [d] \<and> strayEvent d) \<and>
        enduringOf (pmSent s) @ enduringOf (pmPending s) = map (publicationOf tenant session) (filter committedEvent (pmReceived s)) \<and>
        (\<forall>i n. LTerminal i n \<in> set (pmSent s) \<longrightarrow> enduringOf (pmPending s) = []))"

lemma pop_inv:
  assumes inv: "pump_inv tenant session s" and open': "\<not> pmReturned s" and p: "pmPending s = p # rest" "noTerminal [p]"
    and s': "pmSent s' = pmSent s @ [p]" "pmPending s' = rest" "pmEnduring s' = length (enduringOf rest)" "pmEphemeral s' = length (ephemeralOf rest)"
      "pmReceived s' = pmReceived s" "pmDrops s' = pmDrops s" "pmListening s' = pmListening s" "pmReturned s' = pmReturned s"
  shows "pump_inv tenant session s'"
proof -
  have e: "enduringOf (pmSent s') @ enduringOf (pmPending s') = enduringOf (pmSent s) @ enduringOf (pmPending s)"
    "ephemeralOf (pmSent s') @ ephemeralOf (pmPending s') = ephemeralOf (pmSent s) @ ephemeralOf (pmPending s)"
    using p by (cases p; simp add: s')+
  have l: "length (ephemeralOf (pmSent s')) + length (ephemeralOf (pmPending s')) = length (ephemeralOf (pmSent s)) + length (ephemeralOf (pmPending s))"
    using arg_cong [OF e(2), of length] by simp
  have le: "length (enduringOf rest) \<le> length (enduringOf (pmPending s))" "length (ephemeralOf rest) \<le> length (ephemeralOf (pmPending s))"
    using p by (cases p; simp)+
  have nt: "noTerminal (pmSent s)" using inv open' by (simp add: pump_inv_def)
  then have nt': "noTerminal (pmSent s')" using p(2) by (auto simp: s' noTerminal_def)
  have last': "\<exists>ps d ds. rest = ps @ [LTerminal (dlEventID d) (dlSeq d)] \<and> noTerminal ps \<and> pmReceived s = ds @ [d] \<and> strayEvent d" if "\<not> pmListening s"
  proof -
    from inv that obtain ps d ds where t: "p # rest = ps @ [LTerminal (dlEventID d) (dlSeq d)]" "noTerminal ps" "pmReceived s = ds @ [d]" "strayEvent d"
      unfolding pump_inv_def p(1) by blast
    then obtain ps' where "ps = p # ps'" "rest = ps' @ [LTerminal (dlEventID d) (dlSeq d)]" using p(2) by (cases ps) (auto simp: noTerminal_def)
    with t show ?thesis by (auto simp: noTerminal_def)
  qed
  have rest: "noTerminal rest" if "pmListening s" using inv that p(1) by (auto simp: pump_inv_def noTerminal_def)
  show ?thesis unfolding pump_inv_def s'(3-8) l e using inv le last' nt' rest open' unfolding s'(2) pump_inv_def
    by (simp add: noTerminal_def)
qed

lemma sendFirst_inv:
  assumes inv: "pump_inv tenant session s" and open': "\<not> pmReturned s"
  shows "pump_inv tenant session (sendFirst s)"
proof (cases "pmPending s")
  case Nil
  then show ?thesis using inv by (simp add: sendFirst_def)
next
  case (Cons p rest)
  have cnt: "pmEnduring s = length (enduringOf (p # rest))" "pmEphemeral s = length (ephemeralOf (p # rest))"
    using inv Cons by (simp_all add: pump_inv_def)
  show ?thesis
  proof (cases p)
    case (LTerminal i n)
    have lis: "\<not> pmListening s" using inv Cons LTerminal by (auto simp: pump_inv_def noTerminal_def)
    obtain ps and d :: Delivery where t: "LTerminal i n # rest = ps @ [LTerminal (dlEventID d) (dlSeq d)]" "noTerminal ps"
      using inv lis Cons LTerminal unfolding pump_inv_def by metis
    have "rest = []"
    proof (cases ps)
      case (Cons q qs)
      with t have "LTerminal i n \<in> set ps" by simp
      with t(2) show ?thesis by (simp add: noTerminal_def)
    qed (use t in simp)
    moreover have "sendFirst s = s\<lparr> pmSent := pmSent s @ [LTerminal i n], pmReturned := True \<rparr>" using Cons LTerminal by (simp add: sendFirst_def)
    ultimately show ?thesis using inv Cons LTerminal lis unfolding pump_inv_def by simp
  qed (rule pop_inv [OF inv open' Cons]; use Cons cnt open' in \<open>simp add: sendFirst_def noTerminal_def\<close>)+
qed

lemma receive_inv:
  assumes inv: "pump_inv tenant session s" and open': "\<not> pmReturned s" "pmListening s"
  shows "pump_inv tenant session (receive o' tenant session project d s)"
proof -
  define all where "all = map (publicationOf tenant session) (filter committedEvent (pmReceived s))"
  have eq: "enduringOf (pmSent s) @ enduringOf (pmPending s) = all" using inv open' by (simp add: pump_inv_def all_def)
  have nt: "noTerminal (pmSent s)" "noTerminal (pmPending s)" using inv open' by (simp_all add: pump_inv_def)
  have cnt: "pmEnduring s = length (enduringOf (pmPending s))" "pmEnduring s \<le> committedEgressBuffer"
      "pmEphemeral s = length (ephemeralOf (pmPending s))" "pmEphemeral s \<le> liveEphemeralBuffer"
    using inv by (simp_all add: pump_inv_def)
  have dr: "pmDrops s + of_nat (length (ephemeralOf (pmSent s)) + length (ephemeralOf (pmPending s))) = of_nat (length (filter ephemeralEvent (pmReceived s)))"
    using inv by (simp add: pump_inv_def)
  show ?thesis
  proof (cases "dlEvent d")
    case None
    then have "\<not> committedEvent d" "\<not> ephemeralEvent d" by (simp_all add: committedEvent_def ephemeralEvent_def)
    with None eq nt cnt dr open' show ?thesis by (simp add: pump_inv_def receive_def all_def)
  next
    case (Some e)
    show ?thesis
    proof (cases "e = EnduringEvent")
      case True
      show ?thesis
      proof (cases "dlCommitted d")
        case False
        with Some True have "\<not> committedEvent d" "\<not> ephemeralEvent d" "strayEvent d" by (simp_all add: committedEvent_def ephemeralEvent_def strayEvent_def)
        with Some True False eq nt cnt dr open' show ?thesis
          by (auto simp: pump_inv_def receive_def all_def noTerminal_def Let_def)
      next
        case c: True
        with Some True have "committedEvent d" "\<not> ephemeralEvent d" by (simp_all add: committedEvent_def ephemeralEvent_def)
        with Some True c eq nt cnt dr open' show ?thesis
          by (cases "pmEnduring s = committedEgressBuffer") (auto simp: pump_inv_def receive_def all_def noTerminal_def Let_def)
      qed
    next
      case False
      with Some have k: "\<not> committedEvent d" "ephemeralEvent d" by (simp_all add: committedEvent_def ephemeralEvent_def)
      have r: "receive o' tenant session project d s =
          (let s1 = s\<lparr> pmReceived := pmReceived s @ [d] \<rparr> in
           if \<not> previewable o' e \<or> pmEphemeral s = liveEphemeralBuffer then s1\<lparr> pmDrops := pmDrops s + 1 \<rparr>
           else (case project d of None \<Rightarrow> s1\<lparr> pmDrops := pmDrops s + 1 \<rparr>
             | Some body \<Rightarrow> s1\<lparr> pmPending := pmPending s @ [LEphemeral body], pmEphemeral := pmEphemeral s + 1 \<rparr>))"
        using Some False by (cases e; cases "project d") (simp_all add: receive_def Let_def)
      have drop: "pmDrops s + 1 + of_nat (length (ephemeralOf (pmSent s)) + length (ephemeralOf (pmPending s))) =
          of_nat (length (filter ephemeralEvent (pmReceived s))) + 1" using dr by (simp add: algebra_simps)
      show ?thesis unfolding r Let_def using k eq nt cnt dr drop open'
        by (cases "\<not> previewable o' e \<or> pmEphemeral s = liveEphemeralBuffer"; cases "project d")
           (auto simp: pump_inv_def all_def noTerminal_def algebra_simps)
    qed
  qed
qed

lemma pumpRun_append: "pumpRun step (xs @ ys) s = pumpRun step ys (pumpRun step xs s)"
  by (induction xs arbitrary: s) simp_all

lemma pumpLive_step_inv:
  assumes inv: "pump_inv tenant session s"
  shows "pump_inv tenant session (pumpLive o' tenant session project i s)"
proof (cases "pmReturned s")
  case True
  then show ?thesis using inv by (simp add: pumpLive_def)
next
  case False
  have stop: "pump_inv tenant session (s\<lparr> pmReturned := True \<rparr>)" using inv by (auto simp: pump_inv_def)
  show ?thesis using inv False stop sendFirst_inv [OF inv False] receive_inv [OF inv False]
    by (cases i) (simp_all add: pumpLive_def)
qed

lemma pumpLive_inv: "pump_inv tenant session (pumpRun (pumpLive o' tenant session project) is newPump)"
proof (induction "is" rule: rev_induct)
  case Nil
  show ?case by (simp add: pump_inv_def newPump_def noTerminal_def)
next
  case (snoc i xs)
  then show ?case using pumpLive_step_inv by (simp add: pumpRun_append)
qed

text \<open>
  C20: the live stream of a session has no holes.  Whatever the harness delivers and however slowly it is
  read, what was sent of the enduring events is the committed events in the order of their delivery, from
  the first on and without a gap, each under the session's public address; when the reader falls 256
  events behind the stream ends instead.  At most 256 enduring and 16 ephemeral publications wait; an
  ephemeral event is sent, waits, or is counted as dropped; and the error that an event lacks its committed
  fields is sent only after every committed event before it, and is the last thing sent.
\<close>

theorem live_stream_has_no_holes:
  fixes o' :: LiveOptions and tenant :: tenant_id and session :: session_id and project :: "Delivery \<Rightarrow> string option"
  defines "s is \<equiv> pumpRun (pumpLive o' tenant session project) is newPump"
  shows "prefix (enduringOf (pmSent (s is))) (map (publicationOf tenant session) (filter committedEvent (pmReceived (s is)))) \<and>
    length (enduringOf (pmPending (s is))) \<le> 256 \<and> length (ephemeralOf (pmPending (s is))) \<le> 16 \<and>
    pmDrops (s is) + of_nat (length (ephemeralOf (pmSent (s is))) + length (ephemeralOf (pmPending (s is)))) =
      of_nat (length (filter ephemeralEvent (pmReceived (s is)))) \<and>
    (\<forall>i n. LTerminal i n \<in> set (pmSent (s is)) \<longrightarrow>
       enduringOf (pmSent (s is)) = map (publicationOf tenant session) (filter committedEvent (pmReceived (s is))) \<and>
       pmReturned (s is) \<and> strayEvent (last (pmReceived (s is))))"
proof -
  note inv = pumpLive_inv [of tenant session o' project "is", folded s_def]
  have "enduringOf (pmSent (s is)) = map (publicationOf tenant session) (filter committedEvent (pmReceived (s is))) \<and>
      pmReturned (s is) \<and> strayEvent (last (pmReceived (s is)))" if "LTerminal i n \<in> set (pmSent (s is))" for i n
  proof -
    have ret: "pmReturned (s is)" and lis: "\<not> pmListening (s is)" using inv that by (auto simp: pump_inv_def noTerminal_def)
    with inv that have "enduringOf (pmPending (s is)) = []"
      "enduringOf (pmSent (s is)) @ enduringOf (pmPending (s is)) = map (publicationOf tenant session) (filter committedEvent (pmReceived (s is)))"
      "strayEvent (last (pmReceived (s is)))" by (auto simp: pump_inv_def)
    with ret show ?thesis by simp
  qed
  moreover have "prefix (enduringOf (pmSent (s is))) (map (publicationOf tenant session) (filter committedEvent (pmReceived (s is))))"
    using inv by (auto simp: pump_inv_def intro: append_prefixD)
  ultimately show ?thesis using inv by (simp add: pump_inv_def committedEgressBuffer_def liveEphemeralBuffer_def)
qed

definition exDelivery :: "bool \<Rightarrow> u64 \<Rightarrow> Delivery" where
  "exDelivery committed n = \<lparr> dlEvent = Some EnduringEvent, dlCommitted = committed, dlEventID = ''e'', dlSeq = n, dlCovered = n, dlBody = ''{}'' \<rparr>"

definition exInputs :: "PumpInput list" where
  "exInputs = [PumpDelivery (exDelivery True 1), PumpDelivery (exDelivery True 2), PumpDelivery (exDelivery False 3), PumpReceiverReady, PumpReceiverReady,
     PumpReceiverReady, PumpReceiverReady]"

definition exLiveOptions :: LiveOptions where
  "exLiveOptions = \<lparr> loReasoning = False, loToolSteps = False, loMaxBytes = 4096 \<rparr>"

theorem live_stream_has_no_holes_witness:
  "map puSeq (enduringOf (pmSent (pumpRun (pumpLive exLiveOptions ''t'' ''s'' (\<lambda>_. None)) exInputs newPump))) = [1, 2]"
proof -
  let ?s = "pumpRun (pumpLive exLiveOptions ''t'' ''s'' (\<lambda>_. None)) exInputs newPump"
  have t: "LTerminal ''e'' 3 \<in> set (pmSent ?s)" and r: "pmReceived ?s = [exDelivery True 1, exDelivery True 2, exDelivery False 3]"
    by (simp_all add: exInputs_def newPump_def pumpLive_def receive_def sendFirst_def exDelivery_def committedEgressBuffer_def Let_def)
  have "enduringOf (pmSent ?s) = map (publicationOf ''t'' ''s'') (filter committedEvent (pmReceived ?s))"
    using live_stream_has_no_holes [of exLiveOptions "''t''" "''s''" "\<lambda>_. None" exInputs] t by blast
  then show ?thesis unfolding r by (simp add: committedEvent_def exDelivery_def publicationOf_def)
qed

text \<open>The same of the pump of committed events alone, whose deliveries are all enduring.\<close>

definition egress_inv :: "tenant_id \<Rightarrow> session_id \<Rightarrow> Pump \<Rightarrow> bool" where
  "egress_inv tenant session s \<longleftrightarrow>
     prefix (enduringOf (pmSent s) @ enduringOf (pmPending s)) (map (publicationOf tenant session) (filter dlCommitted (pmReceived s))) \<and>
     length (pmPending s) \<le> committedEgressBuffer \<and> (\<forall>p\<in>set (pmPending s). \<exists>e. p = LEnduring e) \<and>
     (\<not> pmReturned s \<longrightarrow> enduringOf (pmSent s) @ enduringOf (pmPending s) = map (publicationOf tenant session) (filter dlCommitted (pmReceived s)))"

lemma pump_step_inv:
  assumes inv: "egress_inv tenant session s"
  shows "egress_inv tenant session (pump tenant session i s)"
proof (cases i)
  case PumpReceiverReady
  then show ?thesis using inv by (cases "pmPending s") (auto simp: egress_inv_def pump_def)
next
  case (PumpDelivery d)
  then show ?thesis using inv
    by (cases "pmReturned s"; cases "dlCommitted d"; cases "length (pmPending s) = committedEgressBuffer")
       (auto simp: egress_inv_def pump_def Let_def intro: prefix_snoc [THEN iffD2])
qed (use inv in \<open>auto simp: egress_inv_def pump_def\<close>)

lemma pump_run_inv: "egress_inv tenant session (pumpRun (pump tenant session) is newPump)"
proof (induction "is" rule: rev_induct)
  case Nil
  show ?case by (simp add: egress_inv_def newPump_def)
next
  case (snoc i xs)
  then show ?case using pump_step_inv by (simp add: pumpRun_append)
qed

end
