(* ===== verification/Spec2Isabelle.thy ===== *)
theory Spec2Isabelle
  imports Attach Disposition HostLink Teardown Warm Drain Gates PublicIndex Tail StoreAdapter ServiceLife Links Projectors Supervision WorkStates HarnessRuntime
begin

text \<open>
  \<^bold>\<open>A verification development of the looprig Host\<close>

  The Host makes sessions resident: it admits a session against its capacity, takes the
  session's lease, hydrates and launches its runtime, publishes the residency, consumes
  the session's durable commands while it is resident and gives everything back when the
  residency ends.  Many goroutines act on the same registry, ledger and leases, several
  Hosts act on the same durable stores, and a lease can be lost at any moment.

  \<^bold>\<open>Theories\<close>, in the order of their imports:

  \<^item> \<open>Host_Prelude\<close>: identifiers, the composite session key and its order, the wire error
    codes, generic lemmas on maps, words and UTF-8, the \<open>named_theorems\<close> collections.
  \<^item> \<open>Registry\<close> (\<^verbatim>\<open>internal/registry/registry.go\<close>): the table of resident sessions, each
    under a generation.  The locale \<open>generation_fenced\<close> states what every operation that
    names a generation promises; the operations interpret it.  An interleaving is a list
    of operations run by \<open>regRun\<close>.
  \<^item> \<open>Department\<close> (\<^verbatim>\<open>department/department.go\<close>, \<^verbatim>\<open>capabilities.go\<close>): launch targets and
    their validation.
  \<^item> \<open>HostConfig\<close> (\<^verbatim>\<open>internal/hostconfig\<close>): the options of a Host and their four phases of
    validation.
  \<^item> \<open>Capacity\<close> (\<^verbatim>\<open>internal/residency/capacity.go\<close>): the admission ledger and the
    target directory.  The locale \<open>charge_ledger\<close> is the contract of the ledger.
  \<^item> \<open>Fence\<close> (\<^verbatim>\<open>internal/residency/heartbeat.go\<close>, \<^verbatim>\<open>guard.go\<close>): the epoch fence and the Guard
    through which every durable write goes.  The locale \<open>fenced_writer\<close> states their laws;
    both interpret it.
  \<^item> \<open>Heartbeat\<close> (\<^verbatim>\<open>internal/residency/heartbeat.go\<close>): publication of a residency, its loss and
    its release.
  \<^item> \<open>Attach\<close> (\<^verbatim>\<open>internal/residency/manager.go\<close>): the attach sequence with its compensation,
    and the records of residencies.
  \<^item> \<open>Consumer\<close> (\<^verbatim>\<open>internal/commands/consumer.go\<close>): the command loop and its cursor.  The
    locale \<open>settling_processor\<close> is what the loop relies on in a processor.
  \<^item> \<open>Applier\<close> (\<^verbatim>\<open>internal/commands/apply.go\<close>, \<^verbatim>\<open>recovery.go\<close>): the protocol of one command
    and its recovery; it interprets \<open>settling_processor\<close>.

  \<^bold>\<open>How code becomes definitions.\<close>  A struct is a record, an enumeration a datatype, a
  \<^verbatim>\<open>uint64\<close> a 64-bit word, a map a partial function, an error a value of a sum or option
  type.  A critical section is one function on the state.  What the code does not own
  (stores, runtimes, clocks, contexts, Core's validators) is a record of answers or an
  argument, so a theorem holds for every answer; where other goroutines act between two
  critical sections the model lets an arbitrary list of their operations run at that point.

  \<^bold>\<open>Bounds.\<close>  Generations are 64-bit counters; the theorems on interleavings assume fewer
  than \<open>2 ^ 64\<close> operations, which is when the counter has not wrapped.  The consumer's
  rounds are counted: \<open>runPasses\<close> gets one more than the number of records beyond the
  cursor, which the theorem shows is enough.
\<close>

end
